(* ===== verification/LuaPrelude.thy ===== *)
theory LuaPrelude
  imports Main "HOL-Library.Word"
begin

text \<open>
  Prelude of the development: the names the components share for machine types, the errors a
  Lua operation can end with, the collections of rewrite rules the component theories fill, and
  generic lemmas on lists, naturals and words that no component owns.
\<close>

section \<open>Shared types\<close>

text \<open>\<open>lu_byte\<close>, \<open>unsigned int\<close> and a pointer on the usual 64-bit target.\<close>

type_synonym lu_byte = "8 word"
type_synonym uint = "32 word"
type_synonym ptr = "64 word"

text \<open>
  The ways an operation of the interpreter leaves its normal path. \<open>ErrRun\<close> is
  \<open>luaG_runerror\<close> or \<open>luaL_error\<close> with its message, \<open>ErrSyntax\<close> is
  \<open>luaX_lexerror\<close>, \<open>ErrMem\<close> is a failed allocation, \<open>ErrUndef\<close> a read outside a
  buffer (which C leaves undefined), \<open>ErrFuel\<close> marks that the
  bound of a bounded loop was used up (the theorems show where it cannot happen).
\<close>

datatype lua_error = ErrRun string | ErrSyntax string | ErrMem | ErrUndef | ErrFuel

type_synonym 'a res = "lua_error + 'a"

definition bindr :: "'a res \<Rightarrow> ('a \<Rightarrow> 'b res) \<Rightarrow> 'b res" where
  "bindr r f = (case r of Inl e \<Rightarrow> Inl e | Inr x \<Rightarrow> f x)"

lemma bindr_simps [simp]:
  "bindr (Inl e) f = Inl e"
  "bindr (Inr x) f = f x"
  by (simp_all add: bindr_def)

lemma bindr_Inr_iff: "bindr r f = Inr y \<longleftrightarrow> (\<exists>x. r = Inr x \<and> f x = Inr y)"
  by (cases r) auto

lemma bindr_Inl_iff:
  "bindr r f = Inl e \<longleftrightarrow> r = Inl e \<or> (\<exists>x. r = Inr x \<and> f x = Inl e)"
  by (cases r) auto

lemma bindr_cong [fundef_cong]:
  "r = r' \<Longrightarrow> (\<And>x. r' = Inr x \<Longrightarrow> f x = g x) \<Longrightarrow> bindr r f = bindr r' g"
  by (cases r') auto

lemma bindr_assoc: "bindr (bindr r f) g = bindr r (\<lambda>x. bindr (f x) g)"
  by (cases r) auto

named_theorems num_simps "rewrite rules for Lua numbers"
named_theorems op_simps "rewrite rules for instruction fields"
named_theorems tab_simps "rewrite rules for the table operations"

section \<open>Generic lemmas\<close>

lemma nat_div_mod_eqI:
  fixes a b d :: nat
  assumes "a div d = b div d" and "a mod d = b mod d"
  shows "a = b"
  using assms by (metis div_mult_mod_eq)

lemma div_mod_pack:
  fixes q r d :: nat
  assumes "r < d"
  shows "(q * d + r) div d = q" and "(q * d + r) mod d = r"
  using assms by auto

lemma unat_of_nat_lt:
  "n < 2 ^ LENGTH('a) \<Longrightarrow> unat (of_nat n :: 'a::len word) = n"
  by (simp add: unat_of_nat take_bit_nat_eq_self)

lemma bit_nat_lt: "n < 2 ^ k \<Longrightarrow> bit n j \<Longrightarrow> j < k" for n :: nat
  by (metis bit_take_bit_iff take_bit_nat_eq_self)

lemma distinct_card_filter:
  "distinct xs \<Longrightarrow> card {x \<in> set xs. P x} = length (filter P xs)"
  by (metis distinct_card distinct_filter set_filter)

end
