(* ===== verification/LuaNumber.thy ===== *)
theory LuaNumber
  imports LuaPrelude
begin

text \<open>
  \<open>lua_Number\<close> (luaconf.h): a C \<open>double\<close>, kept as its 64 bits. The operations are
  IEEE 754 binary64 with round-to-nearest-even, written over exact integers: a finite double is
  \<open>num_fix\<close> times 2 to the power -1074, and every result is rounded once by
  \<open>num_round\<close>. The \<open>luai_num*\<close> macros, \<open>lua_number2int\<close> and
  \<open>cast_num\<close> are the operations below; \<open>pow\<close> of libm is not modelled here.
  An undefined conversion of an out-of-range double to \<open>int\<close> gives \<open>INT_MIN\<close>, as
  the x86-64 instruction does; every use in the interpreter tests the result by converting it
  back. NaN results carry one fixed payload.
\<close>

section \<open>Representation\<close>

type_synonym lua_Number = "64 word"

definition num_sign :: "lua_Number \<Rightarrow> bool" where
  "num_sign w \<longleftrightarrow> 2 ^ 63 \<le> unat w"

definition num_mag :: "lua_Number \<Rightarrow> nat" where
  "num_mag w = unat w mod 2 ^ 63"

definition num_pack :: "bool \<Rightarrow> nat \<Rightarrow> lua_Number" where
  "num_pack s m = of_nat (m + (if s then 2 ^ 63 else 0))"

text \<open>The value of a magnitude, in units of the smallest subnormal.\<close>

definition mag_val :: "nat \<Rightarrow> nat" where
  "mag_val m = (if m < 2 ^ 52 then m else (2 ^ 52 + m mod 2 ^ 52) * 2 ^ (m div 2 ^ 52 - 1))"

definition mag_inf :: nat where
  "mag_inf = 2047 * 2 ^ 52"

definition num_isnan :: "lua_Number \<Rightarrow> bool" where
  "num_isnan w \<longleftrightarrow> mag_inf < num_mag w"

definition num_isinf :: "lua_Number \<Rightarrow> bool" where
  "num_isinf w \<longleftrightarrow> num_mag w = mag_inf"

definition num_fix :: "lua_Number \<Rightarrow> int" where
  "num_fix w = (if num_sign w then - int (mag_val (num_mag w)) else int (mag_val (num_mag w)))"

definition num_nan :: lua_Number where
  "num_nan = num_pack False (mag_inf + 2 ^ 51)"

definition num_inf :: "bool \<Rightarrow> lua_Number" where
  "num_inf s = num_pack s mag_inf"

section \<open>Rounding\<close>

fun bitlen :: "nat \<Rightarrow> nat" where
  "bitlen n = (if n = 0 then 0 else Suc (bitlen (n div 2)))"

declare bitlen.simps [simp del]

text \<open>The magnitude nearest to \<open>num / den\<close> (ties to even), infinity when it is too big.\<close>

definition round_mag :: "nat \<Rightarrow> nat \<Rightarrow> nat" where
  "round_mag num den =
     (let s = bitlen (num div den) - 53;
          d = den * 2 ^ s;
          q = num div d;
          r = num mod d;
          q' = (if d < 2 * r \<or> (2 * r = d \<and> odd q) then q + 1 else q)
      in min (s * 2 ^ 52 + q') mag_inf)"

definition num_round :: "bool \<Rightarrow> nat \<Rightarrow> nat \<Rightarrow> lua_Number" where
  "num_round s num den = num_pack s (round_mag num den)"

section \<open>The operations\<close>

definition unit_fix :: nat where
  "unit_fix = 2 ^ 1074"

definition cast_num :: "int \<Rightarrow> lua_Number" where
  "cast_num k = num_round (k < 0) (nat \<bar>k\<bar> * unit_fix) 1"

definition num_eq :: "lua_Number \<Rightarrow> lua_Number \<Rightarrow> bool" where
  "num_eq a b \<longleftrightarrow> \<not> num_isnan a \<and> \<not> num_isnan b \<and> num_fix a = num_fix b"

definition num_lt :: "lua_Number \<Rightarrow> lua_Number \<Rightarrow> bool" where
  "num_lt a b \<longleftrightarrow> \<not> num_isnan a \<and> \<not> num_isnan b \<and> num_fix a < num_fix b"

definition num_le :: "lua_Number \<Rightarrow> lua_Number \<Rightarrow> bool" where
  "num_le a b \<longleftrightarrow> \<not> num_isnan a \<and> \<not> num_isnan b \<and> num_fix a \<le> num_fix b"

definition luai_numisnan :: "lua_Number \<Rightarrow> bool" where
  "luai_numisnan a \<longleftrightarrow> \<not> num_eq a a"

definition num_unm :: "lua_Number \<Rightarrow> lua_Number" where
  "num_unm a = num_pack (\<not> num_sign a) (num_mag a)"

definition num_add :: "lua_Number \<Rightarrow> lua_Number \<Rightarrow> lua_Number" where
  "num_add a b =
     (if num_isnan a \<or> num_isnan b then num_nan
      else if num_isinf a then
        (if num_isinf b \<and> num_sign a \<noteq> num_sign b then num_nan else a)
      else if num_isinf b then b
      else let x = num_fix a + num_fix b in
        if x = 0 then num_pack (num_sign a \<and> num_sign b) 0
        else num_round (x < 0) (nat \<bar>x\<bar>) 1)"

definition num_sub :: "lua_Number \<Rightarrow> lua_Number \<Rightarrow> lua_Number" where
  "num_sub a b = (if num_isnan b then num_nan else num_add a (num_unm b))"

definition num_mul :: "lua_Number \<Rightarrow> lua_Number \<Rightarrow> lua_Number" where
  "num_mul a b =
     (if num_isnan a \<or> num_isnan b then num_nan
      else if num_isinf a \<or> num_isinf b then
        (if num_mag a = 0 \<or> num_mag b = 0 then num_nan else num_inf (num_sign a \<noteq> num_sign b))
      else num_round (num_sign a \<noteq> num_sign b)
             (mag_val (num_mag a) * mag_val (num_mag b)) unit_fix)"

definition num_div :: "lua_Number \<Rightarrow> lua_Number \<Rightarrow> lua_Number" where
  "num_div a b =
     (if num_isnan a \<or> num_isnan b then num_nan
      else if num_isinf a then
        (if num_isinf b then num_nan else num_inf (num_sign a \<noteq> num_sign b))
      else if num_isinf b then num_pack (num_sign a \<noteq> num_sign b) 0
      else if num_mag b = 0 then
        (if num_mag a = 0 then num_nan else num_inf (num_sign a \<noteq> num_sign b))
      else num_round (num_sign a \<noteq> num_sign b)
             (mag_val (num_mag a) * unit_fix) (mag_val (num_mag b)))"

definition num_floor :: "lua_Number \<Rightarrow> lua_Number" where
  "num_floor a =
     (if num_isnan a \<or> num_isinf a \<or> num_fix a mod int unit_fix = 0 then a
      else let q = num_fix a div int unit_fix in
        num_round (q < 0) (nat \<bar>q\<bar> * unit_fix) 1)"

text \<open>\<open>luai_nummod(a,b)\<close> is \<open>((a) - floor((a)/(b))*(b))\<close>.\<close>

definition num_mod :: "lua_Number \<Rightarrow> lua_Number \<Rightarrow> lua_Number" where
  "num_mod a b = num_sub a (num_mul (num_floor (num_div a b)) b)"

definition num_trunc :: "lua_Number \<Rightarrow> int" where
  "num_trunc a = sgn (num_fix a) * (\<bar>num_fix a\<bar> div int unit_fix)"

definition lua_number2int :: "lua_Number \<Rightarrow> int" where
  "lua_number2int a =
     (let t = num_trunc a in
      if num_isnan a \<or> t < - (2 ^ 31) \<or> 2 ^ 31 \<le> t then - (2 ^ 31) else t)"

text \<open>\<open>lua_Integer\<close> is \<open>ptrdiff_t\<close>, of 64 bits; \<open>cast_int\<close> is the cast \<open>(int)\<close> of a wider
  integer, which keeps the low 32 bits.\<close>

definition lua_number2integer :: "lua_Number \<Rightarrow> int" where
  "lua_number2integer a =
     (let t = num_trunc a in
      if num_isnan a \<or> t < - (2 ^ 63) \<or> 2 ^ 63 \<le> t then - (2 ^ 63) else t)"

definition cast_int :: "int \<Rightarrow> int" where
  "cast_int i = (i + 2 ^ 31) mod 2 ^ 32 - 2 ^ 31"

section \<open>Facts about the representation\<close>

lemma mag_inf_lt: "mag_inf < 2 ^ 63"
  by (simp add: mag_inf_def)

lemma unit_fix_pos [simp]: "0 < unit_fix" "unit_fix \<noteq> 0"
  by (simp_all add: unit_fix_def)

lemma num_mag_lt: "num_mag w < 2 ^ 63"
  by (simp add: num_mag_def)

lemma unat_num_pack:
  assumes "m < 2 ^ 63"
  shows "unat (num_pack s m) = m + (if s then 2 ^ 63 else 0)"
  unfolding num_pack_def by (rule unat_of_nat_lt) (use assms in auto)

lemma num_mag_pack [simp]: "m < 2 ^ 63 \<Longrightarrow> num_mag (num_pack s m) = m"
  unfolding num_mag_def by (subst unat_num_pack) auto

lemma num_sign_pack [simp]: "m < 2 ^ 63 \<Longrightarrow> num_sign (num_pack s m) = s"
  unfolding num_sign_def by (subst unat_num_pack) auto

lemma split_high:
  fixes x M :: nat
  assumes "x < 2 * M"
  shows "x = x mod M + (if M \<le> x then M else 0)"
  using assms by (cases "M \<le> x") (auto simp: le_mod_geq)

lemma unat_sign_mag: "unat w = num_mag w + (if num_sign w then 2 ^ 63 else 0)"
proof -
  have "unat w < 2 * 2 ^ 63" using unsigned_less [of w] by simp
  then show ?thesis unfolding num_mag_def num_sign_def by (rule split_high)
qed

lemma num_pack_self [simp]: "num_pack (num_sign w) (num_mag w) = w"
proof -
  have "unat (num_pack (num_sign w) (num_mag w)) = num_mag w + (if num_sign w then 2 ^ 63 else 0)"
    by (rule unat_num_pack) (rule num_mag_lt)
  also have "\<dots> = unat w"
    using unat_sign_mag [of w] by argo
  finally show ?thesis
    by (simp only: word_unat_eq_iff)
qed

lemma num_eqI_sign_mag: "num_sign a = num_sign b \<Longrightarrow> num_mag a = num_mag b \<Longrightarrow> a = b"
  by (rule box_equals [OF _ num_pack_self num_pack_self]) simp

lemma mag_val_step: "mag_val m < mag_val (Suc m)"
proof (cases "m < 2 ^ 52")
  case True
  show ?thesis
  proof (cases "Suc m < 2 ^ 52")
    case False
    with True have "Suc m = 2 ^ 52" by simp
    then have "mag_val (Suc m) = 2 ^ 52" by (simp add: mag_val_def)
    with True show ?thesis by (simp add: mag_val_def)
  qed (simp add: mag_val_def)
next
  case False
  define e f where "e = m div 2 ^ 52" and "f = m mod 2 ^ 52"
  have m: "m = e * 2 ^ 52 + f" and f: "f < 2 ^ 52" and e: "1 \<le> e"
    using False by (simp_all add: e_def f_def div_greater_zero_iff Suc_le_eq)
  have vm: "mag_val m = (2 ^ 52 + f) * 2 ^ (e - 1)"
    using False by (simp only: mag_val_def e_def f_def if_False)
  have vS: "mag_val (Suc m) = (2 ^ 52 + Suc m mod 2 ^ 52) * 2 ^ (Suc m div 2 ^ 52 - 1)"
    using False by (simp add: mag_val_def)
  show ?thesis
  proof (cases "Suc f < 2 ^ 52")
    case True
    have "Suc m = e * 2 ^ 52 + Suc f" by (simp add: m)
    then have "Suc m div 2 ^ 52 = e" "Suc m mod 2 ^ 52 = Suc f"
      using div_mod_pack [OF True, of e] by simp_all
    moreover have "(2 ^ 52 + f) * 2 ^ (e - 1) < (2 ^ 52 + Suc f) * (2::nat) ^ (e - 1)"
      by simp
    ultimately show ?thesis by (simp only: vm vS)
  next
    case f2: False
    with f have "Suc m = Suc e * 2 ^ 52 + 0" by (simp add: m)
    then have "Suc m div 2 ^ 52 = Suc e" "Suc m mod 2 ^ 52 = 0"
      using div_mod_pack [of 0 "2 ^ 52" "Suc e"] by simp_all
    moreover have "(2 ^ 52 + f) * 2 ^ (e - 1) < 2 ^ 52 * 2 ^ e"
    proof -
      have "(2 ^ 52 + f) * 2 ^ (e - 1) < (2 ^ 52 * 2) * (2::nat) ^ (e - 1)"
        using f by (intro mult_strict_right_mono) auto
      also have "\<dots> = 2 ^ 52 * 2 ^ e" using e by (cases e) auto
      finally show ?thesis .
    qed
    ultimately show ?thesis by (simp only: vm vS) simp
  qed
qed

lemma mag_val_strict_mono: "strict_mono mag_val"
  by (simp add: strict_mono_Suc_iff mag_val_step)

lemma mag_val_less_iff [simp]: "mag_val a < mag_val b \<longleftrightarrow> a < b"
  by (rule strict_mono_less [OF mag_val_strict_mono])

lemma mag_val_eq_iff [simp]: "mag_val a = mag_val b \<longleftrightarrow> a = b"
  by (rule strict_mono_eq [OF mag_val_strict_mono])

lemma mag_val_0 [simp]: "mag_val 0 = 0"
  by (simp add: mag_val_def)

lemma mag_val_eq_0 [simp]: "mag_val a = 0 \<longleftrightarrow> a = 0"
  by (metis mag_val_0 mag_val_eq_iff)

lemma num_fix_eq_iff:
  "num_fix a = num_fix b \<longleftrightarrow> a = b \<or> num_mag a = 0 \<and> num_mag b = 0"
proof (cases "num_sign a = num_sign b")
  case True
  then show ?thesis by (auto simp: num_fix_def intro: num_eqI_sign_mag)
next
  case False
  have neg: "- int x = int y \<longleftrightarrow> x = 0 \<and> y = 0" "int y = - int x \<longleftrightarrow> x = 0 \<and> y = 0" for x y
    by auto
  from False show ?thesis by (auto simp: num_fix_def neg)
qed

lemma num_fix_eq_0: "num_fix a = 0 \<longleftrightarrow> num_mag a = 0"
  by (simp add: num_fix_def)

section \<open>Rounding is exact on representable values\<close>

lemma bitlen_0 [simp]: "bitlen 0 = 0"
  by (simp add: bitlen.simps)

lemma bitlen_pos: "0 < n \<Longrightarrow> bitlen n = Suc (bitlen (n div 2))"
  by (simp add: bitlen.simps)

lemma bitlen_le: "n < 2 ^ k \<Longrightarrow> bitlen n \<le> k"
proof (induction k arbitrary: n)
  case (Suc k)
  then have "n div 2 < 2 ^ k" by simp
  from Suc.IH [OF this] show ?case by (cases "n = 0") (simp_all add: bitlen_pos)
qed simp

lemma bitlen_shift: "0 < n \<Longrightarrow> bitlen (n * 2 ^ k) = bitlen n + k"
  by (induction k) (simp_all add: bitlen_pos [of "n * (2 * 2 ^ _)"])

lemma bitlen_bounds: "0 < n \<Longrightarrow> 2 ^ (bitlen n - 1) \<le> n \<and> n < 2 ^ bitlen n"
proof (induction n rule: bitlen.induct)
  case (1 n)
  show ?case
  proof (cases "n div 2 = 0")
    case True
    with 1 have "n = 1" by auto
    then show ?thesis by (simp add: bitlen_pos)
  next
    case False
    with 1 have "2 ^ (bitlen (n div 2) - 1) \<le> n div 2 \<and> n div 2 < 2 ^ bitlen (n div 2)"
      by auto
    moreover from False have "0 < bitlen (n div 2)" by (simp add: bitlen_pos)
    then have "(2::nat) ^ bitlen (n div 2) = 2 * 2 ^ (bitlen (n div 2) - 1)"
      by (cases "bitlen (n div 2)") auto
    ultimately show ?thesis using 1(2) by (simp add: bitlen_pos [of n]) linarith
  qed
qed

lemma bitlen_eq: "2 ^ k \<le> n \<Longrightarrow> n < 2 ^ Suc k \<Longrightarrow> bitlen n = Suc k"
proof -
  assume a: "2 ^ k \<le> n" "n < 2 ^ Suc k"
  then have n: "0 < n" by (meson less_le_trans zero_less_numeral zero_less_power)
  from bitlen_le [OF a(2)] have "bitlen n \<le> Suc k" .
  moreover from a(1) bitlen_bounds [OF n] have "2 ^ k < (2::nat) ^ bitlen n" by linarith
  then have "k < bitlen n" by simp
  ultimately show ?thesis by simp
qed

lemma round_mag_mag_val:
  assumes "m \<le> mag_inf"
  shows "round_mag (mag_val m) 1 = m"
proof (cases "m < 2 ^ 53")
  case True
  have v: "mag_val m = m"
  proof (cases "m < 2 ^ 52")
    case False
    with True have "m div 2 ^ 52 = 1" "m = 2 ^ 52 + m mod 2 ^ 52"
      by (auto simp: le_div_geq not_less le_mod_geq)
    then show ?thesis by (auto simp: mag_val_def)
  qed (simp add: mag_val_def)
  from bitlen_le [OF True] have "bitlen m - 53 = 0" by simp
  with assms show ?thesis by (simp add: round_mag_def Let_def v)
next
  case False
  define e f where "e = m div 2 ^ 52" and "f = m mod 2 ^ 52"
  have m: "m = e * 2 ^ 52 + f" and f: "f < 2 ^ 52" by (simp_all add: e_def f_def)
  have e: "1 \<le> e" using False by (simp add: e_def div_greater_zero_iff Suc_le_eq)
  have v: "mag_val m = (2 ^ 52 + f) * 2 ^ (e - 1)"
    using False by (simp add: mag_val_def e_def f_def)
  have "bitlen (2 ^ 52 + f) = 53" using bitlen_eq [of 52 "2 ^ 52 + f"] f by simp
  then have b: "bitlen (mag_val m) - 53 = e - 1" by (simp add: v bitlen_shift)
  have "(e - 1) * 2 ^ 52 + (2 ^ 52 + f) = m" using e by (cases e) (simp_all add: m)
  then show ?thesis using assms by (simp add: round_mag_def Let_def b) (simp add: v)
qed

lemma num_round_exact:
  "num_mag w \<le> mag_inf \<Longrightarrow> num_round s (mag_val (num_mag w)) 1 = num_pack s (num_mag w)"
  by (simp only: num_round_def round_mag_mag_val)


section \<open>Equality and order\<close>

lemma num_eq_refl: "\<not> num_isnan a \<Longrightarrow> num_eq a a"
  by (simp add: num_eq_def)

lemma num_eq_sym: "num_eq a b \<Longrightarrow> num_eq b a"
  by (simp add: num_eq_def)

lemma num_eq_trans: "num_eq a b \<Longrightarrow> num_eq b c \<Longrightarrow> num_eq a c"
  by (simp add: num_eq_def)

lemma luai_numisnan_iff [num_simps]: "luai_numisnan a \<longleftrightarrow> num_isnan a"
  by (auto simp: luai_numisnan_def num_eq_def)

text \<open>Equal doubles have equal bits, the two zeros excepted.\<close>

lemma num_eq_bits: "num_eq a b \<Longrightarrow> a = b \<or> num_mag a = 0 \<and> num_mag b = 0"
  by (simp add: num_eq_def num_fix_eq_iff)

lemma num_trichotomy:
  "\<not> num_isnan a \<Longrightarrow> \<not> num_isnan b \<Longrightarrow> num_lt a b \<or> num_eq a b \<or> num_lt b a"
  by (auto simp: num_lt_def num_eq_def)

lemma num_le_iff: "num_le a b \<longleftrightarrow> num_lt a b \<or> num_eq a b"
  by (auto simp: num_le_def num_lt_def num_eq_def)

section \<open>Integers as doubles\<close>

text \<open>The magnitude of an integer below 2 to the 53, without the detour through units.\<close>

definition int_mag :: "nat \<Rightarrow> nat" where
  "int_mag n = (if n = 0 then 0 else (1021 + bitlen n) * 2 ^ 52 + n * 2 ^ (53 - bitlen n))"

lemma int_mag_props:
  assumes "n < 2 ^ 53"
  shows "mag_val (int_mag n) = n * unit_fix" and "int_mag n < mag_inf"
proof -
  have "mag_val (int_mag n) = n * unit_fix \<and> int_mag n < mag_inf"
  proof (cases "n = 0")
    case False
    define L where "L = bitlen n"
    define f where "f = n * 2 ^ (53 - L) - 2 ^ 52"
    have L: "1 \<le> L" "L \<le> 53"
      using False bitlen_le [OF assms] by (simp_all add: L_def bitlen_pos)
    have b: "2 ^ (L - 1) \<le> n" "n < 2 ^ L"
      using bitlen_bounds [of n] False by (simp_all add: L_def)
    have "2 ^ (L - 1) * 2 ^ (53 - L) \<le> n * 2 ^ (53 - L)"
      using b(1) by (rule mult_le_mono1)
    moreover have "2 ^ (L - 1) * 2 ^ (53 - L) = (2::nat) ^ 52"
      using L by (simp flip: power_add)
    ultimately have lo: "2 ^ 52 \<le> n * 2 ^ (53 - L)" by (simp only:)
    have "n * 2 ^ (53 - L) < 2 ^ L * 2 ^ (53 - L)"
      using b(2) by (simp only: mult_less_mono1 zero_less_power zero_less_numeral)
    moreover have "2 ^ L * 2 ^ (53 - L) = (2::nat) ^ 53"
      using L by (simp flip: power_add)
    ultimately have hi: "n * 2 ^ (53 - L) < 2 ^ 53" by (simp only:)
    from lo hi have f: "f < 2 ^ 52" "n * 2 ^ (53 - L) = 2 ^ 52 + f" by (simp_all add: f_def)
    have m: "int_mag n = (1022 + L) * 2 ^ 52 + f"
      using False f(2) by (simp add: int_mag_def L_def algebra_simps)
    have dm: "int_mag n div 2 ^ 52 = 1022 + L" "int_mag n mod 2 ^ 52 = f"
      unfolding m by (rule div_mod_pack [OF f(1)])+
    have "\<not> int_mag n < 2 ^ 52" unfolding m by simp
    then have "mag_val (int_mag n) = (2 ^ 52 + f) * 2 ^ (1022 + L - 1)"
      by (simp only: mag_val_def dm if_False)
    also have "1022 + L - 1 = 1021 + L" by simp
    also have "(2 ^ 52 + f) * 2 ^ (1021 + L) = n * (2 ^ (53 - L) * 2 ^ (1021 + L))"
      by (simp only: f(2) [symmetric] mult.assoc)
    also have "2 ^ (53 - L) * 2 ^ (1021 + L) = unit_fix"
      unfolding unit_fix_def power_add [symmetric] using L by simp
    finally have v: "mag_val (int_mag n) = n * unit_fix" .
    have "(1022 + L) * 2 ^ 52 \<le> (1022 + 53) * (2::nat) ^ 52"
      using L by (intro mult_le_mono1) simp
    with f(1) have "int_mag n < mag_inf" unfolding m mag_inf_def by simp
    with v show ?thesis by simp
  qed (simp add: int_mag_def mag_inf_def)
  then show "mag_val (int_mag n) = n * unit_fix" and "int_mag n < mag_inf" by simp_all
qed

lemma cast_num_pack:
  assumes "\<bar>k\<bar> < 2 ^ 53"
  shows "cast_num k = num_pack (k < 0) (int_mag (nat \<bar>k\<bar>))"
proof -
  have n: "nat \<bar>k\<bar> < 2 ^ 53" using assms by (simp add: nat_less_iff)
  have "round_mag (nat \<bar>k\<bar> * unit_fix) 1 = int_mag (nat \<bar>k\<bar>)"
    using round_mag_mag_val [of "int_mag (nat \<bar>k\<bar>)"] int_mag_props [OF n] by simp
  then show ?thesis by (simp add: cast_num_def num_round_def)
qed

lemma cast_num_parts:
  assumes "\<bar>k\<bar> < 2 ^ 53"
  shows "num_sign (cast_num k) \<longleftrightarrow> k < 0" and "num_mag (cast_num k) = int_mag (nat \<bar>k\<bar>)"
    and "\<not> num_isnan (cast_num k)" and "\<not> num_isinf (cast_num k)"
    and "num_fix (cast_num k) = k * int unit_fix"
proof -
  have n: "nat \<bar>k\<bar> < 2 ^ 53" using assms by (simp add: nat_less_iff)
  have lt: "int_mag (nat \<bar>k\<bar>) < 2 ^ 63"
    using int_mag_props(2) [OF n] mag_inf_lt by (rule less_trans)
  show s: "num_sign (cast_num k) \<longleftrightarrow> k < 0" and m: "num_mag (cast_num k) = int_mag (nat \<bar>k\<bar>)"
    using lt by (simp_all only: cast_num_pack [OF assms] num_sign_pack num_mag_pack)
  show "\<not> num_isnan (cast_num k)" and "\<not> num_isinf (cast_num k)"
    using int_mag_props(2) [OF n] by (simp_all add: num_isnan_def num_isinf_def m)
  show "num_fix (cast_num k) = k * int unit_fix"
    using int_mag_props(1) [OF n] by (auto simp: num_fix_def s m)
qed

lemma num_eq_cast [num_simps]:
  "\<bar>j\<bar> < 2 ^ 53 \<Longrightarrow> \<bar>k\<bar> < 2 ^ 53 \<Longrightarrow> num_eq (cast_num j) (cast_num k) \<longleftrightarrow> j = k"
  by (simp add: num_eq_def cast_num_parts)

lemma num_lt_cast [num_simps]:
  "\<bar>j\<bar> < 2 ^ 53 \<Longrightarrow> \<bar>k\<bar> < 2 ^ 53 \<Longrightarrow> num_lt (cast_num j) (cast_num k) \<longleftrightarrow> j < k"
  by (simp add: num_lt_def cast_num_parts)

lemma num_le_cast [num_simps]:
  "\<bar>j\<bar> < 2 ^ 53 \<Longrightarrow> \<bar>k\<bar> < 2 ^ 53 \<Longrightarrow> num_le (cast_num j) (cast_num k) \<longleftrightarrow> j \<le> k"
  by (simp add: num_le_def cast_num_parts)

lemma num_trunc_cast: "\<bar>k\<bar> < 2 ^ 53 \<Longrightarrow> num_trunc (cast_num k) = k"
  by (simp add: num_trunc_def cast_num_parts abs_mult sgn_mult sgn_mult_abs)

lemma number2int_cast [num_simps]:
  assumes "- (2 ^ 31) \<le> k" "k < 2 ^ 31"
  shows "lua_number2int (cast_num k) = k"
proof -
  from assms have "\<bar>k\<bar> < 2 ^ 53" by simp
  with assms show ?thesis by (simp add: lua_number2int_def Let_def num_trunc_cast cast_num_parts)
qed

lemma number2integer_cast [num_simps]:
  assumes "\<bar>k\<bar> < 2 ^ 53"
  shows "lua_number2integer (cast_num k) = k"
  using assms by (simp add: lua_number2integer_def Let_def num_trunc_cast cast_num_parts abs_less_iff)

lemma cast_int_id [simp]: "- (2 ^ 31) \<le> i \<Longrightarrow> i < 2 ^ 31 \<Longrightarrow> cast_int i = i"
  by (simp add: cast_int_def)

lemma cast_int_range: "- (2 ^ 31) \<le> cast_int i \<and> cast_int i < 2 ^ 31"
  by (simp add: cast_int_def)

lemma number2int_range: "- (2 ^ 31) \<le> lua_number2int a \<and> lua_number2int a < 2 ^ 31"
  by (simp add: lua_number2int_def Let_def)

lemma number2int_eq:
  "num_eq a b \<Longrightarrow> lua_number2int a = lua_number2int b"
  by (simp add: lua_number2int_def num_trunc_def num_eq_def Let_def)

lemma number2int_unique:
  assumes "num_eq (cast_num k) a" "- (2 ^ 31) \<le> k" "k < 2 ^ 31"
  shows "lua_number2int a = k"
  using number2int_eq [OF assms(1)] number2int_cast [OF assms(2,3)] by simp

section \<open>Integer arithmetic is exact\<close>

lemma num_round_cast:
  assumes "\<bar>k\<bar> < 2 ^ 53"
  shows "num_round (k < 0) (nat \<bar>k * int unit_fix\<bar>) 1 = cast_num k"
  by (simp add: cast_num_def abs_mult nat_mult_distrib)

lemma num_add_cast [num_simps]:
  assumes "\<bar>j\<bar> < 2 ^ 53" "\<bar>k\<bar> < 2 ^ 53" "\<bar>j + k\<bar> < 2 ^ 53"
  shows "num_add (cast_num j) (cast_num k) = cast_num (j + k)"
proof -
  have x: "num_fix (cast_num j) + num_fix (cast_num k) = (j + k) * int unit_fix"
    using assms by (simp add: cast_num_parts distrib_right)
  have z: "cast_num 0 = num_pack False 0"
    by (simp add: cast_num_pack int_mag_def)
  have neg: "(j + k) * int unit_fix < 0 \<longleftrightarrow> j + k < 0"
    by (simp add: mult_less_0_iff)
  show ?thesis
  proof (cases "j + k = 0")
    case True
    then have nn: "(j < 0 \<and> k < 0) = False" by auto
    have "num_add (cast_num j) (cast_num k) = num_pack False 0"
      unfolding num_add_def x using assms True by (simp add: cast_num_parts(1,3,4) Let_def nn)
    with True show ?thesis by (simp add: z)
  next
    case False
    then show ?thesis
      using assms num_round_cast [OF assms(3)]
      by (simp add: num_add_def cast_num_parts(3,4) x Let_def neg)
  qed
qed

lemma num_unm_cast:
  assumes "\<bar>k\<bar> < 2 ^ 53" "k \<noteq> 0"
  shows "num_unm (cast_num k) = cast_num (- k)"
proof -
  have k: "\<bar>- k\<bar> < 2 ^ 53" using assms by simp
  have "(\<not> k < 0) = (- k < 0)" using assms(2) by linarith
  then show ?thesis
    by (simp add: num_unm_def cast_num_parts(1,2) [OF assms(1)] cast_num_pack [OF k])
qed

lemma num_sub_cast [num_simps]:
  assumes "\<bar>j\<bar> < 2 ^ 53" "\<bar>k\<bar> < 2 ^ 53" "\<bar>j - k\<bar> < 2 ^ 53"
  shows "num_sub (cast_num j) (cast_num k) = cast_num (j - k)"
proof (cases "k = 0")
  case True
  have m0: "num_mag (num_unm (cast_num 0)) = 0" "num_sign (num_unm (cast_num 0))"
    by (simp_all add: num_unm_def cast_num_parts int_mag_def)
  then have n0: "num_fix (num_unm (cast_num 0)) = 0" "\<not> num_isnan (num_unm (cast_num 0))"
    "\<not> num_isinf (num_unm (cast_num 0))"
    by (simp_all add: num_fix_eq_0 num_isnan_def num_isinf_def mag_inf_def)
  show ?thesis
  proof (cases "j = 0")
    case True
    have z: "num_pack False 0 = cast_num 0"
      by (simp add: cast_num_pack int_mag_def)
    from True \<open>k = 0\<close> show ?thesis
      by (simp add: num_sub_def num_add_def cast_num_parts n0 Let_def z)
  next
    case False
    then have "num_sub (cast_num j) (cast_num 0) = cast_num j"
      using num_round_cast [OF assms(1)] assms(1)
      by (simp add: num_sub_def num_add_def cast_num_parts(3-5) n0 Let_def mult_less_0_iff)
    with True show ?thesis by simp
  qed
next
  case False
  then show ?thesis
    using assms by (simp add: num_sub_def num_unm_cast num_add_cast cast_num_parts)
qed

end
