(* ===== verification/LuaObject.thy ===== *)
theory LuaObject
  imports LuaNumber
begin

text \<open>
  Values and the small generic routines of lobject.h and lobject.c: tagged values, raw equality,
  the floating-point byte, the integer logarithm and chunk identifiers. A collectable value is
  the address of its object; the objects live in the states of the components that own them.
\<close>

unbundle bit_operations_syntax

section \<open>Tagged values\<close>

text \<open>\<open>TDeadKey\<close> is the tag a table key gets when its object was collected: it keeps the address.\<close>

datatype TValue =
    TNil
  | TBool bool
  | TLightUD ptr
  | TNumber lua_Number
  | TStr ptr
  | TTab ptr
  | TFun ptr
  | TUData ptr
  | TThr ptr
  | TDeadKey ptr

definition LUA_TNIL :: nat where "LUA_TNIL = 0"
definition LUA_TBOOLEAN :: nat where "LUA_TBOOLEAN = 1"
definition LUA_TLIGHTUSERDATA :: nat where "LUA_TLIGHTUSERDATA = 2"
definition LUA_TNUMBER :: nat where "LUA_TNUMBER = 3"
definition LUA_TSTRING :: nat where "LUA_TSTRING = 4"
definition LUA_TTABLE :: nat where "LUA_TTABLE = 5"
definition LUA_TFUNCTION :: nat where "LUA_TFUNCTION = 6"
definition LUA_TUSERDATA :: nat where "LUA_TUSERDATA = 7"
definition LUA_TTHREAD :: nat where "LUA_TTHREAD = 8"
definition LUA_TPROTO :: nat where "LUA_TPROTO = LUA_TTHREAD + 1"
definition LUA_TUPVAL :: nat where "LUA_TUPVAL = LUA_TTHREAD + 2"
definition LUA_TDEADKEY :: nat where "LUA_TDEADKEY = LUA_TTHREAD + 3"

lemmas tag_defs = LUA_TNIL_def LUA_TBOOLEAN_def LUA_TLIGHTUSERDATA_def LUA_TNUMBER_def
  LUA_TSTRING_def LUA_TTABLE_def LUA_TFUNCTION_def LUA_TUSERDATA_def LUA_TTHREAD_def
  LUA_TPROTO_def LUA_TUPVAL_def LUA_TDEADKEY_def

fun ttype :: "TValue \<Rightarrow> nat" where
  "ttype TNil = LUA_TNIL"
| "ttype (TBool _) = LUA_TBOOLEAN"
| "ttype (TLightUD _) = LUA_TLIGHTUSERDATA"
| "ttype (TNumber _) = LUA_TNUMBER"
| "ttype (TStr _) = LUA_TSTRING"
| "ttype (TTab _) = LUA_TTABLE"
| "ttype (TFun _) = LUA_TFUNCTION"
| "ttype (TUData _) = LUA_TUSERDATA"
| "ttype (TThr _) = LUA_TTHREAD"
| "ttype (TDeadKey _) = LUA_TDEADKEY"

definition iscollectable :: "TValue \<Rightarrow> bool" where
  "iscollectable v \<longleftrightarrow> LUA_TSTRING \<le> ttype v"

text \<open>\<open>gcvalue\<close>: the address of a collectable value's object.\<close>

fun gcvalue :: "TValue \<Rightarrow> ptr" where
  "gcvalue (TStr p) = p"
| "gcvalue (TTab p) = p"
| "gcvalue (TFun p) = p"
| "gcvalue (TUData p) = p"
| "gcvalue (TThr p) = p"
| "gcvalue (TDeadKey p) = p"
| "gcvalue _ = 0"

definition l_isfalse :: "TValue \<Rightarrow> bool" where
  "l_isfalse v \<longleftrightarrow> (case v of TNil \<Rightarrow> True | TBool b \<Rightarrow> \<not> b | _ \<Rightarrow> False)"

definition luaO_nilobject :: TValue where
  "luaO_nilobject = TNil"

definition luaO_rawequalObj :: "TValue \<Rightarrow> TValue \<Rightarrow> bool" where
  "luaO_rawequalObj t1 t2 =
     (if ttype t1 \<noteq> ttype t2 then False
      else case t1 of
        TNil \<Rightarrow> True
      | TNumber a \<Rightarrow> (case t2 of TNumber b \<Rightarrow> num_eq a b | _ \<Rightarrow> False)
      | TBool a \<Rightarrow> (case t2 of TBool b \<Rightarrow> a = b | _ \<Rightarrow> False)
      | TLightUD a \<Rightarrow> (case t2 of TLightUD b \<Rightarrow> a = b | _ \<Rightarrow> False)
      | _ \<Rightarrow> gcvalue t1 = gcvalue t2)"

text \<open>Off numbers, raw equality is equality of tagged values.\<close>

lemma rawequal_iff:
  "luaO_rawequalObj a b \<longleftrightarrow>
     (case (a, b) of (TNumber x, TNumber y) \<Rightarrow> num_eq x y | _ \<Rightarrow> a = b)"
  by (cases a; cases b) (simp_all add: luaO_rawequalObj_def tag_defs)

lemma rawequal_simps [simp]:
  "luaO_rawequalObj (TNumber x) (TNumber y) = num_eq x y"
  "\<not> (\<exists>x. a = TNumber x) \<Longrightarrow> luaO_rawequalObj a b \<longleftrightarrow> a = b"
  "\<not> (\<exists>y. b = TNumber y) \<Longrightarrow> luaO_rawequalObj a b \<longleftrightarrow> a = b"
  by (auto simp: rawequal_iff split: TValue.splits)

lemma rawequal_sym: "luaO_rawequalObj a b \<Longrightarrow> luaO_rawequalObj b a"
  by (auto simp: rawequal_iff num_eq_sym split: TValue.splits)

lemma rawequal_trans: "luaO_rawequalObj a b \<Longrightarrow> luaO_rawequalObj b c \<Longrightarrow> luaO_rawequalObj a c"
  by (auto simp: rawequal_iff intro: num_eq_trans split: TValue.splits)

text \<open>Every value but NaN equals itself.\<close>

definition is_nan_value :: "TValue \<Rightarrow> bool" where
  "is_nan_value v \<longleftrightarrow> (case v of TNumber n \<Rightarrow> luai_numisnan n | _ \<Rightarrow> False)"

lemma rawequal_refl_iff: "luaO_rawequalObj a a \<longleftrightarrow> \<not> is_nan_value a"
  by (cases a) (simp_all add: rawequal_iff is_nan_value_def luai_numisnan_def)

section \<open>The floating-point byte\<close>

fun int2fb_loop :: "nat \<Rightarrow> nat \<Rightarrow> nat \<times> nat" where
  "int2fb_loop x e =
     (if 16 \<le> x then int2fb_loop (((x + 1) mod 2 ^ 32) div 2) (e + 1) else (x, e))"

declare int2fb_loop.simps [simp del]

definition luaO_int2fb :: "nat \<Rightarrow> nat" where
  "luaO_int2fb x =
     (let (x, e) = int2fb_loop x 0 in
      if x < 8 then x else push_bit 3 (e + 1) OR (x - 8))"

definition luaO_fb2int :: "nat \<Rightarrow> nat" where
  "luaO_fb2int x =
     (let e = drop_bit 3 x AND 31 in
      if e = 0 then x else push_bit (e - 1) ((x AND 7) + 8))"

lemma int2fb_loop_spec:
  assumes "x < 2 ^ 32 - 1"
  shows "\<exists>y k. int2fb_loop x e = (y, e + k) \<and> y < 16 \<and> x \<le> y * 2 ^ k \<and> y * 2 ^ k < x + 2 ^ k
      \<and> (k = 0 \<longrightarrow> y = x) \<and> (0 < k \<longrightarrow> 8 \<le> y)"
  using assms
proof (induction x e rule: int2fb_loop.induct)
  case (1 x e)
  show ?case
  proof (cases "16 \<le> x")
    case False
    then show ?thesis by (simp add: int2fb_loop.simps [of x e] exI [of _ 0])
  next
    case True
    define x' where "x' = (x + 1) div 2"
    from 1(2) have w: "(x + 1) mod 2 ^ 32 = x + 1" by simp
    have "x' < 2 ^ 32 - 1" using 1(2) by (simp add: x'_def)
    with 1(1) [OF True] w obtain y k where
      y: "int2fb_loop x' (e + 1) = (y, e + 1 + k)" "y < 16" "x' \<le> y * 2 ^ k" "y * 2 ^ k < x' + 2 ^ k"
        "k = 0 \<longrightarrow> y = x'" "0 < k \<longrightarrow> 8 \<le> y"
      unfolding x'_def by metis
    have x': "x \<le> 2 * x'" "2 * x' \<le> x + 1" "8 \<le> x'" using True by (auto simp: x'_def)
    have "int2fb_loop x e = (y, e + Suc k)"
      using y(1) True w by (simp add: int2fb_loop.simps [of x e] x'_def)
    moreover have "x \<le> y * 2 ^ Suc k" using x' y(3) by simp
    moreover have "y * 2 ^ Suc k < x + 2 ^ Suc k" using x' y(4) by simp
    moreover have "8 \<le> y" using y(5,6) x'(3) by (cases "k = 0") auto
    ultimately show ?thesis using y(2) by blast
  qed
qed

text \<open>The bit layout \<open>(eeeeexxx)\<close> of a floating-point byte.\<close>

lemma fb_code:
  fixes e x :: nat
  assumes "x < 8"
  shows "push_bit 3 e OR x = 8 * e + x" and "drop_bit 3 (8 * e + x) = e" and "(8 * e + x) AND 7 = x"
proof -
  have "push_bit 3 e AND x = 0"
    using assms by (intro bit_eqI) (auto simp: bit_simps dest: bit_nat_lt [of x 3, simplified])
  then have "push_bit 3 e OR x = push_bit 3 e + x" by (simp add: disjunctive_add_eq_or)
  then show "push_bit 3 e OR x = 8 * e + x" by (simp add: push_bit_eq_mult)
  show "drop_bit 3 (8 * e + x) = e" using assms by (simp add: drop_bit_eq_div)
  have "(8 * e + x) AND 7 = take_bit 3 (8 * e + x)" by (simp add: take_bit_eq_mask mask_eq_exp_minus_1)
  then show "(8 * e + x) AND 7 = x" using assms by (simp add: take_bit_eq_mod)
qed

lemma int2fb_code:
  assumes "x < 2 ^ 32 - 1"
  obtains "x < 8" "luaO_int2fb x = x"
  | y k where "8 \<le> y" "y < 16" "k < 30" "luaO_int2fb x = 8 * (k + 1) + (y - 8)"
      "x \<le> y * 2 ^ k" "y * 2 ^ k < x + 2 ^ k"
proof -
  from int2fb_loop_spec [OF assms, of 0] obtain y k where
    l: "int2fb_loop x 0 = (y, k)" and y: "y < 16" "x \<le> y * 2 ^ k" "y * 2 ^ k < x + 2 ^ k"
      "k = 0 \<longrightarrow> y = x" "0 < k \<longrightarrow> 8 \<le> y"
    by auto
  show ?thesis
  proof (cases "y < 8")
    case True
    with y have "k = 0" "y = x" by auto
    with True l show ?thesis by (auto intro: that(1) simp: luaO_int2fb_def)
  next
    case False
    then have "8 * 2 ^ k \<le> y * 2 ^ k" by simp
    with y(3) have "7 * 2 ^ k < x" by linarith
    with assms have "(2::nat) ^ k < 2 ^ 30" by simp
    then have "k < 30" by (rule power_less_imp_less_exp [rotated]) simp
    moreover have "luaO_int2fb x = 8 * (k + 1) + (y - 8)"
      using l False y(1) fb_code(1) [of "y - 8" "k + 1"] by (simp add: luaO_int2fb_def)
    ultimately show ?thesis using False y(1-3) by (intro that(2) [of y k]) simp_all
  qed
qed

text \<open>Sizes survive the trip through one byte, rounded up by less than one part in seven.\<close>

lemma fb2int_code:
  assumes "8 \<le> y" "y < 16" "k < 30"
  shows "luaO_fb2int (8 * (k + 1) + (y - 8)) = y * 2 ^ k"
proof -
  have y: "y - 8 < 8" using assms by simp
  have "(k + 1) AND 31 = take_bit 5 (k + 1)" by (simp add: take_bit_eq_mask mask_eq_exp_minus_1)
  also have "\<dots> = k + 1" using assms(3) by (simp add: take_bit_eq_mod)
  finally have e: "drop_bit 3 (8 * (k + 1) + (y - 8)) AND 31 = k + 1"
    by (simp only: fb_code(2) [OF y])
  show ?thesis
    unfolding luaO_fb2int_def e fb_code(3) [OF y] using assms(1) by (simp add: push_bit_eq_mult)
qed

lemma fb2int_small: "x < 8 \<Longrightarrow> luaO_fb2int x = x"
  by (simp add: luaO_fb2int_def drop_bit_eq_div)

lemma fb2int_int2fb:
  assumes "x < 2 ^ 32 - 1"
  shows "x \<le> luaO_fb2int (luaO_int2fb x) \<and> 7 * (luaO_fb2int (luaO_int2fb x) - x) \<le> x
    \<and> luaO_int2fb x < 256"
  using assms
proof (cases rule: int2fb_code)
  case 1
  then show ?thesis by (simp add: fb2int_small)
next
  case (2 y k)
  have "8 * 2 ^ k \<le> y * 2 ^ k" using 2(1) by simp
  with 2(5,6) have "7 * (y * 2 ^ k - x) \<le> x" by linarith
  moreover have "8 * (k + 1) + (y - 8) < 256" using 2(2,3) by simp
  ultimately show ?thesis
    unfolding 2(4) fb2int_code [OF 2(1-3)] using 2(5) by simp
qed

section \<open>Integer logarithm\<close>

definition log_2 :: "nat list" where
  "log_2 = [0, 1, 2, 2, 3, 3, 3, 3] @ replicate 8 4 @ replicate 16 5
     @ replicate 32 6 @ replicate 64 7 @ replicate 128 8"

fun log2_loop :: "nat \<Rightarrow> int \<Rightarrow> nat \<times> int" where
  "log2_loop x l = (if 256 \<le> x then log2_loop (x div 256) (l + 8) else (x, l))"

declare log2_loop.simps [simp del]

definition luaO_log2 :: "nat \<Rightarrow> int" where
  "luaO_log2 x = (let (x, l) = log2_loop x (- 1) in l + int (log_2 ! x))"

text \<open>\<open>ceillog2(x)\<close>: the argument \<open>(x)-1\<close> is converted to \<open>unsigned int\<close>.\<close>

definition ceillog2 :: "nat \<Rightarrow> int" where
  "ceillog2 x = luaO_log2 ((x + 2 ^ 32 - 1) mod 2 ^ 32) + 1"

lemma log_2_bitlen: "x < 256 \<Longrightarrow> log_2 ! x = bitlen x"
proof -
  assume x: "x < 256"
  consider "x \<in> {0, 1, 2, 3}" | "4 \<le> x" "x < 8" | "8 \<le> x" "x < 16" | "16 \<le> x" "x < 32"
    | "32 \<le> x" "x < 64" | "64 \<le> x" "x < 128" | "128 \<le> x" by force
  then show ?thesis
  proof cases
    case 1
    then show ?thesis by (auto simp: log_2_def bitlen_pos)
  next
    case 2
    then have "x \<in> {4, 5, 6, 7}" by auto
    with 2 show ?thesis using bitlen_eq [of 2 x] by (auto simp: log_2_def)
  next
    case 3
    then show ?thesis using bitlen_eq [of 3 x] by (auto simp: log_2_def nth_append)
  next
    case 4
    then show ?thesis using bitlen_eq [of 4 x] by (auto simp: log_2_def nth_append)
  next
    case 5
    then show ?thesis using bitlen_eq [of 5 x] by (auto simp: log_2_def nth_append)
  next
    case 6
    then show ?thesis using bitlen_eq [of 6 x] by (auto simp: log_2_def nth_append)
  next
    case 7
    with x show ?thesis using bitlen_eq [of 7 x] by (auto simp: log_2_def nth_append)
  qed
qed

lemma bitlen_div: "256 \<le> x \<Longrightarrow> bitlen x = bitlen (x div 256) + 8"
proof -
  assume x: "256 \<le> x"
  have "bitlen y = bitlen (y div 2 ^ k) + k" if "2 ^ k \<le> y" for y k
    using that
  proof (induction k arbitrary: y)
    case (Suc k)
    then have "2 ^ k \<le> y div 2" by simp
    moreover have "0 < y" using Suc.prems by (cases y) auto
    ultimately show ?case using Suc.IH [of "y div 2"]
      by (simp add: bitlen_pos [of y] div_mult2_eq)
  qed simp
  from this [of 8 x] x show ?thesis by simp
qed

lemma log2_loop_spec: "log2_loop x l = (y, m) \<Longrightarrow> y < 256 \<and> m + int (bitlen y) = l + int (bitlen x)"
proof (induction x l rule: log2_loop.induct)
  case (1 x l)
  then show ?case
    by (cases "256 \<le> x") (auto simp: log2_loop.simps [of x l] bitlen_div)
qed

lemma luaO_log2_bitlen: "luaO_log2 x = int (bitlen x) - 1"
proof -
  obtain y m where l: "log2_loop x (- 1) = (y, m)" by force
  with log2_loop_spec [OF l] show ?thesis by (simp add: luaO_log2_def log_2_bitlen)
qed

lemma luaO_log2_bounds:
  assumes "0 < x"
  shows "2 ^ nat (luaO_log2 x) \<le> x \<and> x < 2 ^ (nat (luaO_log2 x) + 1)"
proof -
  have "1 \<le> bitlen x" using assms by (simp add: bitlen_pos)
  then have "nat (luaO_log2 x) = bitlen x - 1" by (simp add: luaO_log2_bitlen nat_diff_distrib)
  with bitlen_bounds [OF assms] \<open>1 \<le> bitlen x\<close> show ?thesis by simp
qed

lemma ceillog2_eq:
  assumes "0 < x" "x \<le> 2 ^ 32"
  shows "ceillog2 x = int (bitlen (x - 1))"
proof -
  have "x + 2 ^ 32 - 1 = (x - 1) + 2 ^ 32" using assms(1) by simp
  then have "(x + 2 ^ 32 - 1) mod 2 ^ 32 = (x - 1) mod 2 ^ 32" by (simp only: mod_add_self2)
  also have "\<dots> = x - 1" using assms by simp
  finally show ?thesis by (simp add: ceillog2_def luaO_log2_bitlen)
qed

lemma ceillog2_bounds:
  assumes "0 < x" "x \<le> 2 ^ 32"
  shows "x \<le> 2 ^ nat (ceillog2 x)" and "1 < x \<Longrightarrow> 2 ^ (nat (ceillog2 x) - 1) < x"
proof -
  have c: "nat (ceillog2 x) = bitlen (x - 1)" by (simp add: ceillog2_eq [OF assms])
  show "x \<le> 2 ^ nat (ceillog2 x)"
    using bitlen_bounds [of "x - 1"] assms(1) unfolding c by (cases "x = 1") auto
  show "2 ^ (nat (ceillog2 x) - 1) < x" if "1 < x"
    using bitlen_bounds [of "x - 1"] that unfolding c by auto
qed

section \<open>Chunk identifiers\<close>

text \<open>
  \<open>luaO_chunkid\<close> writes a C string into a buffer of \<open>bufflen\<close> bytes. Strings are the
  characters before the terminating NUL; \<open>size_t\<close> arithmetic wraps at 64 bits.
\<close>

definition size_sub :: "nat \<Rightarrow> nat \<Rightarrow> nat" where
  "size_sub a b = (a + 2 ^ 64 - b) mod 2 ^ 64"

definition strcspn_newline :: "string \<Rightarrow> nat" where
  "strcspn_newline s = length (takeWhile (\<lambda>c. c \<noteq> CHR 0x0A \<and> c \<noteq> CHR 0x0D) s)"

definition starts_with :: "char \<Rightarrow> string \<Rightarrow> bool" where
  "starts_with c s \<longleftrightarrow> s \<noteq> [] \<and> hd s = c"

definition luaO_chunkid :: "string \<Rightarrow> nat \<Rightarrow> string" where
  "luaO_chunkid source bufflen =
     (if starts_with (CHR ''='') source then take (bufflen - 1) (tl source)
      else if starts_with (CHR ''@'') source then
        (let source = tl source;
             bufflen = size_sub bufflen 8;
             l = length source
         in if bufflen < l then ''...'' @ drop (l - bufflen) source else source)
      else
        (let len = strcspn_newline source;
             bufflen = size_sub bufflen 17;
             len = (if bufflen < len then bufflen else len)
         in ''[string '' @ [CHR 0x22]
            @ (if len < length source then take len source @ ''...'' else source)
            @ [CHR 0x22] @ '']''))"

lemma size_sub_le: "b \<le> a \<Longrightarrow> a < 2 ^ 64 \<Longrightarrow> size_sub a b = a - b"
proof -
  assume a: "b \<le> a" "a < 2 ^ 64"
  then have "a + 2 ^ 64 - b = (a - b) + 2 ^ 64" by simp
  then have "size_sub a b = (a - b) mod 2 ^ 64" by (simp only: size_sub_def mod_add_self2)
  with a show ?thesis by simp
qed

lemma strcspn_le: "strcspn_newline s \<le> length s"
  by (simp add: strcspn_newline_def length_takeWhile_le)

text \<open>The identifier and its NUL fit in the buffer.\<close>

lemma chunkid_fits:
  assumes "18 \<le> bufflen" "bufflen < 2 ^ 64"
  shows "length (luaO_chunkid source bufflen) < bufflen"
proof -
  have sub: "size_sub bufflen 8 = bufflen - 8" "size_sub bufflen 17 = bufflen - 17"
    using assms by (simp_all add: size_sub_le)
  have body: "length (''[string '' @ [CHR 0x22]
              @ (if len < length source then take len source @ ''...'' else source)
              @ [CHR 0x22] @ '']'') < bufflen" if "len \<le> bufflen - 17" for len
    using that assms(1) by auto
  have path: "length (let source = tl source; bufflen = bufflen - 8; l = length source in
           if bufflen < l then ''...'' @ drop (l - bufflen) source else source) < bufflen"
    using assms(1) by (auto simp: Let_def)
  have name: "length (take (bufflen - 1) (tl source)) < bufflen" using assms(1) by simp
  have lit: "length (let len = strcspn_newline source; bufflen = bufflen - 17;
             len = (if bufflen < len then bufflen else len)
         in ''[string '' @ [CHR 0x22]
            @ (if len < length source then take len source @ ''...'' else source)
            @ [CHR 0x22] @ '']'') < bufflen"
    unfolding Let_def by (rule body) simp
  show ?thesis
  proof (cases "starts_with (CHR ''='') source")
    case True
    with name show ?thesis by (simp only: luaO_chunkid_def if_True)
  next
    case False
    then show ?thesis
      using path lit by (cases "starts_with (CHR ''@'') source")
        (simp_all only: luaO_chunkid_def sub if_True if_False)
  qed
qed

section \<open>Macros the tables share\<close>

text \<open>The stack slots that C code may use without a check (lstate.h), and the least size of the buffer (llimits.h).\<close>

definition EXTRA_STACK :: nat where "EXTRA_STACK = 5"
definition LUA_MINBUFFER :: nat where "LUA_MINBUFFER = 32"

text \<open>\<open>MAX_INT\<close> (llimits.h) and \<open>lmod\<close>, the modulus by a power of two.\<close>

definition MAX_INT :: nat where "MAX_INT = 2 ^ 31 - 1 - 2"

definition lmod :: "nat \<Rightarrow> nat \<Rightarrow> nat" where
  "lmod s sz = s AND (sz - 1)"

lemma lmod_eq: "lmod s (2 ^ k) = s mod 2 ^ k"
proof -
  have "s AND (2 ^ k - 1) = take_bit k s" by (simp add: take_bit_eq_mask mask_eq_exp_minus_1)
  then show ?thesis by (simp add: lmod_def take_bit_eq_mod)
qed

end
