(* ===== verification/LuaTable.thy ===== *)
theory LuaTable
  imports LuaObject
begin

text \<open>
  Lua tables (ltable.c): the operations. A table is an array part and a hash part; the hash part
  is a vector of nodes chained through indices, with Brent's variation of chained scatter tables.
  A slot is the \<open>TValue *\<close> a lookup returns: a cell of the array part, the value of a node,
  or \<open>luaO_nilobject\<close>. String keys are hashed by the hash stored in their object, which the
  parameter \<open>sh\<close> reads. Allocation does not fail here, and an error drops the table under
  construction, as the longjmp of \<open>luaD_throw\<close> leaves it to the caller.
\<close>

unbundle bit_operations_syntax

section \<open>State\<close>

record Node =
  gval :: TValue
  gkey :: TValue
  gnext :: "nat option"

record Table =
  t_flags :: lu_byte
  t_lsizenode :: nat
  t_metatable :: ptr
  t_array :: "TValue list"
  t_node :: "Node list"
  t_isdummy :: bool    \<comment> \<open>\<open>t->node == dummynode\<close>\<close>
  t_lastfree :: nat

definition sizearray :: "Table \<Rightarrow> nat" where
  "sizearray t = length (t_array t)"

definition sizenode :: "Table \<Rightarrow> nat" where
  "sizenode t = 2 ^ t_lsizenode t"

definition nilnode :: Node where
  "nilnode = \<lparr>gval = TNil, gkey = TNil, gnext = None\<rparr>"

definition MAXBITS :: nat where "MAXBITS = 26"
definition MAXASIZE :: nat where "MAXASIZE = 2 ^ MAXBITS"

datatype slot = SArr nat | SNode nat | SNil

section \<open>Hashing\<close>

definition hashpow2 :: "nat \<Rightarrow> nat \<Rightarrow> nat" where
  "hashpow2 ls n = lmod n (2 ^ ls)"

definition hashmod :: "nat \<Rightarrow> nat \<Rightarrow> nat" where
  "hashmod ls n = n mod ((2 ^ ls - 1) OR 1)"

definition IntPoint :: "ptr \<Rightarrow> nat" where
  "IntPoint p = unat p mod 2 ^ 32"

definition hashnum :: "nat \<Rightarrow> lua_Number \<Rightarrow> nat" where
  "hashnum ls n =
     (if num_eq n (cast_num 0) then 0
      else hashmod ls ((unat n mod 2 ^ 32 + unat n div 2 ^ 32) mod 2 ^ 32))"

definition mainposition :: "(ptr \<Rightarrow> nat) \<Rightarrow> nat \<Rightarrow> TValue \<Rightarrow> nat" where
  "mainposition sh ls key =
     (case key of
        TNumber n \<Rightarrow> hashnum ls n
      | TStr p \<Rightarrow> hashpow2 ls (sh p)
      | TBool b \<Rightarrow> hashpow2 ls (if b then 1 else 0)
      | TLightUD p \<Rightarrow> hashmod ls (IntPoint p)
      | _ \<Rightarrow> hashmod ls (IntPoint (gcvalue key)))"

definition arrayindex :: "TValue \<Rightarrow> int" where
  "arrayindex key =
     (case key of
        TNumber n \<Rightarrow> (let k = lua_number2int n in if num_eq (cast_num k) n then k else - 1)
      | _ \<Rightarrow> - 1)"

section \<open>Lookup\<close>

text \<open>
  The loop \<open>do \<dots> while (n)\<close> along a chain, from node \<open>i\<close>; it may look at as many nodes
  as there are, so running out of fuel means a cyclic chain.
\<close>

fun find_chain :: "nat \<Rightarrow> (Node \<Rightarrow> bool) \<Rightarrow> Node list \<Rightarrow> nat \<Rightarrow> nat option res" where
  "find_chain 0 P ns i = Inl ErrFuel"
| "find_chain (Suc f) P ns i =
     (if P (ns ! i) then Inr (Some i)
      else case gnext (ns ! i) of None \<Rightarrow> Inr None | Some j \<Rightarrow> find_chain f P ns j)"

definition node_slot :: "nat option \<Rightarrow> slot" where
  "node_slot r = (case r of None \<Rightarrow> SNil | Some i \<Rightarrow> SNode i)"

definition search_node :: "Table \<Rightarrow> (Node \<Rightarrow> bool) \<Rightarrow> nat \<Rightarrow> slot res" where
  "search_node t P i =
     bindr (find_chain (length (t_node t)) P (t_node t) i) (\<lambda>r. Inr (node_slot r))"

definition luaH_getnum :: "Table \<Rightarrow> int \<Rightarrow> slot res" where
  "luaH_getnum t key =
     (if nat ((key - 1) mod 2 ^ 32) < sizearray t then Inr (SArr (nat (key - 1)))
      else let nk = cast_num key in
        search_node t (\<lambda>n. case gkey n of TNumber m \<Rightarrow> num_eq m nk | _ \<Rightarrow> False)
          (hashnum (t_lsizenode t) nk))"

definition luaH_getstr :: "(ptr \<Rightarrow> nat) \<Rightarrow> Table \<Rightarrow> ptr \<Rightarrow> slot res" where
  "luaH_getstr sh t key =
     search_node t (\<lambda>n. case gkey n of TStr p \<Rightarrow> p = key | _ \<Rightarrow> False)
       (hashpow2 (t_lsizenode t) (sh key))"

definition luaH_get :: "(ptr \<Rightarrow> nat) \<Rightarrow> Table \<Rightarrow> TValue \<Rightarrow> slot res" where
  "luaH_get sh t key =
     (let generic = search_node t (\<lambda>n. luaO_rawequalObj (gkey n) key)
            (mainposition sh (t_lsizenode t) key)
      in case key of
           TNil \<Rightarrow> Inr SNil
         | TStr p \<Rightarrow> luaH_getstr sh t p
         | TNumber n \<Rightarrow>
             (let k = lua_number2int n in
              if num_eq (cast_num k) n then luaH_getnum t k else generic)
         | _ \<Rightarrow> generic)"

text \<open>Reading and writing through a slot.\<close>

fun slot_val :: "Table \<Rightarrow> slot \<Rightarrow> TValue" where
  "slot_val t (SArr i) = t_array t ! i"
| "slot_val t (SNode i) = gval (t_node t ! i)"
| "slot_val t SNil = luaO_nilobject"

fun slot_write :: "Table \<Rightarrow> slot \<Rightarrow> TValue \<Rightarrow> Table" where
  "slot_write t (SArr i) v = t\<lparr>t_array := (t_array t)[i := v]\<rparr>"
| "slot_write t (SNode i) v = t\<lparr>t_node := (t_node t)[i := (t_node t ! i)\<lparr>gval := v\<rparr>]\<rparr>"
| "slot_write t SNil v = t"

section \<open>Counting keys for a rehash\<close>

function computesizes_loop :: "nat list \<Rightarrow> nat \<Rightarrow> nat \<Rightarrow> nat \<Rightarrow> nat \<Rightarrow> nat \<Rightarrow> nat \<times> nat" where
  "computesizes_loop nums narray i a na n =
     (let twotoi = 2 ^ i in
      if twotoi div 2 < narray then
        let a' = (if 0 < nums ! i then a + nums ! i else a);
            more = 0 < nums ! i \<and> twotoi div 2 < a';
            n' = (if more then twotoi else n);
            na' = (if more then a' else na)
        in if a' = narray then (n', na')
           else computesizes_loop nums narray (i + 1) a' na' n'
      else (n, na))"
  by pat_completeness auto
termination
proof (relation "measure (\<lambda>(nums, narray, i, a, na, n). narray - 2 ^ i div 2)", goal_cases)
  case (2 nums narray i a na n x xa xb xc xd)
  have "2 ^ i div 2 < (2::nat) ^ i" by simp
  with 2(1,2) have "narray - 2 ^ i < narray - 2 ^ i div 2" by (simp add: diff_less_mono2)
  then show ?case by simp
qed simp

declare computesizes_loop.simps [simp del]

text \<open>\<open>computesizes\<close> returns \<open>na\<close> and leaves the array size in \<open>*narray\<close>.\<close>

definition computesizes :: "nat list \<Rightarrow> nat \<Rightarrow> nat \<times> nat" where
  "computesizes nums narray = computesizes_loop nums narray 0 0 0 0"

definition countint :: "TValue \<Rightarrow> nat list \<Rightarrow> nat list \<times> nat" where
  "countint key nums =
     (let k = arrayindex key in
      if 0 < k \<and> k \<le> int MAXASIZE then
        (let c = nat (ceillog2 (nat k)) in (nums[c := nums ! c + 1], 1))
      else (nums, 0))"

function numusearray_loop :: "TValue list \<Rightarrow> nat \<Rightarrow> nat \<Rightarrow> nat list \<Rightarrow> nat \<Rightarrow> nat list \<times> nat" where
  "numusearray_loop arr lg i nums ause =
     (if lg \<le> MAXBITS then
        let ttlg = 2 ^ lg;
            lim = (if length arr < ttlg then length arr else ttlg)
        in if length arr < ttlg \<and> lim < i then (nums, ause)
           else
             let lc = length (filter (\<lambda>j. arr ! (j - 1) \<noteq> TNil) [i..<lim + 1])
             in numusearray_loop arr (lg + 1) (max i (lim + 1)) (nums[lg := nums ! lg + lc]) (ause + lc)
      else (nums, ause))"
  by pat_completeness auto
termination
  by (relation "measure (\<lambda>(arr, lg, i, nums, ause). MAXBITS + 1 - lg)") auto

declare numusearray_loop.simps [simp del]

definition numusearray :: "Table \<Rightarrow> nat list \<Rightarrow> nat list \<times> nat" where
  "numusearray t nums = numusearray_loop (t_array t) 0 1 nums 0"

text \<open>\<open>numusehash\<close> goes down the node vector; the result is the counts, the integer keys and all keys.\<close>

fun numusehash_loop :: "Node list \<Rightarrow> nat list \<Rightarrow> nat \<Rightarrow> nat \<Rightarrow> nat list \<times> nat \<times> nat" where
  "numusehash_loop [] nums ause totaluse = (nums, ause, totaluse)"
| "numusehash_loop (n # ns) nums ause totaluse =
     (if gval n \<noteq> TNil then
        let (nums', c) = countint (gkey n) nums
        in numusehash_loop ns nums' (ause + c) (totaluse + 1)
      else numusehash_loop ns nums ause totaluse)"

definition numusehash :: "Table \<Rightarrow> nat list \<Rightarrow> nat list \<times> nat \<times> nat" where
  "numusehash t nums = numusehash_loop (rev (t_node t)) nums 0 0"

section \<open>Insertion\<close>

definition setarrayvector :: "Table \<Rightarrow> nat \<Rightarrow> Table" where
  "setarrayvector t sz =
     t\<lparr>t_array := take sz (t_array t) @ replicate (sz - sizearray t) TNil\<rparr>"

definition setnodevector :: "Table \<Rightarrow> nat \<Rightarrow> Table res" where
  "setnodevector t sz =
     (if sz = 0 then
        Inr (t\<lparr>t_node := [nilnode], t_isdummy := True, t_lsizenode := 0, t_lastfree := 0\<rparr>)
      else let lsize = nat (ceillog2 sz) in
        if MAXBITS < lsize then Inl (ErrRun ''table overflow'')
        else Inr (t\<lparr>t_node := replicate (2 ^ lsize) nilnode, t_isdummy := False,
                    t_lsizenode := lsize, t_lastfree := 2 ^ lsize\<rparr>))"

text \<open>\<open>getfreepos\<close>: \<open>while (t->lastfree-- > t->node)\<close>, with the new \<open>lastfree\<close>.\<close>

fun getfreepos :: "Node list \<Rightarrow> nat \<Rightarrow> nat option \<times> nat" where
  "getfreepos ns 0 = (None, 0)"
| "getfreepos ns (Suc lf) = (if gkey (ns ! lf) = TNil then (Some lf, lf) else getfreepos ns lf)"

text \<open>The walk \<open>while (gnext(othern) != mp) othern = gnext(othern)\<close>.\<close>

fun find_prev :: "nat \<Rightarrow> Node list \<Rightarrow> nat \<Rightarrow> nat \<Rightarrow> nat res" where
  "find_prev 0 ns mp i = Inl ErrFuel"
| "find_prev (Suc f) ns mp i =
     (case gnext (ns ! i) of
        None \<Rightarrow> Inl ErrFuel
      | Some j \<Rightarrow> if j = mp then Inr i else find_prev f ns mp j)"

text \<open>
  \<open>luaH_set\<close> and \<open>luaH_setnum\<close> call \<open>newkey\<close>, which may rehash the table and call
  them again. They take \<open>newkey\<close> as an argument; \<open>newkey_f\<close> ties the knot with a bound on
  the depth of rehashes.
\<close>

type_synonym new_key = "Table \<Rightarrow> TValue \<Rightarrow> (Table \<times> slot) res"

definition luaH_set_with :: "new_key \<Rightarrow> (ptr \<Rightarrow> nat) \<Rightarrow> new_key" where
  "luaH_set_with nk sh t key =
     bindr (luaH_get sh t key) (\<lambda>p.
       let t = t\<lparr>t_flags := 0\<rparr> in
       if p \<noteq> SNil then Inr (t, p)
       else if key = TNil then Inl (ErrRun ''table index is nil'')
       else if is_nan_value key then Inl (ErrRun ''table index is NaN'')
       else nk t key)"

definition luaH_setnum_with :: "new_key \<Rightarrow> Table \<Rightarrow> int \<Rightarrow> (Table \<times> slot) res" where
  "luaH_setnum_with nk t key =
     bindr (luaH_getnum t key) (\<lambda>p.
       if p \<noteq> SNil then Inr (t, p) else nk t (TNumber (cast_num key)))"

text \<open>\<open>setobjt2t(L, luaH_set\<dots>(L, t, key), val)\<close>.\<close>

definition store :: "(Table \<times> slot) res \<Rightarrow> TValue \<Rightarrow> Table res" where
  "store r v = bindr r (\<lambda>(t, s). Inr (slot_write t s v))"

fun reinsert_array :: "new_key \<Rightarrow> Table \<Rightarrow> TValue list \<Rightarrow> nat \<Rightarrow> Table res" where
  "reinsert_array nk t [] i = Inr t"
| "reinsert_array nk t (v # vs) i =
     bindr (if v \<noteq> TNil then store (luaH_setnum_with nk t (int i + 1)) v else Inr t)
       (\<lambda>t. reinsert_array nk t vs (i + 1))"

fun reinsert_nodes :: "new_key \<Rightarrow> (ptr \<Rightarrow> nat) \<Rightarrow> Table \<Rightarrow> Node list \<Rightarrow> Table res" where
  "reinsert_nodes nk sh t [] = Inr t"
| "reinsert_nodes nk sh t (n # ns) =
     bindr (if gval n \<noteq> TNil then store (luaH_set_with nk sh t (gkey n)) (gval n) else Inr t)
       (\<lambda>t. reinsert_nodes nk sh t ns)"

definition resize_with :: "new_key \<Rightarrow> (ptr \<Rightarrow> nat) \<Rightarrow> Table \<Rightarrow> nat \<Rightarrow> nat \<Rightarrow> Table res" where
  "resize_with nk sh t nasize nhsize =
     (let oldasize = sizearray t;
          oldarray = t_array t;
          nold = t_node t;
          t = (if oldasize < nasize then setarrayvector t nasize else t)
      in bindr (setnodevector t nhsize) (\<lambda>t.
         bindr (if nasize < oldasize
                then reinsert_array nk (t\<lparr>t_array := take nasize oldarray\<rparr>)
                       (drop nasize oldarray) nasize
                else Inr t) (\<lambda>t.
         reinsert_nodes nk sh t (rev nold))))"

definition rehash_with :: "new_key \<Rightarrow> (ptr \<Rightarrow> nat) \<Rightarrow> Table \<Rightarrow> TValue \<Rightarrow> Table res" where
  "rehash_with nk sh t ek =
     (let nums = replicate (MAXBITS + 1) 0;
          (nums, nasize) = numusearray t nums;
          totaluse = nasize;
          (nums, ause, htotal) = numusehash t nums;
          totaluse = totaluse + htotal;
          nasize = nasize + ause;
          (nums, c) = countint ek nums;
          nasize = nasize + c;
          totaluse = totaluse + 1;
          (nasize, na) = computesizes nums nasize
      in resize_with nk sh t nasize (totaluse - na))"

definition set_node :: "Table \<Rightarrow> nat \<Rightarrow> Node \<Rightarrow> Table" where
  "set_node t i n = t\<lparr>t_node := (t_node t)[i := n]\<rparr>"

definition newkey_step :: "new_key \<Rightarrow> (ptr \<Rightarrow> nat) \<Rightarrow> new_key" where
  "newkey_step nk sh t key =
     (let mp = mainposition sh (t_lsizenode t) key;
          ns = t_node t
      in if gval (ns ! mp) \<noteq> TNil \<or> t_isdummy t then
           (case getfreepos ns (t_lastfree t) of
              (None, lf) \<Rightarrow>
                bindr (rehash_with nk sh (t\<lparr>t_lastfree := lf\<rparr>) key) (\<lambda>t. luaH_set_with nk sh t key)
            | (Some n, lf) \<Rightarrow>
                (let t = t\<lparr>t_lastfree := lf\<rparr>;
                     othern = mainposition sh (t_lsizenode t) (gkey (ns ! mp))
                 in if othern \<noteq> mp then
                      bindr (find_prev (length ns) ns mp othern) (\<lambda>prev.
                        let t = set_node t prev ((ns ! prev)\<lparr>gnext := Some n\<rparr>);
                            t = set_node t n (t_node t ! mp);
                            t = set_node t mp \<lparr>gval = TNil, gkey = key, gnext = None\<rparr>
                        in Inr (t, SNode mp))
                    else
                      let t = set_node t n \<lparr>gval = gval (ns ! n), gkey = key, gnext = gnext (ns ! mp)\<rparr>;
                          t = set_node t mp ((t_node t ! mp)\<lparr>gnext := Some n\<rparr>)
                      in Inr (t, SNode n)))
         else Inr (set_node t mp ((ns ! mp)\<lparr>gkey := key\<rparr>), SNode mp))"

primrec newkey_f :: "nat \<Rightarrow> (ptr \<Rightarrow> nat) \<Rightarrow> new_key" where
  "newkey_f 0 sh = (\<lambda>t key. Inl ErrFuel)"
| "newkey_f (Suc f) sh = newkey_step (newkey_f f sh) sh"

text \<open>One rehash is the deepest that happens, so two levels are enough.\<close>

definition newkey :: "(ptr \<Rightarrow> nat) \<Rightarrow> new_key" where
  "newkey sh = newkey_f 2 sh"

definition resize :: "(ptr \<Rightarrow> nat) \<Rightarrow> Table \<Rightarrow> nat \<Rightarrow> nat \<Rightarrow> Table res" where
  "resize sh = resize_with (newkey sh) sh"

definition rehash :: "(ptr \<Rightarrow> nat) \<Rightarrow> Table \<Rightarrow> TValue \<Rightarrow> Table res" where
  "rehash sh = rehash_with (newkey sh) sh"

definition luaH_set :: "(ptr \<Rightarrow> nat) \<Rightarrow> Table \<Rightarrow> TValue \<Rightarrow> (Table \<times> slot) res" where
  "luaH_set sh = luaH_set_with (newkey sh) sh"

definition luaH_setnum :: "(ptr \<Rightarrow> nat) \<Rightarrow> Table \<Rightarrow> int \<Rightarrow> (Table \<times> slot) res" where
  "luaH_setnum sh = luaH_setnum_with (newkey sh)"

definition luaH_setstr :: "(ptr \<Rightarrow> nat) \<Rightarrow> Table \<Rightarrow> ptr \<Rightarrow> (Table \<times> slot) res" where
  "luaH_setstr sh t key =
     bindr (luaH_getstr sh t key) (\<lambda>p.
       if p \<noteq> SNil then Inr (t, p) else newkey sh t (TStr key))"

definition luaH_resizearray :: "(ptr \<Rightarrow> nat) \<Rightarrow> Table \<Rightarrow> nat \<Rightarrow> Table res" where
  "luaH_resizearray sh t nasize =
     resize sh t nasize (if t_isdummy t then 0 else sizenode t)"

definition luaH_new :: "nat \<Rightarrow> nat \<Rightarrow> Table res" where
  "luaH_new narray nhash =
     (let t = \<lparr>t_flags = - 1, t_lsizenode = 0, t_metatable = 0, t_array = [],
               t_node = [nilnode], t_isdummy = True, t_lastfree = 0\<rparr>
      in setnodevector (setarrayvector t narray) nhash)"

section \<open>Traversal and length\<close>

definition findindex :: "(ptr \<Rightarrow> nat) \<Rightarrow> Table \<Rightarrow> TValue \<Rightarrow> int res" where
  "findindex sh t key =
     (if key = TNil then Inr (- 1)
      else let i = arrayindex key in
        if 0 < i \<and> i \<le> int (sizearray t) then Inr (i - 1)
        else bindr (find_chain (length (t_node t))
               (\<lambda>n. luaO_rawequalObj (gkey n) key \<or>
                    (case gkey n of TDeadKey p \<Rightarrow> iscollectable key \<and> p = gcvalue key | _ \<Rightarrow> False))
               (t_node t) (mainposition sh (t_lsizenode t) key))
             (\<lambda>r. case r of
                None \<Rightarrow> Inl (ErrRun (''invalid key to 'next'' @ [CHR 0x27]))
              | Some n \<Rightarrow> Inr (int n + int (sizearray t))))"

fun next_array :: "TValue list \<Rightarrow> nat \<Rightarrow> (TValue \<times> TValue) option" where
  "next_array [] i = None"
| "next_array (v # vs) i =
     (if v \<noteq> TNil then Some (TNumber (cast_num (int i + 1)), v) else next_array vs (i + 1))"

fun next_node :: "Node list \<Rightarrow> (TValue \<times> TValue) option" where
  "next_node [] = None"
| "next_node (n # ns) = (if gval n \<noteq> TNil then Some (gkey n, gval n) else next_node ns)"

text \<open>\<open>luaH_next\<close>: \<open>None\<close> when there are no more elements.\<close>

definition luaH_next :: "(ptr \<Rightarrow> nat) \<Rightarrow> Table \<Rightarrow> TValue \<Rightarrow> (TValue \<times> TValue) option res" where
  "luaH_next sh t key =
     bindr (findindex sh t key) (\<lambda>i.
       let i = nat (i + 1) in
       Inr (case next_array (drop i (t_array t)) i of
              Some kv \<Rightarrow> Some kv
            | None \<Rightarrow> next_node (drop (max i (sizearray t) - sizearray t) (t_node t))))"

definition getnum_isnil :: "Table \<Rightarrow> nat \<Rightarrow> bool res" where
  "getnum_isnil t i = bindr (luaH_getnum t (int i)) (\<lambda>s. Inr (slot_val t s = TNil))"

text \<open>A binary search between a present and an absent index.\<close>

function bsearch :: "(nat \<Rightarrow> bool res) \<Rightarrow> nat \<Rightarrow> nat \<Rightarrow> nat res" where
  "bsearch isnil i j =
     (if j - i > 1 then
        let m = (i + j) div 2 in
        bindr (isnil m) (\<lambda>b. if b then bsearch isnil i m else bsearch isnil m j)
      else Inr i)"
  by pat_completeness auto
termination
  by (relation "measure (\<lambda>(isnil, i, j). j - i)") auto

declare bsearch.simps [simp del]

fun linear_search :: "nat \<Rightarrow> Table \<Rightarrow> nat \<Rightarrow> nat res" where
  "linear_search 0 t i = Inl ErrFuel"
| "linear_search (Suc f) t i =
     bindr (getnum_isnil t i) (\<lambda>b. if b then Inr (i - 1) else linear_search f t (i + 1))"

text \<open>The doubling loop of \<open>unbound_search\<close>; \<open>j\<close> doubles at most 31 times.\<close>

fun unbound_loop :: "nat \<Rightarrow> Table \<Rightarrow> nat \<Rightarrow> nat \<Rightarrow> nat res" where
  "unbound_loop 0 t i j = Inl ErrFuel"
| "unbound_loop (Suc f) t i j =
     bindr (getnum_isnil t j) (\<lambda>b.
       if b then bsearch (getnum_isnil t) i j
       else if MAX_INT < (j * 2) mod 2 ^ 32 then
         linear_search (sizearray t + length (t_node t) + 2) t 1
       else unbound_loop f t j ((j * 2) mod 2 ^ 32))"

definition unbound_search :: "Table \<Rightarrow> nat \<Rightarrow> nat res" where
  "unbound_search t j = unbound_loop 33 t j ((j + 1) mod 2 ^ 32)"

definition luaH_getn :: "Table \<Rightarrow> nat res" where
  "luaH_getn t =
     (let j = sizearray t in
      if 0 < j \<and> t_array t ! (j - 1) = TNil then
        bsearch (\<lambda>m. Inr (t_array t ! (m - 1) = TNil)) 0 j
      else if t_isdummy t then Inr j
      else unbound_search t j)"

end
