(* ===== verification/LuaTableInv.thy ===== *)
theory LuaTableInv
  imports LuaTable
begin

text \<open>
  The hash part of a table: hashing stays in range and respects raw equality, chains, the
  invariant of the chained scatter table with Brent's variation, and lookup. \<open>tab_slot\<close> is
  the specification of a lookup: the array cell of an index in range, else the one node whose key
  is raw-equal, found without any hashing.
\<close>

unbundle bit_operations_syntax

section \<open>Hashing\<close>

lemma hashpow2_lt: "hashpow2 ls n < 2 ^ ls"
  by (simp add: hashpow2_def lmod_eq)

lemma hashmod_lt: "hashmod ls n < 2 ^ ls"
proof (cases ls)
  case 0
  then show ?thesis by (simp add: hashmod_def)
next
  case (Suc m)
  then have "odd ((2::nat) ^ ls - 1)" by simp
  then have "(2 ^ ls - 1) OR 1 = (2::nat) ^ ls - 1" by (simp only: or_one_eq) simp
  moreover have "1 \<le> (2::nat) ^ m" by simp
  then have "0 < (2::nat) ^ ls - 1" unfolding Suc power_Suc by linarith
  then have "n mod (2 ^ ls - 1) < 2 ^ ls - 1" by simp
  ultimately have "hashmod ls n < 2 ^ ls - 1" by (simp only: hashmod_def)
  then show ?thesis by linarith
qed

lemma hashnum_lt: "hashnum ls n < 2 ^ ls"
  by (simp add: hashnum_def hashmod_lt)

lemma mainposition_lt: "mainposition sh ls key < 2 ^ ls"
  by (simp add: mainposition_def hashnum_lt hashpow2_lt hashmod_lt split: TValue.splits)

lemma zero_parts: "num_mag (cast_num 0) = 0" "\<not> num_isnan (cast_num 0)"
  by (simp_all add: cast_num_parts int_mag_def)

lemma num_eq_zero_iff: "num_eq a (cast_num 0) \<longleftrightarrow> num_mag a = 0"
proof -
  have "num_mag a = 0 \<Longrightarrow> \<not> num_isnan a" by (simp add: num_isnan_def mag_inf_def)
  then show ?thesis using zero_parts
    by (auto simp: num_eq_def num_fix_eq_iff)
qed

lemma hashnum_eq: "num_eq a b \<Longrightarrow> hashnum ls a = hashnum ls b"
  by (auto dest: num_eq_bits simp: hashnum_def num_eq_zero_iff)

lemma mainposition_eq:
  "luaO_rawequalObj a b \<Longrightarrow> mainposition sh ls a = mainposition sh ls b"
  by (auto simp: rawequal_iff mainposition_def hashnum_eq split: TValue.splits prod.splits)

lemma arrayindex_eq: "luaO_rawequalObj a b \<Longrightarrow> arrayindex a = arrayindex b"
proof (cases "\<exists>x y. a = TNumber x \<and> b = TNumber y")
  case True
  then obtain x y where [simp]: "a = TNumber x" "b = TNumber y" by blast
  assume "luaO_rawequalObj a b"
  then have e: "num_eq x y" by simp
  with number2int_eq [OF e] show ?thesis
    by (auto simp: arrayindex_def Let_def intro: num_eq_trans num_eq_sym)
next
  case False
  assume "luaO_rawequalObj a b"
  with False show ?thesis by (auto simp: rawequal_iff split: TValue.splits)
qed

lemma arrayindex_cast [num_simps]:
  "- (2 ^ 31) \<le> k \<Longrightarrow> k < 2 ^ 31 \<Longrightarrow> arrayindex (TNumber (cast_num k)) = k"
  by (simp add: arrayindex_def number2int_cast num_eq_cast)

lemma arrayindex_num_eq:
  "arrayindex k = i \<Longrightarrow> i \<noteq> - 1 \<Longrightarrow> luaO_rawequalObj (TNumber (cast_num i)) k"
  by (auto simp: arrayindex_def Let_def split: TValue.splits if_splits)

lemma arrayindex_range: "- (2 ^ 31) \<le> arrayindex k" "arrayindex k < 2 ^ 31"
  using number2int_range by (auto simp: arrayindex_def Let_def split: TValue.splits)

section \<open>Chains\<close>

fun chain :: "Node list \<Rightarrow> nat option \<Rightarrow> nat list \<Rightarrow> bool" where
  "chain ns p [] \<longleftrightarrow> p = None"
| "chain ns p (x # xs) \<longleftrightarrow> p = Some x \<and> x < length ns \<and> chain ns (gnext (ns ! x)) xs"

lemma chain_None [simp]: "chain ns None xs \<longleftrightarrow> xs = []"
  by (cases xs) auto

lemma chain_Some:
  "chain ns (Some i) xs \<longleftrightarrow>
     (\<exists>ys. xs = i # ys \<and> i < length ns \<and> chain ns (gnext (ns ! i)) ys)"
  by (cases xs) auto

lemma chain_unique: "chain ns p xs \<Longrightarrow> chain ns p ys \<Longrightarrow> xs = ys"
  by (induction ns p xs arbitrary: ys rule: chain.induct) (auto simp: chain_Some)

lemma chain_tail: "chain ns p (xs @ y # ys) \<Longrightarrow> chain ns (Some y) (y # ys)"
  by (induction ns p xs rule: chain.induct) auto

lemma chain_distinct: "chain ns p xs \<Longrightarrow> distinct xs"
proof (induction ns p xs rule: chain.induct)
  case (2 ns p x xs)
  have "x \<notin> set xs"
  proof
    assume "x \<in> set xs"
    then obtain as bs where xs: "xs = as @ x # bs" by (meson split_list)
    with 2(2) have "chain ns (Some x) (x # bs)" using chain_tail [of ns p "x # as" x bs] by simp
    moreover from 2(2) have "chain ns (Some x) (x # xs)" by simp
    ultimately have "xs = bs" using chain_unique by blast
    with xs show False by simp
  qed
  with 2 show ?case by simp
qed simp

lemma chain_bound: "chain ns p xs \<Longrightarrow> x \<in> set xs \<Longrightarrow> x < length ns"
  by (induction ns p xs rule: chain.induct) auto

lemma chain_length: "chain ns p xs \<Longrightarrow> length xs \<le> length ns"
proof -
  assume c: "chain ns p xs"
  then have "set xs \<subseteq> {..<length ns}" by (auto dest: chain_bound)
  then have "card (set xs) \<le> length ns" by (metis card_lessThan card_mono finite_lessThan)
  with chain_distinct [OF c] show ?thesis by (simp add: distinct_card)
qed

lemma chain_cong:
  "length ns' = length ns \<Longrightarrow> (\<And>i. i < length ns \<Longrightarrow> gnext (ns' ! i) = gnext (ns ! i))
    \<Longrightarrow> chain ns' p xs \<longleftrightarrow> chain ns p xs"
  by (induction ns p xs rule: chain.induct) auto

text \<open>A node no pointer leads to is only in the chain that starts there.\<close>

lemma chain_notin:
  "chain ns p xs \<Longrightarrow> p \<noteq> Some n \<Longrightarrow> (\<And>j. j < length ns \<Longrightarrow> gnext (ns ! j) \<noteq> Some n) \<Longrightarrow> n \<notin> set xs"
  by (induction ns p xs rule: chain.induct) auto

lemma find_chain_spec:
  "chain ns (Some i) xs \<Longrightarrow> length xs \<le> f \<Longrightarrow>
    find_chain f P ns i = Inr (List.find (\<lambda>j. P (ns ! j)) xs)"
proof (induction f P ns i arbitrary: xs rule: find_chain.induct)
  case (2 f P ns i)
  then obtain ys where xs: "xs = i # ys" "chain ns (gnext (ns ! i)) ys" by (auto simp: chain_Some)
  with 2 show ?case by (cases "gnext (ns ! i)") auto
qed auto

lemma find_prev_spec:
  "chain ns (Some i) xs \<Longrightarrow> length xs \<le> f \<Longrightarrow> mp \<in> set xs \<Longrightarrow> i \<noteq> mp \<Longrightarrow>
    \<exists>p. find_prev f ns mp i = Inr p \<and> p \<in> set xs \<and> gnext (ns ! p) = Some mp"
proof (induction f ns mp i arbitrary: xs rule: find_prev.induct)
  case (2 f ns mp i)
  then obtain ys where xs: "xs = i # ys" "chain ns (gnext (ns ! i)) ys" by (auto simp: chain_Some)
  with 2(4,5) obtain j where j: "gnext (ns ! i) = Some j" by (cases "gnext (ns ! i)") auto
  show ?case
  proof (cases "j = mp")
    case False
    with 2(1) [OF j False, of ys] 2(3-5) xs j show ?thesis by fastforce
  qed (use j xs in simp)
qed auto

section \<open>The invariant\<close>

definition live_key :: "TValue \<Rightarrow> bool" where
  "live_key k \<longleftrightarrow> (case k of TNil \<Rightarrow> False | TDeadKey _ \<Rightarrow> False | _ \<Rightarrow> True)"

lemma live_key_simps [simp]:
  "\<not> live_key TNil" "\<not> live_key (TDeadKey p)" "live_key (TNumber n)" "live_key (TStr p)"
  by (simp_all add: live_key_def)

lemma live_key_rawequal: "luaO_rawequalObj a b \<Longrightarrow> live_key a \<longleftrightarrow> live_key b"
  by (auto simp: rawequal_iff live_key_def split: TValue.splits)

text \<open>Chains are finite and share no tails, and a node with a nil key is free.\<close>

definition links_ok :: "Node list \<Rightarrow> bool" where
  "links_ok ns \<longleftrightarrow>
     (\<forall>i<length ns. \<exists>xs. chain ns (Some i) xs) \<and>
     (\<forall>i<length ns. \<forall>j<length ns. \<forall>x. gnext (ns ! i) = Some x \<longrightarrow> gnext (ns ! j) = Some x \<longrightarrow> i = j) \<and>
     (\<forall>i<length ns. gkey (ns ! i) = TNil \<longrightarrow> gval (ns ! i) = TNil \<and> gnext (ns ! i) = None) \<and>
     (\<forall>i<length ns. \<forall>j<length ns. gkey (ns ! i) = TNil \<longrightarrow> gnext (ns ! j) \<noteq> Some i)"

text \<open>
  Every live key is in the chain of its main position, and (Brent's variation) a key out of its
  main position was pushed away by a key that is in its own.
\<close>

definition keys_ok :: "(TValue \<Rightarrow> nat) \<Rightarrow> Node list \<Rightarrow> bool" where
  "keys_ok pos ns \<longleftrightarrow>
     (\<forall>i<length ns. gval (ns ! i) \<noteq> TNil \<longrightarrow> live_key (gkey (ns ! i))) \<and>
     (\<forall>i<length ns. live_key (gkey (ns ! i)) \<longrightarrow> \<not> is_nan_value (gkey (ns ! i))) \<and>
     (\<forall>i<length ns. live_key (gkey (ns ! i)) \<longrightarrow>
        (\<exists>xs. chain ns (Some (pos (gkey (ns ! i)))) xs \<and> i \<in> set xs)) \<and>
     (\<forall>i<length ns. \<forall>p. live_key (gkey (ns ! i)) \<longrightarrow> pos (gkey (ns ! i)) = p \<longrightarrow> p \<noteq> i \<longrightarrow>
        gkey (ns ! p) \<noteq> TNil \<and> (live_key (gkey (ns ! p)) \<longrightarrow> pos (gkey (ns ! p)) = p)) \<and>
     (\<forall>i<length ns. \<forall>j<length ns. luaO_rawequalObj (gkey (ns ! i)) (gkey (ns ! j)) \<longrightarrow>
        live_key (gkey (ns ! i)) \<longrightarrow> i = j)"

definition nodes_ok :: "(ptr \<Rightarrow> nat) \<Rightarrow> nat \<Rightarrow> Node list \<Rightarrow> bool" where
  "nodes_ok sh ls ns \<longleftrightarrow>
     length ns = 2 ^ ls \<and> links_ok ns \<and> keys_ok (mainposition sh ls) ns"

definition tab_inv :: "(ptr \<Rightarrow> nat) \<Rightarrow> Table \<Rightarrow> bool" where
  "tab_inv sh t \<longleftrightarrow>
     nodes_ok sh (t_lsizenode t) (t_node t) \<and>
     t_lsizenode t \<le> MAXBITS \<and>
     sizearray t < 2 ^ 31 \<and>
     t_lastfree t \<le> length (t_node t) \<and>
     (t_isdummy t \<longrightarrow> t_node t = [nilnode] \<and> t_lastfree t = 0) \<and>
     (\<not> t_isdummy t \<longrightarrow>
        (\<forall>i<length (t_node t). t_lastfree t \<le> i \<longrightarrow> gkey (t_node t ! i) \<noteq> TNil)) \<and>
     (\<forall>i<length (t_node t). live_key (gkey (t_node t ! i)) \<longrightarrow>
        \<not> (0 < arrayindex (gkey (t_node t ! i)) \<and> arrayindex (gkey (t_node t ! i)) \<le> int (sizearray t)))"

section \<open>Lookup meets its specification\<close>

definition in_array :: "Table \<Rightarrow> TValue \<Rightarrow> bool" where
  "in_array t k \<longleftrightarrow> 0 < arrayindex k \<and> arrayindex k \<le> int (sizearray t)"

definition tab_slot :: "Table \<Rightarrow> TValue \<Rightarrow> slot" where
  "tab_slot t k =
     (if k = TNil then SNil
      else if in_array t k then SArr (nat (arrayindex k - 1))
      else node_slot (List.find (\<lambda>i. luaO_rawequalObj (gkey (t_node t ! i)) k) [0..<length (t_node t)]))"

definition tab_get :: "Table \<Rightarrow> TValue \<Rightarrow> TValue" where
  "tab_get t k = slot_val t (tab_slot t k)"

lemma nodes_match_unique:
  assumes "nodes_ok sh ls ns" "live_key k" "i < length ns" "j < length ns"
    "luaO_rawequalObj (gkey (ns ! i)) k" "luaO_rawequalObj (gkey (ns ! j)) k"
  shows "i = j"
proof -
  have "luaO_rawequalObj (gkey (ns ! i)) (gkey (ns ! j))"
    using assms(5,6) rawequal_sym rawequal_trans by blast
  moreover have "live_key (gkey (ns ! i))" using assms(2,5) live_key_rawequal by blast
  ultimately show ?thesis using assms(1,3,4) unfolding nodes_ok_def keys_ok_def by blast
qed

lemma search_spec:
  assumes ok: "nodes_ok sh ls ns" and k: "live_key k"
    and P: "\<And>n. P n \<longleftrightarrow> luaO_rawequalObj (gkey n) k"
    and i: "i = mainposition sh ls k"
  shows "find_chain (length ns) P ns i =
     Inr (List.find (\<lambda>j. luaO_rawequalObj (gkey (ns ! j)) k) [0..<length ns])"
proof -
  have lt: "i < length ns" using ok i mainposition_lt by (simp add: nodes_ok_def)
  then obtain xs where xs: "chain ns (Some i) xs" using ok by (auto simp: nodes_ok_def links_ok_def)
  have "find_chain (length ns) P ns i = Inr (List.find (\<lambda>j. luaO_rawequalObj (gkey (ns ! j)) k) xs)"
    using find_chain_spec [OF xs chain_length [OF xs], of P] by (simp add: P)
  also have "List.find (\<lambda>j. luaO_rawequalObj (gkey (ns ! j)) k) xs =
      List.find (\<lambda>j. luaO_rawequalObj (gkey (ns ! j)) k) [0..<length ns]"
  proof (cases "\<exists>j<length ns. luaO_rawequalObj (gkey (ns ! j)) k")
    case True
    then obtain j where j: "j < length ns" "luaO_rawequalObj (gkey (ns ! j)) k" by blast
    then have l: "live_key (gkey (ns ! j))" using k live_key_rawequal by blast
    have "j \<in> set xs"
    proof -
      from ok l j(1) obtain ys where
        "chain ns (Some (mainposition sh ls (gkey (ns ! j)))) ys" "j \<in> set ys"
        unfolding nodes_ok_def keys_ok_def by blast
      with mainposition_eq [OF j(2)] i xs show ?thesis by (metis chain_unique)
    qed
    moreover have "\<And>a b. a < length ns \<Longrightarrow> b < length ns \<Longrightarrow> luaO_rawequalObj (gkey (ns ! a)) k \<Longrightarrow>
        luaO_rawequalObj (gkey (ns ! b)) k \<Longrightarrow> a = b"
      using nodes_match_unique [OF ok k] by blast
    ultimately show ?thesis
    proof -
      assume j_in: "j \<in> set xs" and uniq: "\<And>a b. a < length ns \<Longrightarrow> b < length ns \<Longrightarrow>
          luaO_rawequalObj (gkey (ns ! a)) k \<Longrightarrow> luaO_rawequalObj (gkey (ns ! b)) k \<Longrightarrow> a = b"
      have f: "List.find (\<lambda>j. luaO_rawequalObj (gkey (ns ! j)) k) zs = Some j"
        if "j \<in> set zs" "\<forall>z \<in> set zs. z < length ns" for zs
        using that j uniq by (induction zs) auto
      show ?thesis using f [of xs] f [of "[0..<length ns]"] j_in j(1) chain_bound [OF xs] by simp
    qed
  next
    case False
    then have "List.find (\<lambda>j. luaO_rawequalObj (gkey (ns ! j)) k) xs = None"
      using chain_bound [OF xs] by (auto simp: find_None_iff)
    moreover from False have "List.find (\<lambda>j. luaO_rawequalObj (gkey (ns ! j)) k) [0..<length ns] = None"
      by (auto simp: find_None_iff)
    ultimately show ?thesis by simp
  qed
  finally show ?thesis .
qed

lemma tab_inv_nodes: "tab_inv sh t \<Longrightarrow> nodes_ok sh (t_lsizenode t) (t_node t)"
  by (simp add: tab_inv_def)

lemma int_in_array:
  assumes "sizearray t < 2 ^ 31" "- (2 ^ 31) \<le> k" "k < 2 ^ 31"
  shows "nat ((k - 1) mod 2 ^ 32) < sizearray t \<longleftrightarrow> 0 < k \<and> k \<le> int (sizearray t)"
proof (cases "0 < k")
  case True
  with assms(3) have "(k - 1) mod 2 ^ 32 = k - 1" by simp
  with True show ?thesis by auto
next
  case False
  have "(k - 1) mod 2 ^ 32 = (k - 1 + 2 ^ 32) mod 2 ^ 32" by (simp only: mod_add_self2)
  also have "\<dots> = k - 1 + 2 ^ 32" using False assms(2) by (intro mod_pos_pos_trivial) auto
  finally have e: "(k - 1) mod 2 ^ 32 = k - 1 + 2 ^ 32" .
  have "2 ^ 31 - 1 \<le> k - 1 + 2 ^ 32" using assms(2) by simp
  with False assms(1) show ?thesis unfolding e by auto
qed

lemma not_in_array_SNil: "\<not> (\<exists>n. k = TNumber n) \<Longrightarrow> \<not> in_array t k"
  by (auto simp: in_array_def arrayindex_def split: TValue.splits)

lemma search_node_spec:
  assumes "tab_inv sh t" "live_key k" "\<not> in_array t k"
    and "\<And>n. P n \<longleftrightarrow> luaO_rawequalObj (gkey n) k" "i = mainposition sh (t_lsizenode t) k"
  shows "search_node t P i = Inr (tab_slot t k)"
proof -
  have "k \<noteq> TNil" using assms(2) by auto
  with assms(3) search_spec [OF tab_inv_nodes [OF assms(1)] assms(2) assms(4,5)]
  show ?thesis by (simp add: search_node_def tab_slot_def)
qed

lemma luaH_getnum_spec [tab_simps]:
  assumes inv: "tab_inv sh t" and k: "- (2 ^ 31) \<le> k" "k < 2 ^ 31"
  shows "luaH_getnum t k = Inr (tab_slot t (TNumber (cast_num k)))"
proof (cases "in_array t (TNumber (cast_num k))")
  case True
  have "sizearray t < 2 ^ 31" using inv by (simp add: tab_inv_def)
  then have "nat ((k - 1) mod 2 ^ 32) < sizearray t"
    using True k int_in_array [of t k] by (simp add: in_array_def arrayindex_cast)
  with True k show ?thesis
    by (simp add: luaH_getnum_def tab_slot_def arrayindex_cast)
next
  case False
  have P: "(case gkey n of TNumber m \<Rightarrow> num_eq m (cast_num k) | _ \<Rightarrow> False)
      \<longleftrightarrow> luaO_rawequalObj (gkey n) (TNumber (cast_num k))" for n
    by (cases "gkey n") (auto simp: rawequal_iff)
  have "sizearray t < 2 ^ 31" using inv by (simp add: tab_inv_def)
  then have "\<not> nat ((k - 1) mod 2 ^ 32) < sizearray t"
    using False k int_in_array [of t k] by (simp add: in_array_def arrayindex_cast)
  moreover have "search_node t (\<lambda>n. case gkey n of TNumber m \<Rightarrow> num_eq m (cast_num k) | _ \<Rightarrow> False)
      (hashnum (t_lsizenode t) (cast_num k)) = Inr (tab_slot t (TNumber (cast_num k)))"
    by (rule search_node_spec [OF inv _ False P]) (simp_all add: mainposition_def)
  ultimately show ?thesis by (simp add: luaH_getnum_def Let_def)
qed

lemma luaH_getstr_spec [tab_simps]:
  assumes inv: "tab_inv sh t"
  shows "luaH_getstr sh t p = Inr (tab_slot t (TStr p))"
  unfolding luaH_getstr_def
  by (rule search_node_spec [OF inv])
     (auto simp: mainposition_def rawequal_iff not_in_array_SNil split: TValue.splits)

lemma tab_slot_num_eq:
  assumes "luaO_rawequalObj a b"
  shows "tab_slot t a = tab_slot t b"
proof -
  have "luaO_rawequalObj x a \<longleftrightarrow> luaO_rawequalObj x b" for x
    using assms rawequal_sym rawequal_trans by blast
  moreover have "a = TNil \<longleftrightarrow> b = TNil" using assms by (auto simp: rawequal_iff split: TValue.splits)
  ultimately show ?thesis
    using arrayindex_eq [OF assms] by (simp add: tab_slot_def in_array_def)
qed

text \<open>\<open>luaH_get\<close> finds the slot its specification names, and never runs around a chain.\<close>

lemma luaH_get_spec [tab_simps]:
  assumes inv: "tab_inv sh t" and k: "live_key k \<or> k = TNil"
  shows "luaH_get sh t k = Inr (tab_slot t k)"
proof -
  have gen: "search_node t (\<lambda>n. luaO_rawequalObj (gkey n) k) (mainposition sh (t_lsizenode t) k)
      = Inr (tab_slot t k)" if "live_key k" "\<not> in_array t k"
    by (rule search_node_spec [OF inv that]) simp_all
  show ?thesis
  proof (cases k)
    case TNil
    then show ?thesis by (simp add: luaH_get_def tab_slot_def Let_def)
  next
    case (TStr p)
    then show ?thesis by (simp add: luaH_get_def luaH_getstr_spec [OF inv])
  next
    case (TNumber n)
    show ?thesis
    proof (cases "num_eq (cast_num (lua_number2int n)) n")
      case True
      then have "luaO_rawequalObj (TNumber (cast_num (lua_number2int n))) k" using TNumber by simp
      from tab_slot_num_eq [OF this] True TNumber show ?thesis
        using luaH_getnum_spec [OF inv, of "lua_number2int n"] number2int_range [of n]
        by (simp add: luaH_get_def Let_def)
    next
      case False
      then have "\<not> in_array t k" using TNumber by (simp add: in_array_def arrayindex_def Let_def)
      with gen k TNumber False show ?thesis by (simp add: luaH_get_def Let_def)
    qed
  qed (use k gen not_in_array_SNil [of k t] in \<open>auto simp: luaH_get_def Let_def\<close>)
qed

section \<open>What a slot holds\<close>

lemma find_upt_SomeD:
  "List.find P [0..<n] = Some i \<Longrightarrow> i < n \<and> P i"
  by (auto simp: find_Some_iff)

lemma tab_slot_cases:
  obtains (Arr) "in_array t k" "tab_slot t k = SArr (nat (arrayindex k - 1))"
      "nat (arrayindex k - 1) < sizearray t"
  | (Node) i where "\<not> in_array t k" "k \<noteq> TNil" "tab_slot t k = SNode i" "i < length (t_node t)"
      "luaO_rawequalObj (gkey (t_node t ! i)) k"
  | (None) "\<not> in_array t k" "tab_slot t k = SNil"
      "k = TNil \<or> (\<forall>i<length (t_node t). \<not> luaO_rawequalObj (gkey (t_node t ! i)) k)"
proof (cases "in_array t k")
  case True
  then have "k \<noteq> TNil" by (auto simp: in_array_def arrayindex_def)
  with True show ?thesis by (intro Arr) (auto simp: tab_slot_def in_array_def)
next
  case False
  show ?thesis
  proof (cases "List.find (\<lambda>i. luaO_rawequalObj (gkey (t_node t ! i)) k) [0..<length (t_node t)]")
    case None
    then have "tab_slot t k = SNil" using False by (simp add: tab_slot_def node_slot_def)
    moreover have "\<forall>i<length (t_node t). \<not> luaO_rawequalObj (gkey (t_node t ! i)) k"
      using None by (simp add: find_None_iff)
    ultimately show ?thesis using False by (intro that(3)) simp_all
  next
    case (Some i)
    from find_upt_SomeD [OF this] Some False show ?thesis
      by (cases "k = TNil") (auto intro: that simp: tab_slot_def node_slot_def)
  qed
qed

lemma tab_slot_node:
  assumes inv: "tab_inv sh t" and i: "i < length (t_node t)" and k: "live_key k"
    and m: "luaO_rawequalObj (gkey (t_node t ! i)) k"
  shows "tab_slot t k = SNode i" and "\<not> in_array t k"
proof -
  have "live_key (gkey (t_node t ! i))" using k m live_key_rawequal by blast
  then have "\<not> in_array t (gkey (t_node t ! i))" using inv i by (simp add: tab_inv_def in_array_def)
  then show na: "\<not> in_array t k" using arrayindex_eq [OF m] by (simp add: in_array_def)
  show "tab_slot t k = SNode i"
  proof (cases rule: tab_slot_cases [of t k])
    case (Node j)
    then show ?thesis using nodes_match_unique [OF tab_inv_nodes [OF inv] k i Node(4) m Node(5)] by simp
  next
    case None
    with i m k show ?thesis by auto
  qed (use na in simp)
qed

lemma tab_get_node:
  "tab_inv sh t \<Longrightarrow> i < length (t_node t) \<Longrightarrow> live_key k \<Longrightarrow> luaO_rawequalObj (gkey (t_node t ! i)) k
    \<Longrightarrow> tab_get t k = gval (t_node t ! i)"
  by (simp add: tab_get_def tab_slot_node)

lemma tab_get_array:
  "in_array t k \<Longrightarrow> tab_get t k = t_array t ! nat (arrayindex k - 1)"
  by (auto simp: tab_get_def tab_slot_def in_array_def arrayindex_def)

lemma tab_get_none:
  "\<not> in_array t k \<Longrightarrow> (\<And>i. i < length (t_node t) \<Longrightarrow> \<not> luaO_rawequalObj (gkey (t_node t ! i)) k)
    \<Longrightarrow> tab_get t k = TNil"
  by (cases rule: tab_slot_cases [of t k]) (auto simp: tab_get_def luaO_nilobject_def)

lemma tab_get_rawequal: "luaO_rawequalObj a b \<Longrightarrow> tab_get t a = tab_get t b"
  by (simp add: tab_get_def tab_slot_num_eq)

end
