(* ===== verification/LuaTableIns.thy ===== *)
theory LuaTableIns
  imports LuaTableInv
begin

text \<open>
  Inserting a key into the hash part: the three ways \<open>newkey\<close> places a key (into its free
  main position, into a free node behind the head of its chain, into its main position after the
  intruder was moved) each keep the invariant and every other key, and writing through the slot
  of a lookup changes that key's value only.
\<close>

section \<open>Accessors of the invariant\<close>

lemma nodes_okD:
  assumes "nodes_ok sh ls ns"
  shows "length ns = 2 ^ ls"
    and "i < length ns \<Longrightarrow> \<exists>xs. chain ns (Some i) xs"
    and "i < length ns \<Longrightarrow> j < length ns \<Longrightarrow> gnext (ns ! i) = Some x \<Longrightarrow> gnext (ns ! j) = Some x \<Longrightarrow> i = j"
    and "i < length ns \<Longrightarrow> gkey (ns ! i) = TNil \<Longrightarrow> gval (ns ! i) = TNil"
    and "i < length ns \<Longrightarrow> gkey (ns ! i) = TNil \<Longrightarrow> gnext (ns ! i) = None"
    and "i < length ns \<Longrightarrow> j < length ns \<Longrightarrow> gkey (ns ! i) = TNil \<Longrightarrow> gnext (ns ! j) \<noteq> Some i"
    and "i < length ns \<Longrightarrow> gval (ns ! i) \<noteq> TNil \<Longrightarrow> live_key (gkey (ns ! i))"
    and "i < length ns \<Longrightarrow> live_key (gkey (ns ! i)) \<Longrightarrow> \<not> is_nan_value (gkey (ns ! i))"
    and "i < length ns \<Longrightarrow> live_key (gkey (ns ! i)) \<Longrightarrow>
      \<exists>xs. chain ns (Some (mainposition sh ls (gkey (ns ! i)))) xs \<and> i \<in> set xs"
    and "i < length ns \<Longrightarrow> live_key (gkey (ns ! i)) \<Longrightarrow> mainposition sh ls (gkey (ns ! i)) = p \<Longrightarrow>
      p \<noteq> i \<Longrightarrow> gkey (ns ! p) \<noteq> TNil"
    and "i < length ns \<Longrightarrow> live_key (gkey (ns ! i)) \<Longrightarrow> mainposition sh ls (gkey (ns ! i)) = p \<Longrightarrow>
      p \<noteq> i \<Longrightarrow> live_key (gkey (ns ! p)) \<Longrightarrow> mainposition sh ls (gkey (ns ! p)) = p"
    and "i < length ns \<Longrightarrow> j < length ns \<Longrightarrow> luaO_rawequalObj (gkey (ns ! i)) (gkey (ns ! j)) \<Longrightarrow>
      live_key (gkey (ns ! i)) \<Longrightarrow> i = j"
proof -
  note D = assms [unfolded nodes_ok_def links_ok_def keys_ok_def]
  show "length ns = 2 ^ ls" by (rule D [THEN conjunct1])
  note L = D [THEN conjunct2, THEN conjunct1] and K = D [THEN conjunct2, THEN conjunct2]
  note L1 = L [THEN conjunct1] and L2 = L [THEN conjunct2, THEN conjunct1]
    and L3 = L [THEN conjunct2, THEN conjunct2, THEN conjunct1]
    and L4 = L [THEN conjunct2, THEN conjunct2, THEN conjunct2]
  note K1 = K [THEN conjunct1] and K2 = K [THEN conjunct2, THEN conjunct1]
    and K3 = K [THEN conjunct2, THEN conjunct2, THEN conjunct1]
    and K4 = K [THEN conjunct2, THEN conjunct2, THEN conjunct2, THEN conjunct1]
    and K5 = K [THEN conjunct2, THEN conjunct2, THEN conjunct2, THEN conjunct2]
  show "i < length ns \<Longrightarrow> \<exists>xs. chain ns (Some i) xs" using L1 by blast
  show "i < length ns \<Longrightarrow> j < length ns \<Longrightarrow> gnext (ns ! i) = Some x \<Longrightarrow> gnext (ns ! j) = Some x \<Longrightarrow> i = j"
    using L2 by blast
  show "i < length ns \<Longrightarrow> gkey (ns ! i) = TNil \<Longrightarrow> gval (ns ! i) = TNil"
    and "i < length ns \<Longrightarrow> gkey (ns ! i) = TNil \<Longrightarrow> gnext (ns ! i) = None" using L3 by blast+
  show "i < length ns \<Longrightarrow> j < length ns \<Longrightarrow> gkey (ns ! i) = TNil \<Longrightarrow> gnext (ns ! j) \<noteq> Some i"
    using L4 by blast
  show "i < length ns \<Longrightarrow> gval (ns ! i) \<noteq> TNil \<Longrightarrow> live_key (gkey (ns ! i))" using K1 by blast
  show "i < length ns \<Longrightarrow> live_key (gkey (ns ! i)) \<Longrightarrow> \<not> is_nan_value (gkey (ns ! i))" using K2 by blast
  show "i < length ns \<Longrightarrow> live_key (gkey (ns ! i)) \<Longrightarrow>
      \<exists>xs. chain ns (Some (mainposition sh ls (gkey (ns ! i)))) xs \<and> i \<in> set xs" using K3 by blast
  show "i < length ns \<Longrightarrow> live_key (gkey (ns ! i)) \<Longrightarrow> mainposition sh ls (gkey (ns ! i)) = p \<Longrightarrow>
      p \<noteq> i \<Longrightarrow> gkey (ns ! p) \<noteq> TNil"
    and "i < length ns \<Longrightarrow> live_key (gkey (ns ! i)) \<Longrightarrow> mainposition sh ls (gkey (ns ! i)) = p \<Longrightarrow>
      p \<noteq> i \<Longrightarrow> live_key (gkey (ns ! p)) \<Longrightarrow> mainposition sh ls (gkey (ns ! p)) = p"
    using K4 by blast+
  show "i < length ns \<Longrightarrow> j < length ns \<Longrightarrow> luaO_rawequalObj (gkey (ns ! i)) (gkey (ns ! j)) \<Longrightarrow>
      live_key (gkey (ns ! i)) \<Longrightarrow> i = j" using K5 by blast
qed

lemma nodes_okI:
  assumes "length ns = 2 ^ ls"
    and "\<And>i. i < length ns \<Longrightarrow> \<exists>xs. chain ns (Some i) xs"
    and "\<And>i j x. i < length ns \<Longrightarrow> j < length ns \<Longrightarrow> gnext (ns ! i) = Some x \<Longrightarrow> gnext (ns ! j) = Some x \<Longrightarrow> i = j"
    and "\<And>i. i < length ns \<Longrightarrow> gkey (ns ! i) = TNil \<Longrightarrow> gval (ns ! i) = TNil \<and> gnext (ns ! i) = None"
    and "\<And>i j. i < length ns \<Longrightarrow> j < length ns \<Longrightarrow> gkey (ns ! i) = TNil \<Longrightarrow> gnext (ns ! j) \<noteq> Some i"
    and "\<And>i. i < length ns \<Longrightarrow> gval (ns ! i) \<noteq> TNil \<Longrightarrow> live_key (gkey (ns ! i))"
    and "\<And>i. i < length ns \<Longrightarrow> live_key (gkey (ns ! i)) \<Longrightarrow> \<not> is_nan_value (gkey (ns ! i))"
    and "\<And>i. i < length ns \<Longrightarrow> live_key (gkey (ns ! i)) \<Longrightarrow>
      \<exists>xs. chain ns (Some (mainposition sh ls (gkey (ns ! i)))) xs \<and> i \<in> set xs"
    and "\<And>i p. i < length ns \<Longrightarrow> live_key (gkey (ns ! i)) \<Longrightarrow> mainposition sh ls (gkey (ns ! i)) = p \<Longrightarrow>
      p \<noteq> i \<Longrightarrow> gkey (ns ! p) \<noteq> TNil \<and> (live_key (gkey (ns ! p)) \<longrightarrow> mainposition sh ls (gkey (ns ! p)) = p)"
    and "\<And>i j. i < length ns \<Longrightarrow> j < length ns \<Longrightarrow> luaO_rawequalObj (gkey (ns ! i)) (gkey (ns ! j)) \<Longrightarrow>
      live_key (gkey (ns ! i)) \<Longrightarrow> i = j"
  shows "nodes_ok sh ls ns"
  unfolding nodes_ok_def links_ok_def keys_ok_def
proof (intro conjI)
  show "\<forall>i<length ns. \<forall>j<length ns. \<forall>x. gnext (ns ! i) = Some x \<longrightarrow> gnext (ns ! j) = Some x \<longrightarrow> i = j"
    using assms(3) by blast
  show "\<forall>i<length ns. gkey (ns ! i) = TNil \<longrightarrow> gval (ns ! i) = TNil \<and> gnext (ns ! i) = None"
    using assms(4) by blast
  show "\<forall>i<length ns. \<forall>p. live_key (gkey (ns ! i)) \<longrightarrow> mainposition sh ls (gkey (ns ! i)) = p \<longrightarrow> p \<noteq> i \<longrightarrow>
        gkey (ns ! p) \<noteq> TNil \<and> (live_key (gkey (ns ! p)) \<longrightarrow> mainposition sh ls (gkey (ns ! p)) = p)"
    using assms(9) by blast
  show "\<forall>i<length ns. \<forall>j<length ns. luaO_rawequalObj (gkey (ns ! i)) (gkey (ns ! j)) \<longrightarrow>
        live_key (gkey (ns ! i)) \<longrightarrow> i = j"
    using assms(10) by blast
qed (use assms(1,2,5-8) in blast)+

section \<open>Main position free\<close>

text \<open>
  The facts a placement starts from: a live key \<open>k\<close> no node holds, with main position \<open>mp\<close>.
\<close>

definition absent :: "(ptr \<Rightarrow> nat) \<Rightarrow> nat \<Rightarrow> Node list \<Rightarrow> TValue \<Rightarrow> nat \<Rightarrow> bool" where
  "absent sh ls ns k mp \<longleftrightarrow>
     nodes_ok sh ls ns \<and> live_key k \<and> \<not> is_nan_value k \<and> mp = mainposition sh ls k \<and>
     (\<forall>i<length ns. \<not> luaO_rawequalObj (gkey (ns ! i)) k)"

lemma absentD:
  assumes "absent sh ls ns k mp"
  shows "nodes_ok sh ls ns" "live_key k" "\<not> is_nan_value k" "mainposition sh ls k = mp" "mp < length ns"
    "i < length ns \<Longrightarrow> \<not> luaO_rawequalObj (gkey (ns ! i)) k"
    "i < length ns \<Longrightarrow> \<not> luaO_rawequalObj k (gkey (ns ! i))" "k \<noteq> TNil"
  using assms mainposition_lt [of sh ls k] rawequal_sym
  by (auto simp: absent_def dest: nodes_okD(1))

lemma place_free:
  assumes a: "absent sh ls ns k mp" and v: "gval (ns ! mp) = TNil"
    and len: "length ns' = length ns"
    and nx: "\<And>i. i < length ns \<Longrightarrow> gnext (ns' ! i) = gnext (ns ! i)"
    and ky: "\<And>i. i < length ns \<Longrightarrow> gkey (ns' ! i) = (if i = mp then k else gkey (ns ! i))"
    and vl: "\<And>i. i < length ns \<Longrightarrow> gval (ns' ! i) = gval (ns ! i)"
  shows "nodes_ok sh ls ns'"
proof -
  note ok = nodes_okD [OF absentD(1) [OF a]]
  note ab = absentD(2-) [OF a]
  have ch: "chain ns' p xs = chain ns p xs" for p xs
    by (rule chain_cong) (simp_all add: nx len)
  show ?thesis
  proof (rule nodes_okI)
    fix i assume "i < length ns'"
    then have i: "i < length ns" by (simp add: len)
    show "\<exists>xs. chain ns' (Some i) xs" using ok(2) [OF i] by (simp add: ch)
    show "gkey (ns' ! i) = TNil \<Longrightarrow> gval (ns' ! i) = TNil \<and> gnext (ns' ! i) = None"
      using ok(4,5) [OF i] ab(7) by (auto simp: nx ky vl i split: if_splits)
    show "gval (ns' ! i) \<noteq> TNil \<Longrightarrow> live_key (gkey (ns' ! i))"
      using ok(7) [OF i] ab(1) v by (auto simp: ky vl i)
    show "live_key (gkey (ns' ! i)) \<Longrightarrow> \<not> is_nan_value (gkey (ns' ! i))"
      using ok(8) [OF i] ab(2) by (auto simp: ky i split: if_splits)
    show "\<exists>xs. chain ns' (Some (mainposition sh ls (gkey (ns' ! i)))) xs \<and> i \<in> set xs"
      if l: "live_key (gkey (ns' ! i))"
    proof (cases "i = mp")
      case True
      from ok(2) [OF ab(4)] obtain xs where xs: "chain ns (Some mp) xs" by blast
      then have "mp \<in> set xs" by (auto simp: chain_Some)
      with xs True show ?thesis unfolding ch ky [OF i] by (auto simp: ab(3))
    next
      case False
      with i l ok(9) [OF i] show ?thesis unfolding ch by (simp add: ky)
    qed
    show "gkey (ns' ! p) \<noteq> TNil \<and> (live_key (gkey (ns' ! p)) \<longrightarrow> mainposition sh ls (gkey (ns' ! p)) = p)"
      if l: "live_key (gkey (ns' ! i))" and p: "mainposition sh ls (gkey (ns' ! i)) = p" "p \<noteq> i" for p
    proof (cases "i = mp")
      case True
      with p(1) have "p = i" unfolding ky [OF i] by (simp add: ab(3))
      with p(2) show ?thesis by simp
    next
      case False
      then have li: "live_key (gkey (ns ! i))" and pi: "mainposition sh ls (gkey (ns ! i)) = p"
        using l p by (simp_all add: ky i)
      have "p < length ns" using pi mainposition_lt [of sh ls] ok(1) by auto
      then show ?thesis using ok(10,11) [OF i li pi p(2)] ab(3,7) by (simp add: ky)
    qed
    fix j assume "j < length ns'"
    then have j: "j < length ns" by (simp add: len)
    show "gnext (ns' ! i) = Some x \<Longrightarrow> gnext (ns' ! j) = Some x \<Longrightarrow> i = j" for x
      using ok(3) [OF i j] by (simp add: nx i j)
    show "gkey (ns' ! i) = TNil \<Longrightarrow> gnext (ns' ! j) \<noteq> Some i"
      using ok(6) [OF i j] ab(7) by (auto simp: nx ky i j split: if_splits)
    show "luaO_rawequalObj (gkey (ns' ! i)) (gkey (ns' ! j)) \<Longrightarrow> live_key (gkey (ns' ! i)) \<Longrightarrow> i = j"
      using ok(12) [OF i j] ab(5) [OF i] ab(6) [OF j] by (auto simp: ky i j split: if_splits)
  qed (use ok(1) len in simp)
qed

section \<open>Behind the head of its chain\<close>

lemma chain_insert_after:
  assumes "chain ns p xs" "n \<notin> set xs" "n \<noteq> mp" "n < length ns"
    and len: "length ns' = length ns"
    and nx: "\<And>i. i < length ns \<Longrightarrow> gnext (ns' ! i) =
      (if i = mp then Some n else if i = n then gnext (ns ! mp) else gnext (ns ! i))"
  shows "chain ns' p (concat (map (\<lambda>x. if x = mp then [mp, n] else [x]) xs))"
  using assms(1-4) len nx
proof (induction ns p xs rule: chain.induct)
  case (2 ns p x xs)
  then have IH: "chain ns' (gnext (ns ! x)) (concat (map (\<lambda>x. if x = mp then [mp, n] else [x]) xs))"
    by simp
  from 2 IH show ?case by (cases "x = mp") auto
qed simp

lemma place_behind:
  assumes a: "absent sh ls ns k mp" and v: "gval (ns ! mp) \<noteq> TNil"
    and own: "mainposition sh ls (gkey (ns ! mp)) = mp"
    and n: "n < length ns" "gkey (ns ! n) = TNil"
    and len: "length ns' = length ns"
    and nx: "\<And>i. i < length ns \<Longrightarrow> gnext (ns' ! i) =
      (if i = mp then Some n else if i = n then gnext (ns ! mp) else gnext (ns ! i))"
    and ky: "\<And>i. i < length ns \<Longrightarrow> gkey (ns' ! i) = (if i = n then k else gkey (ns ! i))"
    and vl: "\<And>i. i < length ns \<Longrightarrow> gval (ns' ! i) = gval (ns ! i)"
  shows "nodes_ok sh ls ns'"
proof -
  note ok = nodes_okD [OF absentD(1) [OF a]]
  note ab = absentD(2-) [OF a]
  have kmp: "live_key (gkey (ns ! mp))" using ok(7) ab(4) v by blast
  then have mpn: "n \<noteq> mp" and kmpn: "gkey (ns ! mp) \<noteq> TNil" using n(2) by auto
  have nopred: "\<And>j. j < length ns \<Longrightarrow> gnext (ns ! j) \<noteq> Some n" using ok(6) n by blast
  let ?ins = "\<lambda>xs. concat (map (\<lambda>x. if x = mp then [mp, n] else [x]) xs)"
  have ch: "chain ns' (Some i) (?ins xs)" if "chain ns (Some i) xs" "i \<noteq> n" for i xs
    using chain_insert_after [OF that(1) _ mpn n(1) len nx] chain_notin [OF that(1) _ nopred] that(2) by simp
  have mem: "i \<in> set xs \<Longrightarrow> i \<in> set (?ins xs)" for i xs by auto
  have pos_n: "mainposition sh ls (gkey (ns ! i)) \<noteq> n" if "i < length ns" "live_key (gkey (ns ! i))" for i
    using ok(10) [OF that, of n] n(2) that(2) by (cases "i = n") auto
  obtain ms where ms: "chain ns (Some mp) (mp # ms)" using ok(2) [OF ab(4)] by (auto simp: chain_Some)
  have cmp: "chain ns' (Some mp) (mp # n # ?ins ms)"
    using ch [OF ms] mpn by auto
  then have cn: "chain ns' (Some n) (n # ?ins ms)" by simp
  show ?thesis
  proof (rule nodes_okI)
    fix i assume "i < length ns'"
    then have i: "i < length ns" by (simp add: len)
    show "\<exists>xs. chain ns' (Some i) xs"
      using ok(2) [OF i] ch cn by (cases "i = n") blast+
    show "gkey (ns' ! i) = TNil \<Longrightarrow> gval (ns' ! i) = TNil \<and> gnext (ns' ! i) = None"
      using ok(4,5) [OF i] ab(7) kmpn by (auto simp: nx ky vl i split: if_splits)
    show "gval (ns' ! i) \<noteq> TNil \<Longrightarrow> live_key (gkey (ns' ! i))"
      using ok(7) [OF i] ab(1) by (auto simp: ky vl i)
    show "live_key (gkey (ns' ! i)) \<Longrightarrow> \<not> is_nan_value (gkey (ns' ! i))"
      using ok(8) [OF i] ab(2) by (auto simp: ky i split: if_splits)
    show "\<exists>xs. chain ns' (Some (mainposition sh ls (gkey (ns' ! i)))) xs \<and> i \<in> set xs"
      if l: "live_key (gkey (ns' ! i))"
    proof (cases "i = n")
      case True
      then have "chain ns' (Some (mainposition sh ls (gkey (ns' ! i)))) (mp # n # ?ins ms)"
        using cmp unfolding ky [OF i] by (simp add: ab(3))
      with True show ?thesis by (auto intro: exI [of _ "mp # n # ?ins ms"])
    next
      case False
      then have li: "live_key (gkey (ns ! i))" using l by (simp add: ky i)
      from ok(9) [OF i li] obtain xs where
        xs: "chain ns (Some (mainposition sh ls (gkey (ns ! i)))) xs" "i \<in> set xs" by blast
      from ch [OF xs(1) pos_n [OF i li]] mem [OF xs(2)] False show ?thesis by (auto simp: ky i)
    qed
    show "gkey (ns' ! p) \<noteq> TNil \<and> (live_key (gkey (ns' ! p)) \<longrightarrow> mainposition sh ls (gkey (ns' ! p)) = p)"
      if l: "live_key (gkey (ns' ! i))" and p: "mainposition sh ls (gkey (ns' ! i)) = p" "p \<noteq> i" for p
    proof (cases "i = n")
      case True
      then have "p = mp" using p(1) by (simp add: ky i ab(3) n(1))
      then show ?thesis using kmpn own mpn by (simp add: ky ab(4))
    next
      case False
      then have li: "live_key (gkey (ns ! i))" and pi: "mainposition sh ls (gkey (ns ! i)) = p"
        using l p by (simp_all add: ky i)
      have "p < length ns" using pi mainposition_lt [of sh ls] ok(1) by auto
      moreover have "p \<noteq> n" using pos_n [OF i li] pi by simp
      ultimately show ?thesis using ok(10,11) [OF i li pi p(2)] by (simp add: ky)
    qed
    fix j assume "j < length ns'"
    then have j: "j < length ns" by (simp add: len)
    show "gnext (ns' ! i) = Some x \<Longrightarrow> gnext (ns' ! j) = Some x \<Longrightarrow> i = j" for x
      using ok(3) [OF i j] ok(3) [OF i ab(4)] ok(3) [OF j ab(4)] nopred i j
      by (auto simp: nx split: if_splits)
    show "gkey (ns' ! i) = TNil \<Longrightarrow> gnext (ns' ! j) \<noteq> Some i"
      using ok(6) [OF i j] ok(6) [OF i ab(4)] ab(7) by (auto simp: nx ky i j split: if_splits)
    show "luaO_rawequalObj (gkey (ns' ! i)) (gkey (ns' ! j)) \<Longrightarrow> live_key (gkey (ns' ! i)) \<Longrightarrow> i = j"
      using ok(12) [OF i j] ab(5) [OF i] ab(6) [OF j] by (auto simp: ky i j split: if_splits)
  qed (use ok(1) len in simp)
qed

section \<open>Moving the intruder away\<close>

lemma chain_move:
  assumes "chain ns p xs" "n \<notin> set xs" "n < length ns" "mp < length ns"
    and len: "length ns' = length ns"
    and nx: "\<And>i. i < length ns \<Longrightarrow> i \<noteq> mp \<Longrightarrow> gnext (ns' ! i) =
      (if i = n then gnext (ns ! mp) else map_option (\<lambda>x. if x = mp then n else x) (gnext (ns ! i)))"
    and self: "gnext (ns ! mp) \<noteq> Some mp"
  shows "chain ns' (map_option (\<lambda>x. if x = mp then n else x) p) (map (\<lambda>x. if x = mp then n else x) xs)"
  using assms
proof (induction ns p xs rule: chain.induct)
  case (2 ns p x xs)
  let ?f = "\<lambda>x. if x = mp then n else x"
  from 2 have IH: "chain ns' (map_option ?f (gnext (ns ! x))) (map ?f xs)" by simp
  show ?case
  proof (cases "x = mp")
    case True
    have "map_option ?f (gnext (ns ! mp)) = gnext (ns ! mp)"
      using 2(8) by (cases "gnext (ns ! mp)") auto
    with True 2 IH show ?thesis by (cases "n = mp") auto
  next
    case False
    with 2 IH show ?thesis by auto
  qed
qed simp

lemma place_moved:
  assumes a: "absent sh ls ns k mp" and v: "gval (ns ! mp) \<noteq> TNil"
    and oth: "mainposition sh ls (gkey (ns ! mp)) \<noteq> mp"
    and prev: "prev < length ns" "gnext (ns ! prev) = Some mp"
    and n: "n < length ns" "gkey (ns ! n) = TNil"
    and len: "length ns' = length ns"
    and nx: "\<And>i. i < length ns \<Longrightarrow> gnext (ns' ! i) =
      (if i = mp then None else if i = n then gnext (ns ! mp)
       else if i = prev then Some n else gnext (ns ! i))"
    and ky: "\<And>i. i < length ns \<Longrightarrow> gkey (ns' ! i) =
      (if i = mp then k else if i = n then gkey (ns ! mp) else gkey (ns ! i))"
    and vl: "\<And>i. i < length ns \<Longrightarrow> gval (ns' ! i) =
      (if i = mp then TNil else if i = n then gval (ns ! mp) else gval (ns ! i))"
  shows "nodes_ok sh ls ns'"
proof -
  note ok = nodes_okD [OF absentD(1) [OF a]]
  note ab = absentD(2-) [OF a]
  let ?pos = "\<lambda>i. mainposition sh ls (gkey (ns ! i))"
  let ?f = "\<lambda>x. if x = mp then n else x"
  have kmp: "live_key (gkey (ns ! mp))" using ok(7) ab(4) v by blast
  then have mpn: "n \<noteq> mp" using n(2) by auto
  have nopred: "\<And>j. j < length ns \<Longrightarrow> gnext (ns ! j) \<noteq> Some n" using ok(6) n by blast
  obtain ms where ms: "chain ns (Some mp) (mp # ms)" using ok(2) [OF ab(4)] by (auto simp: chain_Some)
  have self: "gnext (ns ! mp) \<noteq> Some mp"
    using chain_distinct [OF ms] ms by (cases ms) auto
  have ch: "chain ns' (Some i) (map ?f xs)" if "chain ns (Some i) xs" "i \<noteq> n" "i \<noteq> mp" for i xs
  proof -
    have "gnext (ns' ! j) = (if j = n then gnext (ns ! mp) else map_option ?f (gnext (ns ! j)))"
      if "j < length ns" "j \<noteq> mp" for j
      using that ok(3) [OF that(1) prev(1), of mp] prev(2)
      by (cases "gnext (ns ! j)") (auto simp: nx)
    from chain_move [OF that(1) chain_notin [OF that(1) _ nopred] n(1) ab(4) len this self] that(2,3)
    show ?thesis by simp
  qed
  have pos_n: "?pos i \<noteq> n" if "i < length ns" "live_key (gkey (ns ! i))" for i
    using ok(10) [OF that, of n] n(2) that(2) by (cases "i = n") auto
  have pos_mp: "?pos i \<noteq> mp" if "i < length ns" "live_key (gkey (ns ! i))" for i
    using ok(11) [OF that, of mp] oth kmp by (cases "i = mp") auto
  have lt: "?pos i < length ns" for i using mainposition_lt ok(1) by simp
  have cmp: "chain ns' (Some mp) [mp]" by (simp add: nx ab(4) len)
  have cn: "\<exists>xs. chain ns' (Some n) xs"
  proof -
    from ok(9) [OF ab(4) kmp] obtain xs where xs: "chain ns (Some (?pos mp)) xs" "mp \<in> set xs" by blast
    then have "n \<in> set (map ?f xs)" by force
    then obtain as bs where "map ?f xs = as @ n # bs" by (meson split_list)
    with ch [OF xs(1) pos_n [OF ab(4) kmp] oth] have "chain ns' (Some n) (n # bs)"
      using chain_tail by metis
    then show ?thesis by blast
  qed
  show ?thesis
  proof (rule nodes_okI)
    fix i assume "i < length ns'"
    then have i: "i < length ns" by (simp add: len)
    show "\<exists>xs. chain ns' (Some i) xs"
      using ok(2) [OF i] ch cn cmp by (cases "i = n"; cases "i = mp") blast+
    show "gkey (ns' ! i) = TNil \<Longrightarrow> gval (ns' ! i) = TNil \<and> gnext (ns' ! i) = None"
      using ok(4,5) [OF i] ab(7) kmp prev by (auto simp: nx ky vl i split: if_splits)
    show "gval (ns' ! i) \<noteq> TNil \<Longrightarrow> live_key (gkey (ns' ! i))"
      using ok(7) [OF i] kmp by (auto simp: ky vl i split: if_splits)
    show "live_key (gkey (ns' ! i)) \<Longrightarrow> \<not> is_nan_value (gkey (ns' ! i))"
      using ok(8) [OF i] ok(8) [OF ab(4) kmp] ab(2) by (auto simp: ky i split: if_splits)
    show "\<exists>xs. chain ns' (Some (mainposition sh ls (gkey (ns' ! i)))) xs \<and> i \<in> set xs"
      if l: "live_key (gkey (ns' ! i))"
    proof -
      consider "i = mp" | "i = n" "i \<noteq> mp" | "i \<noteq> mp" "i \<noteq> n" by blast
      then show ?thesis
      proof cases
        case 1
        with cmp show ?thesis unfolding ky [OF i] by (intro exI [of _ "[mp]"]) (simp add: ab(3))
      next
        case 2
        from ok(9) [OF ab(4) kmp] obtain xs where xs: "chain ns (Some (?pos mp)) xs" "mp \<in> set xs" by blast
        then have "n \<in> set (map ?f xs)" by force
        with ch [OF xs(1) pos_n [OF ab(4) kmp] oth] 2 show ?thesis
          unfolding ky [OF i] by (intro exI [of _ "map ?f xs"]) simp
      next
        case 3
        then have li: "live_key (gkey (ns ! i))" using l by (simp add: ky i)
        from ok(9) [OF i li] obtain xs where xs: "chain ns (Some (?pos i)) xs" "i \<in> set xs" by blast
        then have "i \<in> set (map ?f xs)" using 3 by force
        with ch [OF xs(1) pos_n [OF i li] pos_mp [OF i li]] 3 show ?thesis by (auto simp: ky i)
      qed
    qed
    show "gkey (ns' ! p) \<noteq> TNil \<and> (live_key (gkey (ns' ! p)) \<longrightarrow> mainposition sh ls (gkey (ns' ! p)) = p)"
      if l: "live_key (gkey (ns' ! i))" and p: "mainposition sh ls (gkey (ns' ! i)) = p" "p \<noteq> i" for p
    proof (cases "i = mp")
      case True
      with p(1) have "p = i" unfolding ky [OF i] by (simp add: ab(3))
      with p(2) show ?thesis by simp
    next
      case False
      define i' where "i' = (if i = n then mp else i)"
      have i': "i' < length ns" "live_key (gkey (ns ! i'))" "?pos i' = p"
        using False l p(1) i ab(4) kmp by (auto simp: i'_def ky)
      have "p \<noteq> i'" using p(2) i'(3) oth by (auto simp: i'_def split: if_splits)
      with ok(10,11) [OF i'] have "gkey (ns ! p) \<noteq> TNil \<and> (live_key (gkey (ns ! p)) \<longrightarrow> ?pos p = p)" by simp
      moreover have "p \<noteq> n" "p \<noteq> mp" "p < length ns"
        using pos_n [OF i'(1,2)] pos_mp [OF i'(1,2)] lt [of i'] i'(3) by auto
      ultimately show ?thesis by (simp add: ky)
    qed
    fix j assume "j < length ns'"
    then have j: "j < length ns" by (simp add: len)
    show "gnext (ns' ! i) = Some x \<Longrightarrow> gnext (ns' ! j) = Some x \<Longrightarrow> i = j" for x
      using ok(3) [OF i j] ok(3) [OF i ab(4)] ok(3) [OF j ab(4)] nopred i j ab(4)
      by (auto simp: nx split: if_splits)
    show "gkey (ns' ! i) = TNil \<Longrightarrow> gnext (ns' ! j) \<noteq> Some i"
      using ok(6) [OF i j] ok(6) [OF i ab(4)] ab(7) kmp by (auto simp: nx ky i j split: if_splits)
    show "luaO_rawequalObj (gkey (ns' ! i)) (gkey (ns' ! j)) \<Longrightarrow> live_key (gkey (ns' ! i)) \<Longrightarrow> i = j"
      using ok(12) [OF i j] ok(12) [OF i ab(4)] ok(12) [OF ab(4) j] kmp n(2)
        ab(5) [OF i] ab(5) [OF ab(4)] ab(6) [OF j] ab(6) [OF ab(4)]
      by (auto simp: ky i j split: if_splits)
  qed (use ok(1) len in simp)
qed

section \<open>The free position\<close>

lemma getfreepos_Some:
  "getfreepos ns lf = (Some n, lf') \<Longrightarrow>
    n = lf' \<and> n < lf \<and> gkey (ns ! n) = TNil \<and> (\<forall>i. n < i \<longrightarrow> i < lf \<longrightarrow> gkey (ns ! i) \<noteq> TNil)"
proof (induction ns lf rule: getfreepos.induct)
  case (2 ns lf)
  then show ?case by (cases "gkey (ns ! lf) = TNil") (auto simp: less_Suc_eq)
qed simp

lemma getfreepos_None:
  "getfreepos ns lf = (None, lf') \<Longrightarrow> lf' = 0 \<and> (\<forall>i<lf. gkey (ns ! i) \<noteq> TNil)"
proof (induction ns lf rule: getfreepos.induct)
  case (2 ns lf)
  then show ?case by (cases "gkey (ns ! lf) = TNil") (auto simp: less_Suc_eq)
qed simp

text \<open>The number of nodes in use bounds how many insertions find a free node.\<close>

definition used :: "Node list \<Rightarrow> nat" where
  "used ns = card {i. i < length ns \<and> gkey (ns ! i) \<noteq> TNil}"

lemma used_le: "used ns \<le> length ns"
proof -
  have "{i. i < length ns \<and> gkey (ns ! i) \<noteq> TNil} \<subseteq> {..<length ns}" by auto
  then show ?thesis unfolding used_def by (metis card_lessThan card_mono finite_lessThan)
qed

lemma used_full: "(\<forall>i<length ns. gkey (ns ! i) \<noteq> TNil) \<Longrightarrow> used ns = length ns"
proof -
  assume "\<forall>i<length ns. gkey (ns ! i) \<noteq> TNil"
  then have "{i. i < length ns \<and> gkey (ns ! i) \<noteq> TNil} = {..<length ns}" by auto
  then show ?thesis by (simp add: used_def)
qed

lemma used_insert:
  assumes "length ns' = length ns" "n < length ns"
    and "\<And>i. i < length ns \<Longrightarrow> i \<noteq> n \<Longrightarrow> gkey (ns' ! i) \<noteq> TNil \<Longrightarrow> gkey (ns ! i) \<noteq> TNil"
  shows "used ns' \<le> used ns + 1"
proof -
  have "{i. i < length ns' \<and> gkey (ns' ! i) \<noteq> TNil}
      \<subseteq> insert n {i. i < length ns \<and> gkey (ns ! i) \<noteq> TNil}"
    using assms by auto
  then have "used ns' \<le> card (insert n {i. i < length ns \<and> gkey (ns ! i) \<noteq> TNil})"
    unfolding used_def by (rule card_mono [rotated]) simp
  also have "\<dots> \<le> used ns + 1" by (simp add: used_def card_insert_if)
  finally show ?thesis .
qed

lemma free_node:
  assumes inv: "tab_inv sh t" and dum: "\<not> t_isdummy t" and u: "used (t_node t) < length (t_node t)"
  shows "\<exists>n. getfreepos (t_node t) (t_lastfree t) = (Some n, n)"
proof -
  obtain r lf where g: "getfreepos (t_node t) (t_lastfree t) = (r, lf)" by force
  show ?thesis
  proof (cases r)
    case None
    then have "\<forall>i<t_lastfree t. gkey (t_node t ! i) \<noteq> TNil" using getfreepos_None g by blast
    then have "\<forall>i<length (t_node t). gkey (t_node t ! i) \<noteq> TNil"
      using inv dum unfolding tab_inv_def by (meson leI)
    with used_full u show ?thesis by simp
  next
    case (Some n)
    with getfreepos_Some g show ?thesis by auto
  qed
qed

section \<open>Placing a key keeps the others\<close>

lemma tab_get_transfer:
  assumes inv: "tab_inv sh t" "tab_inv sh t'" and arr: "t_array t' = t_array t" and k: "live_key k"
    and A: "\<And>i. i < length (t_node t) \<Longrightarrow> luaO_rawequalObj (gkey (t_node t ! i)) k \<Longrightarrow>
      gval (t_node t ! i) \<noteq> TNil \<Longrightarrow> \<exists>j<length (t_node t'). luaO_rawequalObj (gkey (t_node t' ! j)) k \<and>
        gval (t_node t' ! j) = gval (t_node t ! i)"
    and B: "\<And>j. j < length (t_node t') \<Longrightarrow> luaO_rawequalObj (gkey (t_node t' ! j)) k \<Longrightarrow>
      gval (t_node t' ! j) \<noteq> TNil \<Longrightarrow> \<exists>i<length (t_node t). luaO_rawequalObj (gkey (t_node t ! i)) k \<and>
        gval (t_node t ! i) = gval (t_node t' ! j)"
  shows "tab_get t' k = tab_get t k"
proof (cases "in_array t k")
  case True
  then have "in_array t' k" by (simp add: in_array_def sizearray_def arr)
  with True show ?thesis by (simp add: tab_get_array arr)
next
  case False
  then have na: "\<not> in_array t' k" by (simp add: in_array_def sizearray_def arr)
  have one: "tab_get t1 k = TNil \<or> (\<exists>i<length (t_node t1). luaO_rawequalObj (gkey (t_node t1 ! i)) k \<and>
      gval (t_node t1 ! i) = tab_get t1 k)" if "tab_inv sh t1" "\<not> in_array t1 k" for t1
    using tab_get_none [OF that(2)] tab_get_node [OF that(1) _ k] by metis
  show ?thesis
  proof (cases "tab_get t k = TNil")
    case True
    with one [OF inv(2) na] B tab_get_node [OF inv(1) _ k] show ?thesis by metis
  next
    case f: False
    with one [OF inv(1) False] A tab_get_node [OF inv(2) _ k] show ?thesis by metis
  qed
qed

text \<open>What \<open>newkey\<close> promises when it places key \<open>k\<close> in node \<open>i\<close>.\<close>

definition placed :: "(ptr \<Rightarrow> nat) \<Rightarrow> Table \<Rightarrow> TValue \<Rightarrow> Table \<Rightarrow> nat \<Rightarrow> bool" where
  "placed sh t k t' i \<longleftrightarrow>
     tab_inv sh t' \<and> t_array t' = t_array t \<and> t_lsizenode t' = t_lsizenode t \<and> t_flags t' = t_flags t \<and>
     t_isdummy t' = t_isdummy t \<and> used (t_node t') \<le> used (t_node t) + 1 \<and>
     i < length (t_node t') \<and> gkey (t_node t' ! i) = k \<and> gval (t_node t' ! i) = TNil \<and>
     (\<forall>k'. live_key k' \<longrightarrow> \<not> luaO_rawequalObj k k' \<longrightarrow> tab_get t' k' = tab_get t k')"

lemma absent_if_SNil:
  assumes "tab_inv sh t" "live_key k" "\<not> is_nan_value k" "tab_slot t k = SNil"
  shows "absent sh (t_lsizenode t) (t_node t) k (mainposition sh (t_lsizenode t) k)"
    and "\<not> in_array t k"
proof -
  have "\<not> in_array t k" using assms(2,4) by (auto simp: tab_slot_def split: if_splits)
  then show "\<not> in_array t k" .
  show "absent sh (t_lsizenode t) (t_node t) k (mainposition sh (t_lsizenode t) k)"
    using assms tab_inv_nodes [OF assms(1)] tab_slot_node(1) [OF assms(1) _ assms(2)]
    unfolding absent_def by auto
qed

text \<open>A table whose node vector changed and kept the invariant of the hash part.\<close>

lemma tab_inv_nodesI:
  assumes inv: "tab_inv sh t" and ok: "nodes_ok sh (t_lsizenode t) ns'"
    and len: "length ns' = length (t_node t)"
    and dum: "\<not> t_isdummy t" and lf: "lf \<le> t_lastfree t"
    and full: "\<And>i. i < length ns' \<Longrightarrow> lf \<le> i \<Longrightarrow> gkey (ns' ! i) \<noteq> TNil"
    and keys: "\<And>i. i < length ns' \<Longrightarrow> live_key (gkey (ns' ! i)) \<Longrightarrow>
      gkey (ns' ! i) = k \<or> (\<exists>j<length ns'. gkey (ns' ! i) = gkey (t_node t ! j))"
    and k: "\<not> in_array t k"
  shows "tab_inv sh (t\<lparr>t_node := ns', t_lastfree := lf\<rparr>)"
proof -
  have sz: "sizearray (t\<lparr>t_node := ns', t_lastfree := lf\<rparr>) = sizearray t" by (simp add: sizearray_def)
  have "\<forall>i<length ns'. live_key (gkey (ns' ! i)) \<longrightarrow>
      \<not> (0 < arrayindex (gkey (ns' ! i)) \<and> arrayindex (gkey (ns' ! i)) \<le> int (sizearray t))"
    using keys k inv len unfolding tab_inv_def in_array_def by metis
  then show ?thesis
    using inv ok len dum lf full unfolding tab_inv_def sz by auto
qed

lemma placedI:
  assumes inv: "tab_inv sh t" and t': "t' = t\<lparr>t_node := ns', t_lastfree := lf\<rparr>" and inv': "tab_inv sh t'"
    and len: "length ns' = length (t_node t)" and u: "used ns' \<le> used (t_node t) + 1"
    and i: "i < length ns'" "gkey (ns' ! i) = k" "gval (ns' ! i) = TNil"
    and fwd: "\<And>j. j < length ns' \<Longrightarrow> gval (t_node t ! j) \<noteq> TNil \<Longrightarrow>
      \<exists>j'<length ns'. gkey (ns' ! j') = gkey (t_node t ! j) \<and> gval (ns' ! j') = gval (t_node t ! j)"
    and bwd: "\<And>j. j < length ns' \<Longrightarrow> gval (ns' ! j) \<noteq> TNil \<Longrightarrow>
      \<exists>j'<length ns'. gkey (t_node t ! j') = gkey (ns' ! j) \<and> gval (t_node t ! j') = gval (ns' ! j)"
  shows "placed sh t k t' i"
proof -
  have "tab_get t' k' = tab_get t k'" if k': "live_key k'" for k'
  proof (rule tab_get_transfer [OF inv inv' _ k'])
    show "t_array t' = t_array t" by (simp add: t')
    show "\<exists>j'<length (t_node t'). luaO_rawequalObj (gkey (t_node t' ! j')) k' \<and>
        gval (t_node t' ! j') = gval (t_node t ! j)"
      if "j < length (t_node t)" "luaO_rawequalObj (gkey (t_node t ! j)) k'" "gval (t_node t ! j) \<noteq> TNil" for j
      using fwd [of j] that len by (auto simp: t')
    show "\<exists>j'<length (t_node t). luaO_rawequalObj (gkey (t_node t ! j')) k' \<and>
        gval (t_node t ! j') = gval (t_node t' ! j)"
      if "j < length (t_node t')" "luaO_rawequalObj (gkey (t_node t' ! j)) k'" "gval (t_node t' ! j) \<noteq> TNil" for j
      using bwd [of j] that len by (auto simp: t')
  qed
  with assms show ?thesis by (simp add: placed_def)
qed

lemma newkey_place_free:
  assumes inv: "tab_inv sh t" and k: "live_key k" "\<not> is_nan_value k" "tab_slot t k = SNil"
    and mp: "mp = mainposition sh (t_lsizenode t) k"
    and free: "gval (t_node t ! mp) = TNil" "\<not> t_isdummy t"
  shows "\<exists>t'. newkey_step nk sh t k = Inr (t', SNode mp) \<and> placed sh t k t' mp"
proof -
  note a = absent_if_SNil [OF inv k, folded mp]
  note ab = absentD [OF a(1)]
  define ns' where "ns' = (t_node t)[mp := (t_node t ! mp)\<lparr>gkey := k\<rparr>]"
  have len: "length ns' = length (t_node t)" by (simp add: ns'_def)
  have at: "ns' ! i = (if i = mp then (t_node t ! mp)\<lparr>gkey := k\<rparr> else t_node t ! i)" for i
    using ab(5) by (simp add: ns'_def)
  have ok: "nodes_ok sh (t_lsizenode t) ns'"
    by (rule place_free [OF a(1) free(1) len]) (auto simp: at)
  let ?t = "t\<lparr>t_node := ns', t_lastfree := t_lastfree t\<rparr>"
  have inv': "tab_inv sh ?t"
  proof (rule tab_inv_nodesI [OF inv ok len free(2) order_refl _ _ a(2)])
    show "gkey (ns' ! i) \<noteq> TNil" if "i < length ns'" "t_lastfree t \<le> i" for i
      using inv that free(2) ab(8) len unfolding tab_inv_def at by auto
    show "gkey (ns' ! i) = k \<or> (\<exists>j<length ns'. gkey (ns' ! i) = gkey (t_node t ! j))"
      if "i < length ns'" for i
      using that unfolding at by auto
  qed
  have "newkey_step nk sh t k = Inr (?t, SNode mp)"
    using free by (simp add: newkey_step_def Let_def set_node_def ns'_def flip: mp)
  moreover have "placed sh t k ?t mp"
  proof (rule placedI [OF inv refl inv' len])
    show "used ns' \<le> used (t_node t) + 1"
      by (rule used_insert [OF len ab(5)]) (simp add: at)
    show "\<exists>j'<length ns'. gkey (ns' ! j') = gkey (t_node t ! j) \<and> gval (ns' ! j') = gval (t_node t ! j)"
      if "j < length ns'" "gval (t_node t ! j) \<noteq> TNil" for j
      using that free(1) by (intro exI [of _ j]) (auto simp: at)
    show "\<exists>j'<length ns'. gkey (t_node t ! j') = gkey (ns' ! j) \<and> gval (t_node t ! j') = gval (ns' ! j)"
      if "j < length ns'" "gval (ns' ! j) \<noteq> TNil" for j
      using that free(1) by (intro exI [of _ j]) (auto simp: at split: if_splits)
  qed (use ab(5) free(1) len in \<open>simp_all add: at\<close>)
  ultimately show ?thesis by blast
qed

lemma newkey_place_behind:
  assumes inv: "tab_inv sh t" and k: "live_key k" "\<not> is_nan_value k" "tab_slot t k = SNil"
    and mp: "mp = mainposition sh (t_lsizenode t) k"
    and busy: "gval (t_node t ! mp) \<noteq> TNil" "\<not> t_isdummy t"
    and free: "getfreepos (t_node t) (t_lastfree t) = (Some n, lf)"
    and own: "mainposition sh (t_lsizenode t) (gkey (t_node t ! mp)) = mp"
  shows "\<exists>t'. newkey_step nk sh t k = Inr (t', SNode n) \<and> placed sh t k t' n"
proof -
  note a = absent_if_SNil [OF inv k, folded mp]
  note ab = absentD [OF a(1)]
  note g = getfreepos_Some [OF free]
  have n: "n < length (t_node t)" "gkey (t_node t ! n) = TNil" "lf = n" "lf \<le> t_lastfree t"
    using g inv by (auto simp: tab_inv_def)
  have vn: "gval (t_node t ! n) = TNil" using nodes_okD(4) [OF ab(1) n(1,2)] .
  have mpn: "n \<noteq> mp" using busy(1) vn by auto
  define n1 where "n1 = \<lparr>gval = gval (t_node t ! n), gkey = k, gnext = gnext (t_node t ! mp)\<rparr>"
  define ns' where "ns' = (t_node t)[n := n1, mp := ((t_node t)[n := n1] ! mp)\<lparr>gnext := Some n\<rparr>]"
  have len: "length ns' = length (t_node t)" by (simp add: ns'_def)
  have at: "ns' ! i = (if i = mp then (t_node t ! mp)\<lparr>gnext := Some n\<rparr> else if i = n then n1 else t_node t ! i)" for i
    using ab(5) n(1) mpn by (simp add: ns'_def)
  have ok: "nodes_ok sh (t_lsizenode t) ns'"
    by (rule place_behind [OF a(1) busy(1) own n(1,2) len]) (use mpn in \<open>auto simp: at n1_def\<close>)
  let ?t = "t\<lparr>t_node := ns', t_lastfree := lf\<rparr>"
  have inv': "tab_inv sh ?t"
  proof (rule tab_inv_nodesI [OF inv ok len busy(2) n(4) _ _ a(2)])
    have kmp: "gkey (t_node t ! mp) \<noteq> TNil" using nodes_okD(4) [OF ab(1,5)] busy(1) by blast
    show "gkey (ns' ! i) \<noteq> TNil" if "i < length ns'" "lf \<le> i" for i
    proof (cases "i < t_lastfree t")
      case True
      then have "i \<noteq> n \<Longrightarrow> gkey (t_node t ! i) \<noteq> TNil" using that(2) g n(3) by (metis order_le_neq_trans)
      with kmp ab(8) show ?thesis by (simp add: at n1_def)
    next
      case False
      then show ?thesis using that inv busy(2) kmp ab(8) len unfolding tab_inv_def at n1_def by auto
    qed
    show "gkey (ns' ! i) = k \<or> (\<exists>j<length ns'. gkey (ns' ! i) = gkey (t_node t ! j))"
      if "i < length ns'" for i
      using that by (auto simp: at n1_def)
  qed
  have "newkey_step nk sh t k = Inr (?t, SNode n)"
    using busy free own by (simp add: newkey_step_def Let_def set_node_def ns'_def n1_def flip: mp)
  moreover have "placed sh t k ?t n"
  proof (rule placedI [OF inv refl inv' len])
    show "used ns' \<le> used (t_node t) + 1"
      by (rule used_insert [OF len n(1)]) (auto simp: at split: if_splits)
    show "\<exists>j'<length ns'. gkey (ns' ! j') = gkey (t_node t ! j) \<and> gval (ns' ! j') = gval (t_node t ! j)"
      if "j < length ns'" "gval (t_node t ! j) \<noteq> TNil" for j
      using that vn by (intro exI [of _ j]) (auto simp: at)
    show "\<exists>j'<length ns'. gkey (t_node t ! j') = gkey (ns' ! j) \<and> gval (t_node t ! j') = gval (ns' ! j)"
      if "j < length ns'" "gval (ns' ! j) \<noteq> TNil" for j
      using that vn by (intro exI [of _ j]) (auto simp: at n1_def split: if_splits)
  qed (use n vn mpn len in \<open>simp_all add: at n1_def\<close>)
  ultimately show ?thesis by blast
qed

lemma newkey_place_moved:
  assumes inv: "tab_inv sh t" and k: "live_key k" "\<not> is_nan_value k" "tab_slot t k = SNil"
    and mp: "mp = mainposition sh (t_lsizenode t) k"
    and busy: "gval (t_node t ! mp) \<noteq> TNil" "\<not> t_isdummy t"
    and free: "getfreepos (t_node t) (t_lastfree t) = (Some n, lf)"
    and oth: "mainposition sh (t_lsizenode t) (gkey (t_node t ! mp)) \<noteq> mp"
  shows "\<exists>t'. newkey_step nk sh t k = Inr (t', SNode mp) \<and> placed sh t k t' mp"
proof -
  note a = absent_if_SNil [OF inv k, folded mp]
  note ab = absentD [OF a(1)]
  note ok0 = nodes_okD [OF ab(1)]
  note g = getfreepos_Some [OF free]
  have n: "n < length (t_node t)" "gkey (t_node t ! n) = TNil" "lf = n" "lf \<le> t_lastfree t"
    using g inv by (auto simp: tab_inv_def)
  have vn: "gval (t_node t ! n) = TNil" using ok0(4) [OF n(1,2)] .
  have mpn: "n \<noteq> mp" using busy(1) vn by auto
  have kmp: "live_key (gkey (t_node t ! mp))" using ok0(7) [OF ab(5) busy(1)] .
  let ?oth = "mainposition sh (t_lsizenode t) (gkey (t_node t ! mp))"
  from ok0(9) [OF ab(5) kmp] obtain xs where xs: "chain (t_node t) (Some ?oth) xs" "mp \<in> set xs" by blast
  from find_prev_spec [OF xs(1) chain_length [OF xs(1)] xs(2) oth] obtain prev where
    prev: "find_prev (length (t_node t)) (t_node t) mp ?oth = Inr prev" "prev \<in> set xs"
      "gnext (t_node t ! prev) = Some mp" by blast
  have plt: "prev < length (t_node t)" using chain_bound [OF xs(1) prev(2)] .
  obtain ms where ms: "chain (t_node t) (Some mp) (mp # ms)"
    using ok0(2) [OF ab(5)] by (auto simp: chain_Some)
  have pmp: "prev \<noteq> mp"
    using chain_distinct [OF ms] ms prev(3) by (cases ms) auto
  have pn: "prev \<noteq> n" using ok0(5) [OF n(1,2)] prev(3) by auto
  define n1 where "n1 = (t_node t ! prev)\<lparr>gnext := Some n\<rparr>"
  define ns' where "ns' = (t_node t)[prev := n1, n := (t_node t)[prev := n1] ! mp,
    mp := \<lparr>gval = TNil, gkey = k, gnext = None\<rparr>]"
  have len: "length ns' = length (t_node t)" by (simp add: ns'_def)
  have at: "ns' ! i = (if i = mp then \<lparr>gval = TNil, gkey = k, gnext = None\<rparr>
      else if i = n then t_node t ! mp else if i = prev then n1 else t_node t ! i)" for i
    using ab(5) n(1) plt mpn pmp pn by (simp add: ns'_def)
  have ok: "nodes_ok sh (t_lsizenode t) ns'"
    by (rule place_moved [OF a(1) busy(1) oth plt prev(3) n(1,2) len])
       (use mpn pmp pn in \<open>auto simp: at n1_def\<close>)
  let ?t = "t\<lparr>t_node := ns', t_lastfree := lf\<rparr>"
  have inv': "tab_inv sh ?t"
  proof (rule tab_inv_nodesI [OF inv ok len busy(2) n(4) _ _ a(2)])
    have kp: "gkey (t_node t ! prev) \<noteq> TNil" using ok0(5) [OF plt] prev(3) by auto
    have km: "gkey (t_node t ! mp) \<noteq> TNil" using kmp by auto
    show "gkey (ns' ! i) \<noteq> TNil" if "i < length ns'" "lf \<le> i" for i
    proof (cases "i < t_lastfree t")
      case True
      then have "i \<noteq> n \<Longrightarrow> gkey (t_node t ! i) \<noteq> TNil" using that(2) g n(3) by (metis order_le_neq_trans)
      with kp km ab(8) show ?thesis by (simp add: at n1_def)
    next
      case False
      then show ?thesis using that inv busy(2) kp km ab(8) len unfolding tab_inv_def at n1_def by auto
    qed
    show "gkey (ns' ! i) = k \<or> (\<exists>j<length ns'. gkey (ns' ! i) = gkey (t_node t ! j))"
      if "i < length ns'" for i
      using that ab(5) len plt by (auto simp: at n1_def)
  qed
  have "newkey_step nk sh t k = Inr (?t, SNode mp)"
    using busy free oth prev(1)
    by (simp add: newkey_step_def Let_def set_node_def ns'_def n1_def flip: mp)
  moreover have "placed sh t k ?t mp"
  proof (rule placedI [OF inv refl inv' len])
    show "used ns' \<le> used (t_node t) + 1"
      using kmp by (intro used_insert [OF len n(1)]) (auto simp: at n1_def split: if_splits)
    show "\<exists>j'<length ns'. gkey (ns' ! j') = gkey (t_node t ! j) \<and> gval (ns' ! j') = gval (t_node t ! j)"
      if "j < length ns'" "gval (t_node t ! j) \<noteq> TNil" for j
      using that vn mpn n(1) len by (intro exI [of _ "if j = mp then n else j"]) (auto simp: at n1_def)
    show "\<exists>j'<length ns'. gkey (t_node t ! j') = gkey (ns' ! j) \<and> gval (t_node t ! j') = gval (ns' ! j)"
      if "j < length ns'" "gval (ns' ! j) \<noteq> TNil" for j
      using that mpn ab(5) len
      by (intro exI [of _ "if j = n then mp else j"]) (auto simp: at n1_def split: if_splits)
  qed (use ab(5) len in \<open>simp_all add: at\<close>)
  ultimately show ?thesis by blast
qed

text \<open>Where a node is free, \<open>newkey\<close> places the key without a rehash.\<close>

lemma newkey_place:
  assumes inv: "tab_inv sh t" and k: "live_key k" "\<not> is_nan_value k" "tab_slot t k = SNil"
    and dum: "\<not> t_isdummy t" and u: "used (t_node t) < length (t_node t)"
  shows "\<exists>t' i. newkey_step nk sh t k = Inr (t', SNode i) \<and> placed sh t k t' i"
proof -
  from free_node [OF inv dum u] obtain n where free: "getfreepos (t_node t) (t_lastfree t) = (Some n, n)" ..
  show ?thesis
    using newkey_place_free [OF inv k refl _ dum] newkey_place_behind [OF inv k refl _ dum free]
      newkey_place_moved [OF inv k refl _ dum free] by blast
qed

end
