(* ===== verification/LuaTableSizes.thy ===== *)
theory LuaTableSizes
  imports LuaTable "HOL-Library.Multiset"
begin

text \<open>
  The counting half of a rehash: \<open>numusearray\<close>, \<open>numusehash\<close> and \<open>countint\<close> fill
  \<open>nums\<close> with the number of integer keys in each slice between two powers of two, and
  \<open>computesizes\<close> picks the largest power of two such that more than half of the slots up to it
  are in use. A list of integer keys stands for the counts it gives rise to.
\<close>

section \<open>Slices\<close>

definition slice :: "nat \<Rightarrow> nat" where
  "slice k = nat (ceillog2 k)"

definition slice_count :: "nat list \<Rightarrow> nat \<Rightarrow> nat" where
  "slice_count ks j = length (filter (\<lambda>k. slice k = j) ks)"

definition nums_of :: "nat list \<Rightarrow> nat list" where
  "nums_of ks = map (slice_count ks) [0..<MAXBITS + 1]"

definition upto_count :: "nat list \<Rightarrow> nat \<Rightarrow> nat" where
  "upto_count ks m = length (filter (\<lambda>k. k \<le> m) ks)"

definition array_keys :: "nat list \<Rightarrow> bool" where
  "array_keys ks \<longleftrightarrow> distinct ks \<and> (\<forall>k \<in> set ks. 0 < k \<and> k \<le> MAXASIZE)"

lemma maxasize_le: "k \<le> MAXASIZE \<Longrightarrow> k \<le> 2 ^ 32"
  by (simp add: MAXASIZE_def MAXBITS_def)

lemma slice_eq:
  assumes "0 < k" "k \<le> MAXASIZE"
  shows "slice k = bitlen (k - 1)"
  using ceillog2_eq [OF assms(1) maxasize_le [OF assms(2)]] by (simp add: slice_def)

lemma slice_le_iff:
  assumes "0 < k" "k \<le> MAXASIZE"
  shows "slice k \<le> j \<longleftrightarrow> k \<le> 2 ^ j"
proof
  assume "slice k \<le> j"
  then have "(2::nat) ^ slice k \<le> 2 ^ j" by simp
  with ceillog2_bounds(1) [OF assms(1) maxasize_le [OF assms(2)]]
  show "k \<le> 2 ^ j" by (simp only: slice_def)
next
  assume "k \<le> 2 ^ j"
  then have "k - 1 < 2 ^ j" using assms(1) by linarith
  from bitlen_le [OF this] show "slice k \<le> j" by (simp add: slice_eq [OF assms])
qed

lemma slice_le_max: "0 < k \<Longrightarrow> k \<le> MAXASIZE \<Longrightarrow> slice k \<le> MAXBITS"
  by (simp add: slice_le_iff MAXASIZE_def)

lemma slice_iff:
  assumes "0 < k" "k \<le> MAXASIZE"
  shows "slice k = j \<longleftrightarrow> k \<le> 2 ^ j \<and> (j = 0 \<or> 2 ^ (j - 1) < k)"
  using slice_le_iff [OF assms, of j] slice_le_iff [OF assms, of "j - 1"] by (cases j) auto

lemma slice_count_append: "slice_count (xs @ ys) j = slice_count xs j + slice_count ys j"
  by (simp add: slice_count_def)

lemma nums_of_length [simp]: "length (nums_of ks) = MAXBITS + 1"
  by (simp add: nums_of_def)

lemma nums_of_nth: "j \<le> MAXBITS \<Longrightarrow> nums_of ks ! j = slice_count ks j"
  unfolding nums_of_def by (simp del: upt_Suc)

lemma nums_of_Nil: "nums_of [] = replicate (MAXBITS + 1) 0"
  by (rule nth_equalityI) (simp_all add: nums_of_nth slice_count_def less_Suc_eq_le del: replicate_Suc)

lemma upto_count_le: "upto_count ks m \<le> length ks"
  by (simp add: upto_count_def)

lemma upto_count_bound:
  assumes "array_keys ks"
  shows "upto_count ks m \<le> m"
proof -
  have "set (filter (\<lambda>k. k \<le> m) ks) \<subseteq> {1..m}" using assms by (auto simp: array_keys_def Suc_le_eq)
  then have "card (set (filter (\<lambda>k. k \<le> m) ks)) \<le> card {1..m}" by (rule card_mono [rotated]) simp
  moreover have "card (set (filter (\<lambda>k. k \<le> m) ks)) = upto_count ks m"
    unfolding upto_count_def using assms by (intro distinct_card) (simp add: array_keys_def)
  ultimately show ?thesis by simp
qed

lemma upto_count_all: "(\<forall>k \<in> set ks. k \<le> m) \<Longrightarrow> upto_count ks m = length ks"
  by (simp add: upto_count_def filter_id_conv)

lemma upto_count_step:
  assumes "array_keys ks"
  shows "upto_count ks (2 ^ j) = (if j = 0 then 0 else upto_count ks (2 ^ (j - 1))) + slice_count ks j"
  using assms
proof (induction ks)
  case (Cons k ks)
  then have k: "0 < k" "k \<le> MAXASIZE" and ks: "array_keys ks" by (auto simp: array_keys_def)
  have "k \<le> 2 ^ (j - 1) \<Longrightarrow> k \<le> 2 ^ j" by (rule order_trans, assumption, rule power_increasing) simp_all
  with Cons.IH [OF ks] show ?case
    by (cases "j = 0") (auto simp: upto_count_def slice_count_def slice_iff [OF k])
qed (simp add: upto_count_def slice_count_def)

section \<open>Choosing the array size\<close>

text \<open>The size \<open>n\<close> is best: more than half of \<open>1..n\<close> is in use, and no larger power of two has that.\<close>

definition best_size :: "nat list \<Rightarrow> nat \<Rightarrow> bool" where
  "best_size ks n \<longleftrightarrow>
     (n = 0 \<or> (\<exists>j. n = 2 ^ j)) \<and> n div 2 \<le> upto_count ks n \<and>
     (0 < n \<longrightarrow> n div 2 < upto_count ks n) \<and>
     (\<forall>j. 2 ^ j div 2 < upto_count ks (2 ^ j) \<longrightarrow> 2 ^ j \<le> n)"

lemma pow_half: "(2::nat) ^ j div 2 = (if j = 0 then 0 else 2 ^ (j - 1))"
  by (cases j) auto

lemma pow_half_mono: "i < j \<Longrightarrow> (2::nat) ^ i \<le> 2 ^ j div 2"
  by (cases j) (auto simp: less_Suc_eq_le)

lemma computesizes_loop_spec:
  assumes ks: "array_keys ks"
    and a: "a = (if i = 0 then 0 else upto_count ks (2 ^ (i - 1)))"
    and na: "na = upto_count ks n" "n = 0 \<or> (\<exists>j<i. n = 2 ^ j)" "0 < n \<longrightarrow> n div 2 < na"
    and best: "\<And>j. j < i \<Longrightarrow> 2 ^ j div 2 < upto_count ks (2 ^ j) \<Longrightarrow> 2 ^ j \<le> n"
    and res: "computesizes_loop (nums_of ks) (length ks) i a na n = (n', na')"
  shows "na' = upto_count ks n' \<and> best_size ks n'"
  using a na best res
proof (induction "nums_of ks" "length ks" i a na n rule: computesizes_loop.induct)
  case (1 i a na n)
  let ?c = "upto_count ks (2 ^ i)"
  show ?case
  proof (cases "2 ^ i div 2 < length ks")
    case False
    then have "2 ^ j \<le> n" if "2 ^ j div 2 < upto_count ks (2 ^ j)" for j
    proof (cases "j < i")
      case f: False
      then have "(2::nat) ^ i div 2 \<le> 2 ^ j div 2" by (intro div_le_mono power_increasing) auto
      with that False upto_count_le [of ks "2 ^ j"] show ?thesis by linarith
    qed (use 1(6) that in blast)
    with False 1(3-5,7) show ?thesis
      by (auto simp: computesizes_loop.simps [of _ _ i] best_size_def)
  next
    case True
    have iM: "i \<le> MAXBITS"
    proof (rule ccontr)
      assume "\<not> i \<le> MAXBITS"
      then have "MAXASIZE \<le> 2 ^ i div 2" unfolding MAXASIZE_def by (intro pow_half_mono) simp
      moreover have "length ks \<le> MAXASIZE"
        using ks upto_count_bound [OF ks, of MAXASIZE] by (simp add: upto_count_all array_keys_def)
      ultimately show False using True by linarith
    qed
    define a' where "a' = (if 0 < nums_of ks ! i then a + nums_of ks ! i else a)"
    define more where "more = (0 < nums_of ks ! i \<and> 2 ^ i div 2 < a')"
    define n1 where "n1 = (if more then 2 ^ i else n)"
    define na1 where "na1 = (if more then a' else na)"
    have a': "a' = ?c"
      using upto_count_step [OF ks, of i] 1(2) by (auto simp: a'_def nums_of_nth [OF iM])
    have more: "more \<longleftrightarrow> 2 ^ i div 2 < ?c"
    proof (cases "0 < nums_of ks ! i")
      case False
      then have "?c = a" using a' by (simp add: a'_def)
      moreover have "a \<le> 2 ^ i div 2"
        using 1(2) upto_count_bound [OF ks, of "2 ^ (i - 1)"] by (simp add: pow_half)
      ultimately show ?thesis using False by (simp add: more_def)
    qed (simp add: more_def a')
    have na1: "na1 = upto_count ks n1" using 1(3) a' by (simp add: na1_def n1_def)
    have n1: "n1 = 0 \<or> (\<exists>j<i + 1. n1 = 2 ^ j)" using 1(4) by (auto simp: n1_def less_Suc_eq)
    have half: "0 < n1 \<longrightarrow> n1 div 2 < na1" using 1(5) a' more by (simp add: na1_def n1_def)
    have best1: "2 ^ j \<le> n1" if "j < i + 1" "2 ^ j div 2 < upto_count ks (2 ^ j)" for j
    proof (cases "j = i")
      case True
      with that more show ?thesis by (simp add: n1_def)
    next
      case False
      with that have "j < i" by simp
      with 1(6) that have "2 ^ j \<le> n" by blast
      moreover have "n \<le> n1"
      proof (cases "n = 0")
        case False
        with 1(4) obtain j' where "j' < i" "n = 2 ^ j'" by auto
        then have "n \<le> 2 ^ i" by simp
        then show ?thesis by (simp add: n1_def)
      qed simp
      ultimately show ?thesis by simp
    qed
    note step = 1(7) [unfolded computesizes_loop.simps [of _ _ i] Let_def if_P [OF True],
        folded a'_def more_def, folded more_def n1_def na1_def]
    show ?thesis
    proof (cases "a' = length ks")
      case True
      with step have r: "n' = n1" "na' = na1" by auto
      have "2 ^ j \<le> n1" if h: "2 ^ j div 2 < upto_count ks (2 ^ j)" for j
      proof (cases "j < i + 1")
        case False
        then have "(2::nat) ^ i \<le> 2 ^ j div 2" by (intro pow_half_mono) simp
        moreover have "upto_count ks (2 ^ j) \<le> 2 ^ i"
          using upto_count_le [of ks "2 ^ j"] upto_count_bound [OF ks, of "2 ^ i"] True a' by simp
        ultimately show ?thesis using h by linarith
      qed (use best1 h in blast)
      then show ?thesis using r na1 n1 half by (auto simp: best_size_def)
    next
      case False
      show ?thesis
      proof (rule 1(1) [OF refl True refl refl refl refl, folded a'_def more_def,
            folded more_def n1_def na1_def, OF False])
        show "a' = (if i + 1 = 0 then 0 else upto_count ks (2 ^ (i + 1 - 1)))" using a' by simp
        show "computesizes_loop (nums_of ks) (length ks) (i + 1) a' na1 n1 = (n', na')"
          using step False by simp
      qed (use na1 n1 half best1 in auto)
    qed
  qed
qed

lemma computesizes_spec:
  assumes "array_keys ks" "computesizes (nums_of ks) (length ks) = (n, na)"
  shows "na = upto_count ks n" and "best_size ks n"
proof -
  have "upto_count ks 0 = 0" using upto_count_bound [OF assms(1), of 0] by simp
  then show "na = upto_count ks n" and "best_size ks n"
    using computesizes_loop_spec [OF assms(1), of 0 0 0 0 n na] assms(2)
    by (simp_all add: computesizes_def)
qed

lemma best_size_bound:
  assumes "array_keys ks" "best_size ks n"
  shows "n \<le> MAXASIZE"
proof (rule ccontr)
  assume n: "\<not> n \<le> MAXASIZE"
  with assms(2) obtain j where j: "n = 2 ^ j" by (auto simp: best_size_def)
  with n have "MAXBITS < j" by (simp add: MAXASIZE_def)
  then have "MAXASIZE \<le> n div 2" unfolding j MAXASIZE_def by (rule pow_half_mono)
  moreover have "upto_count ks n \<le> MAXASIZE"
    using assms(1) upto_count_le [of ks n] upto_count_bound [OF assms(1), of MAXASIZE]
    by (simp add: upto_count_all array_keys_def)
  moreover have "n div 2 < upto_count ks n" using assms(2) n by (auto simp: best_size_def)
  ultimately show False by linarith
qed

section \<open>Counting\<close>

definition key_index :: "TValue \<Rightarrow> nat list" where
  "key_index key =
     (let k = arrayindex key in if 0 < k \<and> k \<le> int MAXASIZE then [nat k] else [])"

lemma nums_of_update:
  assumes "0 < k" "k \<le> MAXASIZE"
  shows "(nums_of ks)[slice k := nums_of ks ! slice k + 1] = nums_of (k # ks)"
proof (rule nth_equalityI)
  fix j assume "j < length ((nums_of ks)[slice k := nums_of ks ! slice k + 1])"
  then have "j \<le> MAXBITS" by simp
  then show "(nums_of ks)[slice k := nums_of ks ! slice k + 1] ! j = nums_of (k # ks) ! j"
    using slice_le_max [OF assms] by (auto simp: nth_list_update nums_of_nth slice_count_def)
qed simp

lemma countint_spec:
  "countint key (nums_of ks) = (nums_of (key_index key @ ks), length (key_index key))"
proof (cases "0 < arrayindex key \<and> arrayindex key \<le> int MAXASIZE")
  case True
  then have "0 < nat (arrayindex key)" "nat (arrayindex key) \<le> MAXASIZE" by auto
  from nums_of_update [OF this, of ks] True show ?thesis
    by (simp add: countint_def key_index_def Let_def slice_def)
next
  case False
  then show ?thesis by (auto simp: countint_def key_index_def Let_def)
qed

text \<open>The integer keys of the nodes with a value.\<close>

definition hash_indices :: "Node list \<Rightarrow> nat list" where
  "hash_indices ns = concat (map (\<lambda>n. key_index (gkey n)) (filter (\<lambda>n. gval n \<noteq> TNil) ns))"

lemma nums_of_cong: "mset xs = mset ys \<Longrightarrow> nums_of xs = nums_of ys"
proof -
  assume "mset xs = mset ys"
  then have "slice_count xs j = slice_count ys j" for j
    by (metis slice_count_def mset_filter size_mset)
  then show ?thesis by (simp add: nums_of_def)
qed

lemma numusehash_loop_spec:
  "numusehash_loop ns (nums_of ks) ause tot =
     (nums_of (hash_indices ns @ ks), ause + length (hash_indices ns),
      tot + length (filter (\<lambda>n. gval n \<noteq> TNil) ns))"
proof (induction ns arbitrary: ks ause tot)
  case (Cons n ns)
  have "nums_of (hash_indices ns @ key_index (gkey n) @ ks) = nums_of (key_index (gkey n) @ hash_indices ns @ ks)"
    by (rule nums_of_cong) simp
  then show ?case
    by (simp add: Cons.IH countint_spec hash_indices_def)
qed (simp add: hash_indices_def)

lemma numusehash_spec:
  "numusehash t (nums_of ks) =
     (nums_of (hash_indices (rev (t_node t)) @ ks), length (hash_indices (rev (t_node t))),
      length (filter (\<lambda>n. gval n \<noteq> TNil) (t_node t)))"
  by (simp add: numusehash_def numusehash_loop_spec flip: rev_filter)

text \<open>The indices of the array part with a value.\<close>

definition present :: "TValue list \<Rightarrow> nat list" where
  "present arr = filter (\<lambda>k. arr ! (k - 1) \<noteq> TNil) [1..<length arr + 1]"

definition slice_start :: "nat \<Rightarrow> nat" where
  "slice_start lg = (if lg = 0 then 1 else 2 ^ (lg - 1) + 1)"

lemma present_range: "k \<in> set (present arr) \<Longrightarrow> 0 < k \<and> k \<le> length arr"
  by (auto simp: present_def)

lemma present_distinct: "distinct (present arr)"
  by (simp add: present_def)

text \<open>The inner loop counts the slice \<open>lg\<close>.\<close>

lemma slice_loop:
  assumes len: "length arr \<le> MAXASIZE" and lim: "lim = min (length arr) (2 ^ lg)"
  shows "length (filter (\<lambda>j. arr ! (j - 1) \<noteq> TNil) [slice_start lg..<lim + 1]) = slice_count (present arr) lg"
proof -
  have eq: "filter (\<lambda>k. slice k = lg) (present arr) =
      filter (\<lambda>k. arr ! (k - 1) \<noteq> TNil \<and> slice_start lg \<le> k \<and> k < lim + 1) [1..<length arr + 1]"
    unfolding present_def filter_filter
  proof (rule filter_cong [OF refl])
    fix k assume "k \<in> set [1..<length arr + 1]"
    then have k: "0 < k" "k \<le> length arr" "k \<le> MAXASIZE" using len by auto
    show "(arr ! (k - 1) \<noteq> TNil \<and> slice k = lg) =
        (arr ! (k - 1) \<noteq> TNil \<and> slice_start lg \<le> k \<and> k < lim + 1)"
      using k slice_iff [OF k(1,3), of lg] lim by (auto simp: slice_start_def Suc_le_eq)
  qed
  have s: "1 \<le> slice_start lg" by (simp add: slice_start_def)
  have "distinct (filter P [a..<b])" for P a b by simp
  then have "slice_count (present arr) lg =
      card {k. arr ! (k - 1) \<noteq> TNil \<and> slice_start lg \<le> k \<and> k < lim + 1 \<and> 1 \<le> k \<and> k < length arr + 1}"
    unfolding slice_count_def eq by (subst distinct_card [symmetric]) (auto intro!: arg_cong [of _ _ card])
  also have "\<dots> = card (set (filter (\<lambda>j. arr ! (j - 1) \<noteq> TNil) [slice_start lg..<lim + 1]))"
    using s lim by (intro arg_cong [of _ _ card]) auto
  also have "\<dots> = length (filter (\<lambda>j. arr ! (j - 1) \<noteq> TNil) [slice_start lg..<lim + 1])"
    by (rule distinct_card) simp
  finally show ?thesis by simp
qed

text \<open>What is left to count from slice \<open>lg\<close> on.\<close>

definition rest_count :: "TValue list \<Rightarrow> nat \<Rightarrow> nat" where
  "rest_count arr lg = length (filter (\<lambda>k. lg \<le> slice k) (present arr))"

lemma rest_count_step: "rest_count arr lg = slice_count (present arr) lg + rest_count arr (lg + 1)"
proof -
  have "length (filter (\<lambda>k. lg \<le> slice k) xs) =
      length (filter (\<lambda>k. slice k = lg) xs) + length (filter (\<lambda>k. lg + 1 \<le> slice k) xs)" for xs
    by (induction xs) auto
  then show ?thesis by (simp add: rest_count_def slice_count_def)
qed

lemma rest_count_done:
  assumes "length arr \<le> MAXASIZE" "length arr < slice_start lg"
  shows "rest_count arr lg = 0" and "lg \<le> j \<Longrightarrow> slice_count (present arr) j = 0"
proof -
  have "slice k < lg" if "k \<in> set (present arr)" for k
  proof -
    from present_range [OF that] assms have k: "0 < k" "k \<le> MAXASIZE" "k < slice_start lg" by auto
    then have "\<not> (k \<le> 2 ^ j \<and> (j = 0 \<or> 2 ^ (j - 1) < k))" if "lg \<le> j" for j
    proof (cases "lg = 0")
      case False
      then have "(2::nat) ^ (lg - 1) \<le> 2 ^ (j - 1)" using that by (intro power_increasing) auto
      with False k(3) have "k \<le> 2 ^ (j - 1)" by (simp only: slice_start_def if_False)
      with False that show ?thesis by auto
    qed (use k in \<open>simp add: slice_start_def\<close>)
    from this [of "slice k"] slice_iff [OF k(1,2), of "slice k"] show "slice k < lg" by linarith
  qed
  then show "rest_count arr lg = 0" and "lg \<le> j \<Longrightarrow> slice_count (present arr) j = 0"
    by (force simp: rest_count_def slice_count_def filter_empty_conv)+
qed

lemma numusearray_loop_spec:
  assumes "length arr \<le> MAXASIZE" "length nums = MAXBITS + 1" "lg \<le> MAXBITS + 1"
    and "i = min (slice_start lg) (length arr + 1)"
  shows "numusearray_loop arr lg i nums ause =
    (map (\<lambda>j. nums ! j + (if lg \<le> j then slice_count (present arr) j else 0)) [0..<MAXBITS + 1],
     ause + rest_count arr lg)"
  using assms
proof (induction arr lg i nums ause rule: numusearray_loop.induct)
  case (1 arr lg i nums ause)
  have same: "map (\<lambda>j. nums ! j + (if lg \<le> j then slice_count (present arr) j else 0)) [0..<MAXBITS + 1] = nums"
    if "\<And>j. j \<le> MAXBITS \<Longrightarrow> lg \<le> j \<Longrightarrow> slice_count (present arr) j = 0"
    using 1(3) that by (intro nth_equalityI) (auto simp: less_Suc_eq_le simp del: upt_Suc)
  show ?case
  proof (cases "lg \<le> MAXBITS")
    case False
    then have "length arr < slice_start lg"
      using 1(2,4) by (simp add: slice_start_def MAXASIZE_def le_Suc_eq)
    with rest_count_done [OF 1(2)] False same show ?thesis
      by (simp add: numusearray_loop.simps [of arr lg])
  next
    case lg: True
    define lim where "lim = (if length arr < 2 ^ lg then length arr else 2 ^ lg)"
    show ?thesis
    proof (cases "length arr < 2 ^ lg \<and> lim < i")
      case True
      then have "length arr < slice_start lg" using 1(5) by (auto simp: lim_def)
      note z = rest_count_done [OF 1(2) this]
      have "numusearray_loop arr lg i nums ause = (nums, ause)"
        using True lg \<open>length arr < slice_start lg\<close> 1(5)
        by (simp add: numusearray_loop.simps [of arr lg] Let_def)
      moreover note same [OF z(2)]
      ultimately show ?thesis by (simp only: z(1) add_0_right)
    next
      case False
      have i: "i = slice_start lg"
      proof (cases "length arr < 2 ^ lg")
        case True
        with False have "i \<le> length arr" by (simp add: lim_def)
        with 1(5) show ?thesis by linarith
      next
        case f: False
        have "slice_start lg \<le> 2 ^ lg"
          by (cases lg) (simp_all add: slice_start_def)
        with f 1(5) show ?thesis by simp
      qed
      define lc where "lc = length (filter (\<lambda>j. arr ! (j - 1) \<noteq> TNil) [i..<lim + 1])"
      have lc: "lc = slice_count (present arr) lg"
        unfolding lc_def i by (rule slice_loop [OF 1(2)]) (simp add: lim_def min_def)
      have nxt: "max i (lim + 1) = min (slice_start (lg + 1)) (length arr + 1)"
        using i False by (cases lg; cases arr) (auto simp: slice_start_def lim_def)
      have "numusearray_loop arr lg i nums ause =
          numusearray_loop arr (lg + 1) (max i (lim + 1)) (nums[lg := nums ! lg + lc]) (ause + lc)"
        by (simp only: numusearray_loop.simps [of arr lg i nums ause] Let_def lim_def [symmetric]
            if_P [OF lg] if_not_P [OF False] lc_def [symmetric])
      also have "\<dots> = (map (\<lambda>j. nums[lg := nums ! lg + lc] ! j +
            (if lg + 1 \<le> j then slice_count (present arr) j else 0)) [0..<MAXBITS + 1],
          ause + lc + rest_count arr (lg + 1))"
        by (rule 1(1) [OF lg refl lim_def False lc_def 1(2) _ _ nxt]) (use 1(3) lg in simp_all)
      also have "\<dots> = (map (\<lambda>j. nums ! j + (if lg \<le> j then slice_count (present arr) j else 0))
          [0..<MAXBITS + 1], ause + rest_count arr lg)"
        using 1(3) lg lc
        by (auto simp: rest_count_step [of arr lg] nth_list_update less_Suc_eq_le not_less_eq_eq
            dest: le_antisym simp del: upt_Suc)
      finally show ?thesis .
    qed
  qed
qed

lemma numusearray_spec:
  assumes "sizearray t \<le> MAXASIZE"
  shows "numusearray t (replicate (MAXBITS + 1) 0) = (nums_of (present (t_array t)), length (present (t_array t)))"
proof -
  have "numusearray t (replicate (MAXBITS + 1) 0) =
      (map (\<lambda>j. replicate (MAXBITS + 1) 0 ! j + (if 0 \<le> j then slice_count (present (t_array t)) j else 0))
         [0..<MAXBITS + 1], 0 + rest_count (t_array t) 0)"
    unfolding numusearray_def using assms
    by (intro numusearray_loop_spec) (simp_all add: sizearray_def slice_start_def)
  also have "\<dots> = (nums_of (present (t_array t)), length (present (t_array t)))"
    by (auto simp: nums_of_def rest_count_def less_Suc_eq_le simp del: upt_Suc replicate_Suc)
  finally show ?thesis .
qed

end
