(* ===== verification/LuaTableSet.thy ===== *)
theory LuaTableSet
  imports LuaTableIns LuaTableSizes
begin

text \<open>
  Writing to a table: storing through a slot changes one key, a fresh node vector is empty,
  \<open>resize\<close> moves every entry to the new parts, \<open>rehash\<close> makes room for the key that caused
  it, and so \<open>luaH_set\<close> always ends, after at most one rehash, with the slot of its key and all
  other entries as they were.
\<close>

section \<open>Storing through a slot\<close>

lemma tab_inv_flags [simp]: "tab_inv sh (t\<lparr>t_flags := f\<rparr>) \<longleftrightarrow> tab_inv sh t"
  by (simp add: tab_inv_def sizearray_def)

lemma tab_slot_flags [simp]: "tab_slot (t\<lparr>t_flags := f\<rparr>) k = tab_slot t k"
  by (simp add: tab_slot_def in_array_def sizearray_def)

lemma slot_val_flags [simp]: "slot_val (t\<lparr>t_flags := f\<rparr>) s = slot_val t s"
  by (cases s) simp_all

lemma tab_get_flags [simp]: "tab_get (t\<lparr>t_flags := f\<rparr>) k = tab_get t k"
  by (simp add: tab_get_def)

lemma in_array_flags [simp]: "in_array (t\<lparr>t_flags := f\<rparr>) k \<longleftrightarrow> in_array t k"
  by (simp add: in_array_def sizearray_def)

lemma tab_slot_eq_iff:
  assumes inv: "tab_inv sh t" and k: "live_key k" "tab_slot t k \<noteq> SNil"
  shows "tab_slot t k' = tab_slot t k \<longleftrightarrow> luaO_rawequalObj k k'"
proof
  assume eq: "tab_slot t k' = tab_slot t k"
  show "luaO_rawequalObj k k'"
  proof (cases rule: tab_slot_cases [of t k])
    case Arr
    with eq have "in_array t k'" "arrayindex k' = arrayindex k"
      by (cases rule: tab_slot_cases [of t k']; auto simp: in_array_def)+
    with Arr show ?thesis
      using arrayindex_num_eq [of k] arrayindex_num_eq [of k'] rawequal_sym rawequal_trans
      unfolding in_array_def by (metis less_irrefl neg_less_0_iff_less order_less_trans zero_less_one)
  next
    case (Node i)
    with eq have "tab_slot t k' = SNode i" by simp
    then have "luaO_rawequalObj (gkey (t_node t ! i)) k'"
      by (cases rule: tab_slot_cases [of t k']) auto
    with Node(5) show ?thesis using rawequal_sym rawequal_trans by blast
  qed (use k in auto)
qed (simp add: tab_slot_num_eq)

lemma write_frame:
  "t_lsizenode (slot_write t s v) = t_lsizenode t" "t_isdummy (slot_write t s v) = t_isdummy t"
  "sizearray (slot_write t s v) = sizearray t" "length (t_node (slot_write t s v)) = length (t_node t)"
  "t_lastfree (slot_write t s v) = t_lastfree t"
  by (cases s; simp add: sizearray_def)+

lemma write_keys:
  "gkey (t_node (slot_write t s v) ! i) = gkey (t_node t ! i)"
  "gnext (t_node (slot_write t s v) ! i) = gnext (t_node t ! i)"
proof -
  have "gkey ((t_node t)[j := (t_node t ! j)\<lparr>gval := v\<rparr>] ! i) = gkey (t_node t ! i) \<and>
      gnext ((t_node t)[j := (t_node t ! j)\<lparr>gval := v\<rparr>] ! i) = gnext (t_node t ! i)" for j
    by (cases "j < length (t_node t)"; cases "i = j") (auto simp: list_update_beyond)
  then show "gkey (t_node (slot_write t s v) ! i) = gkey (t_node t ! i)"
    and "gnext (t_node (slot_write t s v) ! i) = gnext (t_node t ! i)"
    by (cases s; simp)+
qed

lemma write_slot: "tab_slot (slot_write t s v) k = tab_slot t k"
  by (simp add: tab_slot_def in_array_def write_frame write_keys)

lemma write_used: "used (t_node (slot_write t s v)) = used (t_node t)"
  by (simp add: used_def write_frame write_keys)

lemma nodes_ok_vals:
  assumes ok: "nodes_ok sh ls ns" and len: "length ns' = length ns"
    and key: "\<And>i. gkey (ns' ! i) = gkey (ns ! i)" and nxt: "\<And>i. gnext (ns' ! i) = gnext (ns ! i)"
    and val: "\<And>i. i < length ns \<Longrightarrow> gval (ns' ! i) \<noteq> TNil \<Longrightarrow> live_key (gkey (ns ! i))"
  shows "nodes_ok sh ls ns'"
proof -
  have ch: "chain ns' p xs = chain ns p xs" for p xs by (rule chain_cong) (simp_all add: len nxt)
  have "links_ok ns'" using ok val unfolding nodes_ok_def links_ok_def len key nxt ch by fastforce
  moreover have "keys_ok (mainposition sh ls) ns'"
    using ok val unfolding nodes_ok_def keys_ok_def len key nxt ch by blast
  ultimately show ?thesis using ok len by (simp add: nodes_ok_def)
qed

lemma write_inv:
  assumes inv: "tab_inv sh t" and s: "s = tab_slot t k" "live_key k" and dum: "t_isdummy t \<Longrightarrow> s \<noteq> SNode 0"
  shows "tab_inv sh (slot_write t s v)"
proof -
  let ?t = "slot_write t s v"
  note ok = nodes_okD [OF tab_inv_nodes [OF inv]]
  have val: "gval (t_node ?t ! i) \<noteq> TNil \<Longrightarrow> live_key (gkey (t_node t ! i))" if i: "i < length (t_node t)" for i
  proof (cases "s = SNode i")
    case True
    then have "tab_slot t k = SNode i" using s by simp
    then have "luaO_rawequalObj (gkey (t_node t ! i)) k"
      by (cases rule: tab_slot_cases [of t k]) auto
    then show ?thesis using s(2) live_key_rawequal by blast
  next
    case False
    then have "t_node ?t ! i = t_node t ! i" by (cases s) auto
    then show "gval (t_node ?t ! i) \<noteq> TNil \<Longrightarrow> live_key (gkey (t_node t ! i))" using ok(7) [OF i] by simp
  qed
  have "nodes_ok sh (t_lsizenode t) (t_node ?t)"
    by (rule nodes_ok_vals [OF tab_inv_nodes [OF inv]]) (use val in \<open>simp_all add: write_frame write_keys\<close>)
  moreover have "t_isdummy t \<Longrightarrow> t_node ?t = t_node t"
  proof -
    assume d: "t_isdummy t"
    then have "length (t_node t) = 1" using inv by (simp add: tab_inv_def)
    with dum [OF d] show "t_node ?t = t_node t"
    proof (cases s)
      case (SNode i)
      with dum [OF d] \<open>length (t_node t) = 1\<close> show ?thesis by (cases i) (auto simp: list_update_beyond)
    qed simp_all
  qed
  ultimately show ?thesis using inv by (simp add: tab_inv_def write_frame write_keys)
qed

lemma dummy_no_node:
  assumes inv: "tab_inv sh t" and dum: "t_isdummy t"
  shows "tab_slot t k \<noteq> SNode i"
proof
  assume "tab_slot t k = SNode i"
  then have "i < length (t_node t)" "luaO_rawequalObj (gkey (t_node t ! i)) k" "k \<noteq> TNil"
    by (cases rule: tab_slot_cases [of t k]; auto)+
  with inv dum show False by (auto simp: tab_inv_def nilnode_def)
qed

lemma write_get:
  assumes inv: "tab_inv sh t" and k: "live_key k" "tab_slot t k \<noteq> SNil"
  shows "tab_get (slot_write t (tab_slot t k) v) k' = (if luaO_rawequalObj k k' then v else tab_get t k')"
proof (cases "luaO_rawequalObj k k'")
  case True
  then have eq: "tab_slot t k' = tab_slot t k" using tab_slot_eq_iff [OF inv k] by simp
  show ?thesis unfolding tab_get_def write_slot eq
    by (cases rule: tab_slot_cases [of t k]) (use True k in \<open>auto simp: sizearray_def\<close>)
next
  case False
  then have ne: "tab_slot t k' \<noteq> tab_slot t k" using tab_slot_eq_iff [OF inv k] by simp
  have "slot_val (slot_write t s v) s' = slot_val t s'" if "s' \<noteq> s" for s s'
    using that by (cases s; cases s') auto
  from this [OF ne] False show ?thesis by (simp add: tab_get_def write_slot)
qed

section \<open>Setting where a node is free\<close>

definition good_newkey :: "(ptr \<Rightarrow> nat) \<Rightarrow> new_key \<Rightarrow> bool" where
  "good_newkey sh nk \<longleftrightarrow>
     (\<forall>t k. tab_inv sh t \<longrightarrow> live_key k \<longrightarrow> \<not> is_nan_value k \<longrightarrow> tab_slot t k = SNil \<longrightarrow>
        \<not> t_isdummy t \<longrightarrow> used (t_node t) < length (t_node t) \<longrightarrow>
        (\<exists>t' i. nk t k = Inr (t', SNode i) \<and> placed sh t k t' i))"

lemma newkey_f_good: "good_newkey sh (newkey_f (Suc f) sh)"
  using newkey_place by (simp add: good_newkey_def)

definition upd :: "TValue \<Rightarrow> TValue \<Rightarrow> (TValue \<Rightarrow> TValue) \<Rightarrow> TValue \<Rightarrow> TValue" where
  "upd k v F k' = (if luaO_rawequalObj k k' then v else F k')"

text \<open>The shape of a table, which stores keep.\<close>

definition same_shape :: "Table \<Rightarrow> Table \<Rightarrow> bool" where
  "same_shape t t' \<longleftrightarrow> sizearray t' = sizearray t \<and> t_lsizenode t' = t_lsizenode t \<and>
     t_isdummy t' = t_isdummy t"

lemma same_shape_len:
  "same_shape t t' \<Longrightarrow> tab_inv sh t \<Longrightarrow> tab_inv sh t' \<Longrightarrow> length (t_node t') = length (t_node t)"
  by (simp add: same_shape_def tab_inv_def nodes_ok_def)

lemma same_shape_array: "same_shape t t' \<Longrightarrow> in_array t' k \<longleftrightarrow> in_array t k"
  by (simp add: same_shape_def in_array_def)

text \<open>Finding or making the slot of a key.\<close>

lemma slot_or_new:
  assumes nk: "good_newkey sh nk" and inv: "tab_inv sh t" and k: "live_key k" "\<not> is_nan_value k"
    and room: "in_array t k \<or> tab_slot t k \<noteq> SNil \<or> \<not> t_isdummy t \<and> used (t_node t) < length (t_node t)"
  shows "\<exists>t'. (if tab_slot t k \<noteq> SNil then Inr (t, tab_slot t k) else nk t k) = Inr (t', tab_slot t' k) \<and>
    tab_inv sh t' \<and> same_shape t t' \<and> tab_slot t' k \<noteq> SNil \<and>
    used (t_node t') \<le> used (t_node t) + (if in_array t k then 0 else 1) \<and>
    (\<forall>k'. live_key k' \<longrightarrow> tab_get t' k' = tab_get t k')"
proof (cases "tab_slot t k = SNil")
  case False
  with inv show ?thesis by (auto simp: same_shape_def)
next
  case True
  then have na: "\<not> in_array t k" using absent_if_SNil(2) [OF inv k] by simp
  with nk inv k True room obtain t' i where t': "nk t k = Inr (t', SNode i)" and p: "placed sh t k t' i"
    unfolding good_newkey_def by blast
  have inv': "tab_inv sh t'" and i: "i < length (t_node t')" "gkey (t_node t' ! i) = k"
    and v: "gval (t_node t' ! i) = TNil" and sh': "same_shape t t'"
    and u: "used (t_node t') \<le> used (t_node t) + 1"
    and oth: "\<And>k'. live_key k' \<Longrightarrow> \<not> luaO_rawequalObj k k' \<Longrightarrow> tab_get t' k' = tab_get t k'"
    using p by (auto simp: placed_def same_shape_def sizearray_def)
  have kk: "luaO_rawequalObj (gkey (t_node t' ! i)) k" using i(2) k(2) by (simp add: rawequal_refl_iff)
  have s: "tab_slot t' k = SNode i" using tab_slot_node(1) [OF inv' i(1) k(1) kk] .
  have "tab_get t' k' = tab_get t k'" if "live_key k'" for k'
  proof (cases "luaO_rawequalObj k k'")
    case True
    then have "tab_get t' k' = tab_get t' k" "tab_get t k' = tab_get t k"
      using tab_get_rawequal rawequal_sym by blast+
    then show ?thesis using s v \<open>tab_slot t k = SNil\<close> by (simp add: tab_get_def luaO_nilobject_def)
  qed (use oth that in blast)
  with t' inv' sh' s u na True show ?thesis by auto
qed

lemma store_spec:
  assumes nk: "good_newkey sh nk" and inv: "tab_inv sh t" and k: "live_key k" "\<not> is_nan_value k"
    and room: "in_array t k \<or> \<not> t_isdummy t \<and> used (t_node t) < length (t_node t)"
    and r: "r = (if tab_slot t k \<noteq> SNil then Inr (t, tab_slot t k) else nk t k)"
  shows "\<exists>t'. store r v = Inr t' \<and> tab_inv sh t' \<and> same_shape t t' \<and>
    used (t_node t') \<le> used (t_node t) + (if in_array t k then 0 else 1) \<and>
    (\<forall>k'. live_key k' \<longrightarrow> tab_get t' k' = upd k v (tab_get t) k')"
proof -
  from slot_or_new [OF nk inv k] room r obtain t1 where
    t1: "r = Inr (t1, tab_slot t1 k)" "tab_inv sh t1" "same_shape t t1" "tab_slot t1 k \<noteq> SNil"
      "used (t_node t1) \<le> used (t_node t) + (if in_array t k then 0 else 1)"
      "\<And>k'. live_key k' \<Longrightarrow> tab_get t1 k' = tab_get t k'" by blast
  let ?t = "slot_write t1 (tab_slot t1 k) v"
  have "tab_inv sh ?t" using write_inv [OF t1(2) refl k(1)] dummy_no_node [OF t1(2)] by blast
  moreover have "same_shape t ?t" using t1(3) by (simp add: same_shape_def write_frame)
  moreover have "tab_get ?t k' = upd k v (tab_get t) k'" if "live_key k'" for k'
    using write_get [OF t1(2) k(1) t1(4)] t1(6) [OF that] by (simp add: upd_def)
  ultimately show ?thesis using t1(1,5) by (simp add: store_def write_used)
qed

lemma store_set:
  assumes "good_newkey sh nk" "tab_inv sh t" "live_key k" "\<not> is_nan_value k"
    "in_array t k \<or> \<not> t_isdummy t \<and> used (t_node t) < length (t_node t)"
  shows "\<exists>t'. store (luaH_set_with nk sh t k) v = Inr t' \<and> tab_inv sh t' \<and> same_shape t t' \<and>
    used (t_node t') \<le> used (t_node t) + (if in_array t k then 0 else 1) \<and>
    (\<forall>k'. live_key k' \<longrightarrow> tab_get t' k' = upd k v (tab_get t) k')"
proof -
  let ?t = "t\<lparr>t_flags := 0\<rparr>"
  have ne: "k \<noteq> TNil" using assms(3) by auto
  have "luaH_set_with nk sh t k = (if tab_slot ?t k \<noteq> SNil then Inr (?t, tab_slot ?t k) else nk ?t k)"
    using assms(2-4) ne by (simp add: luaH_set_with_def luaH_get_spec Let_def)
  from store_spec [OF assms(1) _ assms(3,4) _ this, of v] assms(2,5)
  have "\<exists>t'. store (luaH_set_with nk sh t k) v = Inr t' \<and> tab_inv sh t' \<and> same_shape ?t t' \<and>
      used (t_node t') \<le> used (t_node ?t) + (if in_array ?t k then 0 else 1) \<and>
      (\<forall>k'. live_key k' \<longrightarrow> tab_get t' k' = upd k v (tab_get ?t) k')" by simp
  moreover have "tab_get ?t = tab_get t" by (rule ext) simp
  moreover have "same_shape ?t t' \<longleftrightarrow> same_shape t t'" for t'
    by (simp add: same_shape_def sizearray_def)
  ultimately show ?thesis by simp
qed

lemma store_setnum:
  assumes "good_newkey sh nk" "tab_inv sh t" "- (2 ^ 31) \<le> k" "k < 2 ^ 31"
    "in_array t (TNumber (cast_num k)) \<or> \<not> t_isdummy t \<and> used (t_node t) < length (t_node t)"
  shows "\<exists>t'. store (luaH_setnum_with nk t k) v = Inr t' \<and> tab_inv sh t' \<and> same_shape t t' \<and>
    used (t_node t') \<le> used (t_node t) + (if in_array t (TNumber (cast_num k)) then 0 else 1) \<and>
    (\<forall>k'. live_key k' \<longrightarrow> tab_get t' k' = upd (TNumber (cast_num k)) v (tab_get t) k')"
proof (rule store_spec [OF assms(1,2) _ _ assms(5)])
  show "\<not> is_nan_value (TNumber (cast_num k))"
    using assms(3,4) by (simp add: is_nan_value_def luai_numisnan_iff cast_num_parts)
  show "luaH_setnum_with nk t k = (if tab_slot t (TNumber (cast_num k)) \<noteq> SNil
      then Inr (t, tab_slot t (TNumber (cast_num k))) else nk t (TNumber (cast_num k)))"
    using assms(2-4) by (simp add: luaH_setnum_with_def luaH_getnum_spec)
qed simp

end
