(* ===== verification/LuaTableRehash.thy ===== *)
theory LuaTableRehash
  imports LuaTableSet
begin

text \<open>
  \<open>resize\<close> moves every entry to the new array part and the new node vector, \<open>rehash\<close> chooses
  sizes that leave room for the key that caused it, so \<open>newkey\<close> ends after at most one rehash
  and \<open>luaH_set\<close> gives the slot of its key with all other entries as they were.
\<close>

section \<open>Several stores\<close>

fun upds :: "(TValue \<times> TValue) list \<Rightarrow> (TValue \<Rightarrow> TValue) \<Rightarrow> TValue \<Rightarrow> TValue" where
  "upds [] F = F"
| "upds ((k, v) # es) F = upds es (upd k v F)"

lemma upd_cong: "F k' = G k' \<Longrightarrow> upd k v F k' = upd k v G k'"
  by (simp add: upd_def)

lemma upds_cong: "F k' = G k' \<Longrightarrow> upds es F k' = upds es G k'"
proof (induction es F arbitrary: G rule: upds.induct)
  case (2 k v es F)
  show ?case unfolding upds.simps by (rule 2(1), rule upd_cong, rule 2(2))
qed simp

lemma upds_append: "upds (xs @ ys) F = upds ys (upds xs F)"
  by (induction xs F rule: upds.induct) simp_all

text \<open>When the entries agree on a key, the stores give it that value.\<close>

lemma upds_eq:
  assumes "\<And>k0 v. (k0, v) \<in> set es \<Longrightarrow> luaO_rawequalObj k0 k \<Longrightarrow> v = x"
    and "F k = x \<or> (\<exists>(k0, v) \<in> set es. luaO_rawequalObj k0 k)"
  shows "upds es F k = x"
  using assms
proof (induction es F rule: upds.induct)
  case (2 k0 v es F)
  have rest: "\<And>k0 v. (k0, v) \<in> set es \<Longrightarrow> luaO_rawequalObj k0 k \<Longrightarrow> v = x"
    using 2(2) by (metis list.set_intros(2))
  show ?case
  proof (cases "luaO_rawequalObj k0 k")
    case True
    then have "upd k0 v F k = x" using 2(2) [of k0 v] by (simp add: upd_def)
    then show ?thesis using 2(1) [OF rest] by simp
  next
    case False
    then have "upd k0 v F k = F k" by (simp add: upd_def)
    moreover have "F k = x \<or> (\<exists>(k0, v) \<in> set es. luaO_rawequalObj k0 k)" using 2(3) False by auto
    ultimately show ?thesis using 2(1) [OF rest] by simp
  qed
qed simp

definition node_entries :: "Node list \<Rightarrow> (TValue \<times> TValue) list" where
  "node_entries ns = map (\<lambda>n. (gkey n, gval n)) (filter (\<lambda>n. gval n \<noteq> TNil) ns)"

fun array_entries :: "TValue list \<Rightarrow> nat \<Rightarrow> (TValue \<times> TValue) list" where
  "array_entries [] i = []"
| "array_entries (v # vs) i =
     (if v \<noteq> TNil then [(TNumber (cast_num (int i + 1)), v)] else []) @ array_entries vs (i + 1)"

section \<open>The reinsertion loops\<close>

lemma reinsert_nodes_spec:
  assumes nk: "good_newkey sh nk" and inv: "tab_inv sh t"
    and keys: "\<And>n. n \<in> set ns \<Longrightarrow> gval n \<noteq> TNil \<Longrightarrow> live_key (gkey n) \<and> \<not> is_nan_value (gkey n)"
    and c: "c = length (filter (\<lambda>n. gval n \<noteq> TNil \<and> \<not> in_array t (gkey n)) ns)"
    and room: "0 < c \<Longrightarrow> \<not> t_isdummy t \<and> used (t_node t) + c \<le> length (t_node t)"
  shows "\<exists>t'. reinsert_nodes nk sh t ns = Inr t' \<and> tab_inv sh t' \<and> same_shape t t' \<and>
    used (t_node t') \<le> used (t_node t) + c \<and>
    (\<forall>k. live_key k \<longrightarrow> tab_get t' k = upds (node_entries ns) (tab_get t) k)"
  using inv keys c room
proof (induction ns arbitrary: t c)
  case Nil
  then show ?case by (simp add: same_shape_def node_entries_def)
next
  case (Cons n ns)
  show ?case
  proof (cases "gval n = TNil")
    case True
    with Cons.IH [of t c] Cons.prems show ?thesis by (simp add: node_entries_def)
  next
    case False
    let ?d = "if in_array t (gkey n) then 0 else 1 :: nat"
    let ?c = "length (filter (\<lambda>n. gval n \<noteq> TNil \<and> \<not> in_array t (gkey n)) ns)"
    have c: "c = ?c + ?d" using Cons.prems(3) False by simp
    have "in_array t (gkey n) \<or> \<not> t_isdummy t \<and> used (t_node t) < length (t_node t)"
      using Cons.prems(4) c by (cases "in_array t (gkey n)") auto
    with store_set [OF nk Cons.prems(1)] Cons.prems(2) [of n] False obtain t1 where
      t1: "store (luaH_set_with nk sh t (gkey n)) (gval n) = Inr t1" "tab_inv sh t1" "same_shape t t1"
        "used (t_node t1) \<le> used (t_node t) + ?d"
        "\<And>k. live_key k \<Longrightarrow> tab_get t1 k = upd (gkey n) (gval n) (tab_get t) k" by force
    have in1: "in_array t1 k = in_array t k" for k using same_shape_array [OF t1(3)] .
    have "\<exists>t'. reinsert_nodes nk sh t1 ns = Inr t' \<and> tab_inv sh t' \<and> same_shape t1 t' \<and>
        used (t_node t') \<le> used (t_node t1) + ?c \<and>
        (\<forall>k. live_key k \<longrightarrow> tab_get t' k = upds (node_entries ns) (tab_get t1) k)"
    proof (rule Cons.IH [OF t1(2)])
      assume "0 < ?c"
      then show "\<not> t_isdummy t1 \<and> used (t_node t1) + ?c \<le> length (t_node t1)"
        using Cons.prems(4) c t1(3,4) same_shape_len [OF t1(3) Cons.prems(1) t1(2)]
        by (simp add: same_shape_def)
    qed (use Cons.prems(2) in \<open>auto simp: in1\<close>)
    then obtain t' where t': "reinsert_nodes nk sh t1 ns = Inr t'" "tab_inv sh t'" "same_shape t1 t'"
        "used (t_node t') \<le> used (t_node t1) + ?c"
        "\<And>k. live_key k \<Longrightarrow> tab_get t' k = upds (node_entries ns) (tab_get t1) k" by blast
    have "tab_get t' k = upds (node_entries (n # ns)) (tab_get t) k" if "live_key k" for k
      using t'(5) [OF that] upds_cong [of "tab_get t1" k "upd (gkey n) (gval n) (tab_get t)", OF t1(5) [OF that]] False
      by (simp add: node_entries_def)
    moreover have "same_shape t t'" using t1(3) t'(3) by (simp add: same_shape_def)
    ultimately show ?thesis using t1(1,4) t'(1,2,4) c False by simp
  qed
qed

lemma reinsert_array_spec:
  assumes nk: "good_newkey sh nk" and inv: "tab_inv sh t"
    and i: "sizearray t \<le> i" "i + length vs < 2 ^ 31"
    and c: "c = length (filter (\<lambda>v. v \<noteq> TNil) vs)"
    and room: "0 < c \<Longrightarrow> \<not> t_isdummy t \<and> used (t_node t) + c \<le> length (t_node t)"
  shows "\<exists>t'. reinsert_array nk t vs i = Inr t' \<and> tab_inv sh t' \<and> same_shape t t' \<and>
    used (t_node t') \<le> used (t_node t) + c \<and>
    (\<forall>k. live_key k \<longrightarrow> tab_get t' k = upds (array_entries vs i) (tab_get t) k)"
  using inv i c room
proof (induction vs arbitrary: t c i)
  case Nil
  then show ?case by (simp add: same_shape_def)
next
  case (Cons v vs)
  show ?case
  proof (cases "v = TNil")
    case True
    with Cons.IH [of t "i + 1" c] Cons.prems show ?thesis by simp
  next
    case False
    let ?k = "int i + 1" and ?c = "length (filter (\<lambda>v. v \<noteq> TNil) vs)"
    have c: "c = ?c + 1" using Cons.prems(4) False by simp
    have k: "- (2 ^ 31) \<le> ?k" "?k < 2 ^ 31" using Cons.prems(3) by simp_all
    have out: "\<not> in_array t (TNumber (cast_num ?k))"
      using Cons.prems(2) k by (simp add: in_array_def arrayindex_cast)
    have "\<not> t_isdummy t \<and> used (t_node t) < length (t_node t)" using Cons.prems(5) c by auto
    with store_setnum [OF nk Cons.prems(1) k] obtain t1 where
      t1: "store (luaH_setnum_with nk t ?k) v = Inr t1" "tab_inv sh t1" "same_shape t t1"
        "used (t_node t1) \<le> used (t_node t) + 1"
        "\<And>k'. live_key k' \<Longrightarrow> tab_get t1 k' = upd (TNumber (cast_num ?k)) v (tab_get t) k'"
      using out by force
    have "\<exists>t'. reinsert_array nk t1 vs (i + 1) = Inr t' \<and> tab_inv sh t' \<and> same_shape t1 t' \<and>
        used (t_node t') \<le> used (t_node t1) + ?c \<and>
        (\<forall>k. live_key k \<longrightarrow> tab_get t' k = upds (array_entries vs (i + 1)) (tab_get t1) k)"
    proof (rule Cons.IH [OF t1(2)])
      assume "0 < ?c"
      then show "\<not> t_isdummy t1 \<and> used (t_node t1) + ?c \<le> length (t_node t1)"
        using Cons.prems(5) c t1(3,4) same_shape_len [OF t1(3) Cons.prems(1) t1(2)]
        by (simp add: same_shape_def)
    qed (use Cons.prems(2,3) t1(3) in \<open>simp_all add: same_shape_def\<close>)
    then obtain t' where t': "reinsert_array nk t1 vs (i + 1) = Inr t'" "tab_inv sh t'" "same_shape t1 t'"
        "used (t_node t') \<le> used (t_node t1) + ?c"
        "\<And>k. live_key k \<Longrightarrow> tab_get t' k = upds (array_entries vs (i + 1)) (tab_get t1) k" by blast
    have "tab_get t' k = upds (array_entries (v # vs) i) (tab_get t) k" if "live_key k" for k
      using t'(5) [OF that] upds_cong [of "tab_get t1" k "upd (TNumber (cast_num ?k)) v (tab_get t)", OF t1(5) [OF that]] False
      by simp
    moreover have "same_shape t t'" using t1(3) t'(3) by (simp add: same_shape_def)
    ultimately show ?thesis using t1(1,4) t'(1,2,4) c False by simp
  qed
qed

section \<open>New vectors\<close>

lemma fresh_nodes: "nodes_ok sh ls (replicate (2 ^ ls) nilnode)"
  by (rule nodes_okI) (auto simp: nilnode_def chain_Some)

lemma fresh_used: "used (replicate n nilnode) = 0"
  by (simp add: used_def nilnode_def cong: conj_cong)

lemma setnodevector_overflow:
  assumes "2 ^ MAXBITS < sz" "sz \<le> 2 ^ 32"
  shows "setnodevector t sz = Inl (ErrRun ''table overflow'')"
proof -
  have "0 < sz" using assms(1) by simp
  with ceillog2_bounds(1) [of sz] assms have "(2::nat) ^ MAXBITS < 2 ^ nat (ceillog2 sz)" by linarith
  then have "MAXBITS < nat (ceillog2 sz)" by simp
  with \<open>0 < sz\<close> show ?thesis unfolding setnodevector_def Let_def by simp
qed

text \<open>A table with no node in use.\<close>

definition fresh :: "(ptr \<Rightarrow> nat) \<Rightarrow> Table \<Rightarrow> bool" where
  "fresh sh t \<longleftrightarrow> tab_inv sh t \<and> used (t_node t) = 0 \<and> (\<forall>i<length (t_node t). gkey (t_node t ! i) = TNil)"

lemma setnodevector_fresh:
  assumes arr: "sizearray t < 2 ^ 31" and sz: "sz \<le> 2 ^ MAXBITS"
  shows "\<exists>t'. setnodevector t sz = Inr t' \<and> fresh sh t' \<and> t_array t' = t_array t \<and>
    sz \<le> length (t_node t') \<and> (t_isdummy t' \<longleftrightarrow> sz = 0)"
proof (cases "sz = 0")
  case True
  have "nodes_ok sh 0 [nilnode]" "used [nilnode] = 0"
    using fresh_nodes [of sh 0] fresh_used [of 1] by simp_all
  with True arr show ?thesis
    by (simp add: setnodevector_def fresh_def tab_inv_def sizearray_def nilnode_def)
next
  case False
  let ?l = "nat (ceillog2 sz)"
  have "sz \<le> 2 ^ 32" using sz by (simp add: MAXBITS_def)
  with False have b: "sz \<le> 2 ^ ?l" "1 < sz \<Longrightarrow> 2 ^ (?l - 1) < sz" using ceillog2_bounds [of sz] by auto
  have l: "?l \<le> MAXBITS"
  proof (cases "sz = 1")
    case True
    then show ?thesis by (simp add: ceillog2_eq)
  next
    case ne: False
    with b(2) sz False have "(2::nat) ^ (?l - 1) < 2 ^ MAXBITS" by linarith
    then show ?thesis by simp
  qed
  from l have eq: "setnodevector t sz = Inr (t\<lparr>t_node := replicate (2 ^ ?l) nilnode, t_isdummy := False,
      t_lsizenode := ?l, t_lastfree := 2 ^ ?l\<rparr>)"
    using False by (simp add: setnodevector_def Let_def)
  show ?thesis unfolding eq
    using l arr fresh_nodes [of sh ?l] fresh_used [of "2 ^ ?l"] b(1) False
    by (simp add: fresh_def tab_inv_def sizearray_def nilnode_def)
qed

lemma fresh_get:
  assumes "fresh sh t" "live_key k"
  shows "tab_get t k = (if in_array t k then t_array t ! nat (arrayindex k - 1) else TNil)"
  using assms tab_get_array [of t k] tab_get_none [of t k]
  by (auto simp: fresh_def rawequal_iff live_key_def split: TValue.splits)

section \<open>Resizing\<close>

lemma array_entries_iff:
  "(k, v) \<in> set (array_entries vs i) \<longleftrightarrow>
     (\<exists>j<length vs. vs ! j = v \<and> v \<noteq> TNil \<and> k = TNumber (cast_num (int (i + j) + 1)))"
proof (induction vs arbitrary: i)
  case (Cons a vs)
  have "(\<exists>j<length (a # vs). (a # vs) ! j = v \<and> v \<noteq> TNil \<and> k = TNumber (cast_num (int (i + j) + 1))) \<longleftrightarrow>
      a = v \<and> v \<noteq> TNil \<and> k = TNumber (cast_num (int i + 1)) \<or>
      (\<exists>j<length vs. vs ! j = v \<and> v \<noteq> TNil \<and> k = TNumber (cast_num (int (i + 1 + j) + 1)))"
    by (auto simp: less_Suc_eq_0_disj algebra_simps)
  with Cons.IH [of "i + 1"] show ?case by auto
qed simp

text \<open>The entries a resize to \<open>na\<close> array cells keeps in the hash part.\<close>

definition hash_need :: "Table \<Rightarrow> nat \<Rightarrow> nat" where
  "hash_need t na =
     length (filter (\<lambda>v. v \<noteq> TNil) (drop na (t_array t))) +
     length (filter (\<lambda>n. gval n \<noteq> TNil \<and> \<not> (0 < arrayindex (gkey n) \<and> arrayindex (gkey n) \<le> int na)) (t_node t))"

lemma node_keys:
  assumes "tab_inv sh t" "n \<in> set (t_node t)" "gval n \<noteq> TNil"
  shows "live_key (gkey n) \<and> \<not> is_nan_value (gkey n)"
  using assms nodes_okD(7,8) [OF tab_inv_nodes [OF assms(1)]] by (auto simp: in_set_conv_nth)

lemma node_entry_get:
  assumes "tab_inv sh t" "(k, v) \<in> set (node_entries (t_node t))"
  shows "live_key k" "v \<noteq> TNil" "tab_get t k = v"
proof -
  from assms(2) obtain i where i: "i < length (t_node t)" "gkey (t_node t ! i) = k" "gval (t_node t ! i) = v" "v \<noteq> TNil"
    by (auto simp: node_entries_def in_set_conv_nth)
  then have k: "live_key k \<and> \<not> is_nan_value k" using node_keys [OF assms(1), of "t_node t ! i"] by auto
  with i show "live_key k" "v \<noteq> TNil" by auto
  show "tab_get t k = v"
    using tab_get_node [OF assms(1) i(1), of k] i k by (simp add: rawequal_refl_iff)
qed

lemma node_entry_ex:
  assumes "tab_inv sh t" "live_key k" "\<not> in_array t k" "tab_get t k \<noteq> TNil"
  shows "\<exists>k0. (k0, tab_get t k) \<in> set (node_entries (t_node t)) \<and> luaO_rawequalObj k0 k"
proof (cases rule: tab_slot_cases [of t k])
  case (Node i)
  then have "tab_get t k = gval (t_node t ! i)" by (simp add: tab_get_def)
  with Node assms(4) show ?thesis by (force simp: node_entries_def)
qed (use assms in \<open>auto simp: tab_get_def luaO_nilobject_def\<close>)

lemma filter_hash_need:
  "length (filter (\<lambda>n. gval n \<noteq> TNil \<and> \<not> (0 < arrayindex (gkey n) \<and> arrayindex (gkey n) \<le> int na)) (rev ns)) =
   length (filter (\<lambda>n. gval n \<noteq> TNil \<and> \<not> (0 < arrayindex (gkey n) \<and> arrayindex (gkey n) \<le> int na)) ns)"
  by (simp add: rev_filter [symmetric])

text \<open>The state of \<open>resize\<close> after the new vectors, before the entries are moved.\<close>

lemma resize_vectors:
  assumes inv: "tab_inv sh t" and na: "na < 2 ^ 31" and nh: "nh \<le> 2 ^ MAXBITS"
  shows "\<exists>t1. fresh sh t1 \<and> nh \<le> length (t_node t1) \<and> (t_isdummy t1 \<longleftrightarrow> nh = 0) \<and>
    t_array t1 = take na (t_array t) @ replicate (na - sizearray t) TNil \<and>
    resize_with nk sh t na nh =
      bindr (if na < sizearray t then reinsert_array nk t1 (drop na (t_array t)) na else Inr t1)
        (\<lambda>t2. reinsert_nodes nk sh t2 (rev (t_node t)))"
proof (cases "na < sizearray t")
  case False
  let ?t = "if sizearray t < na then setarrayvector t na else t"
  have arr: "t_array ?t = take na (t_array t) @ replicate (na - sizearray t) TNil"
    using False by (simp add: setarrayvector_def sizearray_def)
  then have "sizearray ?t < 2 ^ 31" using False na by (simp add: sizearray_def)
  from setnodevector_fresh [OF this nh, of sh] obtain t1 where
    "setnodevector ?t nh = Inr t1" "fresh sh t1" "t_array t1 = t_array ?t" "nh \<le> length (t_node t1)"
    "t_isdummy t1 \<longleftrightarrow> nh = 0" by blast
  then show ?thesis using False arr
    by (intro exI [of _ t1]) (simp add: resize_with_def Let_def)
next
  case True
  have sz: "sizearray t < 2 ^ 31" using inv by (simp add: tab_inv_def)
  from setnodevector_fresh [OF this nh, of sh] obtain t0 where
    t0: "setnodevector t nh = Inr t0" "fresh sh t0" "t_array t0 = t_array t" "nh \<le> length (t_node t0)"
    "t_isdummy t0 \<longleftrightarrow> nh = 0" by blast
  let ?t = "t0\<lparr>t_array := take na (t_array t)\<rparr>"
  have "tab_inv sh ?t"
    using t0(2,3) True sz na by (auto simp: fresh_def tab_inv_def sizearray_def)
  with t0(2) have "fresh sh ?t" by (simp add: fresh_def)
  with t0 True show ?thesis
    by (intro exI [of _ ?t]) (simp add: resize_with_def Let_def)
qed

text \<open>Moving every entry out of the old parts gives the old contents.\<close>

lemma resize_entries:
  assumes inv: "tab_inv sh t" and fr: "fresh sh t1"
    and arr: "t_array t1 = take na (t_array t) @ replicate (na - sizearray t) TNil"
    and na: "na < 2 ^ 31" and k: "live_key k"
  shows "upds (array_entries (drop na (t_array t)) na @ node_entries (rev (t_node t))) (tab_get t1) k = tab_get t k"
    (is "upds ?es _ _ = _")
proof (rule upds_eq)
  have szt: "sizearray t < 2 ^ 31" using inv by (simp add: tab_inv_def)
  have nodes: "set (node_entries (rev (t_node t))) = set (node_entries (t_node t))"
    by (simp add: node_entries_def rev_filter [symmetric])
  have ent: "live_key k0 \<and> v \<noteq> TNil \<and> tab_get t k0 = v" if es: "(k0, v) \<in> set ?es" for k0 v
  proof (cases "(k0, v) \<in> set (node_entries (t_node t))")
    case True
    then show ?thesis using node_entry_get [OF inv] by blast
  next
    case False
    with es nodes obtain j where j: "j < sizearray t - na" "t_array t ! (na + j) = v" "v \<noteq> TNil"
      "k0 = TNumber (cast_num (int (na + j) + 1))"
      by (auto simp: array_entries_iff sizearray_def)
    then have ai: "arrayindex k0 = int (na + j) + 1" using szt by (simp add: arrayindex_cast)
    then have "in_array t k0" using j(1) by (simp add: in_array_def)
    with tab_get_array [OF this] ai j show ?thesis by (simp add: nat_add_distrib)
  qed
  show "v = tab_get t k" if "(k0, v) \<in> set ?es" "luaO_rawequalObj k0 k" for k0 v
    using ent [OF that(1)] tab_get_rawequal [OF that(2)] by simp
  have "tab_get t1 k = tab_get t k" if none: "\<And>k0 v. (k0, v) \<in> set ?es \<Longrightarrow> \<not> luaO_rawequalObj k0 k"
  proof (cases "in_array t k")
    case True
    let ?i = "nat (arrayindex k - 1)"
    have i: "?i < sizearray t" "0 < arrayindex k" using True by (auto simp: in_array_def)
    have g: "tab_get t k = t_array t ! ?i" by (rule tab_get_array [OF True])
    show ?thesis
    proof (cases "?i < na")
      case in1: True
      then have "in_array t1 k" using i arr by (auto simp: in_array_def sizearray_def)
      with fresh_get [OF fr k] arr in1 i g show ?thesis by (simp add: sizearray_def nth_append)
    next
      case out: False
      then have "sizearray t1 = na" "\<not> in_array t1 k" using i arr by (auto simp: in_array_def sizearray_def)
      then have t1: "tab_get t1 k = TNil" using fresh_get [OF fr k] by simp
      have "luaO_rawequalObj (TNumber (cast_num (arrayindex k))) k"
        using arrayindex_num_eq [of k "arrayindex k"] i by simp
      then have out2: "(TNumber (cast_num (arrayindex k)), t_array t ! ?i) \<notin> set (array_entries (drop na (t_array t)) na)"
        using none by auto
      have "t_array t ! ?i = TNil"
      proof (rule ccontr)
        assume "t_array t ! ?i \<noteq> TNil"
        moreover have "na + (?i - na) = ?i" "int ?i + 1 = arrayindex k" "?i - na < length (drop na (t_array t))"
          using out i by (simp_all add: sizearray_def)
        ultimately have "(TNumber (cast_num (arrayindex k)), t_array t ! ?i)
            \<in> set (array_entries (drop na (t_array t)) na)"
          unfolding array_entries_iff by (intro exI [of _ "?i - na"]) (simp add: nth_drop)
        with out2 show False by contradiction
      qed
      with t1 g show ?thesis by simp
    qed
  next
    case False
    have "tab_get t k = TNil"
    proof (rule ccontr)
      assume "tab_get t k \<noteq> TNil"
      with node_entry_ex [OF inv k False] none nodes show False by fastforce
    qed
    moreover have "tab_get t1 k = TNil"
      using fresh_get [OF fr k] arr False
      by (auto simp: in_array_def sizearray_def nth_append)
    ultimately show ?thesis by simp
  qed
  then show "tab_get t1 k = tab_get t k \<or> (\<exists>(k0, v) \<in> set ?es. luaO_rawequalObj k0 k)" by blast
qed

lemma resize_with_spec:
  assumes nk: "good_newkey sh nk" and inv: "tab_inv sh t" and na: "na < 2 ^ 31"
    and nh: "nh \<le> 2 ^ MAXBITS" and need: "hash_need t na \<le> nh"
  shows "\<exists>t'. resize_with nk sh t na nh = Inr t' \<and> tab_inv sh t' \<and> sizearray t' = na \<and>
    (t_isdummy t' \<longleftrightarrow> nh = 0) \<and> nh \<le> length (t_node t') \<and> used (t_node t') \<le> hash_need t na \<and>
    (\<forall>k. live_key k \<longrightarrow> tab_get t' k = tab_get t k)"
proof -
  from resize_vectors [OF inv na nh] obtain t1 where
    fr: "fresh sh t1" and len: "nh \<le> length (t_node t1)" and dum: "t_isdummy t1 \<longleftrightarrow> nh = 0"
    and arr: "t_array t1 = take na (t_array t) @ replicate (na - sizearray t) TNil"
    and eq: "resize_with nk sh t na nh =
      bindr (if na < sizearray t then reinsert_array nk t1 (drop na (t_array t)) na else Inr t1)
        (\<lambda>t2. reinsert_nodes nk sh t2 (rev (t_node t)))" by blast
  have inv1: "tab_inv sh t1" and u1: "used (t_node t1) = 0" using fr by (simp_all add: fresh_def)
  have s1: "sizearray t1 = na" using arr by (simp add: sizearray_def)
  let ?vs = "drop na (t_array t)"
  let ?ca = "length (filter (\<lambda>v. v \<noteq> TNil) ?vs)"
  have szt: "sizearray t < 2 ^ 31" using inv by (simp add: tab_inv_def)
  have "\<exists>t2. reinsert_array nk t1 ?vs na = Inr t2 \<and> tab_inv sh t2 \<and> same_shape t1 t2 \<and>
      used (t_node t2) \<le> used (t_node t1) + ?ca \<and>
      (\<forall>k. live_key k \<longrightarrow> tab_get t2 k = upds (array_entries ?vs na) (tab_get t1) k)"
  proof (rule reinsert_array_spec [OF nk inv1 _ _ refl])
    show "na + length ?vs < 2 ^ 31" using na szt by (simp add: sizearray_def)
    assume "0 < ?ca"
    then show "\<not> t_isdummy t1 \<and> used (t_node t1) + ?ca \<le> length (t_node t1)"
      using need len dum u1 unfolding hash_need_def by (simp del: length_greater_0_conv)
  qed (simp add: s1)
  moreover have "(if na < sizearray t then reinsert_array nk t1 ?vs na else Inr t1) = reinsert_array nk t1 ?vs na"
    by (simp add: sizearray_def)
  ultimately obtain t2 where
    t2: "(if na < sizearray t then reinsert_array nk t1 ?vs na else Inr t1) = Inr t2" "tab_inv sh t2" "same_shape t1 t2"
      "used (t_node t2) \<le> ?ca"
      "\<And>k. live_key k \<Longrightarrow> tab_get t2 k = upds (array_entries ?vs na) (tab_get t1) k"
    using u1 by (metis add_0)
  let ?c = "length (filter (\<lambda>n. gval n \<noteq> TNil \<and> \<not> in_array t2 (gkey n)) (rev (t_node t)))"
  have c: "?ca + ?c = hash_need t na"
    using same_shape_array [OF t2(3)] filter_hash_need [of na "t_node t"] s1
    by (simp add: hash_need_def in_array_def)
  have "\<exists>t'. reinsert_nodes nk sh t2 (rev (t_node t)) = Inr t' \<and> tab_inv sh t' \<and> same_shape t2 t' \<and>
      used (t_node t') \<le> used (t_node t2) + ?c \<and>
      (\<forall>k. live_key k \<longrightarrow> tab_get t' k = upds (node_entries (rev (t_node t))) (tab_get t2) k)"
  proof (rule reinsert_nodes_spec [OF nk t2(2) _ refl])
    show "live_key (gkey n) \<and> \<not> is_nan_value (gkey n)" if "n \<in> set (rev (t_node t))" "gval n \<noteq> TNil" for n
      using node_keys [OF inv, of n] that by simp
    assume "0 < ?c"
    then show "\<not> t_isdummy t2 \<and> used (t_node t2) + ?c \<le> length (t_node t2)"
      using c need len dum t2(3,4) same_shape_len [OF t2(3) inv1 t2(2)]
      by (simp add: same_shape_def del: length_greater_0_conv)
  qed
  then obtain t' where
    t': "reinsert_nodes nk sh t2 (rev (t_node t)) = Inr t'" "tab_inv sh t'" "same_shape t2 t'"
      "used (t_node t') \<le> used (t_node t2) + ?c"
      "\<And>k. live_key k \<Longrightarrow> tab_get t' k = upds (node_entries (rev (t_node t))) (tab_get t2) k" by blast
  have "tab_get t' k = tab_get t k" if k: "live_key k" for k
  proof -
    let ?es = "array_entries ?vs na @ node_entries (rev (t_node t))"
    have "tab_get t' k = upds ?es (tab_get t1) k"
      using t'(5) [OF k] upds_cong [of "tab_get t2" k "upds (array_entries ?vs na) (tab_get t1)", OF t2(5) [OF k]]
      by (simp add: upds_append)
    also have "\<dots> = tab_get t k" by (rule resize_entries [OF inv fr arr na k])
    finally show ?thesis .
  qed
  moreover have "nh \<le> length (t_node t')" "sizearray t' = na" "t_isdummy t' \<longleftrightarrow> nh = 0"
    using len dum s1 t'(3) t2(3) same_shape_len [OF t2(3) inv1 t2(2)] same_shape_len [OF t'(3) t2(2) t'(2)]
    by (simp_all add: same_shape_def)
  ultimately show ?thesis using eq t2(1,4) t'(1,2,4) c by auto
qed

section \<open>Counting for a rehash\<close>

lemma present_snoc: "present (arr @ [v]) = present arr @ (if v \<noteq> TNil then [length arr + 1] else [])"
proof -
  have "filter (\<lambda>k. (arr @ [v]) ! (k - 1) \<noteq> TNil) [1..<length arr + 1] = present arr"
    unfolding present_def by (rule filter_cong) (auto simp: nth_append)
  then show ?thesis by (simp add: present_def)
qed

lemma upto_count_append: "upto_count (xs @ ys) n = upto_count xs n + upto_count ys n"
  by (simp add: upto_count_def)

lemma present_split:
  "upto_count (present arr) n + length (filter (\<lambda>v. v \<noteq> TNil) (drop n arr)) = length (present arr)"
proof (induction arr rule: rev_induct)
  case Nil
  then show ?case by (simp add: present_def upto_count_def)
next
  case (snoc v arr)
  have "length arr < n \<Longrightarrow> upto_count (present arr) n = length (present arr)" using snoc.IH by simp
  with snoc.IH show ?case unfolding present_snoc upto_count_append
    by (cases "length arr < n") (simp_all add: upto_count_def)
qed

lemma hash_indices_Cons:
  "hash_indices (n # ns) = (if gval n \<noteq> TNil then key_index (gkey n) else []) @ hash_indices ns"
  by (simp add: hash_indices_def)

lemma key_index_split:
  assumes "n \<le> MAXASIZE"
  shows "upto_count (key_index k) n + (if 0 < arrayindex k \<and> arrayindex k \<le> int n then 0 else 1) = 1"
  using assms by (auto simp: key_index_def Let_def upto_count_def)

lemma hash_split:
  assumes "n \<le> MAXASIZE"
  shows "upto_count (hash_indices ns) n +
    length (filter (\<lambda>m. gval m \<noteq> TNil \<and> \<not> (0 < arrayindex (gkey m) \<and> arrayindex (gkey m) \<le> int n)) ns) =
    length (filter (\<lambda>m. gval m \<noteq> TNil) ns)"
proof (induction ns)
  case (Cons m ns)
  from key_index_split [OF assms, of "gkey m"] Cons.IH show ?case
    unfolding hash_indices_Cons upto_count_append by (auto simp: upto_count_def split: if_splits)
qed (simp add: hash_indices_def upto_count_def)

lemma hash_indices_rev: "mset (hash_indices (rev ns)) = mset (hash_indices ns)"
  by (induction ns) (simp_all add: hash_indices_def)

lemma upto_count_mset: "mset xs = mset ys \<Longrightarrow> upto_count xs n = upto_count ys n"
  unfolding upto_count_def by (metis mset_filter size_mset)

lemma hash_indices_distinct:
  assumes "\<And>i j x. i < length ns \<Longrightarrow> j < length ns \<Longrightarrow> gval (ns ! i) \<noteq> TNil \<Longrightarrow> gval (ns ! j) \<noteq> TNil \<Longrightarrow>
    x \<in> set (key_index (gkey (ns ! i))) \<Longrightarrow> x \<in> set (key_index (gkey (ns ! j))) \<Longrightarrow> i = j"
  shows "distinct (hash_indices ns)"
  using assms
proof (induction ns)
  case (Cons n ns)
  have "distinct (hash_indices ns)"
  proof (rule Cons.IH)
    fix i j x assume "i < length ns" "j < length ns" "gval (ns ! i) \<noteq> TNil" "gval (ns ! j) \<noteq> TNil"
      "x \<in> set (key_index (gkey (ns ! i)))" "x \<in> set (key_index (gkey (ns ! j)))"
    with Cons.prems [of "Suc i" "Suc j" x] show "i = j" by simp
  qed
  moreover have "x \<notin> set (key_index (gkey n))" if "x \<in> set (hash_indices ns)" "gval n \<noteq> TNil" for x
  proof -
    from that(1) obtain j where "j < length ns" "gval (ns ! j) \<noteq> TNil" "x \<in> set (key_index (gkey (ns ! j)))"
      by (auto simp: hash_indices_def in_set_conv_nth)
    with Cons.prems [of 0 "Suc j" x] that(2) show ?thesis by auto
  qed
  moreover have "distinct (key_index (gkey n))" by (simp add: key_index_def Let_def)
  ultimately show ?case unfolding hash_indices_Cons by auto
qed (simp add: hash_indices_def)

lemma key_index_iff: "x \<in> set (key_index k) \<longleftrightarrow> 0 < x \<and> x \<le> MAXASIZE \<and> arrayindex k = int x"
  by (auto simp: key_index_def Let_def)

lemma key_index_match:
  assumes "x \<in> set (key_index a)" "x \<in> set (key_index b)"
  shows "luaO_rawequalObj a b"
proof -
  from assms have "arrayindex a = int x" "arrayindex b = int x" "int x \<noteq> - 1" by (auto simp: key_index_iff)
  then have "luaO_rawequalObj (TNumber (cast_num (int x))) a" "luaO_rawequalObj (TNumber (cast_num (int x))) b"
    using arrayindex_num_eq by blast+
  then show ?thesis using rawequal_sym rawequal_trans by blast
qed

text \<open>The integer keys a rehash counts are distinct.\<close>

definition rehash_keys :: "Table \<Rightarrow> TValue \<Rightarrow> nat list" where
  "rehash_keys t ek = key_index ek @ hash_indices (rev (t_node t)) @ present (t_array t)"

lemma rehash_array_keys:
  assumes inv: "tab_inv sh t" and sz: "sizearray t \<le> MAXASIZE" and ek: "live_key ek" "tab_slot t ek = SNil"
  shows "array_keys (rehash_keys t ek)"
proof -
  note ok = nodes_okD [OF tab_inv_nodes [OF inv]]
  have node: "\<exists>i<length (t_node t). gval (t_node t ! i) \<noteq> TNil \<and> x \<in> set (key_index (gkey (t_node t ! i)))"
    if "x \<in> set (hash_indices (t_node t))" for x
    using that by (auto simp: hash_indices_def in_set_conv_nth)
  have sets: "set (hash_indices (rev (t_node t))) = set (hash_indices (t_node t))"
    using hash_indices_rev by (metis set_mset_mset)
  have "distinct (hash_indices (t_node t))"
  proof (rule hash_indices_distinct)
    fix i j x assume *: "i < length (t_node t)" "j < length (t_node t)" "gval (t_node t ! i) \<noteq> TNil"
      "gval (t_node t ! j) \<noteq> TNil" "x \<in> set (key_index (gkey (t_node t ! i)))" "x \<in> set (key_index (gkey (t_node t ! j)))"
    then show "i = j" using ok(12) [OF *(1,2) key_index_match] ok(7) by blast
  qed
  then have d: "distinct (hash_indices (rev (t_node t)))" using hash_indices_rev mset_eq_imp_distinct_iff by blast
  have out: "x \<notin> set (present (t_array t))" if x: "x \<in> set (key_index k)" "\<not> in_array t k" for x k
    using x present_range [of x "t_array t"] by (auto simp: key_index_iff in_array_def sizearray_def)
  have nout: "x \<notin> set (present (t_array t))" if x: "x \<in> set (hash_indices (t_node t))" for x
  proof -
    from node [OF x] obtain i where i: "i < length (t_node t)" "gval (t_node t ! i) \<noteq> TNil"
      "x \<in> set (key_index (gkey (t_node t ! i)))" by blast
    then have "\<not> in_array t (gkey (t_node t ! i))" using ok(7) inv by (simp add: tab_inv_def in_array_def)
    with out i show ?thesis by blast
  qed
  have eout: "\<not> in_array t ek" using ek by (auto simp: tab_slot_def split: if_splits)
  have ehash: "x \<notin> set (hash_indices (t_node t))" if x: "x \<in> set (key_index ek)" for x
  proof
    assume "x \<in> set (hash_indices (t_node t))"
    from node [OF this] obtain i where i: "i < length (t_node t)" "x \<in> set (key_index (gkey (t_node t ! i)))" by blast
    then show False using tab_slot_node(1) [OF inv i(1) ek(1) key_index_match [OF i(2) x]] ek(2) by simp
  qed
  have "distinct (rehash_keys t ek)"
    using d nout ehash out [OF _ eout] present_distinct sets
    by (auto simp: rehash_keys_def key_index_def Let_def)
  moreover have "0 < k \<and> k \<le> MAXASIZE" if "k \<in> set (rehash_keys t ek)" for k
    using that node present_range [of k "t_array t"] sz
    by (auto simp: rehash_keys_def sets key_index_iff sizearray_def)
  ultimately show ?thesis by (simp add: array_keys_def)
qed

end
