(* ===== verification/LuaTableOps.thy ===== *)
theory LuaTableOps
  imports LuaTableRehash
begin

text \<open>
  The operations a table offers: \<open>rehash\<close> finds room, \<open>newkey\<close> ends, \<open>luaH_set\<close>,
  \<open>luaH_setnum\<close>, \<open>luaH_setstr\<close>, \<open>luaH_new\<close> and \<open>luaH_resizearray\<close> keep the
  invariant and the contents of the table.
\<close>

section \<open>Rehash\<close>

definition entries :: "Table \<Rightarrow> nat" where
  "entries t = length (filter (\<lambda>v. v \<noteq> TNil) (t_array t)) + length (filter (\<lambda>n. gval n \<noteq> TNil) (t_node t))"

lemma upto_count_none: "upto_count (present arr) 0 = 0"
  unfolding upto_count_def length_0_conv filter_empty_conv using present_range by fastforce

lemma rehash_with_sizes:
  assumes inv: "tab_inv sh t" and sz: "sizearray t \<le> MAXASIZE" and ek: "live_key ek" "tab_slot t ek = SNil"
  shows "\<exists>na nh. rehash_with nk sh t ek = resize_with nk sh t na nh \<and> na \<le> MAXASIZE \<and>
    best_size (rehash_keys t ek) na \<and>
    nh = hash_need t na + (if 0 < arrayindex ek \<and> arrayindex ek \<le> int na then 0 else 1) \<and> nh \<le> entries t + 1"
proof -
  let ?P = "present (t_array t)" and ?H = "hash_indices (rev (t_node t))" and ?E = "key_index ek"
  let ?ks = "rehash_keys t ek"
  obtain na c where comp: "computesizes (nums_of ?ks) (length ?ks) = (na, c)" by fastforce
  note ks = rehash_array_keys [OF assms]
  have c: "c = upto_count ?ks na" and best: "best_size ?ks na" using computesizes_spec [OF ks comp] by blast+
  have na: "na \<le> MAXASIZE" by (rule best_size_bound [OF ks best])
  let ?L = "length (filter (\<lambda>n. gval n \<noteq> TNil) (t_node t))"
  have len: "length ?ks = length ?P + length ?H + length ?E" by (simp add: rehash_keys_def)
  have step: "numusearray t (replicate (MAXBITS + 1) 0) = (nums_of ?P, length ?P)"
    "numusehash t (nums_of ?P) = (nums_of (?H @ ?P), length ?H, ?L)"
    "countint ek (nums_of (?H @ ?P)) = (nums_of ?ks, length ?E)"
    using numusearray_spec [OF sz] numusehash_spec countint_spec by (simp_all only: rehash_keys_def)
  have eq: "rehash_with nk sh t ek = resize_with nk sh t na (length ?P + ?L + 1 - c)"
    unfolding rehash_with_def Let_def step prod.case len [symmetric] comp by simp
  have "c = upto_count ?E na + upto_count (hash_indices (t_node t)) na + upto_count ?P na"
    using c upto_count_mset [OF hash_indices_rev] by (simp add: rehash_keys_def upto_count_append)
  then have nh: "length ?P + ?L + 1 - c =
      hash_need t na + (if 0 < arrayindex ek \<and> arrayindex ek \<le> int na then 0 else 1)"
    using present_split [of "t_array t" na] hash_split [OF na, of "t_node t"] key_index_split [OF na, of ek]
    unfolding hash_need_def by linarith
  have "length ?P = length (filter (\<lambda>v. v \<noteq> TNil) (t_array t))"
    using present_split [of "t_array t" 0] upto_count_none by simp
  then have "length ?P + ?L + 1 - c \<le> entries t + 1" by (simp add: entries_def)
  with eq nh na best show ?thesis by metis
qed

lemma rehash_with_spec:
  assumes nk: "good_newkey sh nk" and inv: "tab_inv sh t" and sz: "sizearray t \<le> MAXASIZE"
    and ek: "live_key ek" "tab_slot t ek = SNil"
  shows "rehash_with nk sh t ek = Inl (ErrRun ''table overflow'') \<and> 2 ^ MAXBITS < entries t + 1 \<or>
    (\<exists>t'. rehash_with nk sh t ek = Inr t' \<and> tab_inv sh t' \<and> sizearray t' \<le> MAXASIZE \<and>
      best_size (rehash_keys t ek) (sizearray t') \<and>
      (in_array t' ek \<or> \<not> t_isdummy t' \<and> used (t_node t') < length (t_node t')) \<and>
      (\<forall>k. live_key k \<longrightarrow> tab_get t' k = tab_get t k))"
proof -
  from rehash_with_sizes [OF inv sz ek, of nk] obtain na nh where
    eq: "rehash_with nk sh t ek = resize_with nk sh t na nh" and na: "na \<le> MAXASIZE"
    and best: "best_size (rehash_keys t ek) na"
    and nh: "nh = hash_need t na + (if 0 < arrayindex ek \<and> arrayindex ek \<le> int na then 0 else 1)"
    and le: "nh \<le> entries t + 1" by blast
  have na31: "na < 2 ^ 31" using na by (simp add: MAXASIZE_def MAXBITS_def)
  show ?thesis
  proof (cases "nh \<le> 2 ^ MAXBITS")
    case True
    from resize_with_spec [OF nk inv na31 True] nh obtain t' where
      t': "resize_with nk sh t na nh = Inr t'" "tab_inv sh t'" "sizearray t' = na" "t_isdummy t' \<longleftrightarrow> nh = 0"
        "nh \<le> length (t_node t')" "used (t_node t') \<le> hash_need t na"
        "\<forall>k. live_key k \<longrightarrow> tab_get t' k = tab_get t k" by auto
    have "in_array t' ek \<or> \<not> t_isdummy t' \<and> used (t_node t') < length (t_node t')"
      using nh t'(3-6) by (auto simp: in_array_def split: if_splits)
    with t' na best eq show ?thesis by auto
  next
    case False
    have "length (filter (\<lambda>v. v \<noteq> TNil) (t_array t)) \<le> sizearray t" by (simp add: sizearray_def)
    moreover have "length (filter (\<lambda>n. gval n \<noteq> TNil) (t_node t)) \<le> length (t_node t)" by simp
    moreover have "length (t_node t) \<le> 2 ^ MAXBITS" using inv by (simp add: tab_inv_def nodes_ok_def)
    ultimately have "entries t \<le> 2 ^ MAXBITS + 2 ^ MAXBITS" using sz unfolding entries_def MAXASIZE_def by linarith
    with le have "nh \<le> 2 ^ 32" by (simp add: MAXBITS_def)
    then have ov: "setnodevector t'' nh = Inl (ErrRun ''table overflow'')" for t''
      using setnodevector_overflow False by simp
    then have "resize_with nk sh t na nh = Inl (ErrRun ''table overflow'')"
      by (simp add: resize_with_def Let_def)
    with eq False le show ?thesis by auto
  qed
qed

section \<open>New keys\<close>

lemma getfreepos_full:
  assumes inv: "tab_inv sh t" and none: "getfreepos (t_node t) (t_lastfree t) = (None, lf)"
  shows "tab_inv sh (t\<lparr>t_lastfree := lf\<rparr>)"
  using getfreepos_None [OF none] inv unfolding tab_inv_def
  by (cases "t_isdummy t") (auto simp: sizearray_def not_less)

lemma lastfree_frame [simp]:
  "tab_slot (t\<lparr>t_lastfree := lf\<rparr>) k = tab_slot t k" "tab_get (t\<lparr>t_lastfree := lf\<rparr>) k = tab_get t k"
  "sizearray (t\<lparr>t_lastfree := lf\<rparr>) = sizearray t" "entries (t\<lparr>t_lastfree := lf\<rparr>) = entries t"
  "rehash_keys (t\<lparr>t_lastfree := lf\<rparr>) k = rehash_keys t k"
proof -
  show "tab_slot (t\<lparr>t_lastfree := lf\<rparr>) k = tab_slot t k" for k
    by (simp add: tab_slot_def in_array_def sizearray_def)
  moreover have "slot_val (t\<lparr>t_lastfree := lf\<rparr>) s = slot_val t s" for s by (cases s) simp_all
  ultimately show "tab_get (t\<lparr>t_lastfree := lf\<rparr>) k = tab_get t k" by (simp add: tab_get_def)
qed (simp_all add: sizearray_def entries_def rehash_keys_def)

text \<open>What a lookup for writing returns: the slot of the key in a table with the same entries.\<close>

definition found :: "(ptr \<Rightarrow> nat) \<Rightarrow> Table \<Rightarrow> TValue \<Rightarrow> (Table \<times> slot) res \<Rightarrow> bool" where
  "found sh t k r \<longleftrightarrow>
     (\<exists>t'. r = Inr (t', tab_slot t' k) \<and> tab_inv sh t' \<and> sizearray t' \<le> MAXASIZE \<and> tab_slot t' k \<noteq> SNil \<and>
        (\<forall>k'. live_key k' \<longrightarrow> tab_get t' k' = tab_get t k'))"

definition overflows :: "Table \<Rightarrow> (Table \<times> slot) res \<Rightarrow> bool" where
  "overflows t r \<longleftrightarrow> r = Inl (ErrRun ''table overflow'') \<and> 2 ^ MAXBITS < entries t + 1"

lemma placed_found:
  assumes p: "placed sh t k t' i" and k: "live_key k" "\<not> is_nan_value k" "tab_slot t k = SNil"
    and sz: "sizearray t \<le> MAXASIZE"
  shows "found sh t k (Inr (t', SNode i))"
proof -
  have inv: "tab_inv sh t'" and i: "i < length (t_node t')" "gkey (t_node t' ! i) = k" "gval (t_node t' ! i) = TNil"
    and arr: "t_array t' = t_array t"
    and oth: "\<And>k'. live_key k' \<Longrightarrow> \<not> luaO_rawequalObj k k' \<Longrightarrow> tab_get t' k' = tab_get t k'"
    using p by (auto simp: placed_def)
  have "luaO_rawequalObj (gkey (t_node t' ! i)) k" using i k by (simp add: rawequal_refl_iff)
  then have s: "tab_slot t' k = SNode i" by (rule tab_slot_node(1) [OF inv i(1) k(1)])
  have "tab_get t' k' = tab_get t k'" if "live_key k'" for k'
  proof (cases "luaO_rawequalObj k k'")
    case True
    then have "tab_get t' k' = tab_get t' k" "tab_get t k' = tab_get t k"
      using tab_get_rawequal rawequal_sym by blast+
    then show ?thesis using s i k by (simp add: tab_get_def luaO_nilobject_def)
  qed (use oth that in blast)
  with inv s arr sz show ?thesis by (auto simp: found_def sizearray_def)
qed

lemma set_after_rehash:
  assumes nk: "good_newkey sh nk" and inv: "tab_inv sh t" and k: "live_key k" "\<not> is_nan_value k"
    and sz: "sizearray t \<le> MAXASIZE"
    and room: "in_array t k \<or> \<not> t_isdummy t \<and> used (t_node t) < length (t_node t)"
  shows "found sh t k (luaH_set_with nk sh t k)"
proof -
  let ?t = "t\<lparr>t_flags := 0\<rparr>"
  have "luaH_set_with nk sh t k = (if tab_slot ?t k \<noteq> SNil then Inr (?t, tab_slot ?t k) else nk ?t k)"
    using inv k by (auto simp add: luaH_set_with_def luaH_get_spec Let_def)
  moreover obtain t' where "(if tab_slot ?t k \<noteq> SNil then Inr (?t, tab_slot ?t k) else nk ?t k) = Inr (t', tab_slot t' k)"
      "tab_inv sh t'" "same_shape ?t t'" "tab_slot t' k \<noteq> SNil"
      "\<forall>k'. live_key k' \<longrightarrow> tab_get t' k' = tab_get ?t k'"
    using slot_or_new [OF nk, of ?t k] inv k room by auto
  moreover have "sizearray t' \<le> MAXASIZE" using calculation(4) sz by (simp add: same_shape_def sizearray_def)
  ultimately show ?thesis unfolding found_def by (intro exI [of _ t']) simp
qed

lemma newkey_step_spec:
  assumes nk: "good_newkey sh nk" and inv: "tab_inv sh t" and sz: "sizearray t \<le> MAXASIZE"
    and k: "live_key k" "\<not> is_nan_value k" "tab_slot t k = SNil"
  shows "overflows t (newkey_step nk sh t k) \<or> found sh t k (newkey_step nk sh t k)"
proof (cases "gval (t_node t ! mainposition sh (t_lsizenode t) k) = TNil \<and> \<not> t_isdummy t")
  case True
  with newkey_place_free [OF inv k refl] obtain t' i where
    "newkey_step nk sh t k = Inr (t', SNode i)" "placed sh t k t' i" by blast
  with placed_found [OF _ k sz] show ?thesis by metis
next
  case busy: False
  obtain r lf where free: "getfreepos (t_node t) (t_lastfree t) = (r, lf)" by fastforce
  show ?thesis
  proof (cases r)
    case None
    let ?t = "t\<lparr>t_lastfree := lf\<rparr>"
    have inv': "tab_inv sh ?t" using getfreepos_full inv free None by blast
    have eq: "newkey_step nk sh t k = bindr (rehash_with nk sh ?t k) (\<lambda>t. luaH_set_with nk sh t k)"
      using busy free None by (auto simp: newkey_step_def Let_def)
    from rehash_with_spec [OF nk inv' _ k(1)] sz k(3) consider
      (ov) "rehash_with nk sh ?t k = Inl (ErrRun ''table overflow'')" "2 ^ MAXBITS < entries t + 1"
    | (ok) t' where "rehash_with nk sh ?t k = Inr t'" "tab_inv sh t'" "sizearray t' \<le> MAXASIZE"
        "in_array t' k \<or> \<not> t_isdummy t' \<and> used (t_node t') < length (t_node t')"
        "\<forall>k. live_key k \<longrightarrow> tab_get t' k = tab_get t k" by fastforce
    then show ?thesis
    proof cases
      case ov
      then show ?thesis by (simp add: eq overflows_def)
    next
      case ok
      with set_after_rehash [OF nk ok(2) k(1,2) ok(3,4)] show ?thesis
        by (simp add: eq found_def)
    qed
  next
    case (Some n)
    have dum: "\<not> t_isdummy t"
    proof
      assume "t_isdummy t"
      then have "t_lastfree t = 0" using inv by (simp add: tab_inv_def)
      with free Some show False by simp
    qed
    have "lf = n" using free Some getfreepos_Some by blast
    with free Some have free: "getfreepos (t_node t) (t_lastfree t) = (Some n, n)" by simp
    have "gval (t_node t ! mainposition sh (t_lsizenode t) k) \<noteq> TNil" using busy dum by simp
    then obtain t' i where "newkey_step nk sh t k = Inr (t', SNode i)" "placed sh t k t' i"
      using newkey_place_behind [OF inv k refl _ dum free] newkey_place_moved [OF inv k refl _ dum free] by blast
    with placed_found [OF _ k sz] show ?thesis by metis
  qed
qed

lemma newkey_spec:
  assumes "tab_inv sh t" "sizearray t \<le> MAXASIZE" "live_key k" "\<not> is_nan_value k" "tab_slot t k = SNil"
  shows "overflows t (newkey sh t k) \<or> found sh t k (newkey sh t k)"
proof -
  have "newkey sh = newkey_step (newkey_f 1 sh) sh" by (simp add: newkey_def numeral_2_eq_2)
  moreover have "good_newkey sh (newkey_f 1 sh)" using newkey_f_good [of sh 0] by simp
  ultimately show ?thesis using newkey_step_spec [OF _ assms] by simp
qed

end
