(* ===== verification/LuaTableIter.thy ===== *)
theory LuaTableIter
  imports LuaTableOps
begin

text \<open>
  Traversal and length of a table: \<open>luaH_next\<close> goes through the entries in the order of the array
  part and then of the node vector, and \<open>luaH_getn\<close> ends at a border.
\<close>

section \<open>Traversal\<close>

text \<open>The entries in the order of a traversal.\<close>

definition entry_list :: "Table \<Rightarrow> (TValue \<times> TValue) list" where
  "entry_list t = array_entries (t_array t) 0 @ node_entries (t_node t)"

lemma next_array_entries:
  "next_array vs i = (case array_entries vs i of [] \<Rightarrow> None | e # es \<Rightarrow> Some e)"
  by (induction vs i rule: next_array.induct) (simp_all split: list.splits)

lemma next_node_entries:
  "next_node ns = (case node_entries ns of [] \<Rightarrow> None | e # es \<Rightarrow> Some e)"
  by (induction ns rule: next_node.induct) (simp_all add: node_entries_def split: list.splits)

text \<open>What \<open>luaH_next\<close> finds from the position \<open>i\<close> on.\<close>

definition entries_from :: "Table \<Rightarrow> nat \<Rightarrow> (TValue \<times> TValue) list" where
  "entries_from t i =
     array_entries (drop i (t_array t)) i @ node_entries (drop (i - sizearray t) (t_node t))"

lemma entries_from_0: "entries_from t 0 = entry_list t"
  by (simp add: entries_from_def entry_list_def)

lemma entries_from_array:
  assumes "i < sizearray t"
  shows "entries_from t i = (if t_array t ! i \<noteq> TNil then [(TNumber (cast_num (int i + 1)), t_array t ! i)] else [])
    @ entries_from t (i + 1)"
  using assms by (simp add: entries_from_def sizearray_def Cons_nth_drop_Suc [symmetric])

lemma entries_from_node:
  assumes "n < length (t_node t)"
  shows "entries_from t (n + sizearray t) =
    (if gval (t_node t ! n) \<noteq> TNil then [(gkey (t_node t ! n), gval (t_node t ! n))] else [])
    @ entries_from t (n + sizearray t + 1)"
  using assms by (simp add: entries_from_def sizearray_def node_entries_def Cons_nth_drop_Suc [symmetric])

lemma luaH_next_from:
  assumes "findindex sh t key = Inr i" "- 1 \<le> i"
  shows "luaH_next sh t key = Inr (case entries_from t (nat (i + 1)) of [] \<Rightarrow> None | e # es \<Rightarrow> Some e)"
proof -
  have "max j (sizearray t) - sizearray t = j - sizearray t" for j by simp
  then show ?thesis
    using assms(1)
    by (simp add: luaH_next_def entries_from_def next_array_entries next_node_entries Let_def split: list.splits)
qed

lemma next_first: "luaH_next sh t TNil = Inr (case entry_list t of [] \<Rightarrow> None | e # es \<Rightarrow> Some e)"
  using luaH_next_from [of sh t TNil "- 1"] by (simp add: findindex_def entries_from_0)

lemma findindex_array:
  assumes "in_array t k"
  shows "findindex sh t k = Inr (arrayindex k - 1)"
proof -
  have "k \<noteq> TNil" using assms by (auto simp: in_array_def arrayindex_def)
  then show ?thesis using assms by (simp add: findindex_def in_array_def Let_def)
qed

text \<open>A dead key may hide a live one only when it holds the same pointer.\<close>

definition no_alias :: "Table \<Rightarrow> TValue \<Rightarrow> bool" where
  "no_alias t k \<longleftrightarrow> (\<forall>n \<in> set (t_node t). \<forall>p. gkey n = TDeadKey p \<longrightarrow> iscollectable k \<longrightarrow> p \<noteq> gcvalue k)"

lemma find_chain_agree:
  assumes "chain ns (Some i) xs" "\<And>n. n \<in> set ns \<Longrightarrow> P n = Q n"
  shows "find_chain f P ns i = find_chain f Q ns i"
  using assms(1)
proof (induction f arbitrary: i xs)
  case (Suc f)
  then obtain ys where ys: "i < length ns" "chain ns (gnext (ns ! i)) ys" by (auto simp: chain_Some)
  then have "P (ns ! i) = Q (ns ! i)" using assms(2) by simp
  with Suc.IH ys(2) show ?case by (auto split: option.splits)
qed simp

lemma findindex_node:
  assumes inv: "tab_inv sh t" and k: "live_key k" and i: "i < length (t_node t)"
    and m: "luaO_rawequalObj (gkey (t_node t ! i)) k" and na: "no_alias t k"
  shows "findindex sh t k = Inr (int i + int (sizearray t))"
proof -
  let ?P = "\<lambda>n. luaO_rawequalObj (gkey n) k \<or>
    (case gkey n of TDeadKey p \<Rightarrow> iscollectable k \<and> p = gcvalue k | _ \<Rightarrow> False)"
  have out: "\<not> in_array t k" and s: "tab_slot t k = SNode i" using tab_slot_node [OF inv i k m] by blast+
  have P: "?P n \<longleftrightarrow> luaO_rawequalObj (gkey n) k" if "n \<in> set (t_node t)" for n
    using na that by (auto simp: no_alias_def split: TValue.splits)
  let ?mp = "mainposition sh (t_lsizenode t) k"
  have sn: "search_node t (\<lambda>n. luaO_rawequalObj (gkey n) k) ?mp = Inr (tab_slot t k)"
    by (rule search_node_spec [OF inv k out]) simp_all
  have "?mp < length (t_node t)"
    using nodes_okD(1) [OF tab_inv_nodes [OF inv]] by (simp add: mainposition_lt)
  then obtain xs where "chain (t_node t) (Some ?mp) xs" using nodes_okD(2) [OF tab_inv_nodes [OF inv]] by blast
  from find_chain_agree [OF this P] have
    "search_node t ?P ?mp = Inr (tab_slot t k)" using sn by (simp add: search_node_def)
  then have "find_chain (length (t_node t)) ?P (t_node t) (mainposition sh (t_lsizenode t) k) = Inr (Some i)"
    using s by (auto simp: search_node_def node_slot_def bindr_def split: sum.splits option.splits)
  moreover have "k \<noteq> TNil" using k by auto
  ultimately show ?thesis using out by (simp add: findindex_def in_array_def Let_def)
qed

lemma entries_from_end: "sizearray t + length (t_node t) \<le> i \<Longrightarrow> entries_from t i = []"
  by (simp add: entries_from_def sizearray_def node_entries_def)

text \<open>The entry at position \<open>i\<close>, and where the head of a rest of the entries is.\<close>

definition entry_at :: "Table \<Rightarrow> nat \<Rightarrow> TValue \<times> TValue" where
  "entry_at t i =
     (if i < sizearray t then (TNumber (cast_num (int i + 1)), t_array t ! i)
      else (gkey (t_node t ! (i - sizearray t)), gval (t_node t ! (i - sizearray t))))"

lemma entries_from_step:
  assumes "i < sizearray t + length (t_node t)"
  shows "entries_from t i = (if snd (entry_at t i) \<noteq> TNil then [entry_at t i] else []) @ entries_from t (i + 1)"
proof (cases "i < sizearray t")
  case True
  then show ?thesis by (simp add: entries_from_array entry_at_def)
next
  case False
  with assms entries_from_node [of "i - sizearray t" t] show ?thesis by (simp add: entry_at_def)
qed

lemma entries_from_head:
  assumes "entries_from t i = e # es"
  shows "\<exists>j. j < sizearray t + length (t_node t) \<and> entry_at t j = e \<and> snd e \<noteq> TNil \<and> entries_from t (j + 1) = es"
  using assms
proof (induction "sizearray t + length (t_node t) - i" arbitrary: i)
  case 0
  then show ?case using entries_from_end [of t i] by simp
next
  case (Suc n)
  then have i: "i < sizearray t + length (t_node t)" by simp
  show ?case
  proof (cases "snd (entry_at t i) = TNil")
    case True
    then show ?thesis using Suc.hyps(1) [of "i + 1"] Suc.hyps(2) Suc.prems entries_from_step [OF i] by simp
  next
    case False
    then show ?thesis using Suc.prems entries_from_step [OF i] i by auto
  qed
qed

lemma entry_list_at:
  assumes "entry_list t = xs @ e # es"
  shows "\<exists>j. j < sizearray t + length (t_node t) \<and> entry_at t j = e \<and> snd e \<noteq> TNil \<and> entries_from t (j + 1) = es"
  using assms
proof (induction xs arbitrary: e es rule: rev_induct)
  case Nil
  then show ?case using entries_from_head [of t 0] by (simp add: entries_from_0)
next
  case (snoc x xs)
  from snoc.IH [of x "e # es"] snoc.prems obtain j where "entries_from t (j + 1) = e # es" by auto
  then show ?case by (rule entries_from_head)
qed

lemma entry_at_key:
  assumes inv: "tab_inv sh t" and j: "j < sizearray t + length (t_node t)" "snd (entry_at t j) \<noteq> TNil"
    and na: "no_alias t (fst (entry_at t j))"
  shows "findindex sh t (fst (entry_at t j)) = Inr (int j)"
proof (cases "j < sizearray t")
  case True
  let ?k = "TNumber (cast_num (int j + 1))"
  have "sizearray t < 2 ^ 31" using inv by (simp add: tab_inv_def)
  with True have ai: "arrayindex ?k = int j + 1" by (simp add: arrayindex_cast)
  with True have "in_array t ?k" by (simp add: in_array_def)
  from findindex_array [OF this, of sh] ai True show ?thesis by (simp add: entry_at_def)
next
  case False
  let ?n = "t_node t ! (j - sizearray t)"
  have i: "j - sizearray t < length (t_node t)" and e: "entry_at t j = (gkey ?n, gval ?n)"
    using j False by (simp_all add: entry_at_def)
  have k: "live_key (gkey ?n) \<and> \<not> is_nan_value (gkey ?n)"
    using node_keys [OF inv, of ?n] i j e by simp
  then have m: "luaO_rawequalObj (gkey ?n) (gkey ?n)" by (simp add: rawequal_refl_iff)
  have "findindex sh t (gkey ?n) = Inr (int (j - sizearray t) + int (sizearray t))"
    by (rule findindex_node [OF inv _ i m]) (use k na e in simp_all)
  moreover have "int (j - sizearray t) + int (sizearray t) = int j" using False by simp
  ultimately show ?thesis using e by simp
qed

lemma next_at:
  assumes inv: "tab_inv sh t" and j: "j < sizearray t + length (t_node t)" and v: "snd (entry_at t j) \<noteq> TNil"
    and na: "no_alias t (fst (entry_at t j))"
  shows "luaH_next sh t (fst (entry_at t j)) = Inr (case entries_from t (j + 1) of [] \<Rightarrow> None | e # es \<Rightarrow> Some e)"
  using luaH_next_from [OF entry_at_key [OF assms]] by (simp add: nat_add_distrib)

text \<open>Calling \<open>luaH_next\<close> from nil until there are no more elements.\<close>

fun traverse :: "nat \<Rightarrow> (ptr \<Rightarrow> nat) \<Rightarrow> Table \<Rightarrow> TValue \<Rightarrow> (TValue \<times> TValue) list res" where
  "traverse 0 sh t k = Inl ErrFuel"
| "traverse (Suc f) sh t k =
     bindr (luaH_next sh t k) (\<lambda>r. case r of
        None \<Rightarrow> Inr []
      | Some e \<Rightarrow> bindr (traverse f sh t (fst e)) (\<lambda>es. Inr (e # es)))"

lemma traverse_from:
  assumes inv: "tab_inv sh t" and na: "\<And>e. e \<in> set (entry_list t) \<Longrightarrow> no_alias t (fst e)"
    and split: "entry_list t = xs @ ys" and k: "k = (if xs = [] then TNil else fst (last xs))"
    and f: "length ys < f"
  shows "traverse f sh t k = Inr ys"
  using split k f
proof (induction ys arbitrary: f xs k)
  case Nil
  obtain g where g: "f = Suc g" using Nil.prems(3) by (cases f) auto
  have "luaH_next sh t k = Inr None"
  proof (cases xs rule: rev_cases)
    case Nil
    then show ?thesis using next_first [of sh t] \<open>entry_list t = xs @ []\<close> \<open>k = _\<close> by simp
  next
    case (snoc zs z)
    with Nil.prems(1) entry_list_at [of t zs z "[]"] obtain j where
      "j < sizearray t + length (t_node t)" "entry_at t j = z" "snd z \<noteq> TNil" "entries_from t (j + 1) = []" by auto
    with next_at [OF inv, of j] na [of z] Nil.prems(1,2) snoc show ?thesis by simp
  qed
  with g show ?case by simp
next
  case (Cons y ys)
  obtain g where g: "f = Suc g" "length ys < g" using Cons.prems(3) by (cases f) auto
  have "luaH_next sh t k = Inr (Some y)"
  proof (cases xs rule: rev_cases)
    case Nil
    then show ?thesis using next_first [of sh t] Cons.prems(1,2) by simp
  next
    case (snoc zs z)
    with Cons.prems(1) entry_list_at [of t zs z "y # ys"] obtain j where
      "j < sizearray t + length (t_node t)" "entry_at t j = z" "snd z \<noteq> TNil" "entries_from t (j + 1) = y # ys" by auto
    with next_at [OF inv, of j] na [of z] Cons.prems(1,2) snoc show ?thesis by simp
  qed
  moreover have "traverse g sh t (fst y) = Inr ys"
    by (rule Cons.IH [of "xs @ [y]"]) (use Cons.prems(1) g in simp_all)
  ultimately show ?case using g by simp
qed

text \<open>The entries are those of the table.\<close>

lemma entry_list_iff:
  assumes inv: "tab_inv sh t" and k: "live_key k"
  shows "tab_get t k = v \<and> v \<noteq> TNil \<longleftrightarrow> (\<exists>k0. (k0, v) \<in> set (entry_list t) \<and> luaO_rawequalObj k0 k)"
proof -
  have szt: "sizearray t < 2 ^ 31" using inv by (simp add: tab_inv_def)
  have ent: "v \<noteq> TNil \<and> tab_get t k0 = v" if es: "(k0, v) \<in> set (entry_list t)" for k0
  proof (cases "(k0, v) \<in> set (node_entries (t_node t))")
    case True
    then show ?thesis using node_entry_get [OF inv] by blast
  next
    case False
    with es obtain j where j: "j < sizearray t" "t_array t ! j = v" "v \<noteq> TNil"
      "k0 = TNumber (cast_num (int j + 1))"
      by (auto simp: entry_list_def array_entries_iff sizearray_def)
    then have ai: "arrayindex k0 = int j + 1" using szt by (simp add: arrayindex_cast)
    then have "in_array t k0" using j(1) by (simp add: in_array_def)
    with tab_get_array [OF this] ai j show ?thesis by simp
  qed
  have "\<exists>k0. (k0, tab_get t k) \<in> set (entry_list t) \<and> luaO_rawequalObj k0 k" if nn: "tab_get t k \<noteq> TNil"
  proof (cases "in_array t k")
    case True
    let ?i = "nat (arrayindex k - 1)"
    have i: "?i < sizearray t" "0 < arrayindex k" using True by (auto simp: in_array_def)
    have "(TNumber (cast_num (arrayindex k)), tab_get t k) \<in> set (array_entries (t_array t) 0)"
      unfolding array_entries_iff
      by (rule exI [of _ ?i]) (use i nn tab_get_array [OF True] in \<open>simp add: sizearray_def\<close>)
    moreover have "luaO_rawequalObj (TNumber (cast_num (arrayindex k))) k"
      using arrayindex_num_eq [of k "arrayindex k"] i by simp
    ultimately show ?thesis by (auto simp: entry_list_def)
  next
    case False
    from node_entry_ex [OF inv k this nn] show ?thesis by (auto simp: entry_list_def)
  qed
  then show ?thesis using ent tab_get_rawequal by metis
qed

text \<open>No key occurs twice.\<close>

lemma entries_from_filter:
  "entries_from t i = filter (\<lambda>e. snd e \<noteq> TNil) (map (entry_at t) [i..<sizearray t + length (t_node t)])"
proof (induction "sizearray t + length (t_node t) - i" arbitrary: i)
  case 0
  then show ?case using entries_from_end [of t i] by simp
next
  case (Suc n)
  then have i: "i < sizearray t + length (t_node t)" by simp
  have "entries_from t (i + 1) =
      filter (\<lambda>e. snd e \<noteq> TNil) (map (entry_at t) [i + 1..<sizearray t + length (t_node t)])"
    using Suc.hyps(1) [of "i + 1"] Suc.hyps(2) by simp
  with entries_from_step [OF i] i show ?case by (simp add: upt_conv_Cons)
qed

lemma entry_keys_distinct:
  assumes inv: "tab_inv sh t" and na: "\<And>e. e \<in> set (entry_list t) \<Longrightarrow> no_alias t (fst e)"
  shows "distinct (map fst (entry_list t))"
proof -
  let ?n = "sizearray t + length (t_node t)"
  let ?is = "filter (\<lambda>i. snd (entry_at t i) \<noteq> TNil) [0..<?n]"
  have el: "entry_list t = map (entry_at t) ?is"
    using entries_from_filter [of t 0] by (simp add: entries_from_0 filter_map o_def)
  have "inj_on (\<lambda>i. fst (entry_at t i)) (set ?is)"
  proof (rule inj_onI)
    have fi: "findindex sh t (fst (entry_at t i)) = Inr (int i)" if "i \<in> set ?is" for i
    proof -
      have "entry_at t i \<in> set (entry_list t)" unfolding el set_map by (rule imageI [OF that])
      then have "no_alias t (fst (entry_at t i))" by (rule na)
      moreover have "i < ?n" "snd (entry_at t i) \<noteq> TNil" using that by auto
      ultimately show ?thesis using entry_at_key [OF inv] by blast
    qed
    fix i j assume ij: "i \<in> set ?is" "j \<in> set ?is" "fst (entry_at t i) = fst (entry_at t j)"
    from fi [OF ij(1)] fi [OF ij(2)] have "Inr (int i) = (Inr (int j) :: int res)" unfolding ij(3) by simp
    then show "i = j" by simp
  qed
  then show ?thesis unfolding el by (simp add: distinct_map comp_def)
qed

section \<open>Length\<close>

definition int_key :: "nat \<Rightarrow> TValue" where
  "int_key i = TNumber (cast_num (int i))"

definition border :: "Table \<Rightarrow> nat \<Rightarrow> bool" where
  "border t n \<longleftrightarrow> (n = 0 \<or> tab_get t (int_key n) \<noteq> TNil) \<and> tab_get t (int_key (n + 1)) = TNil"

lemma bsearch_spec:
  assumes "\<And>m. i < m \<Longrightarrow> m < j \<Longrightarrow> isnil m = Inr (\<not> P m)" "i < j"
    and "i = 0 \<or> P i" "\<not> P j"
  shows "\<exists>n. bsearch isnil i j = Inr n \<and> i \<le> n \<and> n < j \<and> (n = 0 \<or> P n) \<and> \<not> P (n + 1)"
  using assms
proof (induction isnil i j rule: bsearch.induct)
  case (1 isnil i j)
  show ?case
  proof (cases "j - i > 1")
    case True
    let ?m = "(i + j) div 2"
    have m: "i < ?m" "?m < j" using True by auto
    have nil: "isnil ?m = Inr (\<not> P ?m)" using 1(3) m by blast
    show ?thesis
    proof (cases "P ?m")
      case P: True
      have "\<exists>n. bsearch isnil ?m j = Inr n \<and> ?m \<le> n \<and> n < j \<and> (n = 0 \<or> P n) \<and> \<not> P (n + 1)"
        by (rule 1(2) [OF True refl, of False]) (use 1(3-6) m P nil in auto)
      then show ?thesis using True nil P m by (subst bsearch.simps) (auto simp: Let_def)
    next
      case P: False
      have "\<exists>n. bsearch isnil i ?m = Inr n \<and> i \<le> n \<and> n < ?m \<and> (n = 0 \<or> P n) \<and> \<not> P (n + 1)"
        by (rule 1(1) [OF True refl, of True]) (use 1(3-6) m P nil in auto)
      then show ?thesis using True nil P m by (subst bsearch.simps) (auto simp: Let_def)
    qed
  next
    case False
    then have "j = i + 1" using 1(4) by simp
    then show ?thesis using 1(5,6) False by (subst bsearch.simps) auto
  qed
qed

lemma getnum_isnil_spec:
  assumes "tab_inv sh t" "m < 2 ^ 31"
  shows "getnum_isnil t m = Inr (tab_get t (int_key m) = TNil)"
  using luaH_getnum_spec [OF assms(1), of "int m"] assms(2)
  by (simp add: getnum_isnil_def tab_get_def int_key_def)

lemma int_key_array:
  assumes "0 < i" "i \<le> sizearray t" "sizearray t < 2 ^ 31"
  shows "tab_get t (int_key i) = t_array t ! (i - 1)"
proof -
  have ai: "arrayindex (int_key i) = int i" using assms by (simp add: int_key_def arrayindex_cast)
  then have "in_array t (int_key i)" using assms by (simp add: in_array_def)
  from tab_get_array [OF this] ai show ?thesis using assms(1) by (simp add: nat_diff_distrib)
qed

text \<open>Not all of the first \<open>sizearray + sizenode + 1\<close> indices have a value.\<close>

lemma int_key_inject: "i < 2 ^ 31 \<Longrightarrow> j < 2 ^ 31 \<Longrightarrow> luaO_rawequalObj k (int_key i) \<Longrightarrow> luaO_rawequalObj k (int_key j) \<Longrightarrow> i = j"
  using arrayindex_eq [of k "int_key i"] arrayindex_eq [of k "int_key j"]
  by (simp add: int_key_def arrayindex_cast)

lemma entries_bound: "length (entry_list t) \<le> sizearray t + length (t_node t)"
proof -
  have "length (array_entries vs i) \<le> length vs" for vs i by (induction vs i rule: array_entries.induct) auto
  then show ?thesis by (simp add: entry_list_def node_entries_def sizearray_def add_mono)
qed

lemma first_nil:
  assumes inv: "tab_inv sh t" and sz: "sizearray t + length (t_node t) + 1 < 2 ^ 31"
  shows "\<exists>i. 0 < i \<and> i \<le> sizearray t + length (t_node t) + 1 \<and> tab_get t (int_key i) = TNil"
proof (rule ccontr)
  let ?n = "sizearray t + length (t_node t) + 1"
  assume "\<not> ?thesis"
  then have all: "\<And>i. i \<in> {1..?n} \<Longrightarrow> tab_get t (int_key i) \<noteq> TNil" by force
  have "\<exists>e \<in> set (entry_list t). luaO_rawequalObj (fst e) (int_key i)" if "i \<in> {1..?n}" for i
  proof -
    have "live_key (int_key i)" by (simp add: int_key_def)
    with entry_list_iff [OF inv this, of "tab_get t (int_key i)"] all [OF that] show ?thesis by force
  qed
  then obtain g where g: "\<And>i. i \<in> {1..?n} \<Longrightarrow> g i \<in> set (entry_list t) \<and> luaO_rawequalObj (fst (g i)) (int_key i)"
    by metis
  have "inj_on g {1..?n}"
  proof (rule inj_onI)
    fix i j assume ij: "i \<in> {1..?n}" "j \<in> {1..?n}" "g i = g j"
    then have "luaO_rawequalObj (fst (g i)) (int_key i)" "luaO_rawequalObj (fst (g i)) (int_key j)"
      using g by metis+
    moreover have "i < 2 ^ 31" "j < 2 ^ 31" using ij sz by auto
    ultimately show "i = j" using int_key_inject by blast
  qed
  moreover have "g ` {1..?n} \<subseteq> set (entry_list t)" using g by blast
  ultimately have "card {1..?n} \<le> card (set (entry_list t))" by (metis card_image card_mono finite_set)
  also have "\<dots> \<le> length (entry_list t)" by (rule card_length)
  also have "\<dots> \<le> sizearray t + length (t_node t)" by (rule entries_bound)
  finally show False by simp
qed

lemma linear_search_spec:
  assumes inv: "tab_inv sh t" and stop: "i \<le> s" "s < 2 ^ 31" "tab_get t (int_key s) = TNil" "s < i + f"
    and i: "0 < i" "i = 1 \<or> tab_get t (int_key (i - 1)) \<noteq> TNil"
  shows "\<exists>n. linear_search f t i = Inr n \<and> border t n \<and> n \<le> s"
  using stop i
proof (induction f arbitrary: i)
  case (Suc f)
  have g: "getnum_isnil t i = Inr (tab_get t (int_key i) = TNil)" using getnum_isnil_spec [OF inv] Suc.prems by simp
  show ?case
  proof (cases "tab_get t (int_key i) = TNil")
    case True
    with g Suc.prems show ?thesis by (auto simp: border_def)
  next
    case False
    then have "i \<noteq> s" using Suc.prems by auto
    with Suc.IH [of "i + 1"] Suc.prems False g show ?thesis by simp
  qed
qed simp

lemma unbound_loop_spec:
  assumes inv: "tab_inv sh t" and sz: "sizearray t + length (t_node t) + 1 \<le> MAX_INT"
    and ij: "i < j" "j \<le> MAX_INT" "i = 0 \<or> tab_get t (int_key i) \<noteq> TNil" and f: "MAX_INT < j * 2 ^ f"
  shows "\<exists>n. unbound_loop (Suc f) t i j = Inr n \<and> border t n \<and> n \<le> MAX_INT"
  using ij f
proof (induction f arbitrary: i j)
  case 0
  then show ?case by simp
next
  case (Suc f)
  have j31: "j < 2 ^ 31" using Suc.prems(2) by (simp add: MAX_INT_def)
  have g: "getnum_isnil t j = Inr (tab_get t (int_key j) = TNil)" using getnum_isnil_spec [OF inv j31] .
  show ?case
  proof (cases "tab_get t (int_key j) = TNil")
    case True
    have "\<exists>n. bsearch (getnum_isnil t) i j = Inr n \<and> i \<le> n \<and> n < j \<and>
        (n = 0 \<or> tab_get t (int_key n) \<noteq> TNil) \<and> \<not> tab_get t (int_key (n + 1)) \<noteq> TNil"
      by (rule bsearch_spec) (use getnum_isnil_spec [OF inv] Suc.prems True j31 in auto)
    with g True Suc.prems(2) show ?thesis by (auto simp: border_def)
  next
    case False
    have w: "(j * 2) mod 2 ^ 32 = j * 2" using j31 by simp
    show ?thesis
    proof (cases "MAX_INT < j * 2")
      case True
      have sz': "sizearray t + length (t_node t) + 1 < 2 ^ 31" using sz by (simp add: MAX_INT_def)
      from first_nil [OF inv this] obtain s where
        s: "0 < s" "s \<le> sizearray t + length (t_node t) + 1" "tab_get t (int_key s) = TNil" by blast
      have "\<exists>n. linear_search (sizearray t + length (t_node t) + 2) t 1 = Inr n \<and> border t n \<and> n \<le> s"
        by (rule linear_search_spec [OF inv _ _ s(3)]) (use s sz' in simp_all)
      with g False True w s(2) sz show ?thesis by auto
    next
      case small: False
      have "\<exists>n. unbound_loop (Suc f) t j (j * 2) = Inr n \<and> border t n \<and> n \<le> MAX_INT"
        by (rule Suc.IH) (use Suc.prems small False in auto)
      moreover have "unbound_loop (Suc (Suc f)) t i j = unbound_loop (Suc f) t j (j * 2)"
        unfolding unbound_loop.simps(2) [of "Suc f"] g w using False small by simp
      ultimately show ?thesis by simp
    qed
  qed
qed

lemma luaH_getn_border:
  assumes inv: "tab_inv sh t" and sz: "sizearray t \<le> MAXASIZE"
  shows "\<exists>n. luaH_getn t = Inr n \<and> border t n \<and> n \<le> MAX_INT"
proof -
  have sz31: "sizearray t < 2 ^ 31" using inv by (simp add: tab_inv_def)
  have mx: "MAXASIZE = 67108864" by (simp add: MAXASIZE_def MAXBITS_def)
  let ?j = "sizearray t"
  have top: "?j = 0 \<or> tab_get t (int_key ?j) = t_array t ! (?j - 1)" using int_key_array [of ?j t] sz31 by auto
  show ?thesis
  proof (cases "0 < ?j \<and> t_array t ! (?j - 1) = TNil")
    case True
    have "\<exists>n. bsearch (\<lambda>m. Inr (t_array t ! (m - 1) = TNil)) 0 ?j = Inr n \<and> 0 \<le> n \<and> n < ?j \<and>
        (n = 0 \<or> t_array t ! (n - 1) \<noteq> TNil) \<and> \<not> t_array t ! (n + 1 - 1) \<noteq> TNil"
      by (rule bsearch_spec) (use True in auto)
    then obtain n where n: "bsearch (\<lambda>m. Inr (t_array t ! (m - 1) = TNil)) 0 ?j = Inr n" "n < ?j"
      "n = 0 \<or> t_array t ! (n - 1) \<noteq> TNil" "t_array t ! n = TNil" by auto
    then have "border t n" using int_key_array [of n t] int_key_array [of "n + 1" t] sz31
      by (auto simp: border_def)
    with n True sz mx show ?thesis by (simp add: luaH_getn_def MAX_INT_def Let_def)
  next
    case notarr: False
    then have pres: "?j = 0 \<or> tab_get t (int_key ?j) \<noteq> TNil" using top by auto
    show ?thesis
    proof (cases "t_isdummy t")
      case True
      have k: "arrayindex (int_key (?j + 1)) = int (?j + 1)" using sz mx by (simp add: int_key_def arrayindex_cast)
      then have "\<not> in_array t (int_key (?j + 1))" by (simp add: in_array_def)
      moreover have "t_node t = [nilnode]" using inv True by (simp add: tab_inv_def)
      ultimately have "tab_get t (int_key (?j + 1)) = TNil"
        by (intro tab_get_none) (auto simp: nilnode_def int_key_def)
      with pres True notarr show ?thesis using sz mx by (auto simp: luaH_getn_def border_def MAX_INT_def Let_def)
    next
      case False
      have len: "length (t_node t) \<le> MAXASIZE" using inv by (simp add: tab_inv_def nodes_ok_def MAXASIZE_def)
      have j1: "(?j + 1) mod 2 ^ 32 = ?j + 1" "?j + 1 \<le> MAX_INT" using sz mx by (simp_all add: MAX_INT_def)
      have "MAX_INT < (?j + 1) * 2 ^ 32" by (simp add: MAX_INT_def)
      then have "\<exists>n. unbound_loop (Suc 32) t ?j (?j + 1) = Inr n \<and> border t n \<and> n \<le> MAX_INT"
        by (intro unbound_loop_spec [OF inv]) (use sz len mx pres j1(2) in \<open>simp_all add: MAX_INT_def\<close>)
      then show ?thesis using False
        unfolding luaH_getn_def Let_def unbound_search_def j1(1) if_not_P [OF notarr] by simp
    qed
  qed
qed

end
