(* ===== verification/LuaRaw.thy ===== *)
theory LuaRaw
  imports LuaTableIter
begin

text \<open>
  Tables as their clients see them: the raw accesses of the API (lapi.c), the contract of a table
  with integer keys, and the references of lauxlib.c (\<open>luaL_ref\<close>, \<open>luaL_unref\<close>), which
  rest on that contract. Holds the properties of the table operations.
\<close>

section \<open>Raw accesses\<close>

definition lua_rawget :: "(ptr \<Rightarrow> nat) \<Rightarrow> Table \<Rightarrow> TValue \<Rightarrow> TValue res" where
  "lua_rawget sh t k = bindr (luaH_get sh t k) (\<lambda>s. Inr (slot_val t s))"

definition lua_rawgeti :: "Table \<Rightarrow> int \<Rightarrow> TValue res" where
  "lua_rawgeti t n = bindr (luaH_getnum t n) (\<lambda>s. Inr (slot_val t s))"

definition lua_rawset :: "(ptr \<Rightarrow> nat) \<Rightarrow> Table \<Rightarrow> TValue \<Rightarrow> TValue \<Rightarrow> Table res" where
  "lua_rawset sh t k v = store (luaH_set sh t k) v"

definition lua_rawseti :: "(ptr \<Rightarrow> nat) \<Rightarrow> Table \<Rightarrow> int \<Rightarrow> TValue \<Rightarrow> Table res" where
  "lua_rawseti sh t n v = store (luaH_setnum sh t n) v"

section \<open>Setting\<close>

definition tab_ok :: "(ptr \<Rightarrow> nat) \<Rightarrow> Table \<Rightarrow> bool" where
  "tab_ok sh t \<longleftrightarrow> tab_inv sh t \<and> sizearray t \<le> MAXASIZE"

lemma found_self:
  "tab_ok sh t \<Longrightarrow> tab_slot t k \<noteq> SNil \<Longrightarrow> found sh t k (Inr (t, tab_slot t k))"
  by (auto simp: found_def tab_ok_def)

lemma found_flags: "found sh (t\<lparr>t_flags := f\<rparr>) k r \<longleftrightarrow> found sh t k r"
  by (simp add: found_def)

lemma overflows_flags: "overflows (t\<lparr>t_flags := f\<rparr>) r \<longleftrightarrow> overflows t r"
  by (simp add: overflows_def entries_def)

lemma luaH_set_spec:
  assumes "tab_ok sh t" "live_key k" "\<not> is_nan_value k"
  shows "overflows t (luaH_set sh t k) \<or> found sh t k (luaH_set sh t k)"
proof -
  let ?t = "t\<lparr>t_flags := 0\<rparr>"
  have ok: "tab_ok sh ?t" using assms(1) by (simp add: tab_ok_def sizearray_def)
  have "k \<noteq> TNil" using assms(2) by auto
  with assms have eq: "luaH_set sh t k = (if tab_slot ?t k \<noteq> SNil then Inr (?t, tab_slot ?t k) else newkey sh ?t k)"
    by (simp add: luaH_set_def luaH_set_with_def luaH_get_spec tab_ok_def Let_def)
  show ?thesis
  proof (cases "tab_slot ?t k = SNil")
    case True
    with newkey_spec [of sh ?t k] ok assms(2,3) eq show ?thesis
      by (simp add: tab_ok_def found_flags overflows_flags)
  next
    case False
    then show ?thesis unfolding eq using found_self [OF ok False] by (simp add: found_flags)
  qed
qed

lemma luaH_setnum_spec:
  assumes "tab_ok sh t" "- (2 ^ 31) \<le> n" "n < 2 ^ 31"
  shows "overflows t (luaH_setnum sh t n) \<or> found sh t (TNumber (cast_num n)) (luaH_setnum sh t n)"
proof -
  let ?k = "TNumber (cast_num n)"
  have nan: "\<not> is_nan_value ?k"
    using assms(2,3) by (simp add: is_nan_value_def luai_numisnan_iff cast_num_parts)
  have eq: "luaH_setnum sh t n = (if tab_slot t ?k \<noteq> SNil then Inr (t, tab_slot t ?k) else newkey sh t ?k)"
    using luaH_getnum_spec [of sh t n] assms by (simp add: luaH_setnum_def luaH_setnum_with_def tab_ok_def)
  show ?thesis
  proof (cases "tab_slot t ?k = SNil")
    case True
    with newkey_spec [of sh t ?k] assms nan eq show ?thesis by (simp add: tab_ok_def)
  next
    case False
    then show ?thesis unfolding eq using found_self [OF assms(1) False] by simp
  qed
qed

lemma luaH_setstr_spec:
  assumes "tab_ok sh t"
  shows "overflows t (luaH_setstr sh t p) \<or> found sh t (TStr p) (luaH_setstr sh t p)"
proof -
  have eq: "luaH_setstr sh t p = (if tab_slot t (TStr p) \<noteq> SNil then Inr (t, tab_slot t (TStr p)) else newkey sh t (TStr p))"
    using assms by (simp add: luaH_setstr_def luaH_getstr_spec tab_ok_def)
  show ?thesis
  proof (cases "tab_slot t (TStr p) = SNil")
    case True
    with newkey_spec [of sh t "TStr p"] assms eq show ?thesis by (simp add: tab_ok_def is_nan_value_def)
  next
    case False
    then show ?thesis unfolding eq using found_self [OF assms False] by simp
  qed
qed

lemma store_found:
  assumes "found sh t k r" "live_key k"
  shows "\<exists>t'. store r v = Inr t' \<and> tab_ok sh t' \<and>
    (\<forall>k'. live_key k' \<longrightarrow> tab_get t' k' = (if luaO_rawequalObj k k' then v else tab_get t k'))"
proof -
  from assms(1) obtain t1 where t1: "r = Inr (t1, tab_slot t1 k)" "tab_inv sh t1" "sizearray t1 \<le> MAXASIZE"
    "tab_slot t1 k \<noteq> SNil" "\<And>k'. live_key k' \<Longrightarrow> tab_get t1 k' = tab_get t k'" unfolding found_def by blast
  have "tab_inv sh (slot_write t1 (tab_slot t1 k) v)"
    using write_inv [OF t1(2) refl assms(2)] dummy_no_node [OF t1(2)] by blast
  with t1 write_get [OF t1(2) assms(2) t1(4)] show ?thesis
    by (simp add: store_def tab_ok_def write_frame)
qed

lemma store_overflows: "overflows t r \<Longrightarrow> store r v = Inl (ErrRun ''table overflow'') \<and> 2 ^ MAXBITS < entries t + 1"
  by (simp add: overflows_def store_def)

section \<open>New tables\<close>

lemma luaH_new_spec:
  assumes "narray < 2 ^ 31" "nhash \<le> 2 ^ MAXBITS"
  shows "\<exists>t. luaH_new narray nhash = Inr t \<and> fresh sh t \<and> t_array t = replicate narray TNil \<and> nhash \<le> sizenode t"
proof -
  let ?t = "\<lparr>t_flags = - 1, t_lsizenode = 0, t_metatable = 0, t_array = [],
      t_node = [nilnode], t_isdummy = True, t_lastfree = 0\<rparr>"
  have arr: "t_array (setarrayvector ?t narray) = replicate narray TNil"
    by (simp add: setarrayvector_def sizearray_def)
  then have "sizearray (setarrayvector ?t narray) < 2 ^ 31" using assms(1) by (simp add: sizearray_def)
  from setnodevector_fresh [OF this assms(2), of sh] obtain t where
    t: "setnodevector (setarrayvector ?t narray) nhash = Inr t" "fresh sh t"
      "t_array t = t_array (setarrayvector ?t narray)" "nhash \<le> length (t_node t)" by blast
  have "length (t_node t) = 2 ^ t_lsizenode t" using t(2) by (simp add: fresh_def tab_inv_def nodes_ok_def)
  with t arr show ?thesis by (simp add: luaH_new_def sizenode_def Let_def)
qed

lemma fresh_empty:
  assumes "fresh sh t" "t_array t = replicate n TNil" "live_key k"
  shows "tab_get t k = TNil"
  using fresh_get [OF assms(1,3)] assms(2) by (auto simp: in_array_def sizearray_def)

section \<open>Raw accesses are those of a map\<close>

lemma rawget_spec: "tab_ok sh t \<Longrightarrow> live_key k \<Longrightarrow> lua_rawget sh t k = Inr (tab_get t k)"
  by (simp add: lua_rawget_def luaH_get_spec tab_ok_def tab_get_def)

lemma rawgeti_spec:
  assumes "tab_ok sh t" "- (2 ^ 31) \<le> n" "n < 2 ^ 31"
  shows "lua_rawgeti t n = Inr (tab_get t (TNumber (cast_num n)))"
  using luaH_getnum_spec [of sh t n] assms by (simp add: lua_rawgeti_def tab_ok_def tab_get_def)

lemma rawset_cases:
  assumes "tab_ok sh t" "live_key k" "\<not> is_nan_value k"
  shows "lua_rawset sh t k v = Inl (ErrRun ''table overflow'') \<and> 2 ^ MAXBITS < entries t + 1 \<or>
    (\<exists>t'. lua_rawset sh t k v = Inr t' \<and> tab_ok sh t' \<and>
      (\<forall>k'. live_key k' \<longrightarrow> tab_get t' k' = (if luaO_rawequalObj k k' then v else tab_get t k')))"
  using luaH_set_spec [OF assms] store_found [OF _ assms(2)] store_overflows
  unfolding lua_rawset_def by metis

lemma rawseti_cases:
  assumes "tab_ok sh t" "- (2 ^ 31) \<le> n" "n < 2 ^ 31"
  shows "lua_rawseti sh t n v = Inl (ErrRun ''table overflow'') \<and> 2 ^ MAXBITS < entries t + 1 \<or>
    (\<exists>t'. lua_rawseti sh t n v = Inr t' \<and> tab_ok sh t' \<and>
      (\<forall>k'. live_key k' \<longrightarrow> tab_get t' k' = (if luaO_rawequalObj (TNumber (cast_num n)) k' then v else tab_get t k')))"
  using luaH_setnum_spec [OF assms] store_found [of sh t "TNumber (cast_num n)"] store_overflows
  unfolding lua_rawseti_def by (metis live_key_simps(3))

text \<open>The empty table of \<open>luaH_new(L, 0, 0)\<close>, for the examples.\<close>

definition empty_table :: Table where
  "empty_table = \<lparr>t_flags = - 1, t_lsizenode = 0, t_metatable = 0, t_array = [],
     t_node = [nilnode], t_isdummy = True, t_lastfree = 0\<rparr>"

lemma empty_table_new: "luaH_new 0 0 = Inr empty_table"
  by (simp add: luaH_new_def setarrayvector_def setnodevector_def empty_table_def sizearray_def Let_def)

lemma empty_table_fresh: "fresh sh empty_table"
  using luaH_new_spec [of 0 0 sh] by (simp add: empty_table_new)

lemma empty_table_ok: "tab_ok sh empty_table"
  using empty_table_fresh [of sh] by (simp add: fresh_def tab_ok_def empty_table_def sizearray_def)

text \<open>
  C1: writing a table and reading it back: a raw set either fails with "table overflow" on a table
  of at least 2^26 entries, or gives a well-formed table in which a raw get of an equal key gives
  the value written and every other key gives what it gave before.
\<close>

theorem rawset_rawget:
  assumes "tab_ok sh t" "live_key k" "\<not> is_nan_value k"
  shows "case lua_rawset sh t k v of
      Inl e \<Rightarrow> e = ErrRun ''table overflow'' \<and> 2 ^ 26 \<le> entries t
    | Inr t' \<Rightarrow> tab_ok sh t' \<and>
        (\<forall>k'. live_key k' \<longrightarrow>
           lua_rawget sh t' k' = (if luaO_rawequalObj k k' then Inr v else lua_rawget sh t k'))"
  using rawset_cases [OF assms, of v] rawget_spec assms(1) by (auto simp: MAXBITS_def)

lemma rawset_rawget_witness:
  "case lua_rawset (\<lambda>p. unat p) empty_table (TStr 5) (TNumber 1) of
      Inl e \<Rightarrow> e = ErrRun ''table overflow'' \<and> 2 ^ 26 \<le> entries empty_table
    | Inr t' \<Rightarrow> tab_ok (\<lambda>p. unat p) t' \<and>
        (\<forall>k'. live_key k' \<longrightarrow> lua_rawget (\<lambda>p. unat p) t' k' =
           (if luaO_rawequalObj (TStr 5) k' then Inr (TNumber 1) else lua_rawget (\<lambda>p. unat p) empty_table k'))"
  by (rule rawset_rawget [OF empty_table_ok]) (simp_all add: is_nan_value_def)

lemma nan_slot:
  assumes "luai_numisnan n"
  shows "tab_slot t (TNumber n) = SNil"
proof -
  have no: "\<not> luaO_rawequalObj k (TNumber n)" for k
    using assms by (cases k) (simp_all add: num_eq_def luai_numisnan_iff)
  have "\<not> num_eq x n" for x using assms by (simp add: num_eq_def luai_numisnan_iff)
  then have "arrayindex (TNumber n) = - 1" by (simp add: arrayindex_def Let_def)
  then show ?thesis
    by (cases rule: tab_slot_cases [of t "TNumber n"]) (use no in \<open>auto simp: in_array_def\<close>)
qed

text \<open>
  C17: \<open>luaH_set\<close> refuses the keys nil and NaN with the errors of the source, on every
  well-formed table.
\<close>

theorem luaH_set_bad_keys:
  assumes "tab_ok sh t" "luai_numisnan n"
  shows "luaH_set sh t TNil = Inl (ErrRun ''table index is nil'') \<and>
    luaH_set sh t (TNumber n) = Inl (ErrRun ''table index is NaN'')"
  using assms luaH_get_spec [of sh t "TNumber n"] nan_slot
  by (simp add: luaH_set_def luaH_set_with_def luaH_get_def tab_ok_def is_nan_value_def Let_def)

lemma luaH_set_bad_keys_witness:
  "luaH_set (\<lambda>p. unat p) empty_table TNil = Inl (ErrRun ''table index is nil'') \<and>
   luaH_set (\<lambda>p. unat p) empty_table (TNumber 0x7FF8000000000000) = Inl (ErrRun ''table index is NaN'')"
  by (rule luaH_set_bad_keys [OF empty_table_ok])
    (simp add: luai_numisnan_iff num_isnan_def num_mag_def mag_inf_def)

text \<open>The specialised lookups agree with the generic one: \<open>luaH_getnum\<close> on an integer is
  \<open>luaH_get\<close> on the number of that integer, and \<open>luaH_getstr\<close> is \<open>luaH_get\<close> on the string.
\<close>

theorem getnum_getstr_agree:
  assumes "tab_ok sh t" "- (2 ^ 31) \<le> n" "n < 2 ^ 31"
  shows "luaH_getnum t n = luaH_get sh t (TNumber (cast_num n)) \<and>
    luaH_getstr sh t p = luaH_get sh t (TStr p)"
  using assms luaH_getnum_spec [of sh t n] luaH_get_spec [of sh t "TNumber (cast_num n)"]
  by (simp add: tab_ok_def luaH_getstr_spec luaH_get_spec)

lemma getnum_getstr_agree_witness:
  "luaH_getnum empty_table 7 = luaH_get (\<lambda>p. unat p) empty_table (TNumber (cast_num 7)) \<and>
    luaH_getstr (\<lambda>p. unat p) empty_table 9 = luaH_get (\<lambda>p. unat p) empty_table (TStr 9)"
  by (rule getnum_getstr_agree [OF empty_table_ok]) simp_all

section \<open>Sizes\<close>

lemma node_count: "tab_inv sh t \<Longrightarrow> length (t_node t) = sizenode t"
  by (simp add: tab_inv_def nodes_ok_def sizenode_def)

text \<open>
  C11: a rehash for a key that is not in the table keeps every entry, makes the array part the
  largest power of two with more than half of its indices in use (the new key counted), and
  leaves room for the new key: its cell is in the array part, or a node is free.
\<close>

theorem rehash_keeps:
  assumes "tab_ok sh t" "live_key k" "tab_slot t k = SNil"
  shows "case rehash sh t k of
      Inl e \<Rightarrow> e = ErrRun ''table overflow'' \<and> 2 ^ 26 \<le> entries t
    | Inr t' \<Rightarrow> tab_ok sh t' \<and> best_size (rehash_keys t k) (sizearray t') \<and>
        (in_array t' k \<or> \<not> t_isdummy t' \<and> used (t_node t') < sizenode t') \<and>
        (\<forall>k'. live_key k' \<longrightarrow> luaH_get sh t' k' = Inr (tab_slot t' k') \<and> tab_get t' k' = tab_get t k')"
proof -
  have "good_newkey sh (newkey sh)" using newkey_f_good [of sh 1] by (simp add: newkey_def numeral_2_eq_2)
  from rehash_with_spec [OF this _ _ assms(2,3)] assms(1) show ?thesis
    by (auto simp: rehash_def tab_ok_def MAXBITS_def luaH_get_spec node_count)
qed

lemma rehash_keeps_witness:
  "case rehash (\<lambda>p. unat p) empty_table (TStr 5) of
      Inl e \<Rightarrow> e = ErrRun ''table overflow'' \<and> 2 ^ 26 \<le> entries empty_table
    | Inr t' \<Rightarrow> tab_ok (\<lambda>p. unat p) t' \<and> best_size (rehash_keys empty_table (TStr 5)) (sizearray t') \<and>
        (in_array t' (TStr 5) \<or> \<not> t_isdummy t' \<and> used (t_node t') < sizenode t') \<and>
        (\<forall>k'. live_key k' \<longrightarrow>
           luaH_get (\<lambda>p. unat p) t' k' = Inr (tab_slot t' k') \<and> tab_get t' k' = tab_get empty_table k')"
  by (rule rehash_keeps [OF empty_table_ok]) (simp, code_simp)

text \<open>Growing the array part (OP_SETLIST) never fails, gives the size asked for and keeps every
  entry.
\<close>

theorem luaH_resizearray_keeps:
  assumes "tab_ok sh t" "sizearray t \<le> n" "n < 2 ^ 31"
  shows "\<exists>t'. luaH_resizearray sh t n = Inr t' \<and> tab_inv sh t' \<and> sizearray t' = n \<and>
    (\<forall>k. live_key k \<longrightarrow> tab_get t' k = tab_get t k)"
proof -
  let ?nh = "if t_isdummy t then 0 else sizenode t"
  have inv: "tab_inv sh t" using assms(1) by (simp add: tab_ok_def)
  have "good_newkey sh (newkey sh)" using newkey_f_good [of sh 1] by (simp add: newkey_def numeral_2_eq_2)
  moreover have "hash_need t n \<le> ?nh"
  proof (cases "t_isdummy t")
    case True
    then have "t_node t = [nilnode]" using inv by (simp add: tab_inv_def)
    then show ?thesis using assms(2) True by (simp add: hash_need_def sizearray_def nilnode_def)
  next
    case False
    have "hash_need t n \<le> length (t_node t)" using assms(2) by (simp add: hash_need_def sizearray_def)
    then show ?thesis using False node_count [OF inv] by simp
  qed
  moreover have "?nh \<le> 2 ^ MAXBITS" using inv by (simp add: tab_inv_def sizenode_def)
  ultimately show ?thesis using resize_with_spec [OF _ inv assms(3), of "newkey sh" ?nh]
    by (auto simp: luaH_resizearray_def resize_def)
qed

lemma luaH_resizearray_keeps_witness:
  "\<exists>t'. luaH_resizearray (\<lambda>p. unat p) empty_table 50 = Inr t' \<and> tab_inv (\<lambda>p. unat p) t' \<and> sizearray t' = 50 \<and>
    (\<forall>k. live_key k \<longrightarrow> tab_get t' k = tab_get empty_table k)"
  by (rule luaH_resizearray_keeps [OF empty_table_ok]) (simp_all add: empty_table_def sizearray_def)

text \<open>
  A new table is well formed and empty: every lookup gives nil, its array part has the size
  asked for, and the node vector at least that many nodes.
\<close>

theorem luaH_new_empty:
  assumes "narray \<le> 2 ^ 26" "nhash \<le> 2 ^ 26"
  shows "\<exists>t. luaH_new narray nhash = Inr t \<and> tab_ok sh t \<and> sizearray t = narray \<and> nhash \<le> sizenode t \<and>
    (\<forall>k. live_key k \<longrightarrow> lua_rawget sh t k = Inr TNil)"
proof -
  from luaH_new_spec [of narray nhash sh] assms obtain t where
    t: "luaH_new narray nhash = Inr t" "fresh sh t" "t_array t = replicate narray TNil" "nhash \<le> sizenode t"
    by (auto simp: MAXBITS_def)
  have ok: "tab_ok sh t" using t assms(1) by (simp add: tab_ok_def fresh_def sizearray_def MAXASIZE_def MAXBITS_def)
  with t fresh_empty [OF t(2,3)] rawget_spec [OF ok] show ?thesis by (simp add: sizearray_def)
qed

lemma luaH_new_empty_witness:
  "\<exists>t. luaH_new 4 3 = Inr t \<and> tab_ok (\<lambda>p. unat p) t \<and> sizearray t = 4 \<and> 3 \<le> sizenode t \<and>
    (\<forall>k. live_key k \<longrightarrow> lua_rawget (\<lambda>p. unat p) t k = Inr TNil)"
  by (rule luaH_new_empty) simp_all

section \<open>Traversal and length\<close>

text \<open>
  C12: a traversal with \<open>luaH_next\<close> from nil visits each entry exactly once and then ends: the
  list it gives has no key twice, and a key is in it with a value exactly when a lookup of that
  key gives that value and it is not nil. (A dead key must not hold the pointer of a live one.)
\<close>

theorem luaH_next_traversal:
  assumes "tab_ok sh t" "\<forall>e \<in> set (entry_list t). no_alias t (fst e)"
  shows "\<exists>es. traverse (length es + 1) sh t TNil = Inr es \<and> distinct (map fst es) \<and>
    (\<forall>k v. live_key k \<longrightarrow>
       (lua_rawget sh t k = Inr v \<and> v \<noteq> TNil \<longleftrightarrow> (\<exists>k0. (k0, v) \<in> set es \<and> luaO_rawequalObj k0 k)))"
proof (intro exI conjI allI impI)
  have inv: "tab_inv sh t" using assms(1) by (simp add: tab_ok_def)
  show "traverse (length (entry_list t) + 1) sh t TNil = Inr (entry_list t)"
    by (rule traverse_from [OF inv, of "[]"]) (use assms(2) in auto)
  show "distinct (map fst (entry_list t))" by (rule entry_keys_distinct [OF inv]) (use assms(2) in auto)
  show "lua_rawget sh t k = Inr v \<and> v \<noteq> TNil \<longleftrightarrow> (\<exists>k0. (k0, v) \<in> set (entry_list t) \<and> luaO_rawequalObj k0 k)"
    if "live_key k" for k v
    using entry_list_iff [OF inv that] rawget_spec [OF assms(1) that] by simp
qed

text \<open>The example table: two cells, one of them nil, and one node with a string key.\<close>

definition ex_table :: Table where
  "ex_table = empty_table\<lparr>t_array := [TBool True, TNil],
     t_node := [\<lparr>gval = TNumber 0, gkey = TStr 8, gnext = None\<rparr>], t_isdummy := False, t_lastfree := 0\<rparr>"

lemma ex_table_ok: "tab_ok (\<lambda>p. unat p) ex_table"
proof -
  have "nodes_ok (\<lambda>p. unat p) 0 [\<lparr>gval = TNumber 0, gkey = TStr 8, gnext = None\<rparr>]"
    using mainposition_lt [of "\<lambda>p. unat p" 0 "TStr 8"]
    by (intro nodes_okI) (auto simp: chain_Some is_nan_value_def)
  then show ?thesis
    by (simp add: ex_table_def empty_table_def tab_ok_def tab_inv_def sizearray_def MAXASIZE_def MAXBITS_def
        arrayindex_def)
qed

lemma luaH_next_traversal_witness:
  "\<exists>es. traverse (length es + 1) (\<lambda>p. unat p) ex_table TNil = Inr es \<and> distinct (map fst es) \<and>
    (\<forall>k v. live_key k \<longrightarrow>
       (lua_rawget (\<lambda>p. unat p) ex_table k = Inr v \<and> v \<noteq> TNil \<longleftrightarrow> (\<exists>k0. (k0, v) \<in> set es \<and> luaO_rawequalObj k0 k)))"
  by (rule luaH_next_traversal [OF ex_table_ok])
    (simp add: entry_list_def node_entries_def ex_table_def no_alias_def)

text \<open>
  C13: the length of a table is a border: \<open>luaH_getn\<close> always returns, with an \<open>n\<close> whose
  element is present (or 0) and whose successor is nil.
\<close>

theorem luaH_getn_is_border:
  assumes "tab_ok sh t"
  shows "\<exists>n. luaH_getn t = Inr n \<and> (n = 0 \<or> lua_rawgeti t (int n) \<noteq> Inr TNil) \<and>
    lua_rawgeti t (int n + 1) = Inr TNil"
proof -
  from luaH_getn_border [of sh t] assms obtain n where n: "luaH_getn t = Inr n" "border t n" "n \<le> MAX_INT"
    by (auto simp: tab_ok_def)
  have "int n < 2 ^ 31 - 1" using n(3) by (simp add: MAX_INT_def)
  with n rawgeti_spec [OF assms, of "int n"] rawgeti_spec [OF assms, of "int n + 1"] show ?thesis
    by (auto simp: border_def int_key_def add.commute)
qed

lemma luaH_getn_is_border_witness:
  "\<exists>n. luaH_getn ex_table = Inr n \<and> (n = 0 \<or> lua_rawgeti ex_table (int n) \<noteq> Inr TNil) \<and>
    lua_rawgeti ex_table (int n + 1) = Inr TNil"
  by (rule luaH_getn_is_border [OF ex_table_ok])

end
