(* ===== verification/LuaAux.thy ===== *)
theory LuaAux
  imports LuaObject
begin

text \<open>
  What a C function of the standard libraries sees: its arguments (lapi.c), their conversions
  (lvm.c, lobject.c) and the argument checks of lauxlib.c with their error messages. Arguments are a
  list of values; an index past its end is \<open>LUA_TNONE\<close>.
\<close>

section \<open>The surroundings of a library function\<close>

text \<open>
  What the checks take from outside the modelled code: the contents of the string objects, the C
  library's \<open>strtod\<close> and \<open>strtoul(s, \<dots>, 16)\<close> (each with the number of characters it used)
  and \<open>sprintf\<close> with the format \<open>"%.14g"\<close>, and what the debug interface answers: the name of the
  running function with its kind (\<open>lua_getinfo(L, "n", \<dots>)\<close> at level 0, when there is such a level) and the
  source and line of the level 1.
\<close>

record lib_env =
  svalue :: "ptr \<Rightarrow> string"
  strtod :: "string \<Rightarrow> lua_Number \<times> nat"
  strtoul16 :: "string \<Rightarrow> nat \<times> nat"
  number2str :: "lua_Number \<Rightarrow> string"
  ar_name :: "(string option \<times> string) option"
  ar_line :: "(string \<times> int) option"

section \<open>Conversions\<close>

text \<open>\<open>isspace\<close> and the like in the C locale.\<close>

definition code :: "char \<Rightarrow> nat" where
  "code c = of_char c"

definition isspace :: "char \<Rightarrow> bool" where
  "isspace c \<longleftrightarrow> code c = 32 \<or> 9 \<le> code c \<and> code c \<le> 13"

definition luaO_str2d :: "lib_env \<Rightarrow> string \<Rightarrow> lua_Number option" where
  "luaO_str2d E s0 =
     (let s = takeWhile (\<lambda>c. c \<noteq> CHR 0x00) s0;
          (r, e) = strtod E s in
      if e = 0 then None
      else
        (let (r, e) = (if e < length s \<and> (s ! e = CHR ''x'' \<or> s ! e = CHR ''X'')
                       then (case strtoul16 E s of (n, e) \<Rightarrow> (cast_num (int n), e)) else (r, e)) in
         if e = length s then Some r
         else if dropWhile isspace (drop e s) \<noteq> [] then None else Some r))"

definition luaV_tonumber :: "lib_env \<Rightarrow> TValue \<Rightarrow> lua_Number option" where
  "luaV_tonumber E obj =
     (case obj of
        TNumber n \<Rightarrow> Some n
      | TStr p \<Rightarrow> luaO_str2d E (svalue E p)
      | _ \<Rightarrow> None)"

text \<open>\<open>luaV_tostring\<close> overwrites a number with the string; here it gives the characters.\<close>

definition luaV_tostring :: "lib_env \<Rightarrow> TValue \<Rightarrow> string option" where
  "luaV_tostring E obj = (case obj of TNumber n \<Rightarrow> Some (number2str E n) | _ \<Rightarrow> None)"

section \<open>Access to the arguments\<close>

definition LUA_TNONE :: int where "LUA_TNONE = - 1"

definition index2adr :: "TValue list \<Rightarrow> nat \<Rightarrow> TValue option" where
  "index2adr args i = (if 1 \<le> i \<and> i \<le> length args then Some (args ! (i - 1)) else None)"

definition arg_value :: "TValue list \<Rightarrow> nat \<Rightarrow> TValue" where
  "arg_value args i = (case index2adr args i of Some v \<Rightarrow> v | None \<Rightarrow> luaO_nilobject)"

definition lua_type :: "TValue list \<Rightarrow> nat \<Rightarrow> int" where
  "lua_type args i = (case index2adr args i of Some v \<Rightarrow> int (ttype v) | None \<Rightarrow> LUA_TNONE)"

definition lua_isnoneornil :: "TValue list \<Rightarrow> nat \<Rightarrow> bool" where
  "lua_isnoneornil args i \<longleftrightarrow> lua_type args i \<le> 0"

definition luaT_typenames :: "string list" where
  "luaT_typenames = [''nil'', ''boolean'', ''userdata'', ''number'', ''string'', ''table'', ''function'',
     ''userdata'', ''thread'', ''proto'', ''upval'']"

definition lua_typename :: "int \<Rightarrow> string" where
  "lua_typename t = (if t = LUA_TNONE then ''no value'' else luaT_typenames ! nat t)"

definition luaL_typename :: "TValue list \<Rightarrow> nat \<Rightarrow> string" where
  "luaL_typename args i = lua_typename (lua_type args i)"

definition lua_isnumber :: "lib_env \<Rightarrow> TValue list \<Rightarrow> nat \<Rightarrow> bool" where
  "lua_isnumber E args i \<longleftrightarrow> luaV_tonumber E (arg_value args i) \<noteq> None"

definition lua_isstring :: "TValue list \<Rightarrow> nat \<Rightarrow> bool" where
  "lua_isstring args i \<longleftrightarrow> lua_type args i = int LUA_TSTRING \<or> lua_type args i = int LUA_TNUMBER"

definition lua_tonumber :: "lib_env \<Rightarrow> TValue list \<Rightarrow> nat \<Rightarrow> lua_Number" where
  "lua_tonumber E args i =
     (case luaV_tonumber E (arg_value args i) of Some n \<Rightarrow> n | None \<Rightarrow> cast_num 0)"

definition lua_tointeger :: "lib_env \<Rightarrow> TValue list \<Rightarrow> nat \<Rightarrow> int" where
  "lua_tointeger E args i =
     (case luaV_tonumber E (arg_value args i) of Some n \<Rightarrow> lua_number2integer n | None \<Rightarrow> 0)"

definition lua_toboolean :: "TValue list \<Rightarrow> nat \<Rightarrow> bool" where
  "lua_toboolean args i \<longleftrightarrow> \<not> l_isfalse (arg_value args i)"

text \<open>\<open>None\<close> is the pointer NULL.\<close>

definition lua_tolstring :: "lib_env \<Rightarrow> TValue list \<Rightarrow> nat \<Rightarrow> string option" where
  "lua_tolstring E args i =
     (case arg_value args i of
        TStr p \<Rightarrow> Some (svalue E p)
      | v \<Rightarrow> luaV_tostring E v)"

section \<open>Errors\<close>

definition LUA_QL :: "string \<Rightarrow> string" where
  "LUA_QL x = [CHR 0x27] @ x @ [CHR 0x27]"

text \<open>\<open>lua_pushfstring\<close> writes an integer the way a Lua number is written.\<close>

definition fmt_d :: "lib_env \<Rightarrow> int \<Rightarrow> string" where
  "fmt_d E i = number2str E (cast_num i)"

definition luaL_where :: "lib_env \<Rightarrow> string" where
  "luaL_where E =
     (case ar_line E of
        Some (src, line) \<Rightarrow> if 0 < line then src @ '':'' @ fmt_d E line @ '': '' else ''''
      | None \<Rightarrow> '''')"

definition luaL_error :: "lib_env \<Rightarrow> string \<Rightarrow> lua_error" where
  "luaL_error E msg = ErrRun (luaL_where E @ msg)"

definition luaL_argerror :: "lib_env \<Rightarrow> int \<Rightarrow> string \<Rightarrow> lua_error" where
  "luaL_argerror E narg extramsg =
     (case ar_name E of
        None \<Rightarrow> luaL_error E (''bad argument #'' @ fmt_d E narg @ '' ('' @ extramsg @ '')'')
      | Some (nm, namewhat) \<Rightarrow>
          (let narg' = (if namewhat = ''method'' then narg - 1 else narg) in
           if namewhat = ''method'' \<and> narg' = 0
           then luaL_error E (''calling '' @ LUA_QL (case nm of Some n \<Rightarrow> n | None \<Rightarrow> ''(null)'')
                  @ '' on bad self ('' @ extramsg @ '')'')
           else luaL_error E (''bad argument #'' @ fmt_d E narg' @ '' to ''
                  @ LUA_QL (case nm of Some n \<Rightarrow> n | None \<Rightarrow> ''?'') @ '' ('' @ extramsg @ '')'')))"

definition luaL_typerror :: "lib_env \<Rightarrow> TValue list \<Rightarrow> nat \<Rightarrow> string \<Rightarrow> lua_error" where
  "luaL_typerror E args narg tname =
     luaL_argerror E (int narg) (tname @ '' expected, got '' @ luaL_typename args narg)"

definition tag_error :: "lib_env \<Rightarrow> TValue list \<Rightarrow> nat \<Rightarrow> nat \<Rightarrow> lua_error" where
  "tag_error E args narg tag = luaL_typerror E args narg (lua_typename (int tag))"

section \<open>Argument checks\<close>

definition luaL_argcheck :: "lib_env \<Rightarrow> bool \<Rightarrow> nat \<Rightarrow> string \<Rightarrow> unit res" where
  "luaL_argcheck E cond narg extramsg = (if cond then Inr () else Inl (luaL_argerror E (int narg) extramsg))"

definition luaL_checktype :: "lib_env \<Rightarrow> TValue list \<Rightarrow> nat \<Rightarrow> nat \<Rightarrow> unit res" where
  "luaL_checktype E args narg t =
     (if lua_type args narg \<noteq> int t then Inl (tag_error E args narg t) else Inr ())"

definition luaL_checkany :: "lib_env \<Rightarrow> TValue list \<Rightarrow> nat \<Rightarrow> unit res" where
  "luaL_checkany E args narg =
     (if lua_type args narg = LUA_TNONE then Inl (luaL_argerror E (int narg) ''value expected'') else Inr ())"

definition luaL_checklstring :: "lib_env \<Rightarrow> TValue list \<Rightarrow> nat \<Rightarrow> string res" where
  "luaL_checklstring E args narg =
     (case lua_tolstring E args narg of
        None \<Rightarrow> Inl (tag_error E args narg LUA_TSTRING)
      | Some s \<Rightarrow> Inr s)"

definition luaL_opt :: "(TValue list \<Rightarrow> nat \<Rightarrow> 'a res) \<Rightarrow> TValue list \<Rightarrow> nat \<Rightarrow> 'a \<Rightarrow> 'a res" where
  "luaL_opt f args n d = (if lua_isnoneornil args n then Inr d else f args n)"

definition luaL_optlstring :: "lib_env \<Rightarrow> TValue list \<Rightarrow> nat \<Rightarrow> string \<Rightarrow> string res" where
  "luaL_optlstring E args narg def =
     (if lua_isnoneornil args narg then Inr def else luaL_checklstring E args narg)"

definition luaL_checknumber :: "lib_env \<Rightarrow> TValue list \<Rightarrow> nat \<Rightarrow> lua_Number res" where
  "luaL_checknumber E args narg =
     (let d = lua_tonumber E args narg in
      if num_eq d (cast_num 0) \<and> \<not> lua_isnumber E args narg then Inl (tag_error E args narg LUA_TNUMBER)
      else Inr d)"

definition luaL_optnumber :: "lib_env \<Rightarrow> TValue list \<Rightarrow> nat \<Rightarrow> lua_Number \<Rightarrow> lua_Number res" where
  "luaL_optnumber E args narg def = luaL_opt (luaL_checknumber E) args narg def"

definition luaL_checkinteger :: "lib_env \<Rightarrow> TValue list \<Rightarrow> nat \<Rightarrow> int res" where
  "luaL_checkinteger E args narg =
     (let d = lua_tointeger E args narg in
      if d = 0 \<and> \<not> lua_isnumber E args narg then Inl (tag_error E args narg LUA_TNUMBER)
      else Inr d)"

definition luaL_optinteger :: "lib_env \<Rightarrow> TValue list \<Rightarrow> nat \<Rightarrow> int \<Rightarrow> int res" where
  "luaL_optinteger E args narg def = luaL_opt (luaL_checkinteger E) args narg def"

definition luaL_checkint :: "lib_env \<Rightarrow> TValue list \<Rightarrow> nat \<Rightarrow> int res" where
  "luaL_checkint E args n = bindr (luaL_checkinteger E args n) (\<lambda>i. Inr (cast_int i))"

definition luaL_optint :: "lib_env \<Rightarrow> TValue list \<Rightarrow> nat \<Rightarrow> int \<Rightarrow> int res" where
  "luaL_optint E args n d = bindr (luaL_optinteger E args n d) (\<lambda>i. Inr (cast_int i))"

fun find_option :: "string \<Rightarrow> string list \<Rightarrow> nat \<Rightarrow> nat option" where
  "find_option nm [] i = None"
| "find_option nm (x # xs) i = (if x = nm then Some i else find_option nm xs (i + 1))"

definition luaL_checkoption :: "lib_env \<Rightarrow> TValue list \<Rightarrow> nat \<Rightarrow> string option \<Rightarrow> string list \<Rightarrow> nat res" where
  "luaL_checkoption E args narg def lst =
     bindr (case def of Some d \<Rightarrow> luaL_optlstring E args narg d | None \<Rightarrow> luaL_checklstring E args narg) (\<lambda>s.
     let nm = takeWhile (\<lambda>c. c \<noteq> CHR 0x00) s in
     case find_option nm lst 0 of
       Some i \<Rightarrow> Inr i
     | None \<Rightarrow> Inl (luaL_argerror E (int narg) (''invalid option '' @ LUA_QL nm)))"

section \<open>Facts\<close>

named_theorems lib_simps "rewrite rules for arguments and their checks"

lemma arg_simps [lib_simps]:
  "1 \<le> i \<Longrightarrow> i \<le> length args \<Longrightarrow> index2adr args i = Some (args ! (i - 1))"
  "length args < i \<Longrightarrow> index2adr args i = None"
  by (simp_all add: index2adr_def)

lemma lua_type_some: "index2adr args i = Some v \<Longrightarrow> lua_type args i = int (ttype v)"
  by (simp add: lua_type_def)

lemma checktype_table:
  "index2adr args i = Some (TTab p) \<Longrightarrow> luaL_checktype E args i LUA_TTABLE = Inr ()"
  by (simp add: luaL_checktype_def lua_type_def)

lemma num_isnan_cast_0: "\<not> num_isnan (cast_num 0)" "num_fix (cast_num 0) = 0"
  by (simp_all add: cast_num_parts)

lemma checkint_number:
  assumes "index2adr args i = Some (TNumber (cast_num k))" "- (2 ^ 31) \<le> k" "k < 2 ^ 31"
  shows "luaL_checkint E args i = Inr k"
proof -
  have "\<bar>k\<bar> < 2 ^ 53" using assms(2,3) by simp
  then have "lua_tointeger E args i = k"
    using assms(1) by (simp add: lua_tointeger_def arg_value_def luaV_tonumber_def number2integer_cast)
  moreover have "lua_isnumber E args i"
    using assms(1) by (simp add: lua_isnumber_def arg_value_def luaV_tonumber_def)
  ultimately show ?thesis using assms(2,3) by (simp add: luaL_checkint_def luaL_checkinteger_def)
qed

lemma optint_default:
  "lua_isnoneornil args i \<Longrightarrow> - (2 ^ 31) \<le> d \<Longrightarrow> d < 2 ^ 31 \<Longrightarrow> luaL_optint E args i d = Inr d"
  by (simp add: luaL_optint_def luaL_optinteger_def luaL_opt_def)

lemma optint_given:
  "\<not> lua_isnoneornil args i \<Longrightarrow> luaL_optint E args i d = luaL_checkint E args i"
  by (simp add: luaL_optint_def luaL_optinteger_def luaL_opt_def luaL_checkint_def)

text \<open>Surroundings for the examples: no strings, no debug information.\<close>

definition ex_env :: lib_env where
  "ex_env = \<lparr>svalue = (\<lambda>p. []), strtod = (\<lambda>s. (cast_num 0, 0)), strtoul16 = (\<lambda>s. (0, 0)),
     number2str = (\<lambda>n. []), ar_name = None, ar_line = None\<rparr>"

end
