(* ===== verification/LuaRef.thy ===== *)
theory LuaRef
  imports LuaRaw LuaAux
begin

text \<open>
  The reference system of lauxlib.c: \<open>luaL_ref\<close> and \<open>luaL_unref\<close> keep a list of free
  references inside the table that holds the values. They only use raw accesses with integer keys
  and the length of the table; the locale \<open>int_table\<close> states what they rely on, and the
  interpretation shows that the tables of ltable.c provide it.
\<close>

section \<open>The operations\<close>

definition LUA_NOREF :: int where "LUA_NOREF = - 2"
definition LUA_REFNIL :: int where "LUA_REFNIL = - 1"
definition FREELIST_REF :: int where "FREELIST_REF = 0"

text \<open>
  The operations of the API that the code calls are arguments: \<open>lua_rawgeti\<close>, \<open>lua_rawseti\<close>,
  \<open>lua_objlen\<close> and \<open>lua_tointeger\<close> (cast to \<open>int\<close>).
\<close>

definition luaL_ref_with ::
    "('t \<Rightarrow> int \<Rightarrow> TValue res) \<Rightarrow> ('t \<Rightarrow> int \<Rightarrow> TValue \<Rightarrow> 't res) \<Rightarrow> ('t \<Rightarrow> nat res) \<Rightarrow> (TValue \<Rightarrow> int) \<Rightarrow>
     't \<Rightarrow> TValue \<Rightarrow> ('t \<times> int) res" where
  "luaL_ref_with geti seti objlen tointeger t v =
     (if v = TNil then Inr (t, LUA_REFNIL)
      else bindr (geti t FREELIST_REF) (\<lambda>f.
        let ref = tointeger f in
        if ref \<noteq> 0 then
          bindr (geti t ref) (\<lambda>nxt.
          bindr (seti t FREELIST_REF nxt) (\<lambda>t.
          bindr (seti t ref v) (\<lambda>t. Inr (t, ref))))
        else
          bindr (objlen t) (\<lambda>n.
          let ref = int n + 1 in
          bindr (seti t ref v) (\<lambda>t. Inr (t, ref)))))"

definition luaL_unref_with ::
    "('t \<Rightarrow> int \<Rightarrow> TValue res) \<Rightarrow> ('t \<Rightarrow> int \<Rightarrow> TValue \<Rightarrow> 't res) \<Rightarrow> 't \<Rightarrow> int \<Rightarrow> 't res" where
  "luaL_unref_with geti seti t ref =
     (if 0 \<le> ref then
        bindr (geti t FREELIST_REF) (\<lambda>f.
        bindr (seti t ref f) (\<lambda>t.
        seti t FREELIST_REF (TNumber (cast_num ref))))
      else Inr t)"

text \<open>The value on the top of the stack as an integer: \<open>(int)lua_tointeger(L, -1)\<close>.\<close>

definition tointeger :: "lib_env \<Rightarrow> TValue \<Rightarrow> int" where
  "tointeger E v = cast_int (lua_tointeger E [v] 1)"

definition luaL_ref :: "(ptr \<Rightarrow> nat) \<Rightarrow> lib_env \<Rightarrow> Table \<Rightarrow> TValue \<Rightarrow> (Table \<times> int) res" where
  "luaL_ref sh E = luaL_ref_with lua_rawgeti (lua_rawseti sh) luaH_getn (tointeger E)"

definition luaL_unref :: "(ptr \<Rightarrow> nat) \<Rightarrow> Table \<Rightarrow> int \<Rightarrow> Table res" where
  "luaL_unref sh = luaL_unref_with lua_rawgeti (lua_rawseti sh)"

section \<open>The contract of a table with integer keys\<close>

definition c_int :: "int \<Rightarrow> bool" where
  "c_int i \<longleftrightarrow> - (2 ^ 31) \<le> i \<and> i < 2 ^ 31"

locale int_table =
  fixes ok :: "'t \<Rightarrow> bool"
    and geti :: "'t \<Rightarrow> int \<Rightarrow> TValue res"
    and seti :: "'t \<Rightarrow> int \<Rightarrow> TValue \<Rightarrow> 't res"
    and objlen :: "'t \<Rightarrow> nat res"
    and val :: "'t \<Rightarrow> int \<Rightarrow> TValue"
  assumes geti: "ok t \<Longrightarrow> c_int i \<Longrightarrow> geti t i = Inr (val t i)"
    and seti: "ok t \<Longrightarrow> c_int i \<Longrightarrow> seti t i v = Inr t' \<Longrightarrow>
      ok t' \<and> (\<forall>j. c_int j \<longrightarrow> val t' j = (if j = i then v else val t j))"
    and objlen: "ok t \<Longrightarrow> \<exists>n. objlen t = Inr n \<and> c_int (int n + 1) \<and> val t (int n + 1) = TNil"

section \<open>References\<close>

text \<open>
  The free list starts in the cell 0: each cell holds the number of the next free reference, the
  last one something that converts to 0. \<open>R\<close> holds the references in use and their values.
\<close>

fun free_list :: "(int \<Rightarrow> TValue) \<Rightarrow> (TValue \<Rightarrow> int) \<Rightarrow> int \<Rightarrow> int list \<Rightarrow> bool" where
  "free_list val toint i [] \<longleftrightarrow> toint (val i) = 0"
| "free_list val toint i (f # fs) \<longleftrightarrow>
     val i = TNumber (cast_num f) \<and> 0 < f \<and> c_int f \<and> free_list val toint f fs"

definition refs_ok :: "(int \<Rightarrow> TValue) \<Rightarrow> (TValue \<Rightarrow> int) \<Rightarrow> (int \<Rightarrow> TValue option) \<Rightarrow> int list \<Rightarrow> bool" where
  "refs_ok val toint R fs \<longleftrightarrow>
     distinct fs \<and> free_list val toint FREELIST_REF fs \<and>
     (\<forall>r v. R r = Some v \<longrightarrow> 0 < r \<and> c_int r \<and> r \<notin> set fs \<and> v \<noteq> TNil \<and> val r = v)"

lemma free_list_pos: "free_list val toint i fs \<Longrightarrow> f \<in> set fs \<Longrightarrow> 0 < f \<and> c_int f"
  by (induction val toint i fs rule: free_list.induct) auto

lemma free_list_cong:
  "free_list val toint i fs \<Longrightarrow> (\<And>j. j \<in> insert i (set fs) \<Longrightarrow> val' j = val j) \<Longrightarrow> free_list val' toint i fs"
  by (induction val toint i fs rule: free_list.induct) auto

lemma c_int_0 [simp]: "c_int 0" "c_int FREELIST_REF"
  by (simp_all add: c_int_def FREELIST_REF_def)

context int_table
begin

text \<open>\<open>luaL_ref\<close> returns a reference that was not in use, and it now holds the value.\<close>

lemma ref_fresh:
  assumes ok: "ok t" and refs: "refs_ok (val t) toint R fs" and v: "v \<noteq> TNil"
    and toint: "\<And>i. c_int i \<Longrightarrow> toint (TNumber (cast_num i)) = i"
    and run: "luaL_ref_with geti seti objlen toint t v = Inr (t', r)"
  shows "ok t' \<and> R r = None \<and> refs_ok (val t') toint (R(r \<mapsto> v)) (tl fs)"
proof (cases fs)
  case Nil
  from objlen [OF ok] obtain n where n: "objlen t = Inr n" "c_int (int n + 1)" "val t (int n + 1) = TNil" by blast
  from refs Nil have "toint (val t FREELIST_REF) = 0" by (simp add: refs_ok_def)
  with run v n geti [OF ok c_int_0(2)] have
    s: "seti t (int n + 1) v = Inr t'" and r: "r = int n + 1"
    by (auto simp: luaL_ref_with_def Let_def bindr_Inr_iff)
  from seti [OF ok n(2) s] have ok': "ok t'" and
    val': "\<And>j. c_int j \<Longrightarrow> val t' j = (if j = r then v else val t j)" using r by auto
  have "R r = None" using refs n(3) r by (cases "R r") (auto simp: refs_ok_def)
  moreover have "refs_ok (val t') toint (R(r \<mapsto> v)) []"
    using refs Nil val' v r n(2) by (auto simp: refs_ok_def FREELIST_REF_def)
  ultimately show ?thesis using ok' Nil by simp
next
  case (Cons f gs)
  have f: "val t 0 = TNumber (cast_num f)" "0 < f" "c_int f" and rest: "free_list (val t) toint f gs"
    and dist: "f \<notin> set gs" "distinct gs"
    using refs Cons by (simp_all add: refs_ok_def FREELIST_REF_def)
  from run v f toint [OF f(3)] geti [OF ok c_int_0(1)] geti [OF ok f(3)] obtain t1 where
    s1: "seti t 0 (val t f) = Inr t1" and s2: "seti t1 f v = Inr t'" and r: "r = f"
    by (auto simp: luaL_ref_with_def Let_def bindr_Inr_iff FREELIST_REF_def)
  from seti [OF ok c_int_0(1) s1] have ok1: "ok t1" and
    val1: "\<And>j. c_int j \<Longrightarrow> val t1 j = (if j = 0 then val t f else val t j)" by auto
  from seti [OF ok1 f(3) s2] have ok': "ok t'" and
    val2: "\<And>j. c_int j \<Longrightarrow> val t' j = (if j = f then v else val t1 j)" by auto
  have val': "val t' j = (if j = f then v else if j = 0 then val t f else val t j)" if "c_int j" for j
    using val1 [OF that] val2 [OF that] by simp
  have "R f = None" using refs Cons by (cases "R f") (auto simp: refs_ok_def)
  moreover have "free_list (val t') toint 0 gs"
  proof (cases gs)
    case Nil
    with rest val' f show ?thesis by simp
  next
    case (Cons g hs)
    with rest have g: "val t f = TNumber (cast_num g)" "0 < g" "c_int g" "free_list (val t) toint g hs" by simp_all
    have "free_list (val t') toint g hs"
    proof (rule free_list_cong [OF g(4)])
      fix j assume "j \<in> insert g (set hs)"
      then have "j \<in> set gs" "0 < j" "c_int j" using Cons g free_list_pos [OF g(4)] by auto
      with val' dist show "val t' j = val t j" by auto
    qed
    with g val' Cons f show ?thesis by simp
  qed
  moreover have "val t' s = w \<and> 0 < s \<and> c_int s \<and> s \<notin> set gs \<and> w \<noteq> TNil" if "(R(f \<mapsto> v)) s = Some w" for s w
    using that refs Cons val' v f dist by (auto simp: refs_ok_def split: if_splits)
  ultimately show ?thesis using ok' r Cons dist by (auto simp: refs_ok_def FREELIST_REF_def)
qed

text \<open>\<open>luaL_unref\<close> frees a reference and leaves the others.\<close>

lemma unref_frees:
  assumes ok: "ok t" and refs: "refs_ok (val t) toint R fs" and R: "R r = Some v"
    and toint: "\<And>i. c_int i \<Longrightarrow> toint (TNumber (cast_num i)) = i"
    and run: "luaL_unref_with geti seti t r = Inr t'"
  shows "ok t' \<and> refs_ok (val t') toint (R(r := None)) (r # fs)"
proof -
  have r: "0 < r" "c_int r" "r \<notin> set fs" using refs R by (auto simp: refs_ok_def)
  from run r geti [OF ok c_int_0(1)] obtain t1 where
    s1: "seti t r (val t 0) = Inr t1" and s2: "seti t1 0 (TNumber (cast_num r)) = Inr t'"
    by (auto simp: luaL_unref_with_def bindr_Inr_iff FREELIST_REF_def)
  from seti [OF ok r(2) s1] have ok1: "ok t1" and
    val1: "\<And>j. c_int j \<Longrightarrow> val t1 j = (if j = r then val t 0 else val t j)" by auto
  from seti [OF ok1 c_int_0(1) s2] have ok': "ok t'" and
    val2: "\<And>j. c_int j \<Longrightarrow> val t' j = (if j = 0 then TNumber (cast_num r) else val t1 j)" by auto
  have val': "val t' j = (if j = 0 then TNumber (cast_num r) else if j = r then val t 0 else val t j)"
    if "c_int j" for j using val1 [OF that] val2 [OF that] by simp
  have fl: "free_list (val t) toint 0 fs" using refs by (simp add: refs_ok_def FREELIST_REF_def)
  have "free_list (val t') toint r fs"
  proof (cases fs)
    case Nil
    with fl val' r show ?thesis by simp
  next
    case (Cons g hs)
    with fl have g: "val t 0 = TNumber (cast_num g)" "0 < g" "c_int g" "free_list (val t) toint g hs" by simp_all
    have "free_list (val t') toint g hs"
    proof (rule free_list_cong [OF g(4)])
      fix j assume "j \<in> insert g (set hs)"
      then have "j \<in> set fs" "0 < j" "c_int j" using Cons g free_list_pos [OF g(4)] by auto
      with val' r(3) show "val t' j = val t j" by auto
    qed
    with g val' Cons r show ?thesis by simp
  qed
  with ok' refs r val' show ?thesis by (auto simp: refs_ok_def FREELIST_REF_def split: if_splits)
qed

end

section \<open>The tables of ltable.c provide the contract\<close>

definition int_val :: "Table \<Rightarrow> int \<Rightarrow> TValue" where
  "int_val t i = tab_get t (TNumber (cast_num i))"

lemma int_key_eq_iff:
  "c_int i \<Longrightarrow> c_int j \<Longrightarrow> luaO_rawequalObj (TNumber (cast_num i)) (TNumber (cast_num j)) \<longleftrightarrow> i = j"
  by (auto simp: c_int_def num_eq_cast abs_if)

lemma rawseti_val:
  assumes "tab_ok sh t" "c_int i" "lua_rawseti sh t i v = Inr t'"
  shows "tab_ok sh t' \<and> (\<forall>j. c_int j \<longrightarrow> int_val t' j = (if j = i then v else int_val t j))"
  using rawseti_cases [OF assms(1), of i v] assms(2,3) int_key_eq_iff
  by (auto simp: c_int_def int_val_def)

lemma getn_val:
  assumes "tab_ok sh t"
  shows "\<exists>n. luaH_getn t = Inr n \<and> c_int (int n + 1) \<and> int_val t (int n + 1) = TNil"
  using luaH_getn_border [of sh t] assms
  by (auto simp: tab_ok_def border_def int_key_def int_val_def c_int_def MAX_INT_def add.commute)

interpretation ltab: int_table "tab_ok sh" lua_rawgeti "lua_rawseti sh" luaH_getn int_val for sh
proof unfold_locales
  show "lua_rawgeti t i = Inr (int_val t i)" if "tab_ok sh t" "c_int i" for t i
    using rawgeti_spec [OF that(1)] that(2) by (simp add: c_int_def int_val_def)
qed (rule rawseti_val getn_val, assumption+)+

lemma tointeger_cast: "c_int i \<Longrightarrow> tointeger s (TNumber (cast_num i)) = i"
  by (simp add: tointeger_def lua_tointeger_def arg_value_def index2adr_def luaV_tonumber_def c_int_def
    number2integer_cast abs_less_iff)

lemma tointeger_other [simp]: "tointeger s TNil = 0" "tointeger s (TBool b) = 0"
  by (simp_all add: tointeger_def lua_tointeger_def arg_value_def index2adr_def luaV_tonumber_def)

lemma empty_table_val: "int_val empty_table i = TNil"
  using fresh_empty [OF empty_table_fresh [of undefined], of 0] by (simp add: int_val_def empty_table_def)

lemma empty_refs: "refs_ok (int_val empty_table) (tointeger s) (\<lambda>r. None) []"
  by (simp add: refs_ok_def empty_table_val)

text \<open>
  C14: \<open>luaL_ref\<close> of a non-nil value gives a reference that was not in use; afterwards that
  reference holds the value, every reference in use still holds its own, and the free list is
  well formed.
\<close>

theorem luaL_ref_fresh:
  assumes "tab_ok sh t" "refs_ok (int_val t) (tointeger s) R fs" "v \<noteq> TNil"
    and "luaL_ref sh s t v = Inr (t', r)"
  shows "tab_ok sh t' \<and> R r = None \<and> refs_ok (int_val t') (tointeger s) (R(r \<mapsto> v)) (tl fs)"
  by (rule ltab.ref_fresh [OF assms(1-3) _ assms(4) [unfolded luaL_ref_def]]) (rule tointeger_cast)

text \<open>The witness runs \<open>luaL_ref\<close> on an empty table, where it makes the reference 1.\<close>

lemma empty_geti: "c_int i \<Longrightarrow> lua_rawgeti empty_table i = Inr TNil"
  using ltab.geti [OF empty_table_ok [of undefined], of i] by (simp add: empty_table_val)

lemma empty_ref:
  "luaL_ref sh s empty_table (TBool True) = bindr (lua_rawseti sh empty_table 1 (TBool True)) (\<lambda>t. Inr (t, 1))"
proof -
  have "luaH_getn empty_table = Inr 0" by (simp add: luaH_getn_def empty_table_def sizearray_def)
  then show ?thesis by (simp add: luaL_ref_def luaL_ref_with_def empty_geti)
qed

lemma empty_seti: "\<exists>t'. lua_rawseti sh empty_table 1 v = Inr t'"
proof -
  have "entries empty_table = 0" by (simp add: entries_def empty_table_def nilnode_def)
  then show ?thesis using rawseti_cases [OF empty_table_ok, of 1 sh v] by (auto simp: MAXBITS_def)
qed

lemma luaL_ref_fresh_witness:
  "\<exists>t'. luaL_ref (\<lambda>p. unat p) ex_env empty_table (TBool True) = Inr (t', 1) \<and> tab_ok (\<lambda>p. unat p) t' \<and>
     refs_ok (int_val t') (tointeger ex_env) [1 \<mapsto> TBool True] []"
proof -
  from empty_seti [of "\<lambda>p. unat p" "TBool True"] obtain t' where
    run: "luaL_ref (\<lambda>p. unat p) ex_env empty_table (TBool True) = Inr (t', 1)"
    by (auto simp: empty_ref)
  from luaL_ref_fresh [OF empty_table_ok empty_refs _ this] run show ?thesis by auto
qed

text \<open>
  C15: \<open>luaL_unref\<close> of a reference in use puts it at the head of the free list and leaves every
  other reference as it was.
\<close>

theorem luaL_unref_frees:
  assumes "tab_ok sh t" "refs_ok (int_val t) (tointeger s) R fs" "R r = Some v"
    and "luaL_unref sh t r = Inr t'"
  shows "tab_ok sh t' \<and> refs_ok (int_val t') (tointeger s) (R(r := None)) (r # fs)"
  by (rule ltab.unref_frees [OF assms(1-3) _ assms(4) [unfolded luaL_unref_def]]) (rule tointeger_cast)

text \<open>Its witness: a table with one cell in use, whose reference is given back.\<close>

definition one_ref :: Table where
  "one_ref = empty_table\<lparr>t_array := [TBool True], t_node := replicate 1 nilnode, t_isdummy := False, t_lastfree := 1\<rparr>"

lemma one_ref_ok: "tab_ok sh one_ref"
  using fresh_nodes [of sh 0]
  by (simp add: one_ref_def empty_table_def tab_ok_def tab_inv_def sizearray_def nilnode_def MAXASIZE_def)

lemma one_ref_val: "int_val one_ref 1 = TBool True" "int_val one_ref 0 = TNil"
proof -
  have "arrayindex (TNumber (cast_num i)) = i" if "i = 0 \<or> i = 1" for i
    using that by (auto simp: arrayindex_cast)
  note ai = this [of 0] this [of 1]
  show "int_val one_ref 1 = TBool True"
    using tab_get_array [of one_ref "TNumber (cast_num 1)"] ai
    by (simp add: int_val_def in_array_def one_ref_def sizearray_def)
  show "int_val one_ref 0 = TNil"
    unfolding int_val_def
    by (rule tab_get_none) (use ai in \<open>simp_all add: in_array_def one_ref_def nilnode_def\<close>)
qed

lemma one_ref_refs: "refs_ok (int_val one_ref) (tointeger s) [1 \<mapsto> TBool True] []"
  by (auto simp: refs_ok_def one_ref_val FREELIST_REF_def c_int_def split: if_splits)

lemma one_ref_unref: "\<exists>t'. luaL_unref sh one_ref 1 = Inr t'"
proof -
  have e: "lua_rawgeti one_ref FREELIST_REF = Inr TNil"
    using ltab.geti [OF one_ref_ok [of undefined] c_int_0(1)] one_ref_val(2) by (simp add: FREELIST_REF_def)
  have n1: "tab_slot one_ref (TNumber (cast_num 1)) = SArr 0"
    using arrayindex_cast [of 1] by (simp add: tab_slot_def in_array_def one_ref_def sizearray_def)
  have "luaH_setnum sh one_ref 1 = Inr (one_ref, SArr 0)"
    using luaH_getnum_spec [of sh one_ref 1] one_ref_ok [of sh] n1
    by (simp add: luaH_setnum_def luaH_setnum_with_def tab_ok_def)
  then have s1: "lua_rawseti sh one_ref 1 TNil = Inr (slot_write one_ref (SArr 0) TNil)"
    by (simp add: lua_rawseti_def store_def)
  then have ok: "tab_ok sh (slot_write one_ref (SArr 0) TNil)"
    using rawseti_val [OF one_ref_ok, of 1 sh TNil] by (simp add: c_int_def)
  have "entries (slot_write one_ref (SArr 0) TNil) = 0"
    by (simp add: entries_def one_ref_def nilnode_def)
  with rawseti_cases [OF ok, of 0 "TNumber (cast_num 1)"] obtain t' where
    "lua_rawseti sh (slot_write one_ref (SArr 0) TNil) 0 (TNumber (cast_num 1)) = Inr t'"
    by (auto simp: MAXBITS_def)
  with e s1 show ?thesis by (simp add: luaL_unref_def luaL_unref_with_def FREELIST_REF_def)
qed

lemma luaL_unref_frees_witness:
  "\<exists>t'. luaL_unref (\<lambda>p. unat p) one_ref 1 = Inr t' \<and> tab_ok (\<lambda>p. unat p) t' \<and>
     refs_ok (int_val t') (tointeger ex_env) Map.empty [1]"
proof -
  from one_ref_unref obtain t' where run: "luaL_unref (\<lambda>p. unat p) one_ref 1 = Inr t'" by blast
  from luaL_unref_frees [OF one_ref_ok one_ref_refs _ this] run show ?thesis by auto
qed

end
