(* ===== verification/LuaTabLib.thy ===== *)
theory LuaTabLib
  imports LuaRef "HOL-Library.Multiset"
begin

text \<open>
  The table library (ltablib.c). Each function takes its surroundings, the operations of the API it
  calls, its arguments and the state of the interpreter, and gives its results with the new state.
  The API works on tables by address; calls of Lua functions may change the state in any way.
\<close>

section \<open>The API as the library calls it\<close>

record 's api =
  api_rawgeti :: "'s \<Rightarrow> ptr \<Rightarrow> int \<Rightarrow> TValue res"
  api_rawseti :: "'s \<Rightarrow> ptr \<Rightarrow> int \<Rightarrow> TValue \<Rightarrow> 's res"
  api_objlen :: "'s \<Rightarrow> ptr \<Rightarrow> nat res"
  api_next :: "'s \<Rightarrow> ptr \<Rightarrow> TValue \<Rightarrow> (TValue \<times> TValue) option res"
  api_call :: "'s \<Rightarrow> TValue \<Rightarrow> TValue list \<Rightarrow> (TValue \<times> 's) res"
  api_lessthan :: "'s \<Rightarrow> TValue \<Rightarrow> TValue \<Rightarrow> (bool \<times> 's) res"
  api_pushlstring :: "'s \<Rightarrow> string \<Rightarrow> (TValue \<times> 's) res"

text \<open>Addition of two \<open>int\<close>s: an overflow is undefined.\<close>

definition int_add :: "int \<Rightarrow> int \<Rightarrow> int res" where
  "int_add a b = (if c_int (a + b) then Inr (a + b) else Inl ErrUndef)"

definition aux_getn :: "lib_env \<Rightarrow> 's api \<Rightarrow> TValue list \<Rightarrow> nat \<Rightarrow> 's \<Rightarrow> int res" where
  "aux_getn E A args n s =
     bindr (luaL_checktype E args n LUA_TTABLE) (\<lambda>_.
     bindr (api_objlen A s (gcvalue (arg_value args n))) (\<lambda>k. Inr (cast_int (int k))))"

section \<open>Traversals\<close>

function foreachi_loop :: "'s api \<Rightarrow> ptr \<Rightarrow> TValue \<Rightarrow> int \<Rightarrow> int \<Rightarrow> 's \<Rightarrow> (TValue list \<times> 's) res" where
  "foreachi_loop A t f i n s =
     (if i \<le> n then
        bindr (api_rawgeti A s t i) (\<lambda>v.
        bindr (api_call A s f [TNumber (cast_num i), v]) (\<lambda>(r, s).
        if r \<noteq> TNil then Inr ([r], s) else foreachi_loop A t f (i + 1) n s))
      else Inr ([], s))"
  by pat_completeness auto
termination by (relation "measure (\<lambda>(A, t, f, i, n, s). nat (n + 1 - i))") auto

declare foreachi_loop.simps [simp del]

definition foreachi :: "lib_env \<Rightarrow> 's api \<Rightarrow> TValue list \<Rightarrow> 's \<Rightarrow> (TValue list \<times> 's) res" where
  "foreachi E A args s =
     bindr (aux_getn E A args 1 s) (\<lambda>n.
     bindr (luaL_checktype E args 2 LUA_TFUNCTION) (\<lambda>_.
     foreachi_loop A (gcvalue (arg_value args 1)) (arg_value args 2) 1 n s))"

text \<open>The called function may keep adding entries, so the traversals are bounded by fuel.\<close>

fun foreach_loop :: "nat \<Rightarrow> 's api \<Rightarrow> ptr \<Rightarrow> TValue \<Rightarrow> TValue \<Rightarrow> 's \<Rightarrow> (TValue list \<times> 's) res" where
  "foreach_loop 0 A t f k s = Inl ErrFuel"
| "foreach_loop (Suc fuel) A t f k s =
     bindr (api_next A s t k) (\<lambda>r. case r of
         None \<Rightarrow> Inr ([], s)
       | Some (k, v) \<Rightarrow>
           bindr (api_call A s f [k, v]) (\<lambda>(r, s).
           if r \<noteq> TNil then Inr ([r], s) else foreach_loop fuel A t f k s))"

definition foreach :: "nat \<Rightarrow> lib_env \<Rightarrow> 's api \<Rightarrow> TValue list \<Rightarrow> 's \<Rightarrow> (TValue list \<times> 's) res" where
  "foreach fuel E A args s =
     bindr (luaL_checktype E args 1 LUA_TTABLE) (\<lambda>_.
     bindr (luaL_checktype E args 2 LUA_TFUNCTION) (\<lambda>_.
     foreach_loop fuel A (gcvalue (arg_value args 1)) (arg_value args 2) TNil s))"

fun maxn_loop :: "nat \<Rightarrow> 's api \<Rightarrow> ptr \<Rightarrow> TValue \<Rightarrow> lua_Number \<Rightarrow> 's \<Rightarrow> lua_Number res" where
  "maxn_loop 0 A t k mx s = Inl ErrFuel"
| "maxn_loop (Suc fuel) A t k mx s =
     bindr (api_next A s t k) (\<lambda>r. case r of
         None \<Rightarrow> Inr mx
       | Some (k, v) \<Rightarrow>
           maxn_loop fuel A t k (case k of TNumber v \<Rightarrow> if num_lt mx v then v else mx | _ \<Rightarrow> mx) s)"

definition maxn :: "nat \<Rightarrow> lib_env \<Rightarrow> 's api \<Rightarrow> TValue list \<Rightarrow> 's \<Rightarrow> (TValue list \<times> 's) res" where
  "maxn fuel E A args s =
     bindr (luaL_checktype E args 1 LUA_TTABLE) (\<lambda>_.
     bindr (maxn_loop fuel A (gcvalue (arg_value args 1)) TNil (cast_num 0) s) (\<lambda>mx.
     Inr ([TNumber mx], s)))"

definition getn :: "lib_env \<Rightarrow> 's api \<Rightarrow> TValue list \<Rightarrow> 's \<Rightarrow> (TValue list \<times> 's) res" where
  "getn E A args s = bindr (aux_getn E A args 1 s) (\<lambda>n. Inr ([TNumber (cast_num n)], s))"

definition setn :: "lib_env \<Rightarrow> 's api \<Rightarrow> TValue list \<Rightarrow> 's \<Rightarrow> (TValue list \<times> 's) res" where
  "setn E A args s =
     bindr (luaL_checktype E args 1 LUA_TTABLE) (\<lambda>_.
     Inl (luaL_error E (LUA_QL ''setn'' @ '' is obsolete'')))"

section \<open>Insertion and removal\<close>

text \<open>\<open>for (i = e; i > pos; i--) t[i] = t[i-1]\<close>\<close>

function move_up :: "'s api \<Rightarrow> ptr \<Rightarrow> int \<Rightarrow> int \<Rightarrow> 's \<Rightarrow> 's res" where
  "move_up A t pos i s =
     (if pos < i then
        bindr (api_rawgeti A s t (i - 1)) (\<lambda>v.
        bindr (api_rawseti A s t i v) (\<lambda>s. move_up A t pos (i - 1) s))
      else Inr s)"
  by pat_completeness auto
termination by (relation "measure (\<lambda>(A, t, pos, i, s). nat (i - pos))") auto

declare move_up.simps [simp del]

definition tinsert :: "lib_env \<Rightarrow> 's api \<Rightarrow> TValue list \<Rightarrow> 's \<Rightarrow> (TValue list \<times> 's) res" where
  "tinsert E A args s =
     bindr (aux_getn E A args 1 s) (\<lambda>n.
     bindr (int_add n 1) (\<lambda>e.
     let t = gcvalue (arg_value args 1) in
     if length args = 2 then
       bindr (api_rawseti A s t e (arg_value args 2)) (\<lambda>s. Inr ([], s))
     else if length args = 3 then
       bindr (luaL_checkint E args 2) (\<lambda>pos.
       let e = (if e < pos then pos else e) in
       bindr (move_up A t pos e s) (\<lambda>s.
       bindr (api_rawseti A s t pos (arg_value args 3)) (\<lambda>s. Inr ([], s))))
     else Inl (luaL_error E (''wrong number of arguments to '' @ LUA_QL ''insert''))))"

text \<open>\<open>for ( ; pos < e; pos++) t[pos] = t[pos+1]\<close>\<close>

function move_down :: "'s api \<Rightarrow> ptr \<Rightarrow> int \<Rightarrow> int \<Rightarrow> 's \<Rightarrow> 's res" where
  "move_down A t pos e s =
     (if pos < e then
        bindr (api_rawgeti A s t (pos + 1)) (\<lambda>v.
        bindr (api_rawseti A s t pos v) (\<lambda>s. move_down A t (pos + 1) e s))
      else Inr s)"
  by pat_completeness auto
termination by (relation "measure (\<lambda>(A, t, pos, e, s). nat (e - pos))") auto

declare move_down.simps [simp del]

definition tremove :: "lib_env \<Rightarrow> 's api \<Rightarrow> TValue list \<Rightarrow> 's \<Rightarrow> (TValue list \<times> 's) res" where
  "tremove E A args s =
     bindr (aux_getn E A args 1 s) (\<lambda>e.
     bindr (luaL_optint E args 2 e) (\<lambda>pos.
     let t = gcvalue (arg_value args 1) in
     if \<not> (1 \<le> pos \<and> pos \<le> e) then Inr ([], s)
     else
       bindr (api_rawgeti A s t pos) (\<lambda>r.
       bindr (move_down A t pos e s) (\<lambda>s.
       bindr (api_rawseti A s t e TNil) (\<lambda>s. Inr ([r], s))))))"

section \<open>Concatenation\<close>

text \<open>The buffer is the string it holds.\<close>

definition addfield :: "lib_env \<Rightarrow> 's api \<Rightarrow> ptr \<Rightarrow> 's \<Rightarrow> string \<Rightarrow> int \<Rightarrow> string res" where
  "addfield E A t s b i =
     bindr (api_rawgeti A s t i) (\<lambda>v.
     if \<not> lua_isstring [v] 1 then
       Inl (luaL_error E (''invalid value ('' @ luaL_typename [v] 1 @ '') at index '' @ fmt_d E i
         @ '' in table for '' @ LUA_QL ''concat''))
     else Inr (b @ the (lua_tolstring E [v] 1)))"

function str_concat_loop :: "lib_env \<Rightarrow> 's api \<Rightarrow> ptr \<Rightarrow> 's \<Rightarrow> string \<Rightarrow> int \<Rightarrow> int \<Rightarrow> string \<Rightarrow> string res" where
  "str_concat_loop E A t s sep i lst b =
     (if i < lst then
        bindr (addfield E A t s b i) (\<lambda>b. str_concat_loop E A t s sep (i + 1) lst (b @ sep))
      else if i = lst then addfield E A t s b i
      else Inr b)"
  by pat_completeness auto
termination by (relation "measure (\<lambda>(E, A, t, s, sep, i, lst, b). nat (lst - i))") auto

declare str_concat_loop.simps [simp del]

definition tconcat :: "lib_env \<Rightarrow> 's api \<Rightarrow> TValue list \<Rightarrow> 's \<Rightarrow> (TValue list \<times> 's) res" where
  "tconcat E A args s =
     bindr (luaL_optlstring E args 2 []) (\<lambda>sep.
     bindr (luaL_checktype E args 1 LUA_TTABLE) (\<lambda>_.
     bindr (luaL_optint E args 3 1) (\<lambda>i.
     bindr (if lua_isnoneornil args 4 then aux_getn E A args 1 s else luaL_checkint E args 4) (\<lambda>lst.
     bindr (str_concat_loop E A (gcvalue (arg_value args 1)) s sep i lst []) (\<lambda>b.
     bindr (api_pushlstring A s b) (\<lambda>(r, s). Inr ([r], s)))))))"

section \<open>Lists in tables\<close>

text \<open>The positive integer keys hold the list \<open>xs\<close>.\<close>

definition seq_of :: "(int \<Rightarrow> TValue) \<Rightarrow> TValue list \<Rightarrow> bool" where
  "seq_of f xs \<longleftrightarrow> TNil \<notin> set xs \<and> int (length xs) < 2 ^ 31 - 1 \<and>
     (\<forall>k. 1 \<le> k \<and> c_int k \<longrightarrow> f k = (if k \<le> int (length xs) then xs ! nat (k - 1) else TNil))"

lemma seq_of_cong:
  "seq_of f xs \<Longrightarrow> (\<And>k. 1 \<le> k \<Longrightarrow> c_int k \<Longrightarrow> g k = f k) \<Longrightarrow> seq_of g xs"
  by (simp add: seq_of_def)

lemma seq_nth:
  assumes "seq_of f xs" "i < length xs"
  shows "f (int i + 1) = xs ! i"
  using assms by (auto simp: seq_of_def c_int_def)

lemma seq_nonnil: "seq_of f xs \<Longrightarrow> 1 \<le> k \<Longrightarrow> k \<le> int (length xs) \<Longrightarrow> f k \<noteq> TNil"
proof -
  assume xs: "seq_of f xs" and k: "1 \<le> k" "k \<le> int (length xs)"
  from k have i: "nat (k - 1) < length xs" "int (nat (k - 1)) + 1 = k" by linarith+
  with seq_nth [OF xs i(1)] have "f k \<in> set xs" by simp
  with xs show "f k \<noteq> TNil" by (auto simp: seq_of_def)
qed

lemma seq_nil: "seq_of f xs \<Longrightarrow> int (length xs) < k \<Longrightarrow> c_int k \<Longrightarrow> f k = TNil"
  by (auto simp: seq_of_def)

lemma move_up_same [simp]: "move_up A t p p s = Inr s"
  by (subst move_up.simps) simp

locale seq_table = int_table ok "\<lambda>s. api_rawgeti A s t" "\<lambda>s. api_rawseti A s t" "\<lambda>s. api_objlen A s t" val
  for ok :: "'s \<Rightarrow> bool" and A :: "'s api" and t :: ptr and val :: "'s \<Rightarrow> int \<Rightarrow> TValue" +
  fixes room :: "'s \<Rightarrow> bool"
  assumes seti_total: "ok s \<Longrightarrow> c_int i \<Longrightarrow> val s i \<noteq> TNil \<or> room s \<Longrightarrow> \<exists>s'. api_rawseti A s t i v = Inr s'"
    and objlen_border: "ok s \<Longrightarrow> api_objlen A s t = Inr n \<Longrightarrow> 0 < n \<Longrightarrow> val s (int n) \<noteq> TNil"
begin

lemma seti_step:
  assumes "ok s" "c_int i" "val s i \<noteq> TNil \<or> room s"
  obtains s' where "api_rawseti A s t i v = Inr s'" "ok s'"
    "\<And>k. c_int k \<Longrightarrow> val s' k = (if k = i then v else val s k)"
  using seti_total [OF assms, of v] seti [OF assms(1,2)] by blast

lemma move_up_spec:
  assumes "ok s" "pos \<le> i" "c_int pos" "c_int i" "\<And>k. pos < k \<Longrightarrow> k < i \<Longrightarrow> val s k \<noteq> TNil"
    and "pos < i \<Longrightarrow> val s i \<noteq> TNil \<or> room s"
  shows "\<exists>s'. move_up A t pos i s = Inr s' \<and> ok s' \<and>
    (\<forall>k. c_int k \<longrightarrow> val s' k = (if pos < k \<and> k \<le> i then val s (k - 1) else val s k))"
  using assms
proof (induction "nat (i - pos)" arbitrary: i s)
  case 0
  then show ?case by (auto simp: move_up.simps [of A t pos])
next
  case (Suc d)
  then have lt: "pos < i" and c: "c_int (i - 1)" by (auto simp: c_int_def)
  obtain s1 where s1: "api_rawseti A s t i (val s (i - 1)) = Inr s1" "ok s1"
      "\<And>k. c_int k \<Longrightarrow> val s1 k = (if k = i then val s (i - 1) else val s k)"
    using seti_step [OF Suc.prems(1) Suc.prems(4) Suc.prems(6) [OF lt]] by blast
  have cb: "c_int k" if "pos < k" "k < i" for k using that Suc.prems(3,4) by (simp add: c_int_def)
  have "\<exists>s'. move_up A t pos (i - 1) s1 = Inr s' \<and> ok s' \<and>
    (\<forall>k. c_int k \<longrightarrow> val s' k = (if pos < k \<and> k \<le> i - 1 then val s1 (k - 1) else val s1 k))"
  proof (rule Suc.hyps(1))
    show "d = nat (i - 1 - pos)" using Suc.hyps(2) by simp
    show "val s1 k \<noteq> TNil" if "pos < k" "k < i - 1" for k
      using that Suc.prems(5) [of k] s1(3) [OF cb [of k]] by simp
    show "val s1 (i - 1) \<noteq> TNil \<or> room s1" if "pos < i - 1"
      using that Suc.prems(5) [of "i - 1"] s1(3) [OF c] by simp
  qed (use lt c s1(2) Suc.prems(3) in simp_all)
  then obtain s' where s': "move_up A t pos (i - 1) s1 = Inr s'" "ok s'"
      "\<And>k. c_int k \<Longrightarrow> val s' k = (if pos < k \<and> k \<le> i - 1 then val s1 (k - 1) else val s1 k)" by blast
  have "move_up A t pos i s = Inr s'"
    using lt s'(1) s1(1) geti [OF Suc.prems(1) c] by (simp add: move_up.simps [of A t pos i])
  moreover have "val s' k = (if pos < k \<and> k \<le> i then val s (k - 1) else val s k)" if "c_int k" for k
  proof -
    have "c_int (k - 1)" if "pos < k" using that Suc.prems(3) \<open>c_int k\<close> by (simp add: c_int_def)
    with s'(3) [OF that] s1(3) [OF that] s1(3) [of "k - 1"] lt show ?thesis by auto
  qed
  ultimately show ?case using s'(2) by blast
qed

lemma move_down_spec:
  assumes "ok s" "c_int pos" "c_int e" "pos \<le> e" "\<And>k. pos \<le> k \<Longrightarrow> k < e \<Longrightarrow> val s k \<noteq> TNil"
  shows "\<exists>s'. move_down A t pos e s = Inr s' \<and> ok s' \<and>
    (\<forall>k. c_int k \<longrightarrow> val s' k = (if pos \<le> k \<and> k < e then val s (k + 1) else val s k))"
  using assms
proof (induction "nat (e - pos)" arbitrary: pos s)
  case 0
  then show ?case by (auto simp: move_down.simps [of A t])
next
  case (Suc d)
  then have lt: "pos < e" and c: "c_int (pos + 1)" by (auto simp: c_int_def)
  obtain s1 where s1: "api_rawseti A s t pos (val s (pos + 1)) = Inr s1" "ok s1"
      "\<And>k. c_int k \<Longrightarrow> val s1 k = (if k = pos then val s (pos + 1) else val s k)"
    using seti_step [OF Suc.prems(1,2)] Suc.prems(5) [of pos] lt by blast
  have cb: "c_int k" if "pos \<le> k" "k < e" for k using that Suc.prems(2,3) by (simp add: c_int_def)
  have "\<exists>s'. move_down A t (pos + 1) e s1 = Inr s' \<and> ok s' \<and>
    (\<forall>k. c_int k \<longrightarrow> val s' k = (if pos + 1 \<le> k \<and> k < e then val s1 (k + 1) else val s1 k))"
  proof (rule Suc.hyps(1))
    show "d = nat (e - (pos + 1))" using Suc.hyps(2) by simp
    show "val s1 k \<noteq> TNil" if "pos + 1 \<le> k" "k < e" for k
      using that Suc.prems(5) [of k] s1(3) [OF cb [of k]] by simp
  qed (use lt c s1(2) Suc.prems(3) in simp_all)
  then obtain s' where s': "move_down A t (pos + 1) e s1 = Inr s'" "ok s'"
      "\<And>k. c_int k \<Longrightarrow> val s' k = (if pos + 1 \<le> k \<and> k < e then val s1 (k + 1) else val s1 k)" by blast
  have "move_down A t pos e s = Inr s'"
    using lt s'(1) s1(1) geti [OF Suc.prems(1) c] by (simp add: move_down.simps [of A t pos])
  moreover have "val s' k = (if pos \<le> k \<and> k < e then val s (k + 1) else val s k)" if "c_int k" for k
  proof -
    have "c_int (k + 1)" if "k < e" using that Suc.prems(3) \<open>c_int k\<close> by (simp add: c_int_def)
    with s'(3) [OF that] s1(3) [OF that] s1(3) [of "k + 1"] lt show ?thesis by auto
  qed
  ultimately show ?case using s'(2) by blast
qed

lemma seq_objlen:
  assumes "ok s" "seq_of (val s) xs"
  shows "api_objlen A s t = Inr (length xs)"
proof -
  from objlen [OF assms(1)] obtain n where n: "api_objlen A s t = Inr n" "c_int (int n + 1)" "val s (int n + 1) = TNil"
    by blast
  have "\<not> n < length xs" using n(3) seq_nonnil [OF assms(2), of "int n + 1"] by auto
  moreover have "\<not> length xs < n"
    using objlen_border [OF assms(1) n(1)] seq_nil [OF assms(2), of "int n"] n(2) by (auto simp: c_int_def)
  ultimately show ?thesis using n(1) by simp
qed

lemma seq_getn:
  assumes "ok s" "seq_of (val s) xs" "0 < length args" "args ! 0 = TTab t"
  shows "aux_getn E A args 1 s = Inr (int (length xs))" "arg_value args 1 = TTab t"
proof -
  have a: "index2adr args 1 = Some (TTab t)" using assms(3,4) by (simp add: index2adr_def Suc_leI)
  then show v: "arg_value args 1 = TTab t" by (simp add: arg_value_def)
  show "aux_getn E A args 1 s = Inr (int (length xs))"
    using seq_objlen [OF assms(1,2)] assms(2) checktype_table [OF a] v by (simp add: aux_getn_def seq_of_def)
qed

text \<open>\<open>table.insert(t, x)\<close> and \<open>table.insert(t, pos, x)\<close> insert into the list.\<close>

lemma insert_at:
  assumes ok: "ok s" and xs: "seq_of (val s) xs" and x: "x \<noteq> TNil" and len: "int (length xs) < 2 ^ 31 - 2"
    and i: "i \<le> length xs" and room: "room s"
  shows "\<exists>s1 s2. move_up A t (int i + 1) (int (length xs) + 1) s = Inr s1 \<and>
    api_rawseti A s1 t (int i + 1) x = Inr s2 \<and> ok s2 \<and> seq_of (val s2) (take i xs @ x # drop i xs)"
proof -
  let ?p = "int i + 1" and ?e = "int (length xs) + 1"
  have c: "c_int ?p" "c_int ?e" and p: "?p \<le> ?e" using i len by (simp_all add: c_int_def)
  obtain s1 where s1: "move_up A t ?p ?e s = Inr s1" "ok s1"
      "\<And>k. c_int k \<Longrightarrow> val s1 k = (if ?p < k \<and> k \<le> ?e then val s (k - 1) else val s k)"
    using move_up_spec [OF ok p c] seq_nonnil [OF xs] room by auto
  have "val s1 ?p \<noteq> TNil \<or> room s1"
  proof (cases "i < length xs")
    case True
    with s1(3) [OF c(1)] seq_nonnil [OF xs, of ?p] show ?thesis by simp
  next
    case False
    with i s1(1) have "s1 = s" by simp
    with room show ?thesis by simp
  qed
  with s1(2) c(1) obtain s2 where s2: "api_rawseti A s1 t ?p x = Inr s2" "ok s2"
      "\<And>k. c_int k \<Longrightarrow> val s2 k = (if k = ?p then x else val s1 k)"
    using seti_step by blast
  let ?ys = "take i xs @ x # drop i xs"
  have ys: "?ys ! n = (if n < i then xs ! n else if n = i then x else xs ! (n - 1))" if n: "n \<le> length xs" for n
  proof -
    consider "n < i" | "n = i" | m where "n = i + Suc m" "i + m < length xs"
    proof (cases n i rule: linorder_cases)
      case greater
      then have "n = i + Suc (n - i - 1)" "i + (n - i - 1) < length xs" using n by simp_all
      then show ?thesis by (rule that(3))
    qed (auto intro: that)
    then show ?thesis
    proof cases
      case 3
      with i show ?thesis by (simp add: nth_append)
    qed (use i in \<open>simp_all add: nth_append\<close>)
  qed
  have "val s2 k = (if k \<le> int (length ?ys) then ?ys ! nat (k - 1) else TNil)" if k: "1 \<le> k" "c_int k" for k
  proof -
    obtain n where kn: "k = int n + 1" using k(1) by (metis add.commute zle_iff_zadd)
    have v: "val s2 k = (if n = i then x else if i < n \<and> n \<le> length xs then val s (int n) else val s k)"
      using s2(3) [OF k(2)] s1(3) [OF k(2)] kn by auto
    show ?thesis
    proof (cases "n \<le> length xs")
      case True
      have "val s (int n) = xs ! (n - 1)" if "i < n" using seq_nth [OF xs, of "n - 1"] True that by (simp add: of_nat_diff)
      moreover have "val s (int n + 1) = xs ! n" if "n < i" using seq_nth [OF xs, of n] i that by simp
      ultimately have "val s2 k = ?ys ! n" unfolding ys [OF True] v using True kn by auto
      then show ?thesis using True i unfolding kn by simp
    next
      case False
      then show ?thesis using v seq_nil [OF xs _ k(2)] i unfolding kn by simp
    qed
  qed
  moreover have "TNil \<notin> set ?ys" using xs x by (auto simp: seq_of_def dest: in_set_takeD in_set_dropD)
  ultimately have "seq_of (val s2) ?ys" using len i by (simp add: seq_of_def)
  with s1(1) s2(1,2) show ?thesis by blast
qed

lemma tinsert_end:
  assumes "ok s" "seq_of (val s) xs" "x \<noteq> TNil" "int (length xs) < 2 ^ 31 - 2" "room s"
  shows "\<exists>s'. tinsert E A [TTab t, x] s = Inr ([], s') \<and> ok s' \<and> seq_of (val s') (xs @ [x])"
proof -
  from insert_at [OF assms(1-4) order.refl assms(5)] obtain s1 s2 where
    r: "move_up A t (int (length xs) + 1) (int (length xs) + 1) s = Inr s1"
      "api_rawseti A s1 t (int (length xs) + 1) x = Inr s2" "ok s2" "seq_of (val s2) (xs @ [x])" by auto
  from r(1) have "s1 = s" by simp
  with r seq_getn [OF assms(1,2), of "[TTab t, x]"] assms(4) show ?thesis
    by (simp add: tinsert_def int_add_def c_int_def arg_value_def index2adr_def)
qed

lemma tinsert_pos:
  assumes "ok s" "seq_of (val s) xs" "x \<noteq> TNil" "int (length xs) < 2 ^ 31 - 2" "room s"
    and "1 \<le> pos" "pos \<le> int (length xs) + 1"
  shows "\<exists>s'. tinsert E A [TTab t, TNumber (cast_num pos), x] s = Inr ([], s') \<and> ok s' \<and>
    seq_of (val s') (take (nat pos - 1) xs @ x # drop (nat pos - 1) xs)"
proof -
  define i where "i = nat pos - 1"
  have i: "i \<le> length xs" "int i + 1 = pos" using assms(6,7) by (auto simp: i_def)
  let ?args = "[TTab t, TNumber (cast_num pos), x]"
  from insert_at [OF assms(1-4) i(1) assms(5)] obtain s1 s2 where
    r: "move_up A t pos (int (length xs) + 1) s = Inr s1" "api_rawseti A s1 t pos x = Inr s2" "ok s2"
      "seq_of (val s2) (take i xs @ x # drop i xs)" unfolding i(2) by blast
  have "luaL_checkint E ?args 2 = Inr pos"
    by (rule checkint_number) (use assms(4,6,7) in \<open>simp_all add: index2adr_def\<close>)
  with r seq_getn [OF assms(1,2), of ?args] assms(4,7) show ?thesis
    by (simp add: tinsert_def int_add_def c_int_def arg_value_def index2adr_def i_def Let_def)
qed

text \<open>\<open>table.remove(t, pos)\<close> takes the element out of the list and returns it.\<close>

lemma tremove_pos:
  assumes ok: "ok s" and xs: "seq_of (val s) xs" and pos: "1 \<le> pos" "pos \<le> int (length xs)"
  shows "\<exists>s'. tremove E A [TTab t, TNumber (cast_num pos)] s = Inr ([xs ! (nat pos - 1)], s') \<and> ok s' \<and>
    seq_of (val s') (take (nat pos - 1) xs @ drop (nat pos) xs)"
proof -
  define i where "i = nat pos - 1"
  have i: "i < length xs" "int i + 1 = pos" "nat pos = Suc i" using pos by (auto simp: i_def)
  let ?args = "[TTab t, TNumber (cast_num pos)]" and ?e = "int (length xs)"
  have len: "?e < 2 ^ 31 - 1" using xs by (simp add: seq_of_def)
  have c: "c_int pos" "c_int ?e" using pos len by (simp_all add: c_int_def)
  obtain s1 where s1: "move_down A t pos ?e s = Inr s1" "ok s1"
      "\<And>k. c_int k \<Longrightarrow> val s1 k = (if pos \<le> k \<and> k < ?e then val s (k + 1) else val s k)"
    using move_down_spec [OF ok c pos(2)] seq_nonnil [OF xs] pos(1) by auto
  have "val s1 ?e \<noteq> TNil" using s1(3) [OF c(2)] seq_nonnil [OF xs, of ?e] pos by simp
  with s1(2) c(2) obtain s2 where s2: "api_rawseti A s1 t ?e TNil = Inr s2" "ok s2"
      "\<And>k. c_int k \<Longrightarrow> val s2 k = (if k = ?e then TNil else val s1 k)"
    using seti_step by blast
  let ?ys = "take i xs @ drop (Suc i) xs"
  have ys: "?ys ! n = (if n < i then xs ! n else xs ! (n + 1))" if "n < length xs - 1" for n
    using i that by (simp add: nth_append)
  have "val s2 k = (if k \<le> int (length ?ys) then ?ys ! nat (k - 1) else TNil)" if k: "1 \<le> k" "c_int k" for k
  proof -
    obtain n where kn: "k = int n + 1" using k(1) by (metis add.commute zle_iff_zadd)
    have v: "val s2 k = (if n + 1 = length xs then TNil else if i \<le> n \<and> n + 1 < length xs then val s (int (n + 1) + 1) else val s k)"
      using s2(3) [OF k(2)] s1(3) [OF k(2)] kn i(2) by auto
    show ?thesis
    proof (cases "n + 1 < length xs")
      case True
      then have y: "?ys ! n = (if n < i then xs ! n else xs ! (n + 1))" using ys [of n] by simp
      have "val s2 k = (if n < i then val s k else val s (int (n + 1) + 1))" using v True by simp
      also have "\<dots> = ?ys ! n"
        unfolding y seq_nth [OF xs True] kn using seq_nth [OF xs, of n] True by simp
      finally show ?thesis using True i unfolding kn by simp
    next
      case False
      then show ?thesis using v seq_nil [OF xs _ k(2)] i unfolding kn by auto
    qed
  qed
  moreover have "TNil \<notin> set ?ys" using xs by (auto simp: seq_of_def dest: in_set_takeD in_set_dropD)
  ultimately have "seq_of (val s2) ?ys" using len i by (simp add: seq_of_def)
  moreover have "luaL_optint E ?args 2 ?e = Inr pos"
  proof -
    have "\<not> lua_isnoneornil ?args 2" by (simp add: lua_isnoneornil_def lua_type_def index2adr_def tag_defs)
    moreover have "luaL_checkint E ?args 2 = Inr pos"
      by (rule checkint_number) (use c(1) in \<open>simp_all add: index2adr_def c_int_def\<close>)
    ultimately show ?thesis by (simp add: optint_given)
  qed
  moreover have "api_rawgeti A s t pos = Inr (xs ! i)"
    using geti [OF ok c(1)] seq_nth [OF xs i(1)] i(2) by simp
  ultimately show ?thesis
    using s1(1) s2(1,2) pos seq_getn [OF ok xs, of ?args] i(3) by (simp add: tremove_def Let_def)
qed

end

section \<open>The tables of the interpreter behind the API\<close>

text \<open>Tables live in a heap; what the API does besides (calls, comparisons, new strings) is an argument.\<close>

type_synonym heap = "ptr \<Rightarrow> Table option"

definition table_at :: "heap \<Rightarrow> ptr \<Rightarrow> Table res" where
  "table_at h p = (case h p of Some t \<Rightarrow> Inr t | None \<Rightarrow> Inl ErrUndef)"

definition heap_api ::
    "(ptr \<Rightarrow> nat) \<Rightarrow> (heap \<Rightarrow> TValue \<Rightarrow> TValue list \<Rightarrow> (TValue \<times> heap) res) \<Rightarrow>
     (heap \<Rightarrow> TValue \<Rightarrow> TValue \<Rightarrow> (bool \<times> heap) res) \<Rightarrow> (string \<Rightarrow> ptr) \<Rightarrow> heap api" where
  "heap_api sh call lt mk =
     \<lparr>api_rawgeti = (\<lambda>h p i. bindr (table_at h p) (\<lambda>t. lua_rawgeti t i)),
      api_rawseti = (\<lambda>h p i v. bindr (table_at h p) (\<lambda>t. bindr (lua_rawseti sh t i v) (\<lambda>t. Inr (h(p \<mapsto> t))))),
      api_objlen = (\<lambda>h p. bindr (table_at h p) luaH_getn),
      api_next = (\<lambda>h p k. bindr (table_at h p) (\<lambda>t. luaH_next sh t k)),
      api_call = call,
      api_lessthan = lt,
      api_pushlstring = (\<lambda>h s. Inr (TStr (mk s), h))\<rparr>"

definition heap_ok :: "(ptr \<Rightarrow> nat) \<Rightarrow> ptr \<Rightarrow> heap \<Rightarrow> heap \<Rightarrow> bool" where
  "heap_ok sh p h0 h \<longleftrightarrow> (\<exists>t. h p = Some t \<and> tab_ok sh t) \<and> (\<forall>q. q \<noteq> p \<longrightarrow> h q = h0 q)"

definition heap_val :: "ptr \<Rightarrow> heap \<Rightarrow> int \<Rightarrow> TValue" where
  "heap_val p h i = int_val (the (h p)) i"

definition heap_room :: "ptr \<Rightarrow> heap \<Rightarrow> bool" where
  "heap_room p h \<longleftrightarrow> entries (the (h p)) < 2 ^ MAXBITS"

lemma rawseti_total:
  assumes "tab_ok sh t" "c_int i" "int_val t i \<noteq> TNil \<or> entries t < 2 ^ MAXBITS"
  shows "\<exists>t'. lua_rawseti sh t i v = Inr t'"
proof (cases "int_val t i = TNil")
  case True
  with assms rawseti_cases [OF assms(1), of i v] show ?thesis by (auto simp: c_int_def)
next
  case False
  then have "tab_slot t (TNumber (cast_num i)) \<noteq> SNil" by (auto simp: int_val_def tab_get_def luaO_nilobject_def)
  with luaH_getnum_spec [of sh t i] assms(1,2) show ?thesis
    by (simp add: lua_rawseti_def luaH_setnum_def luaH_setnum_with_def store_def tab_ok_def c_int_def)
qed

interpretation htab: seq_table "heap_ok sh p h0" "heap_api sh call lt mk" p "heap_val p" "heap_room p"
  for sh p h0 call lt mk
proof unfold_locales
  fix h :: heap and i :: int and v :: TValue
  assume ok: "heap_ok sh p h0 h" and i: "c_int i"
  then obtain t where t: "h p = Some t" "tab_ok sh t" and other: "\<And>q. q \<noteq> p \<Longrightarrow> h q = h0 q"
    by (auto simp: heap_ok_def)
  note api = heap_api_def table_at_def heap_val_def
  show "api_rawgeti (heap_api sh call lt mk) h p i = Inr (heap_val p h i)"
    using ltab.geti [OF t(2) i] t(1) by (simp add: api)
  show "heap_ok sh p h0 h' \<and> (\<forall>j. c_int j \<longrightarrow> heap_val p h' j = (if j = i then v else heap_val p h j))"
    if "api_rawseti (heap_api sh call lt mk) h p i v = Inr h'" for h'
    using that t(1) other rawseti_val [OF t(2) i, of v]
    by (auto simp: api heap_ok_def bindr_Inr_iff)
  show "\<exists>h'. api_rawseti (heap_api sh call lt mk) h p i v = Inr h'" if "heap_val p h i \<noteq> TNil \<or> heap_room p h"
    using rawseti_total [OF t(2) i, of v] that t(1) by (auto simp: api heap_room_def)
next
  fix h :: heap
  assume "heap_ok sh p h0 h"
  then obtain t where t: "h p = Some t" "tab_ok sh t" by (auto simp: heap_ok_def)
  note api = heap_api_def table_at_def heap_val_def
  show "\<exists>n. api_objlen (heap_api sh call lt mk) h p = Inr n \<and> c_int (int n + 1) \<and> heap_val p h (int n + 1) = TNil"
    using getn_val [OF t(2)] t(1) by (simp add: api)
  show "heap_val p h (int n) \<noteq> TNil" if "api_objlen (heap_api sh call lt mk) h p = Inr n" "0 < n" for n
    using luaH_getn_border [of sh t] that t by (auto simp: api tab_ok_def border_def int_val_def int_key_def)
qed

section \<open>Properties\<close>

text \<open>A table at \<open>p\<close> whose positive integer keys hold the list \<open>xs\<close>.\<close>

definition list_at :: "(ptr \<Rightarrow> nat) \<Rightarrow> heap \<Rightarrow> ptr \<Rightarrow> TValue list \<Rightarrow> bool" where
  "list_at sh h p xs \<longleftrightarrow> (\<exists>t. h p = Some t \<and> tab_ok sh t \<and> seq_of (int_val t) xs)"

lemma list_at_heap: "list_at sh h p xs \<Longrightarrow> heap_ok sh p h h \<and> seq_of (heap_val p h) xs"
  by (auto simp: list_at_def heap_ok_def heap_val_def [abs_def])

lemma heap_list_at:
  "heap_ok sh p h0 h \<Longrightarrow> seq_of (heap_val p h) xs \<Longrightarrow> list_at sh h p xs \<and> (\<forall>q. q \<noteq> p \<longrightarrow> h q = h0 q)"
  by (auto simp: list_at_def heap_ok_def heap_val_def [abs_def])

text \<open>
  C25: \<open>table.insert(t, pos, x)\<close> on a table that holds a list inserts \<open>x\<close> before its \<open>pos\<close>-th
  element and changes no other table, when the table has room for one more entry.
\<close>

theorem tinsert_refines:
  assumes "list_at sh h p xs" "x \<noteq> TNil" "1 \<le> pos" "pos \<le> int (length xs) + 1"
    and "entries (the (h p)) < 2 ^ 26" "length xs < 2 ^ 30"
  shows "\<exists>h'. tinsert E (heap_api sh call lt mk) [TTab p, TNumber (cast_num pos), x] h = Inr ([], h') \<and>
    list_at sh h' p (take (nat pos - 1) xs @ x # drop (nat pos - 1) xs) \<and> (\<forall>q. q \<noteq> p \<longrightarrow> h' q = h q)"
proof -
  have len: "int (length xs) < 2 ^ 31 - 2" using assms(6) by simp
  have room: "heap_room p h" using assms(5) by (simp add: heap_room_def MAXBITS_def)
  note l = list_at_heap [OF assms(1)]
  from htab.tinsert_pos [OF l [THEN conjunct1] l [THEN conjunct2] assms(2) len room assms(3,4),
      where E = E and call = call and lt = lt and mk = mk]
  obtain h' where h': "tinsert E (heap_api sh call lt mk) [TTab p, TNumber (cast_num pos), x] h = Inr ([], h')"
    "heap_ok sh p h h'" "seq_of (heap_val p h') (take (nat pos - 1) xs @ x # drop (nat pos - 1) xs)" by blast
  from heap_list_at [OF h'(2,3)] h'(1) show ?thesis by blast
qed

text \<open>The examples: a heap with the table \<open>one_ref\<close>, which holds the list of one element.\<close>

definition one_heap :: heap where
  "one_heap = [8 \<mapsto> one_ref]"

lemma one_ref_seq: "seq_of (int_val one_ref) [TBool True]"
proof -
  have "int_val one_ref k = TNil" if "1 < k" "c_int k" for k
    unfolding int_val_def
    by (rule tab_get_none)
      (use that arrayindex_cast [of k] in \<open>simp_all add: in_array_def one_ref_def nilnode_def sizearray_def c_int_def\<close>)
  then show ?thesis using one_ref_val(1) by (auto simp: seq_of_def c_int_def)
qed

lemma one_heap_list: "list_at sh one_heap 8 [TBool True]"
  using one_ref_ok one_ref_seq by (simp add: list_at_def one_heap_def)

lemma one_heap_entries: "entries (the (one_heap 8)) < 2 ^ 26"
  by (simp add: one_heap_def one_ref_def empty_table_def entries_def nilnode_def)

definition ex_api :: "heap api" where
  "ex_api = heap_api (\<lambda>p. unat p) (\<lambda>h f args. Inr (TNil, h))
     (\<lambda>h a b. case (a, b) of (TNumber x, TNumber y) \<Rightarrow> Inr (num_lt x y, h)
        | _ \<Rightarrow> Inl (ErrRun ''attempt to compare'')) (\<lambda>s. 16)"

lemma tinsert_refines_witness:
  "\<exists>h'. tinsert ex_env ex_api [TTab 8, TNumber (cast_num 1), TBool False] one_heap = Inr ([], h') \<and>
    list_at (\<lambda>p. unat p) h' 8 [TBool False, TBool True] \<and> (\<forall>q. q \<noteq> 8 \<longrightarrow> h' q = one_heap q)"
  using tinsert_refines [OF one_heap_list, where x = "TBool False" and pos = 1] one_heap_entries
  by (simp add: ex_api_def)

text \<open>
  C26: \<open>table.remove(t, pos)\<close> undoes \<open>table.insert(t, pos, x)\<close>: it returns \<open>x\<close> and the table holds
  the list it held before.
\<close>

theorem tremove_tinsert:
  assumes "list_at sh h p xs" "x \<noteq> TNil" "1 \<le> pos" "pos \<le> int (length xs) + 1"
    and "entries (the (h p)) < 2 ^ 26" "length xs < 2 ^ 30"
  shows "\<exists>h' h''. tinsert E (heap_api sh call lt mk) [TTab p, TNumber (cast_num pos), x] h = Inr ([], h') \<and>
    tremove E (heap_api sh call lt mk) [TTab p, TNumber (cast_num pos)] h' = Inr ([x], h'') \<and>
    list_at sh h'' p xs \<and> (\<forall>q. q \<noteq> p \<longrightarrow> h'' q = h q)"
proof -
  define i where "i = nat pos - 1"
  have i: "i \<le> length xs" "nat pos = Suc i" using assms(3,4) by (auto simp: i_def)
  have len: "int (length xs) < 2 ^ 31 - 2" using assms(6) by simp
  have room: "heap_room p h" using assms(5) by (simp add: heap_room_def MAXBITS_def)
  note l = list_at_heap [OF assms(1)]
  from htab.tinsert_pos [OF l [THEN conjunct1] l [THEN conjunct2] assms(2) len room assms(3,4),
      where E = E and call = call and lt = lt and mk = mk] obtain h' where
    h': "tinsert E (heap_api sh call lt mk) [TTab p, TNumber (cast_num pos), x] h = Inr ([], h')"
      "heap_ok sh p h h'" "seq_of (heap_val p h') (take i xs @ x # drop i xs)" unfolding i_def by blast
  let ?ys = "take i xs @ x # drop i xs"
  have "pos \<le> int (length ?ys)" using i assms(4) by simp
  from htab.tremove_pos [OF h'(2,3) assms(3) this, where E = E and call = call and lt = lt and mk = mk] obtain h'' where
    h'': "tremove E (heap_api sh call lt mk) [TTab p, TNumber (cast_num pos)] h' = Inr ([?ys ! i], h'')"
      "heap_ok sh p h h''" "seq_of (heap_val p h'') (take i ?ys @ drop (Suc i) ?ys)"
    unfolding i(2) by auto
  have ys: "?ys ! i = x" "take i ?ys @ drop (Suc i) ?ys = xs" using i(1) by (simp_all add: nth_append)
  from heap_list_at [OF h''(2) h''(3) [unfolded ys(2)]] h'(1) h''(1) [unfolded ys(1)] show ?thesis by blast
qed

lemma tremove_tinsert_witness:
  "\<exists>h' h''. tinsert ex_env ex_api [TTab 8, TNumber (cast_num 2), TBool False] one_heap = Inr ([], h') \<and>
    tremove ex_env ex_api [TTab 8, TNumber (cast_num 2)] h' = Inr ([TBool False], h'') \<and>
    list_at (\<lambda>p. unat p) h'' 8 [TBool True] \<and> (\<forall>q. q \<noteq> 8 \<longrightarrow> h'' q = one_heap q)"
  using tremove_tinsert [OF one_heap_list, where x = "TBool False" and pos = 2] one_heap_entries
  by (simp add: ex_api_def)

end
