(* ===== verification/LuaString.thy ===== *)
theory LuaString
  imports LuaObject "HOL-Library.Multiset"
begin

text \<open>
  The mark bits of collectable objects (lgc.h) and the table of all strings (lstring.c). The
  table is a vector of chains of string objects; \<open>luaS_newlstr\<close> looks a content up before it
  makes an object, so equal contents have one object. The address of a new object is an argument,
  the answer of the allocator.
\<close>

unbundle bit_operations_syntax

section \<open>Mark bits\<close>

definition bitmask :: "nat \<Rightarrow> lu_byte" where "bitmask b = push_bit b 1"
definition bit2mask :: "nat \<Rightarrow> nat \<Rightarrow> lu_byte" where "bit2mask b1 b2 = bitmask b1 OR bitmask b2"
definition resetbits :: "lu_byte \<Rightarrow> lu_byte \<Rightarrow> lu_byte" where "resetbits x m = x AND NOT m"
definition setbits :: "lu_byte \<Rightarrow> lu_byte \<Rightarrow> lu_byte" where "setbits x m = x OR m"
definition testbits :: "lu_byte \<Rightarrow> lu_byte \<Rightarrow> bool" where "testbits x m \<longleftrightarrow> x AND m \<noteq> 0"
definition l_setbit :: "lu_byte \<Rightarrow> nat \<Rightarrow> lu_byte" where "l_setbit x b = setbits x (bitmask b)"
definition resetbit :: "lu_byte \<Rightarrow> nat \<Rightarrow> lu_byte" where "resetbit x b = resetbits x (bitmask b)"
definition testbit :: "lu_byte \<Rightarrow> nat \<Rightarrow> bool" where "testbit x b = testbits x (bitmask b)"
definition reset2bits :: "lu_byte \<Rightarrow> nat \<Rightarrow> nat \<Rightarrow> lu_byte" where "reset2bits x b1 b2 = resetbits x (bit2mask b1 b2)"
definition test2bits :: "lu_byte \<Rightarrow> nat \<Rightarrow> nat \<Rightarrow> bool" where "test2bits x b1 b2 = testbits x (bit2mask b1 b2)"

definition WHITE0BIT :: nat where "WHITE0BIT = 0"
definition WHITE1BIT :: nat where "WHITE1BIT = 1"
definition BLACKBIT :: nat where "BLACKBIT = 2"
definition FINALIZEDBIT :: nat where "FINALIZEDBIT = 3"
definition KEYWEAKBIT :: nat where "KEYWEAKBIT = 3"
definition VALUEWEAKBIT :: nat where "VALUEWEAKBIT = 4"
definition FIXEDBIT :: nat where "FIXEDBIT = 5"
definition SFIXEDBIT :: nat where "SFIXEDBIT = 6"
definition WHITEBITS :: lu_byte where "WHITEBITS = bit2mask WHITE0BIT WHITE1BIT"

text \<open>The tests take the \<open>marked\<close> field of the object.\<close>

definition iswhite :: "lu_byte \<Rightarrow> bool" where "iswhite m = test2bits m WHITE0BIT WHITE1BIT"
definition isblack :: "lu_byte \<Rightarrow> bool" where "isblack m = testbit m BLACKBIT"
definition isgray :: "lu_byte \<Rightarrow> bool" where "isgray m \<longleftrightarrow> \<not> isblack m \<and> \<not> iswhite m"
definition otherwhite :: "lu_byte \<Rightarrow> lu_byte" where "otherwhite cw = cw XOR WHITEBITS"
definition isdead :: "lu_byte \<Rightarrow> lu_byte \<Rightarrow> bool" where
  "isdead cw m \<longleftrightarrow> m AND otherwhite cw AND WHITEBITS \<noteq> 0"
definition changewhite :: "lu_byte \<Rightarrow> lu_byte" where "changewhite m = m XOR WHITEBITS"
definition gray2black :: "lu_byte \<Rightarrow> lu_byte" where "gray2black m = l_setbit m BLACKBIT"
definition luaC_white :: "lu_byte \<Rightarrow> lu_byte" where "luaC_white cw = cw AND WHITEBITS"

definition GCSpause :: nat where "GCSpause = 0"
definition GCSpropagate :: nat where "GCSpropagate = 1"
definition GCSsweepstring :: nat where "GCSsweepstring = 2"
definition GCSsweep :: nat where "GCSsweep = 3"
definition GCSfinalize :: nat where "GCSfinalize = 4"

lemmas mark_defs = bitmask_def bit2mask_def resetbits_def setbits_def testbits_def l_setbit_def
  resetbit_def testbit_def reset2bits_def test2bits_def WHITE0BIT_def WHITE1BIT_def BLACKBIT_def
  WHITEBITS_def iswhite_def isblack_def isgray_def otherwhite_def isdead_def changewhite_def
  gray2black_def luaC_white_def FINALIZEDBIT_def KEYWEAKBIT_def VALUEWEAKBIT_def FIXEDBIT_def SFIXEDBIT_def

text \<open>An object has at most one white, and the current white is one of the two.\<close>

definition mark_ok :: "lu_byte \<Rightarrow> bool" where
  "mark_ok m \<longleftrightarrow> \<not> (bit m 0 \<and> bit m 1)"

definition white_ok :: "lu_byte \<Rightarrow> bool" where
  "white_ok cw \<longleftrightarrow> bit cw 0 \<noteq> bit cw 1"

lemma bit_three: "bit (3::lu_byte) n \<longleftrightarrow> n < 2"
proof -
  have three: "(3::lu_byte) = mask 2" by (simp add: mask_eq_exp_minus_1)
  show ?thesis unfolding three bit_mask_iff by auto
qed

lemma whitebits: "WHITEBITS = 3"
  by (simp add: mark_defs)

lemma and_three_zero_iff: "x AND 3 = 0 \<longleftrightarrow> \<not> bit x 0 \<and> \<not> bit x 1" for x :: lu_byte
proof -
  have "x AND 3 = 0 \<longleftrightarrow> (\<forall>n < 8. \<not> (bit x n \<and> n < 2))"
    unfolding bit_eq_iff bit_and_iff bit_three by simp
  also have "\<dots> \<longleftrightarrow> \<not> bit x 0 \<and> \<not> bit x 1" (is "?L \<longleftrightarrow> ?R")
  proof
    assume ?L
    from this [rule_format, of 0] this [rule_format, of 1] show ?R by simp
  next
    assume ?R
    then show ?L using less_2_cases One_nat_def by metis
  qed
  finally show ?thesis .
qed

lemma iswhite_iff: "iswhite m \<longleftrightarrow> bit m 0 \<or> bit m 1"
  using and_three_zero_iff [of m] whitebits unfolding WHITEBITS_def
  by (auto simp: iswhite_def test2bits_def testbits_def)

lemma isdead_iff: "white_ok cw \<Longrightarrow> isdead cw m \<longleftrightarrow> bit m 0 \<and> bit cw 1 \<or> bit m 1 \<and> bit cw 0"
proof -
  have "isdead cw m \<longleftrightarrow> (m AND (cw XOR 3)) AND 3 \<noteq> 0"
    by (simp add: isdead_def otherwhite_def whitebits and.assoc)
  also have "\<dots> \<longleftrightarrow> bit (m AND (cw XOR 3)) 0 \<or> bit (m AND (cw XOR 3)) 1"
    using and_three_zero_iff by blast
  also have "\<dots> \<longleftrightarrow> bit m 0 \<and> \<not> bit cw 0 \<or> bit m 1 \<and> \<not> bit cw 1"
    by (simp only: bit_and_iff bit_xor_iff bit_three) auto
  finally show "white_ok cw \<Longrightarrow> isdead cw m \<longleftrightarrow> bit m 0 \<and> bit cw 1 \<or> bit m 1 \<and> bit cw 0"
    by (auto simp: white_ok_def)
qed

lemma changewhite_bits: "bit (changewhite m) 0 \<longleftrightarrow> \<not> bit m 0" "bit (changewhite m) 1 \<longleftrightarrow> \<not> bit m 1"
  by (auto simp: changewhite_def whitebits bit_xor_iff bit_three)

text \<open>A dead object is resurrected by changing its white.\<close>

lemma changewhite_alive:
  assumes "white_ok cw" "mark_ok m" "isdead cw m"
  shows "\<not> isdead cw (changewhite m) \<and> mark_ok (changewhite m)"
  using assms(2,3) assms(1) [unfolded white_ok_def]
  unfolding isdead_iff [OF assms(1)] mark_ok_def changewhite_bits by blast

lemma luaC_white_alive:
  assumes "white_ok cw"
  shows "\<not> isdead cw (luaC_white cw) \<and> mark_ok (luaC_white cw) \<and> iswhite (luaC_white cw)"
  using assms [unfolded white_ok_def]
  unfolding isdead_iff [OF assms] iswhite_iff mark_ok_def luaC_white_def whitebits bit_and_iff bit_three by auto

section \<open>The string table\<close>

text \<open>A string object: its address and the fields of \<open>tsv\<close>; the characters follow the header.\<close>

record TString =
  ts_addr :: ptr
  ts_marked :: lu_byte
  ts_reserved :: lu_byte
  ts_hash :: uint
  ts_str :: string

record stringtable =
  tb_hash :: "TString list list"   \<comment> \<open>each chain from its head\<close>
  tb_nuse :: nat
  tb_size :: nat

record Udata =
  u_addr :: ptr
  u_marked :: lu_byte
  u_len :: nat
  u_metatable :: ptr
  u_env :: ptr

text \<open>The part of \<open>global_State\<close> that strings and userdata use; \<open>g_udata\<close> is the list that
  starts at \<open>mainthread->next\<close>.\<close>

record strstate =
  g_strt :: stringtable
  g_currentwhite :: lu_byte
  g_gcstate :: nat
  g_udata :: "Udata list"

definition chr :: "char \<Rightarrow> uint" where
  "chr c = word_of_nat (of_char c)"

text \<open>\<open>for (l1=l; l1>=step; l1-=step) h = h ^ ((h<<5)+(h>>2)+(unsigned char)str[l1-1])\<close>\<close>

function hash_loop :: "string \<Rightarrow> nat \<Rightarrow> nat \<Rightarrow> uint \<Rightarrow> uint" where
  "hash_loop str step l1 h =
     (if 0 < step \<and> step \<le> l1 then
        hash_loop str step (l1 - step)
          (h XOR (push_bit 5 h + drop_bit 2 h + chr (str ! (l1 - 1))))
      else h)"
  by pat_completeness auto
termination
  by (relation "measure (\<lambda>(str, step, l1, h). l1)") auto

declare hash_loop.simps [simp del]

definition luaS_hash :: "string \<Rightarrow> uint" where
  "luaS_hash str =
     (let l = length str; step = drop_bit 5 l + 1
      in hash_loop str step l (word_of_nat l))"

definition hash_pos :: "uint \<Rightarrow> nat \<Rightarrow> nat" where
  "hash_pos h sz = lmod (unat h) sz"

definition chain_push :: "TString \<Rightarrow> TString list list \<Rightarrow> nat \<Rightarrow> TString list list" where
  "chain_push ts hash h = hash[h := ts # hash ! h]"

text \<open>The walk of one chain, and of all of them.\<close>

fun rehash_chain :: "nat \<Rightarrow> TString list \<Rightarrow> TString list list \<Rightarrow> TString list list" where
  "rehash_chain newsize [] newhash = newhash"
| "rehash_chain newsize (p # ps) newhash =
     rehash_chain newsize ps (chain_push p newhash (hash_pos (ts_hash p) newsize))"

definition luaS_resize :: "strstate \<Rightarrow> nat \<Rightarrow> strstate" where
  "luaS_resize g newsize =
     (if g_gcstate g = GCSsweepstring then g
      else let tb = g_strt g;
               newhash = fold (rehash_chain newsize) (tb_hash tb) (replicate newsize [])
           in g\<lparr>g_strt := tb\<lparr>tb_size := newsize, tb_hash := newhash\<rparr>\<rparr>)"

definition MAX_SIZET :: nat where "MAX_SIZET = 2 ^ 64 - 3"
definition sizeof_TString :: nat where "sizeof_TString = 24"
definition sizeof_Udata :: nat where "sizeof_Udata = 40"

definition luaM_toobig :: "'a res" where
  "luaM_toobig = Inl (ErrRun ''memory allocation error: block too big'')"

definition newlstr :: "ptr \<Rightarrow> strstate \<Rightarrow> string \<Rightarrow> uint \<Rightarrow> (strstate \<times> TString) res" where
  "newlstr addr g str h =
     (if MAX_SIZET - sizeof_TString < length str + 1 then luaM_toobig
      else let ts = \<lparr>ts_addr = addr, ts_marked = luaC_white (g_currentwhite g), ts_reserved = 0,
                     ts_hash = h, ts_str = str\<rparr>;
               tb = g_strt g;
               tb = tb\<lparr>tb_hash := chain_push ts (tb_hash tb) (hash_pos h (tb_size tb))\<rparr>;
               tb = tb\<lparr>tb_nuse := (tb_nuse tb + 1) mod 2 ^ 32\<rparr>;
               g = g\<lparr>g_strt := tb\<rparr>;
               g = (if tb_size tb < tb_nuse tb \<and> tb_size tb \<le> MAX_INT div 2
                    then luaS_resize g (tb_size tb * 2) else g)
           in Inr (g, ts))"

text \<open>The search of a chain: the object found, and the chain with a dead one resurrected.\<close>

fun find_str :: "lu_byte \<Rightarrow> string \<Rightarrow> TString list \<Rightarrow> (TString \<times> TString list) option" where
  "find_str cw str [] = None"
| "find_str cw str (o1 # os) =
     (if length (ts_str o1) = length str \<and> ts_str o1 = str then
        (let o1 = (if isdead cw (ts_marked o1) then o1\<lparr>ts_marked := changewhite (ts_marked o1)\<rparr> else o1)
         in Some (o1, o1 # os))
      else map_option (\<lambda>(ts, os). (ts, o1 # os)) (find_str cw str os))"

definition luaS_newlstr :: "ptr \<Rightarrow> strstate \<Rightarrow> string \<Rightarrow> (strstate \<times> TString) res" where
  "luaS_newlstr addr g str =
     (let h = luaS_hash str;
          tb = g_strt g;
          i = hash_pos h (tb_size tb)
      in case find_str (g_currentwhite g) str (tb_hash tb ! i) of
           Some (ts, ch) \<Rightarrow> Inr (g\<lparr>g_strt := tb\<lparr>tb_hash := (tb_hash tb)[i := ch]\<rparr>\<rparr>, ts)
         | None \<Rightarrow> newlstr addr g str h)"

definition luaS_newudata :: "ptr \<Rightarrow> strstate \<Rightarrow> nat \<Rightarrow> ptr \<Rightarrow> (strstate \<times> Udata) res" where
  "luaS_newudata addr g s e =
     (if MAX_SIZET - sizeof_Udata < s then luaM_toobig
      else let u = \<lparr>u_addr = addr, u_marked = luaC_white (g_currentwhite g), u_len = s,
                    u_metatable = 0, u_env = e\<rparr>
           in Inr (g\<lparr>g_udata := u # g_udata g\<rparr>, u))"

definition luaS_fix :: "TString \<Rightarrow> TString" where
  "luaS_fix ts = ts\<lparr>ts_marked := l_setbit (ts_marked ts) FIXEDBIT\<rparr>"

section \<open>The invariant\<close>

definition all_strings :: "strstate \<Rightarrow> TString list" where
  "all_strings g = concat (tb_hash (g_strt g))"

definition chains_ok :: "nat \<Rightarrow> TString list list \<Rightarrow> bool" where
  "chains_ok sz hash \<longleftrightarrow> length hash = sz \<and>
     (\<forall>i < sz. \<forall>ts \<in> set (hash ! i). hash_pos (ts_hash ts) sz = i)"

definition strt_ok :: "strstate \<Rightarrow> bool" where
  "strt_ok g \<longleftrightarrow>
     (\<exists>k. tb_size (g_strt g) = 2 ^ k) \<and> tb_size (g_strt g) \<le> MAX_INT + 1 \<and>
     chains_ok (tb_size (g_strt g)) (tb_hash (g_strt g)) \<and>
     tb_nuse (g_strt g) = length (all_strings g) mod 2 ^ 32 \<and>
     distinct (map ts_str (all_strings g)) \<and>
     (\<forall>ts \<in> set (all_strings g). ts_hash ts = luaS_hash (ts_str ts) \<and> mark_ok (ts_marked ts)) \<and>
     white_ok (g_currentwhite g)"

lemma hash_pos_lt: "hash_pos h (2 ^ k) < 2 ^ k"
  by (simp add: hash_pos_def lmod_eq)

lemma chain_push_length [simp]: "length (chain_push ts hash h) = length hash"
  by (simp add: chain_push_def)

lemma mset_concat_update:
  "i < length xs \<Longrightarrow> mset (concat (xs[i := y])) + mset (xs ! i) = mset (concat xs) + mset y"
proof (induction xs arbitrary: i)
  case (Cons x xs)
  then show ?case by (cases i) (simp_all add: ac_simps)
qed simp

lemma chain_push_mset: "h < length hash \<Longrightarrow> mset (concat (chain_push ts hash h)) = add_mset ts (mset (concat hash))"
  using mset_concat_update [of h hash "ts # hash ! h"] by (simp add: chain_push_def)

lemma chain_push_ok:
  assumes "chains_ok (2 ^ k) hash" "h = hash_pos (ts_hash ts) (2 ^ k)"
  shows "chains_ok (2 ^ k) (chain_push ts hash h)"
  using assms hash_pos_lt [of "ts_hash ts" k]
  by (auto simp: chains_ok_def chain_push_def nth_list_update)

lemma rehash_chain_ok:
  assumes "chains_ok (2 ^ k) hash"
  shows "chains_ok (2 ^ k) (rehash_chain (2 ^ k) ps hash) \<and>
    mset (concat (rehash_chain (2 ^ k) ps hash)) = mset ps + mset (concat hash)"
  using assms
proof (induction ps arbitrary: hash)
  case (Cons p ps)
  have "hash_pos (ts_hash p) (2 ^ k) < length hash" using Cons.prems hash_pos_lt by (simp add: chains_ok_def)
  with Cons.IH [OF chain_push_ok [OF Cons.prems refl, of p]] chain_push_mset show ?case by simp
qed simp

lemma rehash_all_ok:
  assumes "chains_ok (2 ^ k) hash"
  shows "chains_ok (2 ^ k) (fold (rehash_chain (2 ^ k)) chs hash) \<and>
    mset (concat (fold (rehash_chain (2 ^ k)) chs hash)) = mset (concat chs) + mset (concat hash)"
  using assms
proof (induction chs arbitrary: hash)
  case (Cons c chs)
  from rehash_chain_ok [OF Cons.prems, of c] Cons.IH [of "rehash_chain (2 ^ k) c hash"] show ?case by simp
qed simp

text \<open>\<open>luaS_resize\<close> keeps every string.\<close>

lemma luaS_resize_ok:
  assumes ok: "strt_ok g" and k: "newsize = 2 ^ k" "newsize \<le> MAX_INT + 1"
  shows "strt_ok (luaS_resize g newsize) \<and> mset (all_strings (luaS_resize g newsize)) = mset (all_strings g) \<and>
    g_currentwhite (luaS_resize g newsize) = g_currentwhite g"
proof (cases "g_gcstate g = GCSsweepstring")
  case False
  let ?h = "fold (rehash_chain newsize) (tb_hash (g_strt g)) (replicate newsize [])"
  have "chains_ok (2 ^ k) (replicate newsize [])" by (simp add: chains_ok_def k(1))
  from rehash_all_ok [OF this, of "tb_hash (g_strt g)"] have
    h: "chains_ok newsize ?h" "mset (concat ?h) = mset (all_strings g)"
    by (simp_all add: k(1) all_strings_def)
  let ?g = "luaS_resize g newsize"
  have g: "all_strings ?g = concat ?h" "tb_hash (g_strt ?g) = ?h" "tb_size (g_strt ?g) = newsize"
    "tb_nuse (g_strt ?g) = tb_nuse (g_strt g)" "g_currentwhite ?g = g_currentwhite g"
    using False by (simp_all add: luaS_resize_def all_strings_def Let_def)
  have "set (concat ?h) = set (all_strings g)" "length (concat ?h) = length (all_strings g)"
    using h(2) by (metis set_mset_mset, metis size_mset)
  moreover have "distinct (map ts_str (concat ?h)) = distinct (map ts_str (all_strings g))"
    using h(2) by (metis mset_eq_imp_distinct_iff mset_map)
  ultimately have "strt_ok ?g" using ok h(1) k unfolding strt_ok_def g by auto
  with g h(2) show ?thesis by simp
qed (use ok in \<open>simp add: luaS_resize_def\<close>)

lemma newlstr_ok:
  assumes ok: "strt_ok g" and h: "h = luaS_hash str" and new: "str \<notin> ts_str ` set (all_strings g)"
    and run: "newlstr addr g str h = Inr (g', ts)"
  shows "strt_ok g' \<and> mset (all_strings g') = add_mset ts (mset (all_strings g)) \<and>
    ts_str ts = str \<and> ts_addr ts = addr \<and> \<not> isdead (g_currentwhite g') (ts_marked ts)"
proof -
  let ?tb = "g_strt g"
  let ?ts = "\<lparr>ts_addr = addr, ts_marked = luaC_white (g_currentwhite g), ts_reserved = 0,
    ts_hash = h, ts_str = str\<rparr>"
  let ?h = "hash_pos h (tb_size ?tb)"
  define g1 where "g1 = g\<lparr>g_strt := ?tb\<lparr>tb_hash := chain_push ?ts (tb_hash ?tb) ?h,
    tb_nuse := (tb_nuse ?tb + 1) mod 2 ^ 32\<rparr>\<rparr>"
  have frame: "tb_hash (g_strt g1) = chain_push ?ts (tb_hash ?tb) ?h" "tb_size (g_strt g1) = tb_size ?tb"
    "g_currentwhite g1 = g_currentwhite g" "tb_nuse (g_strt g1) = (tb_nuse ?tb + 1) mod 2 ^ 32"
    by (simp_all add: g1_def)
  obtain k where k: "tb_size ?tb = 2 ^ k" using ok by (auto simp: strt_ok_def)
  have ch: "chains_ok (tb_size ?tb) (tb_hash ?tb)" using ok by (simp add: strt_ok_def)
  then have lt: "?h < length (tb_hash ?tb)" using hash_pos_lt k by (simp add: chains_ok_def)
  have m: "mset (all_strings g1) = add_mset ?ts (mset (all_strings g))"
    using chain_push_mset [OF lt, of ?ts] by (simp add: all_strings_def frame)
  then have st: "set (all_strings g1) = insert ?ts (set (all_strings g))"
    "length (all_strings g1) = Suc (length (all_strings g))"
    by (metis set_mset_mset set_mset_add_mset_insert, metis size_mset size_add_mset)
  have "mset (map ts_str (all_strings g1)) = mset (str # map ts_str (all_strings g))"
    using m by (simp add: mset_map)
  then have "distinct (map ts_str (all_strings g1)) = distinct (str # map ts_str (all_strings g))"
    by (rule mset_eq_imp_distinct_iff)
  then have dist: "distinct (map ts_str (all_strings g1))" using new ok by (auto simp: strt_ok_def)
  have w: "white_ok (g_currentwhite g)" using ok by (simp add: strt_ok_def)
  note alive = luaC_white_alive [OF w]
  have nuse: "tb_nuse (g_strt g1) = length (all_strings g1) mod 2 ^ 32"
    using ok st(2) by (simp add: strt_ok_def frame mod_Suc_eq)
  have ch': "chains_ok (2 ^ k) (chain_push ?ts (tb_hash ?tb) ?h)"
    by (rule chain_push_ok) (use ch k in simp_all)
  have each: "ts_hash s = luaS_hash (ts_str s) \<and> mark_ok (ts_marked s)" if "s \<in> set (all_strings g1)" for s
    using that ok h alive unfolding st(1) by (auto simp: strt_ok_def)
  have ok': "strt_ok g1"
    unfolding strt_ok_def nuse unfolding frame
    using ok dist each ch' k w by (simp add: strt_ok_def)
  from run have r: "ts = ?ts" "g' = (if tb_size ?tb < (tb_nuse ?tb + 1) mod 2 ^ 32 \<and> tb_size ?tb \<le> MAX_INT div 2
      then luaS_resize g1 (tb_size ?tb * 2) else g1)"
    by (auto simp: newlstr_def Let_def luaM_toobig_def g1_def split: if_splits)
  show ?thesis
  proof (cases "tb_size ?tb < (tb_nuse ?tb + 1) mod 2 ^ 32 \<and> tb_size ?tb \<le> MAX_INT div 2")
    case True
    have "tb_size ?tb * 2 = 2 ^ Suc k" using k by simp
    moreover have "tb_size ?tb * 2 \<le> MAX_INT + 1" using True by linarith
    ultimately have "tb_size ?tb * 2 = 2 ^ Suc k" "tb_size ?tb * 2 \<le> MAX_INT + 1" by blast+
    from luaS_resize_ok [OF ok' this] r True m alive show ?thesis by (simp add: frame)
  next
    case False
    then have "g' = g1" using r(2) by (simp only: if_False)
    with r(1) ok' m alive show ?thesis by (simp add: frame)
  qed
qed

text \<open>The objects of a state as the pairs of address and content a client sees.\<close>

definition objects :: "strstate \<Rightarrow> (ptr \<times> string) multiset" where
  "objects g = image_mset (\<lambda>ts. (ts_addr ts, ts_str ts)) (mset (all_strings g))"

lemma find_str_None: "find_str cw str ch = None \<longleftrightarrow> str \<notin> ts_str ` set ch"
  by (induction ch) (auto simp: Let_def)

lemma find_str_Some:
  assumes "find_str cw str ch = Some (ts, ch')" "white_ok cw" "\<forall>x \<in> set ch. mark_ok (ts_marked x)"
  shows "ts \<in> set ch' \<and> ts_str ts = str \<and> \<not> isdead cw (ts_marked ts) \<and>
    map (\<lambda>x. (ts_addr x, ts_str x, ts_hash x)) ch' = map (\<lambda>x. (ts_addr x, ts_str x, ts_hash x)) ch \<and>
    (\<forall>x \<in> set ch'. mark_ok (ts_marked x))"
  using assms
proof (induction ch arbitrary: ch')
  case (Cons x ch)
  show ?case
  proof (cases "ts_str x = str")
    case True
    with Cons.prems changewhite_alive [of cw "ts_marked x"] show ?thesis
      by (auto simp: Let_def split: if_splits)
  next
    case False
    with Cons show ?thesis by (auto split: if_splits)
  qed
qed simp

lemma map_concat_update:
  "i < length xs \<Longrightarrow> map f y = map f (xs ! i) \<Longrightarrow> map f (concat (xs[i := y])) = map f (concat xs)"
proof (induction xs arbitrary: i)
  case (Cons x xs)
  then show ?case by (cases i) simp_all
qed simp

text \<open>Looking up a content that is in the table.\<close>

lemma intern_found:
  assumes ok: "strt_ok g" and i: "i = hash_pos (luaS_hash str) (tb_size (g_strt g))"
    and f: "find_str (g_currentwhite g) str (tb_hash (g_strt g) ! i) = Some (ts, ch)"
    and g': "g' = g\<lparr>g_strt := g_strt g\<lparr>tb_hash := (tb_hash (g_strt g))[i := ch]\<rparr>\<rparr>"
  shows "strt_ok g' \<and> ts \<in> set (all_strings g') \<and> ts_str ts = str \<and> objects g' = objects g \<and>
    \<not> isdead (g_currentwhite g') (ts_marked ts)"
proof -
  let ?H = "tb_hash (g_strt g)" and ?f = "\<lambda>x. (ts_addr x, ts_str x, ts_hash x)"
  obtain k where k: "tb_size (g_strt g) = 2 ^ k" using ok by (auto simp: strt_ok_def)
  have ch: "chains_ok (2 ^ k) ?H" using ok k by (simp add: strt_ok_def)
  then have lt: "i < length ?H" using hash_pos_lt k i by (simp add: chains_ok_def)
  then have sub: "set (?H ! i) \<subseteq> set (all_strings g)"
    unfolding all_strings_def set_concat using nth_mem by blast
  have marks: "\<forall>x \<in> set (all_strings g). mark_ok (ts_marked x)" and w: "white_ok (g_currentwhite g)"
    using ok by (auto simp: strt_ok_def)
  from find_str_Some [OF f w] sub marks have
    fs: "ts \<in> set ch" "ts_str ts = str" "\<not> isdead (g_currentwhite g) (ts_marked ts)"
      "map ?f ch = map ?f (?H ! i)" "\<forall>x \<in> set ch. mark_ok (ts_marked x)" by blast+
  have frame: "tb_hash (g_strt g') = ?H[i := ch]" "tb_size (g_strt g') = tb_size (g_strt g)"
    "tb_nuse (g_strt g') = tb_nuse (g_strt g)" "g_currentwhite g' = g_currentwhite g"
    by (simp_all add: g')
  have all: "map ?f (all_strings g') = map ?f (all_strings g)"
    using map_concat_update [OF lt fs(4)] by (simp add: all_strings_def frame)
  from arg_cong [OF all, of "map (\<lambda>(a, b, c). b)"] arg_cong [OF all, of "map (\<lambda>(a, b, c). (a, b))"]
    arg_cong [OF all, of length] arg_cong [OF all, of set]
  have strs: "map ts_str (all_strings g') = map ts_str (all_strings g)"
    and addrs: "map (\<lambda>x. (ts_addr x, ts_str x)) (all_strings g') = map (\<lambda>x. (ts_addr x, ts_str x)) (all_strings g)"
    and len: "length (all_strings g') = length (all_strings g)"
    and sets: "?f ` set (all_strings g') = ?f ` set (all_strings g)" by (simp_all add: comp_def)
  have obj: "objects g' = objects g" unfolding objects_def mset_map [symmetric] addrs ..
  have hash: "ts_hash x = luaS_hash (ts_str x)" if "x \<in> set (all_strings g')" for x
  proof -
    have "?f x \<in> ?f ` set (all_strings g)" using that sets by blast
    then show ?thesis using ok by (auto simp: strt_ok_def)
  qed
  have mem: "set (all_strings g') \<subseteq> set ch \<union> set (all_strings g)" "set ch \<subseteq> set (all_strings g')"
    unfolding all_strings_def frame set_concat
    using lt set_update_subset_insert [of ?H i ch] set_update_memI [OF lt, of ch] by blast+
  then have mk: "mark_ok (ts_marked x)" if "x \<in> set (all_strings g')" for x using fs(5) marks that by blast
  have "chains_ok (2 ^ k) (?H[i := ch])"
  proof -
    have "hash_pos (ts_hash x) (2 ^ k) = i" if "x \<in> set ch" for x
    proof -
      have "?f ` set ch = ?f ` set (?H ! i)" using arg_cong [OF fs(4), of set] by (simp only: set_map)
      with that have "?f x \<in> ?f ` set (?H ! i)" by blast
      then obtain y where "y \<in> set (?H ! i)" "ts_hash x = ts_hash y" by auto
      then show ?thesis using ch lt unfolding chains_ok_def by metis
    qed
    then show ?thesis using ch lt unfolding chains_ok_def
      by (auto simp: nth_list_update split: if_splits)
  qed
  then have "strt_ok g'" unfolding strt_ok_def frame strs len
    using ok hash mk k by (simp add: strt_ok_def)
  with fs obj frame mem(2) show ?thesis by auto
qed

text \<open>A content that is not in its chain is nowhere.\<close>

lemma intern_absent:
  assumes ok: "strt_ok g" and none: "find_str cw str (tb_hash (g_strt g) ! hash_pos (luaS_hash str) (tb_size (g_strt g))) = None"
  shows "str \<notin> ts_str ` set (all_strings g)"
proof
  assume "str \<in> ts_str ` set (all_strings g)"
  then obtain x where x: "x \<in> set (all_strings g)" "ts_str x = str" by blast
  then obtain i where i: "i < length (tb_hash (g_strt g))" "x \<in> set (tb_hash (g_strt g) ! i)"
    unfolding all_strings_def set_concat by (metis UN_E in_set_conv_nth)
  have "ts_hash x = luaS_hash str" using ok x by (auto simp: strt_ok_def)
  moreover have "hash_pos (ts_hash x) (tb_size (g_strt g)) = i"
    using ok i unfolding strt_ok_def chains_ok_def by metis
  ultimately have "hash_pos (luaS_hash str) (tb_size (g_strt g)) = i" by simp
  with none i x(2) show False unfolding find_str_None by blast
qed

lemma newlstr_returns:
  "length str + 1 \<le> MAX_SIZET - sizeof_TString \<Longrightarrow> \<exists>g' ts. newlstr addr g str h = Inr (g', ts)"
  by (simp add: newlstr_def Let_def)

lemma luaS_newlstr_cases:
  assumes ok: "strt_ok g" and run: "luaS_newlstr addr g str = Inr (g', ts)"
  shows "strt_ok g' \<and> ts \<in> set (all_strings g') \<and> ts_str ts = str \<and> \<not> isdead (g_currentwhite g') (ts_marked ts) \<and>
    (if str \<in> ts_str ` set (all_strings g) then objects g' = objects g
     else objects g' = add_mset (addr, str) (objects g))"
proof -
  let ?i = "hash_pos (luaS_hash str) (tb_size (g_strt g))"
  show ?thesis
  proof (cases "find_str (g_currentwhite g) str (tb_hash (g_strt g) ! ?i)")
    case None
    then have new: "str \<notin> ts_str ` set (all_strings g)" by (rule intern_absent [OF ok])
    from run None have "newlstr addr g str (luaS_hash str) = Inr (g', ts)" by (simp add: luaS_newlstr_def Let_def)
    from newlstr_ok [OF ok refl new this] have
      n: "strt_ok g'" "mset (all_strings g') = add_mset ts (mset (all_strings g))" "ts_str ts = str" "ts_addr ts = addr"
        "\<not> isdead (g_currentwhite g') (ts_marked ts)" by blast+
    have "ts \<in> set (all_strings g')" using n(2) by (metis set_mset_mset union_single_eq_member)
    moreover have "objects g' = add_mset (addr, str) (objects g)" using n by (simp add: objects_def)
    ultimately show ?thesis using n new by simp
  next
    case (Some r)
    obtain ts0 ch where r: "r = (ts0, ch)" by fastforce
    with run Some have "ts0 = ts"
      "g' = g\<lparr>g_strt := g_strt g\<lparr>tb_hash := (tb_hash (g_strt g))[?i := ch]\<rparr>\<rparr>"
      by (simp_all add: luaS_newlstr_def Let_def)
    with intern_found [OF ok refl _ this(2)] Some r have
      f: "strt_ok g'" "ts \<in> set (all_strings g')" "ts_str ts = str" "objects g' = objects g"
        "\<not> isdead (g_currentwhite g') (ts_marked ts)" by auto
    have "str \<in> snd ` set_mset (objects g')" using f(2,3) by (force simp: objects_def)
    then have "str \<in> ts_str ` set (all_strings g)" unfolding f(4) by (force simp: objects_def)
    with f show ?thesis by simp
  qed
qed

section \<open>Properties\<close>

definition addrs_ok :: "strstate \<Rightarrow> bool" where
  "addrs_ok g \<longleftrightarrow> distinct (map ts_addr (all_strings g))"

definition fresh_addr :: "strstate \<Rightarrow> ptr \<Rightarrow> bool" where
  "fresh_addr g a \<longleftrightarrow> a \<notin> ts_addr ` set (all_strings g)"

lemma object_iff: "(a, s) \<in># objects g \<longleftrightarrow> (\<exists>ts \<in> set (all_strings g). ts_addr ts = a \<and> ts_str ts = s)"
  by (auto simp: objects_def)

lemma addrs_ok_objects: "addrs_ok g \<longleftrightarrow> (\<forall>a. count (image_mset fst (objects g)) a \<le> 1)"
proof -
  have "image_mset fst (objects g) = mset (map ts_addr (all_strings g))"
    by (simp add: objects_def multiset.map_comp comp_def)
  moreover have "distinct xs \<longleftrightarrow> (\<forall>a. count (mset xs) a \<le> 1)" for xs :: "ptr list"
  proof -
    have "count (mset xs) a = (if a \<in> set xs then 1 else 0) \<longleftrightarrow> count (mset xs) a \<le> 1" for a
    proof (cases "a \<in> set xs")
      case True
      then have "0 < count (mset xs) a" by (simp only: count_greater_zero_iff set_mset_mset)
      then show ?thesis unfolding if_P [OF True] by linarith
    next
      case False
      then have "count (mset xs) a = 0" unfolding count_eq_zero_iff set_mset_mset .
      then show ?thesis unfolding if_not_P [OF False] by linarith
    qed
    then show ?thesis unfolding distinct_count_atmost_1 by simp
  qed
  ultimately show ?thesis by (simp add: addrs_ok_def)
qed

lemma addrs_ok_add:
  assumes "addrs_ok h" "objects h' = objects h \<or> objects h' = add_mset (a, s) (objects h)" "fresh_addr h a"
  shows "addrs_ok h'"
proof -
  have z: "count (image_mset fst (objects h)) a = 0"
    using assms(3) by (force simp: fresh_addr_def objects_def count_eq_zero_iff)
  show ?thesis using assms(1,2) z unfolding addrs_ok_objects by auto
qed

lemma addrs_ok_unique: "addrs_ok g \<Longrightarrow> (a, s) \<in># objects g \<Longrightarrow> (a, s') \<in># objects g \<Longrightarrow> s = s'"
  unfolding addrs_ok_def object_iff by (auto simp: distinct_map inj_on_def)

text \<open>The start state of \<open>f_luaopen\<close>: an empty table of \<open>MINSTRTABSIZE\<close> chains.\<close>

definition MINSTRTABSIZE :: nat where "MINSTRTABSIZE = 32"

definition start_strings :: strstate where
  "start_strings = luaS_resize \<lparr>g_strt = \<lparr>tb_hash = [], tb_nuse = 0, tb_size = 0\<rparr>,
     g_currentwhite = bit2mask WHITE0BIT FIXEDBIT, g_gcstate = GCSpause, g_udata = []\<rparr> MINSTRTABSIZE"

lemma start_strings_simps:
  "g_strt start_strings = \<lparr>tb_hash = replicate 32 [], tb_nuse = 0, tb_size = 32\<rparr>"
  "g_currentwhite start_strings = 33" "g_gcstate start_strings = GCSpause"
  by (simp_all add: start_strings_def luaS_resize_def GCSpause_def GCSsweepstring_def MINSTRTABSIZE_def
      WHITE0BIT_def FIXEDBIT_def bitmask_def bit2mask_def Let_def)

lemma start_strings_ok: "strt_ok start_strings \<and> all_strings start_strings = []"
proof -
  have "\<exists>k. (32::nat) = 2 ^ k" by (rule exI [of _ 5]) simp
  then show ?thesis
    by (simp add: strt_ok_def all_strings_def start_strings_simps chains_ok_def white_ok_def MAX_INT_def bit_numeral_rec
        concat_replicate_trivial)
qed

text \<open>
  C19: interning: on a well-formed string table \<open>luaS_newlstr\<close> always returns, for a string that
  fits in memory, an object with that content that the collector will not sweep; a content that
  was in the table gets the object it had and no object is added or removed, a new content adds
  exactly one object.
\<close>

theorem luaS_newlstr_interns:
  assumes "strt_ok g" "length str + 1 \<le> MAX_SIZET - sizeof_TString"
  shows "\<exists>g' ts. luaS_newlstr addr g str = Inr (g', ts) \<and> strt_ok g' \<and> ts \<in> set (all_strings g') \<and>
    ts_str ts = str \<and> \<not> isdead (g_currentwhite g') (ts_marked ts) \<and>
    (if str \<in> ts_str ` set (all_strings g) then objects g' = objects g
     else objects g' = add_mset (addr, str) (objects g))"
proof -
  have "\<exists>g' ts. luaS_newlstr addr g str = Inr (g', ts)"
    using newlstr_returns [OF assms(2), of addr g "luaS_hash str"]
    by (auto simp: luaS_newlstr_def Let_def split: option.splits)
  with luaS_newlstr_cases [OF assms(1)] show ?thesis by blast
qed

lemma luaS_newlstr_interns_witness:
  "\<exists>g' ts. luaS_newlstr 64 start_strings ''abc'' = Inr (g', ts) \<and> strt_ok g' \<and> ts \<in> set (all_strings g') \<and>
    ts_str ts = ''abc'' \<and> \<not> isdead (g_currentwhite g') (ts_marked ts) \<and>
    (if ''abc'' \<in> ts_str ` set (all_strings start_strings) then objects g' = objects start_strings
     else objects g' = add_mset (64, ''abc'') (objects start_strings))"
  by (rule luaS_newlstr_interns) (simp_all add: start_strings_ok MAX_SIZET_def sizeof_TString_def)

text \<open>
  C20: strings are equal exactly when their objects are: of two strings made one after the other, at
  addresses the allocator had free, the addresses are the same if and only if the contents are.
\<close>

theorem interned_equality:
  assumes "strt_ok g" "addrs_ok g" "fresh_addr g a1" "luaS_newlstr a1 g s1 = Inr (g1, t1)"
    and "fresh_addr g1 a2" "luaS_newlstr a2 g1 s2 = Inr (g2, t2)"
  shows "ts_addr t1 = ts_addr t2 \<longleftrightarrow> s1 = s2"
proof -
  have uniq: "s = s'" if "addrs_ok h" "(a, s) \<in># objects h" "(a, s') \<in># objects h" for h a s s'
    using that unfolding addrs_ok_def object_iff by (auto simp: distinct_map inj_on_def)
  note c1 = luaS_newlstr_cases [OF assms(1,4)]
  then have ok1: "strt_ok g1" by blast
  note c2 = luaS_newlstr_cases [OF ok1 assms(6)]
  have k1: "addrs_ok g1" using addrs_ok_add [OF assms(2) _ assms(3)] c1 by metis
  have k2: "addrs_ok g2" using addrs_ok_add [OF k1 _ assms(5)] c2 by metis
  have m1: "(ts_addr t1, s1) \<in># objects g1" using c1 by (auto simp: object_iff)
  then have m1': "(ts_addr t1, s1) \<in># objects g2" using c2 by (metis insert_iff set_mset_add_mset_insert)
  have m2: "(ts_addr t2, s2) \<in># objects g2" using c2 by (auto simp: object_iff)
  show ?thesis
  proof
    assume "ts_addr t1 = ts_addr t2"
    with uniq [OF k2 m1'] m2 show "s1 = s2" by simp
  next
    assume eq: "s1 = s2"
    have "distinct (map ts_str (all_strings g2))" using c2 by (simp add: strt_ok_def)
    with m1' m2 eq show "ts_addr t1 = ts_addr t2"
      unfolding object_iff by (auto simp: distinct_map inj_on_def)
  qed
qed

lemma start_intern: "\<exists>g' ts. luaS_newlstr a start_strings ''x'' = Inr (g', ts)"
  using newlstr_returns [of "''x''" a start_strings "luaS_hash ''x''"]
  by (auto simp: luaS_newlstr_def Let_def MAX_SIZET_def sizeof_TString_def split: option.splits)

lemma interned_equality_witness:
  "\<exists>g1 t1 g2 t2. luaS_newlstr 64 start_strings ''x'' = Inr (g1, t1) \<and> luaS_newlstr 128 g1 ''x'' = Inr (g2, t2) \<and>
     (ts_addr t1 = ts_addr t2 \<longleftrightarrow> ''x'' = ''x'')"
proof -
  from start_intern obtain g1 t1 where r1: "luaS_newlstr 64 start_strings ''x'' = Inr (g1, t1)" by blast
  have st: "strt_ok start_strings" "all_strings start_strings = []" using start_strings_ok by blast+
  from luaS_newlstr_cases [OF st(1) r1] st(2) have "objects g1 = {#(64, ''x'')#}"
    by (simp add: objects_def)
  then have "image_mset fst (objects g1) = {#64#}" by simp
  then have "mset (map ts_addr (all_strings g1)) = {#64#}"
    by (simp add: objects_def multiset.map_comp comp_def)
  then have "set (map ts_addr (all_strings g1)) = {64}" by (metis set_mset_mset set_mset_single)
  then have f: "fresh_addr g1 128" by (simp add: fresh_addr_def)
  have "\<exists>g' ts. luaS_newlstr 128 g1 ''x'' = Inr (g', ts)"
    using newlstr_returns [of "''x''" 128 g1 "luaS_hash ''x''"]
    by (auto simp: luaS_newlstr_def Let_def MAX_SIZET_def sizeof_TString_def split: option.splits)
  then obtain g2 t2 where r2: "luaS_newlstr 128 g1 ''x'' = Inr (g2, t2)" by blast
  have "addrs_ok start_strings" "fresh_addr start_strings 64" by (simp_all add: addrs_ok_def fresh_addr_def st(2))
  from interned_equality [OF st(1) this r1 f r2] r1 r2 show ?thesis by blast
qed

end
