(* ===== verification/LuaMeta.thy ===== *)
theory LuaMeta
  imports LuaRaw LuaAux LuaString "HOL-Library.List_Lexorder" "HOL-Library.Char_ord"
begin

text \<open>
  Operations on values with metamethods: tag methods (ltm.c), the operations of lvm.c that
  \<open>luaV_execute\<close> and the API use (indexing, comparison, arithmetic, concatenation) and the errors
  they raise (ldebug.c).
\<close>

section \<open>State and surroundings\<close>

text \<open>
  The state the operations work on: the tables and the contents of the strings by address, the metatable of each userdata
  and of each basic type (\<open>G(L)->mt\<close>), 0 being NULL.
\<close>

record vm =
  tables :: "ptr \<Rightarrow> Table option"
  strs :: "ptr \<Rightarrow> string option"
  udmeta :: "ptr \<Rightarrow> ptr"
  gmt :: "nat \<Rightarrow> ptr"

datatype TMS = TM_INDEX | TM_NEWINDEX | TM_GC | TM_MODE | TM_EQ | TM_ADD | TM_SUB | TM_MUL | TM_DIV
  | TM_MOD | TM_POW | TM_UNM | TM_LEN | TM_LT | TM_LE | TM_CONCAT | TM_CALL

fun tms_index :: "TMS \<Rightarrow> nat" where
  "tms_index TM_INDEX = 0" | "tms_index TM_NEWINDEX = 1" | "tms_index TM_GC = 2" | "tms_index TM_MODE = 3"
| "tms_index TM_EQ = 4" | "tms_index TM_ADD = 5" | "tms_index TM_SUB = 6" | "tms_index TM_MUL = 7"
| "tms_index TM_DIV = 8" | "tms_index TM_MOD = 9" | "tms_index TM_POW = 10" | "tms_index TM_UNM = 11"
| "tms_index TM_LEN = 12" | "tms_index TM_LT = 13" | "tms_index TM_LE = 14" | "tms_index TM_CONCAT = 15"
| "tms_index TM_CALL = 16"

definition luaT_eventname :: "string list" where
  "luaT_eventname = [''__index'', ''__newindex'', ''__gc'', ''__mode'', ''__eq'', ''__add'', ''__sub'',
     ''__mul'', ''__div'', ''__mod'', ''__pow'', ''__unm'', ''__len'', ''__lt'', ''__le'', ''__concat'', ''__call'']"

text \<open>
  What the operations take from elsewhere (the contents of strings are those of the state, not
  \<open>svalue\<close>): the hash of a string object, the names of the tag methods
  (made once by \<open>luaT_init\<close>), the call of a function value with one result
  (\<open>luaD_call\<close>), \<open>luaS_newlstr\<close>, the position put before an error message
  (\<open>addinfo\<close>), the name of a value for error messages (\<open>getobjname\<close>), and \<open>strcoll\<close> and \<open>pow\<close> of the C library.
\<close>

record 's vm_env = lib_env +
  ve_hash :: "ptr \<Rightarrow> nat"
  ve_tmname :: "TMS \<Rightarrow> ptr"
  ve_call :: "'s \<Rightarrow> TValue \<Rightarrow> TValue list \<Rightarrow> (TValue \<times> 's) res"
  ve_newstr :: "'s \<Rightarrow> string \<Rightarrow> (ptr \<times> 's) res"
  ve_addinfo :: "'s \<Rightarrow> string \<Rightarrow> string"
  ve_objname :: "'s \<Rightarrow> TValue \<Rightarrow> (string \<times> string) option"
  ve_strcoll :: "string \<Rightarrow> string \<Rightarrow> int"
  ve_pow :: "lua_Number \<Rightarrow> lua_Number \<Rightarrow> lua_Number"

type_synonym 'a venv = "('a vm_scheme, unit) vm_env_scheme"

section \<open>Errors\<close>

definition luaG_runerror :: "'a venv \<Rightarrow> 'a vm_scheme \<Rightarrow> string \<Rightarrow> lua_error" where
  "luaG_runerror E s msg = ErrRun (ve_addinfo E s msg)"

definition luaG_typeerror :: "'a venv \<Rightarrow> 'a vm_scheme \<Rightarrow> TValue \<Rightarrow> string \<Rightarrow> lua_error" where
  "luaG_typeerror E s obj op =
     (let t = luaT_typenames ! ttype obj in
      case ve_objname E s obj of
        Some (kind, nm) \<Rightarrow> luaG_runerror E s (''attempt to '' @ op @ '' '' @ kind @ '' '' @ LUA_QL nm @ '' (a '' @ t @ '' value)'')
      | None \<Rightarrow> luaG_runerror E s (''attempt to '' @ op @ '' a '' @ t @ '' value''))"

definition is_strnum :: "TValue \<Rightarrow> bool" where
  "is_strnum v \<longleftrightarrow> ttype v = LUA_TSTRING \<or> ttype v = LUA_TNUMBER"

definition luaG_concaterror :: "'a venv \<Rightarrow> 'a vm_scheme \<Rightarrow> TValue \<Rightarrow> TValue \<Rightarrow> lua_error" where
  "luaG_concaterror E s p1 p2 =
     (let p1 = (if is_strnum p1 then p2 else p1) in luaG_typeerror E s p1 ''concatenate'')"

definition str_val :: "'a vm_scheme \<Rightarrow> ptr \<Rightarrow> string" where
  "str_val s p = (case strs s p of Some x \<Rightarrow> x | None \<Rightarrow> [])"

definition venv_lib :: "'a venv \<Rightarrow> 'a vm_scheme \<Rightarrow> lib_env" where
  "venv_lib E s = (lib_env.truncate E)\<lparr>svalue := str_val s\<rparr>"

definition luaG_aritherror :: "'a venv \<Rightarrow> 'a vm_scheme \<Rightarrow> TValue \<Rightarrow> TValue \<Rightarrow> lua_error" where
  "luaG_aritherror E s p1 p2 =
     (let p2 = (if luaV_tonumber (venv_lib E s) p1 = None then p1 else p2) in
      luaG_typeerror E s p2 ''perform arithmetic on'')"

definition luaG_ordererror :: "'a venv \<Rightarrow> 'a vm_scheme \<Rightarrow> TValue \<Rightarrow> TValue \<Rightarrow> lua_error" where
  "luaG_ordererror E s p1 p2 =
     (let t1 = luaT_typenames ! ttype p1;
          t2 = luaT_typenames ! ttype p2 in
      if t1 ! 2 = t2 ! 2 then luaG_runerror E s (''attempt to compare two '' @ t1 @ '' values'')
      else luaG_runerror E s (''attempt to compare '' @ t1 @ '' with '' @ t2))"

section \<open>Tag methods\<close>

definition vtab :: "'a vm_scheme \<Rightarrow> ptr \<Rightarrow> Table res" where
  "vtab s p = (case tables s p of Some t \<Rightarrow> Inr t | None \<Rightarrow> Inl ErrUndef)"

definition set_table :: "'a vm_scheme \<Rightarrow> ptr \<Rightarrow> Table \<Rightarrow> 'a vm_scheme" where
  "set_table s p t = s\<lparr>tables := (tables s)(p \<mapsto> t)\<rparr>"

text \<open>\<open>None\<close> is NULL. An absent tag method is remembered in the flags of the metatable.\<close>

definition luaT_gettm :: "'a venv \<Rightarrow> 'a vm_scheme \<Rightarrow> ptr \<Rightarrow> TMS \<Rightarrow> (TValue option \<times> 'a vm_scheme) res" where
  "luaT_gettm E s events event =
     bindr (vtab s events) (\<lambda>t.
     bindr (luaH_getstr (ve_hash E) t (ve_tmname E event)) (\<lambda>slot.
     let tm = slot_val t slot in
     if tm = TNil then Inr (None, set_table s events (t\<lparr>t_flags := t_flags t OR push_bit (tms_index event) 1\<rparr>))
     else Inr (Some tm, s)))"

definition fasttm :: "'a venv \<Rightarrow> 'a vm_scheme \<Rightarrow> ptr \<Rightarrow> TMS \<Rightarrow> (TValue option \<times> 'a vm_scheme) res" where
  "fasttm E s et event =
     (if et = 0 then Inr (None, s)
      else bindr (vtab s et) (\<lambda>t.
        if bit (t_flags t) (tms_index event) then Inr (None, s)
        else luaT_gettm E s et event))"

definition metatable_of :: "'a vm_scheme \<Rightarrow> TValue \<Rightarrow> ptr res" where
  "metatable_of s obj =
     (case obj of
        TTab p \<Rightarrow> bindr (vtab s p) (\<lambda>t. Inr (t_metatable t))
      | TUData p \<Rightarrow> Inr (udmeta s p)
      | _ \<Rightarrow> Inr (gmt s (ttype obj)))"

definition luaT_gettmbyobj :: "'a venv \<Rightarrow> 'a vm_scheme \<Rightarrow> TValue \<Rightarrow> TMS \<Rightarrow> TValue res" where
  "luaT_gettmbyobj E s obj event =
     bindr (metatable_of s obj) (\<lambda>mt.
     if mt \<noteq> 0 then
       bindr (vtab s mt) (\<lambda>t.
       bindr (luaH_getstr (ve_hash E) t (ve_tmname E event)) (\<lambda>slot. Inr (slot_val t slot)))
     else Inr luaO_nilobject)"

definition callTMres :: "'a venv \<Rightarrow> 'a vm_scheme \<Rightarrow> TValue \<Rightarrow> TValue \<Rightarrow> TValue \<Rightarrow> (TValue \<times> 'a vm_scheme) res" where
  "callTMres E s f p1 p2 = ve_call E s f [p1, p2]"

definition callTM :: "'a venv \<Rightarrow> 'a vm_scheme \<Rightarrow> TValue \<Rightarrow> TValue \<Rightarrow> TValue \<Rightarrow> TValue \<Rightarrow> 'a vm_scheme res" where
  "callTM E s f p1 p2 p3 = bindr (ve_call E s f [p1, p2, p3]) (\<lambda>(_, s). Inr s)"

section \<open>Indexing\<close>

definition MAXTAGLOOP :: nat where "MAXTAGLOOP = 100"

fun gettable_loop :: "nat \<Rightarrow> 'a venv \<Rightarrow> 'a vm_scheme \<Rightarrow> TValue \<Rightarrow> TValue \<Rightarrow> (TValue \<times> 'a vm_scheme) res" where
  "gettable_loop 0 E s t key = Inl (luaG_runerror E s ''loop in gettable'')"
| "gettable_loop (Suc n) E s t key =
     (let try_tm = (\<lambda>tm s. if ttype tm = LUA_TFUNCTION then callTMres E s tm t key
                           else gettable_loop n E s tm key)
      in case t of
           TTab p \<Rightarrow>
             bindr (vtab s p) (\<lambda>h.
             bindr (luaH_get (ve_hash E) h key) (\<lambda>slot.
             let res = slot_val h slot in
             if res \<noteq> TNil then Inr (res, s)
             else bindr (fasttm E s (t_metatable h) TM_INDEX) (\<lambda>(tm, s).
               case tm of None \<Rightarrow> Inr (res, s) | Some tm \<Rightarrow> try_tm tm s)))
         | _ \<Rightarrow>
             bindr (luaT_gettmbyobj E s t TM_INDEX) (\<lambda>tm.
             if tm = TNil then Inl (luaG_typeerror E s t ''index'') else try_tm tm s))"

definition luaV_gettable :: "'a venv \<Rightarrow> 'a vm_scheme \<Rightarrow> TValue \<Rightarrow> TValue \<Rightarrow> (TValue \<times> 'a vm_scheme) res" where
  "luaV_gettable E s t key = gettable_loop MAXTAGLOOP E s t key"

fun settable_loop :: "nat \<Rightarrow> 'a venv \<Rightarrow> 'a vm_scheme \<Rightarrow> TValue \<Rightarrow> TValue \<Rightarrow> TValue \<Rightarrow> 'a vm_scheme res" where
  "settable_loop 0 E s t key v = Inl (luaG_runerror E s ''loop in settable'')"
| "settable_loop (Suc n) E s t key v =
     (let try_tm = (\<lambda>tm s. if ttype tm = LUA_TFUNCTION then callTM E s tm t key v
                           else settable_loop n E s tm key v)
      in case t of
           TTab p \<Rightarrow>
             bindr (vtab s p) (\<lambda>h.
             bindr (luaH_set (ve_hash E) h key) (\<lambda>(h, slot).
             let s = set_table s p h in
             if slot_val h slot \<noteq> TNil then Inr (set_table s p (slot_write h slot v))
             else bindr (fasttm E s (t_metatable h) TM_NEWINDEX) (\<lambda>(tm, s).
               case tm of
                 None \<Rightarrow> bindr (vtab s p) (\<lambda>h. Inr (set_table s p (slot_write h slot v)))
               | Some tm \<Rightarrow> try_tm tm s)))
         | _ \<Rightarrow>
             bindr (luaT_gettmbyobj E s t TM_NEWINDEX) (\<lambda>tm.
             if tm = TNil then Inl (luaG_typeerror E s t ''index'') else try_tm tm s))"

definition luaV_settable :: "'a venv \<Rightarrow> 'a vm_scheme \<Rightarrow> TValue \<Rightarrow> TValue \<Rightarrow> TValue \<Rightarrow> 'a vm_scheme res" where
  "luaV_settable E s t key v = settable_loop MAXTAGLOOP E s t key v"

section \<open>Metamethods of operators\<close>

definition call_binTM :: "'a venv \<Rightarrow> 'a vm_scheme \<Rightarrow> TValue \<Rightarrow> TValue \<Rightarrow> TMS \<Rightarrow> (TValue option \<times> 'a vm_scheme) res" where
  "call_binTM E s p1 p2 event =
     bindr (luaT_gettmbyobj E s p1 event) (\<lambda>tm.
     bindr (if tm = TNil then luaT_gettmbyobj E s p2 event else Inr tm) (\<lambda>tm.
     if tm = TNil then Inr (None, s)
     else bindr (callTMres E s tm p1 p2) (\<lambda>(r, s). Inr (Some r, s))))"

definition get_compTM :: "'a venv \<Rightarrow> 'a vm_scheme \<Rightarrow> ptr \<Rightarrow> ptr \<Rightarrow> TMS \<Rightarrow> (TValue option \<times> 'a vm_scheme) res" where
  "get_compTM E s mt1 mt2 event =
     bindr (fasttm E s mt1 event) (\<lambda>(tm1, s).
     case tm1 of
       None \<Rightarrow> Inr (None, s)
     | Some tm1 \<Rightarrow>
         if mt1 = mt2 then Inr (Some tm1, s)
         else bindr (fasttm E s mt2 event) (\<lambda>(tm2, s).
           case tm2 of
             None \<Rightarrow> Inr (None, s)
           | Some tm2 \<Rightarrow> Inr (if luaO_rawequalObj tm1 tm2 then Some tm1 else None, s)))"

text \<open>\<open>None\<close> is the result -1.\<close>

definition call_orderTM :: "'a venv \<Rightarrow> 'a vm_scheme \<Rightarrow> TValue \<Rightarrow> TValue \<Rightarrow> TMS \<Rightarrow> (bool option \<times> 'a vm_scheme) res" where
  "call_orderTM E s p1 p2 event =
     bindr (luaT_gettmbyobj E s p1 event) (\<lambda>tm1.
     if tm1 = TNil then Inr (None, s)
     else bindr (luaT_gettmbyobj E s p2 event) (\<lambda>tm2.
       if \<not> luaO_rawequalObj tm1 tm2 then Inr (None, s)
       else bindr (callTMres E s tm1 p1 p2) (\<lambda>(r, s). Inr (Some (\<not> l_isfalse r), s))))"

section \<open>Comparison\<close>

definition cstr :: "string \<Rightarrow> string" where
  "cstr s = takeWhile (\<lambda>c. c \<noteq> CHR 0x00) s"

lemma cstr_le: "length (cstr s) \<le> length s"
  by (simp add: cstr_def length_takeWhile_le)

text \<open>
  \<open>l_strcmp\<close> compares the parts between the characters NUL in turn. When \<open>strcoll\<close> finds two
  strings of different lengths equal, the pointer into the second may pass its end.
\<close>

function l_strcmp :: "(string \<Rightarrow> string \<Rightarrow> int) \<Rightarrow> string \<Rightarrow> string \<Rightarrow> int res" where
  "l_strcmp strcoll l r =
     (let temp = strcoll (cstr l) (cstr r) in
      if temp \<noteq> 0 then Inr temp
      else
        (let len = length (cstr l) in
         if len = length r then Inr (if len = length l then 0 else 1)
         else if len = length l then Inr (- 1)
         else if length r < len + 1 then Inl ErrUndef
         else l_strcmp strcoll (drop (len + 1) l) (drop (len + 1) r)))"
  by pat_completeness auto
termination
proof (relation "measure (\<lambda>(c, l, r). length l)", goal_cases)
  case (2 strcoll l r x n)
  then have "length (cstr l) < length l" using cstr_le [of l] by auto
  then show ?case using 2 by simp
qed simp

declare l_strcmp.simps [simp del]

definition luaV_lessthan :: "'a venv \<Rightarrow> 'a vm_scheme \<Rightarrow> TValue \<Rightarrow> TValue \<Rightarrow> (bool \<times> 'a vm_scheme) res" where
  "luaV_lessthan E s l r =
     (if ttype l \<noteq> ttype r then Inl (luaG_ordererror E s l r)
      else case (l, r) of
        (TNumber a, TNumber b) \<Rightarrow> Inr (num_lt a b, s)
      | (TStr p, TStr q) \<Rightarrow> bindr (l_strcmp (ve_strcoll E) (str_val s p) (str_val s q)) (\<lambda>c. Inr (c < 0, s))
      | _ \<Rightarrow>
          bindr (call_orderTM E s l r TM_LT) (\<lambda>(res, s).
          case res of Some b \<Rightarrow> Inr (b, s) | None \<Rightarrow> Inl (luaG_ordererror E s l r)))"

definition lessequal :: "'a venv \<Rightarrow> 'a vm_scheme \<Rightarrow> TValue \<Rightarrow> TValue \<Rightarrow> (bool \<times> 'a vm_scheme) res" where
  "lessequal E s l r =
     (if ttype l \<noteq> ttype r then Inl (luaG_ordererror E s l r)
      else case (l, r) of
        (TNumber a, TNumber b) \<Rightarrow> Inr (num_le a b, s)
      | (TStr p, TStr q) \<Rightarrow> bindr (l_strcmp (ve_strcoll E) (str_val s p) (str_val s q)) (\<lambda>c. Inr (c \<le> 0, s))
      | _ \<Rightarrow>
          bindr (call_orderTM E s l r TM_LE) (\<lambda>(res, s).
          case res of
            Some b \<Rightarrow> Inr (b, s)
          | None \<Rightarrow>
              bindr (call_orderTM E s r l TM_LT) (\<lambda>(res, s).
              case res of Some b \<Rightarrow> Inr (\<not> b, s) | None \<Rightarrow> Inl (luaG_ordererror E s l r))))"

definition luaV_equalval :: "'a venv \<Rightarrow> 'a vm_scheme \<Rightarrow> TValue \<Rightarrow> TValue \<Rightarrow> (bool \<times> 'a vm_scheme) res" where
  "luaV_equalval E s t1 t2 =
     (let with_tm = (\<lambda>mt1 mt2.
        bindr (get_compTM E s mt1 mt2 TM_EQ) (\<lambda>(tm, s).
        case tm of
          None \<Rightarrow> Inr (False, s)
        | Some tm \<Rightarrow> bindr (callTMres E s tm t1 t2) (\<lambda>(r, s). Inr (\<not> l_isfalse r, s))))
      in case (t1, t2) of
        (TNil, _) \<Rightarrow> Inr (True, s)
      | (TNumber a, TNumber b) \<Rightarrow> Inr (num_eq a b, s)
      | (TBool a, TBool b) \<Rightarrow> Inr (a = b, s)
      | (TLightUD a, TLightUD b) \<Rightarrow> Inr (a = b, s)
      | (TUData a, TUData b) \<Rightarrow> if a = b then Inr (True, s) else with_tm (udmeta s a) (udmeta s b)
      | (TTab a, TTab b) \<Rightarrow>
          if a = b then Inr (True, s)
          else bindr (vtab s a) (\<lambda>ta. bindr (vtab s b) (\<lambda>tb. with_tm (t_metatable ta) (t_metatable tb)))
      | _ \<Rightarrow> Inr (gcvalue t1 = gcvalue t2, s))"

definition equalobj :: "'a venv \<Rightarrow> 'a vm_scheme \<Rightarrow> TValue \<Rightarrow> TValue \<Rightarrow> (bool \<times> 'a vm_scheme) res" where
  "equalobj E s o1 o2 = (if ttype o1 = ttype o2 then luaV_equalval E s o1 o2 else Inr (False, s))"

section \<open>Arithmetic\<close>

fun arith_num :: "'a venv \<Rightarrow> TMS \<Rightarrow> lua_Number \<Rightarrow> lua_Number \<Rightarrow> lua_Number" where
  "arith_num E TM_ADD nb nc = num_add nb nc"
| "arith_num E TM_SUB nb nc = num_sub nb nc"
| "arith_num E TM_MUL nb nc = num_mul nb nc"
| "arith_num E TM_DIV nb nc = num_div nb nc"
| "arith_num E TM_MOD nb nc = num_mod nb nc"
| "arith_num E TM_POW nb nc = ve_pow E nb nc"
| "arith_num E _ nb nc = num_unm nb"

definition Arith :: "'a venv \<Rightarrow> 'a vm_scheme \<Rightarrow> TValue \<Rightarrow> TValue \<Rightarrow> TMS \<Rightarrow> (TValue \<times> 'a vm_scheme) res" where
  "Arith E s rb rc op =
     (case (luaV_tonumber (venv_lib E s) rb, luaV_tonumber (venv_lib E s) rc) of
        (Some nb, Some nc) \<Rightarrow> Inr (TNumber (arith_num E op nb nc), s)
      | _ \<Rightarrow>
          bindr (call_binTM E s rb rc op) (\<lambda>(r, s).
          case r of Some v \<Rightarrow> Inr (v, s) | None \<Rightarrow> Inl (luaG_aritherror E s rb rc)))"

section \<open>Concatenation\<close>

text \<open>The macro \<open>tostring\<close> with \<open>luaV_tostring\<close>: the string object of a string or number.\<close>

definition tostring :: "'a venv \<Rightarrow> 'a vm_scheme \<Rightarrow> TValue \<Rightarrow> (ptr \<times> 'a vm_scheme) option res" where
  "tostring E s v =
     (case v of
        TStr p \<Rightarrow> Inr (Some (p, s))
      | TNumber n \<Rightarrow> bindr (ve_newstr E s (number2str E n)) (\<lambda>r. Inr (Some r))
      | _ \<Rightarrow> Inr None)"

text \<open>
  The operands are the values from the top of the stack down. \<open>collect\<close> takes the operands that
  convert, with the total length so far, and gives their strings (the deepest first) and the rest.
\<close>

fun collect :: "'a venv \<Rightarrow> 'a vm_scheme \<Rightarrow> TValue list \<Rightarrow> nat \<Rightarrow> string list \<Rightarrow>
    (string list \<times> TValue list \<times> 'a vm_scheme) res" where
  "collect E s [] len acc = Inr (acc, [], s)"
| "collect E s (v # vs) len acc =
     bindr (tostring E s v) (\<lambda>r.
     case r of
       None \<Rightarrow> Inr (acc, v # vs, s)
     | Some (p, s) \<Rightarrow>
         (let x = str_val s p in
          if MAX_SIZET - len \<le> length x then Inl (luaG_runerror E s ''string length overflow'')
          else collect E s vs (len + length x) (x # acc)))"

lemma tostring_strnum: "tostring E s v = Inr None \<longleftrightarrow> \<not> is_strnum v"
  by (cases v) (auto simp: tostring_def is_strnum_def tag_defs bindr_Inr_iff)

lemma collect_length: "collect E s vs len acc = Inr (xs, rest, s') \<Longrightarrow> length rest \<le> length vs"
proof (induction vs arbitrary: s len acc)
  case (Cons v vs)
  from Cons.prems obtain r where r: "tostring E s v = Inr r"
    "(case r of None \<Rightarrow> Inr (acc, v # vs, s) | Some (p, s) \<Rightarrow>
        (let x = str_val s p in if MAX_SIZET - len \<le> length x then Inl (luaG_runerror E s ''string length overflow'')
          else collect E s vs (len + length x) (x # acc))) = Inr (xs, rest, s')"
    by (auto simp: bindr_Inr_iff)
  show ?case
  proof (cases r)
    case None
    with r show ?thesis by auto
  next
    case (Some q)
    obtain p s1 where q: "q = (p, s1)" by fastforce
    with r Some have "collect E s1 vs (len + length (str_val s1 p)) (str_val s1 p # acc) = Inr (xs, rest, s')"
      by (auto simp: Let_def split: if_splits)
    from Cons.IH [OF this] show ?thesis by simp
  qed
qed simp

lemma collect_smaller:
  assumes "is_strnum v" "collect E s (v # vs) len acc = Inr (xs, rest, s')"
  shows "length rest \<le> length vs"
proof -
  from assms(2) obtain r where r: "tostring E s v = Inr r" unfolding collect.simps by (auto simp only: bindr_Inr_iff)
  then obtain p s1 where "r = Some (p, s1)" using assms(1) tostring_strnum [of E s v] by (cases r) auto
  with r assms(2) have "collect E s1 vs (len + length (str_val s1 p)) (str_val s1 p # acc) = Inr (xs, rest, s')"
    by (auto simp: Let_def split: if_splits)
  then show ?thesis by (rule collect_length)
qed

function concat_loop :: "'a venv \<Rightarrow> 'a vm_scheme \<Rightarrow> TValue list \<Rightarrow> (TValue \<times> 'a vm_scheme) res" where
  "concat_loop E s [] = Inl ErrUndef"
| "concat_loop E s [v] = Inr (v, s)"
| "concat_loop E s (x1 # x2 # vs) =
     bindr (if is_strnum x2 then tostring E s x1 else Inr None) (\<lambda>r.
     case r of
       None \<Rightarrow>
         bindr (call_binTM E s x2 x1 TM_CONCAT) (\<lambda>(r, s).
         case r of
           None \<Rightarrow> Inl (luaG_concaterror E s x2 x1)
         | Some v \<Rightarrow> concat_loop E s (v # vs))
     | Some (p1, s) \<Rightarrow>
         if length (str_val s p1) = 0 then
           bindr (tostring E s x2) (\<lambda>r.
           case r of
             None \<Rightarrow> Inl ErrUndef
           | Some (p2, s) \<Rightarrow> concat_loop E s (TStr p2 # vs))
         else
           bindr (collect E s (x2 # vs) (length (str_val s p1)) [str_val s p1]) (\<lambda>(xs, rest, s).
           bindr (ve_newstr E s (concat xs)) (\<lambda>(p, s). concat_loop E s (TStr p # rest))))"
  by pat_completeness auto
termination
  by (relation "measure (\<lambda>(E, s, vs). length vs)") (auto split: if_splits dest: collect_smaller)

declare concat_loop.simps(3) [simp del]

text \<open>\<open>luaV_concat\<close> of the values at the top of the stack, given from the deepest.\<close>

definition luaV_concat :: "'a venv \<Rightarrow> 'a vm_scheme \<Rightarrow> TValue list \<Rightarrow> (TValue \<times> 'a vm_scheme) res" where
  "luaV_concat E s vs = concat_loop E s (rev vs)"

section \<open>Setting a key keeps the metatable\<close>

definition keeps_meta :: "new_key \<Rightarrow> bool" where
  "keeps_meta nk \<longleftrightarrow> (\<forall>t k t' sl. nk t k = Inr (t', sl) \<longrightarrow> t_metatable t' = t_metatable t)"

lemma keeps_metaD: "keeps_meta nk \<Longrightarrow> nk t k = Inr (t', sl) \<Longrightarrow> t_metatable t' = t_metatable t"
  unfolding keeps_meta_def by blast

lemma write_meta [simp]: "t_metatable (slot_write t sl v) = t_metatable t"
  by (cases sl) simp_all

lemma store_meta: "store r v = Inr t' \<Longrightarrow> (\<And>t1 sl. r = Inr (t1, sl) \<Longrightarrow> t_metatable t1 = m) \<Longrightarrow> t_metatable t' = m"
  by (auto simp: store_def bindr_Inr_iff)

lemma set_with_meta:
  assumes "keeps_meta nk"
  shows "keeps_meta (luaH_set_with nk sh)" "luaH_setnum_with nk t i = Inr (t', sl) \<Longrightarrow> t_metatable t' = t_metatable t"
  using keeps_metaD [OF assms]
  by (fastforce simp: keeps_meta_def luaH_set_with_def luaH_setnum_with_def bindr_Inr_iff Let_def split: if_splits)+

lemma store_meta_if:
  assumes "(if v \<noteq> TNil then store r v else Inr t) = Inr t1" "\<And>t2 sl. r = Inr (t2, sl) \<Longrightarrow> t_metatable t2 = t_metatable t"
  shows "t_metatable t1 = t_metatable t"
  using assms by (cases "v = TNil") (auto elim: store_meta)

lemma reinsert_array_meta:
  assumes "keeps_meta nk"
  shows "reinsert_array nk t vs i = Inr t' \<Longrightarrow> t_metatable t' = t_metatable t"
proof (induction vs arbitrary: t i)
  case (Cons v vs)
  from Cons.prems obtain t1 where
    t1: "(if v \<noteq> TNil then store (luaH_setnum_with nk t (int i + 1)) v else Inr t) = Inr t1"
      "reinsert_array nk t1 vs (i + 1) = Inr t'" by (auto simp: bindr_Inr_iff)
  have "t_metatable t1 = t_metatable t"
    by (rule store_meta_if [OF t1(1)]) (rule set_with_meta(2) [OF assms])
  with Cons.IH [OF t1(2)] show ?case by simp
qed simp

lemma reinsert_nodes_meta:
  assumes "keeps_meta nk"
  shows "reinsert_nodes nk sh t ns = Inr t' \<Longrightarrow> t_metatable t' = t_metatable t"
proof (induction ns arbitrary: t)
  case (Cons n ns)
  from Cons.prems obtain t1 where
    t1: "(if gval n \<noteq> TNil then store (luaH_set_with nk sh t (gkey n)) (gval n) else Inr t) = Inr t1"
      "reinsert_nodes nk sh t1 ns = Inr t'" by (auto simp: bindr_Inr_iff)
  have "t_metatable t1 = t_metatable t"
    by (rule store_meta_if [OF t1(1)]) (rule keeps_metaD [OF set_with_meta(1) [OF assms]])
  with Cons.IH [OF t1(2)] show ?case by simp
qed simp

lemma setnodevector_meta: "setnodevector t n = Inr t' \<Longrightarrow> t_metatable t' = t_metatable t"
  by (auto simp: setnodevector_def Let_def split: if_splits)

lemma resize_meta:
  assumes "keeps_meta nk" "resize_with nk sh t na nh = Inr t'"
  shows "t_metatable t' = t_metatable t"
proof -
  let ?t0 = "if sizearray t < na then setarrayvector t na else t"
  from assms(2) obtain t1 t2 where r: "setnodevector ?t0 nh = Inr t1"
      "(if na < sizearray t then reinsert_array nk (t1\<lparr>t_array := take na (t_array t)\<rparr>) (drop na (t_array t)) na
        else Inr t1) = Inr t2" "reinsert_nodes nk sh t2 (rev (t_node t)) = Inr t'"
    by (auto simp: resize_with_def Let_def bindr_Inr_iff)
  have "t_metatable t2 = t_metatable t1"
    using r(2) reinsert_array_meta [OF assms(1)] by (fastforce split: if_splits)
  moreover have "t_metatable ?t0 = t_metatable t" by (simp add: setarrayvector_def)
  ultimately show ?thesis using setnodevector_meta [OF r(1)] reinsert_nodes_meta [OF assms(1) r(3)] by simp
qed

lemma rehash_meta:
  assumes "keeps_meta nk" "rehash_with nk sh t k = Inr t'"
  shows "t_metatable t' = t_metatable t"
  using assms(2) resize_meta [OF assms(1)] by (auto simp: rehash_with_def Let_def split: prod.splits)

lemma newkey_step_meta:
  assumes "keeps_meta nk"
  shows "keeps_meta (newkey_step nk sh)"
  unfolding keeps_meta_def
proof (intro allI impI)
  fix t k t' sl
  assume run: "newkey_step nk sh t k = Inr (t', sl)"
  let ?mp = "mainposition sh (t_lsizenode t) k"
  show "t_metatable t' = t_metatable t"
  proof (cases "gval (t_node t ! ?mp) \<noteq> TNil \<or> t_isdummy t")
    case False
    with run show ?thesis by (auto simp: newkey_step_def set_node_def Let_def)
  next
    case True
    show ?thesis
    proof (cases "getfreepos (t_node t) (t_lastfree t)")
      case (Pair fp lf)
      show ?thesis
      proof (cases fp)
        case None
        with run True Pair obtain t1 where "rehash_with nk sh (t\<lparr>t_lastfree := lf\<rparr>) k = Inr t1"
          "luaH_set_with nk sh t1 k = Inr (t', sl)" by (auto simp: newkey_step_def Let_def bindr_Inr_iff)
        with rehash_meta [OF assms this(1)] keeps_metaD [OF set_with_meta(1) [OF assms] this(2)] show ?thesis by simp
      next
        case (Some n)
        with run True Pair show ?thesis
          by (auto simp: newkey_step_def Let_def bindr_Inr_iff set_node_def split: if_splits)
      qed
    qed
  qed
qed

lemma newkey_f_meta: "keeps_meta (newkey_f f sh)"
  by (induction f) (simp_all add: newkey_step_meta, simp add: keeps_meta_def)

lemma luaH_set_meta: "luaH_set sh t k = Inr (t', sl) \<Longrightarrow> t_metatable t' = t_metatable t"
  using keeps_metaD [OF set_with_meta(1) [OF newkey_f_meta]] by (simp add: luaH_set_def newkey_def)

section \<open>Assignment and indexing without metamethods\<close>

lemma no_fasttm [simp]: "fasttm E s 0 ev = Inr (None, s)"
  by (simp add: fasttm_def)

lemma settable_first: "luaV_settable E s t k v = settable_loop (Suc 99) E s t k v"
  by (simp add: luaV_settable_def MAXTAGLOOP_def)

lemma gettable_first: "luaV_gettable E s t k = gettable_loop (Suc 99) E s t k"
  by (simp add: luaV_gettable_def MAXTAGLOOP_def)

text \<open>Tables without a metatable behave as maps from keys to values.\<close>

lemma settable_plain:
  assumes t: "tables s p = Some h" "tab_ok (ve_hash E) h" "t_metatable h = 0"
    and k: "live_key k" "\<not> is_nan_value k"
  shows "luaV_settable E s (TTab p) k v = Inl (ErrRun ''table overflow'') \<and> 2 ^ MAXBITS < entries h + 1 \<or>
    (\<exists>h'. luaV_settable E s (TTab p) k v = Inr (set_table s p h') \<and> tab_ok (ve_hash E) h' \<and> t_metatable h' = 0 \<and>
      (\<forall>k'. live_key k' \<longrightarrow> tab_get h' k' = (if luaO_rawequalObj k k' then v else tab_get h k')))"
proof -
  have vt: "vtab s p = Inr h" by (simp add: vtab_def t(1))
  consider "overflows h (luaH_set (ve_hash E) h k)" | "found (ve_hash E) h k (luaH_set (ve_hash E) h k)"
    using luaH_set_spec [OF t(2) k] by blast
  then show ?thesis
  proof cases
    case 1
    then have "luaH_set (ve_hash E) h k = Inl (ErrRun ''table overflow'')" "2 ^ MAXBITS < entries h + 1"
      by (simp_all add: overflows_def)
    then show ?thesis using vt unfolding settable_first settable_loop.simps by simp
  next
    case 2
    then obtain t1 where t1: "luaH_set (ve_hash E) h k = Inr (t1, tab_slot t1 k)" by (auto simp: found_def)
    let ?h' = "slot_write t1 (tab_slot t1 k) v"
    have m: "t_metatable t1 = 0" using luaH_set_meta [OF t1] t(3) by simp
    obtain t' where t': "store (luaH_set (ve_hash E) h k) v = Inr t'" "tab_ok (ve_hash E) t'"
      "\<forall>k'. live_key k' \<longrightarrow> tab_get t' k' = (if luaO_rawequalObj k k' then v else tab_get h k')"
      using store_found [OF 2 k(1), of v] by blast
    from t'(1) t1 have eq: "t' = ?h'" by (simp add: store_def)
    have "luaV_settable E s (TTab p) k v = Inr (set_table s p ?h')"
      unfolding settable_first settable_loop.simps using vt t1 m by (simp add: Let_def vtab_def set_table_def)
    with t' m show ?thesis unfolding eq by auto
  qed
qed

lemma gettable_plain:
  assumes "tables s p = Some h" "tab_ok (ve_hash E) h" "t_metatable h = 0" "live_key k"
  shows "luaV_gettable E s (TTab p) k = Inr (tab_get h k, s)"
  unfolding gettable_first gettable_loop.simps
  using assms luaH_get_spec [of "ve_hash E" h k] by (simp add: Let_def vtab_def tab_ok_def tab_get_def)

text \<open>
  C28: an assignment \<open>t[k] = v\<close> to a table without metatable either raises "table overflow", when the
  table is full, or makes every later \<open>t[k']\<close> give \<open>v\<close> for an equal key and the old value for
  any other key.
\<close>

theorem settable_gettable:
  assumes "tables s p = Some h" "tab_ok (ve_hash E) h" "t_metatable h = 0"
    and "live_key k" "\<not> is_nan_value k" "live_key k'"
  shows "luaV_settable E s (TTab p) k v = Inl (ErrRun ''table overflow'') \<and> 2 ^ 26 < entries h + 1 \<or>
    (\<exists>s' old. luaV_settable E s (TTab p) k v = Inr s' \<and> luaV_gettable E s (TTab p) k' = Inr (old, s) \<and>
      luaV_gettable E s' (TTab p) k' = Inr (if luaO_rawequalObj k k' then v else old, s'))"
  using settable_plain [OF assms(1-5), of v]
proof
  assume "\<exists>h'. luaV_settable E s (TTab p) k v = Inr (set_table s p h') \<and> tab_ok (ve_hash E) h' \<and> t_metatable h' = 0 \<and>
    (\<forall>k'. live_key k' \<longrightarrow> tab_get h' k' = (if luaO_rawequalObj k k' then v else tab_get h k'))"
  then obtain h' where h': "luaV_settable E s (TTab p) k v = Inr (set_table s p h')" "tab_ok (ve_hash E) h'"
    "t_metatable h' = 0" "tab_get h' k' = (if luaO_rawequalObj k k' then v else tab_get h k')"
    using assms(6) by blast
  have "tables (set_table s p h') p = Some h'" by (simp add: set_table_def)
  from gettable_plain [OF this h'(2,3) assms(6)] gettable_plain [OF assms(1-3,6)] h'(1,4) show ?thesis by simp
qed (simp add: MAXBITS_def)

definition ex_venv :: "unit venv" where
  "ex_venv = \<lparr>svalue = (\<lambda>p. []), strtod = (\<lambda>s. (cast_num 0, 0)), strtoul16 = (\<lambda>s. (0, 0)),
     number2str = (\<lambda>n. ''1''), ar_name = None, ar_line = None,
     ve_hash = (\<lambda>p. unat p), ve_tmname = (\<lambda>tm. 16), ve_call = (\<lambda>s f args. Inr (TNil, s)),
     ve_newstr = (\<lambda>s x. if strs s 24 = None then Inr (24, s\<lparr>strs := (strs s)(24 \<mapsto> x)\<rparr>) else Inl ErrMem), ve_addinfo = (\<lambda>s m. m), ve_objname = (\<lambda>s v. None),
     ve_strcoll = (\<lambda>a b. if a < b then - 1 else if a = b then 0 else 1), ve_pow = (\<lambda>a b. a)\<rparr>"

definition ex_vm :: vm where
  "ex_vm = \<lparr>tables = [8 \<mapsto> ex_table], strs = [16 \<mapsto> ''__index'', 40 \<mapsto> ''ab''], udmeta = (\<lambda>p. 0), gmt = (\<lambda>t. 0)\<rparr>"

lemma settable_gettable_witness:
  "luaV_settable ex_venv ex_vm (TTab 8) (TNumber (cast_num 1)) (TBool False) = Inl (ErrRun ''table overflow'') \<and>
      2 ^ 26 < entries ex_table + 1 \<or>
    (\<exists>s' old. luaV_settable ex_venv ex_vm (TTab 8) (TNumber (cast_num 1)) (TBool False) = Inr s' \<and>
      luaV_gettable ex_venv ex_vm (TTab 8) (TStr 8) = Inr (old, ex_vm) \<and>
      luaV_gettable ex_venv s' (TTab 8) (TStr 8) = Inr (old, s'))"
proof -
  have "tables ex_vm 8 = Some ex_table" "tab_ok (ve_hash ex_venv) ex_table" "t_metatable ex_table = 0"
    using ex_table_ok by (simp_all add: ex_vm_def ex_venv_def ex_table_def empty_table_def)
  from settable_gettable [OF this, of "TNumber (cast_num 1)" "TStr 8" "TBool False"] show ?thesis
    by (simp add: is_nan_value_def luai_numisnan_iff cast_num_parts)
qed

section \<open>Chains of \<open>__index\<close>\<close>

text \<open>One round of the loop of \<open>luaV_gettable\<close>: \<open>t\<close> has no value for the key and \<open>__index\<close> is not a function.\<close>

inductive index_step :: "'a venv \<Rightarrow> 'a vm_scheme \<Rightarrow> TValue \<Rightarrow> TValue \<Rightarrow> TValue \<Rightarrow> bool" for E s key where
  table: "vtab s p = Inr h \<Longrightarrow> luaH_get (ve_hash E) h key = Inr sl \<Longrightarrow> slot_val h sl = TNil \<Longrightarrow>
    fasttm E s (t_metatable h) TM_INDEX = Inr (Some tm, s) \<Longrightarrow> ttype tm \<noteq> LUA_TFUNCTION \<Longrightarrow>
    index_step E s key (TTab p) tm"
| other: "ttype t \<noteq> LUA_TTABLE \<Longrightarrow> luaT_gettmbyobj E s t TM_INDEX = Inr tm \<Longrightarrow> tm \<noteq> TNil \<Longrightarrow>
    ttype tm \<noteq> LUA_TFUNCTION \<Longrightarrow> index_step E s key t tm"

inductive_cases index_stepE: "index_step E s key t tm"

lemma gettable_step:
  assumes "index_step E s key t tm"
  shows "gettable_loop (Suc n) E s t key = gettable_loop n E s tm key"
  using assms
proof cases
  case other
  then show ?thesis by (cases t) (simp_all add: Let_def)
qed (simp add: Let_def)

lemma gettable_steps:
  "(index_step E s key ^^ m) t t' \<Longrightarrow> gettable_loop (m + n) E s t key = gettable_loop n E s t' key"
proof (induction m arbitrary: t)
  case (Suc m)
  from Suc.prems obtain u where "index_step E s key t u" "(index_step E s key ^^ m) u t'"
    by (metis relpowp_Suc_E2)
  with gettable_step [OF this(1), of "m + n"] Suc.IH show ?case by simp
qed simp

text \<open>
  C29: indexing follows a chain of \<open>__index\<close> fields that are not functions to the first table that has
  the key, and raises "loop in gettable" when the chain is 100 long.
\<close>

theorem gettable_follows_index:
  assumes "(index_step E s key ^^ n) t t'"
  shows "(n < 100 \<and> t' = TTab p \<and> vtab s p = Inr h \<and> luaH_get (ve_hash E) h key = Inr sl \<and> slot_val h sl \<noteq> TNil \<longrightarrow>
      luaV_gettable E s t key = Inr (slot_val h sl, s)) \<and>
    (n = 100 \<longrightarrow> luaV_gettable E s t key = Inl (luaG_runerror E s ''loop in gettable''))"
proof
  show "n < 100 \<and> t' = TTab p \<and> vtab s p = Inr h \<and> luaH_get (ve_hash E) h key = Inr sl \<and> slot_val h sl \<noteq> TNil \<longrightarrow>
      luaV_gettable E s t key = Inr (slot_val h sl, s)"
  proof
    assume a: "n < 100 \<and> t' = TTab p \<and> vtab s p = Inr h \<and> luaH_get (ve_hash E) h key = Inr sl \<and> slot_val h sl \<noteq> TNil"
    then have "MAXTAGLOOP = n + Suc (99 - n)" by (simp add: MAXTAGLOOP_def)
    then have "luaV_gettable E s t key = gettable_loop (n + Suc (99 - n)) E s t key"
      by (simp only: luaV_gettable_def)
    also have "\<dots> = gettable_loop (Suc (99 - n)) E s t' key" by (rule gettable_steps [OF assms])
    also have "\<dots> = Inr (slot_val h sl, s)" using a by (simp add: Let_def)
    finally show "luaV_gettable E s t key = Inr (slot_val h sl, s)" .
  qed
  show "n = 100 \<longrightarrow> luaV_gettable E s t key = Inl (luaG_runerror E s ''loop in gettable'')"
    using gettable_steps [OF assms, of 0] by (auto simp: luaV_gettable_def MAXTAGLOOP_def)
qed

text \<open>The example: an empty table whose metatable has \<open>__index\<close> equal to the table itself.\<close>

definition loop_vm :: vm where
  "loop_vm = \<lparr>tables = [8 \<mapsto> empty_table\<lparr>t_metatable := 32\<rparr>,
     32 \<mapsto> empty_table\<lparr>t_flags := 0, t_node := [\<lparr>gval = TTab 8, gkey = TStr 16, gnext = None\<rparr>], t_isdummy := False\<rparr>],
     strs = [16 \<mapsto> ''__index''], udmeta = (\<lambda>p. 0), gmt = (\<lambda>t. 0)\<rparr>"

lemma loop_step: "index_step ex_venv loop_vm (TStr 24) (TTab 8) (TTab 8)"
proof (rule index_step.table)
  let ?h = "empty_table\<lparr>t_metatable := 32\<rparr>"
  show "vtab loop_vm 8 = Inr ?h" by (simp add: vtab_def loop_vm_def)
  show "luaH_get (ve_hash ex_venv) ?h (TStr 24) = Inr SNil"
    by (simp add: luaH_get_def luaH_getstr_def search_node_def empty_table_def nilnode_def hashpow2_def node_slot_def lmod_def)
  show "fasttm ex_venv loop_vm (t_metatable ?h) TM_INDEX = Inr (Some (TTab 8), loop_vm)"
    by (simp add: fasttm_def vtab_def loop_vm_def luaT_gettm_def luaH_getstr_def search_node_def hashpow2_def
        lmod_def ex_venv_def empty_table_def node_slot_def Let_def)
qed (simp_all add: luaO_nilobject_def tag_defs)

lemma gettable_follows_index_witness:
  "luaV_gettable ex_venv loop_vm (TTab 8) (TStr 24) = Inl (luaG_runerror ex_venv loop_vm ''loop in gettable'')"
proof -
  have "(index_step ex_venv loop_vm (TStr 24) ^^ n) (TTab 8) (TTab 8)" for n
    by (induction n) (auto intro: loop_step relcomppI)
  from gettable_follows_index [OF this [of 100]] show ?thesis by simp
qed

section \<open>Comparing strings\<close>

text \<open>The parts of a string between its characters NUL, and their lexicographic comparison.\<close>

function chunks :: "string \<Rightarrow> string list" where
  "chunks s = (if length (cstr s) = length s then [s] else cstr s # chunks (drop (length (cstr s) + 1) s))"
  by pat_completeness auto
termination
proof (relation "measure length", goal_cases)
  case (2 s)
  then show ?case using cstr_le [of s] by auto
qed simp

declare chunks.simps [simp del]

fun compare_chunks :: "(string \<Rightarrow> string \<Rightarrow> int) \<Rightarrow> string list \<Rightarrow> string list \<Rightarrow> int" where
  "compare_chunks c [] [] = 0"
| "compare_chunks c [] ys = - 1"
| "compare_chunks c xs [] = 1"
| "compare_chunks c (x # xs) (y # ys) = (if c x y \<noteq> 0 then c x y else compare_chunks c xs ys)"

text \<open>What \<open>strcoll\<close> promises in the C locale: a linear order on C strings.\<close>

definition strcoll_ok :: "(string \<Rightarrow> string \<Rightarrow> int) \<Rightarrow> bool" where
  "strcoll_ok c \<longleftrightarrow> (\<forall>x y. c x y = 0 \<longleftrightarrow> x = y) \<and> (\<forall>x y. c x y < 0 \<longleftrightarrow> 0 < c y x) \<and>
     (\<forall>x y z. c x y < 0 \<longrightarrow> c y z < 0 \<longrightarrow> c x z < 0)"

lemma strcoll_okD:
  assumes "strcoll_ok c"
  shows "c x y = 0 \<longleftrightarrow> x = y" "c x y < 0 \<longleftrightarrow> 0 < c y x" "c x y < 0 \<Longrightarrow> c y z < 0 \<Longrightarrow> c x z < 0"
  using assms unfolding strcoll_ok_def by blast+

lemma cstr_cases:
  obtains "cstr s = s" "length (cstr s) = length s"
  | rest where "s = cstr s @ CHR 0x00 # rest" "length (cstr s) \<noteq> length s" "drop (length (cstr s) + 1) s = rest"
proof (cases "dropWhile (\<lambda>c. c \<noteq> CHR 0x00) s")
  case Nil
  then have "cstr s = s" using takeWhile_dropWhile_id [of "\<lambda>c. c \<noteq> CHR 0x00" s] by (simp add: cstr_def)
  then show thesis by (intro that(1)) simp_all
next
  case (Cons x rest)
  then have "x = CHR 0x00" by (simp add: dropWhile_eq_Cons_conv)
  with Cons have eq: "cstr s @ CHR 0x00 # rest = s"
    using takeWhile_dropWhile_id [of "\<lambda>c. c \<noteq> CHR 0x00" s] by (simp add: cstr_def)
  have "length (cstr s) + length (CHR 0x00 # rest) = length s" using arg_cong [OF eq, of length] by simp
  then have "length (cstr s) \<noteq> length s" by auto
  moreover have "drop (length (cstr s) + 1) (cstr s @ CHR 0x00 # rest) = rest" by simp
  ultimately show thesis using that(2) [OF eq [symmetric]] unfolding eq by blast
qed

lemma chunks_Cons:
  "chunks s = cstr s # (if length (cstr s) = length s then [] else chunks (drop (length (cstr s) + 1) s))"
  by (subst chunks.simps) (cases s rule: cstr_cases, auto)

lemma chunks_not_Nil [simp]: "chunks s \<noteq> []" "[] \<noteq> chunks s"
  by (subst chunks_Cons, simp)+

lemma compare_chunks_end [simp]: "xs \<noteq> [] \<Longrightarrow> compare_chunks c xs [] = 1" "ys \<noteq> [] \<Longrightarrow> compare_chunks c [] ys = - 1"
  by (cases xs; simp) (cases ys; simp)

lemma l_strcmp_chunks:
  assumes "strcoll_ok c"
  shows "l_strcmp c l r = Inr (compare_chunks c (chunks l) (chunks r))"
  using assms
proof (induction c l r rule: l_strcmp.induct)
  case (1 c l r)
  show ?case
  proof (cases "c (cstr l) (cstr r) = 0")
    case False
    then show ?thesis unfolding l_strcmp.simps [of c l r] chunks_Cons [of l] chunks_Cons [of r] by (simp add: Let_def)
  next
    case True
    then have eq: "cstr r = cstr l" using strcoll_okD(1) [OF 1(2)] by simp
    have IH: "l_strcmp c (drop (length (cstr l) + 1) l) (drop (length (cstr l) + 1) r) =
        Inr (compare_chunks c (chunks (drop (length (cstr l) + 1) l)) (chunks (drop (length (cstr l) + 1) r)))"
      if "length (cstr l) \<noteq> length r" "length (cstr l) \<noteq> length l" "\<not> length r < length (cstr l) + 1"
      by (rule 1(1) [OF refl _ refl that 1(2)]) (use True in simp)
    have le: "length (cstr l) \<le> length r" using cstr_le [of r] eq by simp
    show ?thesis
    proof (cases "length (cstr l) = length r \<or> length (cstr l) = length l")
      case True2: True
      then show ?thesis using True eq
        unfolding l_strcmp.simps [of c l r] chunks_Cons [of l] chunks_Cons [of r] by (auto simp: Let_def)
    next
      case False
      with True eq le IH show ?thesis
        unfolding l_strcmp.simps [of c l r] chunks_Cons [of l] chunks_Cons [of r] by (simp add: Let_def)
    qed
  qed
qed

lemma compare_chunks_order:
  assumes "strcoll_ok c"
  shows "compare_chunks c xs ys = 0 \<longleftrightarrow> xs = ys" "compare_chunks c xs ys < 0 \<longleftrightarrow> 0 < compare_chunks c ys xs"
    "compare_chunks c xs ys < 0 \<Longrightarrow> compare_chunks c ys zs < 0 \<Longrightarrow> compare_chunks c xs zs < 0"
proof -
  note ok = strcoll_okD [OF assms]
  show "compare_chunks c xs ys = 0 \<longleftrightarrow> xs = ys"
  proof (induction xs arbitrary: ys)
    case Nil
    then show ?case by (cases ys) auto
  next
    case (Cons x xs)
    then show ?case using ok(1) by (cases ys) auto
  qed
  show "compare_chunks c xs ys < 0 \<longleftrightarrow> 0 < compare_chunks c ys xs"
  proof (induction xs arbitrary: ys)
    case Nil
    then show ?case by (cases ys) auto
  next
    case (Cons x xs)
    show ?case
    proof (cases ys)
      case (Cons y ys')
      then show ?thesis using Cons.IH [of ys'] ok(1) [of x y] ok(1) [of y x] ok(2) [of x y] by auto
    qed simp
  qed
  show "compare_chunks c xs ys < 0 \<Longrightarrow> compare_chunks c ys zs < 0 \<Longrightarrow> compare_chunks c xs zs < 0"
  proof (induction xs arbitrary: ys zs)
    case Nil
    then show ?case by (cases ys; cases zs) auto
  next
    case (Cons x xs)
    then obtain y ys' z zs' where eqs: "ys = y # ys'" "zs = z # zs'" by (cases ys; cases zs) auto
    show ?case
      using Cons.prems Cons.IH [of ys' zs'] ok(1) [of x y] ok(1) [of y z] ok(1) [of x z] ok(3) [of x y z] ok(2) [of z y] ok(2) [of y x]
      unfolding eqs by (auto split: if_splits)
  qed
qed

lemma chunks_inj: "chunks a = chunks b \<longleftrightarrow> a = b"
proof
  show "chunks a = chunks b \<Longrightarrow> a = b"
  proof (induction "length a" arbitrary: a b rule: less_induct)
    case less
    from less.prems have h: "cstr a = cstr b" unfolding chunks_Cons [of a] chunks_Cons [of b] by simp
    show ?case
    proof (cases a rule: cstr_cases)
      case 1
      with less.prems h show ?thesis unfolding chunks_Cons [of a] chunks_Cons [of b]
        by (cases b rule: cstr_cases) auto
    next
      case (2 ra)
      then have a: "chunks a = cstr a # chunks ra" unfolding chunks_Cons [of a] by simp
      show ?thesis
      proof (cases b rule: cstr_cases)
        case 1
        with a less.prems show ?thesis unfolding chunks_Cons [of b] by simp
      next
        case (2 rb)
        then have b: "chunks b = cstr b # chunks rb" unfolding chunks_Cons [of b] by simp
        have "length ra < length a" using arg_cong [OF \<open>a = cstr a @ CHR 0x00 # ra\<close>, of length] by simp
        with less.hyps [OF this, of rb] a b less.prems have "ra = rb" by simp
        with h \<open>a = cstr a @ CHR 0x00 # ra\<close> \<open>b = cstr b @ CHR 0x00 # rb\<close> show ?thesis by simp
      qed
    qed
  qed
qed simp

text \<open>
  C30: comparing strings with \<open><\<close> never fails and is the strict linear order that compares the
  parts between characters NUL from left to right, and \<open><=\<close> is its reflexive version.
\<close>

theorem string_order:
  assumes "strcoll_ok (ve_strcoll E)"
  shows "\<exists>lt. (\<forall>p q. luaV_lessthan E s (TStr p) (TStr q) = Inr (lt (str_val s p) (str_val s q), s)) \<and>
    (\<forall>p q. lessequal E s (TStr p) (TStr q) = Inr (lt (str_val s p) (str_val s q) \<or> str_val s p = str_val s q, s)) \<and>
    (\<forall>a b. lt a b \<longleftrightarrow> compare_chunks (ve_strcoll E) (chunks a) (chunks b) < 0) \<and>
    (\<forall>a. \<not> lt a a) \<and> (\<forall>a b. a \<noteq> b \<longrightarrow> lt a b \<noteq> lt b a) \<and> (\<forall>a b c. lt a b \<longrightarrow> lt b c \<longrightarrow> lt a c)"
proof -
  define lt where "lt a b \<longleftrightarrow> compare_chunks (ve_strcoll E) (chunks a) (chunks b) < 0" for a b
  note ord = compare_chunks_order [OF assms]
  have le: "compare_chunks (ve_strcoll E) (chunks a) (chunks b) \<le> 0 \<longleftrightarrow> lt a b \<or> a = b" for a b
    using ord(1) [of "chunks a" "chunks b"] chunks_inj [of a b] by (auto simp: lt_def)
  have tot: "lt a b \<noteq> lt b a" if "a \<noteq> b" for a b
  proof -
    have "compare_chunks (ve_strcoll E) (chunks a) (chunks b) \<noteq> 0"
      using ord(1) [of "chunks a" "chunks b"] chunks_inj [of a b] that by simp
    then show ?thesis using ord(2) [of "chunks a" "chunks b"] ord(2) [of "chunks b" "chunks a"] by (auto simp: lt_def)
  qed
  have irr: "\<not> lt a a" for a using ord(1) [of "chunks a" "chunks a"] by (simp add: lt_def)
  have tr: "lt a c" if "lt a b" "lt b c" for a b c using ord(3) that unfolding lt_def by blast
  have less: "luaV_lessthan E s (TStr p) (TStr q) = Inr (lt (str_val s p) (str_val s q), s)" for p q
    by (simp add: luaV_lessthan_def l_strcmp_chunks [OF assms] lt_def)
  have leq: "lessequal E s (TStr p) (TStr q) = Inr (lt (str_val s p) (str_val s q) \<or> str_val s p = str_val s q, s)" for p q
    by (simp add: lessequal_def l_strcmp_chunks [OF assms] le)
  show ?thesis
    by (intro exI [of _ lt] conjI allI impI) (fact less leq irr tot tr lt_def)+
qed

lemma string_order_witness:
  "\<exists>lt. (\<forall>p q. luaV_lessthan ex_venv ex_vm (TStr p) (TStr q) = Inr (lt (str_val ex_vm p) (str_val ex_vm q), ex_vm)) \<and>
    (\<forall>a. \<not> lt a a) \<and> (\<forall>a b. a \<noteq> b \<longrightarrow> lt a b \<noteq> lt b a)"
proof -
  have "strcoll_ok (ve_strcoll ex_venv)" by (auto simp: strcoll_ok_def ex_venv_def)
  from string_order [OF this, of ex_vm] show ?thesis by blast
qed

section \<open>Comparing different types\<close>

text \<open>Comparing a string with a coroutine raises the error "attempt to compare two string values":
  \<open>luaG_ordererror\<close> takes two type names to be equal when their third characters are.
\<close>

theorem compare_string_thread:
  "luaV_lessthan E s (TStr p) (TThr q) = Inl (luaG_runerror E s ''attempt to compare two string values'')"
  by (simp add: luaV_lessthan_def luaG_ordererror_def tag_defs luaT_typenames_def)

section \<open>Concatenation of strings\<close>

text \<open>The string a value stands for in a concatenation.\<close>

fun str_of :: "'a venv \<Rightarrow> 'a vm_scheme \<Rightarrow> TValue \<Rightarrow> string" where
  "str_of E s (TStr p) = str_val s p"
| "str_of E s (TNumber n) = number2str E n"
| "str_of E s _ = []"

text \<open>
  What \<open>luaS_newlstr\<close> promises: the object it returns has the content asked for, other strings keep
  theirs, and it fails only for lack of memory.
\<close>

definition newstr_ok :: "'a venv \<Rightarrow> bool" where
  "newstr_ok E \<longleftrightarrow> (\<forall>s x. case ve_newstr E s x of
     Inl e \<Rightarrow> e = ErrMem
   | Inr (p, s') \<Rightarrow> strs s' p = Some x \<and> (\<forall>q. strs s q \<noteq> None \<longrightarrow> strs s' q = strs s q))"

lemma newstr_okD:
  assumes "newstr_ok E"
  shows "ve_newstr E s x = Inl e \<Longrightarrow> e = ErrMem"
    and "ve_newstr E s x = Inr (p, s') \<Longrightarrow> strs s' p = Some x \<and> strs s \<subseteq>\<^sub>m strs s'"
proof -
  have "case ve_newstr E s x of Inl e \<Rightarrow> e = ErrMem
     | Inr (p, s') \<Rightarrow> strs s' p = Some x \<and> (\<forall>q. strs s q \<noteq> None \<longrightarrow> strs s' q = strs s q)"
    using assms unfolding newstr_ok_def by blast
  then show "ve_newstr E s x = Inl e \<Longrightarrow> e = ErrMem"
    and "ve_newstr E s x = Inr (p, s') \<Longrightarrow> strs s' p = Some x \<and> strs s \<subseteq>\<^sub>m strs s'"
    by (auto simp: map_le_def dom_def)
qed

text \<open>The operands are strings with a content, or numbers.\<close>

definition strnum_at :: "'a vm_scheme \<Rightarrow> TValue \<Rightarrow> bool" where
  "strnum_at s v \<longleftrightarrow> (case v of TStr p \<Rightarrow> strs s p \<noteq> None | TNumber n \<Rightarrow> True | _ \<Rightarrow> False)"

lemma strnum_at_mono: "strnum_at s v \<Longrightarrow> strs s \<subseteq>\<^sub>m strs s' \<Longrightarrow> strnum_at s' v \<and> str_of E s' v = str_of E s v"
  by (cases v) (auto simp: strnum_at_def map_le_def dom_def str_val_def)

lemma strnum_is: "strnum_at s v \<Longrightarrow> is_strnum v"
  by (cases v) (auto simp: strnum_at_def is_strnum_def tag_defs)

lemma tostring_ok:
  assumes "newstr_ok E" "strnum_at s v"
  obtains "tostring E s v = Inl ErrMem"
  | p s' where "tostring E s v = Inr (Some (p, s'))" "strs s' p = Some (str_of E s v)" "strs s \<subseteq>\<^sub>m strs s'"
proof (cases v)
  case (TNumber n)
  show thesis
  proof (cases "ve_newstr E s (number2str E n)")
    case (Inl e)
    with newstr_okD(1) [OF assms(1) Inl] TNumber show thesis by (intro that(1)) (simp add: tostring_def)
  next
    case (Inr r)
    obtain p s' where r: "r = (p, s')" by fastforce
    from newstr_okD(2) [OF assms(1) Inr [unfolded r]] Inr r TNumber show thesis
      by (intro that(2) [of p s']) (simp_all add: tostring_def)
  qed
next
  case (TStr p)
  with assms(2) show thesis by (intro that(2) [of p s]) (auto simp: tostring_def strnum_at_def str_val_def)
qed (use assms(2) in \<open>simp_all add: strnum_at_def\<close>)

lemma str_of_list_mono:
  assumes "\<forall>v \<in> set vs. strnum_at s v" "strs s \<subseteq>\<^sub>m strs s'"
  shows "(\<forall>v \<in> set vs. strnum_at s' v) \<and> map (str_of E s') vs = map (str_of E s) vs"
  using assms strnum_at_mono [OF _ assms(2)] by simp

lemma collect_ok:
  assumes "newstr_ok E" "\<forall>v \<in> set vs. strnum_at s v"
    and "len + length (concat (map (str_of E s) vs)) < MAX_SIZET"
  shows "collect E s vs len acc = Inl ErrMem \<or>
    (\<exists>s'. collect E s vs len acc = Inr (rev (map (str_of E s) vs) @ acc, [], s') \<and> strs s \<subseteq>\<^sub>m strs s')"
  using assms(2,3)
proof (induction vs arbitrary: s len acc)
  case (Cons v vs)
  have v: "strnum_at s v" using Cons.prems(1) by simp
  show ?case
  proof (rule tostring_ok [OF assms(1) v])
    assume "tostring E s v = Inl ErrMem"
    then show ?thesis by simp
  next
    fix p s1 assume t: "tostring E s v = Inr (Some (p, s1))" "strs s1 p = Some (str_of E s v)" "strs s \<subseteq>\<^sub>m strs s1"
    have vs: "\<forall>v \<in> set vs. strnum_at s v" using Cons.prems(1) by simp
    note m = str_of_list_mono [OF vs t(3), of E, THEN conjunct1] str_of_list_mono [OF vs t(3), of E, THEN conjunct2]
    have x: "str_val s1 p = str_of E s v" using t(2) by (simp add: str_val_def)
    have l: "len + length (str_of E s v) + length (concat (map (str_of E s1) vs)) < MAX_SIZET"
      unfolding m(2) using Cons.prems(2) by simp
    have eq: "collect E s (v # vs) len acc = collect E s1 vs (len + length (str_of E s v)) (str_of E s v # acc)"
    proof -
      have "\<not> MAX_SIZET - len \<le> length (str_of E s v)" using l by linarith
      with t(1) x show ?thesis by (simp add: Let_def)
    qed
    from Cons.IH [OF m(1) l, of "str_of E s v # acc"] show ?thesis
      unfolding eq m(2) using map_le_trans [OF t(3)] by auto
  qed
qed simp

lemma concat_loop_strings:
  assumes ok: "newstr_ok E"
  shows "\<forall>v \<in> set ws. strnum_at s v \<Longrightarrow> 2 \<le> length ws \<or> (\<exists>p. ws = [TStr p]) \<Longrightarrow>
    length (concat (map (str_of E s) (rev ws))) < MAX_SIZET \<Longrightarrow>
    concat_loop E s ws = Inl ErrMem \<or>
    (\<exists>p s'. concat_loop E s ws = Inr (TStr p, s') \<and> strs s' p = Some (concat (map (str_of E s) (rev ws))))"
proof (induction "length ws" arbitrary: ws s rule: less_induct)
  case less
  show ?case
  proof (cases "\<exists>p. ws = [TStr p]")
    case True
    then obtain p where "ws = [TStr p]" by blast
    then show ?thesis using less.prems(1) by (auto simp: strnum_at_def str_val_def)
  next
    case False
    with less.prems(2) obtain x1 x2 vs where ws: "ws = x1 # x2 # vs" by (cases ws; cases "tl ws") auto
    have c: "strnum_at s x1" "strnum_at s x2" "\<forall>v \<in> set vs. strnum_at s v" using less.prems(1) ws by auto
    show ?thesis
    proof (rule tostring_ok [OF ok c(1)])
      assume "tostring E s x1 = Inl ErrMem"
      then show ?thesis using strnum_is [OF c(2)] unfolding ws by (simp add: concat_loop.simps(3))
    next
      fix p1 s1 assume t1: "tostring E s x1 = Inr (Some (p1, s1))" "strs s1 p1 = Some (str_of E s x1)" "strs s \<subseteq>\<^sub>m strs s1"
      have x1: "str_val s1 p1 = str_of E s x1" using t1(2) by (simp add: str_val_def)
      have c1: "\<forall>v \<in> set (x2 # vs). strnum_at s1 v" and m1: "map (str_of E s1) (x2 # vs) = map (str_of E s) (x2 # vs)"
        using str_of_list_mono [of "x2 # vs" s s1 E] c(2,3) t1(3) by auto
      show ?thesis
      proof (cases "str_of E s x1 = []")
        case True
        show ?thesis
        proof (rule tostring_ok [OF ok, of s1 x2])
          show "strnum_at s1 x2" using c1 by simp
        next
          assume "tostring E s1 x2 = Inl ErrMem"
          then show ?thesis using t1 True x1 strnum_is [OF c(2)] unfolding ws by (simp add: concat_loop.simps(3))
        next
          fix p2 s2 assume t2: "tostring E s1 x2 = Inr (Some (p2, s2))" "strs s2 p2 = Some (str_of E s1 x2)" "strs s1 \<subseteq>\<^sub>m strs s2"
          have c2: "\<forall>v \<in> set vs. strnum_at s2 v" and m2: "map (str_of E s2) vs = map (str_of E s1) vs"
            using str_of_list_mono [of vs s1 s2 E] c1 t2(3) by auto
          have all: "map (str_of E s2) (rev (TStr p2 # vs)) = map (str_of E s) (rev (x2 # vs))"
            using m1 m2 t2(2) by (simp add: str_val_def rev_map)
          have "concat_loop E s2 (TStr p2 # vs) = Inl ErrMem \<or> (\<exists>p s'. concat_loop E s2 (TStr p2 # vs) = Inr (TStr p, s') \<and>
              strs s' p = Some (concat (map (str_of E s2) (rev (TStr p2 # vs)))))"
          proof (rule less.hyps)
            show "2 \<le> length (TStr p2 # vs) \<or> (\<exists>p. TStr p2 # vs = [TStr p])" by (cases vs) auto
            show "length (concat (map (str_of E s2) (rev (TStr p2 # vs)))) < MAX_SIZET"
              unfolding all using less.prems(3) ws True by simp
          qed (use ws c2 t2(2) in \<open>auto simp: strnum_at_def\<close>)
          then show ?thesis
            unfolding all using True t1(1) t2(1) x1 strnum_is [OF c(2)] unfolding ws by (simp add: concat_loop.simps(3))
        qed
      next
        case False
        have "length (str_of E s x1) + length (concat (map (str_of E s1) (x2 # vs))) < MAX_SIZET"
          unfolding m1 using less.prems(3) ws
          by (simp add: length_concat sum_list_rev rev_map [symmetric] add.commute add.left_commute)
        from collect_ok [OF ok c1 this, of "[str_of E s x1]"] show ?thesis
        proof
          assume "collect E s1 (x2 # vs) (length (str_of E s x1)) [str_of E s x1] = Inl ErrMem"
          then show ?thesis using False t1(1) x1 strnum_is [OF c(2)] unfolding ws
            by (simp add: concat_loop.simps(3) del: collect.simps)
        next
          assume "\<exists>s'. collect E s1 (x2 # vs) (length (str_of E s x1)) [str_of E s x1] =
            Inr (rev (map (str_of E s1) (x2 # vs)) @ [str_of E s x1], [], s') \<and> strs s1 \<subseteq>\<^sub>m strs s'"
          then obtain s2 where col: "collect E s1 (x2 # vs) (length (str_of E s x1)) [str_of E s x1] =
            Inr (rev (map (str_of E s1) (x2 # vs)) @ [str_of E s x1], [], s2)" by blast
          have all: "concat (rev (map (str_of E s1) (x2 # vs)) @ [str_of E s x1]) = concat (map (str_of E s) (rev ws))"
            unfolding m1 ws by (simp add: rev_map)
          have run: "concat_loop E s ws = bindr (ve_newstr E s2 (concat (map (str_of E s) (rev ws))))
              (\<lambda>(p, s). Inr (TStr p, s))"
            using False t1(1) x1 col strnum_is [OF c(2)] unfolding all [symmetric] unfolding ws
            by (simp add: concat_loop.simps(3) del: collect.simps)
          show ?thesis
          proof (cases "ve_newstr E s2 (concat (map (str_of E s) (rev ws)))")
            case (Inl e)
            with run newstr_okD(1) [OF ok Inl] show ?thesis by simp
          next
            case (Inr r)
            obtain p s3 where r: "r = (p, s3)" by fastforce
            with run Inr newstr_okD(2) [OF ok Inr [unfolded r]] show ?thesis by simp
          qed
        qed
      qed
    qed
  qed
qed

text \<open>
  C31: \<open>a .. b .. c\<close> on strings and numbers gives a string with the contents of the operands one
  after the other, however the machine groups them; it fails only for lack of memory.
\<close>

theorem concat_strings:
  assumes "newstr_ok E" "\<forall>v \<in> set vs. strnum_at s v" "2 \<le> length vs"
    and "length (concat (map (str_of E s) vs)) < MAX_SIZET"
  shows "luaV_concat E s vs = Inl ErrMem \<or>
    (\<exists>p s'. luaV_concat E s vs = Inr (TStr p, s') \<and> strs s' p = Some (concat (map (str_of E s) vs)))"
  using concat_loop_strings [OF assms(1), of "rev vs" s] assms(2-4) by (simp add: luaV_concat_def)

lemma concat_strings_witness:
  "\<exists>s'. luaV_concat ex_venv ex_vm [TStr 40, TStr 16] = Inr (TStr 24, s') \<and> strs s' 24 = Some ''ab__index''"
proof -
  have ok: "newstr_ok ex_venv" by (auto simp: newstr_ok_def ex_venv_def)
  have "\<forall>v \<in> set [TStr 40, TStr 16]. strnum_at ex_vm v" by (simp add: strnum_at_def ex_vm_def)
  from concat_strings [OF ok this] have
    r: "luaV_concat ex_venv ex_vm [TStr 40, TStr 16] = Inl ErrMem \<or>
      (\<exists>p s'. luaV_concat ex_venv ex_vm [TStr 40, TStr 16] = Inr (TStr p, s') \<and> strs s' p = Some ''ab__index'')"
    by (simp add: str_val_def ex_vm_def MAX_SIZET_def)
  have "\<exists>s'. luaV_concat ex_venv ex_vm [TStr 40, TStr 16] = Inr (TStr 24, s')"
    by (simp add: luaV_concat_def concat_loop.simps(3) is_strnum_def tag_defs tostring_def ex_vm_def ex_venv_def
        str_val_def MAX_SIZET_def Let_def)
  with r show ?thesis by auto
qed

end
