(* ===== verification/LuaTabSort.thy ===== *)
theory LuaTabSort
  imports LuaTabLib LuaMeta
begin

text \<open>
  \<open>table.sort\<close> (ltablib.c): the quicksort \<open>auxsort\<close> on the elements 1 to \<open>n\<close> of a table, with
  the median of three as pivot and recursion on the smaller part. An arbitrary order function may
  change the state and make the loop on the larger part go on for ever, so \<open>auxsort\<close> has fuel; with
  a consistent order \<open>n + 1\<close> steps are enough.
\<close>

section \<open>The code\<close>

text \<open>The stack holds \<open>v1\<close> over \<open>v2\<close>.\<close>

definition set2 :: "'s api \<Rightarrow> ptr \<Rightarrow> int \<Rightarrow> int \<Rightarrow> TValue \<Rightarrow> TValue \<Rightarrow> 's \<Rightarrow> 's res" where
  "set2 A t i j v1 v2 s = bindr (api_rawseti A s t i v1) (\<lambda>s. api_rawseti A s t j v2)"

definition sort_comp :: "'s api \<Rightarrow> TValue \<Rightarrow> 's \<Rightarrow> TValue \<Rightarrow> TValue \<Rightarrow> (bool \<times> 's) res" where
  "sort_comp A f s a b =
     (if f \<noteq> TNil then bindr (api_call A s f [a, b]) (\<lambda>(r, s). Inr (\<not> l_isfalse r, s))
      else api_lessthan A s a b)"

definition bad_order :: "lib_env \<Rightarrow> lua_error" where
  "bad_order E = luaL_error E ''invalid order function for sorting''"

text \<open>\<open>while (a[++i] < P)\<close>, with the element found.\<close>

function scan_up :: "lib_env \<Rightarrow> 's api \<Rightarrow> TValue \<Rightarrow> ptr \<Rightarrow> int \<Rightarrow> TValue \<Rightarrow> int \<Rightarrow> 's \<Rightarrow> (int \<times> TValue \<times> 's) res" where
  "scan_up E A f t u P i s =
     bindr (api_rawgeti A s t (i + 1)) (\<lambda>v.
     bindr (sort_comp A f s v P) (\<lambda>(b, s).
     if b then
       if u < i + 1 then Inl (bad_order E) else scan_up E A f t u P (i + 1) s
     else Inr (i + 1, v, s)))"
  by pat_completeness auto
termination by (relation "measure (\<lambda>(E, A, f, t, u, P, i, s). nat (u - i))") auto

text \<open>\<open>while (P < a[--j])\<close>\<close>

function scan_down :: "lib_env \<Rightarrow> 's api \<Rightarrow> TValue \<Rightarrow> ptr \<Rightarrow> int \<Rightarrow> TValue \<Rightarrow> int \<Rightarrow> 's \<Rightarrow> (int \<times> TValue \<times> 's) res" where
  "scan_down E A f t l P j s =
     bindr (api_rawgeti A s t (j - 1)) (\<lambda>v.
     bindr (sort_comp A f s P v) (\<lambda>(b, s).
     if b then
       if j - 1 < l then Inl (bad_order E) else scan_down E A f t l P (j - 1) s
     else Inr (j - 1, v, s)))"
  by pat_completeness auto
termination by (relation "measure (\<lambda>(E, A, f, t, l, P, j, s). nat (j - l))") auto

declare scan_up.simps [simp del] scan_down.simps [simp del]

lemma scan_up_gt: "scan_up E A f t u P i s = Inr (i', v, s') \<Longrightarrow> i < i'"
proof (induction E A f t u P i s rule: scan_up.induct)
  case (1 E A f t u P i s)
  from 1(2) obtain w b s1 where g: "api_rawgeti A s t (i + 1) = Inr w" "sort_comp A f s w P = Inr (b, s1)"
    and r: "(if b then if u < i + 1 then Inl (bad_order E) else scan_up E A f t u P (i + 1) s1
             else Inr (i + 1, w, s1)) = Inr (i', v, s')"
    unfolding scan_up.simps [of E A f t u P i s] by (auto simp: bindr_Inr_iff)
  show ?case using 1(1) [OF g refl] r by (cases b; cases "u < i + 1") auto
qed

lemma scan_down_lt: "scan_down E A f t l P j s = Inr (j', v, s') \<Longrightarrow> j' < j"
proof (induction E A f t l P j s rule: scan_down.induct)
  case (1 E A f t l P j s)
  from 1(2) obtain w b s1 where g: "api_rawgeti A s t (j - 1) = Inr w" "sort_comp A f s P w = Inr (b, s1)"
    and r: "(if b then if j - 1 < l then Inl (bad_order E) else scan_down E A f t l P (j - 1) s1
             else Inr (j - 1, w, s1)) = Inr (j', v, s')"
    unfolding scan_down.simps [of E A f t l P j s] by (auto simp: bindr_Inr_iff)
  show ?case using 1(1) [OF g refl] r by (cases b; cases "j - 1 < l") auto
qed

text \<open>The loop \<open>for (;;)\<close> of the partition; it gives the final \<open>i\<close>.\<close>

function part_loop :: "lib_env \<Rightarrow> 's api \<Rightarrow> TValue \<Rightarrow> ptr \<Rightarrow> int \<Rightarrow> int \<Rightarrow> TValue \<Rightarrow> int \<Rightarrow> int \<Rightarrow> 's \<Rightarrow> (int \<times> 's) res" where
  "part_loop E A f t l u P i j s =
     bindr (scan_up E A f t u P i s) (\<lambda>(i', ai, s).
     bindr (scan_down E A f t l P j s) (\<lambda>(j', aj, s).
     if j' < i' then Inr (i', s)
     else bindr (set2 A t i' j' aj ai s) (\<lambda>s. part_loop E A f t l u P i' j' s)))"
  by pat_completeness auto
termination
  by (relation "measure (\<lambda>(E, A, f, t, l, u, P, i, j, s). nat (j - i))")
    (auto dest!: scan_up_gt scan_down_lt)

declare part_loop.simps [simp del]

definition sort_ends :: "'s api \<Rightarrow> TValue \<Rightarrow> ptr \<Rightarrow> int \<Rightarrow> int \<Rightarrow> 's \<Rightarrow> 's res" where
  "sort_ends A f t l u s =
     bindr (api_rawgeti A s t l) (\<lambda>al.
     bindr (api_rawgeti A s t u) (\<lambda>au.
     bindr (sort_comp A f s au al) (\<lambda>(b, s).
     if b then set2 A t l u au al s else Inr s)))"

definition sort_middle :: "'s api \<Rightarrow> TValue \<Rightarrow> ptr \<Rightarrow> int \<Rightarrow> int \<Rightarrow> int \<Rightarrow> 's \<Rightarrow> 's res" where
  "sort_middle A f t l i u s =
     bindr (api_rawgeti A s t i) (\<lambda>ai.
     bindr (api_rawgeti A s t l) (\<lambda>al.
     bindr (sort_comp A f s ai al) (\<lambda>(b, s).
     if b then set2 A t i l al ai s
     else
       bindr (api_rawgeti A s t u) (\<lambda>au.
       bindr (sort_comp A f s au ai) (\<lambda>(b, s).
       if b then set2 A t i u au ai s else Inr s)))))"

definition partition_at :: "lib_env \<Rightarrow> 's api \<Rightarrow> TValue \<Rightarrow> ptr \<Rightarrow> int \<Rightarrow> int \<Rightarrow> int \<Rightarrow> 's \<Rightarrow> (int \<times> 's) res" where
  "partition_at E A f t l i u s =
     bindr (api_rawgeti A s t i) (\<lambda>P.
     bindr (api_rawgeti A s t (u - 1)) (\<lambda>x.
     bindr (set2 A t i (u - 1) x P s) (\<lambda>s.
     bindr (part_loop E A f t l u P l (u - 1) s) (\<lambda>(i, s).
     bindr (api_rawgeti A s t (u - 1)) (\<lambda>x.
     bindr (api_rawgeti A s t i) (\<lambda>y.
     bindr (set2 A t (u - 1) i y x s) (\<lambda>s. Inr (i, s))))))))"

fun auxsort :: "nat \<Rightarrow> lib_env \<Rightarrow> 's api \<Rightarrow> TValue \<Rightarrow> ptr \<Rightarrow> int \<Rightarrow> int \<Rightarrow> 's \<Rightarrow> 's res" where
  "auxsort 0 E A f t l u s = Inl ErrFuel"
| "auxsort (Suc fuel) E A f t l u s =
     (if l < u then
        bindr (sort_ends A f t l u s) (\<lambda>s.
        if u - l = 1 then Inr s
        else
          bindr (int_add l u) (\<lambda>lu.
          let i = lu div 2 in
          bindr (sort_middle A f t l i u s) (\<lambda>s.
          if u - l = 2 then Inr s
          else
            bindr (partition_at E A f t l i u s) (\<lambda>(i, s).
            if i - l < u - i
            then bindr (auxsort fuel E A f t l (i - 1) s) (\<lambda>s. auxsort fuel E A f t (i + 1) u s)
            else bindr (auxsort fuel E A f t (i + 1) u s) (\<lambda>s. auxsort fuel E A f t l (i - 1) s)))))
      else Inr s)"

definition sort_tab :: "nat \<Rightarrow> lib_env \<Rightarrow> 's api \<Rightarrow> TValue list \<Rightarrow> 's \<Rightarrow> (TValue list \<times> 's) res" where
  "sort_tab fuel E A args s =
     bindr (aux_getn E A args 1 s) (\<lambda>n.
     bindr (if \<not> lua_isnoneornil args 2 then luaL_checktype E args 2 LUA_TFUNCTION else Inr ()) (\<lambda>_.
     bindr (auxsort fuel E A (arg_value args 2) (gcvalue (arg_value args 1)) 1 n s) (\<lambda>s. Inr ([], s))))"

section \<open>Rearranging a range\<close>

text \<open>\<open>w\<close> has the elements of \<open>v\<close>, rearranged between \<open>a\<close> and \<open>b\<close>.\<close>

definition perm_on :: "int \<Rightarrow> int \<Rightarrow> (int \<Rightarrow> TValue) \<Rightarrow> (int \<Rightarrow> TValue) \<Rightarrow> bool" where
  "perm_on a b v w \<longleftrightarrow> (\<forall>k. k \<notin> {a..b} \<longrightarrow> w k = v k) \<and>
     image_mset w (mset_set {a..b}) = image_mset v (mset_set {a..b})"

lemma perm_on_refl [simp]: "perm_on a b v v"
  by (simp add: perm_on_def)

lemma perm_on_trans: "perm_on a b u v \<Longrightarrow> perm_on a b v w \<Longrightarrow> perm_on a b u w"
  by (simp add: perm_on_def)

lemma perm_on_image: "perm_on a b v w \<Longrightarrow> w ` {a..b} = v ` {a..b}"
  unfolding perm_on_def by (metis finite_atLeastAtMost_int finite_set_mset_mset_set set_image_mset)

lemma perm_on_all:
  assumes "perm_on a b v w" "\<And>k. a \<le> k \<Longrightarrow> k \<le> b \<Longrightarrow> Q (v k)" "a \<le> k" "k \<le> b"
  shows "Q (w k)"
proof -
  have "w k \<in> w ` {a..b}" using assms(3,4) by simp
  then obtain j where "j \<in> {a..b}" "w k = v j" unfolding perm_on_image [OF assms(1)] by blast
  with assms(2) show ?thesis by simp
qed

lemma perm_on_outside: "perm_on a b v w \<Longrightarrow> k < a \<or> b < k \<Longrightarrow> w k = v k"
  by (auto simp: perm_on_def)

lemma perm_on_mono:
  assumes "perm_on a b v w" "a' \<le> a" "b \<le> b'"
  shows "perm_on a' b' v w"
proof -
  define R where "R = {a'..b'} - {a..b}"
  have set_eq: "mset_set {a'..b'} = mset_set R + mset_set {a..b}" if "a \<le> b"
  proof -
    have u: "{a'..b'} = R \<union> {a..b}" using that assms(2,3) by (auto simp: R_def)
    show ?thesis unfolding u by (rule mset_set_Union) (auto simp: R_def)
  qed
  have R: "w k = v k" if "k \<in> R" for k using that assms(1) by (simp add: perm_on_def R_def)
  then have "image_mset w (mset_set R) = image_mset v (mset_set R)"
    by (intro image_mset_cong) (simp add: R_def)
  moreover have "w = v" if "\<not> a \<le> b" using that assms(1) by (intro ext) (simp add: perm_on_def)
  moreover have "w k = v k" if "k \<notin> {a'..b'}" for k
    using that assms by (intro perm_on_outside [OF assms(1)]) auto
  ultimately show ?thesis using set_eq assms(1) by (cases "a \<le> b") (simp_all add: perm_on_def)
qed

lemma perm_on_swap:
  assumes "i \<in> {a..b}" "j \<in> {a..b}"
  shows "perm_on a b v (v(i := v j, j := v i))"
proof -
  let ?w = "v(i := v j, j := v i)" and ?R = "{a..b} - {i, j}"
  have eq: "image_mset ?w (mset_set ?R) = image_mset v (mset_set ?R)" by (rule image_mset_cong) auto
  have "image_mset ?w (mset_set {a..b}) = image_mset v (mset_set {a..b})"
  proof (cases "i = j")
    case False
    have u: "insert i (insert j ?R) = {a..b}" using assms by auto
    have "mset_set (insert i (insert j ?R)) = add_mset i (add_mset j (mset_set ?R))" using False by simp
    then have "mset_set {a..b} = add_mset i (add_mset j (mset_set ?R))" unfolding u .
    with eq False show ?thesis by (simp add: add_mset_commute)
  qed simp
  with assms show ?thesis by (auto simp: perm_on_def)
qed

text \<open>The multiset of the elements of a range, as a list reads them.\<close>

lemma perm_on_list:
  assumes "perm_on 1 (int n) v w"
  shows "mset (map (\<lambda>i. w (int i + 1)) [0..<n]) = mset (map (\<lambda>i. v (int i + 1)) [0..<n])"
proof -
  have "bij_betw (\<lambda>i. int i + 1) {0..<n} {1..int n}"
    by (rule bij_betw_byWitness [where f' = "\<lambda>k. nat (k - 1)"]) auto
  then have "image_mset (\<lambda>i. int i + 1) (mset_set {0..<n}) = mset_set {1..int n}"
    by (simp add: image_mset_mset_set bij_betw_def)
  note eq = this
  have "image_mset u (mset_set {1..int n}) = mset (map (\<lambda>i. u (int i + 1)) [0..<n])" for u :: "int \<Rightarrow> TValue"
    unfolding eq [symmetric] by (simp add: image_mset.compositionality comp_def)
  with assms show ?thesis by (simp add: perm_on_def)
qed

section \<open>Sorting with a consistent order\<close>

text \<open>
  What \<open>sort\<close> relies on: on the elements of the table (\<open>good\<close>) the order function answers, without
  changing anything, as a strict weak order \<open>lt\<close> does.
\<close>

locale sort_table = seq_table ok A t val room
  for ok :: "'s \<Rightarrow> bool" and A :: "'s api" and t :: ptr and val :: "'s \<Rightarrow> int \<Rightarrow> TValue" and room :: "'s \<Rightarrow> bool" +
  fixes f :: TValue and lt :: "TValue \<Rightarrow> TValue \<Rightarrow> bool" and good :: "TValue \<Rightarrow> bool"
  assumes comp: "ok s \<Longrightarrow> good a \<Longrightarrow> good b \<Longrightarrow> sort_comp A f s a b = Inr (lt a b, s)"
    and good_nonnil: "good a \<Longrightarrow> a \<noteq> TNil"
    and asym: "good a \<Longrightarrow> good b \<Longrightarrow> lt a b \<Longrightarrow> \<not> lt b a"
    and neg_trans: "good a \<Longrightarrow> good b \<Longrightarrow> good c \<Longrightarrow> \<not> lt b a \<Longrightarrow> \<not> lt c b \<Longrightarrow> \<not> lt c a"
begin

definition rep :: "'s \<Rightarrow> (int \<Rightarrow> TValue) \<Rightarrow> bool" where
  "rep s v \<longleftrightarrow> ok s \<and> (\<forall>k. c_int k \<longrightarrow> val s k = v k)"

definition goods :: "int \<Rightarrow> int \<Rightarrow> (int \<Rightarrow> TValue) \<Rightarrow> bool" where
  "goods l u v \<longleftrightarrow> 1 \<le> l \<and> u < 2 ^ 30 \<and> (\<forall>k. l \<le> k \<longrightarrow> k \<le> u \<longrightarrow> good (v k))"

lemma goodsD: "goods l u v \<Longrightarrow> l \<le> k \<Longrightarrow> k \<le> u \<Longrightarrow> good (v k)"
  by (simp add: goods_def)

lemma goods_c_int: "goods l u v \<Longrightarrow> l - 1 \<le> k \<Longrightarrow> k \<le> u + 1 \<Longrightarrow> c_int k"
  by (simp add: goods_def c_int_def)

lemma goods_perm: "goods l u v \<Longrightarrow> perm_on l u v w \<Longrightarrow> goods l u w"
  unfolding goods_def by (blast intro: perm_on_all [where Q = good])

lemma goods_sub: "goods l u v \<Longrightarrow> l \<le> l' \<Longrightarrow> u' \<le> u \<Longrightarrow> goods l' u' v"
  by (auto simp: goods_def)

lemma irrefl: "good a \<Longrightarrow> \<not> lt a a"
  using asym by blast

lemma rep_ok: "rep s v \<Longrightarrow> ok s"
  by (simp add: rep_def)

lemma rep_get: "rep s v \<Longrightarrow> c_int i \<Longrightarrow> api_rawgeti A s t i = Inr (v i)"
  using geti by (simp add: rep_def)

lemma rep_set:
  assumes "rep s v" "c_int i" "v i \<noteq> TNil"
  obtains s' where "api_rawseti A s t i x = Inr s'" "rep s' (v(i := x))"
proof -
  have "ok s" "val s i \<noteq> TNil \<or> room s" using assms by (simp_all add: rep_def)
  from seti_step [OF this(1) assms(2) this(2), of x] obtain s' where
    "api_rawseti A s t i x = Inr s'" "ok s'" "\<And>k. c_int k \<Longrightarrow> val s' k = (if k = i then x else val s k)" by blast
  with assms(1) show thesis by (intro that [of s']) (simp_all add: rep_def)
qed

lemma set2_swap:
  assumes "rep s v" "goods l u v" "l \<le> i" "i \<le> u" "l \<le> j" "j \<le> u"
  obtains s' where "set2 A t i j (v j) (v i) s = Inr s'" "rep s' (v(i := v j, j := v i))"
    "perm_on l u v (v(i := v j, j := v i))"
proof -
  have nn: "v i \<noteq> TNil" "v j \<noteq> TNil" using assms(2-6) goodsD good_nonnil by auto
  have c: "c_int i" "c_int j" using goods_c_int [OF assms(2)] assms(3-6) by simp_all
  from rep_set [OF assms(1) c(1) nn(1)] obtain s1 where
    s1: "api_rawseti A s t i (v j) = Inr s1" "rep s1 (v(i := v j))" by blast
  have "(v(i := v j)) j \<noteq> TNil" using nn by simp
  from rep_set [OF s1(2) c(2) this] obtain s2 where
    "api_rawseti A s1 t j (v i) = Inr s2" "rep s2 (v(i := v j, j := v i))" by blast
  with s1(1) perm_on_swap [of i l u j v] assms(3-6) show thesis by (intro that [of s2]) (simp_all add: set2_def)
qed

lemma scan_up_spec:
  assumes "rep s v" "goods l u v" "good P" "l - 1 \<le> i" "i < m" "m \<le> u" "\<not> lt (v m) P"
  shows "\<exists>i'. scan_up E A f t u P i s = Inr (i', v i', s) \<and> i < i' \<and> i' \<le> m \<and> \<not> lt (v i') P \<and>
    (\<forall>k. i < k \<and> k < i' \<longrightarrow> lt (v k) P)"
  using assms(4-6)
proof (induction "nat (m - i)" arbitrary: i)
  case (Suc d)
  have g: "api_rawgeti A s t (i + 1) = Inr (v (i + 1))"
    by (rule rep_get [OF assms(1)], rule goods_c_int [OF assms(2)]) (use Suc.prems in auto)
  have "good (v (i + 1))" by (rule goodsD [OF assms(2)]) (use Suc.prems in auto)
  from comp [OF rep_ok [OF assms(1)] this assms(3)] have
    c: "sort_comp A f s (v (i + 1)) P = Inr (lt (v (i + 1)) P, s)" .
  show ?case
  proof (cases "lt (v (i + 1)) P")
    case False
    with g c show ?thesis by (intro exI [of _ "i + 1"]) (use Suc.prems in \<open>auto simp: scan_up.simps [of E A f t u P i]\<close>)
  next
    case True
    with assms(7) have "i + 1 \<noteq> m" by auto
    with Suc.prems have lt: "i + 1 < m" by simp
    have "d = nat (m - (i + 1))" using Suc.hyps(2) by simp
    from Suc.hyps(1) [OF this] lt Suc.prems obtain i' where
      i': "scan_up E A f t u P (i + 1) s = Inr (i', v i', s)" "i + 1 < i'" "i' \<le> m" "\<not> lt (v i') P"
        "\<And>k. i + 1 < k \<Longrightarrow> k < i' \<Longrightarrow> lt (v k) P" by auto
    have "scan_up E A f t u P i s = Inr (i', v i', s)"
      using g c True i'(1) lt Suc.prems by (simp add: scan_up.simps [of E A f t u P i])
    moreover have "lt (v k) P" if "i < k" "k < i'" for k
      using that i'(5) [of k] True by (cases "k = i + 1") auto
    ultimately show ?thesis using i'(2-4) by (intro exI [of _ i']) auto
  qed
qed simp

lemma scan_down_spec:
  assumes "rep s v" "goods l u v" "good P" "j \<le> u + 1" "m < j" "l \<le> m" "\<not> lt P (v m)"
  shows "\<exists>j'. scan_down E A f t l P j s = Inr (j', v j', s) \<and> j' < j \<and> m \<le> j' \<and> \<not> lt P (v j') \<and>
    (\<forall>k. j' < k \<and> k < j \<longrightarrow> lt P (v k))"
  using assms(4-6)
proof (induction "nat (j - m)" arbitrary: j)
  case (Suc d)
  have g: "api_rawgeti A s t (j - 1) = Inr (v (j - 1))"
    by (rule rep_get [OF assms(1)], rule goods_c_int [OF assms(2)]) (use Suc.prems in auto)
  have "good (v (j - 1))" by (rule goodsD [OF assms(2)]) (use Suc.prems in auto)
  from comp [OF rep_ok [OF assms(1)] assms(3) this] have
    c: "sort_comp A f s P (v (j - 1)) = Inr (lt P (v (j - 1)), s)" .
  show ?case
  proof (cases "lt P (v (j - 1))")
    case False
    with g c show ?thesis by (intro exI [of _ "j - 1"]) (use Suc.prems in \<open>auto simp: scan_down.simps [of E A f t l P j]\<close>)
  next
    case True
    with assms(7) have "j - 1 \<noteq> m" by auto
    with Suc.prems have lt: "m < j - 1" by simp
    have "d = nat (j - 1 - m)" using Suc.hyps(2) by simp
    from Suc.hyps(1) [OF this] lt Suc.prems obtain j' where
      j': "scan_down E A f t l P (j - 1) s = Inr (j', v j', s)" "j' < j - 1" "m \<le> j'" "\<not> lt P (v j')"
        "\<And>k. j' < k \<Longrightarrow> k < j - 1 \<Longrightarrow> lt P (v k)" by auto
    have "scan_down E A f t l P j s = Inr (j', v j', s)"
      using g c True j'(1) lt Suc.prems by (simp add: scan_down.simps [of E A f t l P j])
    moreover have "lt P (v k)" if "j' < k" "k < j" for k
      using that j'(5) [of k] True by (cases "k = j - 1") auto
    ultimately show ?thesis using j'(2-4) by (intro exI [of _ j']) auto
  qed
qed simp

text \<open>The partition: elements not above \<open>P\<close> up to \<open>i\<close>, not below \<open>P\<close> from \<open>j\<close> on.\<close>

lemma part_spec:
  assumes "rep s v" "goods l u v" "good P" "l \<le> i" "i \<le> j" "j \<le> u" "l < j" "i < u"
    and "\<And>k. l \<le> k \<Longrightarrow> k \<le> i \<Longrightarrow> \<not> lt P (v k)" "\<And>k. j \<le> k \<Longrightarrow> k \<le> u \<Longrightarrow> \<not> lt (v k) P"
  shows "\<exists>i' s' w. part_loop E A f t l u P i j s = Inr (i', s') \<and> rep s' w \<and> perm_on (i + 1) (j - 1) v w \<and>
    i < i' \<and> i' \<le> max j (i + 1) \<and> (\<forall>k. l \<le> k \<and> k < i' \<longrightarrow> \<not> lt P (w k)) \<and>
    (\<forall>k. i' \<le> k \<and> k \<le> u \<longrightarrow> \<not> lt (w k) P)"
  using assms
proof (induction "nat (j - i)" arbitrary: i j s v rule: less_induct)
  case less
  note rep = less.prems(1) and gs = less.prems(2) and P = less.prems(3) and b = less.prems(4-8)
    and below = less.prems(9) and above = less.prems(10)
  let ?mu = "max j (i + 1)" and ?md = "min i (j - 1)"
  have good: "good (v k)" if "l \<le> k" "k \<le> u" for k by (rule goodsD [OF gs that])
  have mu: "i < ?mu" "?mu \<le> u" "j \<le> ?mu" using b by (simp_all add: max_def)
  from scan_up_spec [OF rep gs P _ mu(1,2) above [OF mu(3,2)], of E] b obtain i' where
    i': "scan_up E A f t u P i s = Inr (i', v i', s)" "i < i'" "i' \<le> ?mu" "\<not> lt (v i') P"
      "\<And>k. i < k \<Longrightarrow> k < i' \<Longrightarrow> lt (v k) P" by auto
  have md: "?md < j" "l \<le> ?md" "?md \<le> i" using b by (simp_all add: min_def)
  from scan_down_spec [OF rep gs P _ md(1,2) below [OF md(2,3)], of E] b obtain j' where
    j': "scan_down E A f t l P j s = Inr (j', v j', s)" "j' < j" "?md \<le> j'" "\<not> lt P (v j')"
      "\<And>k. j' < k \<Longrightarrow> k < j \<Longrightarrow> lt P (v k)" by auto
  have i'u: "i' \<le> u" and j'l: "l \<le> j'" using i'(3) j'(3) b by auto
  have low: "\<not> lt P (v k)" if "l \<le> k" "k < i'" for k
    using that below [of k] i'(5) [of k] asym [OF _ P, of "v k"] good [of k] i'u by (cases "k \<le> i") auto
  have high: "\<not> lt (v k) P" if "j' < k" "k \<le> u" for k
    using that above [of k] j'(5) [of k] asym [OF P, of "v k"] good [of k] j'l by (cases "j \<le> k") auto
  show ?case
  proof (cases "j' < i'")
    case True
    have "part_loop E A f t l u P i j s = Inr (i', s)"
      using i'(1) j'(1) True by (simp add: part_loop.simps [of E A f t l u P i j])
    moreover have "\<not> lt (v k) P" if "i' \<le> k" "k \<le> u" for k
      using that i'(4) high [of k] True by auto
    ultimately show ?thesis using rep i'(2,3) low by (intro exI [of _ i'] exI [of _ s] exI [of _ v]) auto
  next
    case False
    then have ij: "i' \<le> j'" by simp
    let ?w = "v(i' := v j', j' := v i')"
    have rng: "l \<le> i'" "i' \<le> u" "l \<le> j'" "j' \<le> u" using b i'(2) i'u j'l j'(2) by auto
    from set2_swap [OF rep gs rng] obtain s1 where
      s1: "set2 A t i' j' (v j') (v i') s = Inr s1" "rep s1 ?w" "perm_on l u v ?w" by blast
    have wlow: "\<not> lt P (?w k)" if "l \<le> k" "k \<le> i'" for k
      using that low [of k] j'(4) ij by (cases "k = i'") auto
    have whigh: "\<not> lt (?w k) P" if "j' \<le> k" "k \<le> u" for k
      using that high [of k] i'(4) ij by (cases "k = j'") auto
    have m: "nat (j' - i') < nat (j - i)" using i'(2) j'(2) b(2) ij by linarith
    have b': "l < j'" "i' < u" using i'(2) j'(2) b ij by linarith+
    from less.hyps [OF m s1(2) goods_perm [OF gs s1(3)] P rng(1) ij rng(4) b' wlow whigh] obtain i2 s2 w2 where
      r: "part_loop E A f t l u P i' j' s1 = Inr (i2, s2)" "rep s2 w2" "perm_on (i' + 1) (j' - 1) ?w w2"
        "i' < i2" "i2 \<le> max j' (i' + 1)" "\<forall>k. l \<le> k \<and> k < i2 \<longrightarrow> \<not> lt P (w2 k)"
        "\<forall>k. i2 \<le> k \<and> k \<le> u \<longrightarrow> \<not> lt (w2 k) P" by blast
    have "part_loop E A f t l u P i j s = Inr (i2, s2)"
      using i'(1) j'(1) False s1(1) r(1) by (simp add: part_loop.simps [of E A f t l u P i j])
    moreover have "perm_on (i + 1) (j - 1) v w2"
    proof (rule perm_on_trans)
      show "perm_on (i + 1) (j - 1) v ?w" by (rule perm_on_swap) (use i'(2) j'(2) ij in auto)
      show "perm_on (i + 1) (j - 1) ?w w2" by (rule perm_on_mono [OF r(3)]) (use i'(2) j'(2) in auto)
    qed
    moreover have "i < i2" "i2 \<le> max j (i + 1)" using r(4,5) i'(2) j'(2) ij by auto
    ultimately show ?thesis using r(2,6,7) by blast
  qed
qed

lemma ends_spec:
  assumes "rep s v" "goods l u v" "l < u"
  shows "\<exists>s' w. sort_ends A f t l u s = Inr s' \<and> rep s' w \<and> perm_on l u v w \<and> \<not> lt (w u) (w l)"
proof -
  have c: "c_int l" "c_int u" and g: "good (v l)" "good (v u)"
    using goods_c_int [OF assms(2)] goodsD [OF assms(2)] assms(3) by auto
  have get: "api_rawgeti A s t l = Inr (v l)" "api_rawgeti A s t u = Inr (v u)"
    using rep_get [OF assms(1)] c by blast+
  show ?thesis
  proof (cases "lt (v u) (v l)")
    case True
    from set2_swap [OF assms(1,2), of l u] assms(3) obtain s' where
      "set2 A t l u (v u) (v l) s = Inr s'" "rep s' (v(l := v u, u := v l))"
      "perm_on l u v (v(l := v u, u := v l))" by auto
    with True get comp [OF rep_ok [OF assms(1)] g(2,1)] asym [OF g(2,1) True] assms(3) show ?thesis
      by (intro exI [of _ s'] exI [of _ "v(l := v u, u := v l)"]) (simp add: sort_ends_def)
  next
    case False
    with get comp [OF rep_ok [OF assms(1)] g(2,1)] assms(1) show ?thesis
      by (intro exI [of _ s] exI [of _ v]) (simp add: sort_ends_def)
  qed
qed

lemma middle_spec:
  assumes "rep s v" "goods l u v" "l < i" "i < u" "\<not> lt (v u) (v l)"
  shows "\<exists>s' w. sort_middle A f t l i u s = Inr s' \<and> rep s' w \<and> perm_on l u v w \<and>
    \<not> lt (w i) (w l) \<and> \<not> lt (w u) (w i)"
proof -
  have c: "c_int l" "c_int i" "c_int u" and g: "good (v l)" "good (v i)" "good (v u)"
    using goods_c_int [OF assms(2)] goodsD [OF assms(2)] assms(3,4) by auto
  have get: "api_rawgeti A s t l = Inr (v l)" "api_rawgeti A s t i = Inr (v i)" "api_rawgeti A s t u = Inr (v u)"
    using rep_get [OF assms(1)] c by blast+
  note cmp = comp [OF rep_ok [OF assms(1)] g(2,1)] comp [OF rep_ok [OF assms(1)] g(3,2)]
  consider "lt (v i) (v l)" | "\<not> lt (v i) (v l)" "lt (v u) (v i)" | "\<not> lt (v i) (v l)" "\<not> lt (v u) (v i)" by blast
  then show ?thesis
  proof cases
    case 1
    from set2_swap [OF assms(1,2), of i l] assms(3,4) obtain s' where
      "set2 A t i l (v l) (v i) s = Inr s'" "rep s' (v(i := v l, l := v i))"
      "perm_on l u v (v(i := v l, l := v i))" by auto
    with 1 get cmp asym [OF g(2,1) 1] assms(3-5) show ?thesis
      by (intro exI [of _ s'] exI [of _ "v(i := v l, l := v i)"]) (simp add: sort_middle_def)
  next
    case 2
    from set2_swap [OF assms(1,2), of i u] assms(3,4) obtain s' where
      "set2 A t i u (v u) (v i) s = Inr s'" "rep s' (v(i := v u, u := v i))"
      "perm_on l u v (v(i := v u, u := v i))" by auto
    with 2 get cmp asym [OF g(3,2)] assms(3-5) show ?thesis
      by (intro exI [of _ s'] exI [of _ "v(i := v u, u := v i)"]) (simp add: sort_middle_def)
  next
    case 3
    with get cmp assms(1) show ?thesis
      by (intro exI [of _ s] exI [of _ v]) (simp add: sort_middle_def)
  qed
qed

lemma partition_spec:
  assumes "rep s v" "goods l u v" "l < i" "i < u" "3 \<le> u - l" "\<not> lt (v i) (v l)" "\<not> lt (v u) (v i)"
  shows "\<exists>i' s' w. partition_at E A f t l i u s = Inr (i', s') \<and> rep s' w \<and> perm_on l u v w \<and>
    l < i' \<and> i' < u \<and> (\<forall>k. l \<le> k \<and> k < i' \<longrightarrow> \<not> lt (w i') (w k)) \<and>
    (\<forall>k. i' < k \<and> k \<le> u \<longrightarrow> \<not> lt (w k) (w i'))"
proof -
  let ?P = "v i" and ?v1 = "v(i := v (u - 1), u - 1 := v i)"
  have g: "good ?P" using goodsD [OF assms(2)] assms(3,4) by auto
  have c: "c_int i" "c_int (u - 1)" using goods_c_int [OF assms(2)] assms(3,4) by auto
  have rng: "l \<le> i" "i \<le> u" "l \<le> u - 1" "u - 1 \<le> u" using assms(3-5) by auto
  from set2_swap [OF assms(1,2) rng] obtain s1 where
    s1: "set2 A t i (u - 1) (v (u - 1)) ?P s = Inr s1" "rep s1 ?v1" "perm_on l u v ?v1" by blast
  have low: "\<not> lt ?P (?v1 k)" if "l \<le> k" "k \<le> l" for k using that assms(3,5,6) by simp
  have high: "\<not> lt (?v1 k) ?P" if k: "u - 1 \<le> k" "k \<le> u" for k
  proof -
    consider "k = u - 1" | "k = u" using k by linarith
    then show ?thesis by cases (use irrefl [OF g] assms(4,7) in auto)
  qed
  have b: "l \<le> u - 1" "l < u - 1" "l < u" using assms(5) by linarith+
  from part_spec [OF s1(2) goods_perm [OF assms(2) s1(3)] g order.refl b(1) rng(4) b(2,3) low high, of E]
  obtain i' s2 w where p: "part_loop E A f t l u ?P l (u - 1) s1 = Inr (i', s2)" "rep s2 w"
    "perm_on (l + 1) (u - 1 - 1) ?v1 w" "l < i'" "i' \<le> max (u - 1) (l + 1)"
    "\<forall>k. l \<le> k \<and> k < i' \<longrightarrow> \<not> lt ?P (w k)" "\<forall>k. i' \<le> k \<and> k \<le> u \<longrightarrow> \<not> lt (w k) ?P" by blast
  have i'u: "i' \<le> u - 1" using p(5) b by (simp add: max_def split: if_splits)
  have P: "w (u - 1) = ?P" using perm_on_outside [OF p(3), of "u - 1"] by simp
  have pw: "perm_on l u v w"
    by (rule perm_on_trans [OF s1(3)]) (rule perm_on_mono [OF p(3)], auto)
  have rng': "l \<le> u - 1" "u - 1 \<le> u" "l \<le> i'" "i' \<le> u" using p(4) i'u b by auto
  let ?w = "w(u - 1 := w i', i' := w (u - 1))"
  from set2_swap [OF p(2) goods_perm [OF assms(2) pw] rng'] obtain s3 where
    s3: "set2 A t (u - 1) i' (w i') (w (u - 1)) s2 = Inr s3" "rep s3 ?w" "perm_on l u w ?w" by blast
  have "c_int i'" using goods_c_int [OF assms(2)] rng' by simp
  with s1(1) p(1) s3(1) rep_get [OF assms(1)] rep_get [OF p(2)] c
  have "partition_at E A f t l i u s = Inr (i', s3)" by (simp add: partition_at_def)
  moreover have "perm_on l u v ?w" by (rule perm_on_trans [OF pw s3(3)])
  moreover have "?w i' = ?P" using P by simp
  moreover have "\<not> lt ?P (?w k)" if "l \<le> k" "k < i'" for k using p(6) that i'u by simp
  moreover have "\<not> lt (?w k) ?P" if "i' < k" "k \<le> u" for k
    using p(7) that i'u by (cases "k = u - 1") auto
  ultimately show ?thesis using s3(2) p(4) i'u by (intro exI [of _ i'] exI [of _ s3] exI [of _ ?w]) auto
qed

definition sorted_on :: "int \<Rightarrow> int \<Rightarrow> (int \<Rightarrow> TValue) \<Rightarrow> bool" where
  "sorted_on l u w \<longleftrightarrow> (\<forall>j k. l \<le> j \<and> j \<le> k \<and> k \<le> u \<longrightarrow> \<not> lt (w k) (w j))"

lemma sorted_single:
  assumes "goods l u v" "u \<le> l"
  shows "sorted_on l u v"
  unfolding sorted_on_def
proof (intro allI impI)
  fix j k assume jk: "l \<le> j \<and> j \<le> k \<and> k \<le> u"
  with assms(2) have "j = k" by linarith
  with jk show "\<not> lt (v k) (v j)" using irrefl goodsD [OF assms(1)] by auto
qed

lemma sorted_combine:
  assumes "goods l u y" "sorted_on l (i - 1) y" "sorted_on (i + 1) u y" "l \<le> i" "i \<le> u"
    and "\<And>k. l \<le> k \<Longrightarrow> k \<le> i - 1 \<Longrightarrow> \<not> lt (y i) (y k)"
    and "\<And>k. i + 1 \<le> k \<Longrightarrow> k \<le> u \<Longrightarrow> \<not> lt (y k) (y i)"
  shows "sorted_on l u y"
  unfolding sorted_on_def
proof (intro allI impI)
  fix j k assume jk: "l \<le> j \<and> j \<le> k \<and> k \<le> u"
  have g: "good (y x)" if "l \<le> x" "x \<le> u" for x by (rule goodsD [OF assms(1) that])
  have gs: "good (y j)" "good (y i)" "good (y k)" using g jk assms(4,5) by auto
  have low: "\<not> lt (y i) (y j)" if "j \<le> i"
    using that assms(6) [of j] irrefl [OF gs(2)] jk by (cases "j = i") auto
  have high: "\<not> lt (y k) (y i)" if "i \<le> k"
    using that assms(7) [of k] irrefl [OF gs(2)] jk by (cases "k = i") auto
  consider "k \<le> i - 1" | "i + 1 \<le> j" | "j \<le> i" "i \<le> k" by linarith
  then show "\<not> lt (y k) (y j)"
  proof cases
    case 1 with assms(2) jk show ?thesis by (simp add: sorted_on_def)
  next
    case 2 with assms(3) jk show ?thesis by (simp add: sorted_on_def)
  next
    case 3 with neg_trans [OF gs low high] show ?thesis by simp
  qed
qed

lemma sorted_two:
  assumes "goods l u v" "u - l = 1" "\<not> lt (v u) (v l)"
  shows "sorted_on l u v"
  unfolding sorted_on_def
proof (intro allI impI)
  fix j k assume jk: "l \<le> j \<and> j \<le> k \<and> k \<le> u"
  with assms(2) consider "j = k" | "j = l" "k = u" by linarith
  then show "\<not> lt (v k) (v j)" by cases (use jk irrefl goodsD [OF assms(1)] assms(3) in auto)
qed

lemma sorted_three:
  assumes "goods l u v" "u - l = 2" "l < i" "i < u" "\<not> lt (v i) (v l)" "\<not> lt (v u) (v i)"
  shows "sorted_on l u v"
proof -
  have eq: "i = l + 1" "u = i + 1" using assms(2-4) by auto
  show ?thesis
  proof (rule sorted_combine [OF assms(1), of i])
    show "sorted_on l (i - 1) v" by (rule sorted_single [OF goods_sub [OF assms(1)]]) (use eq in auto)
    show "sorted_on (i + 1) u v" by (rule sorted_single [OF goods_sub [OF assms(1)]]) (use eq in auto)
    show "\<not> lt (v i) (v k)" if "l \<le> k" "k \<le> i - 1" for k
    proof -
      have "k = l" using that eq by simp
      with assms(5) show ?thesis by simp
    qed
    show "\<not> lt (v k) (v i)" if "i + 1 \<le> k" "k \<le> u" for k
    proof -
      have "k = u" using that eq by simp
      with assms(6) show ?thesis by simp
    qed
  qed (use assms(3,4) in auto)
qed

text \<open>Sorting two disjoint ranges one after the other.\<close>

definition sorts :: "nat \<Rightarrow> lib_env \<Rightarrow> int \<Rightarrow> int \<Rightarrow> bool" where
  "sorts n E l u \<longleftrightarrow> (\<forall>s v. rep s v \<longrightarrow> goods l u v \<longrightarrow>
     (\<exists>s' w. auxsort n E A f t l u s = Inr s' \<and> rep s' w \<and> perm_on l u v w \<and> sorted_on l u w))"

lemma sorts_two:
  assumes "sorts n E a b" "sorts n E c d" "b < c \<or> d < a" "rep s v" "goods a b v" "goods c d v"
  shows "\<exists>s' y. bindr (auxsort n E A f t a b s) (\<lambda>s. auxsort n E A f t c d s) = Inr s' \<and> rep s' y \<and>
    perm_on (min a c) (max b d) v y \<and> (\<forall>k. \<not> (a \<le> k \<and> k \<le> b) \<longrightarrow> \<not> (c \<le> k \<and> k \<le> d) \<longrightarrow> y k = v k) \<and>
    sorted_on a b y \<and> sorted_on c d y \<and>
    (\<forall>Q. (\<forall>k. a \<le> k \<and> k \<le> b \<longrightarrow> Q (v k)) \<longrightarrow> (\<forall>k. a \<le> k \<and> k \<le> b \<longrightarrow> Q (y k))) \<and>
    (\<forall>Q. (\<forall>k. c \<le> k \<and> k \<le> d \<longrightarrow> Q (v k)) \<longrightarrow> (\<forall>k. c \<le> k \<and> k \<le> d \<longrightarrow> Q (y k)))"
proof -
  from assms(1) assms(4,5) obtain s1 x where
    x: "auxsort n E A f t a b s = Inr s1" "rep s1 x" "perm_on a b v x" "sorted_on a b x"
    unfolding sorts_def by blast
  have eqx: "x k = v k" if "\<not> (a \<le> k \<and> k \<le> b)" for k by (rule perm_on_outside [OF x(3)]) (use that in auto)
  have "goods c d x" using assms(3,6) by (auto simp: goods_def eqx)
  with assms(2) x(2) obtain s2 y where
    y: "auxsort n E A f t c d s1 = Inr s2" "rep s2 y" "perm_on c d x y" "sorted_on c d y"
    unfolding sorts_def by blast
  have eqy: "y k = x k" if "\<not> (c \<le> k \<and> k \<le> d)" for k by (rule perm_on_outside [OF y(3)]) (use that in auto)
  have yx: "y k = x k" if "a \<le> k" "k \<le> b" for k by (rule eqy) (use that assms(3) in auto)
  have xv: "x k = v k" if "c \<le> k" "k \<le> d" for k by (rule eqx) (use that assms(3) in auto)
  have "perm_on (min a c) (max b d) v y"
    by (rule perm_on_trans [OF perm_on_mono [OF x(3)] perm_on_mono [OF y(3)]]) auto
  moreover have "sorted_on a b y" using x(4) yx by (simp add: sorted_on_def)
  moreover have "Q (y k)" if "\<forall>k. a \<le> k \<and> k \<le> b \<longrightarrow> Q (v k)" "a \<le> k \<and> k \<le> b" for Q k
    using perm_on_all [OF x(3), of Q k] that yx by simp
  moreover have "Q (y k)" if "\<forall>k. c \<le> k \<and> k \<le> d \<longrightarrow> Q (v k)" "c \<le> k \<and> k \<le> d" for Q k
    using perm_on_all [OF y(3), of Q k] that xv by simp
  ultimately show ?thesis using x(1) y(1,2,4) eqx eqy by (intro exI [of _ s2] exI [of _ y]) auto
qed

lemma sorts_parts:
  assumes "sorts n E l (i - 1)" "sorts n E (i + 1) u" "rep s v" "goods l u v" "l < i" "i < u"
    and "\<forall>k. l \<le> k \<and> k < i \<longrightarrow> \<not> lt (v i) (v k)" "\<forall>k. i < k \<and> k \<le> u \<longrightarrow> \<not> lt (v k) (v i)"
  shows "\<exists>s' y. (if i - l < u - i
      then bindr (auxsort n E A f t l (i - 1) s) (\<lambda>s. auxsort n E A f t (i + 1) u s)
      else bindr (auxsort n E A f t (i + 1) u s) (\<lambda>s. auxsort n E A f t l (i - 1) s)) = Inr s' \<and>
    rep s' y \<and> perm_on l u v y \<and> sorted_on l u y"
proof -
  have sub: "goods l (i - 1) v" "goods (i + 1) u v" using assms(5,6) by (auto intro: goods_sub [OF assms(4)])
  have fin: "sorted_on l u y"
    if y: "perm_on l u v y" "y i = v i" "sorted_on l (i - 1) y" "sorted_on (i + 1) u y"
      "\<forall>Q. (\<forall>k. l \<le> k \<and> k \<le> i - 1 \<longrightarrow> Q (v k)) \<longrightarrow> (\<forall>k. l \<le> k \<and> k \<le> i - 1 \<longrightarrow> Q (y k))"
      "\<forall>Q. (\<forall>k. i + 1 \<le> k \<and> k \<le> u \<longrightarrow> Q (v k)) \<longrightarrow> (\<forall>k. i + 1 \<le> k \<and> k \<le> u \<longrightarrow> Q (y k))" for y
  proof (rule sorted_combine [OF goods_perm [OF assms(4) y(1)] y(3,4)])
    show "\<not> lt (y i) (y k)" if "l \<le> k" "k \<le> i - 1" for k
      using y(5) [rule_format, of "\<lambda>a. \<not> lt (y i) a" k] that assms(7) y(2) by auto
    show "\<not> lt (y k) (y i)" if "i + 1 \<le> k" "k \<le> u" for k
      using y(6) [rule_format, of "\<lambda>a. \<not> lt a (y i)" k] that assms(8) y(2) by auto
  qed (use assms(5,6) in auto)
  have m: "min l (i + 1) = l" "max (i - 1) u = u" "min (i + 1) l = l" "max u (i - 1) = u" using assms(5,6) by auto
  show ?thesis
  proof (cases "i - l < u - i")
    case True
    have "i - 1 < i + 1 \<or> u < l" by simp
    from sorts_two [OF assms(1,2) this assms(3) sub, unfolded m] obtain s' y where
      r: "bindr (auxsort n E A f t l (i - 1) s) (\<lambda>s. auxsort n E A f t (i + 1) u s) = Inr s'" "rep s' y"
        "perm_on l u v y" "\<forall>k. \<not> (l \<le> k \<and> k \<le> i - 1) \<longrightarrow> \<not> (i + 1 \<le> k \<and> k \<le> u) \<longrightarrow> y k = v k"
        "sorted_on l (i - 1) y" "sorted_on (i + 1) u y"
      and q: "\<forall>Q. (\<forall>k. l \<le> k \<and> k \<le> i - 1 \<longrightarrow> Q (v k)) \<longrightarrow> (\<forall>k. l \<le> k \<and> k \<le> i - 1 \<longrightarrow> Q (y k))"
        "\<forall>Q. (\<forall>k. i + 1 \<le> k \<and> k \<le> u \<longrightarrow> Q (v k)) \<longrightarrow> (\<forall>k. i + 1 \<le> k \<and> k \<le> u \<longrightarrow> Q (y k))"
      by (elim exE conjE)
    have "y i = v i" using r(4) by simp
    from fin [OF r(3) this r(5,6) q] r(1-3) True show ?thesis by (simp only: if_True) blast
  next
    case False
    have "u < l \<or> i - 1 < i + 1" by simp
    from sorts_two [OF assms(2,1) this assms(3) sub(2,1), unfolded m] obtain s' y where
      r: "bindr (auxsort n E A f t (i + 1) u s) (\<lambda>s. auxsort n E A f t l (i - 1) s) = Inr s'" "rep s' y"
        "perm_on l u v y" "\<forall>k. \<not> (i + 1 \<le> k \<and> k \<le> u) \<longrightarrow> \<not> (l \<le> k \<and> k \<le> i - 1) \<longrightarrow> y k = v k"
        "sorted_on (i + 1) u y" "sorted_on l (i - 1) y"
      and q: "\<forall>Q. (\<forall>k. i + 1 \<le> k \<and> k \<le> u \<longrightarrow> Q (v k)) \<longrightarrow> (\<forall>k. i + 1 \<le> k \<and> k \<le> u \<longrightarrow> Q (y k))"
        "\<forall>Q. (\<forall>k. l \<le> k \<and> k \<le> i - 1 \<longrightarrow> Q (v k)) \<longrightarrow> (\<forall>k. l \<le> k \<and> k \<le> i - 1 \<longrightarrow> Q (y k))"
      by (elim exE conjE)
    have "y i = v i" using r(4) by simp
    from fin [OF r(3) this r(6,5) q(2,1)] r(1-3) False show ?thesis by (simp only: if_False) blast
  qed
qed

text \<open>Enough fuel sorts the range, permutes it and changes nothing else.\<close>

lemma auxsort_spec:
  assumes "nat (u - l + 1) < fuel"
  shows "sorts fuel E l u"
  using assms
proof (induction fuel arbitrary: l u)
  case (Suc n)
  show ?case unfolding sorts_def
  proof (intro allI impI)
    fix s v assume rep: "rep s v" and gs: "goods l u v"
    show "\<exists>s' w. auxsort (Suc n) E A f t l u s = Inr s' \<and> rep s' w \<and> perm_on l u v w \<and> sorted_on l u w"
    proof (cases "l < u")
      case False
      with rep sorted_single [OF gs] show ?thesis by auto
    next
      case lu: True
      from ends_spec [OF rep gs lu] obtain s1 v1 where
        e: "sort_ends A f t l u s = Inr s1" "rep s1 v1" "perm_on l u v v1" "\<not> lt (v1 u) (v1 l)" by blast
      note gs1 = goods_perm [OF gs e(3)]
      show ?thesis
      proof (cases "u - l = 1")
        case True
        with e sorted_two [OF gs1 True e(4)] lu show ?thesis by auto
      next
        case ne1: False
        define i where "i = (l + u) div 2"
        have i: "l < i" "i < u" using lu ne1 by (auto simp: i_def)
        have sum: "int_add l u = Inr (l + u)" using gs lu by (simp add: int_add_def goods_def c_int_def)
        from middle_spec [OF e(2) gs1 i e(4)] obtain s2 v2 where
          m: "sort_middle A f t l i u s1 = Inr s2" "rep s2 v2" "perm_on l u v1 v2"
            "\<not> lt (v2 i) (v2 l)" "\<not> lt (v2 u) (v2 i)" by blast
        note p2 = perm_on_trans [OF e(3) m(3)]
        note gs2 = goods_perm [OF gs p2]
        show ?thesis
        proof (cases "u - l = 2")
          case True
          from sorted_three [OF gs2 True i m(4,5)] m(1,2) p2 e(1) sum True lu show ?thesis
            by (simp add: i_def) blast
        next
          case False
          with ne1 lu have len: "3 \<le> u - l" by linarith
          from partition_spec [OF m(2) gs2 i len m(4,5), of E] obtain i' s3 v3 where
            p: "partition_at E A f t l i u s2 = Inr (i', s3)" "rep s3 v3" "perm_on l u v2 v3" "l < i'" "i' < u"
              "\<forall>k. l \<le> k \<and> k < i' \<longrightarrow> \<not> lt (v3 i') (v3 k)" "\<forall>k. i' < k \<and> k \<le> u \<longrightarrow> \<not> lt (v3 k) (v3 i')" by blast
          note p3 = perm_on_trans [OF p2 p(3)]
          have "nat (i' - 1 - l + 1) < n" "nat (u - (i' + 1) + 1) < n" using p(4,5) Suc.prems by auto
          from sorts_parts [OF Suc.IH [OF this(1)] Suc.IH [OF this(2)] p(2) goods_perm [OF gs p3] p(4-7)]
          obtain s4 v4 where r: "(if i' - l < u - i'
              then bindr (auxsort n E A f t l (i' - 1) s3) (\<lambda>s. auxsort n E A f t (i' + 1) u s)
              else bindr (auxsort n E A f t (i' + 1) u s3) (\<lambda>s. auxsort n E A f t l (i' - 1) s)) = Inr s4"
            "rep s4 v4" "perm_on l u v3 v4" "sorted_on l u v4" by blast
          have "auxsort (Suc n) E A f t l u s = Inr s4"
            using lu ne1 False e(1) sum m(1) p(1) r(1) by (simp add: i_def Let_def)
          with r(2,4) perm_on_trans [OF p3 r(3)] show ?thesis by blast
        qed
      qed
    qed
  qed
qed simp

lemma sort_range:
  assumes "ok s" "n < 2 ^ 30" "\<And>k. 1 \<le> k \<Longrightarrow> k \<le> n \<Longrightarrow> good (val s k)" "nat n < fuel"
  shows "\<exists>s' w. auxsort fuel E A f t 1 n s = Inr s' \<and> ok s' \<and> (\<forall>k. c_int k \<longrightarrow> val s' k = w k) \<and>
    perm_on 1 n (val s) w \<and> (\<forall>j k. 1 \<le> j \<and> j \<le> k \<and> k \<le> n \<longrightarrow> \<not> lt (w k) (w j))"
proof -
  have "rep s (val s)" "goods 1 n (val s)" using assms(1-3) by (simp_all add: rep_def goods_def)
  moreover have "sorts fuel E 1 n" by (rule auxsort_spec) (use assms(4) in simp)
  ultimately show ?thesis unfolding sorts_def rep_def sorted_on_def by blast
qed

end

section \<open>Sorting tables of the interpreter\<close>

text \<open>The order of \<open>luaV_lessthan\<close>, on the heap of tables.\<close>

definition vm_lessthan :: "unit venv \<Rightarrow> vm \<Rightarrow> heap \<Rightarrow> TValue \<Rightarrow> TValue \<Rightarrow> (bool \<times> heap) res" where
  "vm_lessthan E s h a b = bindr (luaV_lessthan E (s\<lparr>tables := h\<rparr>) a b) (\<lambda>(r, s). Inr (r, tables s))"

definition num_good :: "TValue \<Rightarrow> bool" where
  "num_good v \<longleftrightarrow> (\<exists>n. v = TNumber n \<and> \<not> num_isnan n)"

fun num_less :: "TValue \<Rightarrow> TValue \<Rightarrow> bool" where
  "num_less (TNumber a) (TNumber b) = num_lt a b"
| "num_less _ _ = False"

interpretation numsort: sort_table "heap_ok sh p h0" "heap_api sh call (vm_lessthan E s) mk" p "heap_val p"
    "heap_room p" TNil num_less num_good
  for sh p h0 call E s mk
proof unfold_locales
  show "sort_comp (heap_api sh call (vm_lessthan E s) mk) TNil h a b = Inr (num_less a b, h)"
    if "num_good a" "num_good b" for h a b
    using that by (auto simp: num_good_def sort_comp_def heap_api_def vm_lessthan_def luaV_lessthan_def)
qed (auto simp: num_good_def num_lt_def)

text \<open>
  C24: \<open>table.sort\<close> of a table that holds a list, by an order function (or \<open><\<close>) that answers like a
  strict weak order on its elements, ends within \<open>n + 2\<close> steps of \<open>auxsort\<close>; the table then holds the same
  elements in ascending order and no other table is changed.
\<close>

theorem sort_sorts:
  assumes "list_at sh h p xs" "length xs < 2 ^ 30" "f = TNil \<or> ttype f = LUA_TFUNCTION"
    and "\<forall>h' a b. a \<in> set xs \<longrightarrow> b \<in> set xs \<longrightarrow> sort_comp (heap_api sh call lt mk) f h' a b = Inr (lss a b, h')"
    and "\<forall>a b. a \<in> set xs \<longrightarrow> b \<in> set xs \<longrightarrow> lss a b \<longrightarrow> \<not> lss b a"
    and "\<forall>a b c. a \<in> set xs \<longrightarrow> b \<in> set xs \<longrightarrow> c \<in> set xs \<longrightarrow> \<not> lss b a \<longrightarrow> \<not> lss c b \<longrightarrow> \<not> lss c a"
  shows "\<exists>h' ys. sort_tab (length xs + 2) E (heap_api sh call lt mk) [TTab p, f] h = Inr ([], h') \<and>
    list_at sh h' p ys \<and> mset ys = mset xs \<and> (\<forall>i j. i \<le> j \<and> j < length ys \<longrightarrow> \<not> lss (ys ! j) (ys ! i)) \<and>
    (\<forall>q. q \<noteq> p \<longrightarrow> h' q = h q)"
proof -
  let ?A = "heap_api sh call lt mk" and ?n = "length xs"
  have seq: "seq_of (heap_val p h) xs" and ok: "heap_ok sh p h h" using list_at_heap [OF assms(1)] by auto
  have nil: "TNil \<notin> set xs" using seq by (simp add: seq_of_def)
  have st: "sort_table (heap_ok sh p h) ?A p (heap_val p) (heap_room p) f lss (\<lambda>v. v \<in> set xs)"
    by (rule sort_table.intro [OF htab.seq_table_axioms], rule sort_table_axioms.intro)
      (use assms(4-6) nil in blast)+
  have val: "heap_val p h (int i + 1) = xs ! i" if "i < ?n" for i using seq_nth [OF seq that] .
  have g: "heap_val p h k \<in> set xs" if "1 \<le> k" "k \<le> int ?n" for k
  proof -
    have "nat (k - 1) < ?n" "int (nat (k - 1)) + 1 = k" using that by auto
    with val [OF this(1)] show ?thesis by simp
  qed
  have n30: "int ?n < 2 ^ 30" using assms(2) by simp
  note range = sort_table.sort_range [OF st]
  have fuel: "nat (int ?n) < ?n + 2" by simp
  have "\<exists>h' w. auxsort (?n + 2) E ?A f p 1 (int ?n) h = Inr h' \<and> heap_ok sh p h h' \<and>
      (\<forall>k. c_int k \<longrightarrow> heap_val p h' k = w k) \<and> perm_on 1 (int ?n) (heap_val p h) w \<and>
      (\<forall>j k. 1 \<le> j \<and> j \<le> k \<and> k \<le> int ?n \<longrightarrow> \<not> lss (w k) (w j))"
    by (rule range [OF ok n30 _ fuel]) (rule g)
  then obtain h' w where
    r1: "auxsort (?n + 2) E ?A f p 1 (int ?n) h = Inr h'" "heap_ok sh p h h'" "\<forall>k. c_int k \<longrightarrow> heap_val p h' k = w k"
      "perm_on 1 (int ?n) (heap_val p h) w"
      "\<forall>j k. 1 \<le> j \<and> j \<le> k \<and> k \<le> int ?n \<longrightarrow> \<not> lss (w k) (w j)"
    by (elim exE conjE)
  note r = r1(1,2) r1(3) [rule_format] r1(4) r1(5) [rule_format]
  let ?ys = "map (\<lambda>i. w (int i + 1)) [0..<?n]"
  have "mset ?ys = mset (map (\<lambda>i. heap_val p h (int i + 1)) [0..<?n])" by (rule perm_on_list [OF r(4)])
  also have "map (\<lambda>i. heap_val p h (int i + 1)) [0..<?n] = xs"
    by (rule nth_equalityI) (use val in auto)
  finally have m: "mset ?ys = mset xs" .
  have "seq_of (heap_val p h') ?ys"
    unfolding seq_of_def
  proof (intro conjI allI impI)
    show "TNil \<notin> set ?ys" using nil mset_eq_setD [OF m] by simp
    fix k assume k: "1 \<le> k \<and> c_int k"
    have "w k = TNil" if "int ?n < k"
      using perm_on_outside [OF r(4), of k] that seq_nil [OF seq that] k by simp
    moreover have "?ys ! nat (k - 1) = w k" if "k \<le> int ?n" using k that by (simp add: nth_append nat_less_iff)
    ultimately show "heap_val p h' k = (if k \<le> int (length ?ys) then ?ys ! nat (k - 1) else TNil)"
      using r(3) [of k] k by auto
  qed (use n30 in simp)
  note l = heap_list_at [OF r(2) this]
  have "index2adr [TTab p, f] 2 = Some f" by (simp add: index2adr_def)
  then have "sort_tab (?n + 2) E ?A [TTab p, f] h = Inr ([], h')"
    using r(1) htab.seq_getn [OF ok seq, of "[TTab p, f]"] assms(3)
    by (auto simp: sort_tab_def lua_isnoneornil_def lua_type_def luaL_checktype_def arg_value_def tag_defs)
  moreover have "\<not> lss (?ys ! j) (?ys ! i)" if "i \<le> j" "j < ?n" for i j using r(5) [of "int i + 1" "int j + 1"] that by auto
  ultimately show ?thesis using l m by (intro exI [of _ h'] exI [of _ ?ys]) auto
qed

text \<open>The witness sorts the numbers 2, 1 and 3.\<close>

definition arr_table :: "TValue list \<Rightarrow> Table" where
  "arr_table vs = one_ref\<lparr>t_array := vs\<rparr>"

lemma arr_ok: "length vs \<le> MAXASIZE \<Longrightarrow> tab_ok sh (arr_table vs)"
  using fresh_nodes [of sh 0]
  by (simp add: arr_table_def one_ref_def empty_table_def tab_ok_def tab_inv_def sizearray_def nilnode_def MAXASIZE_def
      MAXBITS_def)

lemma arr_seq:
  assumes "TNil \<notin> set vs" "length vs \<le> MAXASIZE"
  shows "seq_of (int_val (arr_table vs)) vs"
  unfolding seq_of_def
proof (intro conjI allI impI)
  fix k assume k: "1 \<le> k \<and> c_int k"
  then have ai: "arrayindex (TNumber (cast_num k)) = k" by (simp add: arrayindex_cast c_int_def)
  show "int_val (arr_table vs) k = (if k \<le> int (length vs) then vs ! nat (k - 1) else TNil)"
  proof (cases "k \<le> int (length vs)")
    case True
    then show ?thesis using tab_get_array [of "arr_table vs" "TNumber (cast_num k)"] ai k
      by (simp add: int_val_def in_array_def arr_table_def one_ref_def sizearray_def)
  next
    case False
    then have "int_val (arr_table vs) k = TNil" unfolding int_val_def
      by (intro tab_get_none) (use ai in \<open>simp_all add: in_array_def arr_table_def one_ref_def nilnode_def sizearray_def\<close>)
    with False show ?thesis by simp
  qed
qed (use assms in \<open>auto simp: MAXASIZE_def MAXBITS_def\<close>)

definition num_vals :: "int list \<Rightarrow> TValue list" where
  "num_vals is = map (\<lambda>i. TNumber (cast_num i)) is"

lemma sort_sorts_witness:
  "\<exists>h' ys. sort_tab 5 ex_env (heap_api (\<lambda>p. unat p) (\<lambda>h f a. Inr (TNil, h)) (vm_lessthan ex_venv ex_vm) (\<lambda>s. 16))
      [TTab 8, TNil] [8 \<mapsto> arr_table (num_vals [2, 1, 3])] = Inr ([], h') \<and>
    list_at (\<lambda>p. unat p) h' 8 ys \<and> mset ys = mset (num_vals [2, 1, 3]) \<and>
    (\<forall>i j. i \<le> j \<and> j < length ys \<longrightarrow> \<not> num_less (ys ! j) (ys ! i))"
proof -
  let ?xs = "num_vals [2, 1, 3]"
  have "TNil \<notin> set ?xs" "length ?xs \<le> MAXASIZE" by (auto simp: num_vals_def MAXASIZE_def MAXBITS_def)
  then have l: "list_at (\<lambda>p. unat p) [8 \<mapsto> arr_table ?xs] 8 ?xs"
    using arr_seq arr_ok by (simp add: list_at_def)
  have g: "num_good x" if "x \<in> set ?xs" for x using that by (auto simp: num_vals_def num_good_def cast_num_parts)
  have c: "\<forall>h' a b. a \<in> set ?xs \<longrightarrow> b \<in> set ?xs \<longrightarrow>
      sort_comp (heap_api (\<lambda>p. unat p) (\<lambda>h f a. Inr (TNil, h)) (vm_lessthan ex_venv ex_vm) (\<lambda>s. 16)) TNil h' a b =
        Inr (num_less a b, h')"
  proof (intro allI impI)
    fix h' a b assume "a \<in> set ?xs" "b \<in> set ?xs"
    with g have "num_good a" "num_good b" by blast+
    then show "sort_comp (heap_api (\<lambda>p. unat p) (\<lambda>h f a. Inr (TNil, h)) (vm_lessthan ex_venv ex_vm) (\<lambda>s. 16)) TNil h' a b =
        Inr (num_less a b, h')"
      by (auto simp: num_good_def sort_comp_def heap_api_def vm_lessthan_def luaV_lessthan_def)
  qed
  have as: "\<forall>a b. a \<in> set ?xs \<longrightarrow> b \<in> set ?xs \<longrightarrow> num_less a b \<longrightarrow> \<not> num_less b a"
    using g numsort.asym by blast
  have nt: "\<forall>a b c. a \<in> set ?xs \<longrightarrow> b \<in> set ?xs \<longrightarrow> c \<in> set ?xs \<longrightarrow> \<not> num_less b a \<longrightarrow> \<not> num_less c b \<longrightarrow> \<not> num_less c a"
    using g numsort.neg_trans by blast
  have n: "length ?xs < 2 ^ 30" "length ?xs + 2 = 5" by (simp_all add: num_vals_def)
  from sort_sorts [OF l n(1) disjI1 [OF refl] c as nt, of ex_env] show ?thesis unfolding n(2) by blast
qed

section \<open>Sorting with an invalid order\<close>





end
