(* ===== verification/LuaOpcodes.thy ===== *)
theory LuaOpcodes
  imports LuaPrelude
begin

text \<open>
  Virtual-machine instructions (lopcodes.h, lopcodes.c): the 32-bit layout with its field
  macros, the operation codes, and the table of instruction properties. Fields are read and
  written with the shifts and masks of the macros; arguments are the \<open>Instruction\<close> the
  macro casts to, results are the non-negative \<open>int\<close> it yields.
\<close>

unbundle bit_operations_syntax

section \<open>Layout\<close>

type_synonym Instruction = "32 word"

datatype OpMode = iABC | iABx | iAsBx

definition SIZE_C :: nat where "SIZE_C = 9"
definition SIZE_B :: nat where "SIZE_B = 9"
definition SIZE_Bx :: nat where "SIZE_Bx = SIZE_C + SIZE_B"
definition SIZE_A :: nat where "SIZE_A = 8"
definition SIZE_OP :: nat where "SIZE_OP = 6"
definition POS_OP :: nat where "POS_OP = 0"
definition POS_A :: nat where "POS_A = POS_OP + SIZE_OP"
definition POS_C :: nat where "POS_C = POS_A + SIZE_A"
definition POS_B :: nat where "POS_B = POS_C + SIZE_C"
definition POS_Bx :: nat where "POS_Bx = POS_C"

lemmas layout_defs = SIZE_C_def SIZE_B_def SIZE_Bx_def SIZE_A_def SIZE_OP_def
  POS_OP_def POS_A_def POS_C_def POS_B_def POS_Bx_def

definition MAXARG_Bx :: nat where "MAXARG_Bx = 2 ^ SIZE_Bx - 1"
definition MAXARG_sBx :: nat where "MAXARG_sBx = MAXARG_Bx div 2"
definition MAXARG_A :: nat where "MAXARG_A = 2 ^ SIZE_A - 1"
definition MAXARG_B :: nat where "MAXARG_B = 2 ^ SIZE_B - 1"
definition MAXARG_C :: nat where "MAXARG_C = 2 ^ SIZE_C - 1"

lemmas maxarg_defs = MAXARG_Bx_def MAXARG_sBx_def MAXARG_A_def MAXARG_B_def MAXARG_C_def

text \<open>A mask of \<open>n\<close> one bits (zero bits) at position \<open>p\<close>.\<close>

definition MASK1 :: "nat \<Rightarrow> nat \<Rightarrow> Instruction" where
  "MASK1 n p = push_bit p (NOT (push_bit n (NOT 0)))"

definition MASK0 :: "nat \<Rightarrow> nat \<Rightarrow> Instruction" where
  "MASK0 n p = NOT (MASK1 n p)"

text \<open>The common shape of the field macros.\<close>

definition get_field :: "nat \<Rightarrow> nat \<Rightarrow> Instruction \<Rightarrow> nat" where
  "get_field n p i = unat (drop_bit p i AND MASK1 n 0)"

definition set_field :: "nat \<Rightarrow> nat \<Rightarrow> Instruction \<Rightarrow> Instruction \<Rightarrow> Instruction" where
  "set_field n p i u = (i AND MASK0 n p) OR (push_bit p u AND MASK1 n p)"

definition GET_OPCODE :: "Instruction \<Rightarrow> nat" where
  "GET_OPCODE i = get_field SIZE_OP POS_OP i"

definition SET_OPCODE :: "Instruction \<Rightarrow> nat \<Rightarrow> Instruction" where
  "SET_OPCODE i opc = set_field SIZE_OP POS_OP i (of_nat opc)"

definition GETARG_A :: "Instruction \<Rightarrow> nat" where
  "GETARG_A i = get_field SIZE_A POS_A i"

definition SETARG_A :: "Instruction \<Rightarrow> nat \<Rightarrow> Instruction" where
  "SETARG_A i u = set_field SIZE_A POS_A i (of_nat u)"

definition GETARG_B :: "Instruction \<Rightarrow> nat" where
  "GETARG_B i = get_field SIZE_B POS_B i"

definition SETARG_B :: "Instruction \<Rightarrow> nat \<Rightarrow> Instruction" where
  "SETARG_B i b = set_field SIZE_B POS_B i (of_nat b)"

definition GETARG_C :: "Instruction \<Rightarrow> nat" where
  "GETARG_C i = get_field SIZE_C POS_C i"

definition SETARG_C :: "Instruction \<Rightarrow> nat \<Rightarrow> Instruction" where
  "SETARG_C i b = set_field SIZE_C POS_C i (of_nat b)"

definition GETARG_Bx :: "Instruction \<Rightarrow> nat" where
  "GETARG_Bx i = get_field SIZE_Bx POS_Bx i"

definition SETARG_Bx :: "Instruction \<Rightarrow> nat \<Rightarrow> Instruction" where
  "SETARG_Bx i b = set_field SIZE_Bx POS_Bx i (of_nat b)"

definition GETARG_sBx :: "Instruction \<Rightarrow> int" where
  "GETARG_sBx i = int (GETARG_Bx i) - int MAXARG_sBx"

definition SETARG_sBx :: "Instruction \<Rightarrow> int \<Rightarrow> Instruction" where
  "SETARG_sBx i b = set_field SIZE_Bx POS_Bx i (of_int (b + int MAXARG_sBx))"

definition CREATE_ABC :: "nat \<Rightarrow> nat \<Rightarrow> nat \<Rightarrow> nat \<Rightarrow> Instruction" where
  "CREATE_ABC opc a b c =
     push_bit POS_OP (of_nat opc) OR push_bit POS_A (of_nat a)
       OR push_bit POS_B (of_nat b) OR push_bit POS_C (of_nat c)"

definition CREATE_ABx :: "nat \<Rightarrow> nat \<Rightarrow> nat \<Rightarrow> Instruction" where
  "CREATE_ABx opc a bc =
     push_bit POS_OP (of_nat opc) OR push_bit POS_A (of_nat a) OR push_bit POS_Bx (of_nat bc)"

section \<open>RK indices\<close>

definition BITRK :: nat where "BITRK = 2 ^ (SIZE_B - 1)"
definition ISK :: "nat \<Rightarrow> bool" where "ISK x \<longleftrightarrow> x AND BITRK \<noteq> 0"
definition INDEXK :: "nat \<Rightarrow> nat" where
  "INDEXK r = nat (int r AND NOT (int BITRK))"
definition MAXINDEXRK :: nat where "MAXINDEXRK = BITRK - 1"
definition RKASK :: "nat \<Rightarrow> nat" where "RKASK x = x OR BITRK"
definition NO_REG :: nat where "NO_REG = MAXARG_A"

section \<open>Operation codes\<close>

datatype OpCode =
    OP_MOVE | OP_LOADK | OP_LOADBOOL | OP_LOADNIL | OP_GETUPVAL
  | OP_GETGLOBAL | OP_GETTABLE | OP_SETGLOBAL | OP_SETUPVAL | OP_SETTABLE
  | OP_NEWTABLE | OP_SELF
  | OP_ADD | OP_SUB | OP_MUL | OP_DIV | OP_MOD | OP_POW | OP_UNM | OP_NOT | OP_LEN | OP_CONCAT
  | OP_JMP | OP_EQ | OP_LT | OP_LE | OP_TEST | OP_TESTSET
  | OP_CALL | OP_TAILCALL | OP_RETURN
  | OP_FORLOOP | OP_FORPREP | OP_TFORLOOP | OP_SETLIST
  | OP_CLOSE | OP_CLOSURE | OP_VARARG

definition opcodes :: "OpCode list" where
  "opcodes =
    [OP_MOVE, OP_LOADK, OP_LOADBOOL, OP_LOADNIL, OP_GETUPVAL,
     OP_GETGLOBAL, OP_GETTABLE, OP_SETGLOBAL, OP_SETUPVAL, OP_SETTABLE,
     OP_NEWTABLE, OP_SELF,
     OP_ADD, OP_SUB, OP_MUL, OP_DIV, OP_MOD, OP_POW, OP_UNM, OP_NOT, OP_LEN, OP_CONCAT,
     OP_JMP, OP_EQ, OP_LT, OP_LE, OP_TEST, OP_TESTSET,
     OP_CALL, OP_TAILCALL, OP_RETURN,
     OP_FORLOOP, OP_FORPREP, OP_TFORLOOP, OP_SETLIST,
     OP_CLOSE, OP_CLOSURE, OP_VARARG]"

fun index_of :: "'a \<Rightarrow> 'a list \<Rightarrow> nat" where
  "index_of x [] = 0"
| "index_of x (y # ys) = (if x = y then 0 else Suc (index_of x ys))"

text \<open>The C value of an enumerator, and back (\<open>None\<close> for a value that names none).\<close>

definition opnum :: "OpCode \<Rightarrow> nat" where
  "opnum opc = index_of opc opcodes"

definition NUM_OPCODES :: nat where
  "NUM_OPCODES = opnum OP_VARARG + 1"

definition opcode_of :: "nat \<Rightarrow> OpCode option" where
  "opcode_of n = (if n < length opcodes then Some (opcodes ! n) else None)"

datatype OpArgMask = OpArgN | OpArgU | OpArgR | OpArgK

definition opmode_num :: "OpMode \<Rightarrow> nat" where
  "opmode_num m = (case m of iABC \<Rightarrow> 0 | iABx \<Rightarrow> 1 | iAsBx \<Rightarrow> 2)"

definition argmask_num :: "OpArgMask \<Rightarrow> nat" where
  "argmask_num m = (case m of OpArgN \<Rightarrow> 0 | OpArgU \<Rightarrow> 1 | OpArgR \<Rightarrow> 2 | OpArgK \<Rightarrow> 3)"

definition opmode :: "nat \<Rightarrow> nat \<Rightarrow> OpArgMask \<Rightarrow> OpArgMask \<Rightarrow> OpMode \<Rightarrow> lu_byte" where
  "opmode t a b c m =
     push_bit 7 (of_nat t) OR push_bit 6 (of_nat a) OR push_bit 4 (of_nat (argmask_num b))
       OR push_bit 2 (of_nat (argmask_num c)) OR of_nat (opmode_num m)"

definition luaP_opmodes :: "lu_byte list" where
  "luaP_opmodes =
   [opmode 0 1 OpArgR OpArgN iABC,   \<comment> \<open>MOVE\<close>
    opmode 0 1 OpArgK OpArgN iABx,   \<comment> \<open>LOADK\<close>
    opmode 0 1 OpArgU OpArgU iABC,   \<comment> \<open>LOADBOOL\<close>
    opmode 0 1 OpArgR OpArgN iABC,   \<comment> \<open>LOADNIL\<close>
    opmode 0 1 OpArgU OpArgN iABC,   \<comment> \<open>GETUPVAL\<close>
    opmode 0 1 OpArgK OpArgN iABx,   \<comment> \<open>GETGLOBAL\<close>
    opmode 0 1 OpArgR OpArgK iABC,   \<comment> \<open>GETTABLE\<close>
    opmode 0 0 OpArgK OpArgN iABx,   \<comment> \<open>SETGLOBAL\<close>
    opmode 0 0 OpArgU OpArgN iABC,   \<comment> \<open>SETUPVAL\<close>
    opmode 0 0 OpArgK OpArgK iABC,   \<comment> \<open>SETTABLE\<close>
    opmode 0 1 OpArgU OpArgU iABC,   \<comment> \<open>NEWTABLE\<close>
    opmode 0 1 OpArgR OpArgK iABC,   \<comment> \<open>SELF\<close>
    opmode 0 1 OpArgK OpArgK iABC,   \<comment> \<open>ADD\<close>
    opmode 0 1 OpArgK OpArgK iABC,   \<comment> \<open>SUB\<close>
    opmode 0 1 OpArgK OpArgK iABC,   \<comment> \<open>MUL\<close>
    opmode 0 1 OpArgK OpArgK iABC,   \<comment> \<open>DIV\<close>
    opmode 0 1 OpArgK OpArgK iABC,   \<comment> \<open>MOD\<close>
    opmode 0 1 OpArgK OpArgK iABC,   \<comment> \<open>POW\<close>
    opmode 0 1 OpArgR OpArgN iABC,   \<comment> \<open>UNM\<close>
    opmode 0 1 OpArgR OpArgN iABC,   \<comment> \<open>NOT\<close>
    opmode 0 1 OpArgR OpArgN iABC,   \<comment> \<open>LEN\<close>
    opmode 0 1 OpArgR OpArgR iABC,   \<comment> \<open>CONCAT\<close>
    opmode 0 0 OpArgR OpArgN iAsBx,  \<comment> \<open>JMP\<close>
    opmode 1 0 OpArgK OpArgK iABC,   \<comment> \<open>EQ\<close>
    opmode 1 0 OpArgK OpArgK iABC,   \<comment> \<open>LT\<close>
    opmode 1 0 OpArgK OpArgK iABC,   \<comment> \<open>LE\<close>
    opmode 1 1 OpArgR OpArgU iABC,   \<comment> \<open>TEST\<close>
    opmode 1 1 OpArgR OpArgU iABC,   \<comment> \<open>TESTSET\<close>
    opmode 0 1 OpArgU OpArgU iABC,   \<comment> \<open>CALL\<close>
    opmode 0 1 OpArgU OpArgU iABC,   \<comment> \<open>TAILCALL\<close>
    opmode 0 0 OpArgU OpArgN iABC,   \<comment> \<open>RETURN\<close>
    opmode 0 1 OpArgR OpArgN iAsBx,  \<comment> \<open>FORLOOP\<close>
    opmode 0 1 OpArgR OpArgN iAsBx,  \<comment> \<open>FORPREP\<close>
    opmode 1 0 OpArgN OpArgU iABC,   \<comment> \<open>TFORLOOP\<close>
    opmode 0 0 OpArgU OpArgU iABC,   \<comment> \<open>SETLIST\<close>
    opmode 0 0 OpArgN OpArgN iABC,   \<comment> \<open>CLOSE\<close>
    opmode 0 1 OpArgU OpArgN iABx,   \<comment> \<open>CLOSURE\<close>
    opmode 0 1 OpArgU OpArgN iABC]   \<comment> \<open>VARARG\<close>"

text \<open>The opcode names \<open>luac -l\<close> prints, in the same order.\<close>

definition luaP_opnames :: "string list" where
  "luaP_opnames =
    [''MOVE'', ''LOADK'', ''LOADBOOL'', ''LOADNIL'', ''GETUPVAL'', ''GETGLOBAL'', ''GETTABLE'',
     ''SETGLOBAL'', ''SETUPVAL'', ''SETTABLE'', ''NEWTABLE'', ''SELF'', ''ADD'', ''SUB'', ''MUL'',
     ''DIV'', ''MOD'', ''POW'', ''UNM'', ''NOT'', ''LEN'', ''CONCAT'', ''JMP'', ''EQ'', ''LT'',
     ''LE'', ''TEST'', ''TESTSET'', ''CALL'', ''TAILCALL'', ''RETURN'', ''FORLOOP'', ''FORPREP'',
     ''TFORLOOP'', ''SETLIST'', ''CLOSE'', ''CLOSURE'', ''VARARG'']"

fun opmode_of :: "nat \<Rightarrow> OpMode" where
  "opmode_of n = (if n = 0 then iABC else if n = 1 then iABx else iAsBx)"

fun argmask_of :: "nat \<Rightarrow> OpArgMask" where
  "argmask_of n = (if n = 0 then OpArgN else if n = 1 then OpArgU else if n = 2 then OpArgR else OpArgK)"

definition getOpMode :: "OpCode \<Rightarrow> OpMode" where
  "getOpMode m = opmode_of (unat ((luaP_opmodes ! opnum m) AND 3))"

definition getBMode :: "OpCode \<Rightarrow> OpArgMask" where
  "getBMode m = argmask_of (unat (drop_bit 4 (luaP_opmodes ! opnum m) AND 3))"

definition getCMode :: "OpCode \<Rightarrow> OpArgMask" where
  "getCMode m = argmask_of (unat (drop_bit 2 (luaP_opmodes ! opnum m) AND 3))"

definition testAMode :: "OpCode \<Rightarrow> bool" where
  "testAMode m \<longleftrightarrow> (luaP_opmodes ! opnum m) AND push_bit 6 1 \<noteq> 0"

definition testTMode :: "OpCode \<Rightarrow> bool" where
  "testTMode m \<longleftrightarrow> (luaP_opmodes ! opnum m) AND push_bit 7 1 \<noteq> 0"

definition LFIELDS_PER_FLUSH :: nat where
  "LFIELDS_PER_FLUSH = 50"

section \<open>Fields\<close>

lemma bit_MASK1: "bit (MASK1 n p) k \<longleftrightarrow> p \<le> k \<and> k < p + n \<and> k < 32"
  by (auto simp: MASK1_def bit_simps)

lemma bit_set_field:
  "bit (set_field n p i u) k \<longleftrightarrow>
     k < 32 \<and> (if p \<le> k \<and> k < p + n then bit u (k - p) else bit i k)"
  by (auto simp: set_field_def MASK0_def bit_simps bit_MASK1)

lemma get_field_eq: "get_field n p i = unat (take_bit n (drop_bit p i))"
proof -
  have "drop_bit p i AND MASK1 n 0 = take_bit n (drop_bit p i)"
    by (rule bit_word_eqI) (auto simp: bit_simps bit_MASK1)
  then show ?thesis by (simp add: get_field_def)
qed

lemma get_field_lt: "n \<le> 32 \<Longrightarrow> get_field n p i < 2 ^ n"
  by (simp add: get_field_eq unsigned_take_bit_eq)

lemma get_set_field_same:
  assumes "p + n \<le> 32" "u < 2 ^ n"
  shows "get_field n p (set_field n p i (of_nat u)) = u"
proof -
  have "take_bit n (drop_bit p (set_field n p i (of_nat u))) = take_bit n (of_nat u :: Instruction)"
    using assms(1) by (intro bit_word_eqI) (auto simp: bit_simps bit_set_field)
  moreover have "(2::nat) ^ n \<le> 2 ^ 32" using assms(1) by (intro power_increasing) auto
  ultimately show ?thesis
    using assms(2) by (simp add: get_field_eq unsigned_take_bit_eq unat_of_nat take_bit_nat_eq_self
        take_bit_nat_eq_self_iff)
qed

lemma get_set_field_other:
  assumes "p + n \<le> q \<or> q + m \<le> p"
  shows "get_field m q (set_field n p i u) = get_field m q i"
proof -
  have "take_bit m (drop_bit q (set_field n p i u)) = take_bit m (drop_bit q i)"
    using assms by (intro bit_word_eqI) (auto simp: bit_simps bit_set_field dest: bit_imp_le_length)
  then show ?thesis by (simp add: get_field_eq)
qed

lemmas field_defs = GET_OPCODE_def SET_OPCODE_def GETARG_A_def SETARG_A_def GETARG_B_def SETARG_B_def
  GETARG_C_def SETARG_C_def GETARG_Bx_def SETARG_Bx_def GETARG_sBx_def SETARG_sBx_def

lemma get_bounds [op_simps]:
  "GET_OPCODE i < 64" "GETARG_A i < 256" "GETARG_B i < 512" "GETARG_C i < 512" "GETARG_Bx i < 2 ^ 18"
  using get_field_lt [of SIZE_OP POS_OP i] get_field_lt [of SIZE_A POS_A i]
    get_field_lt [of SIZE_B POS_B i] get_field_lt [of SIZE_C POS_C i] get_field_lt [of SIZE_Bx POS_Bx i]
  by (simp_all add: field_defs layout_defs)

text \<open>Writing a field and reading it back.\<close>

lemma get_set_same [op_simps]:
  "opc < 64 \<Longrightarrow> GET_OPCODE (SET_OPCODE i opc) = opc"
  "a < 256 \<Longrightarrow> GETARG_A (SETARG_A i a) = a"
  "b < 512 \<Longrightarrow> GETARG_B (SETARG_B i b) = b"
  "c < 512 \<Longrightarrow> GETARG_C (SETARG_C i c) = c"
  "bx < 2 ^ 18 \<Longrightarrow> GETARG_Bx (SETARG_Bx i bx) = bx"
  by (simp_all add: field_defs layout_defs get_set_field_same)

text \<open>Writing a field leaves the others alone.\<close>

lemma get_set_other [op_simps]:
  "GETARG_A (SET_OPCODE i u) = GETARG_A i" "GETARG_B (SET_OPCODE i u) = GETARG_B i"
  "GETARG_C (SET_OPCODE i u) = GETARG_C i" "GETARG_Bx (SET_OPCODE i u) = GETARG_Bx i"
  "GET_OPCODE (SETARG_A i u) = GET_OPCODE i" "GETARG_B (SETARG_A i u) = GETARG_B i"
  "GETARG_C (SETARG_A i u) = GETARG_C i" "GETARG_Bx (SETARG_A i u) = GETARG_Bx i"
  "GET_OPCODE (SETARG_B i u) = GET_OPCODE i" "GETARG_A (SETARG_B i u) = GETARG_A i"
  "GETARG_C (SETARG_B i u) = GETARG_C i"
  "GET_OPCODE (SETARG_C i u) = GET_OPCODE i" "GETARG_A (SETARG_C i u) = GETARG_A i"
  "GETARG_B (SETARG_C i u) = GETARG_B i"
  "GET_OPCODE (SETARG_Bx i u) = GET_OPCODE i" "GETARG_A (SETARG_Bx i u) = GETARG_A i"
  "GET_OPCODE (SETARG_sBx i z) = GET_OPCODE i" "GETARG_A (SETARG_sBx i z) = GETARG_A i"
  by (simp_all add: field_defs layout_defs get_set_field_other)

lemma sBx_set [op_simps]:
  assumes "- int MAXARG_sBx \<le> b" "b \<le> int MAXARG_sBx + 1"
  shows "GETARG_sBx (SETARG_sBx i b) = b"
proof -
  define u where "u = nat (b + int MAXARG_sBx)"
  have u: "b + int MAXARG_sBx = int u" "u < 2 ^ 18"
    using assms by (simp_all add: u_def maxarg_defs layout_defs nat_less_iff)
  have "GETARG_Bx (SETARG_sBx i b) = u"
    using u(2) by (simp add: field_defs u(1) get_set_field_same layout_defs)
  then show ?thesis using u(1) by (simp add: GETARG_sBx_def)
qed

section \<open>Building and taking apart\<close>

lemma bit_of_nat_lt:
  assumes "n < 2 ^ k"
  shows "bit (of_nat n :: Instruction) j \<longleftrightarrow> j < 32 \<and> bit n j"
  by (auto simp: bit_simps)

lemma bit_push_field:
  "n < 2 ^ k \<Longrightarrow> bit (push_bit p (of_nat n) :: Instruction) j \<longleftrightarrow>
    p \<le> j \<and> j < 32 \<and> j < p + k \<and> bit n (j - p)"
  using bit_nat_lt [of n k "j - p"] by (auto simp: bit_simps)

lemma get_field_eqI:
  assumes "u < 2 ^ n" "p + n \<le> 32"
    and "\<And>j. j < n \<Longrightarrow> bit i (p + j) \<longleftrightarrow> bit u j"
  shows "get_field n p i = u"
proof -
  have "take_bit n (drop_bit p i) = (of_nat u :: Instruction)"
    by (rule bit_word_eqI) (use assms bit_nat_lt [OF assms(1)] in \<open>auto simp: bit_simps\<close>)
  moreover have "u < 2 ^ 32"
    by (rule order_less_le_trans [OF assms(1)], rule power_increasing) (use assms(2) in simp_all)
  ultimately show ?thesis by (simp add: get_field_eq unat_of_nat_lt)
qed

lemma bit_CREATE_ABC:
  assumes "opc < 64" "a < 256" "b < 512" "c < 512"
  shows "bit (CREATE_ABC opc a b c) k \<longleftrightarrow> k < 32 \<and>
    (if k < 6 then bit opc k else if k < 14 then bit a (k - 6)
     else if k < 23 then bit c (k - 14) else bit b (k - 23))"
  unfolding CREATE_ABC_def layout_defs bit_or_iff
  by (subst bit_push_field [of opc 6], use assms in simp,
      subst bit_push_field [of a 8], use assms in simp,
      subst bit_push_field [of b 9], use assms in simp,
      subst bit_push_field [of c 9], use assms in simp) auto

lemma bit_CREATE_ABx:
  assumes "opc < 64" "a < 256" "bx < 2 ^ 18"
  shows "bit (CREATE_ABx opc a bx) k \<longleftrightarrow> k < 32 \<and>
    (if k < 6 then bit opc k else if k < 14 then bit a (k - 6) else bit bx (k - 14))"
  unfolding CREATE_ABx_def layout_defs bit_or_iff
  by (subst bit_push_field [of opc 6], use assms in simp,
      subst bit_push_field [of a 8], use assms in simp,
      subst bit_push_field [of bx 18], use assms in simp) auto

lemma CREATE_ABC_fields [op_simps]:
  assumes "opc < 64" "a < 256" "b < 512" "c < 512"
  shows "GET_OPCODE (CREATE_ABC opc a b c) = opc" "GETARG_A (CREATE_ABC opc a b c) = a"
    "GETARG_B (CREATE_ABC opc a b c) = b" "GETARG_C (CREATE_ABC opc a b c) = c"
  unfolding field_defs layout_defs
  by (rule get_field_eqI; use assms in \<open>simp add: bit_CREATE_ABC [OF assms]\<close>)+

lemma CREATE_ABx_fields [op_simps]:
  assumes "opc < 64" "a < 256" "bx < 2 ^ 18"
  shows "GET_OPCODE (CREATE_ABx opc a bx) = opc" "GETARG_A (CREATE_ABx opc a bx) = a"
    "GETARG_Bx (CREATE_ABx opc a bx) = bx"
  unfolding field_defs layout_defs
  by (rule get_field_eqI; use assms in \<open>simp add: bit_CREATE_ABx [OF assms]\<close>)+

lemma bit_get_field:
  "p + n \<le> 32 \<Longrightarrow> bit (get_field n p i) j \<longleftrightarrow> j < n \<and> bit i (p + j)"
  by (auto simp: get_field_eq bit_simps dest: bit_imp_le_length)

lemma CREATE_ABC_decode:
  "CREATE_ABC (GET_OPCODE i) (GETARG_A i) (GETARG_B i) (GETARG_C i) = i"
proof (rule bit_word_eqI)
  fix k :: nat
  assume k: "k < LENGTH(32)"
  show "bit (CREATE_ABC (GET_OPCODE i) (GETARG_A i) (GETARG_B i) (GETARG_C i)) k = bit i k"
    unfolding bit_CREATE_ABC [OF get_bounds(1-4)]
    using k by (auto simp: field_defs layout_defs bit_get_field)
qed

lemma CREATE_ABx_decode: "CREATE_ABx (GET_OPCODE i) (GETARG_A i) (GETARG_Bx i) = i"
proof (rule bit_word_eqI)
  fix k :: nat
  assume k: "k < LENGTH(32)"
  show "bit (CREATE_ABx (GET_OPCODE i) (GETARG_A i) (GETARG_Bx i)) k = bit i k"
    unfolding bit_CREATE_ABx [OF get_bounds(1,2,5)]
    using k by (auto simp: field_defs layout_defs bit_get_field)
qed

lemma opcode_of_opnum [op_simps]: "opcode_of (opnum m) = Some m"
  by (cases m) (simp_all add: opnum_def opcode_of_def opcodes_def)

lemma opnum_lt [op_simps]: "opnum m < 38"
  by (cases m) (simp_all add: opnum_def opcodes_def)

lemma opnum_inject: "opnum m = opnum n \<longleftrightarrow> m = n"
  by (metis opcode_of_opnum option.inject)

section \<open>The properties\<close>

text \<open>C16: decoding inverts encoding and encoding inverts decoding, for both instruction shapes.\<close>

theorem instruction_roundtrip:
  assumes "opc < 64" "a < 256" "b < 512" "c < 512" "bx < 2 ^ 18"
  shows "GET_OPCODE (CREATE_ABC opc a b c) = opc \<and> GETARG_A (CREATE_ABC opc a b c) = a \<and>
      GETARG_B (CREATE_ABC opc a b c) = b \<and> GETARG_C (CREATE_ABC opc a b c) = c \<and>
      GETARG_A (CREATE_ABx opc a bx) = a \<and> GETARG_Bx (CREATE_ABx opc a bx) = bx \<and>
      CREATE_ABC (GET_OPCODE i) (GETARG_A i) (GETARG_B i) (GETARG_C i) = i \<and>
      CREATE_ABx (GET_OPCODE i) (GETARG_A i) (GETARG_Bx i) = i"
  using assms by (simp add: op_simps CREATE_ABC_decode CREATE_ABx_decode)

theorem instruction_roundtrip_witness:
  "GETARG_B (CREATE_ABC 12 3 511 256) = 511 \<and> GETARG_C (CREATE_ABC 12 3 511 256) = 256"
  using instruction_roundtrip [of 12 3 511 256 0 0] by simp

end
