(* ===== verification/LuaProto.thy ===== *)
theory LuaProto
  imports LuaString LuaOpcodes
begin

text \<open>
  Function prototypes (lobject.h) as the parser makes them and as a precompiled chunk holds them.
  A string is its content, as interning allows (\<open>None\<close> is the pointer NULL).
\<close>

datatype Konst = KNil | KBool bool | KNumber lua_Number | KString "string option"

record LocVar =
  varname :: "string option"
  startpc :: int
  endpc :: int

datatype Proto =
  Proto (p_source: "string option") (p_linedefined: int) (p_lastlinedefined: int) (p_nups: lu_byte)
    (p_numparams: lu_byte) (p_is_vararg: lu_byte) (p_maxstacksize: lu_byte)
    (p_code: "Instruction list") (p_k: "Konst list") (p_p: "Proto list") (p_lineinfo: "int list")
    (p_locvars: "LocVar list") (p_upvalues: "string option list")

text \<open>\<open>luaF_newproto\<close>.\<close>

definition luaF_newproto :: Proto where
  "luaF_newproto = Proto None 0 0 0 0 0 0 [] [] [] [] [] []"

lemma nested_smaller [termination_simp]: "g \<in> set (p_p f) \<Longrightarrow> size g < size f"
  by (cases f) (auto dest: size_list_estimation' [OF _ order.refl, where f = size])

text \<open>Induction over nested prototypes.\<close>

lemma proto_induct:
  assumes "\<And>f. (\<And>g. g \<in> set (p_p f) \<Longrightarrow> P g) \<Longrightarrow> P f"
  shows "P f"
  by (induction f rule: measure_induct_rule [of size]) (use assms nested_smaller in blast)

text \<open>
  \<open>luaF_getlocalname\<close>: the name of the \<open>n\<close>-th local variable active at instruction \<open>pc\<close>; the
  variables are in the order of \<open>startpc\<close>.
\<close>

fun getlocalname_loop :: "LocVar list \<Rightarrow> int \<Rightarrow> int \<Rightarrow> string option" where
  "getlocalname_loop [] n pc = None"
| "getlocalname_loop (v # vs) n pc =
     (if startpc v \<le> pc then
        if pc < endpc v then
          if n - 1 = 0 then varname v else getlocalname_loop vs (n - 1) pc
        else getlocalname_loop vs n pc
      else None)"

definition luaF_getlocalname :: "Proto \<Rightarrow> int \<Rightarrow> int \<Rightarrow> string option" where
  "luaF_getlocalname f n pc = getlocalname_loop (p_locvars f) n pc"

definition active :: "int \<Rightarrow> LocVar \<Rightarrow> bool" where
  "active pc v \<longleftrightarrow> startpc v \<le> pc \<and> pc < endpc v"

text \<open>
  When the variables are sorted by \<open>startpc\<close>, \<open>luaF_getlocalname\<close> gives the name of the
  \<open>n\<close>-th variable active at \<open>pc\<close>, and none when fewer are active.
\<close>

theorem luaF_getlocalname_nth:
  assumes "sorted (map startpc (p_locvars f))" "0 < n"
  shows "luaF_getlocalname f (int n) pc =
    (let vs = filter (active pc) (p_locvars f) in if n \<le> length vs then varname (vs ! (n - 1)) else None)"
proof -
  have none: "filter (active pc) vs = []" if "sorted (map startpc (v # vs))" "\<not> startpc v \<le> pc" for v vs
    using that by (auto simp: filter_empty_conv active_def)
  have "getlocalname_loop vs (int n) pc =
      (let vs = filter (active pc) vs in if n \<le> length vs then varname (vs ! (n - 1)) else None)"
    if "sorted (map startpc vs)" for vs
    using that assms(2)
  proof (induction vs arbitrary: n)
    case (Cons v vs)
    show ?case
    proof (cases "startpc v \<le> pc")
      case False
      have e: "filter (active pc) (v # vs) = []"
        using none [OF Cons.prems(1) False] False by (simp add: active_def)
      show ?thesis unfolding e Let_def using False Cons.prems(2) by simp
    next
      case True
      show ?thesis
      proof (cases "pc < endpc v \<and> n \<noteq> 1")
        case act: True
        then have "int n - 1 = int (n - 1)" "0 < n - 1" using Cons.prems(2) by auto
        with Cons.IH [of "n - 1"] Cons.prems act True show ?thesis
          by (cases n) (auto simp: active_def Let_def nth_Cons')
      qed (use Cons True in \<open>auto simp: active_def Let_def\<close>)
    qed
  qed (simp add: Let_def)
  with assms(1) show ?thesis by (simp add: luaF_getlocalname_def)
qed

definition ex_locals :: Proto where
  "ex_locals = Proto None 0 0 0 0 0 2 [] [] [] []
     [\<lparr>varname = Some ''a'', startpc = 0, endpc = 3\<rparr>, \<lparr>varname = Some ''b'', startpc = 1, endpc = 9\<rparr>] []"

lemma luaF_getlocalname_nth_witness:
  "luaF_getlocalname ex_locals (int 1) 5 =
    (let vs = filter (active 5) (p_locvars ex_locals) in if 1 \<le> length vs then varname (vs ! (1 - 1)) else None)"
  by (rule luaF_getlocalname_nth) (simp_all add: ex_locals_def)

end
