(* ===== verification/LuaZio.thy ===== *)
theory LuaZio
  imports LuaString
begin

text \<open>
  The memory manager interface (lmem.c) and the buffered input stream (lzio.c). The reader of a
  stream is the list of blocks it will return, an empty block standing for NULL or size 0; the
  field \<open>n\<close> of the stream wraps as a \<open>size_t\<close> does.
\<close>

section \<open>Memory\<close>

definition MINSIZEARRAY :: nat where "MINSIZEARRAY = 4"

text \<open>The new size \<open>luaM_growaux_\<close> chooses.\<close>

definition luaM_growaux :: "nat \<Rightarrow> nat \<Rightarrow> string \<Rightarrow> nat res" where
  "luaM_growaux sz limit errormsg =
     (if limit div 2 \<le> sz then
        if limit \<le> sz then Inl (ErrRun errormsg) else Inr limit
      else let newsize = sz * 2 in
        Inr (if newsize < MINSIZEARRAY then MINSIZEARRAY else newsize))"

text \<open>
  \<open>luaM_realloc_\<close>: \<open>frealloc\<close> answers with the new block or NULL; the result is the block and
  the bytes in use, a \<open>size_t\<close>.
\<close>

definition luaM_realloc :: "(ptr \<Rightarrow> nat \<Rightarrow> nat \<Rightarrow> ptr option) \<Rightarrow> nat \<Rightarrow> ptr \<Rightarrow> nat \<Rightarrow> nat \<Rightarrow> (ptr option \<times> nat) res" where
  "luaM_realloc frealloc totalbytes block osize nsize =
     (let block = frealloc block osize nsize in
      if block = None \<and> 0 < nsize then Inl ErrMem
      else Inr (block, nat ((int totalbytes - int osize + int nsize) mod 2 ^ 64)))"

definition luaM_reallocv :: "(ptr \<Rightarrow> nat \<Rightarrow> nat \<Rightarrow> ptr option) \<Rightarrow> nat \<Rightarrow> ptr \<Rightarrow> nat \<Rightarrow> nat \<Rightarrow> nat \<Rightarrow> (ptr option \<times> nat) res" where
  "luaM_reallocv frealloc totalbytes b oldn n e =
     (if n + 1 \<le> MAX_SIZET div e then luaM_realloc frealloc totalbytes b (oldn * e) (n * e)
      else luaM_toobig)"

section \<open>Streams\<close>

record ZIO =
  z_n :: nat                        \<comment> \<open>bytes still unread\<close>
  z_p :: "lu_byte list"             \<comment> \<open>the block from the current position\<close>
  z_reader :: "lu_byte list list"

definition EOZ :: int where "EOZ = - 1"
definition char2int :: "lu_byte \<Rightarrow> int" where "char2int c = uint c"

definition luaZ_init :: "lu_byte list list \<Rightarrow> ZIO" where
  "luaZ_init reader = \<lparr>z_n = 0, z_p = [], z_reader = reader\<rparr>"

definition luaZ_fill :: "ZIO \<Rightarrow> ZIO \<times> int" where
  "luaZ_fill z =
     (case z_reader z of
        [] \<Rightarrow> (z, EOZ)
      | buff # r \<Rightarrow>
          (case buff of
             [] \<Rightarrow> (z\<lparr>z_reader := r\<rparr>, EOZ)
           | c # cs \<Rightarrow> (\<lparr>z_n = length buff - 1, z_p = cs, z_reader = r\<rparr>, char2int c)))"

text \<open>\<open>zgetc\<close>: \<open>((z)->n--)>0 ? char2int(*(z)->p++) : luaZ_fill(z)\<close>.\<close>

definition zgetc :: "ZIO \<Rightarrow> (ZIO \<times> int) res" where
  "zgetc z =
     (if 0 < z_n z then
        (case z_p z of
           [] \<Rightarrow> Inl ErrUndef
         | c # cs \<Rightarrow> Inr (z\<lparr>z_n := z_n z - 1, z_p := cs\<rparr>, char2int c))
      else Inr (luaZ_fill (z\<lparr>z_n := 2 ^ 64 - 1\<rparr>)))"

definition luaZ_lookahead :: "ZIO \<Rightarrow> (ZIO \<times> int) res" where
  "luaZ_lookahead z =
     (if z_n z = 0 then
        (let (z', c) = luaZ_fill z in
         if c = EOZ then Inr (z', EOZ)
         else Inr (z'\<lparr>z_n := z_n z' + 1, z_p := word_of_int c # z_p z'\<rparr>, c))
      else case z_p z of [] \<Rightarrow> Inl ErrUndef | c # cs \<Rightarrow> Inr (z, char2int c))"

text \<open>\<open>luaZ_read\<close>: the bytes copied to \<open>b\<close> and the number of missing bytes.\<close>

function luaZ_read :: "ZIO \<Rightarrow> nat \<Rightarrow> (ZIO \<times> lu_byte list \<times> nat) res" where
  "luaZ_read z n =
     (if n = 0 then Inr (z, [], 0)
      else bindr (luaZ_lookahead z) (\<lambda>(z, c).
        if c = EOZ then Inr (z, [], n)
        else let m = (if n \<le> z_n z then n else z_n z) in
          if m = 0 \<or> length (z_p z) < m then Inl ErrUndef
          else bindr (luaZ_read (z\<lparr>z_n := z_n z - m, z_p := drop m (z_p z)\<rparr>) (n - m))
            (\<lambda>(z', bs, r). Inr (z', take m (z_p z) @ bs, r))))"
  by pat_completeness auto
termination
  by (relation "measure (\<lambda>(z, n). n)") auto

declare luaZ_read.simps [simp del]

text \<open>Buffers: \<open>luaZ_openspace\<close> gives the size of the buffer afterwards.\<close>

definition luaZ_openspace :: "nat \<Rightarrow> nat \<Rightarrow> nat" where
  "luaZ_openspace buffsize n =
     (if buffsize < n then (if n < LUA_MINBUFFER then LUA_MINBUFFER else n) else buffsize)"

section \<open>What a stream still holds\<close>

definition zio_ok :: "ZIO \<Rightarrow> bool" where
  "zio_ok z \<longleftrightarrow> z_n z = length (z_p z)"

definition stream :: "ZIO \<Rightarrow> lu_byte list" where
  "stream z = z_p z @ concat (takeWhile (\<lambda>b. b \<noteq> []) (z_reader z))"

lemma luaZ_init_ok: "zio_ok (luaZ_init r)" "stream (luaZ_init r) = concat (takeWhile (\<lambda>b. b \<noteq> []) r)"
  by (simp_all add: zio_ok_def luaZ_init_def stream_def)

lemma char2int_not_EOZ: "char2int c \<noteq> EOZ"
  using uint_ge_0 [of c] unfolding char2int_def EOZ_def by linarith

lemma lookahead_spec:
  assumes "zio_ok z"
  shows "\<exists>z' c. luaZ_lookahead z = Inr (z', c) \<and> zio_ok z' \<and>
    (if stream z = [] then c = EOZ \<and> stream z' = [] \<or> c = EOZ
     else c = char2int (hd (stream z)) \<and> z_p z' \<noteq> [] \<and> stream z' = stream z)"
proof (cases "z_p z")
  case (Cons c cs)
  with assms show ?thesis by (simp add: luaZ_lookahead_def zio_ok_def stream_def)
next
  case Nil
  with assms have n: "z_n z = 0" by (simp add: zio_ok_def)
  show ?thesis
  proof (cases "z_reader z")
    case r: Nil
    with n Nil show ?thesis by (simp add: luaZ_lookahead_def luaZ_fill_def zio_ok_def stream_def)
  next
    case (Cons b r)
    show ?thesis
    proof (cases b)
      case b: Nil
      with n Nil Cons show ?thesis by (simp add: luaZ_lookahead_def luaZ_fill_def zio_ok_def stream_def)
    next
      case b: (Cons c cs)
      have "char2int c \<noteq> EOZ" by (rule char2int_not_EOZ)
      with n Nil Cons b show ?thesis
        by (simp add: luaZ_lookahead_def luaZ_fill_def zio_ok_def stream_def char2int_def)
    qed
  qed
qed

text \<open>
  Reading does not depend on how the bytes come in blocks.
\<close>

lemma luaZ_read_spec:
  assumes "zio_ok z"
  shows "\<exists>z'. luaZ_read z n = Inr (z', take n (stream z), n - length (stream z)) \<and> zio_ok z' \<and>
    (n \<le> length (stream z) \<longrightarrow> stream z' = drop n (stream z))"
  using assms
proof (induction n arbitrary: z rule: less_induct)
  case (less n)
  show ?case
  proof (cases "n = 0")
    case True
    with less.prems show ?thesis by (subst luaZ_read.simps) simp
  next
    case False
    from lookahead_spec [OF less.prems] obtain z1 c where
      look: "luaZ_lookahead z = Inr (z1, c)" and ok1: "zio_ok z1" and
      c: "if stream z = [] then c = EOZ \<and> stream z1 = [] \<or> c = EOZ
          else c = char2int (hd (stream z)) \<and> z_p z1 \<noteq> [] \<and> stream z1 = stream z" by blast
    show ?thesis
    proof (cases "stream z = []")
      case True
      with look c ok1 False show ?thesis by (subst luaZ_read.simps) auto
    next
      case ne: False
      let ?m = "if n \<le> z_n z1 then n else z_n z1"
      let ?z = "z1\<lparr>z_n := z_n z1 - ?m, z_p := drop ?m (z_p z1)\<rparr>"
      have len: "z_n z1 = length (z_p z1)" "0 < z_n z1" using ok1 c ne by (auto simp: zio_ok_def)
      have m: "0 < ?m" "?m \<le> length (z_p z1)" "?m \<le> n" using len False by auto
      have ok2: "zio_ok ?z" using len by (simp add: zio_ok_def)
      have s1: "stream z1 = stream z" and ceoz: "c \<noteq> EOZ" using c ne char2int_not_EOZ by auto
      have s2: "stream ?z = drop ?m (stream z)" and t2: "take ?m (z_p z1) = take ?m (stream z)"
        unfolding s1 [symmetric] using m(2) by (simp_all add: stream_def)
      have "n - ?m < n" using m(1) False by simp
      from less.IH [OF this ok2] obtain z' where
        z': "luaZ_read ?z (n - ?m) = Inr (z', take (n - ?m) (stream ?z), n - ?m - length (stream ?z))" "zio_ok z'"
        "n - ?m \<le> length (stream ?z) \<longrightarrow> stream z' = drop (n - ?m) (stream ?z)" by blast
      have lm: "?m \<le> length (stream z)" unfolding s1 [symmetric] stream_def [of z1] using m(2) by simp
      have "luaZ_read z n = Inr (z', take ?m (z_p z1) @ take (n - ?m) (stream ?z), n - ?m - length (stream ?z))"
        using look ceoz False m z'(1) by (subst luaZ_read.simps) (simp add: Let_def)
      moreover have "take ?m (z_p z1) @ take (n - ?m) (stream ?z) = take n (stream z)"
        unfolding t2 s2 using m(3) by (metis le_add_diff_inverse take_add)
      moreover have "n - ?m - length (stream ?z) = n - length (stream z)" unfolding s2 using lm m(3) by simp
      moreover have "n \<le> length (stream z) \<longrightarrow> stream z' = drop n (stream z)"
        using z'(3) m(3) lm unfolding s2 by (simp add: drop_drop)
      ultimately show ?thesis using z'(2) by auto
    qed
  qed
qed

text \<open>
  C23: \<open>luaZ_read\<close> gives the next \<open>n\<close> bytes of the stream, however the reader cut them into
  blocks, never reads outside a block, and returns the number of bytes that are missing.
\<close>

theorem luaZ_read_bytes:
  "\<exists>z'. luaZ_read (luaZ_init (filter (\<lambda>b. b \<noteq> []) blocks)) n =
      Inr (z', take n (concat blocks), n - length (concat blocks))"
proof -
  have "takeWhile (\<lambda>b. b \<noteq> []) (filter (\<lambda>b. b \<noteq> []) blocks) = filter (\<lambda>b. b \<noteq> []) blocks"
    by (simp add: takeWhile_eq_all_conv)
  moreover have "concat (filter (\<lambda>b. b \<noteq> []) blocks) = concat blocks" by (induction blocks) auto
  ultimately have "stream (luaZ_init (filter (\<lambda>b. b \<noteq> []) blocks)) = concat blocks"
    by (simp only: luaZ_init_ok(2))
  with luaZ_read_spec [OF luaZ_init_ok(1)] show ?thesis by metis
qed

text \<open>Growing an array gives more room until the limit is reached, and the limit is never passed
  (but for the minimum size).
\<close>

theorem luaM_growaux_grows:
  "case luaM_growaux sz limit msg of
     Inl e \<Rightarrow> e = ErrRun msg \<and> limit \<le> sz
   | Inr newsize \<Rightarrow> sz < newsize \<and> newsize \<le> max limit MINSIZEARRAY"
  by (auto simp: luaM_growaux_def MINSIZEARRAY_def Let_def)

end
