(* ===== verification/LuaDump.thy ===== *)
theory LuaDump
  imports LuaProto LuaZio
begin

text \<open>
  Precompiled chunks: \<open>luaU_dump\<close> (ldump.c) writes a prototype through a writer and
  \<open>luaU_undump\<close> (lundump.c) reads it back from a stream. Memory is little-endian, with 4-byte
  \<open>int\<close>, 8-byte \<open>size_t\<close> and \<open>lua_Number\<close>. The check of the code that ends the load of a function
  is an argument here.
\<close>

section \<open>Bytes\<close>

text \<open>The \<open>k\<close> bytes of a variable in memory, and back.\<close>

fun to_bytes :: "nat \<Rightarrow> nat \<Rightarrow> lu_byte list" where
  "to_bytes 0 x = []"
| "to_bytes (Suc k) x = word_of_nat (x mod 256) # to_bytes k (x div 256)"

fun of_bytes :: "lu_byte list \<Rightarrow> nat" where
  "of_bytes [] = 0"
| "of_bytes (b # bs) = unat b + 256 * of_bytes bs"

definition byte_of :: "char \<Rightarrow> lu_byte" where "byte_of c = word_of_nat (of_char c)"
definition char_at :: "lu_byte \<Rightarrow> char" where "char_at b = char_of (unat b)"

definition int_bytes :: "int \<Rightarrow> lu_byte list" where
  "int_bytes x = to_bytes 4 (nat (x mod 2 ^ 32))"

definition signed_int :: "nat \<Rightarrow> int" where
  "signed_int n = (if n < 2 ^ 31 then int n else int n - 2 ^ 32)"

section \<open>Dump\<close>

type_synonym 'd lua_Writer = "lu_byte list \<Rightarrow> 'd \<Rightarrow> int \<times> 'd"

record 'd DumpState =
  d_data :: 'd
  d_status :: int

definition DumpBlock :: "'d lua_Writer \<Rightarrow> lu_byte list \<Rightarrow> 'd DumpState \<Rightarrow> 'd DumpState" where
  "DumpBlock writer b D =
     (if d_status D = 0 then
        (let (st, data) = writer b (d_data D) in D\<lparr>d_status := st, d_data := data\<rparr>)
      else D)"

definition DumpChar :: "'d lua_Writer \<Rightarrow> int \<Rightarrow> 'd DumpState \<Rightarrow> 'd DumpState" where
  "DumpChar w y D = DumpBlock w [word_of_int y] D"

definition DumpInt :: "'d lua_Writer \<Rightarrow> int \<Rightarrow> 'd DumpState \<Rightarrow> 'd DumpState" where
  "DumpInt w x D = DumpBlock w (int_bytes x) D"

definition DumpNumber :: "'d lua_Writer \<Rightarrow> lua_Number \<Rightarrow> 'd DumpState \<Rightarrow> 'd DumpState" where
  "DumpNumber w x D = DumpBlock w (to_bytes 8 (unat x)) D"

definition DumpVector :: "'d lua_Writer \<Rightarrow> lu_byte list list \<Rightarrow> int \<Rightarrow> 'd DumpState \<Rightarrow> 'd DumpState" where
  "DumpVector w b n D = DumpBlock w (concat b) (DumpInt w n D)"

definition DumpString :: "'d lua_Writer \<Rightarrow> string option \<Rightarrow> 'd DumpState \<Rightarrow> 'd DumpState" where
  "DumpString w s D =
     (case s of
        None \<Rightarrow> DumpBlock w (to_bytes 8 0) D
      | Some str \<Rightarrow>
          (let sz = length str + 1
           in DumpBlock w (map byte_of str @ [0]) (DumpBlock w (to_bytes 8 sz) D)))"

definition DumpCode :: "'d lua_Writer \<Rightarrow> Proto \<Rightarrow> 'd DumpState \<Rightarrow> 'd DumpState" where
  "DumpCode w f D = DumpVector w (map (\<lambda>i. to_bytes 4 (unat i)) (p_code f)) (int (length (p_code f))) D"

fun ttype_konst :: "Konst \<Rightarrow> int" where
  "ttype_konst KNil = int LUA_TNIL"
| "ttype_konst (KBool b) = int LUA_TBOOLEAN"
| "ttype_konst (KNumber n) = int LUA_TNUMBER"
| "ttype_konst (KString s) = int LUA_TSTRING"

text \<open>One step of the loop over the constants.\<close>

definition DumpConstant :: "'d lua_Writer \<Rightarrow> Konst \<Rightarrow> 'd DumpState \<Rightarrow> 'd DumpState" where
  "DumpConstant w c D =
     (let D = DumpChar w (ttype_konst c) D in
      case c of
        KNil \<Rightarrow> D
      | KBool b \<Rightarrow> DumpChar w (if b then 1 else 0) D
      | KNumber n \<Rightarrow> DumpNumber w n D
      | KString s \<Rightarrow> DumpString w s D)"

definition DumpLocVar :: "'d lua_Writer \<Rightarrow> LocVar \<Rightarrow> 'd DumpState \<Rightarrow> 'd DumpState" where
  "DumpLocVar w v D = DumpInt w (endpc v) (DumpInt w (startpc v) (DumpString w (varname v) D))"

definition DumpDebug :: "'d lua_Writer \<Rightarrow> bool \<Rightarrow> Proto \<Rightarrow> 'd DumpState \<Rightarrow> 'd DumpState" where
  "DumpDebug w strip f D =
     (let lineinfo = (if strip then [] else p_lineinfo f);
          D = DumpVector w (map int_bytes lineinfo) (int (length lineinfo)) D;
          locvars = (if strip then [] else p_locvars f);
          D = DumpInt w (int (length locvars)) D;
          D = fold (DumpLocVar w) locvars D;
          upvalues = (if strip then [] else p_upvalues f);
          D = DumpInt w (int (length upvalues)) D
      in fold (DumpString w) upvalues D)"

text \<open>\<open>DumpFunction\<close> calls itself through \<open>DumpConstants\<close>; the parent's source decides if the source is written.\<close>

definition DumpHead :: "'d lua_Writer \<Rightarrow> bool \<Rightarrow> Proto \<Rightarrow> string option \<Rightarrow> 'd DumpState \<Rightarrow> 'd DumpState" where
  "DumpHead w strip f p D =
     (let D = DumpString w (if p_source f = p \<or> strip then None else p_source f) D;
          D = DumpInt w (p_linedefined f) D;
          D = DumpInt w (p_lastlinedefined f) D;
          D = DumpChar w (uint (p_nups f)) D;
          D = DumpChar w (uint (p_numparams f)) D;
          D = DumpChar w (uint (p_is_vararg f)) D;
          D = DumpChar w (uint (p_maxstacksize f)) D
      in DumpCode w f D)"

fun DumpFunction :: "'d lua_Writer \<Rightarrow> bool \<Rightarrow> Proto \<Rightarrow> string option \<Rightarrow> 'd DumpState \<Rightarrow> 'd DumpState" where
  "DumpFunction w strip f p D =
     (let D = DumpHead w strip f p D;
          D = DumpInt w (int (length (p_k f))) D;
          D = fold (DumpConstant w) (p_k f) D;
          D = DumpInt w (int (length (p_p f))) D;
          D = fold (\<lambda>g D. DumpFunction w strip g (p_source f) D) (p_p f) D
      in DumpDebug w strip f D)"

declare DumpFunction.simps [simp del]

definition LUAC_HEADERSIZE :: nat where "LUAC_HEADERSIZE = 12"

text \<open>\<open>LUA_SIGNATURE\<close>, version, format, endianness, sizes, and that numbers are not integral.\<close>

definition luaU_header :: "lu_byte list" where
  "luaU_header = [0x1B, 0x4C, 0x75, 0x61, 0x51, 0, 1, 4, 8, 4, 8, 0]"

definition luaU_dump :: "'d lua_Writer \<Rightarrow> 'd \<Rightarrow> bool \<Rightarrow> Proto \<Rightarrow> int \<times> 'd" where
  "luaU_dump w data strip f =
     (let D = \<lparr>d_data = data, d_status = 0\<rparr>;
          D = DumpBlock w luaU_header D;
          D = DumpFunction w strip f None D
      in (d_status D, d_data D))"

section \<open>Undump\<close>

definition LUAI_MAXCCALLS :: nat where "LUAI_MAXCCALLS = 200"

definition undump_error :: "string \<Rightarrow> string \<Rightarrow> 'a res" where
  "undump_error name why = Inl (ErrSyntax (name @ '': '' @ why @ '' in precompiled chunk''))"

definition LoadBlock :: "string \<Rightarrow> nat \<Rightarrow> ZIO \<Rightarrow> (lu_byte list \<times> ZIO) res" where
  "LoadBlock S sz z =
     bindr (luaZ_read z sz) (\<lambda>(z, b, r).
       if r \<noteq> 0 then undump_error S ''unexpected end'' else Inr (b, z))"

text \<open>\<open>LoadChar\<close> gives a (signed) \<open>char\<close> as an \<open>int\<close>.\<close>

definition LoadChar :: "string \<Rightarrow> ZIO \<Rightarrow> (int \<times> ZIO) res" where
  "LoadChar S z = bindr (LoadBlock S 1 z) (\<lambda>(b, z). Inr (sint (hd b), z))"

definition LoadByte :: "string \<Rightarrow> ZIO \<Rightarrow> (lu_byte \<times> ZIO) res" where
  "LoadByte S z = bindr (LoadChar S z) (\<lambda>(x, z). Inr (word_of_int x, z))"

definition LoadInt :: "string \<Rightarrow> ZIO \<Rightarrow> (int \<times> ZIO) res" where
  "LoadInt S z =
     bindr (LoadBlock S 4 z) (\<lambda>(b, z).
       let x = signed_int (of_bytes b) in
       if x < 0 then undump_error S ''bad integer'' else Inr (x, z))"

definition LoadNumber :: "string \<Rightarrow> ZIO \<Rightarrow> (lua_Number \<times> ZIO) res" where
  "LoadNumber S z = bindr (LoadBlock S 8 z) (\<lambda>(b, z). Inr (word_of_nat (of_bytes b), z))"

definition LoadString :: "string \<Rightarrow> ZIO \<Rightarrow> (string option \<times> ZIO) res" where
  "LoadString S z =
     bindr (LoadBlock S 8 z) (\<lambda>(b, z).
       let sz = of_bytes b in
       if sz = 0 then Inr (None, z)
       else if MAX_SIZET < (sz + 1) mod 2 ^ 64 then luaM_toobig
       else bindr (LoadBlock S sz z) (\<lambda>(s, z).
              if MAX_SIZET - sizeof_TString < sz then luaM_toobig
              else Inr (Some (map char_at (take (sz - 1) s)), z)))"

text \<open>\<open>LoadVector\<close> of items of \<open>sz\<close> bytes, and the loops that load \<open>n\<close> items one by one.\<close>

fun split_items :: "nat \<Rightarrow> nat \<Rightarrow> lu_byte list \<Rightarrow> lu_byte list list" where
  "split_items 0 sz b = []"
| "split_items (Suc n) sz b = take sz b # split_items n sz (drop sz b)"

definition LoadVector :: "string \<Rightarrow> nat \<Rightarrow> nat \<Rightarrow> ZIO \<Rightarrow> (lu_byte list list \<times> ZIO) res" where
  "LoadVector S n sz z = bindr (LoadBlock S (n * sz) z) (\<lambda>(b, z). Inr (split_items n sz b, z))"

fun load_n :: "nat \<Rightarrow> (ZIO \<Rightarrow> ('a \<times> ZIO) res) \<Rightarrow> ZIO \<Rightarrow> ('a list \<times> ZIO) res" where
  "load_n 0 l z = Inr ([], z)"
| "load_n (Suc n) l z = bindr (l z) (\<lambda>(x, z). bindr (load_n n l z) (\<lambda>(xs, z). Inr (x # xs, z)))"

lemma load_n_cong [fundef_cong]:
  "n = n' \<Longrightarrow> z = z' \<Longrightarrow> (\<And>z. l z = l' z) \<Longrightarrow> load_n n l z = load_n n' l' z'"
proof -
  assume "n = n'" "z = z'" "\<And>z. l z = l' z"
  then have "l = l'" by blast
  with \<open>n = n'\<close> \<open>z = z'\<close> show ?thesis by simp
qed

definition LoadCode :: "string \<Rightarrow> ZIO \<Rightarrow> (Instruction list \<times> ZIO) res" where
  "LoadCode S z =
     bindr (LoadInt S z) (\<lambda>(n, z).
     bindr (LoadVector S (nat n) 4 z) (\<lambda>(v, z). Inr (map (\<lambda>b. word_of_nat (of_bytes b)) v, z)))"

definition LoadConstant :: "string \<Rightarrow> ZIO \<Rightarrow> (Konst \<times> ZIO) res" where
  "LoadConstant S z =
     bindr (LoadChar S z) (\<lambda>(t, z).
       if t = int LUA_TNIL then Inr (KNil, z)
       else if t = int LUA_TBOOLEAN then bindr (LoadChar S z) (\<lambda>(b, z). Inr (KBool (b \<noteq> 0), z))
       else if t = int LUA_TNUMBER then bindr (LoadNumber S z) (\<lambda>(x, z). Inr (KNumber x, z))
       else if t = int LUA_TSTRING then bindr (LoadString S z) (\<lambda>(s, z). Inr (KString s, z))
       else undump_error S ''bad constant'')"

definition LoadLocVar :: "string \<Rightarrow> ZIO \<Rightarrow> (LocVar \<times> ZIO) res" where
  "LoadLocVar S z =
     bindr (LoadString S z) (\<lambda>(v, z).
     bindr (LoadInt S z) (\<lambda>(s, z).
     bindr (LoadInt S z) (\<lambda>(e, z).
       Inr (\<lparr>varname = v, startpc = s, endpc = e\<rparr>, z))))"

definition LoadDebug :: "string \<Rightarrow> ZIO \<Rightarrow> ((int list \<times> LocVar list \<times> string option list) \<times> ZIO) res" where
  "LoadDebug S z =
     bindr (LoadInt S z) (\<lambda>(n, z).
     bindr (LoadVector S (nat n) 4 z) (\<lambda>(v, z).
     let lineinfo = map (\<lambda>b. signed_int (of_bytes b)) v in
     bindr (LoadInt S z) (\<lambda>(n, z).
     bindr (load_n (nat n) (LoadLocVar S) z) (\<lambda>(locvars, z).
     bindr (LoadInt S z) (\<lambda>(n, z).
     bindr (load_n (nat n) (LoadString S) z) (\<lambda>(upvalues, z).
       Inr ((lineinfo, locvars, upvalues), z)))))))"

text \<open>\<open>LoadFunction\<close> at \<open>nCcalls\<close> nested calls, with the parent's source \<open>p\<close>.\<close>

function LoadFunction :: "(Proto \<Rightarrow> bool) \<Rightarrow> string \<Rightarrow> nat \<Rightarrow> string option \<Rightarrow> ZIO \<Rightarrow> (Proto \<times> ZIO) res" where
  "LoadFunction check S nCcalls p z =
     (if LUAI_MAXCCALLS < nCcalls + 1 then undump_error S ''code too deep''
      else
        bindr (LoadString S z) (\<lambda>(src, z).
        let source = (if src = None then p else src) in
        bindr (LoadInt S z) (\<lambda>(linedefined, z).
        bindr (LoadInt S z) (\<lambda>(lastlinedefined, z).
        bindr (LoadByte S z) (\<lambda>(nups, z).
        bindr (LoadByte S z) (\<lambda>(numparams, z).
        bindr (LoadByte S z) (\<lambda>(is_vararg, z).
        bindr (LoadByte S z) (\<lambda>(maxstacksize, z).
        bindr (LoadCode S z) (\<lambda>(code, z).
        bindr (LoadInt S z) (\<lambda>(n, z).
        bindr (load_n (nat n) (LoadConstant S) z) (\<lambda>(k, z).
        bindr (LoadInt S z) (\<lambda>(n, z).
        bindr (load_n (nat n) (LoadFunction check S (nCcalls + 1) source) z) (\<lambda>(ps, z).
        bindr (LoadDebug S z) (\<lambda>((lineinfo, locvars, upvalues), z).
        let f = Proto source linedefined lastlinedefined nups numparams is_vararg maxstacksize
                  code k ps lineinfo locvars upvalues in
        if \<not> check f then undump_error S ''bad code'' else Inr (f, z)))))))))))))))"
  by pat_completeness auto
termination
  by (relation "measure (\<lambda>(check, S, n, p, z). LUAI_MAXCCALLS + 1 - n)") auto

declare LoadFunction.simps [simp del]

definition LoadHeader :: "string \<Rightarrow> ZIO \<Rightarrow> ZIO res" where
  "LoadHeader S z =
     bindr (LoadBlock S LUAC_HEADERSIZE z) (\<lambda>(s, z).
       if luaU_header \<noteq> s then undump_error S ''bad header'' else Inr z)"

definition undump_name :: "string \<Rightarrow> string" where
  "undump_name name =
     (case name of
        [] \<Rightarrow> name
      | c # cs \<Rightarrow>
          if c = CHR ''@'' \<or> c = CHR ''='' then cs
          else if c = CHR 0x1B then ''binary string'' else name)"

definition luaU_undump_with :: "(Proto \<Rightarrow> bool) \<Rightarrow> nat \<Rightarrow> ZIO \<Rightarrow> string \<Rightarrow> (Proto \<times> ZIO) res" where
  "luaU_undump_with check nCcalls z name =
     (let S = undump_name name in
      bindr (LoadHeader S z) (\<lambda>z. LoadFunction check S nCcalls (Some ''=?'') z))"

section \<open>The blocks a dump writes\<close>

definition bl_string :: "string option \<Rightarrow> lu_byte list list" where
  "bl_string s = (case s of None \<Rightarrow> [to_bytes 8 0]
     | Some str \<Rightarrow> [to_bytes 8 (length str + 1), map byte_of str @ [0]])"

definition bl_char :: "int \<Rightarrow> lu_byte list list" where "bl_char x = [[word_of_int x]]"

definition bl_const :: "Konst \<Rightarrow> lu_byte list list" where
  "bl_const c = bl_char (ttype_konst c) @
     (case c of KNil \<Rightarrow> [] | KBool b \<Rightarrow> bl_char (if b then 1 else 0)
      | KNumber n \<Rightarrow> [to_bytes 8 (unat n)] | KString s \<Rightarrow> bl_string s)"

definition bl_locvar :: "LocVar \<Rightarrow> lu_byte list list" where
  "bl_locvar v = bl_string (varname v) @ [int_bytes (startpc v), int_bytes (endpc v)]"

definition bl_vector :: "lu_byte list list \<Rightarrow> lu_byte list list" where
  "bl_vector bs = [int_bytes (int (length bs)), concat bs]"

definition bl_list :: "('a \<Rightarrow> lu_byte list list) \<Rightarrow> 'a list \<Rightarrow> lu_byte list list" where
  "bl_list b xs = int_bytes (int (length xs)) # concat (map b xs)"

definition bl_debug :: "bool \<Rightarrow> Proto \<Rightarrow> lu_byte list list" where
  "bl_debug strip f =
     bl_vector (map int_bytes (if strip then [] else p_lineinfo f)) @
     bl_list bl_locvar (if strip then [] else p_locvars f) @
     bl_list bl_string (if strip then [] else p_upvalues f)"

definition bl_head :: "bool \<Rightarrow> Proto \<Rightarrow> string option \<Rightarrow> lu_byte list list" where
  "bl_head strip f p =
     bl_string (if p_source f = p \<or> strip then None else p_source f) @
     [int_bytes (p_linedefined f), int_bytes (p_lastlinedefined f)] @
     bl_char (uint (p_nups f)) @ bl_char (uint (p_numparams f)) @ bl_char (uint (p_is_vararg f)) @
     bl_char (uint (p_maxstacksize f)) @ bl_vector (map (\<lambda>i. to_bytes 4 (unat i)) (p_code f))"

fun bl_fun :: "bool \<Rightarrow> Proto \<Rightarrow> string option \<Rightarrow> lu_byte list list" where
  "bl_fun strip f p =
     bl_head strip f p @ bl_list bl_const (p_k f) @
     (int_bytes (int (length (p_p f))) # concat (map (\<lambda>g. bl_fun strip g (p_source f)) (p_p f))) @
     bl_debug strip f"

declare bl_fun.simps [simp del]

text \<open>The writer gets the blocks in order and stops at the first status that is not 0.\<close>

abbreviation emit :: "'d lua_Writer \<Rightarrow> lu_byte list list \<Rightarrow> 'd DumpState \<Rightarrow> 'd DumpState" where
  "emit w bl D \<equiv> fold (DumpBlock w) bl D"

lemma emit_string: "DumpString w s D = emit w (bl_string s) D"
  by (cases s) (simp_all add: DumpString_def bl_string_def Let_def)

lemma emit_const: "DumpConstant w c D = emit w (bl_const c) D"
  by (cases c) (simp_all add: DumpConstant_def bl_const_def bl_char_def DumpChar_def DumpNumber_def emit_string Let_def)

lemma emit_locvar: "DumpLocVar w v D = emit w (bl_locvar v) D"
  by (simp add: DumpLocVar_def bl_locvar_def DumpInt_def emit_string)

lemma emit_vector: "DumpVector w bs (int (length bs)) D = emit w (bl_vector bs) D"
  by (simp add: DumpVector_def bl_vector_def DumpInt_def)

lemma emit_fold:
  "(\<And>x D. x \<in> set xs \<Longrightarrow> d x D = emit w (b x) D) \<Longrightarrow> fold d xs D = emit w (concat (map b xs)) D"
  by (induction xs arbitrary: D) simp_all

lemma emit_list:
  "(\<And>x D. x \<in> set xs \<Longrightarrow> d x D = emit w (b x) D) \<Longrightarrow>
    fold d xs (DumpInt w (int (length xs)) D) = emit w (bl_list b xs) D"
  using emit_fold [of xs d w b] by (simp add: bl_list_def DumpInt_def)

lemma emit_debug: "DumpDebug w strip f D = emit w (bl_debug strip f) D"
proof -
  have v: "DumpVector w (map int_bytes xs) (int (length xs)) D = emit w (bl_vector (map int_bytes xs)) D" for xs D
    using emit_vector [of w "map int_bytes xs" D] by simp
  show ?thesis
    unfolding DumpDebug_def bl_debug_def Let_def v fold_append comp_def
    by (simp only: emit_list [where d = "DumpLocVar w" and b = bl_locvar, OF emit_locvar]
        emit_list [where d = "DumpString w" and b = bl_string, OF emit_string])
qed

lemma emit_head: "DumpHead w strip f p D = emit w (bl_head strip f p) D"
  unfolding DumpHead_def bl_head_def Let_def
  using emit_vector [of w "map (\<lambda>i. to_bytes 4 (unat i)) (p_code f)"]
  by (simp add: DumpCode_def emit_string DumpInt_def DumpChar_def bl_char_def)

lemma emit_fun: "DumpFunction w strip f p D = emit w (bl_fun strip f p) D"
proof (induction f arbitrary: p D rule: proto_induct)
  case (1 f)
  have nested: "fold (\<lambda>g D. DumpFunction w strip g (p_source f) D) (p_p f) (DumpInt w (int (length (p_p f))) D) =
      emit w (int_bytes (int (length (p_p f))) # concat (map (\<lambda>g. bl_fun strip g (p_source f)) (p_p f))) D" for D
    using emit_list [of "p_p f" "\<lambda>g D. DumpFunction w strip g (p_source f) D" w "\<lambda>g. bl_fun strip g (p_source f)"] 1
    by (simp add: bl_list_def)
  show ?case
    unfolding DumpFunction.simps [of w strip f] bl_fun.simps [of strip f] Let_def nested fold_append comp_def
    by (simp only: emit_head emit_debug emit_list [where d = "DumpConstant w" and b = bl_const, OF emit_const])
qed

definition dump_blocks :: "bool \<Rightarrow> Proto \<Rightarrow> lu_byte list list" where
  "dump_blocks strip f = luaU_header # bl_fun strip f None"

lemma luaU_dump_emit:
  "luaU_dump w data strip f =
    (let D = emit w (dump_blocks strip f) \<lparr>d_data = data, d_status = 0\<rparr> in (d_status D, d_data D))"
  by (simp add: luaU_dump_def dump_blocks_def emit_fun Let_def)

section \<open>Bytes back\<close>

lemma to_bytes_length [simp]: "length (to_bytes k x) = k"
  by (induction k x rule: to_bytes.induct) simp_all

lemma of_to_bytes: "of_bytes (to_bytes k x) = x mod 256 ^ k"
proof (induction k x rule: to_bytes.induct)
  case (2 k x)
  have "unat (word_of_nat (x mod 256) :: lu_byte) = x mod 256"
    by (rule unat_of_nat_lt) simp
  with 2 show ?case by (simp add: mod_mult2_eq)
qed simp

lemma of_to_bytes_id: "x < 256 ^ k \<Longrightarrow> of_bytes (to_bytes k x) = x"
  by (simp add: of_to_bytes)

definition c_int32 :: "int \<Rightarrow> bool" where
  "c_int32 x \<longleftrightarrow> - (2 ^ 31) \<le> x \<and> x < 2 ^ 31"

lemma int_bytes_length [simp]: "length (int_bytes x) = 4"
  by (simp add: int_bytes_def)

lemma signed_int_bytes:
  assumes "c_int32 x"
  shows "signed_int (of_bytes (int_bytes x)) = x"
proof -
  have m: "of_bytes (int_bytes x) = nat (x mod 2 ^ 32)"
    unfolding int_bytes_def by (rule of_to_bytes_id) (simp add: nat_less_iff)
  show ?thesis
  proof (cases "0 \<le> x")
    case True
    with assms have "x mod 2 ^ 32 = x" by (simp add: c_int32_def)
    with m True assms show ?thesis by (simp add: signed_int_def c_int32_def nat_less_iff)
  next
    case False
    have "x mod 2 ^ 32 = (x + 2 ^ 32) mod 2 ^ 32" by simp
    also have "\<dots> = x + 2 ^ 32" by (rule mod_pos_pos_trivial) (use assms False in \<open>auto simp: c_int32_def\<close>)
    finally have "x mod 2 ^ 32 = x + 2 ^ 32" .
    moreover have "\<not> nat (x + 2 ^ 32) < 2 ^ 31" using assms by (simp add: c_int32_def nat_less_iff)
    moreover have "int (nat (x + 2 ^ 32)) = x + 2 ^ 32" using assms by (simp add: c_int32_def)
    ultimately show ?thesis using m by (simp add: signed_int_def)
  qed
qed

lemma char_byte [simp]: "char_at (byte_of c) = c"
proof -
  have "of_char c < (256::nat)" by simp
  then have "unat (byte_of c) = of_char c" unfolding byte_of_def by (intro unat_of_nat_lt) simp
  then show ?thesis by (simp add: char_at_def)
qed

section \<open>Loading what was written\<close>

text \<open>The loader \<open>l\<close> consumes exactly the bytes \<open>bs\<close> and gives \<open>x\<close>.\<close>

definition reads :: "(ZIO \<Rightarrow> ('a \<times> ZIO) res) \<Rightarrow> lu_byte list \<Rightarrow> 'a \<Rightarrow> bool" where
  "reads l bs x \<longleftrightarrow>
     (\<forall>z rest. zio_ok z \<longrightarrow> stream z = bs @ rest \<longrightarrow>
        (\<exists>z'. l z = Inr (x, z') \<and> zio_ok z' \<and> stream z' = rest))"

lemma readsD: "reads l bs x \<Longrightarrow> zio_ok z \<Longrightarrow> stream z = bs @ rest \<Longrightarrow>
    \<exists>z'. l z = Inr (x, z') \<and> zio_ok z' \<and> stream z' = rest"
  by (simp add: reads_def)

lemma reads_return: "reads (\<lambda>z. Inr (x, z)) [] x"
  by (simp add: reads_def)

lemma reads_bind:
  assumes "reads l bs x" "reads (g x) cs y"
  shows "reads (\<lambda>z. bindr (l z) (\<lambda>(x, z). g x z)) (bs @ cs) y"
  unfolding reads_def
proof (intro allI impI)
  fix z rest assume z: "zio_ok z" "stream z = (bs @ cs) @ rest"
  then obtain z1 where z1: "l z = Inr (x, z1)" "zio_ok z1" "stream z1 = cs @ rest"
    using readsD [OF assms(1), of z "cs @ rest"] by auto
  from readsD [OF assms(2) z1(2,3)] z1(1)
  show "\<exists>z'. bindr (l z) (\<lambda>(x, z). g x z) = Inr (y, z') \<and> zio_ok z' \<and> stream z' = rest" by auto
qed

lemma reads_bind_eq:
  "reads l bs x \<Longrightarrow> reads (g x) cs y \<Longrightarrow> ds = bs @ cs \<Longrightarrow> reads (\<lambda>z. bindr (l z) (\<lambda>(x, z). g x z)) ds y"
  using reads_bind [of l bs x g cs y] by simp

lemma reads_last:
  "reads l bs x \<Longrightarrow> reads (g x) [] y \<Longrightarrow> reads (\<lambda>z. bindr (l z) (\<lambda>(x, z). g x z)) bs y"
  using reads_bind [of l bs x g "[]" y] by simp

lemma reads_map:
  "reads l bs x \<Longrightarrow> y = f x \<Longrightarrow> reads (\<lambda>z. bindr (l z) (\<lambda>(x, z). Inr (f x, z))) bs y"
  using reads_bind [of l bs x "\<lambda>x z. Inr (f x, z)" "[]" y] reads_return [of y] by simp

lemma reads_block: "n = length bs \<Longrightarrow> reads (LoadBlock S n) bs bs"
  unfolding reads_def LoadBlock_def
proof (intro allI impI)
  fix z rest assume n: "n = length bs" and z: "zio_ok z" "stream z = bs @ rest"
  from luaZ_read_spec [OF z(1), of n] n z(2) show
    "\<exists>z'. bindr (luaZ_read z n) (\<lambda>(z, b, r). if r \<noteq> 0 then undump_error S ''unexpected end'' else Inr (b, z)) =
       Inr (bs, z') \<and> zio_ok z' \<and> stream z' = rest" by auto
qed

lemma reads_char:
  assumes "- 128 \<le> x" "x < 128"
  shows "reads (LoadChar S) [word_of_int x] x"
proof -
  have "sint (word_of_int x :: lu_byte) = x"
    unfolding sint_sbintrunc' by (rule signed_take_bit_int_eq_self) (use assms in simp_all)
  then show ?thesis unfolding LoadChar_def
    by (intro reads_map [OF reads_block]) simp_all
qed

lemma reads_byte: "reads (LoadByte S) [b] b"
proof -
  have "reads (LoadChar S) [b] (sint b)"
    unfolding LoadChar_def by (intro reads_map [OF reads_block]) simp_all
  then show ?thesis unfolding LoadByte_def by (rule reads_map) simp
qed

lemma reads_int:
  assumes "0 \<le> x" "x < 2 ^ 31"
  shows "reads (LoadInt S) (int_bytes x) x"
proof -
  have e: "signed_int (of_bytes (int_bytes x)) = x" using assms by (simp add: signed_int_bytes c_int32_def)
  show ?thesis unfolding LoadInt_def
    by (rule reads_last [OF reads_block]) (use assms reads_return [of x] in \<open>simp_all add: e Let_def\<close>)
qed

lemma reads_number: "reads (LoadNumber S) (to_bytes 8 (unat x)) x"
proof -
  have lt: "unat x < 256 ^ 8" using unsigned_less [of x] by simp
  show ?thesis unfolding LoadNumber_def
    by (rule reads_map [OF reads_block]) (simp_all add: of_to_bytes_id [OF lt])
qed

text \<open>Strings that fit in memory.\<close>

definition str_fits :: "string option \<Rightarrow> bool" where
  "str_fits s \<longleftrightarrow> (case s of None \<Rightarrow> True | Some x \<Rightarrow> length x + 1 \<le> MAX_SIZET - sizeof_TString)"

lemma reads_string:
  assumes "str_fits s"
  shows "reads (LoadString S) (concat (bl_string s)) s"
proof (cases s)
  case None
  have "of_bytes (to_bytes 8 0) = 0" by (rule of_to_bytes_id) simp
  then have "reads (LoadString S) (to_bytes 8 0) None" unfolding LoadString_def
    by (intro reads_last [OF reads_block]) (simp_all add: reads_return)
  with None show ?thesis by (simp add: bl_string_def)
next
  case (Some str)
  let ?n = "length str + 1" and ?b = "map byte_of str @ [0]"
  have fits: "?n \<le> MAX_SIZET - sizeof_TString" using assms Some by (simp add: str_fits_def)
  then have small: "?n < 256 ^ 8" "(?n + 1) mod 2 ^ 64 \<le> MAX_SIZET" by (simp_all add: MAX_SIZET_def sizeof_TString_def)
  have e: "of_bytes (to_bytes 8 ?n) = ?n" by (rule of_to_bytes_id [OF small(1)])
  have body: "reads (\<lambda>z. bindr (LoadBlock S ?n z) (\<lambda>(s, z). if MAX_SIZET - sizeof_TString < ?n then luaM_toobig
      else Inr (Some (map char_at (take (?n - 1) s)), z))) ?b (Some str)"
    by (rule reads_last [OF reads_block]) (use fits reads_return [of "Some str"] in \<open>simp_all add: comp_def\<close>)
  have ne: "?n \<noteq> 0" "\<not> MAX_SIZET < (?n + 1) mod 2 ^ 64" using small(2) by simp_all
  have "reads (LoadString S) (to_bytes 8 ?n @ ?b) (Some str)" unfolding LoadString_def
  proof (rule reads_bind [OF reads_block])
    show "reads (\<lambda>z. let sz = of_bytes (to_bytes 8 ?n) in
       if sz = 0 then Inr (None, z)
       else if MAX_SIZET < (sz + 1) mod 2 ^ 64 then luaM_toobig
       else bindr (LoadBlock S sz z) (\<lambda>(s, z).
              if MAX_SIZET - sizeof_TString < sz then luaM_toobig
              else Inr (Some (map char_at (take (sz - 1) s)), z))) ?b (Some str)"
      unfolding e Let_def if_not_P [OF ne(1)] if_not_P [OF ne(2)] by (rule body)
  qed simp
  with Some show ?thesis by (simp add: bl_string_def)
qed

lemma reads_n:
  assumes "\<And>x. x \<in> set xs \<Longrightarrow> reads l (b x) (v x)"
  shows "reads (load_n (length xs) l) (concat (map b xs)) (map v xs)"
  using assms
proof (induction xs)
  case (Cons x xs)
  have "reads (\<lambda>z. bindr (load_n (length xs) l z) (\<lambda>(xs, z). Inr (v x # xs, z))) (concat (map b xs)) (v x # map v xs)"
    by (rule reads_map [OF Cons.IH]) (use Cons.prems in simp_all)
  then show ?case using Cons.prems [of x] by (simp, intro reads_bind) auto
qed (simp add: reads_def)

lemma split_items_concat: "(\<And>b. b \<in> set bs \<Longrightarrow> length b = sz) \<Longrightarrow> split_items (length bs) sz (concat bs) = bs"
  by (induction bs) simp_all

lemma reads_vector:
  assumes "\<And>b. b \<in> set bs \<Longrightarrow> length b = 4" "n = length bs"
  shows "reads (LoadVector S n 4) (concat bs) bs"
proof -
  have "length (concat bs) = n * 4" using assms by (induction bs arbitrary: n) simp_all
  then show ?thesis unfolding LoadVector_def
    by (intro reads_map [OF reads_block]) (simp_all add: assms split_items_concat)
qed

section \<open>Prototypes that can be written\<close>

definition size_ok :: "'a list \<Rightarrow> bool" where "size_ok xs \<longleftrightarrow> length xs < 2 ^ 31"

definition pos_int :: "int \<Rightarrow> bool" where "pos_int x \<longleftrightarrow> 0 \<le> x \<and> x < 2 ^ 31"

definition konst_ok :: "Konst \<Rightarrow> bool" where
  "konst_ok c \<longleftrightarrow> (case c of KString s \<Rightarrow> str_fits s | _ \<Rightarrow> True)"

definition locvar_ok :: "LocVar \<Rightarrow> bool" where
  "locvar_ok v \<longleftrightarrow> str_fits (varname v) \<and> pos_int (startpc v) \<and> pos_int (endpc v)"

definition head_ok :: "Proto \<Rightarrow> bool" where
  "head_ok f \<longleftrightarrow> str_fits (p_source f) \<and> pos_int (p_linedefined f) \<and> pos_int (p_lastlinedefined f) \<and>
     size_ok (p_code f) \<and> size_ok (p_k f) \<and> size_ok (p_p f) \<and> size_ok (p_lineinfo f) \<and>
     size_ok (p_locvars f) \<and> size_ok (p_upvalues f) \<and> list_all konst_ok (p_k f) \<and>
     list_all c_int32 (p_lineinfo f) \<and> list_all locvar_ok (p_locvars f) \<and> list_all str_fits (p_upvalues f)"

text \<open>Lifting to the nested prototypes, and the depth of nesting.\<close>

fun all_protos :: "(Proto \<Rightarrow> bool) \<Rightarrow> Proto \<Rightarrow> bool" where
  "all_protos P f \<longleftrightarrow> P f \<and> list_all (all_protos P) (p_p f)"

fun depth_le :: "Proto \<Rightarrow> nat \<Rightarrow> bool" where
  "depth_le f n \<longleftrightarrow> 0 < n \<and> list_all (\<lambda>g. depth_le g (n - 1)) (p_p f)"

text \<open>What is left of a stripped prototype: no debug information, and the source of the chunk.\<close>

fun strip_proto :: "string \<Rightarrow> Proto \<Rightarrow> Proto" where
  "strip_proto src f = Proto (Some src) (p_linedefined f) (p_lastlinedefined f) (p_nups f) (p_numparams f)
     (p_is_vararg f) (p_maxstacksize f) (p_code f) (p_k f) (map (strip_proto src) (p_p f)) [] [] []"

declare all_protos.simps [simp del] depth_le.simps [simp del] strip_proto.simps [simp del]

definition loaded :: "bool \<Rightarrow> string \<Rightarrow> Proto \<Rightarrow> Proto" where
  "loaded strip src f = (if strip then strip_proto src f else f)"

section \<open>Loading a function\<close>

lemma reads_size: "size_ok xs \<Longrightarrow> reads (LoadInt S) (int_bytes (int (length xs))) (int (length xs))"
  by (rule reads_int) (simp_all add: size_ok_def)

lemma reads_pos: "pos_int x \<Longrightarrow> reads (LoadInt S) (int_bytes x) x"
  by (rule reads_int) (simp_all add: pos_int_def)

lemma reads_bl_char:
  "- 128 \<le> x \<Longrightarrow> x < 128 \<Longrightarrow> reads (LoadChar S) (concat (bl_char x)) x"
  using reads_char by (simp add: bl_char_def)

lemma reads_code:
  assumes "size_ok c"
  shows "reads (LoadCode S) (concat (bl_vector (map (\<lambda>i. to_bytes 4 (unat i)) c))) c"
proof -
  let ?bs = "map (\<lambda>i. to_bytes 4 (unat i)) c"
  have item: "word_of_nat (of_bytes (to_bytes 4 (unat i))) = i" for i :: Instruction
  proof -
    have "unat i < 256 ^ 4" using unsigned_less [of i] by simp
    from of_to_bytes_id [OF this] show ?thesis by simp
  qed
  have "reads (\<lambda>z. bindr (LoadVector S (nat (int (length c))) 4 z)
      (\<lambda>(v, z). Inr (map (\<lambda>b. word_of_nat (of_bytes b)) v, z))) (concat ?bs) c"
    by (rule reads_map [OF reads_vector]) (auto simp: item comp_def)
  from reads_bind [of "LoadInt S" _ "int (length c)"
      "\<lambda>n z. bindr (LoadVector S (nat n) 4 z) (\<lambda>(v, z). Inr (map (\<lambda>b. word_of_nat (of_bytes b)) v, z))",
      OF reads_size [OF assms] this]
  show ?thesis by (simp add: LoadCode_def [abs_def] bl_vector_def)
qed

lemma reads_const:
  assumes "konst_ok c"
  shows "reads (LoadConstant S) (concat (bl_const c)) c"
proof -
  have tag: "reads (LoadChar S) (concat (bl_char (ttype_konst c))) (ttype_konst c)"
    by (rule reads_bl_char) (cases c; simp add: LUA_TNIL_def LUA_TBOOLEAN_def LUA_TNUMBER_def LUA_TSTRING_def)+
  have tags: "int LUA_TNIL = 0" "int LUA_TBOOLEAN = 1" "int LUA_TNUMBER = 3" "int LUA_TSTRING = 4"
    by (simp_all add: LUA_TNIL_def LUA_TBOOLEAN_def LUA_TNUMBER_def LUA_TSTRING_def)
  show ?thesis
  proof (cases c)
    case KNil
    show ?thesis unfolding LoadConstant_def
      by (rule reads_bind_eq [OF tag, where cs = "[]"])
        (simp_all add: KNil tags reads_return bl_const_def)
  next
    case (KBool b)
    have ch: "reads (LoadChar S) (concat (bl_char (if b then 1 else 0))) (if b then 1 else 0)"
      by (rule reads_bl_char) auto
    have "reads (\<lambda>z. bindr (LoadChar S z) (\<lambda>(b, z). Inr (KBool (b \<noteq> 0), z)))
        (concat (bl_char (if b then 1 else 0))) (KBool b)" by (rule reads_map [OF ch]) simp
    then show ?thesis unfolding LoadConstant_def
      by (intro reads_bind_eq [OF tag, where cs = "concat (bl_char (if b then 1 else 0))"])
        (simp_all add: KBool tags bl_const_def)
  next
    case (KNumber n)
    have "reads (\<lambda>z. bindr (LoadNumber S z) (\<lambda>(x, z). Inr (KNumber x, z))) (to_bytes 8 (unat n)) (KNumber n)"
      by (rule reads_map [OF reads_number]) simp
    then show ?thesis unfolding LoadConstant_def
      by (intro reads_bind_eq [OF tag, where cs = "to_bytes 8 (unat n)"])
        (simp_all add: KNumber tags bl_const_def)
  next
    case (KString s)
    have "reads (\<lambda>z. bindr (LoadString S z) (\<lambda>(s, z). Inr (KString s, z))) (concat (bl_string s)) (KString s)"
      by (rule reads_map [OF reads_string]) (use assms KString in \<open>simp_all add: konst_ok_def\<close>)
    then show ?thesis unfolding LoadConstant_def
      by (intro reads_bind_eq [OF tag, where cs = "concat (bl_string s)"])
        (simp_all add: KString tags bl_const_def)
  qed
qed

lemma reads_locvar:
  assumes "locvar_ok v"
  shows "reads (LoadLocVar S) (concat (bl_locvar v)) v"
proof -
  have "reads (\<lambda>z. bindr (LoadInt S z) (\<lambda>(e, z). Inr (\<lparr>varname = varname v, startpc = startpc v, endpc = e\<rparr>, z)))
      (int_bytes (endpc v)) v"
    by (rule reads_map [OF reads_pos]) (use assms in \<open>simp_all add: locvar_ok_def\<close>)
  then have "reads (\<lambda>z. bindr (LoadInt S z) (\<lambda>(s, z). bindr (LoadInt S z)
      (\<lambda>(e, z). Inr (\<lparr>varname = varname v, startpc = s, endpc = e\<rparr>, z))))
      (int_bytes (startpc v) @ int_bytes (endpc v)) v"
    using assms by (intro reads_bind [OF reads_pos]) (simp_all add: locvar_ok_def)
  then show ?thesis unfolding LoadLocVar_def bl_locvar_def using assms
    by (simp, intro reads_bind [OF reads_string]) (simp_all add: locvar_ok_def)
qed

lemma concat_map_concat: "concat (map (\<lambda>x. concat (h x)) xs) = concat (concat (map h xs))"
  by (induction xs) simp_all

lemma reads_list:
  assumes "size_ok xs" "\<And>x. x \<in> set xs \<Longrightarrow> reads l (concat (b x)) x" "reads (g xs) cs y"
  shows "reads (\<lambda>z. bindr (LoadInt S z) (\<lambda>(n, z). bindr (load_n (nat n) l z) (\<lambda>(xs, z). g xs z)))
    (concat (bl_list b xs) @ cs) y"
proof -
  have "reads (load_n (length xs) l) (concat (map (\<lambda>x. concat (b x)) xs)) (map (\<lambda>x. x) xs)"
    by (rule reads_n) (use assms(2) in blast)
  then have "reads (load_n (nat (int (length xs))) l) (concat (concat (map b xs))) xs"
    by (simp add: concat_map_concat)
  then have "reads (\<lambda>z. bindr (load_n (nat (int (length xs))) l z) (\<lambda>(xs, z). g xs z))
      (concat (concat (map b xs)) @ cs) y" using assms(3) by (rule reads_bind)
  from reads_bind_eq [of "LoadInt S" _ "int (length xs)"
      "\<lambda>n z. bindr (load_n (nat n) l z) (\<lambda>(xs, z). g xs z)", OF reads_size [OF assms(1)] this refl]
  show ?thesis by (simp add: bl_list_def)
qed

lemma reads_debug:
  assumes "head_ok f"
  shows "reads (LoadDebug S) (concat (bl_debug strip f))
    (if strip then ([], [], []) else (p_lineinfo f, p_locvars f, p_upvalues f))"
proof -
  define li where "li = (if strip then [] else p_lineinfo f)"
  define lv where "lv = (if strip then [] else p_locvars f)"
  define uv where "uv = (if strip then [] else p_upvalues f)"
  have ok: "size_ok li" "size_ok lv" "size_ok uv" "list_all c_int32 li" "list_all locvar_ok lv" "list_all str_fits uv"
    using assms by (auto simp: head_ok_def li_def lv_def uv_def size_ok_def)
  have dec: "map (\<lambda>b. signed_int (of_bytes b)) (map int_bytes li) = li"
    using ok(4) by (simp add: map_idI list_all_iff signed_int_bytes)
  have c: "reads (\<lambda>z. bindr (LoadInt S z) (\<lambda>(n, z). bindr (load_n (nat n) (LoadString S) z)
      (\<lambda>(upvalues, z). Inr ((li, lv, upvalues), z)))) (concat (bl_list bl_string uv) @ []) (li, lv, uv)"
    by (rule reads_list [OF ok(3)]) (use ok(6) in \<open>auto simp: list_all_iff reads_return intro: reads_string\<close>)
  have b: "reads (\<lambda>z. bindr (LoadInt S z) (\<lambda>(n, z). bindr (load_n (nat n) (LoadLocVar S) z)
      (\<lambda>(locvars, z). bindr (LoadInt S z) (\<lambda>(n, z). bindr (load_n (nat n) (LoadString S) z)
      (\<lambda>(upvalues, z). Inr ((li, locvars, upvalues), z))))))
      (concat (bl_list bl_locvar lv) @ (concat (bl_list bl_string uv) @ [])) (li, lv, uv)"
  proof (rule reads_list [OF ok(2)])
    show "reads (LoadLocVar S) (concat (bl_locvar x)) x" if "x \<in> set lv" for x
      using ok(5) that by (auto simp: list_all_iff intro: reads_locvar)
  qed (rule c)
  have vec: "reads (LoadVector S (length li) 4) (concat (map int_bytes li)) (map int_bytes li)"
    by (rule reads_vector) auto
  have a: "reads (\<lambda>z. bindr (LoadVector S (nat (int (length li))) 4 z) (\<lambda>(v, z).
      let lineinfo = map (\<lambda>b. signed_int (of_bytes b)) v in
      bindr (LoadInt S z) (\<lambda>(n, z). bindr (load_n (nat n) (LoadLocVar S) z)
      (\<lambda>(locvars, z). bindr (LoadInt S z) (\<lambda>(n, z). bindr (load_n (nat n) (LoadString S) z)
      (\<lambda>(upvalues, z). Inr ((lineinfo, locvars, upvalues), z)))))))
      (concat (map int_bytes li) @ (concat (bl_list bl_locvar lv) @ (concat (bl_list bl_string uv) @ []))) (li, lv, uv)"
    unfolding nat_int by (rule reads_bind [OF vec]) (unfold Let_def dec, rule b)
  have "reads (LoadDebug S) (int_bytes (int (length li)) @ (concat (map int_bytes li) @
      (concat (bl_list bl_locvar lv) @ (concat (bl_list bl_string uv) @ [])))) (li, lv, uv)"
    unfolding LoadDebug_def by (rule reads_bind [OF reads_size [OF ok(1)]]) (rule a)
  then show ?thesis
    by (cases strip) (simp_all add: bl_debug_def bl_vector_def li_def lv_def uv_def)
qed

lemma loaded_fields:
  "p_linedefined (loaded strip src f) = p_linedefined f" "p_lastlinedefined (loaded strip src f) = p_lastlinedefined f"
  "p_nups (loaded strip src f) = p_nups f" "p_numparams (loaded strip src f) = p_numparams f"
  "p_is_vararg (loaded strip src f) = p_is_vararg f" "p_maxstacksize (loaded strip src f) = p_maxstacksize f"
  "p_code (loaded strip src f) = p_code f" "p_k (loaded strip src f) = p_k f"
  "p_p (loaded strip src f) = map (loaded strip src) (p_p f)"
  "p_source (loaded strip src f) = (if strip then Some src else p_source f)"
  "(p_lineinfo (loaded strip src f), p_locvars (loaded strip src f), p_upvalues (loaded strip src f)) =
     (if strip then ([], [], []) else (p_lineinfo f, p_locvars f, p_upvalues f))"
  by (simp_all add: loaded_def [abs_def] strip_proto.simps [of src f])

lemma proto_eta:
  "f = Proto (p_source f) (p_linedefined f) (p_lastlinedefined f) (p_nups f) (p_numparams f) (p_is_vararg f)
     (p_maxstacksize f) (p_code f) (p_k f) (p_p f) (p_lineinfo f) (p_locvars f) (p_upvalues f)"
  by (cases f) simp

lemma all_protosD:
  "all_protos P f \<Longrightarrow> P f" "all_protos P f \<Longrightarrow> g \<in> set (p_p f) \<Longrightarrow> all_protos P g"
  by (simp_all add: all_protos.simps [of P f] list_all_iff)

text \<open>The sources: what the parent's source is in the dump and in the load.\<close>

definition parents_ok :: "bool \<Rightarrow> string \<Rightarrow> Proto \<Rightarrow> string option \<Rightarrow> string option \<Rightarrow> bool" where
  "parents_ok strip src f p q \<longleftrightarrow>
     (if strip then q = Some src else p_source f \<noteq> None \<and> (p_source f = p \<longrightarrow> q = p))"

lemma reads_fun:
  assumes "all_protos head_ok f" "depth_le f (LUAI_MAXCCALLS - nc)"
    and "all_protos check (loaded strip src f)"
    and "\<not> strip \<Longrightarrow> all_protos (\<lambda>g. p_source g \<noteq> None) f" "parents_ok strip src f p q"
  shows "reads (LoadFunction check S nc q) (concat (bl_fun strip f p)) (loaded strip src f)"
  using assms
proof (induction f arbitrary: nc p q rule: proto_induct)
  case (1 f)
  let ?f = "loaded strip src f"
  have ok: "head_ok f" using 1(2) by (rule all_protosD)
  have depth: "\<not> LUAI_MAXCCALLS < nc + 1" "\<And>g. g \<in> set (p_p f) \<Longrightarrow> depth_le g (LUAI_MAXCCALLS - (nc + 1))"
    using 1(3) by (auto simp: depth_le.simps [of f] list_all_iff)
  have src: "(if (if p_source f = p \<or> strip then None else p_source f) = None then q
      else (if p_source f = p \<or> strip then None else p_source f)) = p_source ?f"
    using 1(6) by (auto simp: parents_ok_def loaded_fields)
  have fits: "str_fits (if p_source f = p \<or> strip then None else p_source f)"
    using ok by (auto simp: head_ok_def str_fits_def)
  have nested: "reads (LoadFunction check S (nc + 1) (p_source ?f)) (concat (bl_fun strip g (p_source f))) (loaded strip src g)"
    if g: "g \<in> set (p_p f)" for g
  proof (rule 1(1) [OF g])
    show "all_protos head_ok g" using 1(2) g by (rule all_protosD)
    show "depth_le g (LUAI_MAXCCALLS - (nc + 1))" by (rule depth(2) [OF g])
    show "all_protos check (loaded strip src g)"
      by (rule all_protosD(2) [OF 1(4)]) (use g in \<open>simp add: loaded_fields\<close>)
    show ps: "all_protos (\<lambda>g. p_source g \<noteq> None) g" if "\<not> strip" using 1(5) [OF that] g by (rule all_protosD)
    show "parents_ok strip src g (p_source f) (p_source ?f)"
      using all_protosD(1) [OF ps] by (auto simp: parents_ok_def loaded_fields)
  qed
  have nests: "reads (load_n (nat (int (length (p_p f)))) (LoadFunction check S (nc + 1) (p_source ?f)))
      (concat (concat (map (\<lambda>g. bl_fun strip g (p_source f)) (p_p f)))) (p_p ?f)"
    using reads_n [OF nested, of "p_p f" "\<lambda>x. x"] by (simp add: loaded_fields concat_map_concat)
  have chk: "check ?f" using 1(4) by (rule all_protosD)
  note ok' = ok [unfolded head_ok_def list_all_iff]
  let ?s = "if p_source f = p \<or> strip then None else p_source f"
  have bytes: "concat (bl_fun strip f p) = concat (bl_string ?s) @ int_bytes (p_linedefined f) @
      int_bytes (p_lastlinedefined f) @ [p_nups f] @ [p_numparams f] @ [p_is_vararg f] @ [p_maxstacksize f] @
      concat (bl_vector (map (\<lambda>i. to_bytes 4 (unat i)) (p_code f))) @ concat (bl_list bl_const (p_k f)) @
      int_bytes (int (length (p_p f))) @ concat (concat (map (\<lambda>g. bl_fun strip g (p_source f)) (p_p f))) @
      concat (bl_debug strip f)"
    by (simp add: bl_fun.simps [of strip f] bl_head_def bl_char_def)
  show ?case
    unfolding bytes LoadFunction.simps [of check S nc q] if_not_P [OF depth(1)]
    apply (rule reads_bind [OF reads_string [OF fits]])
    apply (unfold Let_def src)
    apply (rule reads_bind [OF reads_pos])
     apply (use ok' in blast)
    apply (rule reads_bind [OF reads_pos])
     apply (use ok' in blast)
    apply (rule reads_bind [OF reads_byte])+
    apply (rule reads_bind [OF reads_code])
     apply (use ok' in blast)
    apply (rule reads_list)
      apply (use ok' in blast)
     apply (rule reads_const)
     apply (use ok' in blast)
    apply (rule reads_bind [OF reads_size])
     apply (use ok' in blast)
    apply (rule reads_bind [OF nests])
    apply (rule reads_last [OF reads_debug [OF ok]])
    subgoal
      using chk by (cases strip) (simp_all add: loaded_def strip_proto.simps [of src f] reads_return
          proto_eta [of f, symmetric])
    done
qed

section \<open>Properties\<close>

text \<open>The writer of \<open>string.dump\<close>: it appends and always succeeds.\<close>

definition append_writer :: "lu_byte list lua_Writer" where
  "append_writer b data = (0, data @ b)"

lemma emit_append: "emit append_writer bl \<lparr>d_data = data, d_status = 0\<rparr> = \<lparr>d_data = data @ concat bl, d_status = 0\<rparr>"
  by (induction bl arbitrary: data) (simp_all add: DumpBlock_def append_writer_def)

lemma dump_append: "luaU_dump append_writer [] strip f = (0, concat (dump_blocks strip f))"
  by (simp add: luaU_dump_emit emit_append)

lemma header_length: "length luaU_header = LUAC_HEADERSIZE"
  by (simp add: luaU_header_def LUAC_HEADERSIZE_def)

definition dumpable :: "(Proto \<Rightarrow> bool) \<Rightarrow> bool \<Rightarrow> nat \<Rightarrow> Proto \<Rightarrow> bool" where
  "dumpable check strip nc f \<longleftrightarrow>
     all_protos head_ok f \<and> depth_le f (LUAI_MAXCCALLS - nc) \<and> all_protos check (loaded strip ''=?'' f) \<and>
     (strip \<or> all_protos (\<lambda>g. p_source g \<noteq> None) f)"

text \<open>
  C18: a dumped prototype loads back: whatever the blocks its bytes come in (and whatever follows
  them), the undump gives the prototype that was dumped, without its debug information and with
  the source "=?" when it was stripped, and leaves the rest of the stream. The prototype must fit
  the format, nest no deeper than the C-call limit allows and pass the check of its code.
\<close>

theorem undump_dump:
  assumes "dumpable check strip nc f" "luaU_dump append_writer [] strip f = (st, bytes)"
    and "zio_ok z" "stream z = bytes @ rest"
  shows "st = 0 \<and> (\<exists>z'. luaU_undump_with check nc z name = Inr (loaded strip ''=?'' f, z') \<and> stream z' = rest)"
proof -
  have bytes: "st = 0" "bytes = luaU_header @ concat (bl_fun strip f None)"
    using assms(2) by (simp_all add: dump_append dump_blocks_def)
  have lf: "reads (LoadFunction check S nc (Some ''=?'')) (concat (bl_fun strip f None)) (loaded strip ''=?'' f)" for S
  proof (rule reads_fun)
    show "parents_ok strip ''=?'' f None (Some ''=?'')"
      using assms(1) all_protosD(1) [of "\<lambda>g. p_source g \<noteq> None" f] by (auto simp: dumpable_def parents_ok_def)
  qed (use assms(1) in \<open>simp_all add: dumpable_def\<close>)
  let ?S = "undump_name name"
  obtain z1 where z1: "LoadHeader ?S z = Inr z1" "zio_ok z1" "stream z1 = concat (bl_fun strip f None) @ rest"
    using readsD [OF reads_block [OF header_length [symmetric]] assms(3), of "concat (bl_fun strip f None) @ rest" ?S]
      assms(4) bytes(2) by (auto simp: LoadHeader_def)
  from readsD [OF lf z1(2,3)] obtain z' where
    "LoadFunction check ?S nc (Some ''=?'') z1 = Inr (loaded strip ''=?'' f, z')" "stream z' = rest" by blast
  with z1(1) bytes(1) show ?thesis by (simp add: luaU_undump_with_def Let_def)
qed

definition ex_proto :: Proto where
  "ex_proto = Proto (Some ''@x.lua'') 0 0 1 0 2 2 [0x00000001, 0x0080001E]
     [KNil, KBool True, KNumber 0x3FF0000000000000, KString (Some ''print'')]
     [Proto (Some ''@x.lua'') 1 2 0 0 0 2 [0x0080001E] [] [] [2] [] []] [1, 2]
     [\<lparr>varname = Some ''a'', startpc = 1, endpc = 2\<rparr>] [Some ''u'']"

lemma depth_le_Proto:
  "depth_le (Proto s l ll n np v m c k ps li lv u) d \<longleftrightarrow> 0 < d \<and> list_all (\<lambda>g. depth_le g (d - 1)) ps"
  by (subst depth_le.simps) simp

lemma ex_proto_dumpable: "dumpable (\<lambda>f. True) strip 0 ex_proto"
proof -
  have t: "all_protos (\<lambda>f. True) f" for f
    by (induction f rule: proto_induct) (subst all_protos.simps, simp add: list_all_iff)
  have step: "all_protos P (Proto so l ll n np v m c k ps li lv u) \<longleftrightarrow>
      P (Proto so l ll n np v m c k ps li lv u) \<and> list_all (all_protos P) ps" for P so l ll n np v m c k ps li lv u
    by (subst all_protos.simps) simp
  have "all_protos head_ok ex_proto"
    by (simp add: ex_proto_def step head_ok_def str_fits_def pos_int_def size_ok_def
        konst_ok_def locvar_ok_def c_int32_def MAX_SIZET_def sizeof_TString_def)
  moreover have "depth_le ex_proto (LUAI_MAXCCALLS - 0)"
    by (simp add: ex_proto_def depth_le_Proto LUAI_MAXCCALLS_def)
  moreover have "all_protos (\<lambda>g. p_source g \<noteq> None) ex_proto" by (simp add: ex_proto_def step)
  ultimately show ?thesis by (simp add: dumpable_def t)
qed

lemma undump_dump_witness:
  "let bytes = snd (luaU_dump append_writer [] False ex_proto) in
   \<exists>z'. luaU_undump_with (\<lambda>f. True) 0 (luaZ_init [take 5 bytes, drop 5 bytes]) ''=x'' = Inr (ex_proto, z')"
proof -
  let ?b = "snd (luaU_dump append_writer [] False ex_proto)"
  have len: "5 < length ?b" by (simp add: dump_append dump_blocks_def luaU_header_def)
  then have "stream (luaZ_init [take 5 ?b, drop 5 ?b]) = ?b @ []" by (simp add: luaZ_init_ok(2))
  from undump_dump [OF ex_proto_dumpable [of False] _ luaZ_init_ok(1) this, of 0 "''=x''"] show ?thesis
    unfolding Let_def by (simp add: dump_append loaded_def) blast
qed

text \<open>
  C21: a writer that fails stops the dump: there is one list of blocks, the same for every writer,
  which are passed to the writer in order until it returns a status other than 0; that status is
  the result and the writer is not called again.
\<close>

fun write_all :: "'d lua_Writer \<Rightarrow> lu_byte list list \<Rightarrow> 'd \<Rightarrow> int \<times> 'd" where
  "write_all w [] data = (0, data)"
| "write_all w (b # bs) data =
     (let (st, data) = w b data in if st = 0 then write_all w bs data else (st, data))"

lemma emit_stopped: "d_status D \<noteq> 0 \<Longrightarrow> emit w bl D = D"
  by (induction bl arbitrary: D) (simp_all add: DumpBlock_def)

lemma emit_write_all:
  "(let D = emit w bl \<lparr>d_data = data, d_status = 0\<rparr> in (d_status D, d_data D)) = write_all w bl data"
  by (induction bl arbitrary: data)
    (auto simp: DumpBlock_def emit_stopped Let_def split: prod.splits)

theorem dump_stops_on_error:
  "luaU_dump w data strip f = write_all w (dump_blocks strip f) data"
  unfolding luaU_dump_emit emit_write_all ..

text \<open>
  C22: a chunk whose first bytes are not the header of this format is refused, before anything of
  it is loaded.
\<close>

theorem undump_bad_header:
  assumes "zio_ok z" "LUAC_HEADERSIZE \<le> length (stream z)" "take LUAC_HEADERSIZE (stream z) \<noteq> luaU_header"
  shows "luaU_undump_with check nc z name =
    Inl (ErrSyntax (undump_name name @ '': bad header in precompiled chunk''))"
  using luaZ_read_spec [OF assms(1), of LUAC_HEADERSIZE] assms(2,3)
  by (auto simp: luaU_undump_with_def LoadHeader_def LoadBlock_def undump_error_def Let_def)

lemma undump_bad_header_witness:
  "luaU_undump_with (\<lambda>f. True) 0 (luaZ_init [replicate 20 0]) ''@a'' =
    Inl (ErrSyntax (undump_name ''@a'' @ '': bad header in precompiled chunk''))"
proof (rule undump_bad_header)
  have "hd (take LUAC_HEADERSIZE (stream (luaZ_init [replicate 20 0]))) \<noteq> hd luaU_header"
    by (simp add: luaZ_init_ok LUAC_HEADERSIZE_def luaU_header_def)
  then show "take LUAC_HEADERSIZE (stream (luaZ_init [replicate 20 0])) \<noteq> luaU_header" by metis
qed (simp_all add: luaZ_init_ok LUAC_HEADERSIZE_def)

end
