(* ===== verification/LuaMatch.thy ===== *)
theory LuaMatch
  imports LuaAux
begin

text \<open>
  Pattern matching of the string library (lstrlib.c): character classes, captures and the
  backtracking matcher \<open>match\<close>. The subject is a string with positions from its start; a pattern
  is read up to its first NUL, and reading at the end of either gives the terminating NUL.
\<close>

section \<open>Characters\<close>

text \<open>The classification of \<open>ctype.h\<close> in the C locale.\<close>

definition isdigit :: "char \<Rightarrow> bool" where "isdigit c \<longleftrightarrow> 48 \<le> code c \<and> code c \<le> 57"
definition isupper :: "char \<Rightarrow> bool" where "isupper c \<longleftrightarrow> 65 \<le> code c \<and> code c \<le> 90"
definition islower :: "char \<Rightarrow> bool" where "islower c \<longleftrightarrow> 97 \<le> code c \<and> code c \<le> 122"
definition isalpha :: "char \<Rightarrow> bool" where "isalpha c \<longleftrightarrow> isupper c \<or> islower c"
definition isalnum :: "char \<Rightarrow> bool" where "isalnum c \<longleftrightarrow> isalpha c \<or> isdigit c"
definition iscntrl :: "char \<Rightarrow> bool" where "iscntrl c \<longleftrightarrow> code c < 32 \<or> code c = 127"
definition ispunct :: "char \<Rightarrow> bool" where "ispunct c \<longleftrightarrow> 32 < code c \<and> code c < 127 \<and> \<not> isalnum c"
definition isxdigit :: "char \<Rightarrow> bool" where
  "isxdigit c \<longleftrightarrow> isdigit c \<or> 65 \<le> code c \<and> code c \<le> 70 \<or> 97 \<le> code c \<and> code c \<le> 102"
definition tolower :: "char \<Rightarrow> char" where
  "tolower c = (if isupper c then char_of (code c + 32) else c)"
definition toupper :: "char \<Rightarrow> char" where
  "toupper c = (if islower c then char_of (code c - 32) else c)"

abbreviation NUL :: char where "NUL \<equiv> CHR 0x00"

definition at :: "string \<Rightarrow> nat \<Rightarrow> char" where
  "at s i = (if i < length s then s ! i else NUL)"

section \<open>Pattern items\<close>

definition L_ESC :: char where "L_ESC = CHR ''%''"

text \<open>The loop that looks for the end of a class \<open>[...]\<close>, from the first character after \<open>[\<close> or \<open>[^\<close>.\<close>

function class_loop :: "lib_env \<Rightarrow> string \<Rightarrow> nat \<Rightarrow> nat res" where
  "class_loop E pat p =
     (if at pat p = NUL then Inl (luaL_error E (''malformed pattern (missing '' @ LUA_QL '']'' @ '')''))
      else
        let q = (if at pat p = L_ESC \<and> at pat (p + 1) \<noteq> NUL then p + 2 else p + 1) in
        if at pat q \<noteq> CHR '']'' then class_loop E pat q else Inr (q + 1))"
  by pat_completeness auto
termination
  by (relation "measure (\<lambda>(E, pat, p). length pat - p)") (auto simp: at_def split: if_splits)

declare class_loop.simps [simp del]

definition classend :: "lib_env \<Rightarrow> string \<Rightarrow> nat \<Rightarrow> nat res" where
  "classend E pat p =
     (if at pat p = L_ESC then
        if at pat (p + 1) = NUL
        then Inl (luaL_error E (''malformed pattern (ends with '' @ LUA_QL ''%'' @ '')''))
        else Inr (p + 2)
      else if at pat p = CHR ''['' then
        class_loop E pat (if at pat (p + 1) = CHR ''^'' then p + 2 else p + 1)
      else Inr (p + 1))"

definition match_class :: "char \<Rightarrow> char \<Rightarrow> bool" where
  "match_class c cl =
     (let l = tolower cl;
          answer = (\<lambda>res. if islower cl then res else \<not> res) in
      if l = CHR ''a'' then answer (isalpha c)
      else if l = CHR ''c'' then answer (iscntrl c)
      else if l = CHR ''d'' then answer (isdigit c)
      else if l = CHR ''l'' then answer (islower c)
      else if l = CHR ''p'' then answer (ispunct c)
      else if l = CHR ''s'' then answer (isspace c)
      else if l = CHR ''u'' then answer (isupper c)
      else if l = CHR ''w'' then answer (isalnum c)
      else if l = CHR ''x'' then answer (isxdigit c)
      else if l = CHR ''z'' then answer (c = NUL)
      else cl = c)"

text \<open>\<open>while (++p < ec)\<close>\<close>

function bracket_loop :: "char \<Rightarrow> string \<Rightarrow> bool \<Rightarrow> nat \<Rightarrow> nat \<Rightarrow> bool" where
  "bracket_loop c pat sig p ec =
     (if p + 1 < ec then
        let p = p + 1 in
        if at pat p = L_ESC then
          if match_class c (at pat (p + 1)) then sig else bracket_loop c pat sig (p + 1) ec
        else if at pat (p + 1) = CHR ''-'' \<and> p + 2 < ec then
          if code (at pat p) \<le> code c \<and> code c \<le> code (at pat (p + 2)) then sig
          else bracket_loop c pat sig (p + 2) ec
        else if at pat p = c then sig
        else bracket_loop c pat sig p ec
      else \<not> sig)"
  by pat_completeness auto
termination by (relation "measure (\<lambda>(c, pat, sig, p, ec). ec - p)") auto

declare bracket_loop.simps [simp del]

definition matchbracketclass :: "char \<Rightarrow> string \<Rightarrow> nat \<Rightarrow> nat \<Rightarrow> bool" where
  "matchbracketclass c pat p ec =
     (if at pat (p + 1) = CHR ''^'' then bracket_loop c pat False (p + 1) ec
      else bracket_loop c pat True p ec)"

definition singlematch :: "char \<Rightarrow> string \<Rightarrow> nat \<Rightarrow> nat \<Rightarrow> bool" where
  "singlematch c pat p ep =
     (if at pat p = CHR ''.'' then True
      else if at pat p = L_ESC then match_class c (at pat (p + 1))
      else if at pat p = CHR ''['' then matchbracketclass c pat p (ep - 1)
      else at pat p = c)"

section \<open>Captures\<close>

definition CAP_UNFINISHED :: int where "CAP_UNFINISHED = - 1"
definition CAP_POSITION :: int where "CAP_POSITION = - 2"
definition LUA_MAXCAPTURES :: nat where "LUA_MAXCAPTURES = 32"

record capture =
  cinit :: nat
  clen :: int

text \<open>The array of captures is the list of its first \<open>level\<close> entries.\<close>

record MatchState =
  msrc :: string
  captures :: "capture list"

definition mlevel :: "MatchState \<Rightarrow> nat" where
  "mlevel ms = length (captures ms)"

definition check_capture :: "lib_env \<Rightarrow> MatchState \<Rightarrow> char \<Rightarrow> nat res" where
  "check_capture E ms c =
     (let l = int (code c) - 49 in
      if l < 0 \<or> int (mlevel ms) \<le> l \<or> clen (captures ms ! nat l) = CAP_UNFINISHED
      then Inl (luaL_error E ''invalid capture index'') else Inr (nat l))"

fun capture_loop :: "lib_env \<Rightarrow> capture list \<Rightarrow> nat \<Rightarrow> nat res" where
  "capture_loop E cs 0 = Inl (luaL_error E ''invalid pattern capture'')"
| "capture_loop E cs (Suc l) = (if clen (cs ! l) = CAP_UNFINISHED then Inr l else capture_loop E cs l)"

definition capture_to_close :: "lib_env \<Rightarrow> MatchState \<Rightarrow> nat res" where
  "capture_to_close E ms = capture_loop E (captures ms) (mlevel ms)"

text \<open>\<open>while (++s < ms->src_end)\<close> of a balanced item.\<close>

function balance_loop :: "string \<Rightarrow> char \<Rightarrow> char \<Rightarrow> nat \<Rightarrow> nat \<Rightarrow> nat option" where
  "balance_loop src b e s cont =
     (if s + 1 < length src then
        let s = s + 1 in
        if src ! s = e then
          if cont - 1 = 0 then Some (s + 1) else balance_loop src b e s (cont - 1)
        else if src ! s = b then balance_loop src b e s (cont + 1)
        else balance_loop src b e s cont
      else None)"
  by pat_completeness auto
termination by (relation "measure (\<lambda>(src, b, e, s, cont). length src - s)") auto

declare balance_loop.simps [simp del]

definition matchbalance :: "lib_env \<Rightarrow> MatchState \<Rightarrow> nat \<Rightarrow> string \<Rightarrow> nat \<Rightarrow> nat option res" where
  "matchbalance E ms s pat p =
     (if at pat p = NUL \<or> at pat (p + 1) = NUL then Inl (luaL_error E ''unbalanced pattern'')
      else if at (msrc ms) s \<noteq> at pat p then Inr None
      else Inr (balance_loop (msrc ms) (at pat p) (at pat (p + 1)) s 1))"

definition match_capture :: "lib_env \<Rightarrow> MatchState \<Rightarrow> nat \<Rightarrow> char \<Rightarrow> nat option res" where
  "match_capture E ms s c =
     bindr (check_capture E ms c) (\<lambda>l.
     let cap = captures ms ! l;
         len = clen cap mod 2 ^ 64 in
     if len \<le> int (length (msrc ms) - s) \<and>
        take (nat len) (drop (cinit cap) (msrc ms)) = take (nat len) (drop s (msrc ms))
     then Inr (Some (s + nat len)) else Inr None)"

section \<open>The matcher\<close>

text \<open>
  The result of a match is the end of the matched text, or \<open>None\<close> for NULL, with the captures. The
  helpers that call \<open>match\<close> on the rest of the pattern take it as an argument.
\<close>

type_synonym mcont = "nat \<Rightarrow> MatchState \<Rightarrow> (nat option \<times> MatchState) res"

fun try_down :: "mcont \<Rightarrow> nat \<Rightarrow> nat \<Rightarrow> MatchState \<Rightarrow> (nat option \<times> MatchState) res" where
  "try_down k s 0 ms = k s ms"
| "try_down k s (Suc i) ms =
     bindr (k (s + Suc i) ms) (\<lambda>(r, ms). if r \<noteq> None then Inr (r, ms) else try_down k s i ms)"

definition max_expand :: "mcont \<Rightarrow> MatchState \<Rightarrow> nat \<Rightarrow> string \<Rightarrow> nat \<Rightarrow> nat \<Rightarrow> (nat option \<times> MatchState) res" where
  "max_expand k ms s pat p ep =
     (let i = length (takeWhile (\<lambda>c. singlematch c pat p ep) (drop s (msrc ms))) in try_down k s i ms)"

function min_expand :: "mcont \<Rightarrow> MatchState \<Rightarrow> string \<Rightarrow> nat \<Rightarrow> string \<Rightarrow> nat \<Rightarrow> nat \<Rightarrow> (nat option \<times> MatchState) res" where
  "min_expand k ms src s pat p ep =
     bindr (k s ms) (\<lambda>(r, ms).
     if r \<noteq> None then Inr (r, ms)
     else if s < length src \<and> singlematch (src ! s) pat p ep then min_expand k ms src (s + 1) pat p ep
     else Inr (None, ms))"
  by pat_completeness auto
termination by (relation "measure (\<lambda>(k, ms, src, s, pat, p, ep). length src - s)") auto

declare min_expand.simps [simp del]

definition start_capture :: "lib_env \<Rightarrow> mcont \<Rightarrow> MatchState \<Rightarrow> nat \<Rightarrow> int \<Rightarrow> (nat option \<times> MatchState) res" where
  "start_capture E k ms s what =
     (if LUA_MAXCAPTURES \<le> mlevel ms then Inl (luaL_error E ''too many captures'')
      else bindr (k s (ms\<lparr>captures := captures ms @ [\<lparr>cinit = s, clen = what\<rparr>]\<rparr>)) (\<lambda>(r, ms).
        if r = None then Inr (None, ms\<lparr>captures := butlast (captures ms)\<rparr>) else Inr (r, ms)))"

definition set_clen :: "MatchState \<Rightarrow> nat \<Rightarrow> int \<Rightarrow> MatchState" where
  "set_clen ms l n = ms\<lparr>captures := (captures ms)[l := (captures ms ! l)\<lparr>clen := n\<rparr>]\<rparr>"

definition end_capture :: "lib_env \<Rightarrow> mcont \<Rightarrow> MatchState \<Rightarrow> nat \<Rightarrow> (nat option \<times> MatchState) res" where
  "end_capture E k ms s =
     bindr (capture_to_close E ms) (\<lambda>l.
     bindr (k s (set_clen ms l (int s - int (cinit (captures ms ! l))))) (\<lambda>(r, ms).
     if r = None then Inr (None, set_clen ms l CAP_UNFINISHED) else Inr (r, ms)))"

lemma at_NUL: "at pat p \<noteq> NUL \<Longrightarrow> p < length pat"
  by (auto simp: at_def split: if_splits)

lemma at_char: "c = at pat p \<Longrightarrow> c \<noteq> NUL \<Longrightarrow> p < length pat"
  by (auto intro: at_NUL)

lemma class_loop_gt: "class_loop E pat p = Inr q \<Longrightarrow> p < q \<and> q \<le> length pat"
proof (induction E pat p rule: class_loop.induct)
  case (1 E pat p)
  then show ?case
    by (subst (asm) (2) class_loop.simps)
      (auto simp: Let_def split: if_splits dest!: at_NUL [of pat] simp: at_def)
qed

lemma classend_gt: "classend E pat p = Inr ep \<Longrightarrow> p < ep"
  by (auto simp: classend_def split: if_splits dest: class_loop_gt)

lemma classend_le: "classend E pat p = Inr ep \<Longrightarrow> at pat p \<noteq> NUL \<Longrightarrow> ep \<le> length pat"
  by (auto simp: classend_def split: if_splits dest!: class_loop_gt at_NUL)

function match :: "lib_env \<Rightarrow> string \<Rightarrow> nat \<Rightarrow> nat \<Rightarrow> MatchState \<Rightarrow> (nat option \<times> MatchState) res" where
  "match E pat p s ms =
     (let c = at pat p; d = at pat (p + 1) in
      if c = CHR ''('' then
        if d = CHR '')'' then start_capture E (\<lambda>s ms. match E pat (p + 2) s ms) ms s CAP_POSITION
        else start_capture E (\<lambda>s ms. match E pat (p + 1) s ms) ms s CAP_UNFINISHED
      else if c = CHR '')'' then end_capture E (\<lambda>s ms. match E pat (p + 1) s ms) ms s
      else if c = L_ESC \<and> d = CHR ''b'' then
        bindr (matchbalance E ms s pat (p + 2)) (\<lambda>r.
        case r of None \<Rightarrow> Inr (None, ms) | Some s \<Rightarrow> match E pat (p + 4) s ms)
      else if c = L_ESC \<and> d = CHR ''f'' then
        if at pat (p + 2) \<noteq> CHR ''['' then
          Inl (luaL_error E (''missing '' @ LUA_QL ''['' @ '' after '' @ LUA_QL ''%f'' @ '' in pattern''))
        else
          bindr (classend E pat (p + 2)) (\<lambda>ep.
          let previous = (if s = 0 then NUL else at (msrc ms) (s - 1)) in
          if matchbracketclass previous pat (p + 2) (ep - 1) \<or>
             \<not> matchbracketclass (at (msrc ms) s) pat (p + 2) (ep - 1)
          then Inr (None, ms) else match E pat ep s ms)
      else if c = L_ESC \<and> isdigit d then
        bindr (match_capture E ms s d) (\<lambda>r.
        case r of None \<Rightarrow> Inr (None, ms) | Some s \<Rightarrow> match E pat (p + 2) s ms)
      else if c = NUL then Inr (Some s, ms)
      else if c = CHR ''$'' \<and> d = NUL then Inr (if s = length (msrc ms) then Some s else None, ms)
      else
        bindr (classend E pat p) (\<lambda>ep.
        let m = (s < length (msrc ms) \<and> singlematch (at (msrc ms) s) pat p ep) in
        if at pat ep = CHR ''?'' then
          bindr (if m then match E pat (ep + 1) (s + 1) ms else Inr (None, ms)) (\<lambda>(r, ms).
          if r \<noteq> None then Inr (r, ms) else match E pat (ep + 1) s ms)
        else if at pat ep = CHR ''*'' then max_expand (\<lambda>s ms. match E pat (ep + 1) s ms) ms s pat p ep
        else if at pat ep = CHR ''+'' then
          if m then max_expand (\<lambda>s ms. match E pat (ep + 1) s ms) ms (s + 1) pat p ep else Inr (None, ms)
        else if at pat ep = CHR ''-'' then
          min_expand (\<lambda>s ms. match E pat (ep + 1) s ms) ms (msrc ms) s pat p ep
        else if \<not> m then Inr (None, ms)
        else match E pat ep (s + 1) ms))"
  by pat_completeness auto
termination
proof (relation "measure (\<lambda>(E, pat, p, s, ms). length pat + 2 - p)", goal_cases)
qed (auto simp: L_ESC_def dest!: classend_gt at_NUL dest: at_char)

declare match.simps [simp del]

section \<open>Captures stay inside the subject\<close>

text \<open>Every capture lies before the position \<open>s\<close>.\<close>

definition cap_ok :: "nat \<Rightarrow> capture \<Rightarrow> bool" where
  "cap_ok s c \<longleftrightarrow> cinit c \<le> s \<and>
     (clen c = CAP_UNFINISHED \<or> clen c = CAP_POSITION \<or> 0 \<le> clen c \<and> int (cinit c) + clen c \<le> int s)"

definition ms_ok :: "nat \<Rightarrow> MatchState \<Rightarrow> bool" where
  "ms_ok s ms \<longleftrightarrow> s \<le> length (msrc ms) \<and> (\<forall>c \<in> set (captures ms). cap_ok s c)"

text \<open>A failed match leaves the state as it was; a match ends inside the subject with all its captures.\<close>

definition safe :: "nat \<Rightarrow> MatchState \<Rightarrow> (nat option \<times> MatchState) res \<Rightarrow> bool" where
  "safe s ms r \<longleftrightarrow> (case r of
     Inl _ \<Rightarrow> True
   | Inr (None, ms') \<Rightarrow> ms' = ms
   | Inr (Some e, ms') \<Rightarrow> s \<le> e \<and> msrc ms' = msrc ms \<and> ms_ok e ms')"

lemma safe_simps [simp]:
  "safe s ms (Inl e)" "safe s ms (Inr (None, ms'))  \<longleftrightarrow> ms' = ms"
  "safe s ms (Inr (Some n, ms')) \<longleftrightarrow> s \<le> n \<and> msrc ms' = msrc ms \<and> ms_ok n ms'"
  by (simp_all add: safe_def)

lemma safe_mono: "safe s' ms r \<Longrightarrow> s \<le> s' \<Longrightarrow> safe s ms r"
  by (auto simp: safe_def split: sum.splits option.splits)

lemma cap_ok_mono: "cap_ok s c \<Longrightarrow> s \<le> s' \<Longrightarrow> cap_ok s' c"
  by (auto simp: cap_ok_def)

lemma ms_ok_mono: "ms_ok s ms \<Longrightarrow> s \<le> s' \<Longrightarrow> s' \<le> length (msrc ms) \<Longrightarrow> ms_ok s' ms"
  unfolding ms_ok_def using cap_ok_mono by blast

definition safe_cont :: "mcont \<Rightarrow> bool" where
  "safe_cont k \<longleftrightarrow> (\<forall>s ms. ms_ok s ms \<longrightarrow> safe s ms (k s ms))"

lemma safe_contD: "safe_cont k \<Longrightarrow> ms_ok s ms \<Longrightarrow> safe s ms (k s ms)"
  by (simp add: safe_cont_def)

lemma safe_bind:
  assumes "safe s ms r" "safe s ms (f None ms)"
    and "\<And>n ms'. r = Inr (Some n, ms') \<Longrightarrow> safe s ms (f (Some n) ms')"
  shows "safe s ms (bindr r (\<lambda>(r, ms). f r ms))"
proof (cases r)
  case (Inr p)
  obtain a ms' where p: "p = (a, ms')" by fastforce
  show ?thesis
  proof (cases a)
    case None
    with assms(1,2) Inr p show ?thesis by simp
  next
    case (Some n)
    with assms(3) Inr p show ?thesis by simp
  qed
qed simp

lemma try_down_safe:
  assumes "safe_cont k" "ms_ok s ms" "s + i \<le> length (msrc ms)"
  shows "safe s ms (try_down k s i ms)"
  using assms(3)
proof (induction i)
  case 0
  then show ?case using safe_contD [OF assms(1,2)] by simp
next
  case (Suc i)
  have ok: "ms_ok (s + Suc i) ms" by (rule ms_ok_mono [OF assms(2)]) (use Suc.prems in auto)
  have "safe s ms (k (s + Suc i) ms)" by (rule safe_mono [OF safe_contD [OF assms(1) ok]]) simp
  then show ?case unfolding try_down.simps
    by (rule safe_bind) (use Suc safe_contD [OF assms(1) ok] in auto)
qed

lemma max_expand_safe:
  assumes "safe_cont k" "ms_ok s ms"
  shows "safe s ms (max_expand k ms s pat p ep)"
proof -
  have "length (takeWhile (\<lambda>c. singlematch c pat p ep) (drop s (msrc ms))) \<le> length (drop s (msrc ms))"
    by (rule length_takeWhile_le)
  then show ?thesis using assms by (auto simp: max_expand_def Let_def ms_ok_def intro!: try_down_safe)
qed

lemma min_expand_safe:
  assumes "safe_cont k" "ms_ok s ms"
  shows "safe s ms (min_expand k ms (msrc ms) s pat p ep)"
  using assms
proof (induction "length (msrc ms) - s" arbitrary: s)
  case 0
  then show ?case
    by (subst min_expand.simps) (rule safe_bind, auto dest: safe_contD simp: safe_def split: sum.splits option.splits)
next
  case (Suc d)
  have k: "safe s ms (k s ms)" by (rule safe_contD [OF Suc.prems])
  show ?case
  proof (subst min_expand.simps, rule safe_bind [OF k])
    have "safe s ms (min_expand k ms (msrc ms) (s + 1) pat p ep)" if "s < length (msrc ms)"
      by (rule safe_mono [OF Suc.hyps(1) [OF _ Suc.prems(1)]])
        (use Suc.hyps(2) that ms_ok_mono [OF Suc.prems(2), of "s + 1"] in auto)
    then show "safe s ms (if None \<noteq> (None :: nat option) then Inr (None, ms)
      else if s < length (msrc ms) \<and> singlematch (msrc ms ! s) pat p ep then min_expand k ms (msrc ms) (s + 1) pat p ep
      else Inr (None, ms))" by simp
  qed (use k in simp)
qed

lemma start_capture_safe:
  assumes "safe_cont k" "ms_ok s ms" "what = CAP_UNFINISHED \<or> what = CAP_POSITION"
  shows "safe s ms (start_capture E k ms s what)"
proof -
  let ?ms = "ms\<lparr>captures := captures ms @ [\<lparr>cinit = s, clen = what\<rparr>]\<rparr>"
  have "ms_ok s ?ms" using assms(2,3) by (auto simp: ms_ok_def cap_ok_def)
  then have "safe s ?ms (k s ?ms)" by (rule safe_contD [OF assms(1)])
  then show ?thesis
    by (auto simp: start_capture_def safe_def bindr_def split: sum.splits option.splits)
qed

lemma capture_loop_less: "capture_loop E cs n = Inr l \<Longrightarrow> l < n \<and> clen (cs ! l) = CAP_UNFINISHED"
  by (induction n) (auto split: if_splits)

lemma end_capture_safe:
  assumes "safe_cont k" "ms_ok s ms"
  shows "safe s ms (end_capture E k ms s)"
proof (cases "capture_to_close E ms")
  case (Inr l)
  then have l: "l < length (captures ms)" "clen (captures ms ! l) = CAP_UNFINISHED"
    using capture_loop_less by (auto simp: capture_to_close_def mlevel_def)
  let ?n = "int s - int (cinit (captures ms ! l))"
  let ?ms = "set_clen ms l ?n"
  have c: "cap_ok s (captures ms ! l)" using assms(2) l(1) by (simp add: ms_ok_def)
  then have "cap_ok s ((captures ms ! l)\<lparr>clen := ?n\<rparr>)" by (auto simp: cap_ok_def)
  then have "ms_ok s ?ms" using assms(2) set_update_subset_insert [of "captures ms" l]
    by (fastforce simp: ms_ok_def set_clen_def)
  then have k: "safe s ?ms (k s ?ms)" by (rule safe_contD [OF assms(1)])
  have undo: "set_clen ?ms l CAP_UNFINISHED = ms"
    using l by (simp add: set_clen_def list_update_same_conv flip: l(2))
  have src: "msrc ?ms = msrc ms" by (simp add: set_clen_def)
  show ?thesis using k undo src Inr
    by (auto simp: end_capture_def safe_def bindr_def split: sum.splits option.splits)
qed (simp add: end_capture_def)

lemma balance_safe: "balance_loop src b e s n = Some r \<Longrightarrow> s < r \<and> r \<le> length src"
proof (induction src b e s n rule: balance_loop.induct)
  case (1 src b e s n)
  have lt: "s + 1 < length src" using 1(4) by (subst (asm) balance_loop.simps) (auto split: if_splits)
  show ?case
  proof (cases "src ! (s + 1) = e")
    case True
    show ?thesis
    proof (cases "n - 1 = 0")
      case False
      then have "balance_loop src b e (s + 1) (n - 1) = Some r"
        using 1(4) lt True by (subst (asm) balance_loop.simps) simp
      with 1(1) [OF lt refl True False] show ?thesis by simp
    qed (use 1(4) lt True in \<open>subst (asm) balance_loop.simps, auto\<close>)
  next
    case ne: False
    show ?thesis
    proof (cases "src ! (s + 1) = b")
      case True
      then have "balance_loop src b e (s + 1) (n + 1) = Some r"
        using 1(4) lt ne by (subst (asm) balance_loop.simps) simp
      with 1(2) [OF lt refl ne True] show ?thesis by simp
    next
      case False
      then have "balance_loop src b e (s + 1) n = Some r"
        using 1(4) lt ne by (subst (asm) balance_loop.simps) simp
      with 1(3) [OF lt refl ne False] show ?thesis by simp
    qed
  qed
qed

lemma match_capture_safe:
  assumes "ms_ok s ms" "match_capture E ms s c = Inr (Some n)"
  shows "s \<le> n \<and> n \<le> length (msrc ms)"
  using assms by (auto simp: match_capture_def bindr_Inr_iff Let_def ms_ok_def nat_le_iff split: if_splits)

lemma safe_item:
  assumes "safe_cont (\<lambda>s ms. match E pat (ep + 1) s ms)" "safe_cont (\<lambda>s ms. match E pat ep s ms)" "ms_ok s ms"
  shows "safe s ms
     (let m = (s < length (msrc ms) \<and> singlematch (at (msrc ms) s) pat p ep) in
        if at pat ep = CHR ''?'' then
          bindr (if m then match E pat (ep + 1) (s + 1) ms else Inr (None, ms)) (\<lambda>(r, ms).
          if r \<noteq> None then Inr (r, ms) else match E pat (ep + 1) s ms)
        else if at pat ep = CHR ''*'' then max_expand (\<lambda>s ms. match E pat (ep + 1) s ms) ms s pat p ep
        else if at pat ep = CHR ''+'' then
          if m then max_expand (\<lambda>s ms. match E pat (ep + 1) s ms) ms (s + 1) pat p ep else Inr (None, ms)
        else if at pat ep = CHR ''-'' then
          min_expand (\<lambda>s ms. match E pat (ep + 1) s ms) ms (msrc ms) s pat p ep
        else if \<not> m then Inr (None, ms)
        else match E pat ep (s + 1) ms)"
proof -
  have next_ok: "ms_ok (s + 1) ms" if "s < length (msrc ms)"
    by (rule ms_ok_mono [OF assms(3)]) (use that in auto)
  have step: "safe s ms (k (s + 1) ms)" if "safe_cont k" "s < length (msrc ms)" for k
    by (rule safe_mono [OF safe_contD [OF that(1) next_ok [OF that(2)]]]) simp
  have opt: "safe s ms (bindr (if m then match E pat (ep + 1) (s + 1) ms else Inr (None, ms)) (\<lambda>(r, ms).
          if r \<noteq> None then Inr (r, ms) else match E pat (ep + 1) s ms))" if "m \<longrightarrow> s < length (msrc ms)" for m
    by (rule safe_bind) (use that step [OF assms(1)] safe_contD [OF assms(1,3)] in \<open>auto split: if_splits\<close>)
  have plus: "safe s ms (max_expand (\<lambda>s ms. match E pat (ep + 1) s ms) ms (s + 1) pat p ep)" if "s < length (msrc ms)"
    by (rule safe_mono [OF max_expand_safe [OF assms(1) next_ok [OF that]]]) simp
  show ?thesis
    using opt plus step [OF assms(2)] max_expand_safe [OF assms(1,3)] min_expand_safe [OF assms(1,3)]
    by (simp add: Let_def)
qed

lemma safe_option:
  assumes "r = Inr None \<Longrightarrow> safe s ms (f None)" "\<And>n. r = Inr (Some n) \<Longrightarrow> safe s ms (f (Some n))"
  shows "safe s ms (bindr r f)"
  using assms by (cases r; cases "projr r") (auto simp: bindr_def split: option.splits)

lemma match_item:
  assumes "at pat p \<noteq> CHR ''(''" "at pat p \<noteq> CHR '')''"
    "\<not> (at pat p = L_ESC \<and> (at pat (p + 1) = CHR ''b'' \<or> at pat (p + 1) = CHR ''f'' \<or> isdigit (at pat (p + 1))))"
    "at pat p \<noteq> NUL" "\<not> (at pat p = CHR ''$'' \<and> at pat (p + 1) = NUL)"
  shows "match E pat p s ms =
     bindr (classend E pat p) (\<lambda>ep.
        let m = (s < length (msrc ms) \<and> singlematch (at (msrc ms) s) pat p ep) in
        if at pat ep = CHR ''?'' then
          bindr (if m then match E pat (ep + 1) (s + 1) ms else Inr (None, ms)) (\<lambda>(r, ms).
          if r \<noteq> None then Inr (r, ms) else match E pat (ep + 1) s ms)
        else if at pat ep = CHR ''*'' then max_expand (\<lambda>s ms. match E pat (ep + 1) s ms) ms s pat p ep
        else if at pat ep = CHR ''+'' then
          if m then max_expand (\<lambda>s ms. match E pat (ep + 1) s ms) ms (s + 1) pat p ep else Inr (None, ms)
        else if at pat ep = CHR ''-'' then
          min_expand (\<lambda>s ms. match E pat (ep + 1) s ms) ms (msrc ms) s pat p ep
        else if \<not> m then Inr (None, ms)
        else match E pat ep (s + 1) ms)"
proof -
  have "\<not> (at pat p = L_ESC \<and> at pat (p + 1) = CHR ''b'')" "\<not> (at pat p = L_ESC \<and> at pat (p + 1) = CHR ''f'')"
    "\<not> (at pat p = L_ESC \<and> isdigit (at pat (p + 1)))"
    using assms(3) by blast+
  then show ?thesis
    by (subst match.simps) (simp only: Let_def assms(1,2,4,5) if_False)
qed

lemma match_safe_cont: "safe_cont (\<lambda>s ms. match E pat p s ms)"
proof (induction "length pat + 2 - p" arbitrary: p rule: less_induct)
  case less
  have k: "safe_cont (\<lambda>s ms. match E pat q s ms)" if "p < q" "at pat p \<noteq> NUL" for q
    by (rule less.hyps) (use that at_NUL [OF that(2)] in simp)
  show ?case unfolding safe_cont_def
  proof (intro allI impI)
    fix s ms assume ok: "ms_ok s ms"
    let ?c = "at pat p" and ?d = "at pat (p + 1)"
    have next_safe: "safe s ms (match E pat q n ms)" if "p < q" "?c \<noteq> NUL" "s \<le> n" "n \<le> length (msrc ms)" for q n
      by (rule safe_mono [OF safe_contD [OF k [OF that(1,2)] ms_ok_mono [OF ok that(3,4)]]]) (rule that)
    consider "?c = CHR ''(''" | "?c = CHR '')''" | "?c = L_ESC" "?d = CHR ''b''" | "?c = L_ESC" "?d = CHR ''f''"
      | "?c = L_ESC" "isdigit ?d" "?d \<noteq> CHR ''b''" "?d \<noteq> CHR ''f''" | "?c = NUL" | "?c = CHR ''$''" "?d = NUL"
      | "?c \<noteq> CHR ''(''" "?c \<noteq> CHR '')''" "\<not> (?c = L_ESC \<and> (?d = CHR ''b'' \<or> ?d = CHR ''f'' \<or> isdigit ?d))"
        "?c \<noteq> NUL" "\<not> (?c = CHR ''$'' \<and> ?d = NUL)" by blast
    then show "safe s ms (match E pat p s ms)"
    proof cases
      case 1
      have "safe s ms (start_capture E (\<lambda>s ms. match E pat q s ms) ms s w)"
        if "p < q" "w = CAP_UNFINISHED \<or> w = CAP_POSITION" for q w
        using that 1 by (intro start_capture_safe k ok) auto
      with 1 show ?thesis by (simp add: match.simps [of E pat p] Let_def)
    next
      case 2
      have "safe s ms (end_capture E (\<lambda>s ms. match E pat (p + 1) s ms) ms s)"
        using 2 by (intro end_capture_safe k ok) auto
      with 2 show ?thesis by (simp add: match.simps [of E pat p] Let_def)
    next
      case 3
      have "s \<le> n \<and> n \<le> length (msrc ms)" if "matchbalance E ms s pat (p + 2) = Inr (Some n)" for n
        using that balance_safe by (fastforce simp: matchbalance_def split: if_splits)
      then have "safe s ms (bindr (matchbalance E ms s pat (p + 2)) (\<lambda>r.
          case r of None \<Rightarrow> Inr (None, ms) | Some s \<Rightarrow> match E pat (p + 4) s ms))"
        using 3 next_safe [of "p + 4"] by (intro safe_option) (auto simp: L_ESC_def)
      with 3 show ?thesis by (simp add: match.simps [of E pat p] Let_def L_ESC_def)
    next
      case 4
      have "safe s ms (match E pat ep s ms)" if "classend E pat (p + 2) = Inr ep" for ep
        using next_safe [of ep s] classend_gt [OF that] ok 4 by (auto simp: ms_ok_def L_ESC_def)
      with 4 show ?thesis
        by (cases "classend E pat (p + 2)") (auto simp: match.simps [of E pat p] Let_def L_ESC_def)
    next
      case 5
      have "safe s ms (bindr (match_capture E ms s ?d) (\<lambda>r.
          case r of None \<Rightarrow> Inr (None, ms) | Some s \<Rightarrow> match E pat (p + 2) s ms))"
        using 5 next_safe [of "p + 2"] match_capture_safe [OF ok] by (intro safe_option) (auto simp: L_ESC_def)
      with 5 show ?thesis by (simp add: match.simps [of E pat p] Let_def L_ESC_def del: add_2_eq_Suc')
    next
      case 6
      with ok show ?thesis by (simp add: match.simps [of E pat p] Let_def L_ESC_def isdigit_def code_def)
    next
      case 7
      have "match E pat p s ms = Inr (if s = length (msrc ms) then Some s else None, ms)"
        using 7 by (simp add: match.simps [of E pat p] Let_def L_ESC_def)
      then show ?thesis using ok by (cases "s = length (msrc ms)") simp_all
    next
      case 8
      show ?thesis
      proof (cases "classend E pat p")
        case (Inr ep)
        have "safe_cont (\<lambda>s ms. match E pat (ep + 1) s ms)" "safe_cont (\<lambda>s ms. match E pat ep s ms)"
          using classend_gt [OF Inr] 8(4) by (auto intro: k)
        from safe_item [OF this ok, of p] show ?thesis
          unfolding match_item [OF 8] Inr bindr_simps .
      qed (simp add: match_item [OF 8])
    qed
  qed
qed

text \<open>
  C32: matching a pattern always ends; it either raises an error, or fails and leaves the captures
  as they were, or matches up to a position inside the subject, not before its start, with every closed
  capture inside the matched prefix.
\<close>

theorem match_in_subject:
  assumes "s \<le> length (msrc ms)" "captures ms = []"
  shows "case match E pat p s ms of
      Inl e \<Rightarrow> True
    | Inr (None, ms') \<Rightarrow> ms' = ms
    | Inr (Some n, ms') \<Rightarrow> s \<le> n \<and> n \<le> length (msrc ms) \<and> msrc ms' = msrc ms \<and>
        (\<forall>c \<in> set (captures ms'). clen c = CAP_UNFINISHED \<or> clen c = CAP_POSITION \<or>
           0 \<le> clen c \<and> int (cinit c) + clen c \<le> int n)"
proof -
  have "safe s ms (match E pat p s ms)"
    by (rule safe_contD [OF match_safe_cont]) (use assms in \<open>simp add: ms_ok_def\<close>)
  then show ?thesis
    by (auto simp: safe_def ms_ok_def cap_ok_def split: sum.splits option.splits)
qed

lemma match_in_subject_witness:
  "case match ex_env ''%d+'' 0 1 (MatchState.make ''a12'' []) of
      Inl e \<Rightarrow> True
    | Inr (None, ms') \<Rightarrow> ms' = MatchState.make ''a12'' []
    | Inr (Some n, ms') \<Rightarrow> 1 \<le> n \<and> n \<le> length (msrc (MatchState.make ''a12'' [])) \<and>
        msrc ms' = msrc (MatchState.make ''a12'' []) \<and>
        (\<forall>c \<in> set (captures ms'). clen c = CAP_UNFINISHED \<or> clen c = CAP_POSITION \<or>
           0 \<le> clen c \<and> int (cinit c) + clen c \<le> int n)"
  by (rule match_in_subject) (simp_all add: MatchState.make_def)

end
