(* ===== verification/LuaStrLib.thy ===== *)
theory LuaStrLib
  imports LuaMatch LuaString
begin

text \<open>
  The string library (lstrlib.c) over the operations of the API it calls: the creation and the contents
  of strings, the room on the stack, calls and indexing. Each function takes its surroundings, the
  API, its arguments and the state of the interpreter. A \<open>luaL_Buffer\<close> is the string it holds.
\<close>

section \<open>The API as the library calls it\<close>

text \<open>\<open>spushlstring\<close> makes a string value, \<open>scontent\<close> gives the characters of a string object,
  \<open>scheckstack s n\<close> is \<open>lua_checkstack\<close>, \<open>scall\<close> and \<open>sgettable\<close> have one result.\<close>

record 's str_api =
  spushlstring :: "'s \<Rightarrow> string \<Rightarrow> (TValue \<times> 's) res"
  scontent :: "'s \<Rightarrow> ptr \<Rightarrow> string"
  scheckstack :: "'s \<Rightarrow> nat \<Rightarrow> bool"
  scall :: "'s \<Rightarrow> TValue \<Rightarrow> TValue list \<Rightarrow> (TValue \<times> 's) res"
  sgettable :: "'s \<Rightarrow> TValue \<Rightarrow> TValue \<Rightarrow> (TValue \<times> 's) res"

text \<open>The surroundings with the strings of a state.\<close>

definition senv :: "lib_env \<Rightarrow> 's str_api \<Rightarrow> 's \<Rightarrow> lib_env" where
  "senv E A st = E\<lparr>svalue := scontent A st\<rparr>"

definition spush1 :: "'s str_api \<Rightarrow> 's \<Rightarrow> string \<Rightarrow> (TValue list \<times> 's) res" where
  "spush1 A st str = bindr (spushlstring A st str) (\<lambda>(v, st). Inr ([v], st))"

definition pushint :: "int \<Rightarrow> TValue" where
  "pushint i = TNumber (cast_num i)"

definition luaL_checkstack :: "lib_env \<Rightarrow> 's str_api \<Rightarrow> 's \<Rightarrow> nat \<Rightarrow> string \<Rightarrow> unit res" where
  "luaL_checkstack E A st space mes =
     (if scheckstack A st space then Inr () else Inl (luaL_error E (''stack overflow ('' @ mes @ '')'')))"

section \<open>Plain strings\<close>

definition str_len :: "lib_env \<Rightarrow> 's str_api \<Rightarrow> TValue list \<Rightarrow> 's \<Rightarrow> (TValue list \<times> 's) res" where
  "str_len E A args st =
     bindr (luaL_checklstring (senv E A st) args 1) (\<lambda>s. Inr ([pushint (int (length s))], st))"

definition posrelat :: "int \<Rightarrow> nat \<Rightarrow> int" where
  "posrelat pos len = (let pos = (if pos < 0 then pos + (int len + 1) else pos) in if 0 \<le> pos then pos else 0)"

definition str_sub :: "lib_env \<Rightarrow> 's str_api \<Rightarrow> TValue list \<Rightarrow> 's \<Rightarrow> (TValue list \<times> 's) res" where
  "str_sub E A args st =
     (let E = senv E A st in
      bindr (luaL_checklstring E args 1) (\<lambda>s.
      bindr (luaL_checkinteger E args 2) (\<lambda>i.
      bindr (luaL_optinteger E args 3 (- 1)) (\<lambda>j.
      let l = length s;
          start = posrelat i l;
          ende = posrelat j l;
          start = (if start < 1 then 1 else start);
          ende = (if int l < ende then int l else ende) in
      if start \<le> ende then spush1 A st (take (nat (ende - start + 1)) (drop (nat (start - 1)) s))
      else spush1 A st []))))"

definition str_reverse :: "lib_env \<Rightarrow> 's str_api \<Rightarrow> TValue list \<Rightarrow> 's \<Rightarrow> (TValue list \<times> 's) res" where
  "str_reverse E A args st = bindr (luaL_checklstring (senv E A st) args 1) (\<lambda>s. spush1 A st (rev s))"

definition str_lower :: "lib_env \<Rightarrow> 's str_api \<Rightarrow> TValue list \<Rightarrow> 's \<Rightarrow> (TValue list \<times> 's) res" where
  "str_lower E A args st = bindr (luaL_checklstring (senv E A st) args 1) (\<lambda>s. spush1 A st (map tolower s))"

definition str_upper :: "lib_env \<Rightarrow> 's str_api \<Rightarrow> TValue list \<Rightarrow> 's \<Rightarrow> (TValue list \<times> 's) res" where
  "str_upper E A args st = bindr (luaL_checklstring (senv E A st) args 1) (\<lambda>s. spush1 A st (map toupper s))"

definition str_rep :: "lib_env \<Rightarrow> 's str_api \<Rightarrow> TValue list \<Rightarrow> 's \<Rightarrow> (TValue list \<times> 's) res" where
  "str_rep E A args st =
     (let E = senv E A st in
      bindr (luaL_checklstring E args 1) (\<lambda>s.
      bindr (luaL_checkint E args 2) (\<lambda>n.
      spush1 A st (concat (replicate (nat n) s)))))"

definition uchar :: "int \<Rightarrow> int" where
  "uchar c = c mod 256"

definition str_byte :: "lib_env \<Rightarrow> 's str_api \<Rightarrow> TValue list \<Rightarrow> 's \<Rightarrow> (TValue list \<times> 's) res" where
  "str_byte E A args st =
     (let E = senv E A st in
      bindr (luaL_checklstring E args 1) (\<lambda>s.
      bindr (luaL_optinteger E args 2 1) (\<lambda>i.
      let l = length s; posi = posrelat i l in
      bindr (luaL_optinteger E args 3 posi) (\<lambda>j.
      let pose = posrelat j l;
          posi = (if posi \<le> 0 then 1 else posi);
          pose = (if int l < pose then int l else pose) in
      if pose < posi then Inr ([], st)
      else
        let n = cast_int (pose - posi + 1) in
        if posi + n \<le> pose then Inl (luaL_error E ''string slice too long'')
        else bindr (luaL_checkstack E A st (nat n) ''string slice too long'') (\<lambda>_.
          Inr (map (\<lambda>i. pushint (int (code (s ! nat (posi + int i - 1))))) [0..<nat n], st))))))"

text \<open>The arguments from the \<open>i\<close>-th.\<close>

fun str_char_loop :: "lib_env \<Rightarrow> TValue list \<Rightarrow> nat list \<Rightarrow> string \<Rightarrow> string res" where
  "str_char_loop E args [] b = Inr b"
| "str_char_loop E args (i # is) b =
     bindr (luaL_checkint E args i) (\<lambda>c.
     bindr (luaL_argcheck E (uchar c = c) i ''invalid value'') (\<lambda>_.
     str_char_loop E args is (b @ [char_of (nat (uchar c))])))"

definition str_char :: "lib_env \<Rightarrow> 's str_api \<Rightarrow> TValue list \<Rightarrow> 's \<Rightarrow> (TValue list \<times> 's) res" where
  "str_char E A args st =
     bindr (str_char_loop (senv E A st) args [1..<length args + 1] []) (\<lambda>b. spush1 A st b)"

section \<open>Plain search\<close>

definition memchr :: "string \<Rightarrow> nat \<Rightarrow> char \<Rightarrow> nat \<Rightarrow> nat option" where
  "memchr s p c n = find (\<lambda>q. s ! q = c) [p..<p + n]"

lemma memchr_Some: "memchr s p c n = Some q \<Longrightarrow> p \<le> q \<and> q < p + n \<and> s ! q = c \<and> (\<forall>r. p \<le> r \<and> r < q \<longrightarrow> s ! r \<noteq> c)"
proof -
  assume "memchr s p c n = Some q"
  then obtain i where i: "i < n" "q = p + i" "s ! q = c" "\<forall>j < i. s ! (p + j) \<noteq> c"
    by (auto simp: memchr_def find_Some_iff)
  have "s ! r \<noteq> c" if "p \<le> r" "r < q" for r using i(2,4) that by (auto dest: spec [of _ "r - p"])
  with i show ?thesis by auto
qed

lemma memchr_None: "memchr s p c n = None \<Longrightarrow> p \<le> q \<Longrightarrow> q < p + n \<Longrightarrow> s ! q \<noteq> c"
  by (auto simp: memchr_def find_None_iff)

text \<open>
  The search for the string \<open>s2\<close>, not empty, in the \<open>l1\<close> possible starts from \<open>p\<close> on.
\<close>

function lmemfind_loop :: "string \<Rightarrow> nat \<Rightarrow> nat \<Rightarrow> string \<Rightarrow> nat option" where
  "lmemfind_loop s1 p l1 s2 =
     (if 0 < l1 then
        case memchr s1 p (hd s2) l1 of
          None \<Rightarrow> None
        | Some init \<Rightarrow>
            let init = init + 1 in
            if take (length s2 - 1) (drop init s1) = tl s2 then Some (init - 1)
            else lmemfind_loop s1 init (l1 - (init - p)) s2
      else None)"
  by pat_completeness auto
termination
  by (relation "measure (\<lambda>(s1, p, l1, s2). l1)") (auto dest: memchr_Some)

declare lmemfind_loop.simps [simp del]

definition lmemfind :: "string \<Rightarrow> nat \<Rightarrow> string \<Rightarrow> nat option" where
  "lmemfind s1 p s2 =
     (if length s2 = 0 then Some p
      else if length s1 - p < length s2 then None
      else lmemfind_loop s1 p (length s1 - p - (length s2 - 1)) s2)"

definition occurs_at :: "string \<Rightarrow> string \<Rightarrow> nat \<Rightarrow> bool" where
  "occurs_at s2 s1 i \<longleftrightarrow> take (length s2) (drop i s1) = s2"

lemma occurs_at_Cons:
  assumes "i < length s1"
  shows "occurs_at (c # t) s1 i \<longleftrightarrow> s1 ! i = c \<and> take (length t) (drop (i + 1) s1) = t"
  using assms by (simp add: occurs_at_def flip: Cons_nth_drop_Suc)

lemma find_upt_skip: "(\<And>i. p \<le> i \<Longrightarrow> i < q \<Longrightarrow> \<not> P i) \<Longrightarrow> p \<le> q \<Longrightarrow> q \<le> n \<Longrightarrow> find P [p..<n] = find P [q..<n]"
proof (induction "q - p" arbitrary: p)
  case (Suc d)
  then have "p < q" by simp
  with Suc.prems have "find P [p..<n] = find P [Suc p..<n]" by (simp add: upt_conv_Cons)
  also have "\<dots> = find P [q..<n]" by (rule Suc.hyps(1)) (use Suc in auto)
  finally show ?case .
qed simp

lemma find_append: "find P (xs @ ys) = (case find P xs of Some x \<Rightarrow> Some x | None \<Rightarrow> find P ys)"
  by (induction xs) auto

lemma lmemfind_loop_find:
  assumes "p + l1 + length t \<le> length s1"
  shows "lmemfind_loop s1 p l1 (c # t) = find (occurs_at (c # t) s1) [p..<p + l1]"
  using assms
proof (induction l1 arbitrary: p rule: less_induct)
  case (less l1)
  note occ = occurs_at_Cons [of _ s1 c t]
  show ?case
  proof (cases "memchr s1 p c l1")
    case None
    have "\<not> occurs_at (c # t) s1 i" if "p \<le> i" "i < p + l1" for i
      using memchr_None [OF None that] that less.prems by (subst occ) auto
    then have "find (occurs_at (c # t) s1) [p..<p + l1] = None" by (auto simp: find_None_iff)
    with None show ?thesis by (subst lmemfind_loop.simps) simp
  next
    case (Some q)
    from memchr_Some [OF this] have q: "p \<le> q" "q < p + l1" "s1 ! q = c" "\<And>r. p \<le> r \<Longrightarrow> r < q \<Longrightarrow> s1 ! r \<noteq> c"
      by auto
    have no: "\<not> occurs_at (c # t) s1 i" if "p \<le> i" "i < q" for i
      using q(4) [OF that] that q(2) less.prems by (subst occ) auto
    have skip: "find (occurs_at (c # t) s1) [p..<p + l1] = find (occurs_at (c # t) s1) [q..<p + l1]"
      by (rule find_upt_skip) (use no q in auto)
    have at: "occurs_at (c # t) s1 q \<longleftrightarrow> take (length t) (drop (q + 1) s1) = t"
      using q less.prems by (subst occ) auto
    show ?thesis
    proof (cases "take (length t) (drop (q + 1) s1) = t")
      case True
      have "[q..<p + l1] = q # [q + 1..<p + l1]" using q(2) by (simp add: upt_conv_Cons)
      with at True have "find (occurs_at (c # t) s1) [q..<p + l1] = Some q" by simp
      with True Some q skip show ?thesis by (subst lmemfind_loop.simps) (simp add: Let_def)
    next
      case False
      have "find (occurs_at (c # t) s1) [q..<p + l1] = find (occurs_at (c # t) s1) [q + 1..<p + l1]"
        by (rule find_upt_skip) (use at False q in \<open>auto simp: less_Suc_eq\<close>)
      moreover have "lmemfind_loop s1 (q + 1) (l1 - (q + 1 - p)) (c # t)
        = find (occurs_at (c # t) s1) [q + 1..<q + 1 + (l1 - (q + 1 - p))]"
        by (rule less.IH) (use q less.prems in auto)
      moreover have "q + 1 + (l1 - (q + 1 - p)) = p + l1" using q by simp
      moreover have "lmemfind_loop s1 p l1 (c # t) = lmemfind_loop s1 (q + 1) (l1 - (q + 1 - p)) (c # t)"
        using False Some q by (subst lmemfind_loop.simps) (simp add: Let_def)
      ultimately show ?thesis using skip by argo
    qed
  qed
qed

text \<open>
  C33: the plain search finds the first occurrence: it agrees with trying every start from \<open>p\<close> to
  the end of the subject in turn.
\<close>

theorem lmemfind_first:
  assumes "p \<le> length s1"
  shows "lmemfind s1 p s2 = find (\<lambda>i. take (length s2) (drop i s1) = s2) [p..<length s1 + 1]"
proof (cases s2)
  case Nil
  have "[p..<length s1 + 1] = p # [p + 1..<length s1 + 1]" using assms by (simp add: upt_conv_Cons)
  with Nil show ?thesis by (simp add: lmemfind_def)
next
  case (Cons c t)
  have none: "\<not> occurs_at s2 s1 i" if "length s1 < i + length s2" for i
  proof
    assume "occurs_at s2 s1 i"
    then have "length (take (length s2) (drop i s1)) = length s2" by (simp add: occurs_at_def)
    with that Cons show False by (simp add: min_def split: if_splits)
  qed
  show ?thesis
  proof (cases "length s1 - p < length s2")
    case True
    then have "\<not> occurs_at s2 s1 i" if "p \<le> i" "i < length s1 + 1" for i using that assms by (intro none) simp
    then have "find (occurs_at s2 s1) [p..<length s1 + 1] = None"
      unfolding find_None_iff set_upt atLeastLessThan_iff by blast
    with True Cons show ?thesis by (simp add: lmemfind_def occurs_at_def [abs_def])
  next
    case False
    let ?l = "length s1 - p - length t"
    have "[p..<length s1 + 1] = [p..<p + ?l] @ [p + ?l..<length s1 + 1]"
      using False Cons assms upt_add_eq_append [of p "p + ?l" "length s1 + 1 - (p + ?l)"] by simp
    moreover have "find (occurs_at s2 s1) [p + ?l..<length s1 + 1] = None"
      unfolding find_None_iff set_upt atLeastLessThan_iff using none False Cons assms by auto
    ultimately have "find (occurs_at s2 s1) [p..<length s1 + 1] = find (occurs_at s2 s1) [p..<p + ?l]"
      by (cases "find (occurs_at s2 s1) [p..<p + ?l]") (auto simp: find_append)
    moreover have "lmemfind s1 p s2 = find (occurs_at s2 s1) [p..<p + ?l]"
      using False assms unfolding Cons lmemfind_def by (simp add: lmemfind_loop_find)
    ultimately show ?thesis by (simp add: occurs_at_def [abs_def])
  qed
qed

lemma lmemfind_first_witness:
  "lmemfind ''abcbc'' 2 ''bc'' = find (\<lambda>i. take (length ''bc'') (drop i ''abcbc'') = ''bc'') [2..<length ''abcbc'' + 1]
    \<and> lmemfind ''abcbc'' 2 ''bc'' = Some 3"
  using lmemfind_first [of 2 "''abcbc''" "''bc''"] by (simp add: upt_rec [of 2] upt_rec [of 3] eval_nat_numeral)

section \<open>Captures\<close>

definition push_onecapture ::
    "lib_env \<Rightarrow> 's str_api \<Rightarrow> MatchState \<Rightarrow> nat \<Rightarrow> nat \<Rightarrow> nat \<Rightarrow> 's \<Rightarrow> (TValue \<times> 's) res" where
  "push_onecapture E A ms i s e st =
     (if mlevel ms \<le> i then
        if i = 0 then spushlstring A st (take (e - s) (drop s (msrc ms)))
        else Inl (luaL_error E ''invalid capture index'')
      else
        let c = captures ms ! i; l = clen c in
        if l = CAP_UNFINISHED then Inl (luaL_error E ''unfinished capture'')
        else if l = CAP_POSITION then Inr (pushint (int (cinit c) + 1), st)
        else spushlstring A st (take (nat l) (drop (cinit c) (msrc ms))))"

fun push_captures_loop ::
    "lib_env \<Rightarrow> 's str_api \<Rightarrow> MatchState \<Rightarrow> nat list \<Rightarrow> nat \<Rightarrow> nat \<Rightarrow> 's \<Rightarrow> (TValue list \<times> 's) res" where
  "push_captures_loop E A ms [] s e st = Inr ([], st)"
| "push_captures_loop E A ms (i # is) s e st =
     bindr (push_onecapture E A ms i s e st) (\<lambda>(v, st).
     bindr (push_captures_loop E A ms is s e st) (\<lambda>(vs, st). Inr (v # vs, st)))"

text \<open>The text of the whole match is given, or \<open>None\<close> for a NULL start.\<close>

definition push_captures ::
    "lib_env \<Rightarrow> 's str_api \<Rightarrow> MatchState \<Rightarrow> (nat \<times> nat) option \<Rightarrow> 's \<Rightarrow> (TValue list \<times> 's) res" where
  "push_captures E A ms se st =
     (let nlevels = (if mlevel ms = 0 \<and> se \<noteq> None then 1 else mlevel ms);
          (s, e) = (case se of Some x \<Rightarrow> x | None \<Rightarrow> (0, 0)) in
      bindr (luaL_checkstack E A st nlevels ''too many captures'') (\<lambda>_.
      push_captures_loop E A ms [0..<nlevels] s e st))"

section \<open>Searching with a pattern\<close>

definition SPECIALS :: string where "SPECIALS = ''^$*+?.([%-''"

definition cstr :: "string \<Rightarrow> string" where
  "cstr s = takeWhile (\<lambda>c. c \<noteq> NUL) s"

text \<open>The loop over the starts: the start and the end of the first match.\<close>

function find_loop ::
    "lib_env \<Rightarrow> string \<Rightarrow> nat \<Rightarrow> bool \<Rightarrow> string \<Rightarrow> nat \<Rightarrow> ((nat \<times> nat \<times> MatchState) option) res" where
  "find_loop E pat p anchor src s1 =
     bindr (match E pat p s1 \<lparr>msrc = src, captures = []\<rparr>) (\<lambda>(r, ms).
     case r of
       Some e \<Rightarrow> Inr (Some (s1, e, ms))
     | None \<Rightarrow> if s1 < length src \<and> \<not> anchor then find_loop E pat p anchor src (s1 + 1) else Inr None)"
  by pat_completeness auto
termination by (relation "measure (\<lambda>(E, pat, p, anchor, src, s1). length src - s1)") auto

declare find_loop.simps [simp del]

definition str_find_aux ::
    "lib_env \<Rightarrow> 's str_api \<Rightarrow> TValue list \<Rightarrow> bool \<Rightarrow> 's \<Rightarrow> (TValue list \<times> 's) res" where
  "str_find_aux E0 A args is_find st =
     (let E = senv E0 A st in
      bindr (luaL_checklstring E args 1) (\<lambda>s.
      bindr (luaL_checklstring E args 2) (\<lambda>p.
      bindr (luaL_optinteger E args 3 1) (\<lambda>i.
      let init = posrelat i (length s) - 1;
          init = (if init < 0 then 0 else if int (length s) < init then length s else nat init) in
      if is_find \<and> (lua_toboolean args 4 \<or> (\<forall>c \<in> set (cstr p). c \<notin> set SPECIALS)) then
        case lmemfind s init p of
          Some s2 \<Rightarrow> Inr ([pushint (int s2 + 1), pushint (int s2 + int (length p))], st)
        | None \<Rightarrow> Inr ([TNil], st)
      else
        let anchor = (at p 0 = CHR ''^'') in
        bindr (find_loop E p (if anchor then 1 else 0) anchor s init) (\<lambda>r.
        case r of
          None \<Rightarrow> Inr ([TNil], st)
        | Some (s1, e, ms) \<Rightarrow>
            if is_find then
              bindr (push_captures E A ms None st) (\<lambda>(vs, st).
              Inr (pushint (int s1 + 1) # pushint (int e) # vs, st))
            else push_captures E A ms (Some (s1, e)) st)))))"

definition str_find :: "lib_env \<Rightarrow> 's str_api \<Rightarrow> TValue list \<Rightarrow> 's \<Rightarrow> (TValue list \<times> 's) res" where
  "str_find E A args st = str_find_aux E A args True st"

definition str_match :: "lib_env \<Rightarrow> 's str_api \<Rightarrow> TValue list \<Rightarrow> 's \<Rightarrow> (TValue list \<times> 's) res" where
  "str_match E A args st = str_find_aux E A args False st"

text \<open>The iterator of \<open>gmatch\<close>: its three upvalues are given and returned.\<close>

function gmatch_loop ::
    "lib_env \<Rightarrow> string \<Rightarrow> string \<Rightarrow> nat \<Rightarrow> ((nat \<times> nat \<times> MatchState) option) res" where
  "gmatch_loop E pat s src =
     (if src \<le> length s then
        bindr (match E pat 0 src \<lparr>msrc = s, captures = []\<rparr>) (\<lambda>(r, ms).
        case r of Some e \<Rightarrow> Inr (Some (src, e, ms)) | None \<Rightarrow> gmatch_loop E pat s (src + 1))
      else Inr None)"
  by pat_completeness auto
termination by (relation "measure (\<lambda>(E, pat, s, src). length s + 1 - src)") auto

declare gmatch_loop.simps [simp del]

definition gmatch_aux ::
    "lib_env \<Rightarrow> 's str_api \<Rightarrow> TValue list \<Rightarrow> 's \<Rightarrow> (TValue list \<times> TValue list \<times> 's) res" where
  "gmatch_aux E0 A upvals st =
     (let E = senv E0 A st;
          s = the (lua_tolstring E upvals 1);
          p = the (lua_tolstring E upvals 2) in
      bindr (gmatch_loop E p s (nat (lua_tointeger E upvals 3 mod 2 ^ 64))) (\<lambda>r.
      case r of
        None \<Rightarrow> Inr ([], upvals, st)
      | Some (src, e, ms) \<Rightarrow>
          let newstart = (if e = src then int e + 1 else int e) in
          bindr (push_captures E A ms (Some (src, e)) st) (\<lambda>(vs, st).
          Inr (vs, upvals[2 := pushint newstart], st))))"

text \<open>\<open>gmatch\<close> gives the upvalues of the new iterator.\<close>

definition gmatch :: "lib_env \<Rightarrow> 's str_api \<Rightarrow> TValue list \<Rightarrow> 's \<Rightarrow> TValue list res" where
  "gmatch E A args st =
     bindr (luaL_checklstring (senv E A st) args 1) (\<lambda>_.
     bindr (luaL_checklstring (senv E A st) args 2) (\<lambda>_.
     Inr [arg_value args 1, arg_value args 2, pushint 0]))"

definition gfind_nodef :: "lib_env \<Rightarrow> 'a res" where
  "gfind_nodef E = Inl (luaL_error E (LUA_QL ''string.gfind'' @ '' was renamed to '' @ LUA_QL ''string.gmatch''))"

section \<open>Substitution\<close>

text \<open>The content \<open>luaL_addvalue\<close> appends.\<close>

definition addvalue :: "lib_env \<Rightarrow> 's str_api \<Rightarrow> string \<Rightarrow> TValue \<Rightarrow> 's \<Rightarrow> string" where
  "addvalue E A b v st = b @ the (lua_tolstring (senv E A st) [v] 1)"

function add_s_loop ::
    "lib_env \<Rightarrow> 's str_api \<Rightarrow> MatchState \<Rightarrow> string \<Rightarrow> nat \<Rightarrow> nat \<Rightarrow> nat \<Rightarrow> string \<Rightarrow> 's \<Rightarrow> (string \<times> 's) res" where
  "add_s_loop E A ms news i s e b st =
     (if i < length news then
        if at news i \<noteq> L_ESC then add_s_loop E A ms news (i + 1) s e (b @ [at news i]) st
        else
          let i = i + 1; c = at news i in
          if \<not> isdigit c then add_s_loop E A ms news (i + 1) s e (b @ [c]) st
          else if c = CHR ''0'' then
            add_s_loop E A ms news (i + 1) s e (b @ take (e - s) (drop s (msrc ms))) st
          else
            bindr (push_onecapture E A ms (code c - 49) s e st) (\<lambda>(v, st).
            add_s_loop E A ms news (i + 1) s e (addvalue E A b v st) st)
      else Inr (b, st))"
  by pat_completeness auto
termination
  by (relation "measure (\<lambda>(E, A, ms, news, i, s, e, b, st). length news - i)") auto

declare add_s_loop.simps [simp del]

definition add_s ::
    "lib_env \<Rightarrow> 's str_api \<Rightarrow> TValue list \<Rightarrow> MatchState \<Rightarrow> nat \<Rightarrow> nat \<Rightarrow> string \<Rightarrow> 's \<Rightarrow> (string \<times> 's) res" where
  "add_s E A args ms s e b st =
     add_s_loop E A ms (the (lua_tolstring (senv E A st) args 3)) 0 s e b st"

text \<open>The end of \<open>add_value\<close>: the value of a call or an index.\<close>

definition add_result ::
    "lib_env \<Rightarrow> 's str_api \<Rightarrow> MatchState \<Rightarrow> nat \<Rightarrow> nat \<Rightarrow> string \<Rightarrow> TValue \<Rightarrow> 's \<Rightarrow> (string \<times> 's) res" where
  "add_result E A ms s e b v st =
     (if l_isfalse v then
        bindr (spushlstring A st (take (e - s) (drop s (msrc ms)))) (\<lambda>(v, st). Inr (addvalue E A b v st, st))
      else if \<not> lua_isstring [v] 1 then
        Inl (luaL_error E (''invalid replacement value (a '' @ luaL_typename [v] 1 @ '')''))
      else Inr (addvalue E A b v st, st))"

definition add_value ::
    "lib_env \<Rightarrow> 's str_api \<Rightarrow> TValue list \<Rightarrow> MatchState \<Rightarrow> nat \<Rightarrow> nat \<Rightarrow> string \<Rightarrow> 's \<Rightarrow> (string \<times> 's) res" where
  "add_value E A args ms s e b st =
     (case arg_value args 3 of
        TFun f \<Rightarrow>
          bindr (push_captures E A ms (Some (s, e)) st) (\<lambda>(vs, st).
          bindr (scall A st (TFun f) vs) (\<lambda>(v, st). add_result E A ms s e b v st))
      | TTab t \<Rightarrow>
          bindr (push_onecapture E A ms 0 s e st) (\<lambda>(k, st).
          bindr (sgettable A st (TTab t) k) (\<lambda>(v, st). add_result E A ms s e b v st))
      | _ \<Rightarrow> add_s E A args ms s e b st)"

text \<open>The loop gives the position it stopped at, the number of substitutions and the buffer.\<close>

function gsub_loop ::
    "lib_env \<Rightarrow> 's str_api \<Rightarrow> TValue list \<Rightarrow> string \<Rightarrow> nat \<Rightarrow> bool \<Rightarrow> string \<Rightarrow> int \<Rightarrow> nat \<Rightarrow> int \<Rightarrow> string \<Rightarrow> 's \<Rightarrow>
     (nat \<times> int \<times> string \<times> 's) res" where
  "gsub_loop E A args pat p anchor src max_s s n b st =
     (if n < max_s then
        bindr (match E pat p s \<lparr>msrc = src, captures = []\<rparr>) (\<lambda>(e, ms).
        bindr (case e of
            Some e \<Rightarrow> bindr (add_value E A args ms s e b st) (\<lambda>(b, st). Inr (n + 1, b, st))
          | None \<Rightarrow> Inr (n, b, st)) (\<lambda>(n, b, st).
        if e \<noteq> None \<and> s < the e then
          if anchor then Inr (the e, n, b, st)
          else gsub_loop E A args pat p anchor src max_s (the e) n b st
        else if s < length src then
          if anchor then Inr (s + 1, n, b @ [src ! s], st)
          else gsub_loop E A args pat p anchor src max_s (s + 1) n (b @ [src ! s]) st
        else Inr (s, n, b, st)))
      else Inr (s, n, b, st))"
  by pat_completeness auto
termination
  by (relation "measures [\<lambda>(E, A, args, pat, p, anchor, src, max_s, s, n, b, st). nat (max_s - n),
      \<lambda>(E, A, args, pat, p, anchor, src, max_s, s, n, b, st). length src - s]")
    (auto split: option.splits simp: bindr_Inr_iff)

declare gsub_loop.simps [simp del]

definition str_gsub :: "lib_env \<Rightarrow> 's str_api \<Rightarrow> TValue list \<Rightarrow> 's \<Rightarrow> (TValue list \<times> 's) res" where
  "str_gsub E0 A args st =
     (let E = senv E0 A st in
      bindr (luaL_checklstring E args 1) (\<lambda>src.
      bindr (luaL_checklstring E args 2) (\<lambda>p.
      let tr = lua_type args 3 in
      bindr (luaL_optint E args 4 (int (length src) + 1)) (\<lambda>max_s.
      let anchor = (at p 0 = CHR ''^'') in
      bindr (luaL_argcheck E (tr = int LUA_TNUMBER \<or> tr = int LUA_TSTRING \<or> tr = int LUA_TFUNCTION \<or> tr = int LUA_TTABLE)
        3 ''string/function/table expected'') (\<lambda>_.
      bindr (gsub_loop E A args p (if anchor then 1 else 0) anchor src max_s 0 0 [] st) (\<lambda>(s, n, b, st).
      bindr (spushlstring A st (b @ drop s src)) (\<lambda>(v, st). Inr ([v, pushint n], st))))))))"

section \<open>Formatting\<close>

definition FLAGS :: string where "FLAGS = ''-+ #0''"
definition LUA_INTFRMLEN :: string where "LUA_INTFRMLEN = ''l''"

text \<open>One character of a quoted string (\<open>%q\<close>).\<close>

definition addquoted_char :: "char \<Rightarrow> string" where
  "addquoted_char c =
     (if c = CHR 0x22 \<or> c = CHR 0x5C \<or> c = CHR 0x0A then [CHR 0x5C, c]
      else if c = CHR 0x0D then [CHR 0x5C, CHR ''r'']
      else if c = NUL then [CHR 0x5C, CHR ''0'', CHR ''0'', CHR ''0'']
      else [c])"

definition quoted :: "string \<Rightarrow> string" where
  "quoted s = [CHR 0x22] @ concat (map addquoted_char s) @ [CHR 0x22]"

definition addquoted :: "lib_env \<Rightarrow> TValue list \<Rightarrow> nat \<Rightarrow> string \<Rightarrow> string res" where
  "addquoted E args arg b = bindr (luaL_checklstring E args arg) (\<lambda>s. Inr (b @ quoted s))"

definition skip_digit :: "string \<Rightarrow> nat \<Rightarrow> nat" where
  "skip_digit s p = (if isdigit (at s p) then p + 1 else p)"

text \<open>The conversion of a format item: the position of its letter and the format for \<open>sprintf\<close>.\<close>

definition scanformat :: "lib_env \<Rightarrow> string \<Rightarrow> nat \<Rightarrow> (nat \<times> string) res" where
  "scanformat E frm p0 =
     (let p = p0 + length (takeWhile (\<lambda>c. c \<in> set FLAGS) (drop p0 frm)) in
      if length FLAGS + 1 \<le> p - p0 then Inl (luaL_error E ''invalid format (repeated flags)'')
      else
        let p = skip_digit frm (skip_digit frm p);
            p = (if at frm p = CHR ''.'' then skip_digit frm (skip_digit frm (p + 1)) else p) in
        if isdigit (at frm p) then Inl (luaL_error E ''invalid format (width or precision too long)'')
        else Inr (p, CHR ''%'' # cstr (take (p - p0 + 1) (drop p0 frm))))"

definition addintlen :: "string \<Rightarrow> string" where
  "addintlen form = butlast form @ LUA_INTFRMLEN @ [last form]"

text \<open>
  \<open>sprintf\<close> of the C library with one argument: an integer, an unsigned one, a number, a C string. The
  cast of a number to an unsigned integer is undefined when it does not fit.
\<close>

record c_sprintf =
  sp_int :: "string \<Rightarrow> int \<Rightarrow> string"
  sp_uint :: "string \<Rightarrow> nat \<Rightarrow> string"
  sp_num :: "string \<Rightarrow> lua_Number \<Rightarrow> string"
  sp_str :: "string \<Rightarrow> string \<Rightarrow> string"

definition cast_ulong :: "lua_Number \<Rightarrow> nat res" where
  "cast_ulong d =
     (if num_isnan d \<or> num_trunc d < 0 \<or> 2 ^ 64 \<le> num_trunc d then Inl ErrUndef else Inr (nat (num_trunc d)))"

text \<open>One item with the conversion letter \<open>c\<close>.\<close>

definition format_item ::
    "c_sprintf \<Rightarrow> lib_env \<Rightarrow> TValue list \<Rightarrow> nat \<Rightarrow> char \<Rightarrow> string \<Rightarrow> string \<Rightarrow> string res" where
  "format_item S E args arg c form b =
     (if c = CHR ''c'' then
        bindr (luaL_checknumber E args arg) (\<lambda>d. Inr (b @ cstr (sp_int S form (lua_number2int d))))
      else if c \<in> set ''di'' then
        bindr (luaL_checknumber E args arg) (\<lambda>d. Inr (b @ cstr (sp_int S (addintlen form) (lua_number2integer d))))
      else if c \<in> set ''ouxX'' then
        bindr (luaL_checknumber E args arg) (\<lambda>d.
        bindr (cast_ulong d) (\<lambda>u. Inr (b @ cstr (sp_uint S (addintlen form) u))))
      else if c \<in> set ''eEfgG'' then
        bindr (luaL_checknumber E args arg) (\<lambda>d. Inr (b @ cstr (sp_num S form d)))
      else if c = CHR ''q'' then addquoted E args arg b
      else if c = CHR ''s'' then
        bindr (luaL_checklstring E args arg) (\<lambda>s.
        if CHR ''.'' \<notin> set form \<and> 100 \<le> length s then Inr (b @ s)
        else Inr (b @ cstr (sp_str S form (cstr s))))
      else Inl (luaL_error E (''invalid option '' @ LUA_QL (CHR ''%'' # cstr [c]) @ '' to '' @ LUA_QL ''format'')))"

lemma scanformat_ge: "scanformat E frm p0 = Inr (p, form) \<Longrightarrow> p0 \<le> p"
  by (auto simp: scanformat_def Let_def skip_digit_def split: if_splits)

function format_loop ::
    "c_sprintf \<Rightarrow> lib_env \<Rightarrow> TValue list \<Rightarrow> string \<Rightarrow> nat \<Rightarrow> nat \<Rightarrow> string \<Rightarrow> string res" where
  "format_loop S E args frm p arg b =
     (if p < length frm then
        if at frm p \<noteq> L_ESC then format_loop S E args frm (p + 1) arg (b @ [at frm p])
        else if at frm (p + 1) = L_ESC then format_loop S E args frm (p + 2) arg (b @ [at frm (p + 1)])
        else
          bindr (scanformat E frm (p + 1)) (\<lambda>(q, form).
          bindr (format_item S E args (arg + 1) (at frm q) form b) (\<lambda>b.
          format_loop S E args frm (q + 1) (arg + 1) b))
      else Inr b)"
  by pat_completeness auto
termination
  by (relation "measure (\<lambda>(S, E, args, frm, p, arg, b). length frm - p)") (auto dest!: scanformat_ge)

declare format_loop.simps [simp del]

definition str_format :: "c_sprintf \<Rightarrow> lib_env \<Rightarrow> 's str_api \<Rightarrow> TValue list \<Rightarrow> 's \<Rightarrow> (TValue list \<times> 's) res" where
  "str_format S E0 A args st =
     (let E = senv E0 A st in
      bindr (luaL_checklstring E args 1) (\<lambda>frm.
      bindr (format_loop S E args frm 0 1 []) (\<lambda>b. spush1 A st b)))"

section \<open>Strings in the interpreter\<close>

definition mem_error :: "lua_error \<Rightarrow> bool" where
  "mem_error e \<longleftrightarrow> e = ErrMem \<or> e = ErrRun ''memory allocation error: block too big''"

text \<open>
  What the library needs of the strings: making one gives a string value with that content, or fails for
  lack of memory, and keeps the contents of the objects in use.
\<close>

locale string_store =
  fixes ok :: "'s \<Rightarrow> bool" and live :: "'s \<Rightarrow> ptr set" and A :: "'s str_api"
  assumes push: "ok st \<Longrightarrow> (\<exists>e. spushlstring A st x = Inl e \<and> mem_error e) \<or>
    (\<exists>p st'. spushlstring A st x = Inr (TStr p, st') \<and> ok st' \<and> p \<in> live st' \<and> scontent A st' p = x \<and>
      live st \<subseteq> live st' \<and> (\<forall>q \<in> live st. scontent A st' q = scontent A st q))"
begin

lemma spush1_cases:
  assumes "ok st"
  shows "(\<exists>e. spush1 A st x = Inl e \<and> mem_error e) \<or>
    (\<exists>p st'. spush1 A st x = Inr ([TStr p], st') \<and> ok st' \<and> scontent A st' p = x)"
  using push [OF assms, of x] by (auto simp: spush1_def)

end

lemma add_s_whole:
  "add_s_loop E A ms ''%0'' 0 s e b st = Inr (b @ take (e - s) (drop s (msrc ms)), st)"
  by (simp add: add_s_loop.simps at_def L_ESC_def isdigit_def code_def)

lemma gsub_loop_whole:
  assumes "s \<le> length src" "index2adr args 3 = Some (TStr r)" "scontent A st r = ''%0''" "b = take s src"
    and "E = senv E0 A st"
  shows "case gsub_loop E A args pat p anchor src max_s s n b st of
      Inl e \<Rightarrow> \<exists>k \<le> length src. match E pat p k \<lparr>msrc = src, captures = []\<rparr> = Inl e
    | Inr (s', n', b', st') \<Rightarrow> b' @ drop s' src = src \<and> n \<le> n' \<and> n' \<le> max n max_s \<and> st' = st"
  using assms
proof (induction E A args pat p anchor src max_s s n b st rule: gsub_loop.induct)
  case (1 E A args pat p anchor src max_s s n b st)
  let ?goal = "\<lambda>n r. case r of Inl e \<Rightarrow> \<exists>k \<le> length src. match E pat p k \<lparr>msrc = src, captures = []\<rparr> = Inl e
    | Inr (s', n', b', st') \<Rightarrow> b' @ drop s' src = src \<and> n \<le> n' \<and> n' \<le> max n max_s \<and> st' = st"
  show ?case
  proof (cases "n < max_s")
    case True
    show ?thesis
    proof (cases "match E pat p s \<lparr>msrc = src, captures = []\<rparr>")
      case (Inl e)
      with True 1(3) show ?thesis by (subst gsub_loop.simps) auto
    next
      case (Inr em)
      then obtain e ms where m: "match E pat p s \<lparr>msrc = src, captures = []\<rparr> = Inr (e, ms)" by (cases em) auto
      have safe: "safe s \<lparr>msrc = src, captures = []\<rparr> (Inr (e, ms))"
        using safe_contD [OF match_safe_cont, of s "\<lparr>msrc = src, captures = []\<rparr>" E pat p] 1(3) m by (simp add: ms_ok_def)
      define n' where "n' = (if e = None then n else n + 1)"
      define b' where "b' = (case e of None \<Rightarrow> b | Some e \<Rightarrow> take e src)"
      have bnd: "(case e of Some e \<Rightarrow> bindr (add_value E A args ms s e b st) (\<lambda>(b, st). Inr (n + 1, b, st))
          | None \<Rightarrow> Inr (n, b, st)) = Inr (n', b', st)"
      proof (cases e)
        case (Some k)
        with safe have k: "s \<le> k" "msrc ms = src" by auto
        have "the (lua_tolstring (senv E A st) args 3) = ''%0''"
          using 1(4,5) by (simp add: lua_tolstring_def arg_value_def senv_def)
        then have "add_value E A args ms s k b st = Inr (b @ take (k - s) (drop s src), st)"
          using 1(4) k(2) by (simp add: add_value_def arg_value_def add_s_def add_s_whole)
        moreover have "b @ take (k - s) (drop s src) = take k src"
          using k(1) 1(3,6) take_add [of s "k - s" src] by simp
        ultimately show ?thesis using Some by (simp add: n'_def b'_def)
      qed (simp add: n'_def b'_def)
      have n': "n \<le> n'" "n' \<le> max n max_s" using True by (auto simp: n'_def)
      have step: "gsub_loop E A args pat p anchor src max_s s n b st =
        (if e \<noteq> None \<and> s < the e then
          if anchor then Inr (the e, n', b', st)
          else gsub_loop E A args pat p anchor src max_s (the e) n' b' st
         else if s < length src then
          if anchor then Inr (s + 1, n', b' @ [src ! s], st)
          else gsub_loop E A args pat p anchor src max_s (s + 1) n' (b' @ [src ! s]) st
         else Inr (s, n', b', st))"
        using True m bnd by (subst gsub_loop.simps) simp
      have mono: "?goal n r" if "?goal n' r" for r
        using that n' by (cases r) (auto split: prod.splits)
      show ?thesis
      proof (cases "e \<noteq> None \<and> s < the e")
        case adv: True
        then obtain k where e: "e = Some k" "s < k" by auto
        with safe have k: "k \<le> length src" "b' = take k src" by (auto simp: ms_ok_def b'_def)
        show ?thesis
        proof (cases anchor)
          case True
          with step e k n' show ?thesis by simp
        next
          case False
          have "?goal n' (gsub_loop E A args pat p anchor src max_s (the e) n' b' st)"
            by (rule 1(1) [OF True m refl bnd refl refl adv False]) (use e k 1(4-7) in auto)
          with step e False mono show ?thesis by simp
        qed
      next
        case stay: False
        have b': "b' = take s src" using stay safe 1(6) by (cases e) (auto simp: b'_def)
        show ?thesis
        proof (cases "s < length src")
          case lt: True
          have b'': "b' @ [src ! s] = take (s + 1) src" using b' lt by (simp add: take_Suc_conv_app_nth)
          show ?thesis
          proof (cases anchor)
            case True
            have "gsub_loop E A args pat p anchor src max_s s n b st = Inr (s + 1, n', take (s + 1) src, st)"
              unfolding step using stay lt True b'' by auto
            with n' show ?thesis by simp
          next
            case False
            have "?goal n' (gsub_loop E A args pat p anchor src max_s (s + 1) n' (b' @ [src ! s]) st)"
              by (rule 1(2) [OF True m refl bnd refl refl stay lt False]) (use lt b'' 1(4-7) in auto)
            with mono show ?thesis unfolding step using stay lt False by auto
          qed
        next
          case False
          with 1(3) have "gsub_loop E A args pat p anchor src max_s s n b st = Inr (s, n', b', st)" "s = length src"
            unfolding step using stay by auto
          with b' n' show ?thesis by simp
        qed
      qed
    qed
  next
    case False
    with 1(3,6) show ?thesis by (subst gsub_loop.simps) simp
  qed
qed

text \<open>
  The strings of \<open>luaS_newlstr\<close> as the API sees them. The allocator gives a free address or fails;
  no memory is asked for when the content has an object.
\<close>

definition object_string :: "strstate \<Rightarrow> ptr \<Rightarrow> string" where
  "object_string g p = (case find (\<lambda>ts. ts_addr ts = p) (all_strings g) of Some ts \<Rightarrow> ts_str ts | None \<Rightarrow> [])"

definition pushlstring :: "(strstate \<Rightarrow> ptr option) \<Rightarrow> strstate \<Rightarrow> string \<Rightarrow> (TValue \<times> strstate) res" where
  "pushlstring alloc g x =
     (if alloc g = None \<and> x \<notin> ts_str ` set (all_strings g) then Inl ErrMem
      else bindr (luaS_newlstr (case alloc g of Some a \<Rightarrow> a | None \<Rightarrow> 0) g x) (\<lambda>(g, ts). Inr (TStr (ts_addr ts), g)))"

definition interned_api ::
    "(strstate \<Rightarrow> ptr option) \<Rightarrow> (strstate \<Rightarrow> nat \<Rightarrow> bool) \<Rightarrow>
     (strstate \<Rightarrow> TValue \<Rightarrow> TValue list \<Rightarrow> (TValue \<times> strstate) res) \<Rightarrow>
     (strstate \<Rightarrow> TValue \<Rightarrow> TValue \<Rightarrow> (TValue \<times> strstate) res) \<Rightarrow> strstate str_api" where
  "interned_api alloc room call gt =
     \<lparr>spushlstring = pushlstring alloc, scontent = object_string, scheckstack = room, scall = call, sgettable = gt\<rparr>"

definition live_strings :: "strstate \<Rightarrow> ptr set" where
  "live_strings g = ts_addr ` set (all_strings g)"

definition strings_ok :: "(strstate \<Rightarrow> ptr option) \<Rightarrow> strstate \<Rightarrow> bool" where
  "strings_ok alloc g \<longleftrightarrow> strt_ok g \<and> addrs_ok g \<and> (\<forall>h a. alloc h = Some a \<longrightarrow> fresh_addr h a)"

lemma object_string_eq:
  assumes "addrs_ok g" "(a, s) \<in># objects g"
  shows "object_string g a = s"
proof -
  obtain ts0 where "ts0 \<in> set (all_strings g)" "ts_addr ts0 = a" using assms(2) by (auto simp: object_iff)
  then have "find (\<lambda>ts. ts_addr ts = a) (all_strings g) \<noteq> None" by (auto simp: find_None_iff)
  then obtain ts where ts: "find (\<lambda>ts. ts_addr ts = a) (all_strings g) = Some ts" by auto
  then have "ts \<in> set (all_strings g)" "ts_addr ts = a" by (auto simp: find_Some_iff)
  then have "(a, ts_str ts) \<in># objects g" by (auto simp: object_iff)
  then show ?thesis using addrs_ok_unique [OF assms(1) _ assms(2)] ts by (simp add: object_string_def)
qed

lemma luaS_newlstr_error: "luaS_newlstr a g x = Inl e \<Longrightarrow> mem_error e"
  by (auto simp: luaS_newlstr_def newlstr_def luaM_toobig_def mem_error_def Let_def split: option.splits if_splits)

lemma pushlstring_law:
  assumes "strings_ok alloc g"
  shows "(\<exists>e. pushlstring alloc g x = Inl e \<and> mem_error e) \<or>
    (\<exists>p g'. pushlstring alloc g x = Inr (TStr p, g') \<and> strings_ok alloc g' \<and> p \<in> live_strings g' \<and>
       object_string g' p = x \<and> live_strings g \<subseteq> live_strings g' \<and>
       (\<forall>q \<in> live_strings g. object_string g' q = object_string g q))"
proof -
  let ?a = "case alloc g of Some a \<Rightarrow> a | None \<Rightarrow> 0"
  have ok: "strt_ok g" "addrs_ok g" "\<And>h a. alloc h = Some a \<Longrightarrow> fresh_addr h a" using assms by (auto simp: strings_ok_def)
  consider "alloc g = None" "x \<notin> ts_str ` set (all_strings g)"
    | e where "\<not> (alloc g = None \<and> x \<notin> ts_str ` set (all_strings g))" "luaS_newlstr ?a g x = Inl e"
    | g' ts where "\<not> (alloc g = None \<and> x \<notin> ts_str ` set (all_strings g))" "luaS_newlstr ?a g x = Inr (g', ts)"
    by (cases "luaS_newlstr ?a g x") auto
  then show ?thesis
  proof cases
    case 1
    then show ?thesis by (simp add: pushlstring_def mem_error_def)
  next
    case 2
    have "pushlstring alloc g x = Inl e" unfolding pushlstring_def if_not_P [OF 2(1)] 2(2) by simp
    with luaS_newlstr_error [OF 2(2)] show ?thesis by blast
  next
    case (3 g' ts)
    have run: "pushlstring alloc g x = Inr (TStr (ts_addr ts), g')" unfolding pushlstring_def if_not_P [OF 3(1)] 3(2) by simp
    note c = luaS_newlstr_cases [OF ok(1) 3(2)]
    have addrs: "addrs_ok g'"
    proof (cases "x \<in> ts_str ` set (all_strings g)")
      case True
      with c have "objects g' = objects g" by simp
      with ok(2) show ?thesis by (simp add: addrs_ok_objects)
    next
      case False
      with 3(1) ok(3) have "fresh_addr g ?a" by (cases "alloc g") auto
      with False c show ?thesis by (intro addrs_ok_add [OF ok(2)]) auto
    qed
    have sub: "y \<in># objects g'" if "y \<in># objects g" for y
      using that c by (cases "x \<in> ts_str ` set (all_strings g)") auto
    have ts: "(ts_addr ts, x) \<in># objects g'" using c by (auto simp: object_iff)
    have keep: "q \<in> live_strings g' \<and> object_string g' q = object_string g q" if "q \<in> live_strings g" for q
    proof -
      from that obtain s where s: "(q, s) \<in># objects g" by (auto simp: live_strings_def object_iff)
      from sub [OF this] have s': "(q, s) \<in># objects g'" .
      then have "q \<in> live_strings g'" by (auto simp: live_strings_def object_iff)
      with object_string_eq [OF ok(2) s] object_string_eq [OF addrs s'] show ?thesis by simp
    qed
    have "strings_ok alloc g'" using c addrs ok(3) by (simp add: strings_ok_def)
    moreover have "ts_addr ts \<in> live_strings g'" using c by (simp add: live_strings_def)
    ultimately show ?thesis using run object_string_eq [OF addrs ts] keep by blast
  qed
qed

interpretation interned: string_store "strings_ok alloc" live_strings "interned_api alloc room call gt"
  for alloc room call gt
  by unfold_locales (use pushlstring_law in \<open>simp add: interned_api_def\<close>)

section \<open>Properties\<close>

text \<open>Strings for the examples: a table of one chain.\<close>

definition ex_string :: "ptr \<Rightarrow> string \<Rightarrow> TString" where
  "ex_string a s = \<lparr>ts_addr = a, ts_marked = 1, ts_reserved = 0, ts_hash = luaS_hash s, ts_str = s\<rparr>"

definition ex_strings :: strstate where
  "ex_strings = \<lparr>g_strt = \<lparr>tb_hash = [[ex_string 16 ''a1b22'', ex_string 24 ''%d+'', ex_string 32 ''%0'']],
     tb_nuse = 3, tb_size = 1\<rparr>, g_currentwhite = 1, g_gcstate = GCSpause, g_udata = []\<rparr>"

lemma ex_strings_ok: "strings_ok (\<lambda>_. None) ex_strings"
proof -
  have "\<exists>k. (1::nat) = 2 ^ k" by (rule exI [of _ 0]) simp
  then show ?thesis
    by (simp add: strings_ok_def strt_ok_def addrs_ok_def all_strings_def ex_strings_def ex_string_def chains_ok_def
        hash_pos_def lmod_def mark_ok_def white_ok_def bit_1_iff MAX_INT_def)
qed

lemma ex_strings_content:
  "object_string ex_strings 16 = ''a1b22''" "object_string ex_strings 24 = ''%d+''" "object_string ex_strings 32 = ''%0''"
  by (simp_all add: object_string_def ex_strings_def all_strings_def ex_string_def)

text \<open>
  C34: \<open>string.gsub(s, p, "%0", m)\<close> gives the subject back, whatever the pattern, with a count between 0
  and \<open>m\<close>; it fails only with an error of the matcher at some position of the subject or for lack of memory.
\<close>

theorem gsub_identity:
  assumes "strings_ok alloc g" "object_string g r = ''%0''" "- (2 ^ 31) \<le> m" "m < 2 ^ 31"
  shows "case str_gsub E (interned_api alloc room call gt) [TStr s, TStr p, TStr r, TNumber (cast_num m)] g of
      Inl e \<Rightarrow> mem_error e \<or> (\<exists>k \<le> length (object_string g s). \<exists>i \<le> 1.
        match (E\<lparr>svalue := object_string g\<rparr>) (object_string g p) i k \<lparr>msrc = object_string g s, captures = []\<rparr> = Inl e)
    | Inr (vs, g') \<Rightarrow> \<exists>q n. vs = [TStr q, pushint n] \<and> object_string g' q = object_string g s \<and> 0 \<le> n \<and> n \<le> max 0 m"
proof -
  let ?A = "interned_api alloc room call gt" and ?args = "[TStr s, TStr p, TStr r, TNumber (cast_num m)]"
  let ?E = "senv E ?A g" and ?src = "object_string g s" and ?p = "object_string g p"
  define anchor where "anchor \<longleftrightarrow> at ?p 0 = CHR ''^''"
  define i :: nat where "i = (if anchor then 1 else 0)"
  have E: "?E = E\<lparr>svalue := object_string g\<rparr>" by (simp add: senv_def interned_api_def)
  have str: "luaL_checklstring ?E ?args 1 = Inr ?src" "luaL_checklstring ?E ?args 2 = Inr ?p"
    by (simp_all add: E luaL_checklstring_def lua_tolstring_def arg_value_def index2adr_def)
  have num: "luaL_optint ?E ?args 4 d = Inr m" for d
    using checkint_number [of ?args 4 m ?E] assms(3,4)
    by (simp add: optint_given lua_isnoneornil_def lua_type_def index2adr_def tag_defs)
  have type: "lua_type ?args 3 = int LUA_TSTRING" by (simp add: lua_type_def index2adr_def)
  have run: "str_gsub E ?A ?args g = bindr (gsub_loop ?E ?A ?args ?p i anchor ?src m 0 0 [] g) (\<lambda>(s, n, b, st).
      bindr (spushlstring ?A st (b @ drop s ?src)) (\<lambda>(v, st). Inr ([v, pushint n], st)))"
    unfolding str_gsub_def Let_def str num type bindr_simps luaL_argcheck_def anchor_def i_def by simp
  have spec: "case gsub_loop ?E ?A ?args ?p i anchor ?src m 0 0 [] g of
      Inl e \<Rightarrow> \<exists>k \<le> length ?src. match ?E ?p i k \<lparr>msrc = ?src, captures = []\<rparr> = Inl e
    | Inr (s', n', b', st') \<Rightarrow> b' @ drop s' ?src = ?src \<and> 0 \<le> n' \<and> n' \<le> max 0 m \<and> st' = g"
  proof (rule gsub_loop_whole)
    show "index2adr ?args 3 = Some (TStr r)" by (simp add: index2adr_def)
    show "scontent ?A g r = ''%0''" using assms(2) by (simp add: interned_api_def)
  qed simp_all
  show ?thesis
  proof (cases "gsub_loop ?E ?A ?args ?p i anchor ?src m 0 0 [] g")
    case (Inl e)
    with spec obtain k where
      k: "k \<le> length ?src" "match ?E ?p i k \<lparr>msrc = ?src, captures = []\<rparr> = Inl e" by auto
    have i: "i \<le> 1" by (simp add: i_def)
    have r: "str_gsub E ?A ?args g = Inl e" unfolding run Inl by simp
    from k i show ?thesis unfolding r E by auto
  next
    case (Inr x)
    obtain s' n' b' st' where x: "x = (s', n', b', st')" by (cases x)
    with Inr spec have
      r: "b' @ drop s' ?src = ?src" "0 \<le> n'" "n' \<le> max 0 m" "st' = g" by auto
    from interned.push [OF assms(1), of room call gt ?src] r show ?thesis
      unfolding run Inr x by (auto simp: interned_api_def)
  qed
qed

lemma gsub_identity_witness:
  "case str_gsub ex_env (interned_api (\<lambda>_. None) (\<lambda>_ _. True) (\<lambda>g _ _. Inr (TNil, g)) (\<lambda>g _ _. Inr (TNil, g)))
      [TStr 16, TStr 24, TStr 32, TNumber (cast_num 9)] ex_strings of
      Inl e \<Rightarrow> mem_error e \<or> (\<exists>k \<le> length (object_string ex_strings 16). \<exists>i \<le> 1.
        match (ex_env\<lparr>svalue := object_string ex_strings\<rparr>) (object_string ex_strings 24) i k
          \<lparr>msrc = object_string ex_strings 16, captures = []\<rparr> = Inl e)
    | Inr (vs, g') \<Rightarrow> \<exists>q n. vs = [TStr q, pushint n] \<and> object_string g' q = object_string ex_strings 16 \<and>
        0 \<le> n \<and> n \<le> max 0 9"
  by (rule gsub_identity [OF ex_strings_ok ex_strings_content(3)]) simp_all

end
