(* ===== verification/LuaLex.thy ===== *)
theory LuaLex
  imports LuaStrLib LuaZio
begin

text \<open>
  The lexical analyzer (llex.c, llex.h). It reads the characters of a stream one at a time and saves the text
  of a token in a buffer. A string made by \<open>luaX_newstring\<close> is given by its content, which has
  one object (\<open>interned_equality\<close>); the locale's decimal point and \<open>strtod\<close> come from outside.
\<close>

section \<open>Tokens\<close>

definition FIRST_RESERVED :: int where "FIRST_RESERVED = 257"

definition luaX_tokens :: "string list" where
  "luaX_tokens = [''and'', ''break'', ''do'', ''else'', ''elseif'', ''end'', ''false'', ''for'', ''function'', ''if'',
     ''in'', ''local'', ''nil'', ''not'', ''or'', ''repeat'', ''return'', ''then'', ''true'', ''until'', ''while'',
     ''..'', ''...'', ''=='', ''>='', ''<='', ''~='', ''<number>'', ''<name>'', ''<string>'', ''<eof>'']"

definition TK_WHILE :: int where "TK_WHILE = FIRST_RESERVED + 20"
definition TK_CONCAT :: int where "TK_CONCAT = FIRST_RESERVED + 21"
definition TK_DOTS :: int where "TK_DOTS = FIRST_RESERVED + 22"
definition TK_EQ :: int where "TK_EQ = FIRST_RESERVED + 23"
definition TK_GE :: int where "TK_GE = FIRST_RESERVED + 24"
definition TK_LE :: int where "TK_LE = FIRST_RESERVED + 25"
definition TK_NE :: int where "TK_NE = FIRST_RESERVED + 26"
definition TK_NUMBER :: int where "TK_NUMBER = FIRST_RESERVED + 27"
definition TK_NAME :: int where "TK_NAME = FIRST_RESERVED + 28"
definition TK_STRING :: int where "TK_STRING = FIRST_RESERVED + 29"
definition TK_EOS :: int where "TK_EOS = FIRST_RESERVED + 30"
definition NUM_RESERVED :: nat where "NUM_RESERVED = nat (TK_WHILE - FIRST_RESERVED + 1)"

datatype SemInfo = SemNone | SemNum lua_Number | SemStr string

record Token =
  token :: int
  seminfo :: SemInfo

record LexState =
  current :: int
  linenumber :: int
  lastline :: int
  tk :: Token             \<comment> \<open>the field \<open>t\<close>\<close>
  lookahead :: Token
  zio :: ZIO
  buff :: string
  buffsize :: nat
  source :: string
  decpoint :: char

text \<open>A character as \<open>current\<close> holds it, the cast back, and the tests of \<open>ctype.h\<close>, false on \<open>EOZ\<close>.\<close>

definition ch :: "char \<Rightarrow> int" where "ch c = int (code c)"
definition to_char :: "int \<Rightarrow> char" where "to_char i = char_of (nat (i mod 256))"
definition ctest :: "(char \<Rightarrow> bool) \<Rightarrow> int \<Rightarrow> bool" where "ctest P i \<longleftrightarrow> 0 \<le> i \<and> P (to_char i)"

section \<open>Errors\<close>

definition MAXSRC :: nat where "MAXSRC = 80"

definition luaX_token2str :: "lib_env \<Rightarrow> int \<Rightarrow> string" where
  "luaX_token2str E t =
     (if t < FIRST_RESERVED then
        if ctest iscntrl t then ''char('' @ fmt_d E t @ '')'' else [to_char t]
      else luaX_tokens ! nat (t - FIRST_RESERVED))"

definition lex_message :: "lib_env \<Rightarrow> LexState \<Rightarrow> string \<Rightarrow> string" where
  "lex_message E ls msg = luaO_chunkid (source ls) MAXSRC @ '':'' @ fmt_d E (linenumber ls) @ '': '' @ msg"

definition save :: "lib_env \<Rightarrow> LexState \<Rightarrow> int \<Rightarrow> LexState res" where
  "save E ls c =
     (if buffsize ls < length (buff ls) + 1 then
        if MAX_SIZET div 2 \<le> buffsize ls then Inl (ErrSyntax (lex_message E ls ''lexical element too long''))
        else Inr (ls\<lparr>buffsize := buffsize ls * 2, buff := buff ls @ [to_char c]\<rparr>)
      else Inr (ls\<lparr>buff := buff ls @ [to_char c]\<rparr>))"

definition txtToken :: "lib_env \<Rightarrow> LexState \<Rightarrow> int \<Rightarrow> string res" where
  "txtToken E ls t =
     (if t = TK_NAME \<or> t = TK_STRING \<or> t = TK_NUMBER
      then bindr (save E ls 0) (\<lambda>ls. Inr (cstr (buff ls)))
      else Inr (luaX_token2str E t))"

definition luaX_lexerror :: "lib_env \<Rightarrow> LexState \<Rightarrow> string \<Rightarrow> int \<Rightarrow> 'a res" where
  "luaX_lexerror E ls msg t =
     (let msg = lex_message E ls msg in
      if t \<noteq> 0 then bindr (txtToken E ls t) (\<lambda>x. Inl (ErrSyntax (msg @ '' near '' @ LUA_QL x)))
      else Inl (ErrSyntax msg))"

definition luaX_syntaxerror :: "lib_env \<Rightarrow> LexState \<Rightarrow> string \<Rightarrow> 'a res" where
  "luaX_syntaxerror E ls msg = luaX_lexerror E ls msg (token (tk ls))"

section \<open>Reading characters\<close>

definition lex_next :: "LexState \<Rightarrow> LexState res" where
  "lex_next ls = bindr (zgetc (zio ls)) (\<lambda>(z, c). Inr (ls\<lparr>zio := z, current := c\<rparr>))"

definition currIsNewline :: "LexState \<Rightarrow> bool" where
  "currIsNewline ls \<longleftrightarrow> current ls = ch (CHR 0x0A) \<or> current ls = ch (CHR 0x0D)"

definition save_and_next :: "lib_env \<Rightarrow> LexState \<Rightarrow> LexState res" where
  "save_and_next E ls = bindr (save E ls (current ls)) lex_next"

definition luaZ_resetbuffer :: "LexState \<Rightarrow> LexState" where
  "luaZ_resetbuffer ls = ls\<lparr>buff := []\<rparr>"

definition inclinenumber :: "lib_env \<Rightarrow> LexState \<Rightarrow> LexState res" where
  "inclinenumber E ls =
     (let old = current ls in
      bindr (lex_next ls) (\<lambda>ls.
      bindr (if currIsNewline ls \<and> current ls \<noteq> old then lex_next ls else Inr ls) (\<lambda>ls.
      let ls = ls\<lparr>linenumber := linenumber ls + 1\<rparr> in
      if int MAX_INT \<le> linenumber ls then luaX_syntaxerror E ls ''chunk has too many lines'' else Inr ls)))"

definition luaX_setinput :: "LexState \<Rightarrow> ZIO \<Rightarrow> string \<Rightarrow> LexState res" where
  "luaX_setinput ls z src =
     lex_next (ls\<lparr>decpoint := CHR ''.'', lookahead := (lookahead ls)\<lparr>token := TK_EOS\<rparr>, zio := z,
       linenumber := 1, lastline := 1, source := src, buffsize := LUA_MINBUFFER\<rparr>)"

text \<open>\<open>strchr\<close> finds the terminating NUL of the set, too.\<close>

definition check_next :: "lib_env \<Rightarrow> LexState \<Rightarrow> string \<Rightarrow> (bool \<times> LexState) res" where
  "check_next E ls st =
     (if to_char (current ls) \<notin> set st \<union> {NUL} then Inr (False, ls)
      else bindr (save_and_next E ls) (\<lambda>ls. Inr (True, ls)))"

text \<open>What the stream may still give, counting the character read.\<close>

definition left_over :: "LexState \<Rightarrow> nat" where
  "left_over ls = length (z_p (zio ls)) + length (concat (z_reader (zio ls))) + (if current ls = EOZ then 0 else 1)"

lemma zgetc_left:
  "zgetc z = Inr (z', c) \<Longrightarrow>
    length (z_p z') + length (concat (z_reader z')) + (if c = EOZ then 0 else 1) \<le> length (z_p z) + length (concat (z_reader z))"
  by (auto simp: zgetc_def luaZ_fill_def Let_def split: if_splits list.splits)

lemma lex_next_less: "lex_next ls = Inr ls' \<Longrightarrow> current ls \<noteq> EOZ \<Longrightarrow> left_over ls' < left_over ls"
  using zgetc_left by (fastforce simp: lex_next_def bindr_Inr_iff left_over_def)

lemma lex_next_le: "lex_next ls = Inr ls' \<Longrightarrow> left_over ls' \<le> left_over ls"
  using zgetc_left by (fastforce simp: lex_next_def bindr_Inr_iff left_over_def)

lemma save_keeps:
  "save E ls c = Inr ls' \<Longrightarrow> zio ls' = zio ls \<and> current ls' = current ls \<and> left_over ls' = left_over ls"
  by (auto simp: save_def left_over_def split: if_splits)

lemma save_and_next_less: "save_and_next E ls = Inr ls' \<Longrightarrow> current ls \<noteq> EOZ \<Longrightarrow> left_over ls' < left_over ls"
  by (auto simp: save_and_next_def bindr_Inr_iff dest!: save_keeps lex_next_less)

lemma save_and_next_le: "save_and_next E ls = Inr ls' \<Longrightarrow> left_over ls' \<le> left_over ls"
  by (auto simp: save_and_next_def bindr_Inr_iff dest!: save_keeps lex_next_le)

lemma luaX_lexerror_Inr [simp]: "luaX_lexerror E ls msg t \<noteq> Inr x"
  by (auto simp: luaX_lexerror_def Let_def bindr_Inr_iff)

lemma inclinenumber_less: "inclinenumber E ls = Inr ls' \<Longrightarrow> current ls \<noteq> EOZ \<Longrightarrow> left_over ls' < left_over ls"
proof -
  assume r: "inclinenumber E ls = Inr ls'" and c: "current ls \<noteq> EOZ"
  from r obtain l1 l2 where l: "lex_next ls = Inr l1"
    "(if currIsNewline l1 \<and> current l1 \<noteq> current ls then lex_next l1 else Inr l1) = Inr l2"
    and e: "(if int MAX_INT \<le> linenumber (l2\<lparr>linenumber := linenumber l2 + 1\<rparr>)
      then luaX_syntaxerror E (l2\<lparr>linenumber := linenumber l2 + 1\<rparr>) ''chunk has too many lines''
      else Inr (l2\<lparr>linenumber := linenumber l2 + 1\<rparr>)) = Inr ls'"
    unfolding inclinenumber_def Let_def bindr_Inr_iff by blast
  from e have "ls' = l2\<lparr>linenumber := linenumber l2 + 1\<rparr>" by (simp add: luaX_syntaxerror_def split: if_splits)
  have "left_over l2 \<le> left_over l1" using l(2) lex_next_le by (auto split: if_splits)
  with lex_next_less [OF l(1) c] \<open>ls' = _\<close> show ?thesis by (simp add: left_over_def)
qed

lemma ctest_EOZ [simp]: "\<not> ctest P EOZ"
  by (simp add: ctest_def EOZ_def)

lemma ch_not_EOZ [simp]: "ch c \<noteq> EOZ" "EOZ \<noteq> ch c"
  by (auto simp: ch_def EOZ_def)

section \<open>Numerals\<close>

text \<open>\<open>while (P(ls->current)) save_and_next(ls)\<close>\<close>

function save_while :: "lib_env \<Rightarrow> (char \<Rightarrow> bool) \<Rightarrow> LexState \<Rightarrow> LexState res" where
  "save_while E P ls =
     (if ctest P (current ls) then bindr (save_and_next E ls) (\<lambda>ls. save_while E P ls) else Inr ls)"
  by pat_completeness auto
termination
  by (relation "measure (\<lambda>(E, P, ls). left_over ls)") (auto dest!: save_and_next_less simp: ctest_def EOZ_def)

declare save_while.simps [simp del]

definition buffreplace :: "LexState \<Rightarrow> char \<Rightarrow> char \<Rightarrow> LexState" where
  "buffreplace ls old new = ls\<lparr>buff := map (\<lambda>c. if c = old then new else c) (buff ls)\<rparr>"

text \<open>\<open>cv\<close> is the decimal point of \<open>localeconv\<close>.\<close>

definition trydecpoint :: "lib_env \<Rightarrow> char \<Rightarrow> LexState \<Rightarrow> (lua_Number \<times> LexState) res" where
  "trydecpoint E cv ls =
     (let old = decpoint ls;
          ls = ls\<lparr>decpoint := cv\<rparr>;
          ls = buffreplace ls old (decpoint ls) in
      case luaO_str2d E (buff ls) of
        None \<Rightarrow> luaX_lexerror E (buffreplace ls (decpoint ls) (CHR ''.'')) ''malformed number'' TK_NUMBER
      | Some r \<Rightarrow> Inr (r, ls))"

definition read_numeral :: "lib_env \<Rightarrow> char \<Rightarrow> LexState \<Rightarrow> (lua_Number \<times> LexState) res" where
  "read_numeral E cv ls =
     bindr (save_and_next E ls) (\<lambda>ls.
     bindr (save_while E (\<lambda>c. isdigit c \<or> c = CHR ''.'') ls) (\<lambda>ls.
     bindr (check_next E ls ''Ee'') (\<lambda>(e, ls).
     bindr (if e then bindr (check_next E ls ''+-'') (\<lambda>(_, ls). Inr ls) else Inr ls) (\<lambda>ls.
     bindr (save_while E (\<lambda>c. isalnum c \<or> c = CHR ''_'') ls) (\<lambda>ls.
     bindr (save E ls 0) (\<lambda>ls.
     let ls = buffreplace ls (CHR ''.'') (decpoint ls) in
     case luaO_str2d E (buff ls) of
       None \<Rightarrow> trydecpoint E cv ls
     | Some r \<Rightarrow> Inr (r, ls)))))))"

section \<open>Strings\<close>

function skip_eq :: "lib_env \<Rightarrow> int \<Rightarrow> LexState \<Rightarrow> (int \<times> LexState) res" where
  "skip_eq E cnt ls =
     (if current ls = ch (CHR ''='') then bindr (save_and_next E ls) (\<lambda>ls. skip_eq E (cnt + 1) ls)
      else Inr (cnt, ls))"
  by pat_completeness auto
termination
  by (relation "measure (\<lambda>(E, n, ls). left_over ls)") (auto dest!: save_and_next_less)

declare skip_eq.simps [simp del]

definition skip_sep :: "lib_env \<Rightarrow> LexState \<Rightarrow> (int \<times> LexState) res" where
  "skip_sep E ls =
     (let s = current ls in
      bindr (save_and_next E ls) (\<lambda>ls.
      bindr (skip_eq E 0 ls) (\<lambda>(cnt, ls).
      Inr (if current ls = s then cnt else - cnt - 1, ls))))"

lemma skip_eq_le: "skip_eq E n ls = Inr (k, ls') \<Longrightarrow> left_over ls' \<le> left_over ls"
proof (induction E n ls rule: skip_eq.induct)
  case (1 E n ls)
  show ?case
  proof (cases "current ls = ch (CHR ''='')")
    case True
    with 1(2) obtain l1 where l: "save_and_next E ls = Inr l1" "skip_eq E (n + 1) l1 = Inr (k, ls')"
      by (subst (asm) skip_eq.simps) (auto simp: bindr_Inr_iff)
    from 1(1) [OF True l] save_and_next_le [OF l(1)] show ?thesis by simp
  qed (use 1(2) in \<open>subst (asm) skip_eq.simps, simp\<close>)
qed

lemma left_over_reset [simp]: "left_over (luaZ_resetbuffer ls) = left_over ls" "current (luaZ_resetbuffer ls) = current ls"
  by (simp_all add: luaZ_resetbuffer_def left_over_def)

lemma skip_sep_less: "skip_sep E ls = Inr (n, ls') \<Longrightarrow> current ls \<noteq> EOZ \<Longrightarrow> left_over ls' < left_over ls"
  by (fastforce simp: skip_sep_def Let_def bindr_Inr_iff dest: skip_eq_le save_and_next_less)

text \<open>\<open>is_str\<close> is false for a comment, whose text is not kept.\<close>

function long_loop :: "lib_env \<Rightarrow> bool \<Rightarrow> int \<Rightarrow> LexState \<Rightarrow> LexState res" where
  "long_loop E is_str sep ls =
     (if current ls = EOZ then
        luaX_lexerror E ls (if is_str then ''unfinished long string'' else ''unfinished long comment'') TK_EOS
      else if current ls = ch (CHR ''['') then
        bindr (skip_sep E ls) (\<lambda>(n, ls').
        if n = sep then
          bindr (save_and_next E ls') (\<lambda>ls'.
          if sep = 0 then luaX_lexerror E ls' ''nesting of [[...]] is deprecated'' (ch (CHR ''[''))
          else long_loop E is_str sep ls')
        else long_loop E is_str sep ls')
      else if current ls = ch (CHR '']'') then
        bindr (skip_sep E ls) (\<lambda>(n, ls').
        if n = sep then save_and_next E ls' else long_loop E is_str sep ls')
      else if currIsNewline ls then
        bindr (save E ls (ch (CHR 0x0A))) (\<lambda>ls'.
        bindr (inclinenumber E ls') (\<lambda>ls'.
        long_loop E is_str sep (if is_str then ls' else luaZ_resetbuffer ls')))
      else
        bindr (if is_str then save_and_next E ls else lex_next ls) (\<lambda>ls'. long_loop E is_str sep ls'))"
  by pat_completeness auto
termination
proof (relation "measure (\<lambda>(E, b, sep, ls). left_over ls)", goal_cases)
  case (2 E b sep ls x n l1 l2)
  then have "left_over l1 < left_over ls" using skip_sep_less [of E ls n l1] by auto
  moreover have "left_over l2 \<le> left_over l1" using 2 save_and_next_le by blast
  ultimately show ?case by simp
next
  case (5 E b sep ls l1 l2)
  then have "left_over l2 < left_over l1" "left_over l1 = left_over ls" using save_keeps inclinenumber_less by metis+
  then show ?case by simp
qed (auto dest!: skip_sep_less save_and_next_less lex_next_less split: if_splits)

declare long_loop.simps [simp del]

definition read_long_string :: "lib_env \<Rightarrow> LexState \<Rightarrow> bool \<Rightarrow> int \<Rightarrow> (string option \<times> LexState) res" where
  "read_long_string E ls is_str sep =
     bindr (save_and_next E ls) (\<lambda>ls.
     bindr (if currIsNewline ls then inclinenumber E ls else Inr ls) (\<lambda>ls.
     bindr (long_loop E is_str sep ls) (\<lambda>ls.
     let n = nat (2 + sep) in
     Inr (if is_str then Some (take (length (buff ls) - 2 * n) (drop n (buff ls))) else None, ls))))"

text \<open>The digits of an escape \<open>\ddd\<close>: at least one, at most three.\<close>

fun esc_digits :: "nat \<Rightarrow> int \<Rightarrow> LexState \<Rightarrow> (int \<times> LexState) res" where
  "esc_digits 0 c ls = Inr (c, ls)"
| "esc_digits (Suc n) c ls =
     (let c = 10 * c + (current ls - ch (CHR ''0'')) in
      bindr (lex_next ls) (\<lambda>ls.
      if n \<noteq> 0 \<and> ctest isdigit (current ls) then esc_digits n c ls else Inr (c, ls)))"

text \<open>The letters of the escapes with a fixed character.\<close>

definition escape_char :: "int \<Rightarrow> char option" where
  "escape_char c =
     (if c = ch (CHR ''a'') then Some (CHR 0x07) else if c = ch (CHR ''b'') then Some (CHR 0x08)
      else if c = ch (CHR ''f'') then Some (CHR 0x0C) else if c = ch (CHR ''n'') then Some (CHR 0x0A)
      else if c = ch (CHR ''r'') then Some (CHR 0x0D) else if c = ch (CHR ''t'') then Some (CHR 0x09)
      else if c = ch (CHR ''v'') then Some (CHR 0x0B) else None)"

text \<open>An escape sequence, from the character after the backslash.\<close>

definition read_escape :: "lib_env \<Rightarrow> LexState \<Rightarrow> LexState res" where
  "read_escape E ls =
     (case escape_char (current ls) of
        Some c \<Rightarrow> bindr (save E ls (ch c)) (\<lambda>ls. lex_next ls)
      | None \<Rightarrow>
          if currIsNewline ls then bindr (save E ls (ch (CHR 0x0A))) (\<lambda>ls. inclinenumber E ls)
          else if current ls = EOZ then Inr ls
          else if \<not> ctest isdigit (current ls) then save_and_next E ls
          else
            bindr (esc_digits 3 0 ls) (\<lambda>(c, ls).
            if 255 < c then luaX_lexerror E ls ''escape sequence too large'' TK_STRING else save E ls c))"

lemma esc_digits_le: "esc_digits n c ls = Inr (c', ls') \<Longrightarrow> left_over ls' \<le> left_over ls"
proof (induction n c ls rule: esc_digits.induct)
  case (2 n c ls)
  from 2(2) obtain l1 where l1: "lex_next ls = Inr l1" by (auto simp: Let_def bindr_Inr_iff)
  with 2 have "left_over ls' \<le> left_over l1" by (auto simp: Let_def split: if_splits)
  with lex_next_le [OF l1] show ?case by simp
qed simp

lemma read_escape_le: "read_escape E ls = Inr ls' \<Longrightarrow> left_over ls' \<le> left_over ls"
proof -
  have incl: "left_over l2 \<le> left_over l1" if "inclinenumber E l1 = Inr l2" "currIsNewline l1" for l1 l2
    using inclinenumber_less [OF that(1)] that(2) by (auto simp: currIsNewline_def)
  assume "read_escape E ls = Inr ls'"
  then show ?thesis
    using incl
    by (fastforce simp: read_escape_def bindr_Inr_iff currIsNewline_def split: option.splits if_splits
        dest: save_keeps lex_next_le save_and_next_le esc_digits_le)
qed

function string_loop :: "lib_env \<Rightarrow> int \<Rightarrow> LexState \<Rightarrow> LexState res" where
  "string_loop E del ls =
     (if current ls \<noteq> del then
        if current ls = EOZ then luaX_lexerror E ls ''unfinished string'' TK_EOS
        else if currIsNewline ls then luaX_lexerror E ls ''unfinished string'' TK_STRING
        else if current ls = ch (CHR 0x5C) then
          bindr (lex_next ls) (\<lambda>ls1.
          bindr (read_escape E ls1) (\<lambda>ls2. string_loop E del ls2))
        else bindr (save_and_next E ls) (\<lambda>ls1. string_loop E del ls1)
      else Inr ls)"
  by pat_completeness auto
termination
proof (relation "measure (\<lambda>(E, del, ls). left_over ls)", goal_cases)
  case (2 E del ls l1 l2)
  then have "left_over l1 < left_over ls" "left_over l2 \<le> left_over l1" using lex_next_less read_escape_le by blast+
  then show ?case by simp
qed (auto dest!: save_and_next_less)

declare string_loop.simps [simp del]

definition read_string :: "lib_env \<Rightarrow> LexState \<Rightarrow> int \<Rightarrow> (string \<times> LexState) res" where
  "read_string E ls del =
     bindr (save_and_next E ls) (\<lambda>ls.
     bindr (string_loop E del ls) (\<lambda>ls.
     bindr (save_and_next E ls) (\<lambda>ls.
     Inr (take (length (buff ls) - 2) (drop 1 (buff ls)), ls))))"

section \<open>The analyzer\<close>

text \<open>The field \<open>reserved\<close> that \<open>luaX_init\<close> sets in the object of a reserved word.\<close>

definition reserved :: "string \<Rightarrow> nat" where
  "reserved s = (case find_option s (take NUM_RESERVED luaX_tokens) 0 of Some i \<Rightarrow> i + 1 | None \<Rightarrow> 0)"

function skip_line :: "LexState \<Rightarrow> LexState res" where
  "skip_line ls =
     (if \<not> currIsNewline ls \<and> current ls \<noteq> EOZ then bindr (lex_next ls) (\<lambda>ls. skip_line ls) else Inr ls)"
  by pat_completeness auto
termination by (relation "measure left_over") (auto dest!: lex_next_less)

declare skip_line.simps [simp del]

text \<open>A comment, from the character after \<open>--\<close>.\<close>

definition skip_comment :: "lib_env \<Rightarrow> LexState \<Rightarrow> LexState res" where
  "skip_comment E ls =
     (if current ls = ch (CHR ''['') then
        bindr (skip_sep E ls) (\<lambda>(sep, ls).
        let ls = luaZ_resetbuffer ls in
        if 0 \<le> sep then bindr (read_long_string E ls False sep) (\<lambda>(_, ls). Inr (luaZ_resetbuffer ls))
        else skip_line ls)
      else skip_line ls)"

text \<open>An operator of one character or two: \<open>=\<close>, \<open><\<close>, \<open>>\<close> and \<open>~\<close>.\<close>

definition two_char :: "LexState \<Rightarrow> char \<Rightarrow> int \<Rightarrow> SemInfo \<Rightarrow> (int \<times> SemInfo \<times> LexState) res" where
  "two_char ls c t2 sem =
     bindr (lex_next ls) (\<lambda>ls.
     if current ls \<noteq> ch (CHR ''='') then Inr (ch c, sem, ls)
     else bindr (lex_next ls) (\<lambda>ls. Inr (t2, sem, ls)))"

text \<open>A token that does not start with a space or a minus sign.\<close>

definition lex_token :: "lib_env \<Rightarrow> char \<Rightarrow> LexState \<Rightarrow> SemInfo \<Rightarrow> (int \<times> SemInfo \<times> LexState) res" where
  "lex_token E cv ls sem =
     (let c = current ls in
      if c = ch (CHR ''['') then
        bindr (skip_sep E ls) (\<lambda>(sep, ls).
        if 0 \<le> sep then
          bindr (read_long_string E ls True sep) (\<lambda>(s, ls). Inr (TK_STRING, SemStr (the s), ls))
        else if sep = - 1 then Inr (ch (CHR ''[''), sem, ls)
        else luaX_lexerror E ls ''invalid long string delimiter'' TK_STRING)
      else if c = ch (CHR ''='') then two_char ls (CHR ''='') TK_EQ sem
      else if c = ch (CHR ''<'') then two_char ls (CHR ''<'') TK_LE sem
      else if c = ch (CHR ''>'') then two_char ls (CHR ''>'') TK_GE sem
      else if c = ch (CHR ''~'') then two_char ls (CHR ''~'') TK_NE sem
      else if c = ch (CHR 0x22) \<or> c = ch (CHR 0x27) then
        bindr (read_string E ls c) (\<lambda>(s, ls). Inr (TK_STRING, SemStr s, ls))
      else if c = ch (CHR ''.'') then
        bindr (save_and_next E ls) (\<lambda>ls.
        bindr (check_next E ls ''.'') (\<lambda>(two, ls).
        if two then
          bindr (check_next E ls ''.'') (\<lambda>(three, ls). Inr (if three then TK_DOTS else TK_CONCAT, sem, ls))
        else if \<not> ctest isdigit (current ls) then Inr (ch (CHR ''.''), sem, ls)
        else bindr (read_numeral E cv ls) (\<lambda>(r, ls). Inr (TK_NUMBER, SemNum r, ls))))
      else if c = EOZ then Inr (TK_EOS, sem, ls)
      else if ctest isdigit c then bindr (read_numeral E cv ls) (\<lambda>(r, ls). Inr (TK_NUMBER, SemNum r, ls))
      else if ctest (\<lambda>c. isalpha c \<or> c = CHR ''_'') c then
        bindr (save_and_next E ls) (\<lambda>ls.
        bindr (save_while E (\<lambda>c. isalnum c \<or> c = CHR ''_'') ls) (\<lambda>ls.
        let ts = buff ls in
        if 0 < reserved ts then Inr (int (reserved ts) - 1 + FIRST_RESERVED, sem, ls)
        else Inr (TK_NAME, SemStr ts, ls)))
      else bindr (lex_next ls) (\<lambda>ls. Inr (c, sem, ls)))"

lemma skip_line_le: "skip_line ls = Inr ls' \<Longrightarrow> left_over ls' \<le> left_over ls"
proof (induction ls rule: skip_line.induct)
  case (1 ls)
  show ?case
  proof (cases "\<not> currIsNewline ls \<and> current ls \<noteq> EOZ")
    case True
    with 1(2) obtain l1 where l: "lex_next ls = Inr l1" "skip_line l1 = Inr ls'"
      by (subst (asm) skip_line.simps) (auto simp: bindr_Inr_iff)
    from 1(1) [OF True l] lex_next_le [OF l(1)] show ?thesis by simp
  qed (use 1(2) in \<open>subst (asm) skip_line.simps, auto split: if_splits\<close>)
qed

lemma inclinenumber_le: "inclinenumber E ls = Inr ls' \<Longrightarrow> currIsNewline ls \<Longrightarrow> left_over ls' \<le> left_over ls"
  using inclinenumber_less by (fastforce simp: currIsNewline_def)

lemma long_loop_le: "long_loop E is_str sep ls = Inr ls' \<Longrightarrow> left_over ls' \<le> left_over ls"
proof (induction E is_str sep ls rule: long_loop.induct)
  case (1 E is_str sep ls)
  note IH = 1(1-5) and run = 1(6)
  consider "current ls = EOZ" | "current ls = ch (CHR ''['')" | "current ls = ch (CHR '']'')"
    | "current ls \<noteq> EOZ" "current ls \<noteq> ch (CHR ''['')" "current ls \<noteq> ch (CHR '']'')" "currIsNewline ls"
    | "current ls \<noteq> EOZ" "current ls \<noteq> ch (CHR ''['')" "current ls \<noteq> ch (CHR '']'')" "\<not> currIsNewline ls" by blast
  then show ?case
  proof cases
    case 1
    with run show ?thesis by (subst (asm) long_loop.simps) simp
  next
    case 2
    then have ne: "current ls \<noteq> EOZ" by simp
    obtain n l1 where s: "skip_sep E ls = Inr (n, l1)" using run 2
      by (subst (asm) long_loop.simps) (auto simp: bindr_Inr_iff)
    from skip_sep_less [OF s ne] have l1: "left_over l1 < left_over ls" .
    show ?thesis
    proof (cases "n = sep")
      case True
      with run 2 s ne obtain l2 where l2: "save_and_next E l1 = Inr l2" "sep \<noteq> 0" "long_loop E is_str sep l2 = Inr ls'"
        by (subst (asm) long_loop.simps) (auto simp: bindr_Inr_iff split: if_splits)
      from IH(1) [OF ne 2 s refl True l2] save_and_next_le [OF l2(1)] l1 show ?thesis by simp
    next
      case False
      with run 2 s ne have "long_loop E is_str sep l1 = Inr ls'" by (subst (asm) long_loop.simps) simp
      from IH(2) [OF ne 2 s refl False this] l1 show ?thesis by simp
    qed
  next
    case 3
    then have ne: "current ls \<noteq> EOZ" "current ls \<noteq> ch (CHR ''['')" by (simp_all add: ch_def code_def EOZ_def)
    obtain n l1 where s: "skip_sep E ls = Inr (n, l1)" using run 3 ne
      by (subst (asm) long_loop.simps) (auto simp: bindr_Inr_iff)
    from skip_sep_less [OF s ne(1)] have l1: "left_over l1 < left_over ls" .
    show ?thesis
    proof (cases "n = sep")
      case True
      with run 3 s ne have "save_and_next E l1 = Inr ls'" by (subst (asm) long_loop.simps) simp
      from save_and_next_le [OF this] l1 show ?thesis by simp
    next
      case False
      with run 3 s ne have "long_loop E is_str sep l1 = Inr ls'" by (subst (asm) long_loop.simps) simp
      from IH(3) [OF ne 3 s refl False this] l1 show ?thesis by simp
    qed
  next
    case 4
    from run 4 obtain l1 l2 where l: "save E ls (ch (CHR 0x0A)) = Inr l1" "inclinenumber E l1 = Inr l2"
      "long_loop E is_str sep (if is_str then l2 else luaZ_resetbuffer l2) = Inr ls'"
      by (subst (asm) long_loop.simps) (auto simp: bindr_Inr_iff)
    from save_keeps [OF l(1)] 4(1) have "current l1 \<noteq> EOZ" "left_over l1 = left_over ls" by auto
    with inclinenumber_less [OF l(2)] have "left_over l2 \<le> left_over ls" by simp
    with IH(4) [OF 4 l] show ?thesis by (simp split: if_splits)
  next
    case 5
    from run 5 obtain l1 where l: "(if is_str then save_and_next E ls else lex_next ls) = Inr l1"
      "long_loop E is_str sep l1 = Inr ls'"
      by (subst (asm) long_loop.simps) (auto simp: bindr_Inr_iff)
    have "left_over l1 \<le> left_over ls" using l(1) save_and_next_le lex_next_le by (auto split: if_splits)
    with IH(5) [OF 5 l] show ?thesis by simp
  qed
qed

lemma read_long_string_le: "read_long_string E ls b sep = Inr (r, ls') \<Longrightarrow> left_over ls' \<le> left_over ls"
proof -
  assume "read_long_string E ls b sep = Inr (r, ls')"
  then obtain l1 l2 where l: "save_and_next E ls = Inr l1"
    "(if currIsNewline l1 then inclinenumber E l1 else Inr l1) = Inr l2" "long_loop E b sep l2 = Inr ls'"
    by (auto simp: read_long_string_def bindr_Inr_iff Let_def)
  have "left_over l2 \<le> left_over l1" using l(2) inclinenumber_le by (auto split: if_splits)
  with save_and_next_le [OF l(1)] long_loop_le [OF l(3)] show ?thesis by simp
qed

lemma skip_comment_le: "skip_comment E ls = Inr ls' \<Longrightarrow> left_over ls' \<le> left_over ls"
proof -
  assume r: "skip_comment E ls = Inr ls'"
  show ?thesis
  proof (cases "current ls = ch (CHR ''['')")
    case True
    with r obtain sep l1 where s: "skip_sep E ls = Inr (sep, l1)"
      "(if 0 \<le> sep then bindr (read_long_string E (luaZ_resetbuffer l1) False sep) (\<lambda>(_, ls). Inr (luaZ_resetbuffer ls))
        else skip_line (luaZ_resetbuffer l1)) = Inr ls'"
      by (auto simp: skip_comment_def bindr_Inr_iff Let_def)
    have "left_over ls' \<le> left_over l1"
      using s(2) read_long_string_le [of E "luaZ_resetbuffer l1" False sep] skip_line_le [of "luaZ_resetbuffer l1"]
      by (auto simp: bindr_Inr_iff split: if_splits)
    with skip_sep_less [OF s(1)] True show ?thesis by simp
  qed (use r skip_line_le in \<open>simp add: skip_comment_def\<close>)
qed

text \<open>The loop over spaces and comments.\<close>

function lex_loop :: "lib_env \<Rightarrow> char \<Rightarrow> LexState \<Rightarrow> SemInfo \<Rightarrow> (int \<times> SemInfo \<times> LexState) res" where
  "lex_loop E cv ls sem =
     (if currIsNewline ls then bindr (inclinenumber E ls) (\<lambda>ls. lex_loop E cv ls sem)
      else if current ls = ch (CHR ''-'') then
        bindr (lex_next ls) (\<lambda>ls1.
        if current ls1 \<noteq> ch (CHR ''-'') then Inr (ch (CHR ''-''), sem, ls1)
        else
          bindr (lex_next ls1) (\<lambda>ls2.
          bindr (skip_comment E ls2) (\<lambda>ls3. lex_loop E cv ls3 sem)))
      else if ctest isspace (current ls) then bindr (lex_next ls) (\<lambda>ls. lex_loop E cv ls sem)
      else lex_token E cv ls sem)"
  by pat_completeness auto
termination
proof (relation "measure (\<lambda>(E, cv, ls, sem). left_over ls)", goal_cases)
  case (2 E cv ls sem l1)
  then show ?case using inclinenumber_less by (auto simp: currIsNewline_def)
next
  case (3 E cv ls sem l1 l2 l3)
  then have "left_over l1 < left_over ls" "left_over l2 \<le> left_over l1" "left_over l3 \<le> left_over l2"
    using lex_next_less [of ls l1] lex_next_le skip_comment_le by auto
  then show ?case by simp
next
  case (4 E cv ls sem l1)
  then have "current ls \<noteq> EOZ" by auto
  with 4 lex_next_less show ?case by simp
qed simp

declare lex_loop.simps [simp del]

definition llex :: "lib_env \<Rightarrow> char \<Rightarrow> LexState \<Rightarrow> SemInfo \<Rightarrow> (int \<times> SemInfo \<times> LexState) res" where
  "llex E cv ls sem = lex_loop E cv (luaZ_resetbuffer ls) sem"

definition luaX_next :: "lib_env \<Rightarrow> char \<Rightarrow> LexState \<Rightarrow> LexState res" where
  "luaX_next E cv ls =
     (let ls = ls\<lparr>lastline := linenumber ls\<rparr> in
      if token (lookahead ls) \<noteq> TK_EOS then
        Inr (ls\<lparr>tk := lookahead ls, lookahead := (lookahead ls)\<lparr>token := TK_EOS\<rparr>\<rparr>)
      else
        bindr (llex E cv ls (seminfo (tk ls))) (\<lambda>(t, sem, ls).
        Inr (ls\<lparr>tk := \<lparr>token = t, seminfo = sem\<rparr>\<rparr>)))"

definition luaX_lookahead :: "lib_env \<Rightarrow> char \<Rightarrow> LexState \<Rightarrow> LexState res" where
  "luaX_lookahead E cv ls =
     bindr (llex E cv ls (seminfo (lookahead ls))) (\<lambda>(t, sem, ls).
     Inr (ls\<lparr>lookahead := \<lparr>token = t, seminfo = sem\<rparr>\<rparr>))"

section \<open>Feeding the analyzer\<close>

definition to_byte :: "char \<Rightarrow> lu_byte" where "to_byte c = word_of_nat (code c)"

text \<open>The current character and the stream hold the characters \<open>cs\<close> up to the end of input.\<close>

definition feeds :: "LexState \<Rightarrow> string \<Rightarrow> bool" where
  "feeds ls cs \<longleftrightarrow> (case cs of
       [] \<Rightarrow> current ls = EOZ
     | c # cs \<Rightarrow> current ls = ch c \<and> zio_ok (zio ls) \<and> stream (zio ls) = map to_byte cs)"

lemma code_lt: "code c < 256"
  by (simp add: code_def)

lemma to_char_ch [simp]: "to_char (ch c) = c"
  using code_lt [of c] by (simp add: to_char_def ch_def) (simp add: code_def)

lemma char2int_to_byte: "char2int (to_byte c) = ch c"
  using code_lt [of c] by (simp add: char2int_def to_byte_def ch_def uint_nat unat_of_nat_lt del: of_nat_unat)

lemma ch_inject [simp]: "ch c = ch d \<longleftrightarrow> c = d"
  by (simp add: ch_def code_def)

lemma ctest_ch [simp]: "ctest P (ch c) = P c"
  by (simp add: ctest_def) (simp add: ch_def)

lemma zgetc_spec:
  assumes "zio_ok z"
  shows "\<exists>z' c. zgetc z = Inr (z', c) \<and>
    (case stream z of [] \<Rightarrow> c = EOZ | b # bs \<Rightarrow> c = char2int b \<and> zio_ok z' \<and> stream z' = bs)"
proof (cases "z_p z")
  case (Cons b bs)
  with assms show ?thesis by (simp add: zgetc_def zio_ok_def stream_def)
next
  case Nil
  with assms have n: "z_n z = 0" by (simp add: zio_ok_def)
  show ?thesis
  proof (cases "z_reader z")
    case r: Nil
    with n Nil show ?thesis by (simp add: zgetc_def luaZ_fill_def stream_def)
  next
    case (Cons b r)
    with n Nil show ?thesis by (cases b) (simp_all add: zgetc_def luaZ_fill_def stream_def zio_ok_def)
  qed
qed

lemma next_ok:
  assumes "feeds ls (c # cs)"
  shows "\<exists>ls'. lex_next ls = Inr ls' \<and> feeds ls' cs \<and> buff ls' = buff ls \<and> linenumber ls' = linenumber ls"
proof -
  have ok: "zio_ok (zio ls)" and st: "stream (zio ls) = map to_byte cs" using assms by (simp_all add: feeds_def)
  from zgetc_spec [OF ok] st show ?thesis
    unfolding lex_next_def by (cases cs) (fastforce simp: feeds_def char2int_to_byte)+
qed

lemma save_ok:
  assumes "length (buff ls) < MAX_SIZET div 2"
  shows "\<exists>ls'. save E ls (ch c) = Inr ls' \<and> buff ls' = buff ls @ [c] \<and> linenumber ls' = linenumber ls \<and>
    (\<forall>cs. feeds ls' cs = feeds ls cs)"
  using assms by (auto simp: save_def feeds_def split: list.splits)

lemma save_next_ok:
  assumes "feeds ls (c # cs)" "length (buff ls) < MAX_SIZET div 2"
  shows "\<exists>ls'. save_and_next E ls = Inr ls' \<and> feeds ls' cs \<and> buff ls' = buff ls @ [c] \<and> linenumber ls' = linenumber ls"
proof -
  have c: "current ls = ch c" using assms(1) by (simp add: feeds_def)
  from save_ok [OF assms(2), of E c] assms(1) obtain l1 where l1: "save E ls (ch c) = Inr l1" "buff l1 = buff ls @ [c]"
    "linenumber l1 = linenumber ls" "feeds l1 (c # cs)" by blast
  from next_ok [OF l1(4)] l1 c show ?thesis by (auto simp: save_and_next_def)
qed

lemma feeds_current: "feeds ls (c # cs) \<Longrightarrow> current ls = ch c"
  by (simp add: feeds_def)

section \<open>Quoted strings\<close>

lemma nl_iff: "feeds ls (c # cs) \<Longrightarrow> currIsNewline ls \<longleftrightarrow> c = CHR 0x0A \<or> c = CHR 0x0D"
  by (simp add: feeds_def currIsNewline_def)

lemma ch_NUL: "ch NUL = 0"
  by (simp add: ch_def code_def)

text \<open>Reading one character written by \<open>%q\<close>, when what follows is not a line end.\<close>

lemma incline_ok:
  assumes "feeds ls (c # d # cs)" "d \<noteq> CHR 0x0A" "d \<noteq> CHR 0x0D" "linenumber ls + 1 < int MAX_INT"
  shows "\<exists>ls'. inclinenumber E ls = Inr ls' \<and> feeds ls' (d # cs) \<and> buff ls' = buff ls \<and> linenumber ls' = linenumber ls + 1"
proof -
  from next_ok [OF assms(1)] obtain l1 where l1: "lex_next ls = Inr l1" "feeds l1 (d # cs)" "buff l1 = buff ls"
    "linenumber l1 = linenumber ls" by blast
  have "\<not> currIsNewline l1" using assms(2,3) by (simp add: nl_iff [OF l1(2)])
  then have "inclinenumber E ls = Inr (l1\<lparr>linenumber := linenumber ls + 1\<rparr>)"
    using l1 assms(4) by (simp add: inclinenumber_def Let_def)
  with l1 show ?thesis by (simp add: feeds_def)
qed

lemma string_loop_raw:
  assumes "feeds ls (c # cs)" "c \<noteq> d" "c \<noteq> CHR 0x0A" "c \<noteq> CHR 0x0D" "c \<noteq> CHR 0x5C"
  shows "string_loop E (ch d) ls = bindr (save_and_next E ls) (\<lambda>ls. string_loop E (ch d) ls)"
  using assms nl_iff [OF assms(1)] feeds_current [OF assms(1)] by (subst string_loop.simps) simp

lemma string_loop_escape:
  assumes "feeds ls (CHR 0x5C # cs)" "d \<noteq> CHR 0x5C" "lex_next ls = Inr l1" "read_escape E l1 = Inr l2"
  shows "string_loop E (ch d) ls = string_loop E (ch d) l2"
  using assms nl_iff [OF assms(1)] feeds_current [OF assms(1)] by (subst string_loop.simps) simp

lemma escape_quoted:
  assumes "addquoted_char c = CHR 0x5C # x" "feeds ls (x @ d # cs)" "d \<noteq> CHR 0x0A" "d \<noteq> CHR 0x0D"
    and "length (buff ls) < MAX_SIZET div 2" "linenumber ls + 1 < int MAX_INT"
  shows "\<exists>ls'. read_escape E ls = Inr ls' \<and> feeds ls' (d # cs) \<and> buff ls' = buff ls @ [c] \<and>
    linenumber ls' \<le> linenumber ls + 1"
proof -
  consider "c = CHR 0x22 \<or> c = CHR 0x5C" | "c = CHR 0x0A" | "c = CHR 0x0D" | "c = NUL"
    using assms(1) by (fastforce simp: addquoted_char_def split: if_splits)
  then show ?thesis
  proof cases
    case 1
    then have x: "x = [c]" using assms(1) by (auto simp: addquoted_char_def)
    with assms(2) have f: "feeds ls (c # d # cs)" by simp
    have "read_escape E ls = save_and_next E ls"
      using 1
    proof
      assume c: "c = CHR 0x22"
      show ?thesis using feeds_current [OF f] nl_iff [OF f] unfolding c
        by (simp add: read_escape_def escape_char_def isdigit_def code_def)
    next
      assume c: "c = CHR 0x5C"
      show ?thesis using feeds_current [OF f] nl_iff [OF f] unfolding c
        by (simp add: read_escape_def escape_char_def isdigit_def code_def)
    qed
    with save_next_ok [OF f assms(5), of E] show ?thesis by auto
  next
    case 2
    then have x: "x = [c]" using assms(1) by (auto simp: addquoted_char_def)
    with assms(2) have f: "feeds ls (c # d # cs)" by simp
    have e: "read_escape E ls = bindr (save E ls (ch c)) (\<lambda>ls. inclinenumber E ls)"
      using 2 feeds_current [OF f] nl_iff [OF f] by (simp add: read_escape_def escape_char_def)
    from save_ok [OF assms(5), of E c] f obtain l1 where l1: "save E ls (ch c) = Inr l1" "buff l1 = buff ls @ [c]"
      "linenumber l1 = linenumber ls" "feeds l1 (c # d # cs)" by blast
    have "linenumber l1 + 1 < int MAX_INT" using l1(3) assms(6) by simp
    from incline_ok [OF l1(4) assms(3,4) this, of E] l1 e show ?thesis by fastforce
  next
    case 3
    then have x: "x = ''r''" using assms(1) by (auto simp: addquoted_char_def)
    with assms(2) have f: "feeds ls (CHR ''r'' # d # cs)" by simp
    have e: "read_escape E ls = bindr (save E ls (ch c)) lex_next"
      using 3 feeds_current [OF f] by (simp add: read_escape_def escape_char_def)
    from save_ok [OF assms(5), of E c] f obtain l1 where l1: "save E ls (ch c) = Inr l1" "buff l1 = buff ls @ [c]"
      "linenumber l1 = linenumber ls" "feeds l1 (CHR ''r'' # d # cs)" by blast
    from next_ok [OF l1(4)] l1 e show ?thesis by auto
  next
    case 4
    then have x: "x = ''000''" using assms(1) by (auto simp: addquoted_char_def)
    let ?z = "CHR ''0''"
    have f: "feeds ls (?z # ?z # ?z # d # cs)" using assms(2) x by simp
    from next_ok [OF f] obtain l1 where l1: "lex_next ls = Inr l1" "feeds l1 (?z # ?z # d # cs)" "buff l1 = buff ls"
      "linenumber l1 = linenumber ls" by blast
    from next_ok [OF l1(2)] obtain l2 where l2: "lex_next l1 = Inr l2" "feeds l2 (?z # d # cs)" "buff l2 = buff ls"
      "linenumber l2 = linenumber ls" using l1 by auto
    from next_ok [OF l2(2)] obtain l3 where l3: "lex_next l2 = Inr l3" "feeds l3 (d # cs)" "buff l3 = buff ls"
      "linenumber l3 = linenumber ls" using l2 by auto
    have dig: "isdigit ?z" by (simp add: isdigit_def code_def)
    have "esc_digits 3 0 ls = Inr (0, l3)"
      using l1(1) l2(1) l3(1) dig feeds_current [OF f] feeds_current [OF l1(2)] feeds_current [OF l2(2)]
      by (simp add: numeral_3_eq_3)
    then have e: "read_escape E ls = save E l3 (ch c)"
      using feeds_current [OF f] nl_iff [OF f] dig 4 ch_NUL by (simp add: read_escape_def escape_char_def)
    from save_ok [of l3 E c] assms(5) l3 e show ?thesis by auto
  qed
qed

lemma addquoted_cases:
  obtains x where "addquoted_char c = CHR 0x5C # x"
  | "addquoted_char c = [c]" "c \<noteq> CHR 0x22" "c \<noteq> CHR 0x5C" "c \<noteq> CHR 0x0A" "c \<noteq> CHR 0x0D"
  unfolding addquoted_char_def using that by (metis (full_types) list.inject)

lemma feeds_reset [simp]:
  "feeds (luaZ_resetbuffer ls) cs = feeds ls cs" "buff (luaZ_resetbuffer ls) = []"
  "linenumber (luaZ_resetbuffer ls) = linenumber ls"
  by (simp_all add: feeds_def luaZ_resetbuffer_def split: list.splits)

lemma string_loop_quoted:
  assumes "feeds ls (concat (map addquoted_char s) @ CHR 0x22 # rest)"
    and "length (buff ls) + length s < MAX_SIZET div 2" "linenumber ls + int (length s) < int MAX_INT"
  shows "\<exists>ls'. string_loop E (ch (CHR 0x22)) ls = Inr ls' \<and> feeds ls' (CHR 0x22 # rest) \<and> buff ls' = buff ls @ s"
  using assms
proof (induction s arbitrary: ls)
  case Nil
  then have "feeds ls (CHR 0x22 # rest)" by simp
  moreover have "string_loop E (ch (CHR 0x22)) ls = Inr ls"
    using feeds_current [OF calculation] by (subst string_loop.simps) simp
  ultimately show ?case by simp
next
  case (Cons c s)
  let ?tl = "concat (map addquoted_char s) @ CHR 0x22 # rest"
  have room: "length (buff ls) < MAX_SIZET div 2" using Cons.prems(2) by simp
  have "\<exists>l2. string_loop E (ch (CHR 0x22)) ls = string_loop E (ch (CHR 0x22)) l2 \<and> feeds l2 ?tl \<and>
      buff l2 = buff ls @ [c] \<and> linenumber l2 \<le> linenumber ls + 1"
  proof (cases rule: addquoted_cases [of c])
    case (1 x)
    have f: "feeds ls (CHR 0x5C # x @ ?tl)" using Cons.prems(1) 1 by simp
    from next_ok [OF f] obtain l1 where l1: "lex_next ls = Inr l1" "feeds l1 (x @ ?tl)" "buff l1 = buff ls"
      "linenumber l1 = linenumber ls" by blast
    obtain d cs where d: "?tl = d # cs" "d \<noteq> CHR 0x0A" "d \<noteq> CHR 0x0D"
    proof (cases s)
      case Nil
      then show ?thesis using that by simp
    next
      case (Cons a s')
      show ?thesis by (cases rule: addquoted_cases [of a]) (use that Cons in auto)
    qed
    have "length (buff l1) < MAX_SIZET div 2" "linenumber l1 + 1 < int MAX_INT"
      using l1 room Cons.prems(3) by auto
    from escape_quoted [OF 1 l1(2) [unfolded d(1)] d(2,3) this, of E]
    obtain l2 where l2: "read_escape E l1 = Inr l2" "feeds l2 (d # cs)" "buff l2 = buff l1 @ [c]"
      "linenumber l2 \<le> linenumber l1 + 1" by blast
    have "string_loop E (ch (CHR 0x22)) ls = string_loop E (ch (CHR 0x22)) l2"
      by (rule string_loop_escape [OF f _ l1(1) l2(1)]) simp
    with l1 l2 d(1) show ?thesis by auto
  next
    case 2
    have f: "feeds ls (c # ?tl)" using Cons.prems(1) 2(1) by simp
    from save_next_ok [OF f room, of E] obtain l2 where l2: "save_and_next E ls = Inr l2" "feeds l2 ?tl"
      "buff l2 = buff ls @ [c]" "linenumber l2 = linenumber ls" by blast
    with string_loop_raw [OF f 2(2,4,5,3), of E] show ?thesis by auto
  qed
  then obtain l2 where l2: "string_loop E (ch (CHR 0x22)) ls = string_loop E (ch (CHR 0x22)) l2" "feeds l2 ?tl"
    "buff l2 = buff ls @ [c]" "linenumber l2 \<le> linenumber ls + 1" by blast
  have "\<exists>ls'. string_loop E (ch (CHR 0x22)) l2 = Inr ls' \<and> feeds ls' (CHR 0x22 # rest) \<and> buff ls' = buff l2 @ s"
    by (rule Cons.IH [OF l2(2)]) (use l2(3,4) Cons.prems(2,3) in auto)
  with l2 show ?case by auto
qed

lemma read_string_quoted:
  assumes "feeds ls (quoted s @ rest)" "buff ls = []" "length s + 3 \<le> MAX_SIZET div 2"
    and "linenumber ls + int (length s) < int MAX_INT"
  shows "\<exists>ls'. read_string E ls (ch (CHR 0x22)) = Inr (s, ls') \<and> feeds ls' rest"
proof -
  have f: "feeds ls (CHR 0x22 # concat (map addquoted_char s) @ CHR 0x22 # rest)"
    using assms(1) by (simp add: quoted_def)
  have room: "length (buff ls) < MAX_SIZET div 2" using assms(2,3) by simp
  from save_next_ok [OF f room, of E] obtain l1 where l1: "save_and_next E ls = Inr l1"
    "feeds l1 (concat (map addquoted_char s) @ CHR 0x22 # rest)" "buff l1 = [CHR 0x22]" "linenumber l1 = linenumber ls"
    using assms(2) by auto
  have "length (buff l1) + length s < MAX_SIZET div 2" "linenumber l1 + int (length s) < int MAX_INT"
    using l1(3,4) assms(3,4) by simp_all
  from string_loop_quoted [OF l1(2) this, of E] obtain l2 where l2: "string_loop E (ch (CHR 0x22)) l1 = Inr l2"
    "feeds l2 (CHR 0x22 # rest)" "buff l2 = CHR 0x22 # s" using l1(3) by auto
  have room2: "length (buff l2) < MAX_SIZET div 2" using l2(3) assms(3) by simp
  from save_next_ok [OF l2(2) room2, of E] obtain l3 where l3: "save_and_next E l2 = Inr l3" "feeds l3 rest"
    "buff l3 = CHR 0x22 # s @ [CHR 0x22]" using l2(3) by auto
  have "read_string E ls (ch (CHR 0x22)) = Inr (s, l3)"
    unfolding read_string_def by (simp add: l1(1) l2(1) l3(1,3))
  with l3(2) show ?thesis by blast
qed

text \<open>
  C35: what \<open>string.format("%q")\<close> writes is read back by the analyzer as the same string, with the
  characters after it left in the input, when the string fits in the token buffer and its lines in the line count.
\<close>

theorem quoted_lexes_back:
  assumes "feeds ls (quoted s @ rest)" "length s + 3 \<le> MAX_SIZET div 2" "linenumber ls + int (length s) < int MAX_INT"
  shows "\<exists>ls'. llex E cv ls sem = Inr (TK_STRING, SemStr s, ls') \<and> feeds ls' rest"
proof -
  let ?l = "luaZ_resetbuffer ls" and ?q = "CHR 0x22"
  have f: "feeds ?l (quoted s @ rest)" "buff ?l = []" "linenumber ?l = linenumber ls"
    using assms(1) by simp_all
  then have f': "feeds ?l (?q # concat (map addquoted_char s) @ ?q # rest)" by (simp add: quoted_def)
  have c: "current ?l = ch ?q" by (rule feeds_current [OF f'])
  have "llex E cv ls sem = lex_token E cv ?l sem"
    unfolding llex_def using c nl_iff [OF f']
    by (subst lex_loop.simps) (simp add: isspace_def code_def)
  also have "\<dots> = bindr (read_string E ?l (ch ?q)) (\<lambda>(s, ls). Inr (TK_STRING, SemStr s, ls))"
    unfolding lex_token_def Let_def c by simp
  finally have run: "llex E cv ls sem = bindr (read_string E ?l (ch ?q)) (\<lambda>(s, ls). Inr (TK_STRING, SemStr s, ls))" .
  have "linenumber ?l + int (length s) < int MAX_INT" using assms(3) by simp
  from read_string_quoted [OF f(1,2) assms(2) this, of E] obtain ls' where
    "read_string E ?l (ch ?q) = Inr (s, ls')" "feeds ls' rest" by blast
  with run show ?thesis by simp
qed

text \<open>
  C36: the test for a second dot takes a NUL character for one: \<open>check_next\<close> uses \<open>strchr\<close>, which finds the
  terminator of the set, so a dot followed by a NUL in the source is read as the operator \<open>..\<close>.
\<close>

theorem dot_nul_concat:
  assumes "feeds ls (CHR ''.'' # NUL # c # rest)" "c \<noteq> CHR ''.''" "c \<noteq> NUL"
  shows "\<exists>ls'. llex E cv ls sem = Inr (TK_CONCAT, sem, ls') \<and> feeds ls' (c # rest)"
proof -
  let ?l = "luaZ_resetbuffer ls"
  have f: "feeds ?l (CHR ''.'' # NUL # c # rest)" "buff ?l = []"
    using assms(1) by simp_all
  have room: "length (buff ?l) < MAX_SIZET div 2" using f(2) by (simp add: MAX_SIZET_def)
  have cur: "current ?l = ch (CHR ''.'')" by (rule feeds_current [OF f(1)])
  from save_next_ok [OF f(1) room, of E] obtain l1 where l1: "save_and_next E ?l = Inr l1" "feeds l1 (NUL # c # rest)"
    "buff l1 = ''.''" using f(2) by auto
  have room1: "length (buff l1) < MAX_SIZET div 2" using l1(3) by (simp add: MAX_SIZET_def)
  from save_next_ok [OF l1(2) room1, of E] obtain l2 where l2: "save_and_next E l1 = Inr l2" "feeds l2 (c # rest)" by auto
  have n1: "check_next E l1 ''.'' = Inr (True, l2)"
    using feeds_current [OF l1(2)] l2(1) by (simp add: check_next_def)
  have n2: "check_next E l2 ''.'' = Inr (False, l2)"
    using feeds_current [OF l2(2)] assms(2,3) by (simp add: check_next_def)
  have "llex E cv ls sem = lex_token E cv ?l sem"
    unfolding llex_def using cur nl_iff [OF f(1)] by (subst lex_loop.simps) (simp add: isspace_def code_def)
  also have "\<dots> = Inr (TK_CONCAT, sem, l2)"
    unfolding lex_token_def Let_def cur by (simp add: l1(1) n1 n2)
  finally show ?thesis using l2(2) by blast
qed

text \<open>The examples: an analyzer that has read the first character of a stream of one block.\<close>

definition ex_lex :: "string \<Rightarrow> LexState" where
  "ex_lex s = \<lparr>current = ch (hd s), linenumber = 1, lastline = 1, tk = \<lparr>token = 0, seminfo = SemNone\<rparr>,
     lookahead = \<lparr>token = TK_EOS, seminfo = SemNone\<rparr>,
     zio = \<lparr>z_n = length (tl s), z_p = map to_byte (tl s), z_reader = []\<rparr>, buff = [], buffsize = LUA_MINBUFFER,
     source = ''=x'', decpoint = CHR ''.''\<rparr>"

lemma ex_lex_feeds: "s \<noteq> [] \<Longrightarrow> feeds (ex_lex s) s \<and> linenumber (ex_lex s) = 1"
  by (cases s) (simp_all add: ex_lex_def feeds_def zio_ok_def stream_def)

lemma quoted_lexes_back_witness:
  "\<exists>ls'. llex ex_env (CHR ''.'') (ex_lex (quoted [CHR ''a'', CHR 0x0A, CHR 0x22, NUL] @ ''+''))
      SemNone = Inr (TK_STRING, SemStr [CHR ''a'', CHR 0x0A, CHR 0x22, NUL], ls') \<and> feeds ls' ''+''"
proof (rule quoted_lexes_back)
  show "feeds (ex_lex (quoted [CHR ''a'', CHR 0x0A, CHR 0x22, NUL] @ ''+'')) (quoted [CHR ''a'', CHR 0x0A, CHR 0x22, NUL] @ ''+'')"
    using ex_lex_feeds by simp
qed (simp_all add: MAX_SIZET_def MAX_INT_def ex_lex_def)

lemma dot_nul_concat_witness:
  "\<exists>ls'. llex ex_env (CHR ''.'') (ex_lex [CHR ''.'', NUL, CHR ''x'']) SemNone = Inr (TK_CONCAT, SemNone, ls') \<and> feeds ls' ''x''"
  by (rule dot_nul_concat) (use ex_lex_feeds in simp_all)

end
