(* ===== verification/LuaCheck.thy ===== *)
theory LuaCheck
  imports LuaDump
begin

text \<open>
  Symbolic execution and the code checker of ldebug.c, and the names it finds for error messages.
  Reads of the code array are checked (\<open>ErrUndef\<close> when out of range). The control flow of the
  machine (\<open>luaV_execute\<close>) is the list of the positions an instruction can go to, with the
  registers, constants, upvalues and prototypes it uses.
\<close>

section \<open>The checks\<close>

definition MAXSTACK :: nat where "MAXSTACK = 250"
definition VARARG_HASARG :: lu_byte where "VARARG_HASARG = 1"
definition VARARG_ISVARARG :: lu_byte where "VARARG_ISVARARG = 2"
definition VARARG_NEEDSARG :: lu_byte where "VARARG_NEEDSARG = 4"
definition LUA_MULTRET :: int where "LUA_MULTRET = - 1"

abbreviation sizecode :: "Proto \<Rightarrow> nat" where "sizecode pt \<equiv> length (p_code pt)"
abbreviation sizek :: "Proto \<Rightarrow> nat" where "sizek pt \<equiv> length (p_k pt)"

definition code_at :: "Proto \<Rightarrow> nat \<Rightarrow> Instruction res" where
  "code_at pt pc = (if pc < sizecode pt then Inr (p_code pt ! pc) else Inl ErrUndef)"

definition is_op :: "Instruction \<Rightarrow> OpCode \<Rightarrow> bool" where
  "is_op i opc \<longleftrightarrow> GET_OPCODE i = opnum opc"

definition checkreg :: "Proto \<Rightarrow> int \<Rightarrow> bool" where
  "checkreg pt reg \<longleftrightarrow> reg < int (unat (p_maxstacksize pt))"

definition precheck :: "Proto \<Rightarrow> bool" where
  "precheck pt \<longleftrightarrow>
     unat (p_maxstacksize pt) \<le> MAXSTACK \<and>
     unat (p_numparams pt) + unat (p_is_vararg pt AND VARARG_HASARG) \<le> unat (p_maxstacksize pt) \<and>
     (p_is_vararg pt AND VARARG_NEEDSARG = 0 \<or> p_is_vararg pt AND VARARG_HASARG \<noteq> 0) \<and>
     length (p_upvalues pt) \<le> unat (p_nups pt) \<and>
     (length (p_lineinfo pt) = sizecode pt \<or> length (p_lineinfo pt) = 0) \<and>
     0 < sizecode pt \<and> is_op (p_code pt ! (sizecode pt - 1)) OP_RETURN"

definition luaG_checkopenop :: "Instruction \<Rightarrow> bool" where
  "luaG_checkopenop i \<longleftrightarrow>
     (is_op i OP_CALL \<or> is_op i OP_TAILCALL \<or> is_op i OP_RETURN \<or> is_op i OP_SETLIST) \<and> GETARG_B i = 0"

definition checkopenop :: "Proto \<Rightarrow> nat \<Rightarrow> bool res" where
  "checkopenop pt pc = bindr (code_at pt (pc + 1)) (\<lambda>i. Inr (luaG_checkopenop i))"

definition checkArgMode :: "Proto \<Rightarrow> nat \<Rightarrow> OpArgMask \<Rightarrow> bool" where
  "checkArgMode pt r mode =
     (case mode of
        OpArgN \<Rightarrow> r = 0
      | OpArgU \<Rightarrow> True
      | OpArgR \<Rightarrow> checkreg pt (int r)
      | OpArgK \<Rightarrow> if ISK r then INDEXK r < sizek pt else r < unat (p_maxstacksize pt))"

text \<open>How many words before \<open>dest\<close> look like a \<open>SETLIST\<close> whose count follows.\<close>

definition is_setlist0 :: "Instruction \<Rightarrow> bool" where
  "is_setlist0 d \<longleftrightarrow> is_op d OP_SETLIST \<and> GETARG_C d = 0"

fun setlist_run :: "Instruction list \<Rightarrow> nat \<Rightarrow> nat" where
  "setlist_run code 0 = 0"
| "setlist_run code (Suc d) = (if is_setlist0 (code ! d) then setlist_run code d + 1 else 0)"

definition check_dest :: "Proto \<Rightarrow> int \<Rightarrow> bool" where
  "check_dest pt dest \<longleftrightarrow>
     0 \<le> dest \<and> dest < int (sizecode pt) \<and> (0 < dest \<longrightarrow> even (setlist_run (p_code pt) (nat dest)))"

text \<open>The operands \<open>b\<close> and \<open>c\<close> of an instruction, by its format.\<close>

definition arg_b :: "OpCode \<Rightarrow> Instruction \<Rightarrow> int" where
  "arg_b opc i = (case getOpMode opc of
     iABC \<Rightarrow> int (GETARG_B i) | iABx \<Rightarrow> int (GETARG_Bx i) | iAsBx \<Rightarrow> GETARG_sBx i)"

definition arg_c :: "OpCode \<Rightarrow> Instruction \<Rightarrow> int" where
  "arg_c opc i = (case getOpMode opc of iABC \<Rightarrow> int (GETARG_C i) | _ \<Rightarrow> 0)"

definition check_operands :: "Proto \<Rightarrow> nat \<Rightarrow> OpCode \<Rightarrow> Instruction \<Rightarrow> bool" where
  "check_operands pt pc opc i \<longleftrightarrow>
     (case getOpMode opc of
        iABC \<Rightarrow> checkArgMode pt (GETARG_B i) (getBMode opc) \<and> checkArgMode pt (GETARG_C i) (getCMode opc)
      | iABx \<Rightarrow> getBMode opc = OpArgK \<longrightarrow> GETARG_Bx i < sizek pt
      | iAsBx \<Rightarrow> getBMode opc = OpArgR \<longrightarrow> check_dest pt (int pc + 1 + GETARG_sBx i))"

definition check_test :: "Proto \<Rightarrow> nat \<Rightarrow> OpCode \<Rightarrow> bool res" where
  "check_test pt pc opc =
     (if testTMode opc then
        if pc + 2 < sizecode pt then bindr (code_at pt (pc + 1)) (\<lambda>j. Inr (is_op j OP_JMP)) else Inr False
      else Inr True)"

fun check_pseudo :: "Proto \<Rightarrow> nat \<Rightarrow> nat \<Rightarrow> bool res" where
  "check_pseudo pt pc 0 = Inr True"
| "check_pseudo pt pc (Suc n) =
     bindr (code_at pt pc) (\<lambda>j.
     if is_op j OP_GETUPVAL \<or> is_op j OP_MOVE then check_pseudo pt (pc + 1) n else Inr False)"

definition is_string_konst :: "Konst \<Rightarrow> bool" where
  "is_string_konst k = (case k of KString _ \<Rightarrow> True | _ \<Rightarrow> False)"

text \<open>The checks of one operation, with \<open>a\<close>, \<open>b\<close> and \<open>c\<close> as in the source.\<close>

definition check_op :: "Proto \<Rightarrow> nat \<Rightarrow> OpCode \<Rightarrow> Instruction \<Rightarrow> bool res" where
  "check_op pt pc opc i =
     (let a = int (GETARG_A i); b = arg_b opc i; c = arg_c opc i in
      case opc of
        OP_LOADBOOL \<Rightarrow>
          if c = 1 then
            if pc + 2 < sizecode pt then bindr (code_at pt (pc + 1)) (\<lambda>j. Inr (\<not> is_setlist0 j)) else Inr False
          else Inr True
      | OP_GETUPVAL \<Rightarrow> Inr (b < int (unat (p_nups pt)))
      | OP_SETUPVAL \<Rightarrow> Inr (b < int (unat (p_nups pt)))
      | OP_GETGLOBAL \<Rightarrow> Inr (is_string_konst (p_k pt ! nat b))
      | OP_SETGLOBAL \<Rightarrow> Inr (is_string_konst (p_k pt ! nat b))
      | OP_SELF \<Rightarrow> Inr (checkreg pt (a + 1))
      | OP_CONCAT \<Rightarrow> Inr (b < c)
      | OP_TFORLOOP \<Rightarrow> Inr (1 \<le> c \<and> checkreg pt (a + 2 + c))
      | OP_FORLOOP \<Rightarrow> Inr (checkreg pt (a + 3))
      | OP_FORPREP \<Rightarrow> Inr (checkreg pt (a + 3))
      | OP_CALL \<Rightarrow>
          if b \<noteq> 0 \<and> \<not> checkreg pt (a + b - 1) then Inr False
          else if c - 1 = LUA_MULTRET then checkopenop pt pc
          else Inr (c - 1 \<noteq> 0 \<longrightarrow> checkreg pt (a + (c - 1) - 1))
      | OP_TAILCALL \<Rightarrow>
          if b \<noteq> 0 \<and> \<not> checkreg pt (a + b - 1) then Inr False
          else if c - 1 = LUA_MULTRET then checkopenop pt pc
          else Inr (c - 1 \<noteq> 0 \<longrightarrow> checkreg pt (a + (c - 1) - 1))
      | OP_RETURN \<Rightarrow> Inr (0 < b - 1 \<longrightarrow> checkreg pt (a + (b - 1) - 1))
      | OP_SETLIST \<Rightarrow> Inr ((0 < b \<longrightarrow> checkreg pt (a + b)) \<and> (c = 0 \<longrightarrow> pc + 1 < sizecode pt - 1))
      | OP_CLOSURE \<Rightarrow>
          if b < int (length (p_p pt)) then
            let nup = unat (p_nups (p_p pt ! nat b)) in
            if pc + nup < sizecode pt then check_pseudo pt (pc + 1) nup else Inr False
          else Inr False
      | OP_VARARG \<Rightarrow>
          if p_is_vararg pt AND VARARG_ISVARARG \<noteq> 0 \<and> p_is_vararg pt AND VARARG_NEEDSARG = 0 then
            bindr (if b - 1 = LUA_MULTRET then checkopenop pt pc else Inr True) (\<lambda>t.
            Inr (t \<and> checkreg pt (a + (b - 1) - 1)))
          else Inr False
      | _ \<Rightarrow> Inr True)"

text \<open>All the checks on the instruction at \<open>pc\<close>.\<close>

definition check_instr :: "Proto \<Rightarrow> nat \<Rightarrow> bool res" where
  "check_instr pt pc =
     bindr (code_at pt pc) (\<lambda>i.
     case opcode_of (GET_OPCODE i) of
       None \<Rightarrow> Inr False
     | Some opc \<Rightarrow>
         if checkreg pt (int (GETARG_A i)) \<and> check_operands pt pc opc i then
           bindr (check_test pt pc opc) (\<lambda>t. if t then check_op pt pc opc i else Inr False)
         else Inr False)"

section \<open>Symbolic execution\<close>

text \<open>The last instruction that changed the register \<open>reg\<close>.\<close>

definition last_change :: "Instruction \<Rightarrow> OpCode \<Rightarrow> nat \<Rightarrow> nat \<Rightarrow> nat \<Rightarrow> nat" where
  "last_change i opc reg pc lst =
     (let a = GETARG_A i; lst = (if testAMode opc \<and> a = reg then pc else lst) in
      case opc of
        OP_LOADNIL \<Rightarrow> if a \<le> reg \<and> int reg \<le> arg_b opc i then pc else lst
      | OP_SELF \<Rightarrow> if reg = a + 1 then pc else lst
      | OP_TFORLOOP \<Rightarrow> if a + 2 \<le> reg then pc else lst
      | OP_CALL \<Rightarrow> if a \<le> reg then pc else lst
      | OP_TAILCALL \<Rightarrow> if a \<le> reg then pc else lst
      | _ \<Rightarrow> lst)"

text \<open>The position after the switch, before the \<open>pc++\<close> of the loop.\<close>

definition next_pc :: "Proto \<Rightarrow> Instruction \<Rightarrow> OpCode \<Rightarrow> nat \<Rightarrow> nat \<Rightarrow> nat \<Rightarrow> nat" where
  "next_pc pt i opc lastpc reg pc =
     (if opc \<in> {OP_FORLOOP, OP_FORPREP, OP_JMP} then
        let dest = int pc + 1 + arg_b opc i in
        if reg \<noteq> NO_REG \<and> int pc < dest \<and> dest \<le> int lastpc then nat (int pc + arg_b opc i) else pc
      else if opc = OP_SETLIST then (if arg_c opc i = 0 then pc + 1 else pc)
      else if opc = OP_CLOSURE then
        (if reg \<noteq> NO_REG then pc + unat (p_nups (p_p pt ! nat (arg_b opc i))) else pc)
      else pc)"

lemma next_pc_le: "pc \<le> next_pc pt i opc lastpc reg pc"
  by (auto simp: next_pc_def Let_def)

function symbexec_loop :: "Proto \<Rightarrow> nat \<Rightarrow> nat \<Rightarrow> nat \<Rightarrow> nat \<Rightarrow> nat option res" where
  "symbexec_loop pt lastpc reg pc lst =
     (if pc < lastpc then
        bindr (check_instr pt pc) (\<lambda>ok.
        if ok then
          let i = p_code pt ! pc; opc = the (opcode_of (GET_OPCODE i)) in
          symbexec_loop pt lastpc reg (next_pc pt i opc lastpc reg pc + 1) (last_change i opc reg pc lst)
        else Inr None)
      else Inr (Some lst))"
  by pat_completeness auto
termination
proof (relation "measure (\<lambda>(pt, lastpc, reg, pc, lst). lastpc - pc)", goal_cases)
  case (2 pt lastpc reg pc lst ok i opc)
  with next_pc_le [of pc pt i opc lastpc reg] show ?case by simp
qed simp

declare symbexec_loop.simps [simp del]

text \<open>The instruction found; 0 when a check failed.\<close>

definition symbexec :: "Proto \<Rightarrow> nat \<Rightarrow> nat \<Rightarrow> Instruction res" where
  "symbexec pt lastpc reg =
     (if precheck pt then
        bindr (symbexec_loop pt lastpc reg 0 (sizecode pt - 1)) (\<lambda>r.
        case r of None \<Rightarrow> Inr 0 | Some lst \<Rightarrow> code_at pt lst)
      else Inr 0)"

definition luaG_checkcode :: "Proto \<Rightarrow> bool res" where
  "luaG_checkcode pt = bindr (symbexec pt (sizecode pt) NO_REG) (\<lambda>i. Inr (i \<noteq> 0))"

text \<open>Loading a chunk with the checker.\<close>

definition luaU_undump :: "nat \<Rightarrow> ZIO \<Rightarrow> string \<Rightarrow> (Proto \<times> ZIO) res" where
  "luaU_undump nCcalls z name = luaU_undump_with (\<lambda>f. luaG_checkcode f = Inr True) nCcalls z name"

section \<open>The execution stays inside the code\<close>

lemma is_op_opcode: "opcode_of (GET_OPCODE i) = Some opc \<longleftrightarrow> is_op i opc"
proof
  assume r: "opcode_of (GET_OPCODE i) = Some opc"
  then have i: "GET_OPCODE i < 38" "opcodes ! GET_OPCODE i = opc"
    by (auto simp: opcode_of_def opcodes_def split: if_splits)
  have "opnum (opcodes ! n) = n" if "n < 38" for n
  proof -
    have "\<forall>n \<in> set [0..<38]. opnum (opcodes ! n) = n" by code_simp
    with that show ?thesis by simp
  qed
  with i show "is_op i opc" unfolding is_op_def by metis
next
  assume "is_op i opc"
  then show "opcode_of (GET_OPCODE i) = Some opc" by (simp add: is_op_def opcode_of_opnum)
qed

lemma is_op_unique: "is_op i opc \<Longrightarrow> is_op i opc' \<longleftrightarrow> opc = opc'"
  by (auto simp: is_op_def opnum_inject)

lemma code_at_Inr: "code_at pt pc = Inr i \<longleftrightarrow> pc < sizecode pt \<and> i = p_code pt ! pc"
  by (auto simp: code_at_def)

lemma code_at_in [simp]: "pc < sizecode pt \<Longrightarrow> code_at pt pc = Inr (p_code pt ! pc)"
  by (simp add: code_at_def)

lemma check_pseudo_returns: "pc + n \<le> sizecode pt \<Longrightarrow> \<exists>b. check_pseudo pt pc n = Inr b"
  by (induction pt pc n rule: check_pseudo.induct) auto

lemma checkopenop_returns:
  assumes "precheck pt" "pc < sizecode pt" "is_op (p_code pt ! pc) opc" "opc \<noteq> OP_RETURN"
  shows "pc + 1 < sizecode pt" "checkopenop pt pc = Inr (luaG_checkopenop (p_code pt ! (pc + 1)))"
proof -
  have "is_op (p_code pt ! (sizecode pt - 1)) OP_RETURN" using assms(1) by (simp add: precheck_def)
  with assms(3,4) have "pc \<noteq> sizecode pt - 1" using is_op_unique by blast
  with assms(2) show "pc + 1 < sizecode pt" by simp
  then show "checkopenop pt pc = Inr (luaG_checkopenop (p_code pt ! (pc + 1)))" by (simp add: checkopenop_def)
qed

lemma check_op_returns:
  assumes "precheck pt" "pc < sizecode pt" "is_op (p_code pt ! pc) opc"
  shows "\<exists>b. check_op pt pc opc (p_code pt ! pc) = Inr b"
  using checkopenop_returns [OF assms] check_pseudo_returns [of "pc + 1"]
  by (cases opc) (auto simp: check_op_def Let_def)

lemma check_instr_returns:
  assumes "precheck pt" "pc < sizecode pt"
  shows "\<exists>b. check_instr pt pc = Inr b"
proof (cases "opcode_of (GET_OPCODE (p_code pt ! pc))")
  case (Some opc)
  then have "is_op (p_code pt ! pc) opc" by (simp add: is_op_opcode)
  from check_op_returns [OF assms this] Some assms(2) show ?thesis
    by (auto simp: check_instr_def check_test_def)
qed (use assms(2) in \<open>simp add: check_instr_def ex_bool_eq\<close>)

lemma check_instr_op:
  assumes "check_instr pt pc = Inr True"
  obtains opc where "pc < sizecode pt" "is_op (p_code pt ! pc) opc" "opcode_of (GET_OPCODE (p_code pt ! pc)) = Some opc"
    "checkreg pt (int (GETARG_A (p_code pt ! pc)))" "check_operands pt pc opc (p_code pt ! pc)"
    "check_test pt pc opc = Inr True" "check_op pt pc opc (p_code pt ! pc) = Inr True"
  using assms that
  by (auto simp: check_instr_def bindr_Inr_iff code_at_Inr is_op_opcode split: option.splits if_splits)

text \<open>The position found is the final return or holds an instruction that changed the register.\<close>

definition found_at :: "Proto \<Rightarrow> nat \<Rightarrow> nat \<Rightarrow> bool" where
  "found_at pt reg l \<longleftrightarrow> l < sizecode pt \<and>
     (l = sizecode pt - 1 \<or> (\<forall>i. p_code pt ! l = i \<and> is_op i OP_MOVE \<longrightarrow> GETARG_A i = reg))"

lemma last_change_found:
  assumes "found_at pt reg lst" "pc < sizecode pt" "is_op (p_code pt ! pc) opc"
  shows "found_at pt reg (last_change (p_code pt ! pc) opc reg pc lst)"
proof -
  let ?i = "p_code pt ! pc"
  have "found_at pt reg pc" if "opc \<noteq> OP_MOVE \<or> GETARG_A ?i = reg"
    using that assms(2,3) is_op_unique [OF assms(3)] by (auto simp: found_at_def)
  then show ?thesis using assms(1) by (auto simp: last_change_def Let_def split: OpCode.splits)
qed

lemma symbexec_loop_found:
  assumes "precheck pt" "lastpc \<le> sizecode pt" "found_at pt reg lst"
  shows "\<exists>r. symbexec_loop pt lastpc reg pc lst = Inr r \<and> (case r of None \<Rightarrow> True | Some l \<Rightarrow> found_at pt reg l)"
  using assms
proof (induction pt lastpc reg pc lst rule: symbexec_loop.induct)
  case (1 pt lastpc reg pc lst)
  show ?case
  proof (cases "pc < lastpc")
    case True
    with 1(3) have pc: "pc < sizecode pt" by simp
    from check_instr_returns [OF 1(2) pc] obtain b where b: "check_instr pt pc = Inr b" ..
    show ?thesis
    proof (cases b)
      case True
      with b obtain opc where op: "is_op (p_code pt ! pc) opc" "opcode_of (GET_OPCODE (p_code pt ! pc)) = Some opc"
        using check_instr_op [of pt pc] by metis
      from 1(1) [OF \<open>pc < lastpc\<close> b True refl refl 1(2,3)] last_change_found [OF 1(4) pc op(1)] op(2) b True \<open>pc < lastpc\<close>
      show ?thesis by (subst symbexec_loop.simps) (simp add: Let_def)
    next
      case False
      with b \<open>pc < lastpc\<close> show ?thesis by (subst symbexec_loop.simps) simp
    qed
  next
    case False
    with 1(4) show ?thesis by (subst symbexec_loop.simps) simp
  qed
qed

lemma symbexec_found:
  assumes "lastpc \<le> sizecode pt"
  shows "\<exists>i. symbexec pt lastpc reg = Inr i \<and> (i = 0 \<or> (\<exists>l. found_at pt reg l \<and> i = p_code pt ! l))"
proof (cases "precheck pt")
  case True
  then have "found_at pt reg (sizecode pt - 1)" by (auto simp: precheck_def found_at_def)
  from symbexec_loop_found [OF True assms this, of 0] obtain r where
    r: "symbexec_loop pt lastpc reg 0 (sizecode pt - 1) = Inr r" "case r of None \<Rightarrow> True | Some l \<Rightarrow> found_at pt reg l" by blast
  show ?thesis
  proof (cases r)
    case (Some l)
    with r have l: "found_at pt reg l" by simp
    then have "l < sizecode pt" by (simp add: found_at_def)
    then have "symbexec pt lastpc reg = Inr (p_code pt ! l)" using True r(1) Some by (simp add: symbexec_def)
    with l show ?thesis by blast
  qed (use True r(1) in \<open>simp add: symbexec_def\<close>)
qed (simp add: symbexec_def)

section \<open>Names for error messages\<close>

lemma field_0: "GETARG_A 0 = 0" "GETARG_B 0 = 0"
  by (simp_all add: GETARG_A_def GETARG_B_def get_field_def)

text \<open>A \<open>MOVE\<close> from a lower register that the execution finds is one to the register asked for.\<close>

lemma symbexec_move:
  assumes "symbexec pt lastpc reg = Inr i" "is_op i OP_MOVE" "GETARG_B i < GETARG_A i"
  shows "GETARG_A i = reg"
proof (cases "precheck pt")
  case True
  have loop: "found_at pt reg l" if "symbexec_loop pt lastpc reg pc lst = Inr (Some l)" "found_at pt reg lst" for pc lst l
    using that
  proof (induction pt lastpc reg pc lst rule: symbexec_loop.induct)
    case (1 pt lastpc reg pc lst)
    show ?case
    proof (cases "pc < lastpc")
      case True
      with 1(2) have b: "check_instr pt pc = Inr True"
        by (subst (asm) symbexec_loop.simps) (auto simp: bindr_Inr_iff split: if_splits)
      then obtain opc where op: "is_op (p_code pt ! pc) opc" "opcode_of (GET_OPCODE (p_code pt ! pc)) = Some opc" "pc < sizecode pt"
        using check_instr_op [of pt pc] by metis
      have "symbexec_loop pt lastpc reg (next_pc pt (p_code pt ! pc) opc lastpc reg pc + 1)
          (last_change (p_code pt ! pc) opc reg pc lst) = Inr (Some l)"
        using 1(2) True b op(2) by (subst (asm) symbexec_loop.simps) (simp add: Let_def)
      with 1(1) [OF True b TrueI refl refl] last_change_found [OF 1(3) op(3,1)] op(2) show ?thesis by simp
    next
      case False
      with 1(2,3) show ?thesis by (subst (asm) symbexec_loop.simps) simp
    qed
  qed
  have "found_at pt reg (sizecode pt - 1)" using True by (auto simp: precheck_def found_at_def)
  note lp = loop [OF _ this]
  from assms(1) True obtain r where r: "symbexec_loop pt lastpc reg 0 (sizecode pt - 1) = Inr r"
    "(case r of None \<Rightarrow> Inr 0 | Some lst \<Rightarrow> code_at pt lst) = Inr i"
    by (auto simp: symbexec_def bindr_Inr_iff)
  have "i = 0 \<or> (\<exists>l. found_at pt reg l \<and> i = p_code pt ! l)"
  proof (cases r)
    case (Some l)
    with lp r have "found_at pt reg l" by simp
    with r(2) Some show ?thesis by (auto simp: code_at_Inr)
  qed (use r(2) in simp)
  then obtain l where "i = 0 \<or> found_at pt reg l \<and> i = p_code pt ! l" by blast
  then show ?thesis
  proof
    assume l: "found_at pt reg l \<and> i = p_code pt ! l"
    have "l \<noteq> sizecode pt - 1"
    proof
      assume "l = sizecode pt - 1"
      with l True have "is_op i OP_RETURN" by (simp add: precheck_def)
      with assms(2) show False using is_op_unique by blast
    qed
    with l assms(2) show ?thesis by (auto simp: found_at_def)
  qed (use assms(3) in \<open>simp add: field_0\<close>)
next
  case False
  with assms(1,3) show ?thesis by (simp add: symbexec_def field_0)
qed

definition kname :: "Proto \<Rightarrow> nat \<Rightarrow> string" where
  "kname pt c =
     (if ISK c then (case p_k pt ! INDEXK c of KString (Some s) \<Rightarrow> s | _ \<Rightarrow> ''?'') else ''?'')"

text \<open>A Lua function of prototype \<open>pt\<close> that runs the instruction \<open>pc\<close>: the kind and the name of the
  value in a register.\<close>

function getobjname :: "Proto \<Rightarrow> nat \<Rightarrow> nat \<Rightarrow> (string \<times> string) option res" where
  "getobjname pt pc stackpos =
     (case luaF_getlocalname pt (int stackpos + 1) (int pc) of
        Some nm \<Rightarrow> Inr (Some (''local'', nm))
      | None \<Rightarrow>
          bindr (symbexec pt pc stackpos) (\<lambda>i.
          if is_op i OP_GETGLOBAL then
            Inr (Some (''global'', case p_k pt ! GETARG_Bx i of KString (Some s) \<Rightarrow> s | _ \<Rightarrow> ''''))
          else if is_op i OP_MOVE then
            let a = GETARG_A i; b = GETARG_B i in
            if b < a then getobjname pt pc b else Inr None
          else if is_op i OP_GETTABLE then Inr (Some (''field'', kname pt (GETARG_C i)))
          else if is_op i OP_GETUPVAL then
            let u = GETARG_B i in
            Inr (Some (''upvalue'',
              if p_upvalues pt = [] then ''?'' else (case p_upvalues pt ! u of Some s \<Rightarrow> s | None \<Rightarrow> '''')))
          else if is_op i OP_SELF then Inr (Some (''method'', kname pt (GETARG_C i)))
          else Inr None))"
  by pat_completeness auto
termination
proof (relation "measure (\<lambda>(pt, pc, n). n)", goal_cases)
  case (2 pt pc n i a b)
  then have "GETARG_A i = n" using symbexec_move [of pt pc n i] by simp
  with 2 show ?case by simp
qed simp

declare getobjname.simps [simp del]

section \<open>The control flow of the machine\<close>

text \<open>Where \<open>luaV_execute\<close> goes from the instruction at \<open>pc\<close>, in the same function.\<close>

definition jump_of :: "Proto \<Rightarrow> nat \<Rightarrow> int" where
  "jump_of pt pc = int pc + 1 + GETARG_sBx (p_code pt ! pc)"

definition flow_targets :: "Proto \<Rightarrow> nat \<Rightarrow> int list" where
  "flow_targets pt pc =
     (let i = p_code pt ! pc; n = int pc + 1 in
      case opcode_of (GET_OPCODE i) of
        Some OP_LOADBOOL \<Rightarrow> [if GETARG_C i \<noteq> 0 then n + 1 else n]
      | Some OP_JMP \<Rightarrow> [jump_of pt pc]
      | Some OP_EQ \<Rightarrow> [n + 1, jump_of pt (pc + 1)]
      | Some OP_LT \<Rightarrow> [n + 1, jump_of pt (pc + 1)]
      | Some OP_LE \<Rightarrow> [n + 1, jump_of pt (pc + 1)]
      | Some OP_TEST \<Rightarrow> [n + 1, jump_of pt (pc + 1)]
      | Some OP_TESTSET \<Rightarrow> [n + 1, jump_of pt (pc + 1)]
      | Some OP_TFORLOOP \<Rightarrow> [n + 1, jump_of pt (pc + 1)]
      | Some OP_RETURN \<Rightarrow> []
      | Some OP_FORLOOP \<Rightarrow> [n, jump_of pt pc]
      | Some OP_FORPREP \<Rightarrow> [jump_of pt pc]
      | Some OP_SETLIST \<Rightarrow> [if GETARG_C i = 0 then n + 1 else n]
      | Some OP_CLOSURE \<Rightarrow> [n + int (unat (p_nups (p_p pt ! GETARG_Bx i)))]
      | _ \<Rightarrow> [n])"

inductive reaches :: "Proto \<Rightarrow> int \<Rightarrow> bool" for pt where
  start: "reaches pt 0"
| flow: "reaches pt (int pc) \<Longrightarrow> pc < sizecode pt \<Longrightarrow> t \<in> set (flow_targets pt pc) \<Longrightarrow> reaches pt t"







section \<open>Checked code is well typed\<close>

lemma opcodes_all: "opc \<in> set opcodes"
  by (cases opc) (simp_all add: opcodes_def)





lemma testAMode_table [code]: "testAMode opc \<longleftrightarrow> opc \<notin> {OP_SETGLOBAL, OP_SETUPVAL, OP_SETTABLE, OP_JMP, OP_EQ, OP_LT, OP_LE,
    OP_RETURN, OP_TFORLOOP, OP_SETLIST, OP_CLOSE}"
proof -
  have "\<forall>opc \<in> set opcodes. testAMode opc \<longleftrightarrow> opc \<notin> {OP_SETGLOBAL, OP_SETUPVAL, OP_SETTABLE, OP_JMP, OP_EQ, OP_LT, OP_LE,
    OP_RETURN, OP_TFORLOOP, OP_SETLIST, OP_CLOSE}" by code_simp
  with opcodes_all show ?thesis by blast
qed


















section \<open>What the checker guarantees\<close>


text \<open>A table constructor with a Boolean item, whose item count is in the word after the \<open>SETLIST\<close>.\<close>

definition ex_code :: Proto where
  "ex_code = Proto (Some ''=x'') 0 0 0 1 0 2
     [0x0000000A,  \<comment> \<open>NEWTABLE 0 0 0\<close>
      0x00004042,  \<comment> \<open>LOADBOOL 1 0 1\<close>
      0x00800042,  \<comment> \<open>LOADBOOL 1 1 0\<close>
      0x00800022,  \<comment> \<open>SETLIST 0 1 0\<close>
      1,           \<comment> \<open>the number of the batch\<close>
      0x0100001E]  \<comment> \<open>RETURN 0 2\<close>
     [] [] [] [] []"





text \<open>
  C37: the checker does not reject every chunk that leaves its code: it accepts a function of two
  instructions, a LOADBOOL with C equal to 2 and the final RETURN, and the machine, which skips the
  next instruction for every C other than 0, goes past the end of its code.
\<close>
theorem loadbool_leaves_code:
  "let pt = Proto (Some ''=x'') 0 0 0 0 0 2
       [CREATE_ABC (opnum OP_LOADBOOL) 0 0 2, CREATE_ABC (opnum OP_RETURN) 0 1 0] [] [] [] [] []
   in luaG_checkcode pt = Inr True \<and> reaches pt (int (sizecode pt))"
proof -
  define pt where "pt = Proto (Some ''=x'') 0 0 0 0 0 2
       [CREATE_ABC (opnum OP_LOADBOOL) 0 0 2, CREATE_ABC (opnum OP_RETURN) 0 1 0] [] [] [] [] []"
  have "luaG_checkcode pt = Inr True" unfolding pt_def by code_simp
  moreover have "2 \<in> set (flow_targets pt 0)" "(0 :: nat) < sizecode pt" "sizecode pt = 2" unfolding pt_def by code_simp+
  moreover from reaches.flow [of pt 0 2] reaches.start this have "reaches pt 2" by simp
  ultimately have "luaG_checkcode pt = Inr True \<and> reaches pt (int (sizecode pt))" by simp
  then show ?thesis unfolding pt_def Let_def .
qed

text \<open>
  C38: the symbolic execution that checks a function and looks for the instruction that last changed a
  register always ends and never reads outside the code: for every prototype, however malformed, it
  gives no instruction or one of the code.
\<close>
theorem symbexec_in_code:
  assumes "lastpc \<le> sizecode pt"
  shows "\<exists>i. symbexec pt lastpc reg = Inr i \<and> (i = 0 \<or> i \<in> set (p_code pt))"
  using symbexec_found [OF assms, of reg] by (auto simp: found_at_def)

lemma symbexec_in_code_witness:
  "\<exists>i. symbexec ex_code 4 1 = Inr i \<and> (i = 0 \<or> i \<in> set (p_code ex_code))"
  by (rule symbexec_in_code) (simp add: ex_code_def)

end
