(* ===== verification/LuaHeap.thy ===== *)
theory LuaHeap
  imports LuaTableInv LuaString
begin

text \<open>
  The heap of collectable objects and the operations that colour them (lgc.c, lgc.h), with closures
  and upvalues (lfunc.c). An object is found by its address; the \<open>marked\<close> byte of the header is kept
  apart from the rest. The links \<open>next\<close> and \<open>gclist\<close> of the objects are the lists of the state that they
  make: every object is in one list of each kind. Reading an address that has no object, or an object of another
  type than the code expects, is \<open>ErrUndef\<close>.
\<close>

section \<open>Objects\<close>

text \<open>A thread: globals, stack, \<open>top\<close>, the \<open>top\<close>s of its calls up to \<open>ci\<close>, \<open>size_ci\<close> and the open upvalues.\<close>

record Thread =
  th_gt :: TValue
  th_stack :: "TValue list"
  th_top :: nat
  th_citops :: "nat list"
  th_size_ci :: nat
  th_openupval :: "ptr list"

text \<open>What the collector reads of a prototype; a string or nested prototype not made yet is 0 (NULL).\<close>

record GProto =
  gp_source :: ptr
  gp_k :: "TValue list"
  gp_upvalues :: "ptr list"
  gp_p :: "ptr list"
  gp_locvars :: "ptr list"
  gp_sizecode :: nat
  gp_sizelineinfo :: nat

text \<open>An upvalue is open when its \<open>v\<close> points to a slot of a thread's stack, closed (\<open>None\<close>) when
  it points to the value of its own. \<open>OFree\<close> is an address with no object.\<close>

datatype GCObj =
    OFree
  | OStr string uint
  | OUdata ptr ptr nat        \<comment> \<open>metatable, env, len\<close>
  | OTab Table
  | OCcl ptr "TValue list"    \<comment> \<open>env, upvalues\<close>
  | OLcl ptr ptr "ptr list"   \<comment> \<open>env, p, upvals (0 is NULL)\<close>
  | OUpval "(ptr \<times> nat) option" TValue
  | OThr Thread
  | OProto GProto

fun gch_tt :: "GCObj \<Rightarrow> nat" where
  "gch_tt OFree = LUA_TNIL"
| "gch_tt (OStr s h) = LUA_TSTRING"
| "gch_tt (OUdata mt e n) = LUA_TUSERDATA"
| "gch_tt (OTab t) = LUA_TTABLE"
| "gch_tt (OCcl e vs) = LUA_TFUNCTION"
| "gch_tt (OLcl e p us) = LUA_TFUNCTION"
| "gch_tt (OUpval v x) = LUA_TUPVAL"
| "gch_tt (OThr t) = LUA_TTHREAD"
| "gch_tt (OProto p) = LUA_TPROTO"

text \<open>The part of the states that the collector uses. \<open>gc_sweepgc\<close> is a pointer to a link: \<open>None\<close> is
  \<open>&g->rootgc\<close>, \<open>Some o\<close> the field \<open>next\<close> of \<open>o\<close>. \<open>gc_tmudata\<close> starts at the first element, which
  follows the last one in the circular list.\<close>

record gstate =
  gc_heap :: "ptr \<Rightarrow> GCObj"
  gc_marked :: "ptr \<Rightarrow> lu_byte"
  gc_currentwhite :: lu_byte
  gc_gcstate :: nat
  gc_strt :: "ptr list list"
  gc_nuse :: nat
  gc_sweepstrgc :: nat
  gc_rootgc :: "ptr list"
  gc_sweepgc :: "ptr option"
  gc_gray :: "ptr list"
  gc_grayagain :: "ptr list"
  gc_weak :: "ptr list"
  gc_tmudata :: "ptr list"
  gc_uvhead :: "ptr list"
  gc_mainthread :: ptr
  gc_L :: ptr                 \<comment> \<open>the running thread\<close>
  gc_registry :: TValue
  gc_mt :: "ptr list"
  gc_tmname :: "nat \<Rightarrow> ptr"
  gc_buffsize :: nat
  gc_totalbytes :: "64 word"
  gc_GCthreshold :: "64 word"
  gc_estimate :: "64 word"
  gc_gcdept :: "64 word"
  gc_gcpause :: int
  gc_gcstepmul :: int

definition set_heap :: "gstate \<Rightarrow> ptr \<Rightarrow> GCObj \<Rightarrow> gstate" where
  "set_heap g p x = g\<lparr>gc_heap := (gc_heap g)(p := x)\<rparr>"

definition set_marked :: "gstate \<Rightarrow> ptr \<Rightarrow> lu_byte \<Rightarrow> gstate" where
  "set_marked g p m = g\<lparr>gc_marked := (gc_marked g)(p := m)\<rparr>"

lemma set_marked_fields [simp]:
  "gc_heap (set_marked g p m) = gc_heap g"
  "gc_currentwhite (set_marked g p m) = gc_currentwhite g"
  "gc_gcstate (set_marked g p m) = gc_gcstate g"
  "gc_strt (set_marked g p m) = gc_strt g"
  "gc_nuse (set_marked g p m) = gc_nuse g"
  "gc_sweepstrgc (set_marked g p m) = gc_sweepstrgc g"
  "gc_rootgc (set_marked g p m) = gc_rootgc g"
  "gc_sweepgc (set_marked g p m) = gc_sweepgc g"
  "gc_gray (set_marked g p m) = gc_gray g"
  "gc_grayagain (set_marked g p m) = gc_grayagain g"
  "gc_weak (set_marked g p m) = gc_weak g"
  "gc_tmudata (set_marked g p m) = gc_tmudata g"
  "gc_uvhead (set_marked g p m) = gc_uvhead g"
  "gc_mainthread (set_marked g p m) = gc_mainthread g"
  "gc_L (set_marked g p m) = gc_L g"
  "gc_registry (set_marked g p m) = gc_registry g"
  "gc_mt (set_marked g p m) = gc_mt g"
  "gc_tmname (set_marked g p m) = gc_tmname g"
  "gc_buffsize (set_marked g p m) = gc_buffsize g"
  "gc_totalbytes (set_marked g p m) = gc_totalbytes g"
  "gc_GCthreshold (set_marked g p m) = gc_GCthreshold g"
  "gc_estimate (set_marked g p m) = gc_estimate g"
  "gc_gcdept (set_marked g p m) = gc_gcdept g"
  "gc_gcpause (set_marked g p m) = gc_gcpause g"
  "gc_gcstepmul (set_marked g p m) = gc_gcstepmul g"
  "gc_marked (set_marked g p m) = (gc_marked g)(p := m)"
  by (simp_all add: set_marked_def)

lemma set_heap_fields [simp]:
  "gc_marked (set_heap g p x) = gc_marked g"
  "gc_currentwhite (set_heap g p x) = gc_currentwhite g"
  "gc_gcstate (set_heap g p x) = gc_gcstate g"
  "gc_strt (set_heap g p x) = gc_strt g"
  "gc_nuse (set_heap g p x) = gc_nuse g"
  "gc_sweepstrgc (set_heap g p x) = gc_sweepstrgc g"
  "gc_rootgc (set_heap g p x) = gc_rootgc g"
  "gc_sweepgc (set_heap g p x) = gc_sweepgc g"
  "gc_gray (set_heap g p x) = gc_gray g"
  "gc_grayagain (set_heap g p x) = gc_grayagain g"
  "gc_weak (set_heap g p x) = gc_weak g"
  "gc_tmudata (set_heap g p x) = gc_tmudata g"
  "gc_uvhead (set_heap g p x) = gc_uvhead g"
  "gc_mainthread (set_heap g p x) = gc_mainthread g"
  "gc_L (set_heap g p x) = gc_L g"
  "gc_registry (set_heap g p x) = gc_registry g"
  "gc_mt (set_heap g p x) = gc_mt g"
  "gc_tmname (set_heap g p x) = gc_tmname g"
  "gc_buffsize (set_heap g p x) = gc_buffsize g"
  "gc_totalbytes (set_heap g p x) = gc_totalbytes g"
  "gc_GCthreshold (set_heap g p x) = gc_GCthreshold g"
  "gc_estimate (set_heap g p x) = gc_estimate g"
  "gc_gcdept (set_heap g p x) = gc_gcdept g"
  "gc_gcpause (set_heap g p x) = gc_gcpause g"
  "gc_gcstepmul (set_heap g p x) = gc_gcstepmul g"
  "gc_heap (set_heap g p x) = (gc_heap g)(p := x)"
  by (simp_all add: set_heap_def)

fun mfold :: "('s \<Rightarrow> 'a \<Rightarrow> 's res) \<Rightarrow> 's \<Rightarrow> 'a list \<Rightarrow> 's res" where
  "mfold f s [] = Inr s"
| "mfold f s (x # xs) = bindr (f s x) (\<lambda>s. mfold f s xs)"

text \<open>A computation returns a value with the property \<open>Q\<close>.\<close>

definition returns :: "('a \<Rightarrow> bool) \<Rightarrow> 'a res \<Rightarrow> bool" where
  "returns Q r \<longleftrightarrow> (\<exists>x. r = Inr x \<and> Q x)"

lemma returns_simps [simp]: "returns Q (Inr x) = Q x" "\<not> returns Q (Inl e)"
  by (simp_all add: returns_def)

lemma returns_bindr: "returns Q (bindr r f) = returns (\<lambda>x. returns Q (f x)) r"
  by (auto simp: returns_def bindr_Inr_iff)

lemma returns_conseq: "returns Q r \<Longrightarrow> (\<And>x. Q x \<Longrightarrow> Q' x) \<Longrightarrow> returns Q' r"
  by (auto simp: returns_def)

lemma returns_mfold:
  assumes "I s" and "\<And>x s. x \<in> set xs \<Longrightarrow> I s \<Longrightarrow> returns I (f s x)"
  shows "returns I (mfold f s xs)"
  using assms
proof (induction xs arbitrary: s)
  case (Cons x xs)
  from Cons.prems(2) [of x s] Cons.prems(1) obtain s' where "f s x = Inr s'" "I s'" by (auto simp: returns_def)
  with Cons.IH [of s'] Cons.prems(2) show ?case by simp
qed simp

lemma mfold_cong [fundef_cong]:
  "s = s' \<Longrightarrow> xs = xs' \<Longrightarrow> (\<And>x s. x \<in> set xs' \<Longrightarrow> f s x = h s x) \<Longrightarrow> mfold f s xs = mfold h s' xs'"
  by (induction xs arbitrary: s s' xs') (auto intro!: bindr_cong)

section \<open>Colours\<close>

definition maskmarks :: lu_byte where "maskmarks = NOT (bitmask BLACKBIT OR WHITEBITS)"

definition makewhite_of :: "lu_byte \<Rightarrow> lu_byte \<Rightarrow> lu_byte" where
  "makewhite_of cw m = (m AND maskmarks) OR luaC_white cw"

definition white2gray :: "lu_byte \<Rightarrow> lu_byte" where "white2gray m = reset2bits m WHITE0BIT WHITE1BIT"
definition black2gray :: "lu_byte \<Rightarrow> lu_byte" where "black2gray m = resetbit m BLACKBIT"
definition isfinalized :: "lu_byte \<Rightarrow> bool" where "isfinalized m \<longleftrightarrow> testbit m FINALIZEDBIT"
definition markfinalized :: "lu_byte \<Rightarrow> lu_byte" where "markfinalized m = l_setbit m FINALIZEDBIT"

definition makewhite :: "gstate \<Rightarrow> ptr \<Rightarrow> gstate" where
  "makewhite g x = set_marked g x (makewhite_of (gc_currentwhite g) (gc_marked g x))"

definition stringmark :: "gstate \<Rightarrow> ptr \<Rightarrow> gstate" where
  "stringmark g x = set_marked g x (white2gray (gc_marked g x))"

definition white :: "gstate \<Rightarrow> ptr \<Rightarrow> bool" where "white g x \<longleftrightarrow> iswhite (gc_marked g x)"
definition black :: "gstate \<Rightarrow> ptr \<Rightarrow> bool" where "black g x \<longleftrightarrow> isblack (gc_marked g x)"
definition dead :: "gstate \<Rightarrow> ptr \<Rightarrow> bool" where "dead g x \<longleftrightarrow> isdead (gc_currentwhite g) (gc_marked g x)"

section \<open>Marking\<close>

text \<open>The value \<open>*uv->v\<close>.\<close>

definition uv_value :: "gstate \<Rightarrow> (ptr \<times> nat) option \<Rightarrow> TValue \<Rightarrow> TValue res" where
  "uv_value g v x =
     (case v of
        None \<Rightarrow> Inr x
      | Some (th, i) \<Rightarrow>
          (case gc_heap g th of
             OThr t \<Rightarrow> if i < length (th_stack t) then Inr (th_stack t ! i) else Inl ErrUndef
           | _ \<Rightarrow> Inl ErrUndef))"

definition upval_value :: "gstate \<Rightarrow> ptr \<Rightarrow> TValue res" where
  "upval_value g uv = (case gc_heap g uv of OUpval v x \<Rightarrow> uv_value g v x | _ \<Rightarrow> Inl ErrUndef)"

definition markobject_with :: "(gstate \<Rightarrow> ptr \<Rightarrow> gstate res) \<Rightarrow> gstate \<Rightarrow> ptr \<Rightarrow> gstate res" where
  "markobject_with f g p = (if white g p then f g p else Inr g)"

definition markvalue_with :: "(gstate \<Rightarrow> ptr \<Rightarrow> gstate res) \<Rightarrow> gstate \<Rightarrow> TValue \<Rightarrow> gstate res" where
  "markvalue_with f g v = (if iscollectable v \<and> white g (gcvalue v) then f g (gcvalue v) else Inr g)"

text \<open>The recursion goes from an upvalue to its value, from a userdata to its tables, and no deeper:
  an object that can be large is only put in the list \<open>gray\<close>. The first argument is this depth.\<close>

definition MARKDEPTH :: nat where "MARKDEPTH = 3"

fun mark_depth :: "nat \<Rightarrow> gstate \<Rightarrow> ptr \<Rightarrow> gstate res" where
  "mark_depth 0 g p = Inl ErrFuel"
| "mark_depth (Suc d) g p =
     (let g = set_marked g p (white2gray (gc_marked g p)) in
      case gc_heap g p of
        OFree \<Rightarrow> Inl ErrUndef
      | OStr s h \<Rightarrow> Inr g
      | OUdata mt env n \<Rightarrow>
          let g = set_marked g p (gray2black (gc_marked g p)) in
          bindr (if mt \<noteq> 0 then markobject_with (mark_depth d) g mt else Inr g) (\<lambda>g.
          markobject_with (mark_depth d) g env)
      | OUpval v x \<Rightarrow>
          bindr (uv_value g v x) (\<lambda>y.
          bindr (markvalue_with (mark_depth d) g y) (\<lambda>g.
          Inr (if v = None then set_marked g p (gray2black (gc_marked g p)) else g)))
      | _ \<Rightarrow> Inr (g\<lparr>gc_gray := p # gc_gray g\<rparr>))"

definition reallymarkobject :: "gstate \<Rightarrow> ptr \<Rightarrow> gstate res" where
  "reallymarkobject = mark_depth MARKDEPTH"

definition markobject :: "gstate \<Rightarrow> ptr \<Rightarrow> gstate res" where
  "markobject = markobject_with reallymarkobject"

definition markvalue :: "gstate \<Rightarrow> TValue \<Rightarrow> gstate res" where
  "markvalue = markvalue_with reallymarkobject"

section \<open>Barriers and new objects\<close>

definition valiswhite :: "gstate \<Rightarrow> TValue \<Rightarrow> bool" where
  "valiswhite g v \<longleftrightarrow> iscollectable v \<and> white g (gcvalue v)"

definition luaC_barrierf :: "gstate \<Rightarrow> ptr \<Rightarrow> ptr \<Rightarrow> gstate res" where
  "luaC_barrierf g p v =
     (if gc_gcstate g = GCSpropagate then reallymarkobject g v else Inr (makewhite g p))"

definition luaC_barrierback :: "gstate \<Rightarrow> ptr \<Rightarrow> gstate" where
  "luaC_barrierback g t =
     (let g = set_marked g t (black2gray (gc_marked g t)) in g\<lparr>gc_grayagain := t # gc_grayagain g\<rparr>)"

definition luaC_barrier :: "gstate \<Rightarrow> ptr \<Rightarrow> TValue \<Rightarrow> gstate res" where
  "luaC_barrier g p v = (if valiswhite g v \<and> black g p then luaC_barrierf g p (gcvalue v) else Inr g)"

definition luaC_barriert :: "gstate \<Rightarrow> ptr \<Rightarrow> TValue \<Rightarrow> gstate" where
  "luaC_barriert g t v = (if valiswhite g v \<and> black g t then luaC_barrierback g t else g)"

definition luaC_objbarrier :: "gstate \<Rightarrow> ptr \<Rightarrow> ptr \<Rightarrow> gstate res" where
  "luaC_objbarrier g p x = (if white g x \<and> black g p then luaC_barrierf g p x else Inr g)"

definition luaC_objbarriert :: "gstate \<Rightarrow> ptr \<Rightarrow> ptr \<Rightarrow> gstate" where
  "luaC_objbarriert g t x = (if white g x \<and> black g t then luaC_barrierback g t else g)"

text \<open>The new object \<open>x\<close> at the address \<open>p\<close> that the allocator gave.\<close>

definition luaC_link :: "gstate \<Rightarrow> ptr \<Rightarrow> GCObj \<Rightarrow> gstate" where
  "luaC_link g p x =
     (let g = g\<lparr>gc_rootgc := p # gc_rootgc g\<rparr>;
          g = set_marked g p (luaC_white (gc_currentwhite g))
      in set_heap g p x)"

definition isgray_obj :: "gstate \<Rightarrow> ptr \<Rightarrow> bool" where "isgray_obj g p \<longleftrightarrow> isgray (gc_marked g p)"

definition luaC_linkupval :: "gstate \<Rightarrow> ptr \<Rightarrow> gstate res" where
  "luaC_linkupval g uv =
     (let g = g\<lparr>gc_rootgc := uv # gc_rootgc g\<rparr> in
      if isgray_obj g uv then
        if gc_gcstate g = GCSpropagate then
          let g = set_marked g uv (gray2black (gc_marked g uv)) in
          bindr (upval_value g uv) (\<lambda>y. luaC_barrier g uv y)
        else Inr (makewhite g uv)
      else Inr g)"

section \<open>Closures and upvalues\<close>

text \<open>Sizes on the usual 64-bit target.\<close>

definition sizeof_TValue :: nat where "sizeof_TValue = 16"
definition sizeof_UpVal :: nat where "sizeof_UpVal = 40"
definition sizeof_Proto :: nat where "sizeof_Proto = 120"
definition sizeof_LocVar :: nat where "sizeof_LocVar = 16"
definition sizeof_ptr :: nat where "sizeof_ptr = 8"
definition sizeof_Instruction :: nat where "sizeof_Instruction = 4"
definition sizeof_int :: nat where "sizeof_int = 4"
definition sizeCclosure :: "nat \<Rightarrow> nat" where "sizeCclosure n = 40 + 16 * n"
definition sizeLclosure :: "nat \<Rightarrow> nat" where "sizeLclosure n = 40 + 8 * n"

text \<open>\<open>luaM_freemem\<close>: the block is given back and its size taken from the account.\<close>

definition luaM_freemem :: "gstate \<Rightarrow> nat \<Rightarrow> gstate" where
  "luaM_freemem g n = g\<lparr>gc_totalbytes := gc_totalbytes g - word_of_nat n\<rparr>"

definition luaM_newmem :: "gstate \<Rightarrow> nat \<Rightarrow> gstate" where
  "luaM_newmem g n = g\<lparr>gc_totalbytes := gc_totalbytes g + word_of_nat n\<rparr>"

text \<open>The closures are made with their upvalues unset (nil, NULL).\<close>

definition luaF_newCclosure :: "gstate \<Rightarrow> ptr \<Rightarrow> nat \<Rightarrow> ptr \<Rightarrow> gstate" where
  "luaF_newCclosure g p nelems e =
     luaC_link (luaM_newmem g (sizeCclosure nelems)) p (OCcl e (replicate nelems TNil))"

definition luaF_newLclosure :: "gstate \<Rightarrow> ptr \<Rightarrow> nat \<Rightarrow> ptr \<Rightarrow> ptr \<Rightarrow> gstate" where
  "luaF_newLclosure g p nelems e pt =
     luaC_link (luaM_newmem g (sizeLclosure nelems)) p (OLcl e pt (replicate nelems 0))"

definition luaF_newupval :: "gstate \<Rightarrow> ptr \<Rightarrow> gstate" where
  "luaF_newupval g p = luaC_link (luaM_newmem g sizeof_UpVal) p (OUpval None TNil)"

definition thread_at :: "gstate \<Rightarrow> ptr \<Rightarrow> Thread res" where
  "thread_at g p = (case gc_heap g p of OThr t \<Rightarrow> Inr t | _ \<Rightarrow> Inl ErrUndef)"

text \<open>The level of an open upvalue, and the split of the list at \<open>level\<close>: those above it, and the rest.\<close>

definition uv_level :: "gstate \<Rightarrow> ptr \<Rightarrow> nat res" where
  "uv_level g u = (case gc_heap g u of OUpval (Some (th, i)) x \<Rightarrow> Inr i | _ \<Rightarrow> Inl ErrUndef)"

fun find_level :: "gstate \<Rightarrow> nat \<Rightarrow> ptr list \<Rightarrow> (ptr list \<times> ptr option \<times> ptr list) res" where
  "find_level g level [] = Inr ([], None, [])"
| "find_level g level (p # ps) =
     bindr (uv_level g p) (\<lambda>i.
     if level < i then bindr (find_level g level ps) (\<lambda>(above, r, rest). Inr (p # above, r, rest))
     else if i = level then Inr ([], Some p, p # ps)
     else Inr ([], None, p # ps))"

definition luaF_findupval :: "gstate \<Rightarrow> ptr \<Rightarrow> nat \<Rightarrow> ptr \<Rightarrow> (gstate \<times> ptr) res" where
  "luaF_findupval g L level new =
     bindr (thread_at g L) (\<lambda>t.
     bindr (find_level g level (th_openupval t)) (\<lambda>(above, r, rest).
     case r of
       Some p \<Rightarrow> Inr (if dead g p then set_marked g p (changewhite (gc_marked g p)) else g, p)
     | None \<Rightarrow>
         let g = luaM_newmem g sizeof_UpVal;
             g = set_heap g new (OUpval (Some (L, level)) TNil);
             g = set_marked g new (luaC_white (gc_currentwhite g));
             g = set_heap g L (OThr (t\<lparr>th_openupval := above @ new # rest\<rparr>));
             g = g\<lparr>gc_uvhead := new # gc_uvhead g\<rparr>
         in Inr (g, new)))"

definition unlinkupval :: "gstate \<Rightarrow> ptr \<Rightarrow> gstate" where
  "unlinkupval g uv = g\<lparr>gc_uvhead := remove1 uv (gc_uvhead g)\<rparr>"

definition luaF_freeupval :: "gstate \<Rightarrow> ptr \<Rightarrow> gstate res" where
  "luaF_freeupval g uv =
     (case gc_heap g uv of
        OUpval v x \<Rightarrow>
          let g = (if v \<noteq> None then unlinkupval g uv else g)
          in Inr (luaM_freemem (set_heap g uv OFree) sizeof_UpVal)
      | _ \<Rightarrow> Inl ErrUndef)"

text \<open>The loop over the list of open upvalues of the thread \<open>L\<close>.\<close>

fun close_loop :: "gstate \<Rightarrow> ptr \<Rightarrow> nat \<Rightarrow> ptr list \<Rightarrow> gstate res" where
  "close_loop g L level [] = Inr g"
| "close_loop g L level (uv # us) =
     bindr (uv_level g uv) (\<lambda>i.
     if level \<le> i then
       bindr (thread_at g L) (\<lambda>t.
       let g = set_heap g L (OThr (t\<lparr>th_openupval := us\<rparr>)) in
       bindr (if dead g uv then luaF_freeupval g uv
              else let g = unlinkupval g uv in
                bindr (upval_value g uv) (\<lambda>y.
                luaC_linkupval (set_heap g uv (OUpval None y)) uv)) (\<lambda>g.
       close_loop g L level us))
     else Inr g)"

definition luaF_close :: "gstate \<Rightarrow> ptr \<Rightarrow> nat \<Rightarrow> gstate res" where
  "luaF_close g L level = bindr (thread_at g L) (\<lambda>t. close_loop g L level (th_openupval t))"

definition luaF_freeproto :: "gstate \<Rightarrow> ptr \<Rightarrow> GProto \<Rightarrow> gstate" where
  "luaF_freeproto g p f =
     luaM_freemem (set_heap g p OFree)
       (gp_sizecode f * sizeof_Instruction + length (gp_p f) * sizeof_ptr + length (gp_k f) * sizeof_TValue +
        gp_sizelineinfo f * sizeof_int + length (gp_locvars f) * sizeof_LocVar +
        length (gp_upvalues f) * sizeof_ptr + sizeof_Proto)"

definition luaF_freeclosure :: "gstate \<Rightarrow> ptr \<Rightarrow> nat \<Rightarrow> gstate" where
  "luaF_freeclosure g p n = luaM_freemem (set_heap g p OFree) n"

end
