(* ===== verification/LuaGC.thy ===== *)
theory LuaGC
  imports LuaHeap
begin

text \<open>
  The incremental collector (lgc.c): marking, the atomic step, sweeping, finalizers, and the step
  that drives them.
\<close>

section \<open>Tag methods of metatables\<close>

definition TM_GC_event :: nat where "TM_GC_event = 2"
definition TM_MODE_event :: nat where "TM_MODE_event = 3"

definition str_hash :: "gstate \<Rightarrow> ptr \<Rightarrow> nat" where
  "str_hash g p = (case gc_heap g p of OStr s h \<Rightarrow> unat h | _ \<Rightarrow> 0)"

definition tab_at :: "gstate \<Rightarrow> ptr \<Rightarrow> Table res" where
  "tab_at g p = (case gc_heap g p of OTab t \<Rightarrow> Inr t | _ \<Rightarrow> Inl ErrUndef)"

text \<open>\<open>gfasttm\<close>: \<open>None\<close> is NULL; an absent method is remembered in the flags of the metatable.\<close>

definition gfasttm :: "gstate \<Rightarrow> ptr \<Rightarrow> nat \<Rightarrow> (TValue option \<times> gstate) res" where
  "gfasttm g et e =
     (if et = 0 then Inr (None, g)
      else bindr (tab_at g et) (\<lambda>t.
        if bit (t_flags t) e then Inr (None, g)
        else bindr (luaH_getstr (str_hash g) t (gc_tmname g e)) (\<lambda>slot.
          if slot_val t slot = TNil
          then Inr (None, set_heap g et (OTab (t\<lparr>t_flags := t_flags t OR push_bit e 1\<rparr>)))
          else Inr (Some (slot_val t slot), g))))"

section \<open>Traversing gray objects\<close>

text \<open>\<open>removeentry\<close>: the key of an empty node becomes dead.\<close>

definition removeentry :: "Node \<Rightarrow> Node" where
  "removeentry n = (if iscollectable (gkey n) then n\<lparr>gkey := TDeadKey (gcvalue (gkey n))\<rparr> else n)"

definition set_node_at :: "gstate \<Rightarrow> ptr \<Rightarrow> nat \<Rightarrow> Node \<Rightarrow> gstate res" where
  "set_node_at g p i n = bindr (tab_at g p) (\<lambda>t. Inr (set_heap g p (OTab (t\<lparr>t_node := (t_node t)[i := n]\<rparr>))))"

text \<open>One node of the table at \<open>p\<close>.\<close>

definition traverse_node :: "ptr \<Rightarrow> bool \<Rightarrow> bool \<Rightarrow> gstate \<Rightarrow> nat \<Rightarrow> gstate res" where
  "traverse_node p weakkey weakvalue g i =
     bindr (tab_at g p) (\<lambda>t.
     let n = t_node t ! i in
     if gval n = TNil then set_node_at g p i (removeentry n)
     else
       bindr (if \<not> weakkey then markvalue g (gkey n) else Inr g) (\<lambda>g.
       if \<not> weakvalue then markvalue g (gval n) else Inr g))"

definition weak_bits :: "bool \<Rightarrow> bool \<Rightarrow> lu_byte \<Rightarrow> lu_byte" where
  "weak_bits weakkey weakvalue m =
     (m AND NOT (bitmask KEYWEAKBIT OR bitmask VALUEWEAKBIT)) OR
     (push_bit KEYWEAKBIT (of_bool weakkey) OR push_bit VALUEWEAKBIT (of_bool weakvalue))"

text \<open>The weak mode that \<open>__mode\<close> asks for, and the table put in the list of weak tables.\<close>

definition weak_mode :: "gstate \<Rightarrow> TValue option \<Rightarrow> bool \<times> bool" where
  "weak_mode g mode =
     (case mode of
        Some (TStr p) \<Rightarrow>
          (case gc_heap g p of
             OStr s h \<Rightarrow> let s = takeWhile (\<lambda>c. c \<noteq> CHR 0x00) s in (CHR ''k'' \<in> set s, CHR ''v'' \<in> set s)
           | _ \<Rightarrow> (False, False))
      | _ \<Rightarrow> (False, False))"

definition enter_weak :: "gstate \<Rightarrow> ptr \<Rightarrow> bool \<Rightarrow> bool \<Rightarrow> gstate" where
  "enter_weak g p weakkey weakvalue =
     (if weakkey \<or> weakvalue then
        let g = set_marked g p (weak_bits weakkey weakvalue (gc_marked g p))
        in g\<lparr>gc_weak := p # gc_weak g\<rparr>
      else g)"

definition traversetable :: "gstate \<Rightarrow> ptr \<Rightarrow> (bool \<times> gstate) res" where
  "traversetable g p =
     bindr (tab_at g p) (\<lambda>h.
     bindr (if t_metatable h \<noteq> 0 then markobject g (t_metatable h) else Inr g) (\<lambda>g.
     bindr (gfasttm g (t_metatable h) TM_MODE_event) (\<lambda>(mode, g).
     let (weakkey, weakvalue) = weak_mode g mode;
         g = enter_weak g p weakkey weakvalue in
     if weakkey \<and> weakvalue then Inr (True, g)
     else
       bindr (if \<not> weakvalue then mfold markvalue g (rev (t_array h)) else Inr g) (\<lambda>g.
       bindr (mfold (traverse_node p weakkey weakvalue) g (rev [0..<length (t_node h)])) (\<lambda>g.
       Inr (weakkey \<or> weakvalue, g))))))"

definition markstr :: "gstate \<Rightarrow> ptr \<Rightarrow> gstate" where
  "markstr g p = (if p \<noteq> 0 then stringmark g p else g)"

definition traverseproto :: "gstate \<Rightarrow> GProto \<Rightarrow> gstate res" where
  "traverseproto g f =
     (let g = markstr g (gp_source f) in
      bindr (mfold markvalue g (gp_k f)) (\<lambda>g.
      let g = fold (\<lambda>p g. markstr g p) (gp_upvalues f) g in
      bindr (mfold (\<lambda>g p. if p \<noteq> 0 then markobject g p else Inr g) g (gp_p f)) (\<lambda>g.
      Inr (fold (\<lambda>p g. markstr g p) (gp_locvars f) g))))"

text \<open>Every upvalue of a Lua closure is there when the collector can see the closure.\<close>

definition traverseclosure :: "gstate \<Rightarrow> GCObj \<Rightarrow> gstate res" where
  "traverseclosure g cl =
     (case cl of
        OCcl env vs \<Rightarrow> bindr (markobject g env) (\<lambda>g. mfold markvalue g vs)
      | OLcl env pt us \<Rightarrow> bindr (markobject g env) (\<lambda>g. bindr (markobject g pt) (\<lambda>g. mfold markobject g us))
      | _ \<Rightarrow> Inl ErrUndef)"

definition LUAI_MAXCALLS :: nat where "LUAI_MAXCALLS = 20000"
definition BASIC_CI_SIZE :: nat where "BASIC_CI_SIZE = 8"
definition BASIC_STACK_SIZE :: nat where "BASIC_STACK_SIZE = 2 * 20"
definition sizeof_CallInfo :: nat where "sizeof_CallInfo = 40"
definition sizeof_lua_State :: nat where "sizeof_lua_State = 184"
definition sizeof_Table :: nat where "sizeof_Table = 64"
definition sizeof_Node :: nat where "sizeof_Node = 40"

text \<open>A larger stack has arbitrary values in its new part.\<close>

definition luaD_reallocCI :: "gstate \<Rightarrow> ptr \<Rightarrow> Thread \<Rightarrow> nat \<Rightarrow> gstate" where
  "luaD_reallocCI g l t newsize =
     (let g = g\<lparr>gc_totalbytes := gc_totalbytes g - word_of_nat (th_size_ci t * sizeof_CallInfo)
                   + word_of_nat (newsize * sizeof_CallInfo)\<rparr>
      in set_heap g l (OThr (t\<lparr>th_size_ci := newsize\<rparr>)))"

definition luaD_shrinkstack :: "gstate \<Rightarrow> ptr \<Rightarrow> Thread \<Rightarrow> nat \<Rightarrow> gstate" where
  "luaD_shrinkstack g l t newsize =
     (let realsize = newsize + 1 + EXTRA_STACK;
          g = g\<lparr>gc_totalbytes := gc_totalbytes g - word_of_nat (length (th_stack t) * sizeof_TValue)
                   + word_of_nat (realsize * sizeof_TValue)\<rparr>
      in set_heap g l (OThr (t\<lparr>th_stack := take realsize (th_stack t)\<rparr>)))"

definition checkstacksizes :: "gstate \<Rightarrow> ptr \<Rightarrow> nat \<Rightarrow> gstate res" where
  "checkstacksizes g l lim =
     bindr (thread_at g l) (\<lambda>t.
     let ci_used = length (th_citops t) - 1; s_used = lim in
     if LUAI_MAXCALLS < th_size_ci t then Inr g
     else
       let g = (if 4 * ci_used < th_size_ci t \<and> 2 * BASIC_CI_SIZE < th_size_ci t
                then luaD_reallocCI g l t (th_size_ci t div 2) else g) in
       bindr (thread_at g l) (\<lambda>t.
       Inr (if 4 * s_used < length (th_stack t) \<and> 2 * (BASIC_STACK_SIZE + EXTRA_STACK) < length (th_stack t)
            then luaD_shrinkstack g l t (length (th_stack t) div 2) else g)))"

text \<open>The slots from \<open>top\<close> to the highest \<open>top\<close> of a call, that one too, are cleared.\<close>

definition traversestack :: "gstate \<Rightarrow> ptr \<Rightarrow> gstate res" where
  "traversestack g l =
     bindr (thread_at g l) (\<lambda>t.
     bindr (markvalue g (th_gt t)) (\<lambda>g.
     let lim = fold max (th_citops t) (th_top t) in
     bindr (mfold markvalue g (take (th_top t) (th_stack t))) (\<lambda>g.
     if lim < length (th_stack t) then
       let st = take (th_top t) (th_stack t) @ replicate (lim + 1 - th_top t) TNil @ drop (lim + 1) (th_stack t)
       in checkstacksizes (set_heap g l (OThr (t\<lparr>th_stack := st\<rparr>))) l lim
     else Inl ErrUndef)))"

text \<open>\<open>propagatemark\<close>: the first gray object; the result is the size traversed.\<close>

definition propagatemark :: "gstate \<Rightarrow> (nat \<times> gstate) res" where
  "propagatemark g =
     (case gc_gray g of
        [] \<Rightarrow> Inl ErrUndef
      | p # gray \<Rightarrow>
          let g = set_marked g p (gray2black (gc_marked g p)); g = g\<lparr>gc_gray := gray\<rparr> in
          case gc_heap g p of
            OTab h \<Rightarrow>
              bindr (traversetable g p) (\<lambda>(w, g).
              Inr (sizeof_Table + sizeof_TValue * sizearray h + sizeof_Node * length (t_node h),
                   if w then set_marked g p (black2gray (gc_marked g p)) else g))
          | OCcl env vs \<Rightarrow> bindr (traverseclosure g (OCcl env vs)) (\<lambda>g. Inr (sizeCclosure (length vs), g))
          | OLcl env pt us \<Rightarrow> bindr (traverseclosure g (OLcl env pt us)) (\<lambda>g. Inr (sizeLclosure (length us), g))
          | OThr t \<Rightarrow>
              let g = g\<lparr>gc_grayagain := p # gc_grayagain g\<rparr>;
                  g = set_marked g p (black2gray (gc_marked g p)) in
              bindr (traversestack g p) (\<lambda>g.
              bindr (thread_at g p) (\<lambda>t.
              Inr (sizeof_lua_State + sizeof_TValue * length (th_stack t) + sizeof_CallInfo * th_size_ci t, g)))
          | OProto f \<Rightarrow>
              bindr (traverseproto g f) (\<lambda>g.
              Inr (sizeof_Proto + sizeof_Instruction * gp_sizecode f + sizeof_ptr * length (gp_p f) +
                   sizeof_TValue * length (gp_k f) + sizeof_int * gp_sizelineinfo f +
                   sizeof_LocVar * length (gp_locvars f) + sizeof_ptr * length (gp_upvalues f), g))
          | _ \<Rightarrow> Inl ErrUndef)"

section \<open>Marking comes to an end\<close>

text \<open>The white objects and the entries of the list \<open>gray\<close> together: marking does not raise it.\<close>

definition gray_work :: "gstate \<Rightarrow> nat" where
  "gray_work g = card {p. white g p} + length (gc_gray g)"

definition work_le :: "gstate \<Rightarrow> gstate \<Rightarrow> bool" where
  "work_le g g' \<longleftrightarrow> gray_work g' \<le> gray_work g"

named_theorems work_intros "operations that do not add work"

lemma work_le_refl [work_intros]: "work_le g g" by (simp add: work_le_def)
lemma work_le_trans: "work_le g g' \<Longrightarrow> work_le g' g'' \<Longrightarrow> work_le g g''" by (simp add: work_le_def)

lemma work_le_same: "gc_marked g' = gc_marked g \<Longrightarrow> gc_gray g' = gc_gray g \<Longrightarrow> work_le g g'"
  by (simp add: work_le_def gray_work_def white_def)

lemma byte_bit: "bit (m :: lu_byte) n \<Longrightarrow> n < 8"
  using bit_imp_le_length [of m n] by simp

lemma bit_white2gray: "bit (white2gray m) n \<longleftrightarrow> bit m n \<and> 2 \<le> n"
proof -
  have "white2gray m = m AND NOT 3"
    using whitebits [unfolded WHITEBITS_def] by (simp only: white2gray_def reset2bits_def resetbits_def)
  then show ?thesis using bit_imp_possible_bit [of m n]
    unfolding \<open>white2gray m = _\<close> bit_and_iff bit_not_iff bit_three by auto
qed

lemma bit_bitmask: "bit (bitmask k) n \<longleftrightarrow> n = k \<and> n < 8"
  by (auto simp: bitmask_def bit_simps)

lemma bit_gray2black: "bit (gray2black m) n \<longleftrightarrow> bit m n \<or> n = 2"
  by (auto simp: gray2black_def l_setbit_def setbits_def bit_bitmask bit_or_iff BLACKBIT_def)

lemma bit_black2gray: "bit (black2gray m) n \<longleftrightarrow> bit m n \<and> n \<noteq> 2"
  using byte_bit [of m n]
  by (auto simp: black2gray_def resetbit_def resetbits_def bit_bitmask bit_and_iff bit_not_iff BLACKBIT_def)

lemma iswhite_bits [simp]: "iswhite (gray2black m) = iswhite m" "iswhite (black2gray m) = iswhite m" "\<not> iswhite (white2gray m)"
  by (simp_all add: iswhite_iff bit_gray2black bit_black2gray bit_white2gray)

lemma set_marked_twice [simp]: "set_marked (set_marked g p m) p m' = set_marked g p m'"
  by (simp add: set_marked_def)

lemma white_set_marked: "white (set_marked g p m) q \<longleftrightarrow> (if q = p then iswhite m else white g q)"
  by (simp add: white_def set_marked_def)

lemma gray_work_whiten:
  assumes "\<not> iswhite m"
  shows "gray_work (set_marked g p m) + (if white g p then 1 else 0) = gray_work g"
proof -
  have "{q. white (set_marked g p m) q} = {q. white g q} - {p}" using assms by (auto simp: white_set_marked)
  moreover have "0 < card {q. white g q}" if "white g p" using that by (auto simp: card_gt_0_iff)
  ultimately show ?thesis by (simp add: gray_work_def set_marked_def card_Diff_singleton_if)
qed

lemma work_le_set_marked: "iswhite m \<Longrightarrow> white g p \<Longrightarrow> work_le g (set_marked g p m)"
proof -
  assume "iswhite m" "white g p"
  then have "{q. white (set_marked g p m) q} = {q. white g q}" by (auto simp: white_set_marked)
  then show ?thesis by (simp add: work_le_def gray_work_def set_marked_def)
qed

lemma work_le_marked: "(iswhite m \<Longrightarrow> white g p) \<Longrightarrow> work_le g (set_marked g p m)"
  using gray_work_whiten [of m g p] work_le_set_marked [of m g p] by (cases "iswhite m") (simp_all add: work_le_def)

lemma work_le_bindr: "bindr r f = Inr g' \<Longrightarrow> (\<And>x. r = Inr x \<Longrightarrow> f x = Inr g' \<Longrightarrow> P) \<Longrightarrow> P"
  by (auto simp: bindr_Inr_iff)

lemma mark_depth_work:
  "white g p \<Longrightarrow> mark_depth d g p = Inr g' \<Longrightarrow> work_le g g'"
proof (induction d arbitrary: g p g')
  case (Suc d)
  have mo: "work_le h h'" if "markobject_with (mark_depth d) h q = Inr h'" for h q h'
    using that Suc.IH [of h q h'] by (auto simp: markobject_with_def work_le_def split: if_splits)
  have mv: "work_le h h'" if "markvalue_with (mark_depth d) h v = Inr h'" for h v h'
    using that Suc.IH [of h "gcvalue v" h'] by (auto simp: markvalue_with_def work_le_def split: if_splits)
  let ?g = "set_marked g p (white2gray (gc_marked g p))"
  have w: "gray_work ?g + 1 = gray_work g" using gray_work_whiten [of _ g p] Suc.prems(1) by simp
  then have g: "work_le g ?g" by (simp add: work_le_def)
  have blk: "work_le h (set_marked h p (gray2black (gc_marked h p)))" for h
    by (rule work_le_marked) (simp add: white_def)
  have push: "work_le g (?g\<lparr>gc_gray := p # gc_gray ?g\<rparr>)"
    using w by (simp add: work_le_def gray_work_def white_def)
  show ?case
  proof (cases "gc_heap g p")
    case (OUdata mt env n)
    let ?h = "set_marked g p (gray2black (white2gray (gc_marked g p)))"
    obtain h where h: "(if mt \<noteq> 0 then markobject_with (mark_depth d) ?h mt else Inr ?h) = Inr h"
      "markobject_with (mark_depth d) h env = Inr g'"
      using Suc.prems(2) OUdata that by (auto simp: Let_def bindr_Inr_iff)
    have "work_le ?h h" using h(1) mo by (cases "mt = 0") (auto simp: work_le_refl)
    then show ?thesis using g blk [of ?g, simplified] mo [OF h(2)] work_le_trans by blast
  next
    case (OUpval v x)
    with Suc.prems(2) obtain y h where h: "markvalue_with (mark_depth d) ?g y = Inr h"
      "g' = (if v = None then set_marked h p (gray2black (gc_marked h p)) else h)"
      by (auto simp: Let_def bindr_Inr_iff split: if_splits)
    then show ?thesis using g blk mv work_le_trans by metis
  qed (use Suc.prems(2) g push in \<open>auto simp: Let_def\<close>)
qed simp

lemma markobject_work: "markobject g p = Inr g' \<Longrightarrow> work_le g g'"
  using mark_depth_work [of g p MARKDEPTH g']
  by (auto simp: markobject_def markobject_with_def reallymarkobject_def work_le_refl split: if_splits)

lemma markvalue_work: "markvalue g v = Inr g' \<Longrightarrow> work_le g g'"
  using mark_depth_work [of g "gcvalue v" MARKDEPTH g']
  by (auto simp: markvalue_def markvalue_with_def reallymarkobject_def work_le_refl split: if_splits)

lemma mfold_work:
  assumes "mfold f g xs = Inr g'" and "\<And>g x g'. f g x = Inr g' \<Longrightarrow> work_le g g'"
  shows "work_le g g'"
  using assms(1)
proof (induction xs arbitrary: g)
  case (Cons x xs)
  then obtain h where "f g x = Inr h" "mfold f h xs = Inr g'" by (auto simp: bindr_Inr_iff)
  with Cons.IH assms(2) work_le_trans show ?case by blast
qed (simp add: work_le_refl)

lemma markvalues_work: "mfold markvalue g xs = Inr g' \<Longrightarrow> work_le g g'"
  by (erule mfold_work) (rule markvalue_work)

lemma markobjects_work: "mfold markobject g xs = Inr g' \<Longrightarrow> work_le g g'"
  by (erule mfold_work) (rule markobject_work)

lemma gfasttm_work: "gfasttm g et e = Inr (tm, g') \<Longrightarrow> work_le g g'"
  by (auto simp: gfasttm_def bindr_Inr_iff work_le_refl intro!: work_le_same split: if_splits)

lemma traverse_node_work: "traverse_node p wk wv g i = Inr g' \<Longrightarrow> work_le g g'"
  by (auto simp: traverse_node_def set_node_at_def bindr_Inr_iff Let_def work_le_refl split: if_splits
      intro: work_le_same work_le_trans dest!: markvalue_work)

lemma traverse_nodes_work: "mfold (traverse_node p wk wv) g xs = Inr g' \<Longrightarrow> work_le g g'"
  by (erule mfold_work) (rule traverse_node_work)

lemma iswhite_weak_bits [simp]: "iswhite (weak_bits wk wv m) = iswhite m"
  by (auto simp: iswhite_iff weak_bits_def bit_bitmask bit_and_iff bit_or_iff bit_not_iff
      bit_push_bit_iff KEYWEAKBIT_def VALUEWEAKBIT_def)

lemma enter_weak_work: "work_le g (enter_weak g p wk wv)"
proof -
  let ?g = "set_marked g p (weak_bits wk wv (gc_marked g p))"
  have "work_le g ?g" by (rule work_le_marked) (simp add: white_def)
  moreover have "work_le ?g (?g\<lparr>gc_weak := p # gc_weak g\<rparr>)" by (rule work_le_same) simp_all
  ultimately show ?thesis by (auto simp: enter_weak_def Let_def work_le_refl intro: work_le_trans)
qed

lemma traversetable_work: "traversetable g p = Inr (w, g') \<Longrightarrow> work_le g g'"
proof -
  assume t: "traversetable g p = Inr (w, g')"
  obtain h g1 mode g2 where g: "tab_at g p = Inr h"
    "(if t_metatable h \<noteq> 0 then markobject g (t_metatable h) else Inr g) = Inr g1"
    "gfasttm g1 (t_metatable h) TM_MODE_event = Inr (mode, g2)"
    using t unfolding traversetable_def by (fastforce simp: bindr_Inr_iff simp del: split_paired_Ex)
  obtain wk wv where m: "weak_mode g2 mode = (wk, wv)" by fastforce
  let ?g = "enter_weak g2 p wk wv"
  have "work_le g g1" using g(2) markobject_work by (auto simp: work_le_refl split: if_splits)
  moreover have "work_le g1 g2" using g(3) by (rule gfasttm_work)
  moreover have "work_le g2 ?g" by (rule enter_weak_work)
  moreover have "work_le ?g g'"
  proof (cases "wk \<and> wv")
    case False
    with t g m obtain g3 where r: "(if \<not> wv then mfold markvalue ?g (rev (t_array h)) else Inr ?g) = Inr g3"
      "mfold (traverse_node p wk wv) g3 (rev [0..<length (t_node h)]) = Inr g'"
      by (auto simp: traversetable_def bindr_Inr_iff Let_def)
    have "work_le ?g g3" using r(1) markvalues_work by (cases wv) (auto simp: work_le_refl)
    moreover have "work_le g3 g'" using r(2) by (rule traverse_nodes_work)
    ultimately show ?thesis by (rule work_le_trans)
  qed (use t g m in \<open>auto simp: traversetable_def work_le_refl Let_def\<close>)
  ultimately show ?thesis using work_le_trans by blast
qed

lemma stringmark_work: "work_le g (stringmark g p)"
  unfolding stringmark_def by (rule work_le_marked) simp

lemma markstr_fold_work: "work_le g (fold (\<lambda>p g. markstr g p) ps g)"
  by (induction ps arbitrary: g) (auto simp: markstr_def work_le_refl intro: work_le_trans stringmark_work)

lemma traverseproto_work: "traverseproto g f = Inr g' \<Longrightarrow> work_le g g'"
proof -
  assume "traverseproto g f = Inr g'"
  then obtain g1 g2 where g: "mfold markvalue (markstr g (gp_source f)) (gp_k f) = Inr g1"
    "mfold (\<lambda>g p. if p \<noteq> 0 then markobject g p else Inr g) (fold (\<lambda>p g. markstr g p) (gp_upvalues f) g1) (gp_p f) = Inr g2"
    "g' = fold (\<lambda>p g. markstr g p) (gp_locvars f) g2"
    by (auto simp: traverseproto_def Let_def bindr_Inr_iff)
  have "work_le g (markstr g (gp_source f))" by (simp add: markstr_def work_le_refl stringmark_work)
  moreover have "work_le (markstr g (gp_source f)) g1" using g(1) by (rule markvalues_work)
  moreover have "work_le (fold (\<lambda>p g. markstr g p) (gp_upvalues f) g1) g2"
    by (rule mfold_work [OF g(2)]) (auto simp: work_le_refl markobject_work split: if_splits)
  ultimately show ?thesis using markstr_fold_work g(3) work_le_trans by metis
qed

lemma traverseclosure_work: "traverseclosure g cl = Inr g' \<Longrightarrow> work_le g g'"
proof (cases cl)
  case (OCcl e vs)
  assume "traverseclosure g cl = Inr g'"
  with OCcl obtain g1 where "markobject g e = Inr g1" "mfold markvalue g1 vs = Inr g'"
    by (auto simp: traverseclosure_def bindr_Inr_iff)
  then show ?thesis using markobject_work markvalues_work work_le_trans by blast
next
  case (OLcl e pt us)
  assume "traverseclosure g cl = Inr g'"
  with OLcl obtain g1 g2 where "markobject g e = Inr g1" "markobject g1 pt = Inr g2" "mfold markobject g2 us = Inr g'"
    by (auto simp: traverseclosure_def bindr_Inr_iff)
  then show ?thesis using markobject_work markobjects_work work_le_trans by blast
qed (simp_all add: traverseclosure_def)

lemma checkstacksizes_work: "checkstacksizes g l n = Inr g' \<Longrightarrow> work_le g g'"
  by (auto simp: checkstacksizes_def luaD_reallocCI_def luaD_shrinkstack_def bindr_Inr_iff Let_def work_le_refl
      intro!: work_le_same split: if_splits)

lemma traversestack_work: "traversestack g l = Inr g' \<Longrightarrow> work_le g g'"
proof -
  assume "traversestack g l = Inr g'"
  then obtain t g1 g2 st lim where g: "markvalue g (th_gt t) = Inr g1"
    "mfold markvalue g1 (take (th_top t) (th_stack t)) = Inr g2"
    "checkstacksizes (set_heap g2 l (OThr (t\<lparr>th_stack := st\<rparr>))) l lim = Inr g'"
    by (auto simp: traversestack_def bindr_Inr_iff Let_def split: if_splits)
  have "work_le g2 (set_heap g2 l (OThr (t\<lparr>th_stack := st\<rparr>)))" by (rule work_le_same) simp_all
  with markvalue_work [OF g(1)] markvalues_work [OF g(2)] checkstacksizes_work [OF g(3)]
  show ?thesis using work_le_trans by blast
qed

lemma propagatemark_work:
  assumes "propagatemark g = Inr (n, g')"
  shows "gray_work g' < gray_work g"
proof -
  from assms obtain p gray where gray: "gc_gray g = p # gray" by (auto simp: propagatemark_def split: list.splits)
  define h where "h = (set_marked g p (gray2black (gc_marked g p)))\<lparr>gc_gray := gray\<rparr>"
  have "work_le g (set_marked g p (gray2black (gc_marked g p)))" by (rule work_le_marked) (simp add: white_def)
  then have h: "gray_work h < gray_work g" by (simp add: h_def work_le_def gray_work_def gray white_def)
  have b2g: "work_le x (set_marked x p (black2gray (gc_marked x p)))" for x
    by (rule work_le_marked) (simp add: white_def)
  have "work_le h g'"
  proof (cases "gc_heap g p")
    case (OTab t)
    with assms gray obtain w g1 where "traversetable h p = Inr (w, g1)"
      "g' = (if w then set_marked g1 p (black2gray (gc_marked g1 p)) else g1)"
      by (auto simp: propagatemark_def h_def Let_def bindr_Inr_iff)
    with traversetable_work [of h p w g1] b2g [of g1] work_le_trans show ?thesis by (cases w) auto
  next
    case (OThr t)
    let ?h = "set_marked (h\<lparr>gc_grayagain := p # gc_grayagain h\<rparr>) p (black2gray (gc_marked h p))"
    from OThr assms gray have "traversestack ?h p = Inr g'"
      by (auto simp: propagatemark_def h_def Let_def bindr_Inr_iff)
    then have "work_le ?h g'" by (rule traversestack_work)
    moreover have "work_le h ?h" using b2g [of "h\<lparr>gc_grayagain := p # gc_grayagain h\<rparr>"]
      by (simp add: work_le_def gray_work_def white_def)
    ultimately show ?thesis by (rule work_le_trans [rotated])
  next
    case (OProto f)
    with assms gray traverseproto_work [of h f] show ?thesis
      by (auto simp: propagatemark_def h_def Let_def bindr_Inr_iff)
  next
    case (OCcl e vs)
    with assms gray traverseclosure_work [of h "OCcl e vs"] show ?thesis
      by (auto simp: propagatemark_def h_def Let_def bindr_Inr_iff)
  next
    case (OLcl e pt us)
    with assms gray traverseclosure_work [of h "OLcl e pt us"] show ?thesis
      by (auto simp: propagatemark_def h_def Let_def bindr_Inr_iff)
  qed (use assms gray in \<open>auto simp: propagatemark_def Let_def\<close>)
  with h show ?thesis by (simp add: work_le_def)
qed

section \<open>The atomic step\<close>

function propagateall :: "gstate \<Rightarrow> (nat \<times> gstate) res" where
  "propagateall g =
     (if gc_gray g = [] then Inr (0, g)
      else bindr (propagatemark g) (\<lambda>(n, g). bindr (propagateall g) (\<lambda>(m, g). Inr (n + m, g))))"
  by pat_completeness auto
termination
  by (relation "measure gray_work") (auto dest: propagatemark_work)

declare propagateall.simps [simp del]

definition markroot :: "gstate \<Rightarrow> gstate res" where
  "markroot g =
     (let g = g\<lparr>gc_gray := [], gc_grayagain := [], gc_weak := []\<rparr> in
      bindr (markobject g (gc_mainthread g)) (\<lambda>g.
      bindr (thread_at g (gc_mainthread g)) (\<lambda>t.
      bindr (markvalue g (th_gt t)) (\<lambda>g.
      bindr (markvalue g (gc_registry g)) (\<lambda>g.
      bindr (mfold (\<lambda>g p. if p \<noteq> 0 then markobject g p else Inr g) g (gc_mt g)) (\<lambda>g.
      Inr (g\<lparr>gc_gcstate := GCSpropagate\<rparr>)))))))"

definition markmt :: "gstate \<Rightarrow> gstate res" where
  "markmt g = mfold (\<lambda>g p. if p \<noteq> 0 then markobject g p else Inr g) g (gc_mt g)"

definition remarkupvals :: "gstate \<Rightarrow> gstate res" where
  "remarkupvals g =
     mfold (\<lambda>g uv. if isgray_obj g uv then bindr (upval_value g uv) (markvalue g) else Inr g) g (gc_uvhead g)"

definition sizeudata :: "nat \<Rightarrow> nat" where "sizeudata n = sizeof_Udata + n"
definition sizestring :: "string \<Rightarrow> nat" where "sizestring s = sizeof_TString + (length s + 1)"

text \<open>The userdata that follow the main thread in the list of all objects. Those that stay, in
  order, and the size of those moved to \<open>tmudata\<close>.\<close>

fun separate_loop :: "bool \<Rightarrow> gstate \<Rightarrow> ptr list \<Rightarrow> (nat \<times> ptr list \<times> gstate) res" where
  "separate_loop all g [] = Inr (0, [], g)"
| "separate_loop all g (cur # rest) =
     (if \<not> (white g cur \<or> all) \<or> isfinalized (gc_marked g cur)
      then bindr (separate_loop all g rest) (\<lambda>(m, ps, g). Inr (m, cur # ps, g))
      else
        case gc_heap g cur of
          OUdata mt env n \<Rightarrow>
            bindr (gfasttm g mt TM_GC_event) (\<lambda>(tm, g).
            let g = set_marked g cur (markfinalized (gc_marked g cur)) in
            if tm = None then bindr (separate_loop all g rest) (\<lambda>(m, ps, g). Inr (m, cur # ps, g))
            else
              bindr (separate_loop all (g\<lparr>gc_tmudata := gc_tmudata g @ [cur]\<rparr>) rest) (\<lambda>(m, ps, g).
              Inr (sizeudata n + m, ps, g)))
        | _ \<Rightarrow> Inl ErrUndef)"

definition before_udata :: "gstate \<Rightarrow> ptr list" where
  "before_udata g = takeWhile (\<lambda>p. p \<noteq> gc_mainthread g) (gc_rootgc g) @ [gc_mainthread g]"

definition udata_list :: "gstate \<Rightarrow> ptr list" where
  "udata_list g = tl (dropWhile (\<lambda>p. p \<noteq> gc_mainthread g) (gc_rootgc g))"

definition luaC_separateudata :: "gstate \<Rightarrow> bool \<Rightarrow> (nat \<times> gstate) res" where
  "luaC_separateudata g all =
     bindr (separate_loop all g (udata_list g)) (\<lambda>(m, ps, g').
     Inr (m, g'\<lparr>gc_rootgc := before_udata g @ ps\<rparr>))"

definition marktmu :: "gstate \<Rightarrow> gstate res" where
  "marktmu g = mfold (\<lambda>g u. reallymarkobject (makewhite g u) u) g (gc_tmudata g)"

definition iscleared :: "gstate \<Rightarrow> TValue \<Rightarrow> bool \<Rightarrow> bool \<times> gstate" where
  "iscleared g v iskey =
     (if \<not> iscollectable v then (False, g)
      else if ttype v = LUA_TSTRING then (False, stringmark g (gcvalue v))
      else (white g (gcvalue v) \<or> ttype v = LUA_TUSERDATA \<and> \<not> iskey \<and> isfinalized (gc_marked g (gcvalue v)), g))"

definition clear_slot :: "ptr \<Rightarrow> gstate \<Rightarrow> nat \<Rightarrow> gstate res" where
  "clear_slot p g i =
     bindr (tab_at g p) (\<lambda>t.
     let (c, g) = iscleared g (t_array t ! i) False in
     Inr (if c then set_heap g p (OTab (t\<lparr>t_array := (t_array t)[i := TNil]\<rparr>)) else g))"

definition clear_node :: "ptr \<Rightarrow> gstate \<Rightarrow> nat \<Rightarrow> gstate res" where
  "clear_node p g i =
     bindr (tab_at g p) (\<lambda>t.
     let n = t_node t ! i in
     if gval n = TNil then Inr g
     else
       let (ck, g) = iscleared g (gkey n) True;
           (c, g) = (if ck then (True, g) else iscleared g (gval n) False) in
       if c then set_node_at g p i (removeentry (n\<lparr>gval := TNil\<rparr>)) else Inr g)"

definition clear_one :: "gstate \<Rightarrow> ptr \<Rightarrow> gstate res" where
  "clear_one g p =
     bindr (tab_at g p) (\<lambda>t.
     bindr (if testbit (gc_marked g p) VALUEWEAKBIT then mfold (clear_slot p) g (rev [0..<length (t_array t)])
            else Inr g) (\<lambda>g.
     mfold (clear_node p) g (rev [0..<length (t_node t)])))"

definition cleartable :: "gstate \<Rightarrow> ptr list \<Rightarrow> gstate res" where
  "cleartable = mfold clear_one"

definition atomic :: "gstate \<Rightarrow> gstate res" where
  "atomic g =
     bindr (remarkupvals g) (\<lambda>g.
     bindr (propagateall g) (\<lambda>(_, g).
     let g = g\<lparr>gc_gray := gc_weak g, gc_weak := []\<rparr> in
     bindr (markobject g (gc_L g)) (\<lambda>g.
     bindr (markmt g) (\<lambda>g.
     bindr (propagateall g) (\<lambda>(_, g).
     let g = g\<lparr>gc_gray := gc_grayagain g, gc_grayagain := []\<rparr> in
     bindr (propagateall g) (\<lambda>(_, g).
     bindr (luaC_separateudata g False) (\<lambda>(udsize, g).
     bindr (marktmu g) (\<lambda>g.
     bindr (propagateall g) (\<lambda>(m, g).
     bindr (cleartable g (gc_weak g)) (\<lambda>g.
     Inr (g\<lparr>gc_currentwhite := otherwhite (gc_currentwhite g), gc_sweepstrgc := 0, gc_sweepgc := None,
            gc_gcstate := GCSsweepstring,
            gc_estimate := gc_totalbytes g - word_of_nat (udsize + m)\<rparr>)))))))))))"

section \<open>Sweeping\<close>

text \<open>\<open>luaE_freethread\<close> and \<open>luaH_free\<close>.\<close>

definition luaE_freethread :: "gstate \<Rightarrow> ptr \<Rightarrow> gstate res" where
  "luaE_freethread g p =
     bindr (luaF_close g p 0) (\<lambda>g.
     bindr (thread_at g p) (\<lambda>t.
     Inr (luaM_freemem (set_heap g p OFree)
       (th_size_ci t * sizeof_CallInfo + length (th_stack t) * sizeof_TValue + sizeof_lua_State))))"

definition luaH_free :: "gstate \<Rightarrow> ptr \<Rightarrow> Table \<Rightarrow> gstate" where
  "luaH_free g p t =
     luaM_freemem (set_heap g p OFree)
       ((if t_isdummy t then 0 else length (t_node t) * sizeof_Node) + sizearray t * sizeof_TValue + sizeof_Table)"

definition freeobj :: "gstate \<Rightarrow> ptr \<Rightarrow> gstate res" where
  "freeobj g p =
     (case gc_heap g p of
        OProto f \<Rightarrow> Inr (luaF_freeproto g p f)
      | OCcl e vs \<Rightarrow> Inr (luaF_freeclosure g p (sizeCclosure (length vs)))
      | OLcl e pt us \<Rightarrow> Inr (luaF_freeclosure g p (sizeLclosure (length us)))
      | OUpval v x \<Rightarrow> luaF_freeupval g p
      | OTab t \<Rightarrow> Inr (luaH_free g p t)
      | OThr t \<Rightarrow> luaE_freethread g p
      | OStr s h \<Rightarrow> Inr (luaM_freemem (set_heap (g\<lparr>gc_nuse := gc_nuse g - 1\<rparr>) p OFree) (sizestring s))
      | OUdata mt e n \<Rightarrow> Inr (luaM_freemem (set_heap g p OFree) (sizeudata n))
      | OFree \<Rightarrow> Inl ErrUndef)"

text \<open>\<open>(cur->gch.marked ^ WHITEBITS) & deadmask\<close>\<close>

definition notdead :: "gstate \<Rightarrow> ptr \<Rightarrow> bool" where
  "notdead g p \<longleftrightarrow> (gc_marked g p XOR WHITEBITS) AND otherwhite (gc_currentwhite g) \<noteq> 0"

text \<open>\<open>sweepwholelist\<close> on a list that holds no threads (a chain of strings, the open upvalues of a thread).\<close>

fun sweepwholelist :: "gstate \<Rightarrow> ptr list \<Rightarrow> (ptr list \<times> gstate) res" where
  "sweepwholelist g [] = Inr ([], g)"
| "sweepwholelist g (cur # rest) =
     (if gch_tt (gc_heap g cur) = LUA_TTHREAD then Inl ErrFuel
      else if notdead g cur then
        bindr (sweepwholelist (makewhite g cur) rest) (\<lambda>(ps, g). Inr (cur # ps, g))
      else bindr (freeobj g cur) (\<lambda>g. sweepwholelist g rest))"

definition sweep_upvals :: "gstate \<Rightarrow> ptr \<Rightarrow> gstate res" where
  "sweep_upvals g p =
     bindr (thread_at g p) (\<lambda>t.
     bindr (sweepwholelist g (th_openupval t)) (\<lambda>(us, g).
     bindr (thread_at g p) (\<lambda>t.
     Inr (set_heap g p (OThr (t\<lparr>th_openupval := us\<rparr>))))))"

text \<open>\<open>sweeplist\<close> on the list of all objects from the link \<open>pos\<close>: at most \<open>count\<close> of them.\<close>

definition at_pos :: "gstate \<Rightarrow> ptr option \<Rightarrow> ptr list" where
  "at_pos g pos = (case pos of None \<Rightarrow> gc_rootgc g | Some q \<Rightarrow> tl (dropWhile (\<lambda>p. p \<noteq> q) (gc_rootgc g)))"

fun sweeplist :: "nat \<Rightarrow> gstate \<Rightarrow> ptr option \<Rightarrow> (ptr option \<times> gstate) res" where
  "sweeplist 0 g pos = Inr (pos, g)"
| "sweeplist (Suc n) g pos =
     (case at_pos g pos of
        [] \<Rightarrow> Inr (pos, g)
      | cur # _ \<Rightarrow>
          bindr (if gch_tt (gc_heap g cur) = LUA_TTHREAD then sweep_upvals g cur else Inr g) (\<lambda>g.
          if notdead g cur then sweeplist n (makewhite g cur) (Some cur)
          else
            let g = g\<lparr>gc_rootgc := remove1 cur (gc_rootgc g)\<rparr> in
            bindr (freeobj g cur) (\<lambda>g. sweeplist n g pos)))"

text \<open>\<open>luaS_resize\<close> on the chains of addresses.\<close>

definition rehash_string :: "gstate \<Rightarrow> nat \<Rightarrow> ptr \<Rightarrow> ptr list list \<Rightarrow> ptr list list" where
  "rehash_string g newsize p hs =
     (let h = hash_pos (case gc_heap g p of OStr s h \<Rightarrow> h | _ \<Rightarrow> 0) newsize in hs[h := p # hs ! h])"

definition gc_resize :: "gstate \<Rightarrow> nat \<Rightarrow> gstate" where
  "gc_resize g newsize =
     (if gc_gcstate g = GCSsweepstring then g
      else g\<lparr>gc_strt := fold (\<lambda>chain hs. fold (rehash_string g newsize) chain hs) (gc_strt g) (replicate newsize [])\<rparr>)"

definition checkSizes :: "gstate \<Rightarrow> gstate" where
  "checkSizes g =
     (let size = length (gc_strt g);
          g = (if gc_nuse g < size div 4 \<and> MINSTRTABSIZE * 2 < size then gc_resize g (size div 2) else g)
      in if LUA_MINBUFFER * 2 < gc_buffsize g
         then g\<lparr>gc_totalbytes := gc_totalbytes g - word_of_nat (gc_buffsize g) + word_of_nat (gc_buffsize g div 2),
                gc_buffsize := gc_buffsize g div 2\<rparr>
         else g)"

section \<open>Finalizers\<close>

text \<open>\<open>GCTM\<close> puts the finalizer and its userdata on the stack of the running thread and calls it:
  \<open>call g\<close> is the state that \<open>luaD_call(L, L->top - 2, 0)\<close> leaves, which the program that runs decides.\<close>

type_synonym gc_call = "gstate \<Rightarrow> gstate res"

definition push2 :: "gstate \<Rightarrow> TValue \<Rightarrow> TValue \<Rightarrow> gstate res" where
  "push2 g v1 v2 =
     bindr (thread_at g (gc_L g)) (\<lambda>t.
     let n = th_top t in
     if n + 2 < length (th_stack t)
     then Inr (set_heap g (gc_L g) (OThr (t\<lparr>th_stack := (th_stack t)[n := v1, n + 1 := v2], th_top := n + 2\<rparr>)))
     else Inl ErrUndef)"

definition GCTM :: "gc_call \<Rightarrow> gstate \<Rightarrow> gstate res" where
  "GCTM call g =
     (case gc_tmudata g of
        [] \<Rightarrow> Inl ErrUndef
      | u # us \<Rightarrow>
          let g = g\<lparr>gc_tmudata := us, gc_rootgc := before_udata g @ u # udata_list g\<rparr>;
              g = makewhite g u in
          case gc_heap g u of
            OUdata mt env n \<Rightarrow>
              bindr (gfasttm g mt TM_GC_event) (\<lambda>(tm, g).
              case tm of
                None \<Rightarrow> Inr g
              | Some f \<Rightarrow>
                  let oldt = gc_GCthreshold g;
                      g = g\<lparr>gc_GCthreshold := 2 * gc_totalbytes g\<rparr> in
                  bindr (push2 g f (TUData u)) (\<lambda>g.
                  bindr (call g) (\<lambda>g. Inr (g\<lparr>gc_GCthreshold := oldt\<rparr>))))
          | _ \<Rightarrow> Inl ErrUndef)"

section \<open>The steps of a collection\<close>

definition GCSTEPSIZE :: nat where "GCSTEPSIZE = 1024"
definition GCSWEEPMAX :: nat where "GCSWEEPMAX = 40"
definition GCSWEEPCOST :: nat where "GCSWEEPCOST = 10"
definition GCFINALIZECOST :: nat where "GCFINALIZECOST = 100"

definition singlestep :: "gc_call \<Rightarrow> gstate \<Rightarrow> (nat \<times> gstate) res" where
  "singlestep call g =
     (if gc_gcstate g = GCSpause then bindr (markroot g) (\<lambda>g. Inr (0, g))
      else if gc_gcstate g = GCSpropagate then
        if gc_gray g \<noteq> [] then propagatemark g else bindr (atomic g) (\<lambda>g. Inr (0, g))
      else if gc_gcstate g = GCSsweepstring then
        let old = gc_totalbytes g; i = gc_sweepstrgc g in
        if i < length (gc_strt g) then
          bindr (sweepwholelist g (gc_strt g ! i)) (\<lambda>(ch, g).
          let g = g\<lparr>gc_strt := (gc_strt g)[i := ch], gc_sweepstrgc := i + 1\<rparr>;
              g = (if length (gc_strt g) \<le> i + 1 then g\<lparr>gc_gcstate := GCSsweep\<rparr> else g) in
          Inr (GCSWEEPCOST, g\<lparr>gc_estimate := gc_estimate g - (old - gc_totalbytes g)\<rparr>))
        else Inl ErrUndef
      else if gc_gcstate g = GCSsweep then
        let old = gc_totalbytes g in
        bindr (sweeplist GCSWEEPMAX g (gc_sweepgc g)) (\<lambda>(pos, g).
        let g = g\<lparr>gc_sweepgc := pos\<rparr>;
            g = (if at_pos g pos = [] then (checkSizes g)\<lparr>gc_gcstate := GCSfinalize\<rparr> else g) in
        Inr (GCSWEEPMAX * GCSWEEPCOST, g\<lparr>gc_estimate := gc_estimate g - (old - gc_totalbytes g)\<rparr>))
      else if gc_gcstate g = GCSfinalize then
        if gc_tmudata g \<noteq> [] then
          bindr (GCTM call g) (\<lambda>g.
          Inr (GCFINALIZECOST,
               if word_of_nat GCFINALIZECOST < gc_estimate g
               then g\<lparr>gc_estimate := gc_estimate g - word_of_nat GCFINALIZECOST\<rparr> else g))
        else Inr (0, g\<lparr>gc_gcstate := GCSpause, gc_gcdept := 0\<rparr>)
      else Inr (0, g))"

end
