(* ===== verification/LuaGCInv.thy ===== *)
theory LuaGCInv
  imports LuaGC
begin

text \<open>
  What the collector keeps of the heap: the references of an object, the structure of tables, threads and
  upvalues, the lists of objects and the tri-colour invariant; and what marking does to it.
\<close>

section \<open>Colours of a mark byte\<close>

definition cw_ok :: "lu_byte \<Rightarrow> bool" where
  "cw_ok cw \<longleftrightarrow> cw = 33 \<or> cw = 34"

lemma cw_ok_white: "cw_ok cw \<Longrightarrow> white_ok cw"
  by (auto simp: cw_ok_def white_ok_def bit_numeral_rec)

lemma bit_whitebits: "bit WHITEBITS n \<longleftrightarrow> n < 2"
  unfolding whitebits by (rule bit_three)

lemma isblack_iff: "isblack m \<longleftrightarrow> bit m 2"
proof -
  have "isblack m \<longleftrightarrow> (\<exists>n. bit (m AND bitmask 2) n)"
    using bit_eq_iff [of "m AND bitmask 2" 0] byte_bit by (auto simp: isblack_def testbit_def testbits_def BLACKBIT_def)
  then show ?thesis using byte_bit [of m 2] by (auto simp: bit_and_iff bit_bitmask)
qed

lemma testbit_iff: "testbit m k \<longleftrightarrow> bit m k"
proof -
  have "testbit m k \<longleftrightarrow> (\<exists>n. bit (m AND bitmask k) n)"
    using bit_eq_iff [of "m AND bitmask k" 0] byte_bit by (auto simp: testbit_def testbits_def)
  then show ?thesis using byte_bit [of m k] by (auto simp: bit_and_iff bit_bitmask)
qed

lemma bit_makewhite: "bit (makewhite_of cw m) n \<longleftrightarrow> (if n < 2 then bit cw n else bit m n \<and> n \<noteq> 2)"
  using byte_bit [of m n] byte_bit [of cw n] bit_imp_possible_bit [of m n]
  by (auto simp: makewhite_of_def maskmarks_def luaC_white_def bit_whitebits bit_and_iff bit_or_iff bit_not_iff
      bit_bitmask BLACKBIT_def)

lemma bit_changewhite: "bit (changewhite m) n \<longleftrightarrow> (if n < 2 then \<not> bit m n else bit m n)"
  by (auto simp: changewhite_def bit_whitebits bit_xor_iff)

lemma bit_setbit: "bit (l_setbit m k) n \<longleftrightarrow> bit m n \<or> n = k \<and> k < 8"
  by (auto simp: l_setbit_def setbits_def bit_or_iff bit_bitmask)

lemma bit_weak_bits: "n < 3 \<or> 4 < n \<Longrightarrow> bit (weak_bits wk wv m) n \<longleftrightarrow> bit m n"
  using bit_imp_possible_bit [of m n]
  by (auto simp: weak_bits_def bit_and_iff bit_or_iff bit_not_iff bit_bitmask bit_push_bit_iff bit_1_iff KEYWEAKBIT_def VALUEWEAKBIT_def)

lemma bit_weak_bits_4: "bit (weak_bits wk wv m) 4 \<longleftrightarrow> wv"
  by (auto simp: weak_bits_def bit_and_iff bit_or_iff bit_not_iff bit_bitmask bit_push_bit_iff bit_1_iff KEYWEAKBIT_def VALUEWEAKBIT_def)

lemma bit_luaC_white: "bit (luaC_white cw) n \<longleftrightarrow> bit cw n \<and> n < 2"
  by (auto simp: luaC_white_def bit_whitebits bit_and_iff)

lemma bit_otherwhite: "bit (otherwhite cw) n \<longleftrightarrow> (if n < 2 then \<not> bit cw n else bit cw n)"
  by (auto simp: otherwhite_def bit_whitebits bit_xor_iff)

lemmas mark_bits = bit_white2gray bit_gray2black bit_black2gray bit_makewhite bit_changewhite bit_setbit
  bit_weak_bits bit_weak_bits_4 bit_luaC_white bit_otherwhite

lemma isdead_bits: "cw_ok cw \<Longrightarrow> isdead cw m \<longleftrightarrow> bit m 0 \<and> bit cw 1 \<or> bit m 1 \<and> bit cw 0"
  by (rule isdead_iff [OF cw_ok_white])

lemma cw_ok_bits: "cw_ok cw \<Longrightarrow> bit cw 0 \<noteq> bit cw 1"
  using cw_ok_white by (simp add: white_ok_def)

lemmas colour_iff = iswhite_iff isblack_iff isdead_bits

lemma colour_simps [simp]:
  "isblack (white2gray m) = isblack m" "isblack (gray2black m)" "\<not> isblack (black2gray m)"
  "\<not> isblack (makewhite_of cw m)" "isblack (changewhite m) = isblack m"
  "isblack (markfinalized m) = isblack m" "iswhite (markfinalized m) = iswhite m"
  "isblack (weak_bits wk wv m) = isblack m" "\<not> isblack (luaC_white cw)"
  by (auto simp: isblack_iff iswhite_iff mark_bits markfinalized_def FINALIZEDBIT_def)

lemma colour_cw [simp]:
  assumes "cw_ok cw"
  shows "iswhite (makewhite_of cw m)" "\<not> isdead cw (makewhite_of cw m)" "\<not> isdead cw (white2gray m)"
    "isdead cw (gray2black m) = isdead cw m" "isdead cw (black2gray m) = isdead cw m"
    "isdead cw (markfinalized m) = isdead cw m" "isdead cw (weak_bits wk wv m) = isdead cw m"
    "iswhite (luaC_white cw)" "\<not> isdead cw (luaC_white cw)"
  using cw_ok_bits [OF assms]
  by (auto simp: isdead_bits [OF assms] isblack_iff iswhite_iff mark_bits markfinalized_def FINALIZEDBIT_def)

lemma cw_ok_other: "cw_ok cw \<Longrightarrow> cw_ok (otherwhite cw)"
  by (auto simp: cw_ok_def otherwhite_def whitebits)

lemma isdead_other: "cw_ok cw \<Longrightarrow> \<not> isdead cw m \<Longrightarrow> isdead (otherwhite cw) m \<longleftrightarrow> iswhite m"
  using cw_ok_bits [of cw] by (auto simp: isdead_bits cw_ok_other iswhite_iff mark_bits)

lemma dead_white: "isdead cw m \<Longrightarrow> cw_ok cw \<Longrightarrow> iswhite m"
  by (auto simp: isdead_bits iswhite_iff)

section \<open>References\<close>

text \<open>The references of an object: the type its reader expects, and the address.\<close>

definition val_refs :: "TValue \<Rightarrow> (nat \<times> ptr) list" where
  "val_refs v = (if iscollectable v then [(ttype v, gcvalue v)] else [])"

definition opt_ref :: "nat \<Rightarrow> ptr \<Rightarrow> (nat \<times> ptr) list" where
  "opt_ref t p = (if p = 0 then [] else [(t, p)])"

definition node_refs :: "Node \<Rightarrow> (nat \<times> ptr) list" where
  "node_refs n = (if gval n = TNil then [] else val_refs (gkey n) @ val_refs (gval n))"

definition table_refs :: "Table \<Rightarrow> (nat \<times> ptr) list" where
  "table_refs t = opt_ref LUA_TTABLE (t_metatable t) @ concat (map val_refs (t_array t)) @ concat (map node_refs (t_node t))"

definition thread_refs :: "Thread \<Rightarrow> (nat \<times> ptr) list" where
  "thread_refs t = val_refs (th_gt t) @ concat (map val_refs (take (th_top t) (th_stack t)))"

definition proto_refs :: "GProto \<Rightarrow> (nat \<times> ptr) list" where
  "proto_refs f = opt_ref LUA_TSTRING (gp_source f) @ concat (map val_refs (gp_k f)) @
     concat (map (opt_ref LUA_TSTRING) (gp_upvalues f)) @ concat (map (opt_ref LUA_TPROTO) (gp_p f)) @
     concat (map (opt_ref LUA_TSTRING) (gp_locvars f))"

definition slot_at :: "(ptr \<Rightarrow> GCObj) \<Rightarrow> ptr \<Rightarrow> nat \<Rightarrow> TValue" where
  "slot_at h th i = (case h th of OThr t \<Rightarrow> if i < length (th_stack t) then th_stack t ! i else TNil | _ \<Rightarrow> TNil)"

fun obj_refs :: "(ptr \<Rightarrow> GCObj) \<Rightarrow> GCObj \<Rightarrow> (nat \<times> ptr) list" where
  "obj_refs h OFree = []"
| "obj_refs h (OStr s x) = []"
| "obj_refs h (OUdata mt e n) = opt_ref LUA_TTABLE mt @ [(LUA_TTABLE, e)]"
| "obj_refs h (OTab t) = table_refs t"
| "obj_refs h (OCcl e vs) = (LUA_TTABLE, e) # concat (map val_refs vs)"
| "obj_refs h (OLcl e p us) = (LUA_TTABLE, e) # (LUA_TPROTO, p) # map (Pair LUA_TUPVAL) us"
| "obj_refs h (OUpval None x) = val_refs x"
| "obj_refs h (OUpval (Some (th, i)) x) = val_refs (slot_at h th i)"
| "obj_refs h (OThr t) = thread_refs t"
| "obj_refs h (OProto f) = proto_refs f"

definition refs :: "gstate \<Rightarrow> ptr \<Rightarrow> (nat \<times> ptr) set" where
  "refs g p = set (obj_refs (gc_heap g) (gc_heap g p))"

definition ref_ok :: "gstate \<Rightarrow> nat \<times> ptr \<Rightarrow> bool" where
  "ref_ok g r \<longleftrightarrow> gch_tt (gc_heap g (snd r)) = fst r \<and> fst r \<noteq> LUA_TNIL"

definition alloc :: "gstate \<Rightarrow> ptr \<Rightarrow> bool" where "alloc g p \<longleftrightarrow> gc_heap g p \<noteq> OFree"

definition open_uv :: "gstate \<Rightarrow> ptr \<Rightarrow> bool" where
  "open_uv g u \<longleftrightarrow> (\<exists>th i x. gc_heap g u = OUpval (Some (th, i)) x)"

lemma gch_tt_alloc: "gch_tt x = LUA_TNIL \<longleftrightarrow> x = OFree"
  by (cases x) (simp_all add: tag_defs)

lemma ref_ok_alloc: "ref_ok g (t, p) \<Longrightarrow> alloc g p"
  by (auto simp: ref_ok_def alloc_def)

lemma gch_tt_cases:
  "gch_tt x = LUA_TTABLE \<longleftrightarrow> (\<exists>t. x = OTab t)" "gch_tt x = LUA_TTHREAD \<longleftrightarrow> (\<exists>t. x = OThr t)"
  "gch_tt x = LUA_TSTRING \<longleftrightarrow> (\<exists>s h. x = OStr s h)" "gch_tt x = LUA_TUSERDATA \<longleftrightarrow> (\<exists>m e n. x = OUdata m e n)"
  "gch_tt x = LUA_TUPVAL \<longleftrightarrow> (\<exists>v y. x = OUpval v y)" "gch_tt x = LUA_TPROTO \<longleftrightarrow> (\<exists>f. x = OProto f)"
  "gch_tt x = LUA_TFUNCTION \<longleftrightarrow> (\<exists>e vs. x = OCcl e vs) \<or> (\<exists>e p us. x = OLcl e p us)"
  by (cases x; simp add: tag_defs)+

section \<open>Structure\<close>

text \<open>The chains of the node vector end, as lookups need.\<close>

definition tchain :: "Table \<Rightarrow> bool" where
  "tchain t \<longleftrightarrow> length (t_node t) = 2 ^ t_lsizenode t \<and> (\<forall>i < length (t_node t). \<exists>xs. chain (t_node t) (Some i) xs)"

definition thread_ok :: "gstate \<Rightarrow> ptr \<Rightarrow> Thread \<Rightarrow> bool" where
  "thread_ok g p t \<longleftrightarrow> th_top t < length (th_stack t) \<and> (\<forall>c \<in> set (th_citops t). c < length (th_stack t)) \<and>
     (\<forall>u \<in> set (th_openupval t). \<exists>i x. gc_heap g u = OUpval (Some (p, i)) x \<and> i < th_top t) \<and>
     distinct (th_openupval t)"

definition struct :: "gstate \<Rightarrow> bool" where
  "struct g \<longleftrightarrow>
     (\<forall>p t. gc_heap g p = OTab t \<longrightarrow> tchain t) \<and>
     (\<forall>p t. gc_heap g p = OThr t \<longrightarrow> thread_ok g p t) \<and>
     (\<forall>u th i x. gc_heap g u = OUpval (Some (th, i)) x \<longrightarrow> (\<exists>t. gc_heap g th = OThr t \<and> u \<in> set (th_openupval t))) \<and>
     distinct (gc_uvhead g) \<and> set (gc_uvhead g) = {u. open_uv g u} \<and>
     gc_heap g 0 = OFree"

text \<open>What marking may change of an object: keys of empty entries, flags, dead slots of a stack, sizes.\<close>

definition tab_sim :: "Table \<Rightarrow> Table \<Rightarrow> bool" where
  "tab_sim t t' \<longleftrightarrow> t_metatable t' = t_metatable t \<and> t_array t' = t_array t \<and> t_lsizenode t' = t_lsizenode t \<and>
     length (t_node t') = length (t_node t) \<and>
     (\<forall>i < length (t_node t). gval (t_node t' ! i) = gval (t_node t ! i) \<and> gnext (t_node t' ! i) = gnext (t_node t ! i) \<and>
        (gval (t_node t ! i) \<noteq> TNil \<longrightarrow> gkey (t_node t' ! i) = gkey (t_node t ! i)))"

definition thr_sim :: "Thread \<Rightarrow> Thread \<Rightarrow> bool" where
  "thr_sim t t' \<longleftrightarrow> th_gt t' = th_gt t \<and> th_top t' = th_top t \<and> th_openupval t' = th_openupval t \<and>
     take (th_top t) (th_stack t') = take (th_top t) (th_stack t) \<and> th_citops t' = th_citops t \<and>
     (th_top t < length (th_stack t) \<longrightarrow> th_top t < length (th_stack t')) \<and>
     (\<forall>c \<in> set (th_citops t). c < length (th_stack t) \<longrightarrow> c < length (th_stack t'))"

definition osim :: "GCObj \<Rightarrow> GCObj \<Rightarrow> bool" where
  "osim x y \<longleftrightarrow>
     (case (x, y) of (OTab t, OTab t') \<Rightarrow> tab_sim t t' | (OThr t, OThr t') \<Rightarrow> thr_sim t t' | _ \<Rightarrow> x = y)"

definition hsim :: "gstate \<Rightarrow> gstate \<Rightarrow> bool" where
  "hsim g g' \<longleftrightarrow> (\<forall>p. osim (gc_heap g p) (gc_heap g' p))"

lemma tab_sim_refl: "tab_sim t t" by (simp add: tab_sim_def)
lemma thr_sim_refl: "thr_sim t t" by (simp add: thr_sim_def)

lemma tab_sim_trans: "tab_sim t t' \<Longrightarrow> tab_sim t' t'' \<Longrightarrow> tab_sim t t''"
  by (simp add: tab_sim_def)

lemma thr_sim_trans: "thr_sim t t' \<Longrightarrow> thr_sim t' t'' \<Longrightarrow> thr_sim t t''"
  by (simp add: thr_sim_def)

lemma osim_refl [simp]: "osim x x"
  by (cases x) (simp_all add: osim_def tab_sim_refl thr_sim_refl)

lemma osim_simps:
  "osim (OTab t) y \<longleftrightarrow> (\<exists>t'. y = OTab t' \<and> tab_sim t t')" "osim (OThr a) y \<longleftrightarrow> (\<exists>a'. y = OThr a' \<and> thr_sim a a')"
  "osim OFree y \<longleftrightarrow> y = OFree" "osim (OStr s h) y \<longleftrightarrow> y = OStr s h" "osim (OUdata m e n) y \<longleftrightarrow> y = OUdata m e n"
  "osim (OCcl e vs) y \<longleftrightarrow> y = OCcl e vs" "osim (OLcl e p us) y \<longleftrightarrow> y = OLcl e p us"
  "osim (OUpval v z) y \<longleftrightarrow> y = OUpval v z" "osim (OProto f) y \<longleftrightarrow> y = OProto f"
  by (cases y; auto simp: osim_def)+

lemma osim_trans: "osim x y \<Longrightarrow> osim y z \<Longrightarrow> osim x z"
  by (cases x) (auto simp: osim_simps, (blast intro: tab_sim_trans thr_sim_trans)+)

lemma osim_tt: "osim x y \<Longrightarrow> gch_tt y = gch_tt x"
  by (cases x) (auto simp: osim_simps)

lemma osim_free: "osim x y \<Longrightarrow> y = OFree \<longleftrightarrow> x = OFree"
  by (cases x) (auto simp: osim_simps)

lemma hsim_refl [simp]: "hsim g g" by (simp add: hsim_def)
lemma hsim_trans: "hsim g g' \<Longrightarrow> hsim g' g'' \<Longrightarrow> hsim g g''" unfolding hsim_def using osim_trans by blast
lemma hsim_same: "gc_heap g' = gc_heap g \<Longrightarrow> hsim g g'" by (simp add: hsim_def)

lemma hsim_alloc: "hsim g g' \<Longrightarrow> alloc g' p = alloc g p"
  by (simp add: hsim_def alloc_def) (metis osim_free)

lemma hsim_tt: "hsim g g' \<Longrightarrow> gch_tt (gc_heap g' p) = gch_tt (gc_heap g p)"
  by (simp add: hsim_def osim_tt)

lemma hsim_ref_ok: "hsim g g' \<Longrightarrow> ref_ok g' r = ref_ok g r"
  by (simp add: ref_ok_def hsim_tt)

lemma hsim_upval: "hsim g g' \<Longrightarrow> gc_heap g' u = OUpval v x \<longleftrightarrow> gc_heap g u = OUpval v x"
  unfolding hsim_def by (cases "gc_heap g u") (auto simp: osim_simps dest!: spec [of _ u])

lemma hsim_open: "hsim g g' \<Longrightarrow> open_uv g' u = open_uv g u"
  by (simp add: open_uv_def hsim_upval)

lemma tab_sim_refs: "tab_sim t t' \<Longrightarrow> table_refs t' = table_refs t"
proof -
  assume s: "tab_sim t t'"
  then have "map node_refs (t_node t') = map node_refs (t_node t)"
    by (intro nth_equalityI) (auto simp: tab_sim_def node_refs_def)
  with s show ?thesis by (simp add: table_refs_def tab_sim_def)
qed

lemma thr_sim_refs: "thr_sim t t' \<Longrightarrow> thread_refs t' = thread_refs t"
  by (simp add: thread_refs_def thr_sim_def)

lemma hsim_refs:
  assumes "struct g" "hsim g g'"
  shows "refs g' p = refs g p"
proof -
  have o: "osim (gc_heap g p) (gc_heap g' p)" using assms(2) by (simp add: hsim_def)
  show ?thesis
  proof (cases "gc_heap g p")
    case (OUpval v x)
    show ?thesis
    proof (cases v)
      case (Some a)
      obtain th i where a: "a = (th, i)" by (cases a)
      from assms(1) OUpval Some a obtain t where t: "gc_heap g th = OThr t" "p \<in> set (th_openupval t)"
        unfolding struct_def by metis
      with assms(1) OUpval Some a have "th_top t < length (th_stack t)" "i < th_top t"
        unfolding struct_def thread_ok_def by fastforce+
      moreover obtain t' where t': "gc_heap g' th = OThr t'" "thr_sim t t'"
        using assms(2) t(1) unfolding hsim_def by (metis osim_simps(2))
      moreover have "th_stack t' ! i = th_stack t ! i"
        using t'(2) \<open>i < th_top t\<close> unfolding thr_sim_def by (metis nth_take)
      ultimately have "slot_at (gc_heap g') th i = slot_at (gc_heap g) th i"
        using t(1) by (auto simp: slot_at_def thr_sim_def)
      with o OUpval Some a show ?thesis by (simp add: refs_def osim_simps)
    qed (use o OUpval in \<open>simp add: refs_def osim_simps\<close>)
  qed (use o in \<open>auto simp: refs_def osim_simps tab_sim_refs thr_sim_refs\<close>)
qed

lemma tab_sim_chain: "tab_sim t t' \<Longrightarrow> tchain t \<Longrightarrow> tchain t'"
  using chain_cong [of "t_node t'" "t_node t"] by (simp add: tchain_def tab_sim_def)

lemma hsim_struct:
  assumes "struct g" "hsim g g'" "gc_uvhead g' = gc_uvhead g"
  shows "struct g'"
proof -
  have h: "osim (gc_heap g p) (gc_heap g' p)" for p using assms(2) by (simp add: hsim_def)
  have tab: "\<exists>t0. gc_heap g p = OTab t0 \<and> tab_sim t0 t" if "gc_heap g' p = OTab t" for p t
    using h [of p] that by (cases "gc_heap g p") (auto simp: osim_simps)
  have thr: "\<exists>t0. gc_heap g p = OThr t0 \<and> thr_sim t0 t" if "gc_heap g' p = OThr t" for p t
    using h [of p] that by (cases "gc_heap g p") (auto simp: osim_simps)
  have thr': "\<exists>t'. gc_heap g' p = OThr t' \<and> thr_sim t t'" if "gc_heap g p = OThr t" for p t
    using h [of p] that by (auto simp: osim_simps)
  have 1: "tchain t" if "gc_heap g' p = OTab t" for p t
    using tab [OF that] assms(1) tab_sim_chain unfolding struct_def by metis
  have 2: "thread_ok g' p t" if "gc_heap g' p = OThr t" for p t
  proof -
    from thr [OF that] obtain t0 where t0: "gc_heap g p = OThr t0" "thr_sim t0 t" by blast
    with assms(1) have "thread_ok g p t0" by (simp add: struct_def)
    with t0(2) show ?thesis unfolding thread_ok_def thr_sim_def hsim_upval [OF assms(2)] by metis
  qed
  have 3: "\<exists>t. gc_heap g' th = OThr t \<and> u \<in> set (th_openupval t)" if "gc_heap g' u = OUpval (Some (th, i)) x" for u th i x
  proof -
    from that assms(1) obtain t where "gc_heap g th = OThr t" "u \<in> set (th_openupval t)"
      unfolding hsim_upval [OF assms(2)] struct_def by metis
    with thr' [of th t] show ?thesis by (auto simp: thr_sim_def)
  qed
  have "gc_heap g' 0 = OFree" using h [of 0] assms(1) by (simp add: struct_def osim_simps)
  with 1 2 3 show ?thesis
    using assms(1,3) unfolding struct_def hsim_open [OF assms(2)] by simp
qed

section \<open>The tri-colour invariant\<close>

abbreviation gray_lists :: "gstate \<Rightarrow> ptr list" where
  "gray_lists g \<equiv> gc_gray g @ gc_grayagain g @ gc_weak g"

definition gray_kind :: "GCObj \<Rightarrow> bool" where
  "gray_kind x \<longleftrightarrow> gch_tt x \<in> {LUA_TTABLE, LUA_TFUNCTION, LUA_TTHREAD, LUA_TPROTO}"

definition marked_refs :: "gstate \<Rightarrow> ptr \<Rightarrow> bool" where
  "marked_refs g p \<longleftrightarrow> (\<forall>(t, q) \<in> refs g p. \<not> white g q)"

text \<open>The objects of \<open>X\<close> are being traversed or are finalized userdata of the cycle before.\<close>

definition tricolour :: "ptr set \<Rightarrow> gstate \<Rightarrow> bool" where
  "tricolour X g \<longleftrightarrow>
     cw_ok (gc_currentwhite g) \<and>
     (\<forall>p. alloc g p \<longrightarrow> \<not> dead g p \<and> (white g p \<longrightarrow> \<not> black g p)) \<and>
     (\<forall>p. \<forall>r \<in> refs g p. ref_ok g r) \<and>
     distinct (gray_lists g) \<and>
     (\<forall>p \<in> set (gray_lists g). gray_kind (gc_heap g p) \<and> \<not> white g p \<and> (p \<notin> X \<longrightarrow> \<not> black g p)) \<and>
     (\<forall>p \<in> set (gc_weak g). gch_tt (gc_heap g p) = LUA_TTABLE) \<and>
     (\<forall>p \<in> set (gc_grayagain g). gch_tt (gc_heap g p) = LUA_TTABLE \<or> gch_tt (gc_heap g p) = LUA_TTHREAD) \<and>
     (\<forall>p. black g p \<and> p \<notin> X \<longrightarrow> marked_refs g p) \<and>
     (\<forall>p. alloc g p \<and> \<not> white g p \<and> \<not> black g p \<and> p \<notin> X \<longrightarrow>
        gch_tt (gc_heap g p) = LUA_TSTRING \<or> open_uv g p \<or> p \<in> set (gray_lists g)) \<and>
     (\<forall>p. black g p \<and> p \<notin> X \<longrightarrow> \<not> open_uv g p \<and> gch_tt (gc_heap g p) \<noteq> LUA_TTHREAD)"

text \<open>What a marking step keeps.\<close>

definition frame :: "gstate \<Rightarrow> gstate \<Rightarrow> bool" where
  "frame g g' \<longleftrightarrow> gc_currentwhite g' = gc_currentwhite g \<and> gc_gcstate g' = gc_gcstate g \<and> gc_strt g' = gc_strt g \<and>
     gc_nuse g' = gc_nuse g \<and> gc_sweepstrgc g' = gc_sweepstrgc g \<and> gc_rootgc g' = gc_rootgc g \<and>
     gc_sweepgc g' = gc_sweepgc g \<and> gc_tmudata g' = gc_tmudata g \<and> gc_uvhead g' = gc_uvhead g \<and>
     gc_mainthread g' = gc_mainthread g \<and> gc_L g' = gc_L g \<and> gc_registry g' = gc_registry g \<and>
     gc_mt g' = gc_mt g \<and> gc_tmname g' = gc_tmname g"

lemma frame_refl [simp]: "frame g g" by (simp add: frame_def)
lemma frame_trans: "frame g g' \<Longrightarrow> frame g' g'' \<Longrightarrow> frame g g''" by (simp add: frame_def)

text \<open>\<open>mk g g'\<close>: objects were marked, nothing else.\<close>

definition mk :: "gstate \<Rightarrow> gstate \<Rightarrow> bool" where
  "mk g g' \<longleftrightarrow> frame g g' \<and> gc_heap g' = gc_heap g \<and> gc_grayagain g' = gc_grayagain g \<and> gc_weak g' = gc_weak g \<and>
     (\<forall>p. \<not> white g p \<longrightarrow> gc_marked g' p = gc_marked g p) \<and>
     (\<forall>p n. 3 \<le> n \<longrightarrow> bit (gc_marked g' p) n = bit (gc_marked g p) n) \<and>
     set (gc_gray g) \<subseteq> set (gc_gray g') \<and> (\<forall>p \<in> set (gc_gray g'). p \<in> set (gc_gray g) \<or> white g p)"

text \<open>The values of the open upvalues marked are marked, too.\<close>

definition mku :: "gstate \<Rightarrow> gstate \<Rightarrow> bool" where
  "mku g g' \<longleftrightarrow> (\<forall>p. open_uv g p \<and> white g p \<and> \<not> white g' p \<longrightarrow> marked_refs g' p)"

lemma mk_refl [simp]: "mk g g" by (simp add: mk_def)

lemma mk_white: "mk g g' \<Longrightarrow> \<not> white g p \<Longrightarrow> \<not> white g' p"
  by (simp add: mk_def white_def)

lemma mk_heap: "mk g g' \<Longrightarrow> gc_heap g' = gc_heap g" by (simp add: mk_def)
lemma mk_frame: "mk g g' \<Longrightarrow> frame g g'" by (simp add: mk_def)

lemma mk_refs [simp]: "mk g g' \<Longrightarrow> refs g' p = refs g p" by (simp add: refs_def mk_heap)

lemma mk_marked_refs: "mk g g' \<Longrightarrow> marked_refs g p \<Longrightarrow> marked_refs g' p"
  using mk_white [of g g'] by (fastforce simp: marked_refs_def)

lemma mk_open: "mk g g' \<Longrightarrow> open_uv g' p = open_uv g p" by (simp add: open_uv_def mk_heap)

lemma mk_trans:
  assumes "mk g g'" "mk g' g''"
  shows "mk g g''"
proof -
  have "frame g g''" using assms frame_trans by (auto simp: mk_def)
  moreover have "\<forall>p. \<not> white g p \<longrightarrow> gc_marked g'' p = gc_marked g p"
    using assms mk_white [OF assms(1)] by (simp add: mk_def)
  moreover have "\<forall>p \<in> set (gc_gray g''). p \<in> set (gc_gray g) \<or> white g p"
    using assms mk_white [OF assms(1)] unfolding mk_def by blast
  ultimately show ?thesis using assms by (auto simp: mk_def)
qed

lemma mku_refl [simp]: "mku g g" by (simp add: mku_def)

lemma mku_trans:
  assumes "mk g g'" "mk g' g''" "mku g g'" "mku g' g''"
  shows "mku g g''"
  unfolding mku_def
proof (intro allI impI)
  fix p assume p: "open_uv g p \<and> white g p \<and> \<not> white g'' p"
  show "marked_refs g'' p"
  proof (cases "white g' p")
    case True
    with p assms(1,4) show ?thesis by (simp add: mku_def mk_open)
  next
    case False
    with p assms(3) have "marked_refs g' p" by (simp add: mku_def)
    with assms(2) show ?thesis by (rule mk_marked_refs)
  qed
qed

lemma tricolour_parts:
  assumes "tricolour X g"
  shows "cw_ok (gc_currentwhite g)" "alloc g p \<Longrightarrow> \<not> dead g p" "alloc g p \<Longrightarrow> white g p \<Longrightarrow> \<not> black g p"
    "r \<in> refs g p \<Longrightarrow> ref_ok g r" "distinct (gray_lists g)" "p \<in> set (gray_lists g) \<Longrightarrow> \<not> white g p"
    "p \<in> set (gray_lists g) \<Longrightarrow> gray_kind (gc_heap g p)" "p \<in> set (gray_lists g) \<Longrightarrow> p \<notin> X \<Longrightarrow> \<not> black g p"
    "black g p \<Longrightarrow> p \<notin> X \<Longrightarrow> marked_refs g p"
    "alloc g p \<Longrightarrow> \<not> white g p \<Longrightarrow> \<not> black g p \<Longrightarrow> p \<notin> X \<Longrightarrow>
       gch_tt (gc_heap g p) = LUA_TSTRING \<or> open_uv g p \<or> p \<in> set (gray_lists g)"
    "black g p \<Longrightarrow> p \<notin> X \<Longrightarrow> \<not> open_uv g p" "black g p \<Longrightarrow> p \<notin> X \<Longrightarrow> gch_tt (gc_heap g p) \<noteq> LUA_TTHREAD"
    "p \<in> set (gc_weak g) \<Longrightarrow> gch_tt (gc_heap g p) = LUA_TTABLE"
    "p \<in> set (gc_grayagain g) \<Longrightarrow> gch_tt (gc_heap g p) = LUA_TTABLE \<or> gch_tt (gc_heap g p) = LUA_TTHREAD"
  using assms unfolding tricolour_def by blast+

lemma tricolour_mono: "tricolour X g \<Longrightarrow> X \<subseteq> Y \<Longrightarrow> tricolour Y g"
  unfolding tricolour_def by blast

lemma tricolour_drop:
  assumes "tricolour (insert p X) g" "black g p \<Longrightarrow> marked_refs g p \<and> \<not> open_uv g p \<and> gch_tt (gc_heap g p) \<noteq> LUA_TTHREAD"
    "p \<in> set (gray_lists g) \<Longrightarrow> \<not> black g p"
    "\<not> white g p \<Longrightarrow> \<not> black g p \<Longrightarrow> gch_tt (gc_heap g p) = LUA_TSTRING \<or> open_uv g p \<or> p \<in> set (gray_lists g)"
  shows "tricolour X g"
proof -
  note tc = tricolour_parts [OF assms(1)]
  have 1: "gray_kind (gc_heap g q) \<and> \<not> white g q \<and> (q \<notin> X \<longrightarrow> \<not> black g q)" if "q \<in> set (gray_lists g)" for q
    using tc(6-8) [OF that] assms(3) that by (cases "q = p") auto
  have 2: "marked_refs g q \<and> \<not> open_uv g q \<and> gch_tt (gc_heap g q) \<noteq> LUA_TTHREAD" if "black g q" "q \<notin> X" for q
    using tc(9,11,12) [of q] assms(2) that by (cases "q = p") auto
  have 3: "gch_tt (gc_heap g q) = LUA_TSTRING \<or> open_uv g q \<or> q \<in> set (gray_lists g)"
    if "alloc g q" "\<not> white g q" "\<not> black g q" "q \<notin> X" for q
    using tc(10) [of q] assms(4) that by (cases "q = p") auto
  show ?thesis unfolding tricolour_def
    using tc(1-5,13,14) 1 2 3 by (intro conjI allI ballI impI) simp_all
qed

text \<open>One object changes from white.\<close>

lemma marked_refs_recolour:
  "\<not> iswhite m \<Longrightarrow> gc_heap h = gc_heap g \<Longrightarrow> gc_marked h = (gc_marked g)(p := m) \<Longrightarrow> marked_refs g q \<Longrightarrow> marked_refs h q"
  by (auto simp: marked_refs_def refs_def white_def)

lemma tricolour_recolour:
  assumes tc: "tricolour X g" and p: "alloc g p" "white g p"
    and m: "\<not> iswhite m" "\<not> isdead (gc_currentwhite g) m"
    and gr: "gr = gc_gray g \<or> gr = p # gc_gray g \<and> gray_kind (gc_heap g p) \<and> \<not> isblack m"
    and b: "isblack m \<Longrightarrow> p \<in> X"
    and ok: "\<not> isblack m \<Longrightarrow> p \<notin> X \<Longrightarrow> gch_tt (gc_heap g p) = LUA_TSTRING \<or> open_uv g p \<or> gr = p # gc_gray g"
  shows "tricolour X ((set_marked g p m)\<lparr>gc_gray := gr\<rparr>)"
proof -
  let ?h = "(set_marked g p m)\<lparr>gc_gray := gr\<rparr>"
  have np: "p \<notin> set (gray_lists g)" using tricolour_parts(6) [OF tc] p(2) by blast
  have col: "white ?h q \<longleftrightarrow> q \<noteq> p \<and> white g q" "black ?h q \<longleftrightarrow> (if q = p then isblack m else black g q)"
    "dead ?h q \<longleftrightarrow> q \<noteq> p \<and> dead g q" for q
    using m by (simp_all add: white_def black_def dead_def)
  have same: "alloc ?h q = alloc g q" "refs ?h q = refs g q" "ref_ok ?h r = ref_ok g r" "open_uv ?h q = open_uv g q"
    "gc_heap ?h = gc_heap g" for q r
    by (simp_all add: alloc_def refs_def ref_ok_def open_uv_def)
  have mr: "marked_refs ?h q" if "marked_refs g q" for q
    by (rule marked_refs_recolour [OF m(1) _ _ that]) simp_all
  have l: "set (gray_lists ?h) \<subseteq> insert p (set (gray_lists g))" "set (gray_lists g) \<subseteq> set (gray_lists ?h)"
    "p \<in> set (gray_lists ?h) \<longleftrightarrow> gr = p # gc_gray g"
    using gr np by auto
  have 1: "distinct (gray_lists ?h)" using gr np tricolour_parts(5) [OF tc] by auto
  have 2: "gray_kind (gc_heap ?h q) \<and> \<not> white ?h q \<and> (q \<notin> X \<longrightarrow> \<not> black ?h q)" if q: "q \<in> set (gray_lists ?h)" for q
  proof (cases "q = p")
    case True
    with q l(3) gr have "gray_kind (gc_heap g p)" "\<not> isblack m" by auto
    with True show ?thesis by (simp add: col)
  next
    case False
    with q l(1) have "q \<in> set (gray_lists g)" by blast
    with tricolour_parts(6-8) [OF tc this] False show ?thesis by (simp add: col)
  qed
  have 3: "marked_refs ?h q \<and> \<not> open_uv ?h q \<and> gch_tt (gc_heap ?h q) \<noteq> LUA_TTHREAD" if "black ?h q" "q \<notin> X" for q
  proof -
    from that b have "black g q" by (auto simp: col split: if_splits)
    with that(2) tricolour_parts(9,11,12) [OF tc] mr show ?thesis by (simp add: same)
  qed
  have 4: "gch_tt (gc_heap ?h q) = LUA_TSTRING \<or> open_uv ?h q \<or> q \<in> set (gray_lists ?h)"
    if "alloc ?h q" "\<not> white ?h q" "\<not> black ?h q" "q \<notin> X" for q
  proof (cases "q = p")
    case True
    with that ok l(3) show ?thesis by (auto simp: col same)
  next
    case False
    with that tricolour_parts(10) [OF tc, of q] l(2) show ?thesis unfolding same by (auto simp: col same)
  qed
  have 5: "\<not> dead ?h q \<and> (white ?h q \<longrightarrow> \<not> black ?h q)" if "alloc ?h q" for q
    using that tricolour_parts(2,3) [OF tc] by (auto simp: col same)
  show ?thesis unfolding tricolour_def
    using tricolour_parts(1,13,14) [OF tc] tricolour_parts(4) [OF tc] 1 2 3 4 5
    by (intro conjI allI ballI impI) (simp_all add: same)
qed

lemma set_marked_gray [simp]: "(set_marked g p m)\<lparr>gc_gray := gc_gray g\<rparr> = set_marked g p m"
  by (simp add: set_marked_def)

lemma mk_recolour:
  assumes "white g p" "\<And>n. 3 \<le> n \<Longrightarrow> bit m n = bit (gc_marked g p) n" and "gr = gc_gray g \<or> gr = p # gc_gray g"
  shows "mk g ((set_marked g p m)\<lparr>gc_gray := gr\<rparr>)"
  using assms by (auto simp: mk_def frame_def white_def)

lemma mku_recolour: "\<not> open_uv g p \<Longrightarrow> mku g ((set_marked g p m)\<lparr>gc_gray := gr\<rparr>)"
  by (auto simp: mku_def white_def)

lemma tricolour_reblack:
  assumes tc: "tricolour X g" and p: "p \<in> X" "\<not> white g p"
    and m: "\<not> iswhite m" "\<not> isdead (gc_currentwhite g) m"
  shows "tricolour X (set_marked g p m)"
proof -
  let ?h = "set_marked g p m"
  have col: "white ?h q = white g q" "q \<noteq> p \<Longrightarrow> black ?h q = black g q" "dead ?h q \<longleftrightarrow> q \<noteq> p \<and> dead g q" for q
    using m p(2) by (auto simp: white_def black_def dead_def)
  have same: "alloc ?h q = alloc g q" "refs ?h q = refs g q" "ref_ok ?h r = ref_ok g r" "open_uv ?h q = open_uv g q"
    "marked_refs ?h q = marked_refs g q" for q r
    using col(1) by (simp_all add: alloc_def refs_def ref_ok_def open_uv_def marked_refs_def)
  have 1: "gray_kind (gc_heap ?h q) \<and> \<not> white ?h q \<and> (q \<notin> X \<longrightarrow> \<not> black ?h q)" if "q \<in> set (gray_lists ?h)" for q
    using tricolour_parts(6-8) [OF tc, of q] that p(1) col(2) [of q] by (cases "q = p") (auto simp: col(1))
  have 2: "marked_refs ?h q \<and> \<not> open_uv ?h q \<and> gch_tt (gc_heap ?h q) \<noteq> LUA_TTHREAD" if "black ?h q" "q \<notin> X" for q
    using tricolour_parts(9,11,12) [OF tc, of q] that p(1) col(2) [of q] by (cases "q = p") (auto simp: same)
  have 3: "gch_tt (gc_heap ?h q) = LUA_TSTRING \<or> open_uv ?h q \<or> q \<in> set (gray_lists ?h)"
    if "alloc ?h q" "\<not> white ?h q" "\<not> black ?h q" "q \<notin> X" for q
    using tricolour_parts(10) [OF tc, of q] that p(1) col(2) [of q] by (cases "q = p") (auto simp: col same)
  have 4: "\<not> dead ?h q \<and> (white ?h q \<longrightarrow> \<not> black ?h q)" if "alloc ?h q" for q
    using tricolour_parts(2,3) [OF tc, of q] that p(2) col(2) [of q] by (cases "q = p") (auto simp: col same)
  show ?thesis unfolding tricolour_def
    using tricolour_parts(1,4,5,13,14) [OF tc] 1 2 3 4
    by (intro conjI allI ballI impI) (simp_all add: same)
qed

definition mark_rank :: "GCObj \<Rightarrow> nat" where
  "mark_rank x = (case x of OUpval v y \<Rightarrow> 3 | OUdata mt e n \<Rightarrow> 2 | _ \<Rightarrow> 1)"

lemma mark_rank_table: "ref_ok g (LUA_TTABLE, p) \<Longrightarrow> mark_rank (gc_heap g p) = 1"
  by (auto simp: ref_ok_def gch_tt_cases mark_rank_def)

lemma mark_rank_value: "ref_ok g r \<Longrightarrow> r \<in> set (val_refs v) \<Longrightarrow> mark_rank (gc_heap g (snd r)) \<le> 2"
proof -
  assume r: "ref_ok g r" "r \<in> set (val_refs v)"
  then have "gch_tt (gc_heap g (snd r)) = ttype v" by (auto simp: ref_ok_def val_refs_def split: if_splits)
  moreover have "ttype v \<noteq> LUA_TUPVAL" by (cases v) (simp_all add: tag_defs)
  ultimately show ?thesis by (cases "gc_heap g (snd r)") (auto simp: mark_rank_def)
qed

lemma gray2black_bits: "3 \<le> n \<Longrightarrow> bit (gray2black m) n = bit m n" "3 \<le> n \<Longrightarrow> bit (white2gray m) n = bit m n"
  by (auto simp: bit_gray2black bit_white2gray)

text \<open>What a marking operation leaves: the invariant, and the objects \<open>ps\<close> marked.\<close>

definition marks :: "ptr set \<Rightarrow> gstate \<Rightarrow> ptr set \<Rightarrow> gstate \<Rightarrow> bool" where
  "marks X g ps g' \<longleftrightarrow> tricolour X g' \<and> mk g g' \<and> mku g g' \<and> (\<forall>p \<in> ps. \<not> white g' p)"

lemma marks_refl: "tricolour X g \<Longrightarrow> (\<And>p. p \<in> ps \<Longrightarrow> \<not> white g p) \<Longrightarrow> marks X g ps g"
  by (simp add: marks_def)

lemma marks_trans:
  assumes "marks X g ps g'" "marks X g' qs g''"
  shows "marks X g (ps \<union> qs) g''"
proof -
  have m: "mk g g'" "mk g' g''" "mku g g'" "mku g' g''" using assms by (simp_all add: marks_def)
  have "\<not> white g'' p" if "p \<in> ps" for p using assms(1) that mk_white [OF m(2)] by (simp add: marks_def)
  with assms(2) mk_trans [OF m(1,2)] mku_trans [OF m] show ?thesis by (auto simp: marks_def)
qed

lemma marks_sub: "marks X g ps g' \<Longrightarrow> qs \<subseteq> ps \<Longrightarrow> marks X g qs g'"
  by (auto simp: marks_def)

lemma upval_value_refs:
  assumes "struct g" "gc_heap g p = OUpval v x"
  shows "\<exists>y. uv_value g v x = Inr y \<and> refs g p = set (val_refs y)"
proof (cases v)
  case (Some a)
  obtain th i where a: "a = (th, i)" by (cases a)
  with Some assms(2) assms(1) obtain t where t: "gc_heap g th = OThr t" "p \<in> set (th_openupval t)"
    unfolding struct_def by metis
  with assms(1) have ok: "thread_ok g th t" by (simp add: struct_def)
  with t(2) assms(2) Some a have "i < length (th_stack t)" unfolding thread_ok_def by fastforce
  with t Some a assms(2) show ?thesis by (simp add: uv_value_def refs_def slot_at_def)
qed (use assms in \<open>simp add: uv_value_def refs_def\<close>)

lemma uv_value_heap: "gc_heap g' = gc_heap g \<Longrightarrow> uv_value g' v x = uv_value g v x"
  by (cases v) (auto simp: uv_value_def)

lemma val_refs_mark: "set (val_refs v) = (if iscollectable v then {(ttype v, gcvalue v)} else {})"
  by (simp add: val_refs_def)

lemma mark_depth_marks:
  assumes "tricolour X g" "struct g" "white g p" "alloc g p" "mark_rank (gc_heap g p) \<le> d"
  shows "returns (marks X g {p}) (mark_depth d g p)"
  using assms
proof (induction d arbitrary: X g p)
  case (Suc d)
  note tc = Suc.prems(1) and st = Suc.prems(2) and wh = Suc.prems(3) and al = Suc.prems(4) and rk = Suc.prems(5)
  have cw: "cw_ok (gc_currentwhite g)" using tricolour_parts(1) [OF tc] .
  have nb: "\<not> isblack (gc_marked g p)" using tricolour_parts(3) [OF tc al wh] by (simp add: black_def)
  have mo: "returns (marks Y h {q}) (markobject_with (mark_depth d) h q)"
    if "tricolour Y h" "struct h" "ref_ok h (t, q)" "mark_rank (gc_heap h q) \<le> d" for Y h t q
    using Suc.IH [of Y h q] that ref_ok_alloc [OF that(3)] marks_refl [OF that(1), of "{q}"]
    by (auto simp: markobject_with_def)
  let ?m = "white2gray (gc_marked g p)"
  have m: "\<not> iswhite ?m" "\<not> isdead (gc_currentwhite g) ?m" "\<not> isblack ?m" using nb cw by simp_all
  have gr: "returns (marks X g {p}) (Inr ((set_marked g p ?m)\<lparr>gc_gray := p # gc_gray g\<rparr>))" if k: "gray_kind (gc_heap g p)"
  proof -
    have "\<not> open_uv g p" using k by (auto simp: gray_kind_def open_uv_def tag_defs)
    then have "mku g ((set_marked g p ?m)\<lparr>gc_gray := p # gc_gray g\<rparr>)" by (rule mku_recolour)
    moreover have "mk g ((set_marked g p ?m)\<lparr>gc_gray := p # gc_gray g\<rparr>)"
      by (intro mk_recolour [OF wh]) (auto simp: gray2black_bits)
    moreover have "tricolour X ((set_marked g p ?m)\<lparr>gc_gray := p # gc_gray g\<rparr>)"
      by (rule tricolour_recolour [OF tc al wh m(1,2)]) (use k m(3) in auto)
    moreover have "\<not> white ((set_marked g p ?m)\<lparr>gc_gray := p # gc_gray g\<rparr>) p" using m(1) by (simp add: white_def)
    ultimately show ?thesis by (simp add: marks_def)
  qed
  show ?case
  proof (cases "gc_heap g p")
    case OFree
    with al show ?thesis by (simp add: alloc_def)
  next
    case (OStr s h)
    have "tricolour X (set_marked g p ?m)"
      using tricolour_recolour [OF tc al wh m(1,2), where gr = "gc_gray g"] OStr m(3) by simp
    moreover have "mk g (set_marked g p ?m)"
      using mk_recolour [OF wh, where m = ?m and gr = "gc_gray g"] by (simp add: gray2black_bits)
    moreover have "mku g (set_marked g p ?m)"
      using mku_recolour [where g = g and p = p and m = ?m and gr = "gc_gray g"] OStr by (simp add: open_uv_def)
    ultimately show ?thesis using OStr m(1) by (simp add: marks_def white_def)
  next
    case (OUdata mt e n)
    let ?h = "set_marked g p (gray2black ?m)"
    have d: "1 \<le> d" using rk OUdata by (simp add: mark_rank_def)
    have h: "tricolour (insert p X) ?h"
      using tricolour_recolour [OF tricolour_mono [OF tc, of "insert p X"] al wh, where m = "gray2black ?m" and gr = "gc_gray g"] cw by auto
    have mkh: "mk g ?h"
      using mk_recolour [OF wh, where m = "gray2black ?m" and gr = "gc_gray g"] by (simp add: gray2black_bits)
    have mkuh: "mku g ?h"
      using mku_recolour [where g = g and p = p and m = "gray2black ?m" and gr = "gc_gray g"] OUdata by (simp add: open_uv_def)
    have sh: "struct ?h" by (rule hsim_struct [OF st hsim_same]) simp_all
    have r: "ref_ok ?h (LUA_TTABLE, e)" "mt \<noteq> 0 \<Longrightarrow> ref_ok ?h (LUA_TTABLE, mt)"
      using tricolour_parts(4) [OF tc, of "(LUA_TTABLE, e)" p] tricolour_parts(4) [OF tc, of "(LUA_TTABLE, mt)" p] OUdata
      by (simp_all add: refs_def opt_ref_def ref_ok_def)
    have "returns (marks (insert p X) ?h (if mt \<noteq> 0 then {mt} else {}))
        (if mt \<noteq> 0 then markobject_with (mark_depth d) ?h mt else Inr ?h)"
      using mo [OF h sh r(2)] mark_rank_table [OF r(2)] d marks_refl [OF h, of "{}"] by simp
    then have "returns (\<lambda>g'. returns (marks (insert p X) ?h (insert e (if mt \<noteq> 0 then {mt} else {}))) (markobject_with (mark_depth d) g' e))
        (if mt \<noteq> 0 then markobject_with (mark_depth d) ?h mt else Inr ?h)"
    proof (rule returns_conseq)
      fix g' assume g': "marks (insert p X) ?h (if mt \<noteq> 0 then {mt} else {}) g'"
      then have t': "tricolour (insert p X) g'" "mk ?h g'" by (simp_all add: marks_def)
      then have "struct g'" by (intro hsim_struct [OF sh hsim_same]) (auto simp: mk_def frame_def)
      moreover have "ref_ok g' (LUA_TTABLE, e)" using r(1) mk_heap [OF t'(2)] by (simp add: ref_ok_def)
      ultimately have "returns (marks (insert p X) g' {e}) (markobject_with (mark_depth d) g' e)"
        using mo [OF t'(1)] mark_rank_table d by simp
      then show "returns (marks (insert p X) ?h (insert e (if mt \<noteq> 0 then {mt} else {}))) (markobject_with (mark_depth d) g' e)"
        by (rule returns_conseq) (use marks_trans [OF g', of "{e}"] in \<open>auto simp: insert_commute\<close>)
    qed
    then have "returns (marks X g {p}) (bindr (if mt \<noteq> 0 then markobject_with (mark_depth d) ?h mt else Inr ?h)
        (\<lambda>g'. markobject_with (mark_depth d) g' e))"
      unfolding returns_bindr
    proof (elim returns_conseq)
      fix g' assume g': "marks (insert p X) ?h (insert e (if mt \<noteq> 0 then {mt} else {})) g'"
      then have t': "tricolour (insert p X) g'" "mk ?h g'" "\<not> white g' e" "mt \<noteq> 0 \<Longrightarrow> \<not> white g' mt"
        by (auto simp: marks_def)
      have g'g: "mk g g'" using mkh t'(2) by (rule mk_trans)
      have g'u: "mku g g'" using mku_trans [OF mkh t'(2) mkuh] g' by (simp add: marks_def)
      have "marked_refs g' p" using t'(3,4) mk_refs [OF g'g, of p] OUdata
        by (auto simp: marked_refs_def refs_def opt_ref_def)
      moreover have "gc_marked g' p = gray2black ?m" using t'(2) by (auto simp: mk_def white_def)
      moreover have "gc_heap g' p = OUdata mt e n" using mk_heap [OF g'g] OUdata by simp
      moreover have "p \<notin> set (gray_lists g')"
        using tricolour_parts(7) [OF t'(1), of p] \<open>gc_heap g' p = _\<close> by (auto simp: gray_kind_def tag_defs)
      ultimately have "tricolour X g'"
        by (intro tricolour_drop [OF t'(1)]) (auto simp: black_def white_def open_uv_def tag_defs)
      moreover have "\<not> white g' p" using mk_white [OF t'(2), of p] by (simp add: white_def)
      ultimately show "marks X g {p} g'" using g'g g'u by (simp add: marks_def)
    qed
    then show ?thesis using OUdata by (simp add: Let_def)
  next
    case (OUpval v x)
    let ?h = "set_marked g p ?m"
    have d: "2 \<le> d" using rk OUpval by (simp add: mark_rank_def)
    from upval_value_refs [OF st OUpval] obtain y where y: "uv_value g v x = Inr y" "refs g p = set (val_refs y)" by blast
    have h: "tricolour (insert p X) ?h"
      using tricolour_recolour [OF tricolour_mono [OF tc, of "insert p X"] al wh m(1,2), where gr = "gc_gray g"] m(3) by auto
    have mkh: "mk g ?h" using mk_recolour [OF wh, where m = ?m and gr = "gc_gray g"] by (simp add: gray2black_bits)
    have sh: "struct ?h" by (rule hsim_struct [OF st hsim_same]) simp_all
    have rk: "mark_rank (gc_heap ?h q) \<le> d \<and> ref_ok ?h (t, q)" if "(t, q) \<in> set (val_refs y)" for t q
      using tricolour_parts(4) [OF tc, of "(t, q)" p] mark_rank_value [of ?h "(t, q)" y] y(2) that d by (simp add: ref_ok_def)
    have mv: "returns (marks (insert p X) ?h (snd ` set (val_refs y))) (markvalue_with (mark_depth d) ?h y)"
    proof (cases "iscollectable y")
      case True
      with rk have "mark_rank (gc_heap ?h (gcvalue y)) \<le> d" "alloc ?h (gcvalue y)"
        using ref_ok_alloc [of ?h "ttype y"] by (auto simp: val_refs_mark)
      with True Suc.IH [OF h sh, of "gcvalue y"] marks_refl [OF h, of "{gcvalue y}"] show ?thesis
        by (auto simp: markvalue_with_def val_refs_mark)
    qed (use marks_refl [OF h, of "{}"] in \<open>simp add: markvalue_with_def val_refs_mark\<close>)
    have uv: "uv_value ?h v x = Inr y" using y(1) uv_value_heap [of ?h g] by simp
    have fin: "marks X g {p} (if v = None then set_marked g' p (gray2black (gc_marked g' p)) else g')"
      if g': "marks (insert p X) ?h (snd ` set (val_refs y)) g'" for g'
    proof -
      from g' have t': "tricolour (insert p X) g'" "mk ?h g'" "mku ?h g'" by (simp_all add: marks_def)
      have g'g: "mk g g'" using mkh t'(2) by (rule mk_trans)
      have mr: "marked_refs g' p" using g' mk_refs [OF g'g, of p] y(2) by (force simp: marks_def marked_refs_def)
      have gm: "gc_marked g' p = ?m" using t'(2) by (auto simp: mk_def white_def)
      have hp: "gc_heap g' p = OUpval v x" using mk_heap [OF g'g] OUpval by simp
      have np: "p \<notin> set (gray_lists g')" using tricolour_parts(7) [OF t'(1), of p] hp by (auto simp: gray_kind_def tag_defs)
      have cw': "cw_ok (gc_currentwhite g')" using tricolour_parts(1) [OF t'(1)] .
      have u: "mku g g'"
      proof (unfold mku_def, intro allI impI)
        fix q assume q: "open_uv g q \<and> white g q \<and> \<not> white g' q"
        show "marked_refs g' q"
        proof (cases "q = p")
          case False
          with q t'(3) show ?thesis by (auto simp: mku_def open_uv_def white_def)
        qed (use mr in simp)
      qed
      show ?thesis
      proof (cases v)
        case (Some a)
        with hp have "open_uv g' p" by (cases a) (simp add: open_uv_def)
        with gm m(3) have "tricolour X g'" by (intro tricolour_drop [OF t'(1)]) (auto simp: black_def)
        with Some g'g u gm m(1) show ?thesis by (simp add: marks_def white_def)
      next
        case None
        let ?k = "set_marked g' p (gray2black (gc_marked g' p))"
        have k: "tricolour (insert p X) ?k"
          by (rule tricolour_reblack [OF t'(1)]) (use np gm cw' in \<open>auto simp: white_def\<close>)
        have wk: "white ?k q = white g' q" for q by (simp add: white_def)
        have mrk: "marked_refs ?k q = marked_refs g' q" for q by (simp add: marked_refs_def refs_def wk)
        have "tricolour X ?k"
          by (rule tricolour_drop [OF k]) (use np mr mrk hp None gm in \<open>auto simp: open_uv_def tag_defs white_def black_def\<close>)
        moreover have "mk g ?k" using g'g wh by (auto simp: mk_def frame_def gray2black_bits)
        moreover have "mku g ?k" using u by (simp add: mku_def wk mrk)
        ultimately show ?thesis using None gm by (simp add: marks_def white_def)
      qed
    qed
    from mv have "returns (\<lambda>g'. marks X g {p} (if v = None then set_marked g' p (gray2black (gc_marked g' p)) else g'))
        (markvalue_with (mark_depth d) ?h y)"
      by (rule returns_conseq) (rule fin)
    then show ?thesis using OUpval uv by (simp add: returns_bindr Let_def if_distrib cong: if_cong)
  qed (use gr in \<open>simp_all add: gray_kind_def tag_defs\<close>)
qed (simp add: mark_rank_def split: GCObj.splits)

end
