(* ===== verification/LuaGCMark.thy ===== *)
theory LuaGCMark
  imports LuaGCInv
begin

text \<open>
  The traversal of gray objects keeps the tri-colour invariant, and the atomic step leaves every object
  that is not white with references to objects that are not white.
\<close>

section \<open>Marking references\<close>

lemma mark_rank_le: "mark_rank x \<le> 3"
  by (cases x) (simp_all add: mark_rank_def)

lemma reallymark_marks:
  "tricolour X g \<Longrightarrow> struct g \<Longrightarrow> white g p \<Longrightarrow> alloc g p \<Longrightarrow> returns (marks X g {p}) (reallymarkobject g p)"
  unfolding reallymarkobject_def MARKDEPTH_def by (rule mark_depth_marks) (simp_all add: mark_rank_le)

lemma markobject_marks:
  "tricolour X g \<Longrightarrow> struct g \<Longrightarrow> ref_ok g (t, p) \<Longrightarrow> returns (marks X g {p}) (markobject g p)"
  using reallymark_marks [of X g p] ref_ok_alloc [of g t p] marks_refl [of X g "{p}"]
  by (auto simp: markobject_def markobject_with_def)

lemma markvalue_marks:
  assumes "tricolour X g" "struct g" "\<And>r. r \<in> set (val_refs v) \<Longrightarrow> ref_ok g r"
  shows "returns (marks X g (snd ` set (val_refs v))) (markvalue g v)"
proof (cases "iscollectable v \<and> white g (gcvalue v)")
  case True
  with assms(3) [of "(ttype v, gcvalue v)"] have "alloc g (gcvalue v)"
    using ref_ok_alloc by (simp add: val_refs_def)
  with True reallymark_marks [OF assms(1,2), of "gcvalue v"] show ?thesis
    by (simp add: markvalue_def markvalue_with_def val_refs_def)
next
  case False
  with marks_refl [OF assms(1), of "snd ` set (val_refs v)"] show ?thesis
    by (auto simp: markvalue_def markvalue_with_def val_refs_def)
qed

text \<open>The bits that say fixed are not changed by marking.\<close>

definition hibits :: "gstate \<Rightarrow> gstate \<Rightarrow> bool" where
  "hibits g g' \<longleftrightarrow> (\<forall>p n. 5 \<le> n \<longrightarrow> bit (gc_marked g' p) n = bit (gc_marked g p) n)"

lemma hibits_refl [simp]: "hibits g g" by (simp add: hibits_def)
lemma hibits_trans: "hibits g g' \<Longrightarrow> hibits g' g'' \<Longrightarrow> hibits g g''" by (simp add: hibits_def)
lemma hibits_same: "gc_marked g' = gc_marked g \<Longrightarrow> hibits g g'" by (simp add: hibits_def)

lemma hibits_set_marked:
  "(\<And>n. 5 \<le> n \<Longrightarrow> bit m n = bit (gc_marked g p) n) \<Longrightarrow> hibits g (set_marked g p m)"
  by (simp add: hibits_def)

text \<open>Steps of a traversal: marking, and changes that the readers of the heap do not see.\<close>

definition trav :: "ptr set \<Rightarrow> gstate \<Rightarrow> ptr set \<Rightarrow> gstate \<Rightarrow> bool" where
  "trav X g ps g' \<longleftrightarrow> tricolour X g' \<and> struct g' \<and> hsim g g' \<and> frame g g' \<and> mku g g' \<and>
     (\<forall>p. \<not> white g p \<longrightarrow> gc_marked g' p = gc_marked g p) \<and>
     gc_grayagain g' = gc_grayagain g \<and> gc_weak g' = gc_weak g \<and> set (gc_gray g) \<subseteq> set (gc_gray g') \<and>
     (\<forall>p \<in> set (gc_gray g'). p \<in> set (gc_gray g) \<or> white g p) \<and>
     (\<forall>p \<in> ps. \<not> white g' p) \<and> hibits g g'"

lemma trav_parts:
  assumes "trav X g ps g'"
  shows "tricolour X g'" "struct g'" "hsim g g'" "frame g g'" "mku g g'" "\<not> white g p \<Longrightarrow> gc_marked g' p = gc_marked g p"
    "gc_grayagain g' = gc_grayagain g" "gc_weak g' = gc_weak g" "p \<in> ps \<Longrightarrow> \<not> white g' p" "\<not> white g p \<Longrightarrow> \<not> white g' p"
    "set (gc_gray g) \<subseteq> set (gc_gray g')" "p \<in> set (gc_gray g') \<Longrightarrow> p \<in> set (gc_gray g) \<or> white g p"
    "hibits g g'"
  using assms by (auto simp: trav_def white_def)

lemma trav_refl: "tricolour X g \<Longrightarrow> struct g \<Longrightarrow> (\<And>p. p \<in> ps \<Longrightarrow> \<not> white g p) \<Longrightarrow> trav X g ps g"
  by (simp add: trav_def)

lemma trav_refl0: "tricolour X g \<Longrightarrow> struct g \<Longrightarrow> trav X g {} g"
  by (rule trav_refl) simp_all

lemma marks_trav: "struct g \<Longrightarrow> marks X g ps g' \<Longrightarrow> trav X g ps g'"
proof -
  assume s: "struct g" and m: "marks X g ps g'"
  then have "mk g g'" by (simp add: marks_def)
  then have "hsim g g'" "gc_uvhead g' = gc_uvhead g" by (auto simp: mk_def frame_def intro: hsim_same)
  then have "struct g'" by (rule hsim_struct [OF s])
  with m \<open>hsim g g'\<close> show ?thesis by (simp add: trav_def marks_def mk_def hibits_def)
qed

lemma trav_marked_refs: "struct g \<Longrightarrow> trav X g ps g' \<Longrightarrow> marked_refs g p \<Longrightarrow> marked_refs g' p"
proof -
  assume s: "struct g" "trav X g ps g'" "marked_refs g p"
  have "refs g' p = refs g p" using hsim_refs [OF s(1) trav_parts(3) [OF s(2)]] .
  with s(3) trav_parts(10) [OF s(2)] show ?thesis by (auto simp: marked_refs_def)
qed

lemma trav_trans:
  assumes "struct g" "trav X g ps g'" "trav X g' qs g''"
  shows "trav X g (ps \<union> qs) g''"
proof -
  note a = trav_parts [OF assms(2)] and b = trav_parts [OF assms(3)]
  have "mku g g''" unfolding mku_def
  proof (intro allI impI)
    fix p assume p: "open_uv g p \<and> white g p \<and> \<not> white g'' p"
    show "marked_refs g'' p"
    proof (cases "white g' p")
      case True
      with p b(5) show ?thesis by (simp add: mku_def hsim_open [OF a(3)])
    next
      case False
      with p a(5) have "marked_refs g' p" by (simp add: mku_def)
      with trav_marked_refs [OF a(2) assms(3)] show ?thesis .
    qed
  qed
  moreover have "hsim g g''" "frame g g''" using hsim_trans [OF a(3) b(3)] frame_trans [OF a(4) b(4)] by blast+
  moreover have "gc_marked g'' p = gc_marked g p" if "\<not> white g p" for p using a(6,10) b(6) that by simp
  moreover have "\<not> white g'' p" if "p \<in> ps \<union> qs" for p using that a(9) b(9,10) by blast
  moreover have "p \<in> set (gc_gray g) \<or> white g p" if "p \<in> set (gc_gray g'')" for p
    using that a(10,12) b(12) by blast
  ultimately show ?thesis using a b hibits_trans [OF a(13) b(13)] by (simp add: trav_def)
qed

lemma trav_sub: "trav X g ps g' \<Longrightarrow> qs \<subseteq> ps \<Longrightarrow> trav X g qs g'"
  by (auto simp: trav_def)

lemma trav_bindr:
  assumes "struct g" "returns (trav X g ps) r" "\<And>h. trav X g ps h \<Longrightarrow> returns (trav X h qs) (f h)"
  shows "returns (trav X g (ps \<union> qs)) (bindr r f)"
  unfolding returns_bindr
proof (rule returns_conseq [OF assms(2)])
  fix h assume h: "trav X g ps h"
  show "returns (trav X g (ps \<union> qs)) (f h)"
    by (rule returns_conseq [OF assms(3) [OF h]]) (rule trav_trans [OF assms(1) h])
qed

lemma trav_mfold:
  assumes "tricolour X g" "struct g"
    and step: "\<And>h x. x \<in> set xs \<Longrightarrow> tricolour X h \<Longrightarrow> struct h \<Longrightarrow> hsim g h \<Longrightarrow> trav X g {} h \<Longrightarrow> returns (trav X h (R x)) (f h x)"
  shows "returns (trav X g (\<Union>x \<in> set xs. R x)) (mfold f g xs)"
  using assms
proof (induction xs arbitrary: g)
  case Nil
  then show ?case by (simp add: trav_refl0)
next
  case (Cons x xs)
  have x: "returns (trav X g (R x)) (f g x)"
    using Cons.prems(3) [of x g] Cons.prems(1,2) trav_refl0 [of X g] by simp
  have "returns (trav X g (R x \<union> (\<Union>x \<in> set xs. R x))) (bindr (f g x) (\<lambda>h. mfold f h xs))"
  proof (rule trav_bindr [OF Cons.prems(2) x])
    fix h assume h: "trav X g (R x) h"
    note hp = trav_parts [OF h]
    show "returns (trav X h (\<Union>x \<in> set xs. R x)) (mfold f h xs)"
    proof (rule Cons.IH [OF hp(1,2)])
      fix k y assume k: "y \<in> set xs" "tricolour X k" "struct k" "hsim h k" "trav X h {} k"
      have "trav X g {} k" using trav_trans [OF Cons.prems(2) h k(5)] by (rule trav_sub) simp
      then show "returns (trav X k (R y)) (f k y)"
        using Cons.prems(3) [of y k] k hsim_trans [OF hp(3) k(4)] by simp
    qed
  qed
  then show ?case by simp
qed

lemma markobject_trav:
  "tricolour X g \<Longrightarrow> struct g \<Longrightarrow> ref_ok g (t, p) \<Longrightarrow> returns (trav X g {p}) (markobject g p)"
  by (rule returns_conseq [OF markobject_marks]) (auto intro: marks_trav)

lemma markvalue_trav:
  "tricolour X g \<Longrightarrow> struct g \<Longrightarrow> (\<And>r. r \<in> set (val_refs v) \<Longrightarrow> ref_ok g r) \<Longrightarrow>
    returns (trav X g (snd ` set (val_refs v))) (markvalue g v)"
  by (rule returns_conseq [OF markvalue_marks]) (auto intro: marks_trav)

lemma markvalues_trav:
  assumes "tricolour X g" "struct g" "\<And>r. r \<in> set (concat (map val_refs vs)) \<Longrightarrow> ref_ok g r"
  shows "returns (trav X g (snd ` set (concat (map val_refs vs)))) (mfold markvalue g vs)"
proof -
  have "returns (trav X g (\<Union>v \<in> set vs. snd ` set (val_refs v))) (mfold markvalue g vs)"
  proof (rule trav_mfold [OF assms(1,2)])
    fix h v assume h: "v \<in> set vs" "tricolour X h" "struct h" "hsim g h" "trav X g {} h"
    show "returns (trav X h (snd ` set (val_refs v))) (markvalue h v)"
      by (rule markvalue_trav [OF h(2,3)]) (use assms(3) h(1) hsim_ref_ok [OF h(4)] in auto)
  qed
  then show ?thesis by (simp add: image_UN)
qed

lemma opt_markobject_trav:
  "tricolour X g \<Longrightarrow> struct g \<Longrightarrow> (\<And>r. r \<in> set (opt_ref t p) \<Longrightarrow> ref_ok g r) \<Longrightarrow>
    returns (trav X g (snd ` set (opt_ref t p))) (if p \<noteq> 0 then markobject g p else Inr g)"
  using markobject_trav [of X g t p] trav_refl0 [of X g] by (auto simp: opt_ref_def)

lemma opt_markobjects_trav:
  assumes "tricolour X g" "struct g" "\<And>r. r \<in> set (concat (map (opt_ref t) ps)) \<Longrightarrow> ref_ok g r"
  shows "returns (trav X g (snd ` set (concat (map (opt_ref t) ps))))
    (mfold (\<lambda>g p. if p \<noteq> 0 then markobject g p else Inr g) g ps)"
proof -
  have "returns (trav X g (\<Union>p \<in> set ps. snd ` set (opt_ref t p)))
      (mfold (\<lambda>g p. if p \<noteq> 0 then markobject g p else Inr g) g ps)"
  proof (rule trav_mfold [OF assms(1,2)])
    fix h p assume h: "p \<in> set ps" "tricolour X h" "struct h" "hsim g h" "trav X g {} h"
    show "returns (trav X h (snd ` set (opt_ref t p))) (if p \<noteq> 0 then markobject h p else Inr h)"
      by (rule opt_markobject_trav [OF h(2,3)]) (use assms(3) h(1) hsim_ref_ok [OF h(4)] in auto)
  qed
  then show ?thesis by (simp add: image_UN)
qed

section \<open>Changes the readers of the heap do not see\<close>

lemma tricolour_hsim:
  assumes tc: "tricolour X g" and st: "struct g" and h: "hsim g g'"
    and same: "gc_marked g' = gc_marked g" "gc_currentwhite g' = gc_currentwhite g" "gc_gray g' = gc_gray g"
      "gc_weak g' = gc_weak g" "gc_grayagain g' = gc_grayagain g"
  shows "tricolour X g'"
proof -
  have eq: "white g' = white g" "black g' = black g" "dead g' = dead g"
    using same(1,2) by (auto simp: white_def black_def dead_def fun_eq_iff)
  have eq': "alloc g' p = alloc g p" "refs g' p = refs g p" "ref_ok g' r = ref_ok g r" "open_uv g' p = open_uv g p"
    "gch_tt (gc_heap g' p) = gch_tt (gc_heap g p)" "gray_kind (gc_heap g' p) = gray_kind (gc_heap g p)"
    "marked_refs g' p = marked_refs g p" for p r
    using hsim_alloc [OF h] hsim_refs [OF st h] hsim_ref_ok [OF h] hsim_open [OF h] hsim_tt [OF h] eq
    by (simp_all add: gray_kind_def marked_refs_def)
  show ?thesis using tc unfolding tricolour_def eq eq' same .
qed

lemma trav_heap:
  assumes "tricolour X g" "struct g" "gc_heap g p = x" "osim x y"
  shows "trav X g {} (set_heap g p y)"
proof -
  have h: "hsim g (set_heap g p y)" using assms(3,4) by (simp add: hsim_def)
  have t: "tricolour X (set_heap g p y)" by (rule tricolour_hsim [OF assms(1,2) h]) simp_all
  have "struct (set_heap g p y)" by (rule hsim_struct [OF assms(2) h]) simp
  with t h show ?thesis by (simp add: trav_def frame_def mku_def white_def hibits_def)
qed

lemma trav_account: "trav X g ps g' \<Longrightarrow> trav X g ps (g'\<lparr>gc_totalbytes := n\<rparr>)"
proof -
  assume t: "trav X g ps g'"
  let ?h = "g'\<lparr>gc_totalbytes := n\<rparr>"
  note a = trav_parts [OF t]
  have "tricolour X ?h" by (rule tricolour_hsim [OF a(1,2) hsim_same]) simp_all
  moreover have "struct ?h" by (rule hsim_struct [OF a(2) hsim_same]) simp_all
  moreover have "white ?h = white g'" "marked_refs ?h = marked_refs g'"
    by (auto simp: white_def marked_refs_def refs_def fun_eq_iff)
  ultimately show ?thesis using t by (simp add: trav_def hsim_def frame_def mku_def hibits_def)
qed

section \<open>Traversals\<close>

lemma white2gray_id: "\<not> iswhite m \<Longrightarrow> white2gray m = m"
proof (rule bit_eqI)
  fix n assume "\<not> iswhite m"
  then show "bit (white2gray m) n = bit m n"
    by (cases "n < 2") (auto simp: bit_white2gray iswhite_iff dest!: less_2_cases)
qed

lemma set_marked_id: "set_marked g p (gc_marked g p) = g"
  by (simp add: set_marked_def)

lemma stringmark_trav:
  assumes "tricolour X g" "struct g" "gch_tt (gc_heap g p) = LUA_TSTRING"
  shows "trav X g {p} (stringmark g p)"
proof (cases "white g p")
  case True
  from assms(3) obtain s h where hp: "gc_heap g p = OStr s h" by (auto simp: gch_tt_cases)
  have al: "alloc g p" using hp by (simp add: alloc_def)
  have cw: "cw_ok (gc_currentwhite g)" using tricolour_parts(1) [OF assms(1)] .
  have nb: "\<not> isblack (white2gray (gc_marked g p))"
    using tricolour_parts(3) [OF assms(1) al True] by (simp add: black_def)
  let ?h = "stringmark g p"
  have "tricolour X ?h"
    using tricolour_recolour [OF assms(1) al True, where m = "white2gray (gc_marked g p)" and gr = "gc_gray g"] cw nb assms(3)
    by (simp add: stringmark_def)
  moreover have "mk g ?h"
    using mk_recolour [OF True, where m = "white2gray (gc_marked g p)" and gr = "gc_gray g"]
    by (simp add: stringmark_def gray2black_bits)
  moreover have "mku g ?h"
    using mku_recolour [where g = g and p = p and m = "white2gray (gc_marked g p)" and gr = "gc_gray g"] hp
    by (simp add: stringmark_def open_uv_def)
  ultimately have "marks X g {p} ?h" by (simp add: marks_def stringmark_def white_def)
  then show ?thesis by (rule marks_trav [OF assms(2)])
next
  case False
  then have "stringmark g p = g" by (simp add: stringmark_def white2gray_id white_def set_marked_id)
  with False show ?thesis using trav_refl [OF assms(1,2), of "{p}"] by simp
qed

lemma markstr_trav:
  assumes "tricolour X g" "struct g" "\<And>r. r \<in> set (opt_ref LUA_TSTRING p) \<Longrightarrow> ref_ok g r"
  shows "trav X g (snd ` set (opt_ref LUA_TSTRING p)) (markstr g p)"
  using stringmark_trav [OF assms(1,2), of p] assms(3) trav_refl0 [OF assms(1,2)]
  by (auto simp: markstr_def opt_ref_def ref_ok_def)

lemma markstrs_trav:
  assumes "tricolour X g" "struct g" "\<And>r. r \<in> set (concat (map (opt_ref LUA_TSTRING) ps)) \<Longrightarrow> ref_ok g r"
  shows "trav X g (snd ` set (concat (map (opt_ref LUA_TSTRING) ps))) (fold (\<lambda>p g. markstr g p) ps g)"
  using assms
proof (induction ps arbitrary: g)
  case (Cons p ps)
  have p: "trav X g (snd ` set (opt_ref LUA_TSTRING p)) (markstr g p)"
    by (rule markstr_trav [OF Cons.prems(1,2)]) (use Cons.prems(3) in simp)
  note a = trav_parts [OF p]
  have "trav X (markstr g p) (snd ` set (concat (map (opt_ref LUA_TSTRING) ps))) (fold (\<lambda>p g. markstr g p) ps (markstr g p))"
    by (rule Cons.IH [OF a(1,2)]) (use Cons.prems(3) hsim_ref_ok [OF a(3)] in simp)
  from trav_trans [OF Cons.prems(2) p this] show ?case by (simp add: image_Un)
qed (simp add: trav_refl0)

lemma trav_bindr':
  assumes "struct g" "returns (trav X g ps) r" "\<And>h. tricolour X h \<Longrightarrow> struct h \<Longrightarrow> hsim g h \<Longrightarrow> returns (trav X h qs) (f h)"
  shows "returns (trav X g (ps \<union> qs)) (bindr r f)"
  by (rule trav_bindr [OF assms(1,2)]) (rule assms(3), (erule trav_parts)+)

lemma traverseclosure_trav:
  assumes "tricolour X g" "struct g" "\<And>r. r \<in> set (obj_refs (gc_heap g) x) \<Longrightarrow> ref_ok g r" "gch_tt x = LUA_TFUNCTION"
  shows "returns (trav X g (snd ` set (obj_refs (gc_heap g) x))) (traverseclosure g x)"
proof (cases x)
  case (OCcl e vs)
  have "returns (trav X g ({e} \<union> snd ` set (concat (map val_refs vs)))) (bindr (markobject g e) (\<lambda>g. mfold markvalue g vs))"
  proof (rule trav_bindr' [OF assms(2)])
    show "returns (trav X g {e}) (markobject g e)"
      by (rule markobject_trav [OF assms(1,2), of LUA_TTABLE]) (use assms(3) OCcl in simp)
    fix h assume h: "tricolour X h" "struct h" "hsim g h"
    show "returns (trav X h (snd ` set (concat (map val_refs vs)))) (mfold markvalue h vs)"
      by (rule markvalues_trav [OF h(1,2)]) (use assms(3) OCcl hsim_ref_ok [OF h(3)] in simp)
  qed
  with OCcl show ?thesis by (simp add: traverseclosure_def)
next
  case (OLcl e q us)
  have "returns (trav X g ({e} \<union> ({q} \<union> set us)))
      (bindr (markobject g e) (\<lambda>g. bindr (markobject g q) (\<lambda>g. mfold markobject g us)))"
  proof (rule trav_bindr' [OF assms(2)])
    show "returns (trav X g {e}) (markobject g e)"
      by (rule markobject_trav [OF assms(1,2), of LUA_TTABLE]) (use assms(3) OLcl in simp)
    fix h assume h: "tricolour X h" "struct h" "hsim g h"
    show "returns (trav X h ({q} \<union> set us)) (bindr (markobject h q) (\<lambda>g. mfold markobject g us))"
    proof (rule trav_bindr' [OF h(2)])
      show "returns (trav X h {q}) (markobject h q)"
        by (rule markobject_trav [OF h(1,2), of LUA_TPROTO]) (use assms(3) OLcl hsim_ref_ok [OF h(3)] in simp)
      fix k assume k: "tricolour X k" "struct k" "hsim h k"
      have ok: "ref_ok k (LUA_TUPVAL, u)" if "u \<in> set us" for u
        using assms(3) OLcl that hsim_ref_ok [OF hsim_trans [OF h(3) k(3)]] by simp
      have "returns (trav X k (\<Union>u \<in> set us. {u})) (mfold markobject k us)"
      proof (rule trav_mfold [OF k(1,2)])
        fix j u assume j: "u \<in> set us" "tricolour X j" "struct j" "hsim k j" "trav X k {} j"
        show "returns (trav X j {u}) (markobject j u)"
          by (rule markobject_trav [OF j(2,3), of LUA_TUPVAL]) (use ok j(1) hsim_ref_ok [OF j(4)] in simp)
      qed
      then show "returns (trav X k (set us)) (mfold markobject k us)" by simp
    qed
  qed
  moreover have "{e} \<union> ({q} \<union> set us) = snd ` set (obj_refs (gc_heap g) x)" using OLcl by (auto simp: image_iff)
  ultimately show ?thesis using OLcl by (simp add: traverseclosure_def)
qed (use assms(4) in \<open>simp_all add: tag_defs\<close>)

lemma traverseproto_trav:
  assumes "tricolour X g" "struct g" "\<And>r. r \<in> set (proto_refs f) \<Longrightarrow> ref_ok g r"
  shows "returns (trav X g (snd ` set (proto_refs f))) (traverseproto g f)"
proof -
  let ?g = "markstr g (gp_source f)"
  have 1: "trav X g (snd ` set (opt_ref LUA_TSTRING (gp_source f))) ?g"
    by (rule markstr_trav [OF assms(1,2)]) (use assms(3) in \<open>simp add: proto_refs_def\<close>)
  note a = trav_parts [OF 1]
  let ?k = "snd ` set (concat (map val_refs (gp_k f)))" and ?u = "snd ` set (concat (map (opt_ref LUA_TSTRING) (gp_upvalues f)))"
    and ?p = "snd ` set (concat (map (opt_ref LUA_TPROTO) (gp_p f)))" and ?v = "snd ` set (concat (map (opt_ref LUA_TSTRING) (gp_locvars f)))"
  have "returns (trav X ?g (?k \<union> (?u \<union> (?p \<union> ?v)))) (bindr (mfold markvalue ?g (gp_k f)) (\<lambda>g.
      let g = fold (\<lambda>p g. markstr g p) (gp_upvalues f) g in
      bindr (mfold (\<lambda>g p. if p \<noteq> 0 then markobject g p else Inr g) g (gp_p f)) (\<lambda>g.
      Inr (fold (\<lambda>p g. markstr g p) (gp_locvars f) g))))"
  proof (rule trav_bindr' [OF a(2)])
    show "returns (trav X ?g ?k) (mfold markvalue ?g (gp_k f))"
      by (rule markvalues_trav [OF a(1,2)]) (use assms(3) hsim_ref_ok [OF a(3)] in \<open>simp add: proto_refs_def\<close>)
    fix h assume h: "tricolour X h" "struct h" "hsim ?g h"
    note gh = hsim_trans [OF a(3) h(3)]
    let ?h = "fold (\<lambda>p g. markstr g p) (gp_upvalues f) h"
    have 2: "trav X h ?u ?h"
      by (rule markstrs_trav [OF h(1,2)]) (use assms(3) hsim_ref_ok [OF gh] in \<open>simp add: proto_refs_def\<close>)
    note b = trav_parts [OF 2]
    have "returns (trav X ?h (?p \<union> ?v)) (bindr (mfold (\<lambda>g p. if p \<noteq> 0 then markobject g p else Inr g) ?h (gp_p f)) (\<lambda>g.
      Inr (fold (\<lambda>p g. markstr g p) (gp_locvars f) g)))"
    proof (rule trav_bindr' [OF b(2)])
      show "returns (trav X ?h ?p) (mfold (\<lambda>g p. if p \<noteq> 0 then markobject g p else Inr g) ?h (gp_p f))"
        by (rule opt_markobjects_trav [OF b(1,2)])
          (use assms(3) hsim_ref_ok [OF hsim_trans [OF gh b(3)]] in \<open>simp add: proto_refs_def\<close>)
      fix k assume k: "tricolour X k" "struct k" "hsim ?h k"
      show "returns (trav X k ?v) (Inr (fold (\<lambda>p g. markstr g p) (gp_locvars f) k))"
        using markstrs_trav [OF k(1,2), of "gp_locvars f"] assms(3) hsim_ref_ok [OF hsim_trans [OF gh hsim_trans [OF b(3) k(3)]]]
        by (simp add: proto_refs_def)
    qed
    then show "returns (trav X h (?u \<union> (?p \<union> ?v))) (let g = fold (\<lambda>p g. markstr g p) (gp_upvalues f) h in
      bindr (mfold (\<lambda>g p. if p \<noteq> 0 then markobject g p else Inr g) g (gp_p f)) (\<lambda>g.
      Inr (fold (\<lambda>p g. markstr g p) (gp_locvars f) g)))"
      unfolding Let_def by (rule returns_conseq) (rule trav_trans [OF h(2) 2])
  qed
  then have "returns (trav X g (snd ` set (opt_ref LUA_TSTRING (gp_source f)) \<union> (?k \<union> (?u \<union> (?p \<union> ?v))))) (traverseproto g f)"
    unfolding traverseproto_def by (simp add: Let_def) (rule returns_conseq, assumption, rule trav_trans [OF assms(2) 1])
  then show ?thesis by (simp add: proto_refs_def image_Un Un_assoc)
qed

text \<open>Tables.\<close>

lemma getstr_returns:
  assumes "tchain t"
  shows "\<exists>slot. luaH_getstr sh t k = Inr slot \<and> (slot = SNil \<or> (\<exists>i < length (t_node t). slot = SNode i))"
proof -
  let ?i = "hashpow2 (t_lsizenode t) (sh k)"
  let ?P = "\<lambda>n. case gkey n of TStr p \<Rightarrow> p = k | _ \<Rightarrow> False"
  have i: "?i < length (t_node t)" using assms by (simp add: tchain_def hashpow2_def lmod_eq)
  with assms obtain xs where xs: "chain (t_node t) (Some ?i) xs" by (auto simp: tchain_def)
  from find_chain_spec [OF xs chain_length [OF xs], of ?P]
  have f: "find_chain (length (t_node t)) ?P (t_node t) ?i = Inr (List.find (\<lambda>j. ?P (t_node t ! j)) xs)" .
  show ?thesis
  proof (cases "List.find (\<lambda>j. ?P (t_node t ! j)) xs")
    case (Some j)
    then have "j \<in> set xs" by (auto simp: find_Some_iff)
    with chain_bound [OF xs] f Some show ?thesis by (simp add: luaH_getstr_def search_node_def node_slot_def)
  qed (use f in \<open>simp add: luaH_getstr_def search_node_def node_slot_def\<close>)
qed

lemma node_value_refs:
  "i < length (t_node t) \<Longrightarrow> set (node_refs (t_node t ! i)) \<subseteq> set (table_refs t)"
  by (auto simp: table_refs_def intro!: bexI [of _ "t_node t ! i"])

lemma gfasttm_trav:
  assumes "tricolour X g" "struct g" "et = 0 \<or> gch_tt (gc_heap g et) = LUA_TTABLE"
  shows "returns (\<lambda>(tm, g'). trav X g {} g' \<and> (\<forall>v. tm = Some v \<longrightarrow> set (val_refs v) \<subseteq> refs g et)) (gfasttm g et e)"
proof (cases "et = 0")
  case True
  then show ?thesis using trav_refl0 [OF assms(1,2)] by (simp add: gfasttm_def)
next
  case False
  with assms(3) obtain t where t: "gc_heap g et = OTab t" by (auto simp: gch_tt_cases)
  with assms(2) have tc: "tchain t" by (simp add: struct_def)
  obtain slot where s: "luaH_getstr (str_hash g) t (gc_tmname g e) = Inr slot"
    "slot = SNil \<or> (\<exists>i < length (t_node t). slot = SNode i)"
    using getstr_returns [OF tc] by blast
  show ?thesis
  proof (cases "slot_val t slot = TNil")
    case True
    have "trav X g {} (set_heap g et (OTab (t\<lparr>t_flags := t_flags t OR push_bit e 1\<rparr>)))"
      by (rule trav_heap [OF assms(1,2) t]) (simp add: osim_simps tab_sim_def)
    with True False t s(1) trav_refl0 [OF assms(1,2)] show ?thesis by (simp add: gfasttm_def tab_at_def)
  next
    case nn: False
    with s(2) obtain i where i: "i < length (t_node t)" "slot = SNode i" by (auto simp: luaO_nilobject_def)
    with nn have "set (val_refs (slot_val t slot)) \<subseteq> set (node_refs (t_node t ! i))" by (auto simp: node_refs_def)
    also have "\<dots> \<subseteq> refs g et" using node_value_refs [OF i(1)] t by (simp add: refs_def)
    finally show ?thesis using nn False t s(1) trav_refl0 [OF assms(1,2)] by (simp add: gfasttm_def tab_at_def)
  qed
qed

definition strong_refs :: "bool \<Rightarrow> bool \<Rightarrow> Node \<Rightarrow> (nat \<times> ptr) list" where
  "strong_refs wk wv n =
     (if gval n = TNil then [] else (if wk then [] else val_refs (gkey n)) @ (if wv then [] else val_refs (gval n)))"

lemma traverse_node_trav:
  assumes "tricolour X g" "struct g" "gc_heap g p = OTab t" "i < length (t_node t)"
  shows "returns (trav X g (snd ` set (strong_refs wk wv (t_node t ! i)))) (traverse_node p wk wv g i)"
proof (cases "gval (t_node t ! i) = TNil")
  case True
  have "trav X g {} (set_heap g p (OTab (t\<lparr>t_node := (t_node t)[i := removeentry (t_node t ! i)]\<rparr>)))"
    by (rule trav_heap [OF assms(1-3)])
      (use True assms(4) in \<open>auto simp: osim_simps tab_sim_def removeentry_def nth_list_update\<close>)
  with True assms(3) show ?thesis by (simp add: traverse_node_def tab_at_def set_node_at_def strong_refs_def Let_def)
next
  case False
  let ?n = "t_node t ! i"
  have ok: "ref_ok g r" if "r \<in> set (val_refs (gkey ?n)) \<or> r \<in> set (val_refs (gval ?n))" for r
    using node_value_refs [OF assms(4)] that False tricolour_parts(4) [OF assms(1), of r p] assms(3)
    by (auto simp: node_refs_def refs_def)
  have "returns (trav X g ((if wk then {} else snd ` set (val_refs (gkey ?n))) \<union> (if wv then {} else snd ` set (val_refs (gval ?n)))))
      (bindr (if \<not> wk then markvalue g (gkey ?n) else Inr g) (\<lambda>g. if \<not> wv then markvalue g (gval ?n) else Inr g))"
  proof (rule trav_bindr' [OF assms(2)])
    show "returns (trav X g (if wk then {} else snd ` set (val_refs (gkey ?n)))) (if \<not> wk then markvalue g (gkey ?n) else Inr g)"
      using markvalue_trav [OF assms(1,2)] ok trav_refl0 [OF assms(1,2)] by simp
    fix h assume h: "tricolour X h" "struct h" "hsim g h"
    show "returns (trav X h (if wv then {} else snd ` set (val_refs (gval ?n)))) (if \<not> wv then markvalue h (gval ?n) else Inr h)"
      using markvalue_trav [OF h(1,2), of "gval ?n"] ok hsim_ref_ok [OF h(3)] trav_refl0 [OF h(1,2)] by simp
  qed
  moreover have "snd ` set (strong_refs wk wv ?n) =
      (if wk then {} else snd ` set (val_refs (gkey ?n))) \<union> (if wv then {} else snd ` set (val_refs (gval ?n)))"
    using False by (simp add: strong_refs_def image_Un)
  ultimately show ?thesis using False assms(3) by (simp add: traverse_node_def tab_at_def Let_def)
qed

lemma tab_sim_strong: "tab_sim t t' \<Longrightarrow> i < length (t_node t) \<Longrightarrow> strong_refs wk wv (t_node t' ! i) = strong_refs wk wv (t_node t ! i)"
  by (simp add: strong_refs_def tab_sim_def)

lemma traverse_nodes_trav:
  assumes "tricolour X g" "struct g" "gc_heap g p = OTab t"
  shows "returns (trav X g (\<Union>n \<in> set (t_node t). snd ` set (strong_refs wk wv n)))
    (mfold (traverse_node p wk wv) g (rev [0..<length (t_node t)]))"
proof -
  have "returns (trav X g (\<Union>i \<in> set (rev [0..<length (t_node t)]). snd ` set (strong_refs wk wv (t_node t ! i))))
      (mfold (traverse_node p wk wv) g (rev [0..<length (t_node t)]))"
  proof (rule trav_mfold [OF assms(1,2)])
    fix h i assume h: "i \<in> set (rev [0..<length (t_node t)])" "tricolour X h" "struct h" "hsim g h" "trav X g {} h"
    from h(4) assms(3) obtain t' where t': "gc_heap h p = OTab t'" "tab_sim t t'"
      unfolding hsim_def by (metis osim_simps(1))
    then have "i < length (t_node t')" using h(1) by (simp add: tab_sim_def)
    from traverse_node_trav [OF h(2,3) t'(1) this, of wk wv] tab_sim_strong [OF t'(2)] h(1)
    show "returns (trav X h (snd ` set (strong_refs wk wv (t_node t ! i)))) (traverse_node p wk wv h i)" by simp
  qed
  moreover have "set (t_node t) = nth (t_node t) ` set (rev [0..<length (t_node t)])"
    using nth_image [of "length (t_node t)" "t_node t"] by simp
  ultimately show ?thesis by simp
qed

text \<open>The weak tables and the threads that the atomic step does not traverse again.\<close>

definition weak_inv_on :: "ptr set \<Rightarrow> gstate \<Rightarrow> bool" where
  "weak_inv_on S g \<longleftrightarrow> (\<forall>p \<in> S. \<forall>t. gc_heap g p = OTab t \<longrightarrow>
     (\<forall>r \<in> set (opt_ref LUA_TTABLE (t_metatable t)). \<not> white g (snd r)) \<and>
     (\<not> bit (gc_marked g p) 4 \<longrightarrow> (\<forall>r \<in> set (concat (map val_refs (t_array t))). \<not> white g (snd r))))"

abbreviation weak_inv :: "gstate \<Rightarrow> bool" where "weak_inv g \<equiv> weak_inv_on (set (gc_weak g)) g"

definition thread_inv :: "gstate \<Rightarrow> bool" where
  "thread_inv g \<longleftrightarrow> (\<forall>p \<in> set (gc_grayagain g). gch_tt (gc_heap g p) = LUA_TTHREAD \<longrightarrow> marked_refs g p)"

lemma trav_thread_inv: "struct g \<Longrightarrow> trav X g ps g' \<Longrightarrow> thread_inv g \<Longrightarrow> thread_inv g'"
  using trav_marked_refs trav_parts(7) hsim_tt [OF trav_parts(3)] by (simp add: thread_inv_def)

lemma weak_inv_mono:
  assumes "weak_inv_on S g" "hsim g g'" "\<And>p. p \<in> S \<Longrightarrow> bit (gc_marked g' p) 4 = bit (gc_marked g p) 4"
    "\<And>p. \<not> white g p \<Longrightarrow> \<not> white g' p"
  shows "weak_inv_on S g'"
  unfolding weak_inv_on_def
proof (intro ballI allI impI)
  fix p t' assume p: "p \<in> S" "gc_heap g' p = OTab t'"
  have "osim (gc_heap g p) (OTab t')" using assms(2) p(2) unfolding hsim_def by metis
  then obtain t where t: "gc_heap g p = OTab t" "tab_sim t t'"
    by (cases "gc_heap g p") (auto simp: osim_simps)
  with assms(1) p(1) have "(\<forall>r \<in> set (opt_ref LUA_TTABLE (t_metatable t)). \<not> white g (snd r)) \<and>
     (\<not> bit (gc_marked g p) 4 \<longrightarrow> (\<forall>r \<in> set (concat (map val_refs (t_array t))). \<not> white g (snd r)))"
    by (simp add: weak_inv_on_def)
  with assms(3) [OF p(1)] assms(4) t(2) show "(\<forall>r \<in> set (opt_ref LUA_TTABLE (t_metatable t')). \<not> white g' (snd r)) \<and>
     (\<not> bit (gc_marked g' p) 4 \<longrightarrow> (\<forall>r \<in> set (concat (map val_refs (t_array t'))). \<not> white g' (snd r)))"
    by (simp add: tab_sim_def)
qed

lemma trav_weak_inv:
  assumes "tricolour X g" "trav X g ps g'" "weak_inv_on S g" "S \<subseteq> set (gc_weak g)"
  shows "weak_inv_on S g'"
proof (rule weak_inv_mono [OF assms(3) trav_parts(3) [OF assms(2)]])
  fix p assume "p \<in> S"
  then have "\<not> white g p" using tricolour_parts(6) [OF assms(1), of p] assms(4) by auto
  then show "bit (gc_marked g' p) 4 = bit (gc_marked g p) 4" using trav_parts(6) [OF assms(2)] by simp
qed (rule trav_parts(10) [OF assms(2)])

text \<open>What \<open>traversetable\<close> does to the table \<open>p\<close>, which is black, in no list and in \<open>X\<close>.\<close>

lemma enter_weak_ok:
  assumes tc: "tricolour X g" and st: "struct g" and p: "p \<in> X" "\<not> white g p" "p \<notin> set (gray_lists g)"
    and t: "gch_tt (gc_heap g p) = LUA_TTABLE" and w: "wk \<or> wv"
  shows "tricolour X (enter_weak g p wk wv) \<and> struct (enter_weak g p wk wv)"
proof -
  let ?m = "weak_bits wk wv (gc_marked g p)" and ?g = "set_marked g p (weak_bits wk wv (gc_marked g p))"
  let ?h = "?g\<lparr>gc_weak := p # gc_weak ?g\<rparr>"
  have cw: "cw_ok (gc_currentwhite g)" using tricolour_parts(1) [OF tc] .
  have al: "\<not> dead g p" using tricolour_parts(2) [OF tc, of p] t gch_tt_alloc [of "gc_heap g p"] by (simp add: alloc_def tag_defs)
  have g: "tricolour X ?g"
    by (rule tricolour_reblack [OF tc p(1,2)]) (use p(2) al cw in \<open>simp_all add: white_def dead_def\<close>)
  note tg = tricolour_parts [OF g]
  have eq: "white ?h = white ?g" "black ?h = black ?g" "dead ?h = dead ?g" "alloc ?h = alloc ?g" "refs ?h = refs ?g"
    "ref_ok ?h = ref_ok ?g" "open_uv ?h = open_uv ?g" "marked_refs ?h = marked_refs ?g"
    by (auto simp: white_def black_def dead_def alloc_def refs_def ref_ok_def open_uv_def marked_refs_def fun_eq_iff)
  have "tricolour X ?h" unfolding tricolour_def eq
    using tg(1-5,9-14) tg(6-8) p t by (auto simp: gray_kind_def white_def)
  moreover have "struct ?h" by (rule hsim_struct [OF st hsim_same]) simp_all
  ultimately show ?thesis using w by (simp add: enter_weak_def Let_def)
qed

definition tab_done :: "ptr set \<Rightarrow> gstate \<Rightarrow> ptr \<Rightarrow> Table \<Rightarrow> gstate \<Rightarrow> bool \<Rightarrow> bool \<Rightarrow> gstate \<Rightarrow> bool" where
  "tab_done X g p t h wk wv g' \<longleftrightarrow> trav X g {} h \<and> trav X (enter_weak h p wk wv) {} g' \<and>
     (\<forall>r \<in> set (opt_ref LUA_TTABLE (t_metatable t)). \<not> white g' (snd r)) \<and>
     (\<not> wv \<longrightarrow> (\<forall>r \<in> set (concat (map val_refs (t_array t))). \<not> white g' (snd r))) \<and>
     (\<not> wk \<and> \<not> wv \<longrightarrow> marked_refs g' p)"

lemma traversetable_ok:
  assumes tc: "tricolour X g" and st: "struct g" and p: "p \<in> X" "\<not> white g p" "p \<notin> set (gray_lists g)"
    and t: "gc_heap g p = OTab t"
  shows "\<exists>h wk wv g'. traversetable g p = Inr (wk \<or> wv, g') \<and> tab_done X g p t h wk wv g'"
proof -
  have ok: "ref_ok g r" if "r \<in> set (table_refs t)" for r
    using tricolour_parts(4) [OF tc, of r p] that t by (simp add: refs_def)
  have mt: "t_metatable t = 0 \<or> gch_tt (gc_heap g (t_metatable t)) = LUA_TTABLE"
    using ok [of "(LUA_TTABLE, t_metatable t)"] by (cases "t_metatable t = 0") (simp_all add: table_refs_def opt_ref_def ref_ok_def)
  have m1: "returns (trav X g (snd ` set (opt_ref LUA_TTABLE (t_metatable t)))) (if t_metatable t \<noteq> 0 then markobject g (t_metatable t) else Inr g)"
    by (rule opt_markobject_trav [OF tc st]) (use ok in \<open>simp add: table_refs_def\<close>)
  then obtain h1 where h1: "(if t_metatable t \<noteq> 0 then markobject g (t_metatable t) else Inr g) = Inr h1"
    "trav X g (snd ` set (opt_ref LUA_TTABLE (t_metatable t))) h1" by (auto simp: returns_def)
  note a1 = trav_parts [OF h1(2)]
  have "t_metatable t = 0 \<or> gch_tt (gc_heap h1 (t_metatable t)) = LUA_TTABLE" using mt hsim_tt [OF a1(3)] by simp
  from gfasttm_trav [OF a1(1,2) this, of TM_MODE_event] obtain mode h2 where
    h2: "gfasttm h1 (t_metatable t) TM_MODE_event = Inr (mode, h2)" "trav X h1 {} h2" by (auto simp: returns_def)
  have gh2: "trav X g (snd ` set (opt_ref LUA_TTABLE (t_metatable t))) h2"
    using trav_trans [OF st h1(2) h2(2)] by simp
  note a2 = trav_parts [OF gh2]
  obtain wk wv where m: "weak_mode h2 mode = (wk, wv)" by fastforce
  have p2: "\<not> white h2 p" "p \<notin> set (gray_lists h2)" using a2(7,8,10,12) p(2,3) by auto
  obtain t2 where t2: "gc_heap h2 p = OTab t2" "tab_sim t t2"
    using a2(3) t unfolding hsim_def by (metis osim_simps(1))
  define k where "k = enter_weak h2 p wk wv"
  have hk: "gc_heap k = gc_heap h2" by (simp add: k_def enter_weak_def Let_def)
  have k: "tricolour X k \<and> struct k"
  proof (cases "wk \<or> wv")
    case True
    then show ?thesis unfolding k_def using enter_weak_ok [OF a2(1,2) p(1) p2] t2(1) by simp
  qed (use a2(1,2) in \<open>simp add: k_def enter_weak_def\<close>)
  have okk: "ref_ok k r" if "r \<in> set (table_refs t)" for r
    using ok [OF that] hsim_tt [OF a2(3)] hk by (simp add: ref_ok_def)
  have wkk: "white k q = white h2 q" for q by (simp add: k_def enter_weak_def Let_def white_def)
  let ?arr = "snd ` set (concat (map val_refs (t_array t)))" and ?nod = "\<Union>n \<in> set (t_node t). snd ` set (strong_refs wk wv n)"
  have mtw: "\<not> white g' (snd r)" if "r \<in> set (opt_ref LUA_TTABLE (t_metatable t))" "trav X k ps g'" for r ps g'
    using a2(9) [of "snd r"] that(1) trav_parts(10) [OF that(2), of "snd r"] wkk by auto
  show ?thesis
  proof (cases "wk \<and> wv")
    case True
    have "traversetable g p = Inr (wk \<or> wv, k)"
      using t h1(1) h2(1) m True by (simp add: traversetable_def tab_at_def k_def)
    moreover have tk: "trav X k {} k" using trav_refl0 k by blast
    moreover have "tab_done X g p t h2 wk wv k"
      using mtw [OF _ tk] trav_sub [OF gh2, of "{}"] tk True by (simp add: tab_done_def k_def)
    ultimately show ?thesis by blast
  next
    case False
    have arr: "returns (trav X k (if wv then {} else ?arr)) (if \<not> wv then mfold markvalue k (rev (t_array t)) else Inr k)"
    proof (cases wv)
      case False
      have "returns (trav X k (snd ` set (concat (map val_refs (rev (t_array t)))))) (mfold markvalue k (rev (t_array t)))"
        by (rule markvalues_trav) (use k okk in \<open>auto simp: table_refs_def\<close>)
      with False show ?thesis by simp
    qed (use k trav_refl0 in simp)
    have "returns (trav X k ((if wv then {} else ?arr) \<union> ?nod))
        (bindr (if \<not> wv then mfold markvalue k (rev (t_array t)) else Inr k)
          (\<lambda>g. mfold (traverse_node p wk wv) g (rev [0..<length (t_node t)])))"
    proof (rule trav_bindr' [OF conjunct2 [OF k] arr])
      fix j assume j: "tricolour X j" "struct j" "hsim k j"
      have "osim (OTab t2) (gc_heap j p)" using j(3) hk t2(1) unfolding hsim_def by metis
      then obtain t3 where t3: "gc_heap j p = OTab t3" "tab_sim t2 t3" by (auto simp: osim_simps)
      have s: "tab_sim t t3" using tab_sim_trans t2(2) t3(2) by blast
      have "(\<Union>n \<in> set (t_node t3). snd ` set (strong_refs wk wv n)) = ?nod"
      proof -
        have "map (strong_refs wk wv) (t_node t3) = map (strong_refs wk wv) (t_node t)"
          using s tab_sim_strong [OF s] by (intro nth_equalityI) (auto simp: tab_sim_def)
        then have "(\<Union>n \<in> set (map (strong_refs wk wv) (t_node t3)). snd ` set n) = (\<Union>n \<in> set (map (strong_refs wk wv) (t_node t)). snd ` set n)"
          by simp
        then show ?thesis by simp
      qed
      with traverse_nodes_trav [OF j(1,2) t3(1), of wk wv] s
      show "returns (trav X j ?nod) (mfold (traverse_node p wk wv) j (rev [0..<length (t_node t)]))"
        by (simp add: tab_sim_def)
    qed
    then obtain g' where g': "bindr (if \<not> wv then mfold markvalue k (rev (t_array t)) else Inr k)
          (\<lambda>g. mfold (traverse_node p wk wv) g (rev [0..<length (t_node t)])) = Inr g'"
      "trav X k ((if wv then {} else ?arr) \<union> ?nod) g'" by (auto simp: returns_def)
    have run: "traversetable g p = Inr (wk \<or> wv, g')"
      using t h1(1) h2(1) m False g'(1) [unfolded k_def]
      by (auto simp: traversetable_def tab_at_def bindr_Inr_iff Let_def)
    note b = trav_parts [OF g'(2)]
    have mr: "marked_refs g' p" if nw: "\<not> wk \<and> \<not> wv"
    proof -
      have kh: "k = h2" using nw by (simp add: k_def enter_weak_def)
      have "\<not> white g' (snd r)" if "r \<in> set (table_refs t)" for r
      proof -
        from that have "r \<in> set (opt_ref LUA_TTABLE (t_metatable t)) \<or> r \<in> set (concat (map val_refs (t_array t))) \<or>
            (\<exists>n \<in> set (t_node t). r \<in> set (node_refs n))" by (auto simp: table_refs_def)
        then show ?thesis
        proof (elim disjE bexE)
          fix n assume n: "n \<in> set (t_node t)" "r \<in> set (node_refs n)"
          then have "r \<in> set (strong_refs wk wv n)" using nw by (auto simp: strong_refs_def node_refs_def split: if_splits)
          with n(1) b(9) show ?thesis by blast
        qed (use mtw [OF _ g'(2)] b(9) nw in auto)
      qed
      moreover have "refs g' p = set (table_refs t)"
        using hsim_refs [OF st hsim_trans [OF a2(3)], of g' p] b(3) kh t by (simp add: refs_def)
      ultimately show ?thesis by (auto simp: marked_refs_def)
    qed
    have "\<not> white g' (snd r)" if "r \<in> set (concat (map val_refs (t_array t)))" "\<not> wv" for r
      using b(9) [of "snd r"] that by auto
    then have "tab_done X g p t h2 wk wv g'"
      unfolding tab_done_def k_def [symmetric]
      using mtw [OF _ g'(2)] trav_sub [OF gh2, of "{}"] trav_sub [OF g'(2), of "{}"] mr by blast
    with run show ?thesis by blast
  qed
qed

text \<open>Stacks.\<close>

lemma trav_total: "tricolour X g \<Longrightarrow> struct g \<Longrightarrow> trav X g {} (g\<lparr>gc_totalbytes := n\<rparr>)"
  by (rule trav_account) (rule trav_refl0)

lemma realloc_trav:
  assumes "tricolour X g" "struct g" "gc_heap g l = OThr t" "thr_sim t t'"
  shows "trav X g {} (set_heap (g\<lparr>gc_totalbytes := n\<rparr>) l (OThr t'))"
proof -
  note a = trav_parts [OF trav_total [OF assms(1,2), of n]]
  have "trav X (g\<lparr>gc_totalbytes := n\<rparr>) {} (set_heap (g\<lparr>gc_totalbytes := n\<rparr>) l (OThr t'))"
    by (rule trav_heap [OF a(1,2), where x = "OThr t"]) (use assms(3,4) in \<open>simp_all add: osim_simps\<close>)
  from trav_trans [OF assms(2) trav_total [OF assms(1,2)] this] show ?thesis by simp
qed

lemma checkstacksizes_trav:
  assumes "tricolour X g" "struct g" "gc_heap g l = OThr t" "lim < length (th_stack t)" "th_top t \<le> lim"
    "\<forall>c \<in> set (th_citops t). c \<le> lim"
  shows "returns (trav X g {}) (checkstacksizes g l lim)"
proof (cases "LUAI_MAXCALLS < th_size_ci t")
  case True
  then show ?thesis using assms(3) trav_refl0 [OF assms(1,2)] by (simp add: checkstacksizes_def thread_at_def)
next
  case False
  let ?c = "4 * (length (th_citops t) - 1) < th_size_ci t \<and> 2 * BASIC_CI_SIZE < th_size_ci t"
  let ?h = "if ?c then luaD_reallocCI g l t (th_size_ci t div 2) else g"
  let ?t = "if ?c then t\<lparr>th_size_ci := th_size_ci t div 2\<rparr> else t"
  have h: "trav X g {} ?h"
    using realloc_trav [OF assms(1-3), of "t\<lparr>th_size_ci := th_size_ci t div 2\<rparr>"] trav_refl0 [OF assms(1,2)]
    by (simp add: luaD_reallocCI_def thr_sim_def)
  have ht: "gc_heap ?h l = OThr ?t" using assms(3) by (simp add: luaD_reallocCI_def)
  note a = trav_parts [OF h]
  let ?s = "4 * lim < length (th_stack t) \<and> 2 * (BASIC_STACK_SIZE + EXTRA_STACK) < length (th_stack t)"
  have "trav X ?h {} (if ?s then luaD_shrinkstack ?h l ?t (length (th_stack t) div 2) else ?h)"
  proof (cases ?s)
    case True
    let ?n = "length (th_stack t) div 2 + 1 + EXTRA_STACK"
    have "4 * lim < n \<Longrightarrow> lim < n div 2 + 1 + e" for n e by presburger
    then have n: "lim < ?n" "lim < length (th_stack t)" using True assms(4) by blast+
    have "thr_sim ?t (?t\<lparr>th_stack := take ?n (th_stack ?t)\<rparr>)"
      using n assms(5,6) by (fastforce simp: thr_sim_def min_def)
    from realloc_trav [OF a(1,2) ht this] show ?thesis
      unfolding if_P [OF True] luaD_shrinkstack_def Let_def .
  next
    case False
    show ?thesis unfolding if_not_P [OF False] by (rule trav_refl0 [OF a(1,2)])
  qed
  from trav_trans [OF assms(2) h this]
  have f: "trav X g {} (if ?s then luaD_shrinkstack ?h l ?t (length (th_stack t) div 2) else ?h)" by simp
  have "checkstacksizes g l lim = Inr (if ?s then luaD_shrinkstack ?h l ?t (length (th_stack t) div 2) else ?h)"
    using assms(3) False ht by (cases ?c; cases ?s) (auto simp: checkstacksizes_def thread_at_def Let_def)
  with f show ?thesis by simp
qed

lemma fold_max: "fold max xs n = Max (insert n (set xs))" for n :: nat
  by (metis Max.set_eq_fold list.simps(15))

lemma traversestack_trav:
  assumes tc: "tricolour X g" and st: "struct g" and t: "gc_heap g l = OThr t"
  shows "returns (trav X g (snd ` set (thread_refs t))) (traversestack g l)"
proof -
  have ok: "ref_ok g r" if "r \<in> set (thread_refs t)" for r
    using tricolour_parts(4) [OF tc, of r l] that t by (simp add: refs_def)
  have tok: "thread_ok g l t" using st t by (simp add: struct_def)
  define lim where "lim = fold max (th_citops t) (th_top t)"
  have lim: "lim < length (th_stack t)" "th_top t \<le> lim" "\<forall>c \<in> set (th_citops t). c \<le> lim"
    using tok by (auto simp: thread_ok_def lim_def fold_max)
  let ?vs = "take (th_top t) (th_stack t)"
  let ?st = "?vs @ replicate (lim + 1 - th_top t) TNil @ drop (lim + 1) (th_stack t)"
  have len: "length ?st = length (th_stack t)" using lim by simp
  let ?t = "t\<lparr>th_stack := ?st\<rparr>"
  have sim: "thr_sim t ?t" using lim by (auto simp: thr_sim_def)
  have "returns (trav X g (snd ` set (val_refs (th_gt t)) \<union> (snd ` set (concat (map val_refs ?vs)) \<union> {})))
      (bindr (markvalue g (th_gt t)) (\<lambda>g. bindr (mfold markvalue g ?vs) (\<lambda>g. checkstacksizes (set_heap g l (OThr ?t)) l lim)))"
  proof (rule trav_bindr' [OF st])
    show "returns (trav X g (snd ` set (val_refs (th_gt t)))) (markvalue g (th_gt t))"
      by (rule markvalue_trav [OF tc st]) (use ok in \<open>simp add: thread_refs_def\<close>)
    fix h assume h: "tricolour X h" "struct h" "hsim g h"
    have "gc_heap h l = OThr t \<or> True" by simp
    show "returns (trav X h (snd ` set (concat (map val_refs ?vs)) \<union> {}))
        (bindr (mfold markvalue h ?vs) (\<lambda>g. checkstacksizes (set_heap g l (OThr ?t)) l lim))"
    proof (rule trav_bindr' [OF h(2)])
      show "returns (trav X h (snd ` set (concat (map val_refs ?vs)))) (mfold markvalue h ?vs)"
        by (rule markvalues_trav [OF h(1,2)]) (use ok hsim_ref_ok [OF h(3)] in \<open>simp add: thread_refs_def\<close>)
      fix k assume k: "tricolour X k" "struct k" "hsim h k"
      have "osim (OThr t) (gc_heap k l)" using hsim_trans [OF h(3) k(3)] t unfolding hsim_def by metis
      then obtain tk where tk: "gc_heap k l = OThr tk" "thr_sim t tk" by (auto simp: osim_simps)
      have "trav X k {} (set_heap k l (OThr ?t))"
        by (rule trav_heap [OF k(1,2) tk(1)]) (use tk(2) lim in \<open>auto simp: osim_simps thr_sim_def\<close>)
      note b = trav_parts [OF this]
      have "returns (trav X (set_heap k l (OThr ?t)) {}) (checkstacksizes (set_heap k l (OThr ?t)) l lim)"
        by (rule checkstacksizes_trav [OF b(1,2), where t = ?t]) (use lim in simp_all)
      then show "returns (trav X k {}) (checkstacksizes (set_heap k l (OThr ?t)) l lim)"
        by (rule returns_conseq) (use trav_trans [OF k(2) \<open>trav X k {} _\<close>] in force)
    qed
  qed
  moreover have "traversestack g l = bindr (markvalue g (th_gt t)) (\<lambda>g. bindr (mfold markvalue g ?vs) (\<lambda>g. checkstacksizes (set_heap g l (OThr ?t)) l lim))"
    using t lim(1) by (simp add: traversestack_def thread_at_def lim_def [symmetric] Let_def)
  ultimately show ?thesis by (simp add: thread_refs_def image_Un)
qed

section \<open>Propagation\<close>

definition prop_ok :: "ptr set \<Rightarrow> gstate \<Rightarrow> gstate \<Rightarrow> bool" where
  "prop_ok X g g' \<longleftrightarrow> tricolour X g' \<and> struct g' \<and> hsim g g' \<and> frame g g' \<and> mku g g' \<and>
     (\<forall>p. \<not> white g p \<longrightarrow> \<not> white g' p) \<and> (weak_inv g \<longrightarrow> weak_inv g') \<and> (thread_inv g \<longrightarrow> thread_inv g') \<and>
     (\<forall>p \<in> set (gc_grayagain g'). p \<in> set (gc_grayagain g) \<or> gch_tt (gc_heap g p) = LUA_TTHREAD) \<and> hibits g g'"

lemma prop_parts:
  assumes "prop_ok X g g'"
  shows "tricolour X g'" "struct g'" "hsim g g'" "frame g g'" "mku g g'" "\<not> white g p \<Longrightarrow> \<not> white g' p"
    "weak_inv g \<Longrightarrow> weak_inv g'" "thread_inv g \<Longrightarrow> thread_inv g'"
    "p \<in> set (gc_grayagain g') \<Longrightarrow> p \<in> set (gc_grayagain g) \<or> gch_tt (gc_heap g p) = LUA_TTHREAD" "hibits g g'"
  using assms by (auto simp: prop_ok_def)

lemma prop_refl: "tricolour X g \<Longrightarrow> struct g \<Longrightarrow> prop_ok X g g"
  by (simp add: prop_ok_def)

lemma prop_marked_refs: "struct g \<Longrightarrow> prop_ok X g g' \<Longrightarrow> marked_refs g p \<Longrightarrow> marked_refs g' p"
proof -
  assume s: "struct g" "prop_ok X g g'" "marked_refs g p"
  have "refs g' p = refs g p" using hsim_refs [OF s(1) prop_parts(3) [OF s(2)]] .
  with s(3) prop_parts(6) [OF s(2)] show ?thesis by (auto simp: marked_refs_def)
qed

lemma prop_trans:
  assumes "prop_ok X g g'" "prop_ok Y g' g''"
  shows "prop_ok Y g g''"
proof -
  note a = prop_parts [OF assms(1)] and b = prop_parts [OF assms(2)]
  have "mku g g''" unfolding mku_def
  proof (intro allI impI)
    fix p assume p: "open_uv g p \<and> white g p \<and> \<not> white g'' p"
    show "marked_refs g'' p"
    proof (cases "white g' p")
      case True
      with p b(5) show ?thesis by (simp add: mku_def hsim_open [OF a(3)])
    next
      case False
      with p a(5) have "marked_refs g' p" by (simp add: mku_def)
      with prop_marked_refs [OF a(2) assms(2)] show ?thesis .
    qed
  qed
  moreover have "p \<in> set (gc_grayagain g) \<or> gch_tt (gc_heap g p) = LUA_TTHREAD" if "p \<in> set (gc_grayagain g'')" for p
    using b(9) [OF that] a(9) [of p] hsim_tt [OF a(3), of p] by auto
  ultimately show ?thesis using a(1-8) b(1-8) hsim_trans [OF a(3) b(3)] frame_trans [OF a(4) b(4)] hibits_trans [OF a(10) b(10)]
    by (simp add: prop_ok_def)
qed

lemma trav_prop:
  assumes "tricolour X g" "struct g" "trav X g ps g'"
  shows "prop_ok X g g'"
proof -
  note a = trav_parts [OF assms(3)]
  have "weak_inv g'" if "weak_inv g" using trav_weak_inv [OF assms(1,3) that order_refl] a(8) by simp
  then show ?thesis using a trav_thread_inv [OF assms(2,3)] by (simp add: prop_ok_def)
qed

lemma tricolour_pop:
  assumes tc: "tricolour X g" and g: "gc_gray g = p # gs" and p: "p \<in> X"
  shows "tricolour X (g\<lparr>gc_gray := gs\<rparr>)"
proof -
  let ?h = "g\<lparr>gc_gray := gs\<rparr>"
  have eq: "white ?h = white g" "black ?h = black g" "dead ?h = dead g" "alloc ?h = alloc g" "refs ?h = refs g"
    "ref_ok ?h = ref_ok g" "open_uv ?h = open_uv g" "marked_refs ?h = marked_refs g"
    by (auto simp: white_def black_def dead_def alloc_def refs_def ref_ok_def open_uv_def marked_refs_def fun_eq_iff)
  note t = tricolour_parts [OF tc]
  have 1: "gch_tt (gc_heap g q) = LUA_TSTRING \<or> open_uv g q \<or> q \<in> set (gs @ gc_grayagain g @ gc_weak g)"
    if "alloc g q" "\<not> white g q" "\<not> black g q" "q \<notin> X" for q
    using t(10) [OF that] g p that(4) by auto
  show ?thesis unfolding tricolour_def eq
    using t(1-5,9,11-14) t(6-8) g 1 by auto
qed

lemma gray2black_black2gray: "\<not> isblack m \<Longrightarrow> black2gray (gray2black m) = m"
  by (rule bit_eqI) (auto simp: bit_gray2black bit_black2gray isblack_iff)

lemma tricolour_again:
  assumes tc: "tricolour X g" and g: "gc_gray g = p # gs" and t: "gch_tt (gc_heap g p) = LUA_TTHREAD"
  shows "tricolour X (g\<lparr>gc_gray := gs, gc_grayagain := p # gc_grayagain g\<rparr>)"
proof -
  let ?h = "g\<lparr>gc_gray := gs, gc_grayagain := p # gc_grayagain g\<rparr>"
  have eq: "white ?h = white g" "black ?h = black g" "dead ?h = dead g" "alloc ?h = alloc g" "refs ?h = refs g"
    "ref_ok ?h = ref_ok g" "open_uv ?h = open_uv g" "marked_refs ?h = marked_refs g"
    by (auto simp: white_def black_def dead_def alloc_def refs_def ref_ok_def open_uv_def marked_refs_def fun_eq_iff)
  note p = tricolour_parts [OF tc]
  have l: "set (gray_lists ?h) = set (gray_lists g)" using g by auto
  show ?thesis unfolding tricolour_def eq
    using p(1-4,9-14) p(6-8) p(5) g t l by (auto simp: gray_kind_def)
qed

text \<open>The end of the traversal of \<open>p\<close>: it is black, or a weak table.\<close>

lemma traversed_black:
  assumes st: "struct g" and tr: "trav (insert p X) g ps g'" and p: "\<not> white g p" "p \<notin> set (gray_lists g)"
    and mr: "marked_refs g' p" and k: "\<not> open_uv g p" "gch_tt (gc_heap g p) \<noteq> LUA_TTHREAD" and b: "black g p"
  shows "tricolour X g'"
proof -
  note a = trav_parts [OF tr]
  have "p \<notin> set (gray_lists g')" using a(7,8,12) p by auto
  moreover have "black g' p" using a(6) [OF p(1)] b by (simp add: black_def)
  ultimately show ?thesis
    using tricolour_drop [OF a(1)] mr k hsim_open [OF a(3)] hsim_tt [OF a(3)] by simp
qed

lemma gray_head:
  assumes "tricolour X g" "struct g" "gc_gray g = p # gs"
  defines "h \<equiv> (set_marked g p (gray2black (gc_marked g p)))\<lparr>gc_gray := gs\<rparr>"
  shows "tricolour (insert p X) h \<and> struct h \<and> \<not> white h p \<and> black h p \<and> p \<notin> set (gray_lists h) \<and> gc_heap h = gc_heap g \<and>
    white h = white g \<and> frame g h \<and> gc_grayagain h = gc_grayagain g \<and> gc_weak h = gc_weak g \<and>
    (\<forall>q. bit (gc_marked h q) 4 = bit (gc_marked g q) 4) \<and> (\<forall>q. \<not> white g q \<longrightarrow> q \<noteq> p \<longrightarrow> gc_marked h q = gc_marked g q) \<and> hibits g h"
proof -
  let ?k = "set_marked g p (gray2black (gc_marked g p))"
  note t = tricolour_parts [OF assms(1)]
  have w: "\<not> white g p" using t(6) [of p] assms(3) by simp
  have "\<not> dead g p" using t(7) [of p] t(2) [of p] assms(3)
    by (cases "gc_heap g p = OFree") (auto simp: gray_kind_def alloc_def tag_defs)
  then have "tricolour (insert p X) ?k"
    using w t(1) by (intro tricolour_reblack [OF tricolour_mono [OF assms(1)]]) (auto simp: white_def dead_def)
  then have "tricolour (insert p X) h" unfolding h_def by (rule tricolour_pop [where p = p]) (simp_all add: assms(3))
  moreover have "struct h" unfolding h_def by (rule hsim_struct [OF assms(2) hsim_same]) simp_all
  moreover have "white h = white g" by (auto simp: h_def white_def fun_eq_iff)
  ultimately show ?thesis using w t(5) assms(3) by (auto simp: h_def black_def frame_def gray2black_bits hibits_def)
qed

lemma propagate_simple:
  assumes g: "tricolour X g" "struct g" "gc_gray g = p # gs"
    and h: "h = (set_marked g p (gray2black (gc_marked g p)))\<lparr>gc_gray := gs\<rparr>"
    and k: "\<not> open_uv g p" "gch_tt (gc_heap g p) \<noteq> LUA_TTHREAD"
    and tr: "trav (insert p X) h (snd ` refs g p) g'"
  shows "prop_ok X g g'"
proof -
  note gh = gray_head [OF g, folded h]
  note a = trav_parts [OF tr]
  have st: "struct h" using gh by blast
  have rf: "refs g' p = refs g p"
    using hsim_refs [OF st a(3)] gh by (simp add: refs_def)
  then have mr: "marked_refs g' p" using a(9) by (force simp: marked_refs_def)
  have "tricolour X g'"
    by (rule traversed_black [OF st tr _ _ mr]) (use gh k in \<open>auto simp: open_uv_def\<close>)
  moreover have "prop_ok (insert p X) h g'" by (rule trav_prop [OF _ st tr]) (use gh in blast)
  note b = prop_parts [OF this]
  moreover have "weak_inv h" if "weak_inv g"
    using weak_inv_mono [of "set (gc_weak g)" g h] that gh by (simp add: hsim_def)
  moreover have "thread_inv h" if "thread_inv g"
    using that gh by (simp add: thread_inv_def marked_refs_def refs_def)
  moreover have "mku g g'" using b(5) gh by (simp add: mku_def open_uv_def)
  moreover have "hsim g g'" using b(3) gh by (simp add: hsim_def)
  moreover have "frame g g'" using frame_trans gh b(4) by blast
  moreover have "hibits g g'" using hibits_trans [of g h g'] b(10) gh by blast
  ultimately show ?thesis using gh by (simp add: prop_ok_def)
qed

lemma propagate_table:
  assumes g: "tricolour X g" "struct g" "gc_gray g = p # gs"
    and h: "h = (set_marked g p (gray2black (gc_marked g p)))\<lparr>gc_gray := gs\<rparr>"
    and t: "gc_heap g p = OTab t"
    and d: "tab_done (insert p X) h p t j wk wv g1"
  shows "prop_ok X g (if wk \<or> wv then set_marked g1 p (black2gray (gc_marked g1 p)) else g1)"
proof -
  note gh = gray_head [OF g, folded h]
  have st: "struct h" and tc: "tricolour (insert p X) h" using gh by blast+
  from d have tj: "trav (insert p X) h {} j" and tk: "trav (insert p X) (enter_weak j p wk wv) {} g1" by (simp_all add: tab_done_def)
  note a = trav_parts [OF tj] and b = trav_parts [OF tk]
  define k where "k = enter_weak j p wk wv"
  have kj: "gc_heap k = gc_heap j" "white k = white j" "frame j k" "gc_grayagain k = gc_grayagain j"
    "\<And>q. q \<noteq> p \<Longrightarrow> gc_marked k q = gc_marked j q" "gc_weak k = (if wk \<or> wv then p # gc_weak j else gc_weak j)"
    "wk \<or> wv \<Longrightarrow> bit (gc_marked k p) 4 = wv"
    by (auto simp: k_def enter_weak_def Let_def white_def frame_def bit_weak_bits_4 fun_eq_iff)
  define g' where "g' = (if wk \<or> wv then set_marked g1 p (black2gray (gc_marked g1 p)) else g1)"
  have g'1: "gc_heap g' = gc_heap g1" "white g' = white g1" "frame g1 g'" "gc_weak g' = gc_weak g1" "gc_grayagain g' = gc_grayagain g1"
    "\<And>q. bit (gc_marked g' q) 4 = bit (gc_marked g1 q) 4"
    by (auto simp: g'_def white_def frame_def fun_eq_iff bit_black2gray)
  have hs: "hsim g g'" proof (unfold hsim_def, intro allI)
    fix q
    have "osim (gc_heap g q) (gc_heap j q)" using a(3) gh by (simp add: hsim_def)
    moreover have "osim (gc_heap j q) (gc_heap g1 q)" using b(3) kj(1) by (simp add: hsim_def k_def)
    ultimately show "osim (gc_heap g q) (gc_heap g' q)" using osim_trans g'1(1) by simp
  qed
  have mono: "\<not> white g' q" if "\<not> white g q" for q
    using that gh a(10) b(10) kj(2) g'1(2) by (simp add: k_def)
  have "frame g h" using gh by blast
  then have fr: "frame g g'"
    using frame_trans [OF frame_trans [OF frame_trans [OF _ a(4)] kj(3)] frame_trans [OF b(4) [folded k_def] g'1(3)]] by blast
  have mk: "mku g g'" unfolding mku_def
  proof (intro allI impI)
    fix q assume q: "open_uv g q \<and> white g q \<and> \<not> white g' q"
    show "marked_refs g' q"
    proof (cases "white j q")
      case True
      have "open_uv k q" using q gh hsim_open [OF a(3), of q] kj(1) by (simp add: open_uv_def)
      with q True b(5) kj(2) g'1(2) have "marked_refs g1 q" by (simp add: mku_def k_def)
      then show ?thesis using g'1 by (simp add: marked_refs_def refs_def)
    next
      case False
      with q gh a(5) have m: "marked_refs j q" by (simp add: mku_def open_uv_def)
      have "refs g' q = refs j q"
        using hsim_refs [OF a(2), of g' q] b(3) kj(1) g'1(1) by (simp add: hsim_def k_def)
      with m b(10) kj(2) g'1(2) show ?thesis by (auto simp: marked_refs_def k_def)
    qed
  qed
  have p1: "\<not> white g1 p" using mono [of p] gh g'1(2) tricolour_parts(6) [OF g(1), of p] g(3) by simp
  have str: "struct g'" using hsim_struct [OF b(2) hsim_same] g'1(1,3) by (simp add: frame_def)
  have tri: "tricolour X g'"
  proof (cases "wk \<or> wv")
    case True
    have al: "alloc g1 p" using hs t g'1(1) unfolding hsim_def by (metis GCObj.distinct(5) alloc_def osim_free)
    have "tricolour (insert p X) g'"
      unfolding g'_def if_P [OF True]
      by (rule tricolour_reblack [OF b(1)])
        (use p1 tricolour_parts(1,2) [OF b(1)] al in \<open>auto simp: white_def dead_def\<close>)
    moreover have "\<not> black g' p" using True by (simp add: g'_def black_def)
    moreover have "p \<in> set (gc_weak g')" using True kj(6) b(8) g'1(4) by (simp add: k_def)
    ultimately show ?thesis by (intro tricolour_drop [of p X g']) auto
  next
    case False
    then have "trav (insert p X) h {} g1" using tk trav_trans [OF st tj, of "{}" g1] by (simp add: enter_weak_def)
    moreover have "marked_refs g1 p" using d False by (simp add: tab_done_def)
    ultimately have "tricolour X g1"
      using gh t by (intro traversed_black [OF st]) (auto simp: open_uv_def tag_defs)
    with False show ?thesis by (simp add: g'_def)
  qed
  have thr: "thread_inv g'" if "thread_inv g"
  proof (unfold thread_inv_def, intro ballI impI)
    fix q assume q: "q \<in> set (gc_grayagain g')" "gch_tt (gc_heap g' q) = LUA_TTHREAD"
    then have "marked_refs g q" using that a(7) b(7) kj(4) g'1(5) gh hsim_tt [OF hs] by (simp add: thread_inv_def k_def)
    then show "marked_refs g' q" using hsim_refs [OF g(2) hs] mono by (auto simp: marked_refs_def)
  qed
  have wk: "weak_inv g'" if w: "weak_inv g"
  proof -
    have pw: "p \<notin> set (gc_weak g)" using gh by auto
    have "weak_inv_on (set (gc_weak g)) g'"
    proof (rule weak_inv_mono [OF w hs _ mono])
      fix q assume q: "q \<in> set (gc_weak g)"
      then have n: "\<not> white g q" "q \<noteq> p" using tricolour_parts(6) [OF g(1), of q] pw by auto
      with gh have "\<not> white h q" "gc_marked h q = gc_marked g q" by auto
      then have "gc_marked j q = gc_marked g q" using a(6) by simp
      moreover have "gc_marked g1 q = gc_marked k q"
        using b(6) [of q] a(10) [OF \<open>\<not> white h q\<close>] kj(2) by (simp add: k_def)
      ultimately show "bit (gc_marked g' q) 4 = bit (gc_marked g q) 4" using g'1(6) kj(5) n(2) by simp
    qed
    moreover have "weak_inv_on {p} g'" if "wk \<or> wv"
    proof -
      have "bit (gc_marked g1 p) 4 = wv"
      proof -
        have "\<not> white h p" using gh by blast
        from a(10) [OF this] have "\<not> white k p" using kj(2) by simp
        with b(6) [of p] kj(7) [OF that] show ?thesis by (simp add: k_def)
      qed
      moreover have "\<exists>t'. gc_heap g' p = OTab t' \<and> tab_sim t t'" using hs t unfolding hsim_def by (metis osim_simps(1))
      ultimately show ?thesis using d g'1 by (auto simp: weak_inv_on_def tab_done_def tab_sim_def)
    qed
    moreover have "set (gc_weak g') = (if wk \<or> wv then insert p (set (gc_weak g)) else set (gc_weak g))"
      using kj(6) b(8) a(8) g'1(4) gh by (auto simp: k_def)
    ultimately show ?thesis by (auto simp: weak_inv_on_def)
  qed
  have "hibits j k" "hibits g1 g'"
    by (auto simp: hibits_def k_def enter_weak_def Let_def bit_weak_bits g'_def bit_black2gray)
  then have hb: "hibits g g'"
    using hibits_trans [of g h j] hibits_trans [of g j k] hibits_trans [of g k g1] hibits_trans [of g g1 g'] gh a(13) b(13)
    by (simp add: k_def)
  have "set (gc_grayagain g') = set (gc_grayagain g)" using a(7) b(7) kj(4) g'1(5) gh by (simp add: k_def)
  with tri str hs fr mk mono thr wk hb show ?thesis unfolding prop_ok_def g'_def [symmetric] by blast
qed

lemma propagatemark_ok:
  assumes g: "tricolour X g" "struct g" and ne: "gc_gray g \<noteq> []" and X: "\<And>q. q \<in> X \<Longrightarrow> \<not> gray_kind (gc_heap g q)"
  shows "returns (\<lambda>(n, g'). prop_ok X g g') (propagatemark g)"
proof -
  obtain p gs where gr: "gc_gray g = p # gs" using ne by (cases "gc_gray g") auto
  define h where "h = (set_marked g p (gray2black (gc_marked g p)))\<lparr>gc_gray := gs\<rparr>"
  note gh = gray_head [OF g gr, folded h_def]
  have tc: "tricolour (insert p X) h" and st: "struct h" using gh by blast+
  have rf: "set (obj_refs (gc_heap h) (gc_heap g p)) = refs g p" using gh by (simp add: refs_def)
  have ok: "ref_ok h r" if "r \<in> refs g p" for r
    using tricolour_parts(4) [OF tc, of r p] that gh by (simp add: refs_def)
  note smp = propagate_simple [OF g gr h_def]
  have gk: "gray_kind (gc_heap g p)" using tricolour_parts(7) [OF g(1), of p] gr by simp
  show ?thesis
  proof (cases "gc_heap g p")
    case (OTab t)
    have "gc_heap h p = OTab t" using OTab gh by simp
    from traversetable_ok [OF tc st _ _ _ this] gh obtain j wk wv g1 where
      r: "traversetable h p = Inr (wk \<or> wv, g1)" "tab_done (insert p X) h p t j wk wv g1" by auto
    from propagate_table [OF g gr h_def OTab r(2)] r(1) OTab gr show ?thesis
      by (simp add: propagatemark_def h_def [symmetric] Let_def)
  next
    case (OCcl e vs)
    have "returns (trav (insert p X) h (snd ` refs g p)) (traverseclosure h (OCcl e vs))"
      using traverseclosure_trav [OF tc st, of "OCcl e vs"] ok rf OCcl by (simp add: refs_def)
    then have "returns (prop_ok X g) (traverseclosure h (OCcl e vs))"
      by (rule returns_conseq) (rule smp, auto simp: OCcl open_uv_def tag_defs)
    with OCcl gr show ?thesis by (simp add: propagatemark_def h_def [symmetric] Let_def returns_bindr)
  next
    case (OLcl e q us)
    have "returns (trav (insert p X) h (snd ` refs g p)) (traverseclosure h (OLcl e q us))"
      using traverseclosure_trav [OF tc st, of "OLcl e q us"] ok rf OLcl by (simp add: refs_def)
    then have "returns (prop_ok X g) (traverseclosure h (OLcl e q us))"
      by (rule returns_conseq) (rule smp, auto simp: OLcl open_uv_def tag_defs)
    with OLcl gr show ?thesis by (simp add: propagatemark_def h_def [symmetric] Let_def returns_bindr)
  next
    case (OProto f)
    have "returns (trav (insert p X) h (snd ` refs g p)) (traverseproto h f)"
      using traverseproto_trav [OF tc st, of f] ok OProto by (simp add: refs_def)
    then have "returns (prop_ok X g) (traverseproto h f)"
      by (rule returns_conseq) (rule smp, auto simp: OProto open_uv_def tag_defs)
    with OProto gr show ?thesis by (simp add: propagatemark_def h_def [symmetric] Let_def returns_bindr)
  next
    case (OThr t)
    let ?k = "g\<lparr>gc_gray := gs, gc_grayagain := p # gc_grayagain g\<rparr>"
    have nb: "\<not> isblack (gc_marked g p)"
      using X [of p] gk tricolour_parts(8) [OF g(1), of p] gr by (auto simp: black_def)
    have k: "tricolour X ?k" by (rule tricolour_again [OF g(1) gr]) (simp add: OThr)
    have sk: "struct ?k" by (rule hsim_struct [OF g(2) hsim_same]) simp_all
    have run: "traversestack ?k p = Inr g' \<Longrightarrow> thread_at g' p = Inr t' \<Longrightarrow> \<exists>n. propagatemark g = Inr (n, g')" for g' t'
      using OThr gr gray2black_black2gray [OF nb] set_marked_id [of ?k p]
      by (simp add: propagatemark_def Let_def set_marked_def)
    have "returns (trav X ?k (snd ` set (thread_refs t))) (traversestack ?k p)"
      by (rule traversestack_trav [OF k sk]) (simp add: OThr)
    then obtain g' where g': "traversestack ?k p = Inr g'" "trav X ?k (snd ` set (thread_refs t)) g'" by (auto simp: returns_def)
    note a = trav_parts [OF g'(2)]
    have eq: "white ?k = white g" "open_uv ?k = open_uv g" "refs ?k = refs g" "marked_refs ?k = marked_refs g"
      by (auto simp: white_def open_uv_def refs_def marked_refs_def fun_eq_iff)
    have hs: "hsim g g'" using a(3) by (simp add: hsim_def)
    then obtain t' where t': "gc_heap g' p = OThr t'" using OThr unfolding hsim_def by (metis osim_simps(2))
    have mono: "\<not> white g' q" if "\<not> white g q" for q using a(10) [of q] that eq(1) by simp
    have rf: "refs g' q = refs g q" for q using hsim_refs [OF g(2) hs] .
    have thr: "thread_inv g'" if "thread_inv g"
    proof (unfold thread_inv_def, intro ballI impI)
      fix q assume q: "q \<in> set (gc_grayagain g')" "gch_tt (gc_heap g' q) = LUA_TTHREAD"
      show "marked_refs g' q"
      proof (cases "q = p")
        case True
        have "refs g p = set (thread_refs t)" using OThr by (simp add: refs_def)
        with True a(9) rf show ?thesis by (force simp: marked_refs_def)
      next
        case False
        with q a(7) hsim_tt [OF hs] that have "marked_refs g q" by (simp add: thread_inv_def)
        with rf mono show ?thesis by (auto simp: marked_refs_def)
      qed
    qed
    have "weak_inv_on (set (gc_weak g)) g'" if "weak_inv g"
    proof (rule trav_weak_inv [OF k g'(2)])
      show "weak_inv_on (set (gc_weak g)) ?k" using that eq(1) by (simp add: weak_inv_on_def)
    qed simp
    then have "weak_inv g'" if "weak_inv g" using that a(8) by simp
    moreover have "frame g g'" using a(4) by (simp add: frame_def)
    moreover have "mku g g'" using a(5) eq by (simp add: mku_def)
    moreover have "hibits g g'" using a(13) by (simp add: hibits_def)
    ultimately have "prop_ok X g g'" using a(1,2,7) hs mono thr OThr by (simp add: prop_ok_def)
    with run [OF g'(1)] t' show ?thesis by (auto simp: thread_at_def returns_def)
  qed (use gk in \<open>simp_all add: gray_kind_def tag_defs\<close>)
qed

lemma propagateall_ok:
  assumes "tricolour X g" "struct g" "\<And>q. q \<in> X \<Longrightarrow> \<not> gray_kind (gc_heap g q)"
  shows "returns (\<lambda>(n, g'). prop_ok X g g' \<and> gc_gray g' = []) (propagateall g)"
  using assms
proof (induction g rule: propagateall.induct)
  case (1 g)
  show ?case
  proof (cases "gc_gray g = []")
    case True
    then show ?thesis using prop_refl 1(2,3) by (subst propagateall.simps) simp
  next
    case False
    from propagatemark_ok [OF 1(2,3) False 1(4)] obtain n h where
      h: "propagatemark g = Inr (n, h)" "prop_ok X g h" by (auto simp: returns_def)
    note a = prop_parts [OF h(2)]
    have "\<not> gray_kind (gc_heap h q)" if "q \<in> X" for q using 1(4) [OF that] hsim_tt [OF a(3)] by (simp add: gray_kind_def)
    from 1(1) [OF False h(1) refl a(1,2) this] obtain m k where
      k: "propagateall h = Inr (m, k)" "prop_ok X h k" "gc_gray k = []" by (auto simp: returns_def)
    from prop_trans [OF h(2) k(2)] show ?thesis
      by (subst propagateall.simps) (simp add: False h(1) k)
  qed
qed

end
