(* ===== verification/LuaGCAtomic.thy ===== *)
theory LuaGCAtomic
  imports LuaGCMark
begin

text \<open>
  The lists of all objects, and the atomic step: afterwards an object that is not dead has references
  only to objects that are not dead.
\<close>

section \<open>The lists of objects\<close>

definition lists_ok :: "gstate \<Rightarrow> bool" where
  "lists_ok g \<longleftrightarrow>
     distinct (gc_rootgc g) \<and> gc_mainthread g \<in> set (gc_rootgc g) \<and> distinct (concat (gc_strt g)) \<and>
     distinct (gc_tmudata g) \<and> gc_strt g \<noteq> [] \<and>
     set (concat (gc_strt g)) = {p. gch_tt (gc_heap g p) = LUA_TSTRING} \<and>
     (\<forall>p \<in> set (gc_tmudata g). gch_tt (gc_heap g p) = LUA_TUSERDATA) \<and>
     set (gc_rootgc g) = {p. alloc g p \<and> gch_tt (gc_heap g p) \<noteq> LUA_TSTRING \<and> \<not> open_uv g p \<and> p \<notin> set (gc_tmudata g)} \<and>
     set (udata_list g) = {p. gch_tt (gc_heap g p) = LUA_TUSERDATA \<and> p \<notin> set (gc_tmudata g)}"

definition roots :: "gstate \<Rightarrow> (nat \<times> ptr) set" where
  "roots g = {(LUA_TTHREAD, gc_mainthread g), (LUA_TTHREAD, gc_L g)} \<union> set (val_refs (gc_registry g)) \<union>
     set (concat (map (opt_ref LUA_TTABLE) (gc_mt g)))"

definition roots_ok :: "gstate \<Rightarrow> bool" where
  "roots_ok g \<longleftrightarrow> (\<forall>r \<in> roots g. ref_ok g r)"

lemma lists_ok_sim:
  assumes "lists_ok g" "hsim g g'" "gc_rootgc g' = gc_rootgc g" "gc_strt g' = gc_strt g" "gc_tmudata g' = gc_tmudata g"
    "gc_mainthread g' = gc_mainthread g"
  shows "lists_ok g'"
proof -
  have u: "udata_list g' = udata_list g" using assms(3,6) by (simp add: udata_list_def)
  show ?thesis
    using assms(1) unfolding lists_ok_def u assms(3-6) hsim_tt [OF assms(2)] hsim_alloc [OF assms(2)] hsim_open [OF assms(2)] .
qed

lemma roots_frame: "frame g g' \<Longrightarrow> roots g' = roots g"
  by (simp add: roots_def frame_def)

lemma roots_ok_sim: "roots_ok g \<Longrightarrow> hsim g g' \<Longrightarrow> frame g g' \<Longrightarrow> roots_ok g'"
  by (simp add: roots_ok_def roots_frame hsim_ref_ok)

section \<open>Open upvalues and the roots\<close>

definition upval_inv :: "gstate \<Rightarrow> bool" where
  "upval_inv g \<longleftrightarrow> (\<forall>u. open_uv g u \<and> \<not> white g u \<longrightarrow> marked_refs g u)"

lemma prop_upval_inv: "struct g \<Longrightarrow> prop_ok X g g' \<Longrightarrow> upval_inv g \<Longrightarrow> upval_inv g'"
proof (unfold upval_inv_def, intro allI impI)
  fix u assume s: "struct g" "prop_ok X g g'" "\<forall>u. open_uv g u \<and> \<not> white g u \<longrightarrow> marked_refs g u" "open_uv g' u \<and> \<not> white g' u"
  note a = prop_parts [OF s(2)]
  have o: "open_uv g u" using s(4) hsim_open [OF a(3)] by simp
  show "marked_refs g' u"
  proof (cases "white g u")
    case True
    with s(4) o a(5) show ?thesis by (simp add: mku_def)
  next
    case False
    with s(3) o prop_marked_refs [OF s(1,2)] show ?thesis by blast
  qed
qed

lemma remarkupvals_ok:
  assumes tc: "tricolour X g" and st: "struct g" and X: "\<And>q. q \<in> X \<Longrightarrow> \<not> open_uv g q"
  shows "returns (\<lambda>g'. prop_ok X g g' \<and> upval_inv g') (remarkupvals g)"
proof -
  let ?R = "\<lambda>u. if white g u then {} else snd ` refs g u"
  have "returns (trav X g (\<Union>u \<in> set (gc_uvhead g). ?R u)) (remarkupvals g)"
    unfolding remarkupvals_def
  proof (rule trav_mfold [OF tc st])
    fix h u assume u: "u \<in> set (gc_uvhead g)" and h: "tricolour X h" "struct h" "hsim g h" "trav X g {} h"
    note a = trav_parts [OF h(4)]
    have o: "open_uv g u" using u st by (auto simp: struct_def)
    then have oh: "open_uv h u" using hsim_open [OF h(3)] by simp
    then obtain th i x where hp: "gc_heap h u = OUpval (Some (th, i)) x" by (auto simp: open_uv_def)
    from upval_value_refs [OF h(2) hp] obtain y where y: "uv_value h (Some (th, i)) x = Inr y" "refs h u = set (val_refs y)" by blast
    have m: "returns (trav X h (snd ` refs g u)) (markvalue h y)"
      using markvalue_trav [OF h(1,2), of y] tricolour_parts(4) [OF h(1), of _ u] y(2) hsim_refs [OF st h(3), of u] by simp
    have nb: "\<not> black h u" using tricolour_parts(11) [OF h(1), of u] X [of u] o oh by blast
    have ig: "isgray_obj h u \<longleftrightarrow> \<not> white h u" using nb by (simp add: isgray_obj_def isgray_def white_def black_def)
    show "returns (trav X h (?R u)) (if isgray_obj h u then bindr (upval_value h u) (markvalue h) else Inr h)"
    proof (cases "white h u")
      case True
      then have "white g u" using a(10) by blast
      with True ig trav_refl0 [OF h(1,2)] show ?thesis by simp
    next
      case False
      with ig m y(1) hp trav_sub [of X h "snd ` refs g u" _ "{}"] show ?thesis
        by (auto simp: upval_value_def intro: returns_conseq)
    qed
  qed
  then show ?thesis
  proof (rule returns_conseq)
    fix g' assume g': "trav X g (\<Union>u \<in> set (gc_uvhead g). ?R u) g'"
    note a = trav_parts [OF g']
    have "marked_refs g' u" if u: "open_uv g' u" "\<not> white g' u" for u
    proof (cases "white g u")
      case True
      with u a(5) hsim_open [OF a(3), of u] show ?thesis by (simp add: mku_def)
    next
      case False
      have "u \<in> set (gc_uvhead g)" using u(1) hsim_open [OF a(3), of u] st by (simp add: struct_def)
      then have "\<not> white g' q" if "(t, q) \<in> refs g u" for t q using a(9) [of q] that False by force
      then show ?thesis using hsim_refs [OF st a(3), of u] by (auto simp: marked_refs_def)
    qed
    with trav_prop [OF tc st g'] show "prop_ok X g g' \<and> upval_inv g'" by (simp add: upval_inv_def)
  qed
qed

text \<open>The lists change places.\<close>

lemma tricolour_lists:
  assumes tc: "tricolour X g" and h: "gc_heap h = gc_heap g" "gc_marked h = gc_marked g" "gc_currentwhite h = gc_currentwhite g"
    and l: "distinct (gray_lists h)" "set (gray_lists h) = set (gray_lists g)"
    and w: "set (gc_weak h) \<subseteq> set (gc_weak g)" "set (gc_grayagain h) \<subseteq> set (gc_grayagain g)"
  shows "tricolour X h"
proof -
  have eq: "white h = white g" "black h = black g" "dead h = dead g" "alloc h = alloc g" "refs h = refs g"
    "ref_ok h = ref_ok g" "open_uv h = open_uv g" "marked_refs h = marked_refs g"
    by (intro ext; simp add: white_def black_def dead_def alloc_def refs_def ref_ok_def open_uv_def marked_refs_def h)+
  show ?thesis using tc l w unfolding tricolour_def eq h by blast
qed

lemma opt_objects_prop:
  assumes "tricolour X g" "struct g" "\<And>r. r \<in> set (concat (map (opt_ref t) ps)) \<Longrightarrow> ref_ok g r"
  shows "returns (\<lambda>g'. prop_ok X g g' \<and> (\<forall>r \<in> set (concat (map (opt_ref t) ps)). \<not> white g' (snd r)))
    (mfold (\<lambda>g p. if p \<noteq> 0 then markobject g p else Inr g) g ps)"
  by (rule returns_conseq [OF opt_markobjects_trav [OF assms]]) (auto dest: trav_parts(9) trav_prop [OF assms(1,2)])

text \<open>The running thread and the metatables of the basic types are marked again.\<close>

lemma mark_roots_ok:
  assumes tc: "tricolour X g" and st: "struct g" and r: "roots_ok g"
  shows "returns (\<lambda>g'. prop_ok X g g' \<and> \<not> white g' (gc_L g) \<and> (\<forall>r \<in> set (concat (map (opt_ref LUA_TTABLE) (gc_mt g))). \<not> white g' (snd r)))
    (bindr (markobject g (gc_L g)) markmt)"
  unfolding returns_bindr
proof (rule returns_conseq [OF markobject_trav [OF tc st, of LUA_TTHREAD]])
  show "ref_ok g (LUA_TTHREAD, gc_L g)" using r by (simp add: roots_ok_def roots_def)
  fix h assume h: "trav X g {gc_L g} h"
  note a = trav_parts [OF h]
  have mt: "gc_mt h = gc_mt g" using a(4) by (simp add: frame_def)
  have "returns (\<lambda>g'. prop_ok X h g' \<and> (\<forall>r \<in> set (concat (map (opt_ref LUA_TTABLE) (gc_mt g))). \<not> white g' (snd r))) (markmt h)"
    unfolding markmt_def mt
    by (rule opt_objects_prop [OF a(1,2)]) (use r hsim_ref_ok [OF a(3)] in \<open>auto simp: roots_ok_def roots_def\<close>)
  then show "returns (\<lambda>g'. prop_ok X g g' \<and> \<not> white g' (gc_L g) \<and> (\<forall>r \<in> set (concat (map (opt_ref LUA_TTABLE) (gc_mt g))). \<not> white g' (snd r))) (markmt h)"
    by (rule returns_conseq) (use prop_trans [OF trav_prop [OF tc st h]] a(9) prop_parts(6) in blast)
qed

section \<open>Separating the userdata to finalize\<close>

text \<open>Nothing the invariants see changes but the list \<open>tmudata\<close>.\<close>

definition sep :: "gstate \<Rightarrow> gstate \<Rightarrow> bool" where
  "sep g g' \<longleftrightarrow> hsim g g' \<and> frame g (g'\<lparr>gc_tmudata := gc_tmudata g\<rparr>) \<and> white g' = white g \<and> black g' = black g \<and>
     (\<forall>p. bit (gc_marked g' p) 4 = bit (gc_marked g p) 4 \<and> bit (gc_marked g' p) 5 = bit (gc_marked g p) 5) \<and>
     gc_gray g' = gc_gray g \<and> gc_grayagain g' = gc_grayagain g \<and> gc_weak g' = gc_weak g \<and> dead g' = dead g"

lemma sep_refl [simp]: "sep g g" by (simp add: sep_def frame_def)

lemma sep_trans: "sep g g' \<Longrightarrow> sep g' g'' \<Longrightarrow> sep g g''"
  using hsim_trans by (auto simp: sep_def frame_def)

lemma sep_struct: "struct g \<Longrightarrow> sep g g' \<Longrightarrow> struct g'"
  by (rule hsim_struct) (simp_all add: sep_def frame_def)

lemma sep_tricolour:
  assumes tc: "tricolour X g" and st: "struct g" and s: "sep g g'"
  shows "tricolour X g'"
proof -
  have h: "hsim g g'" and c: "white g' = white g" "black g' = black g" "dead g' = dead g" "gc_currentwhite g' = gc_currentwhite g"
    "gc_gray g' = gc_gray g" "gc_weak g' = gc_weak g" "gc_grayagain g' = gc_grayagain g"
    using s by (simp_all add: sep_def frame_def)
  have eq': "alloc g' p = alloc g p" "refs g' p = refs g p" "ref_ok g' r = ref_ok g r" "open_uv g' p = open_uv g p"
    "gch_tt (gc_heap g' p) = gch_tt (gc_heap g p)" "gray_kind (gc_heap g' p) = gray_kind (gc_heap g p)"
    "marked_refs g' p = marked_refs g p" for p r
    using hsim_alloc [OF h] hsim_refs [OF st h] hsim_ref_ok [OF h] hsim_open [OF h] hsim_tt [OF h] c
    by (simp_all add: gray_kind_def marked_refs_def)
  show ?thesis using tc unfolding tricolour_def eq' c .
qed

lemma sep_heap: "gc_heap g p = x \<Longrightarrow> osim x y \<Longrightarrow> sep g (set_heap g p y)"
  by (auto simp: sep_def frame_def hsim_def white_def black_def dead_def fun_eq_iff)

lemma gfasttm_sep:
  assumes st: "struct g" and et: "et = 0 \<or> gch_tt (gc_heap g et) = LUA_TTABLE"
  shows "returns (\<lambda>(tm, g'). sep g g' \<and> gc_tmudata g' = gc_tmudata g \<and> gc_marked g' = gc_marked g) (gfasttm g et e)"
proof (cases "et = 0")
  case False
  with et obtain t where t: "gc_heap g et = OTab t" by (auto simp: gch_tt_cases)
  with st have tc: "tchain t" by (simp add: struct_def)
  obtain slot where s: "luaH_getstr (str_hash g) t (gc_tmname g e) = Inr slot"
    using getstr_returns [OF tc] by blast
  have "sep g (set_heap g et (OTab (t\<lparr>t_flags := t_flags t OR push_bit e 1\<rparr>)))"
    by (rule sep_heap [OF t]) (simp add: osim_simps tab_sim_def)
  with False t s show ?thesis by (simp add: gfasttm_def tab_at_def)
qed (simp add: gfasttm_def)

lemma sep_finalized:
  assumes "cw_ok (gc_currentwhite g)"
  shows "sep g (set_marked g p (markfinalized (gc_marked g p))) \<and> hibits g (set_marked g p (markfinalized (gc_marked g p)))"
proof -
  have "bit (markfinalized m) n = bit m n" if "5 \<le> n" for m n
    using that by (auto simp: markfinalized_def bit_setbit FINALIZEDBIT_def)
  moreover have "bit (markfinalized m) 4 = bit m 4" "bit (markfinalized m) 5 = bit m 5" for m
    by (auto simp: markfinalized_def bit_setbit FINALIZEDBIT_def)
  ultimately show ?thesis using assms
    by (auto simp: sep_def frame_def hsim_def white_def black_def dead_def fun_eq_iff hibits_def)
qed

lemma sep_tmudata: "sep g (g\<lparr>gc_tmudata := us\<rparr>) \<and> hibits g (g\<lparr>gc_tmudata := us\<rparr>)"
  by (auto simp: sep_def frame_def hsim_def white_def black_def dead_def fun_eq_iff hibits_def)

lemma sep_parts:
  assumes "sep g g'"
  shows "hsim g g'" "gc_currentwhite g' = gc_currentwhite g" "gc_rootgc g' = gc_rootgc g" "gc_mainthread g' = gc_mainthread g"
    "gc_strt g' = gc_strt g" "white g' = white g" "dead g' = dead g" "black g' = black g"
  using assms by (auto simp: sep_def frame_def)

definition separated :: "gstate \<Rightarrow> ptr list \<Rightarrow> ptr list \<Rightarrow> gstate \<Rightarrow> bool" where
  "separated g us ps g' \<longleftrightarrow> sep g g' \<and> hibits g g' \<and>
     (\<exists>mv. gc_tmudata g' = gc_tmudata g @ mv \<and> set mv \<inter> set ps = {} \<and> set mv \<union> set ps = set us \<and> distinct mv \<and> distinct ps)"

lemma separate_loop_ok:
  assumes "struct g" "cw_ok (gc_currentwhite g)" "distinct us" "\<And>u. u \<in> set us \<Longrightarrow> gch_tt (gc_heap g u) = LUA_TUSERDATA"
    "\<And>u r. u \<in> set us \<Longrightarrow> r \<in> refs g u \<Longrightarrow> ref_ok g r"
  shows "returns (\<lambda>(m, ps, g'). separated g us ps g') (separate_loop all g us)"
  using assms
proof (induction us arbitrary: g)
  case Nil
  then show ?case by (simp add: separated_def)
next
  case (Cons u us)
  have step: "returns (\<lambda>(m, ps, g'). separated h us ps g') (separate_loop all h us)" if h: "sep g h" for h
  proof (rule Cons.IH [OF sep_struct [OF Cons.prems(1) h]])
    show "cw_ok (gc_currentwhite h)" using sep_parts(2) [OF h] Cons.prems(2) by simp
    fix v assume v: "v \<in> set us"
    show "gch_tt (gc_heap h v) = LUA_TUSERDATA" using Cons.prems(4) [of v] v hsim_tt [OF sep_parts(1) [OF h]] by simp
    fix r assume "r \<in> refs h v"
    then show "ref_ok h r"
      using Cons.prems(5) [of v r] v hsim_refs [OF Cons.prems(1) sep_parts(1) [OF h], of v] hsim_ref_ok [OF sep_parts(1) [OF h]] by simp
  qed (use Cons.prems(3) in simp)
  have keep: "separated g (u # us) (u # ps) g'"
    if h: "sep g h" "hibits g h" "gc_tmudata h = gc_tmudata g" and s: "separated h us ps g'" for h ps g'
    using s h(3) Cons.prems(3) sep_trans [OF h(1)] hibits_trans [OF h(2)] unfolding separated_def by auto
  have move: "separated g (u # us) ps g'"
    if h: "sep g h" "hibits g h" "gc_tmudata h = gc_tmudata g @ [u]" and s: "separated h us ps g'" for h ps g'
  proof -
    from s obtain mv where mv: "sep h g'" "hibits h g'" "gc_tmudata g' = gc_tmudata h @ mv" "set mv \<inter> set ps = {}"
      "set mv \<union> set ps = set us" "distinct mv" "distinct ps" by (auto simp: separated_def)
    have "gc_tmudata g' = gc_tmudata g @ (u # mv)" "set (u # mv) \<inter> set ps = {}" "set (u # mv) \<union> set ps = set (u # us)" "distinct (u # mv)"
      using mv h(3) Cons.prems(3) by auto
    with mv(7) sep_trans [OF h(1) mv(1)] hibits_trans [OF h(2) mv(2)] show ?thesis unfolding separated_def by blast
  qed
  obtain mt env n where hu: "gc_heap g u = OUdata mt env n" using Cons.prems(4) [of u] by (auto simp: gch_tt_cases)
  have "mt = 0 \<or> gch_tt (gc_heap g mt) = LUA_TTABLE"
    using Cons.prems(5) [of u "(LUA_TTABLE, mt)"] hu by (cases "mt = 0") (simp_all add: refs_def opt_ref_def ref_ok_def)
  from gfasttm_sep [OF Cons.prems(1) this, of TM_GC_event] obtain tm h where
    h: "gfasttm g mt TM_GC_event = Inr (tm, h)" "sep g h" "gc_tmudata h = gc_tmudata g" "gc_marked h = gc_marked g"
    by (auto simp: returns_def)
  let ?h = "set_marked h u (markfinalized (gc_marked h u))"
  have cwh: "cw_ok (gc_currentwhite h)" using sep_parts(2) [OF h(2)] Cons.prems(2) by simp
  have fin: "sep g ?h" "hibits g ?h"
    using sep_finalized [OF cwh, of u] sep_trans [OF h(2)] hibits_trans [OF hibits_same [OF h(4)]] by blast+
  have app: "sep g (?h\<lparr>gc_tmudata := gc_tmudata g @ [u]\<rparr>)" "hibits g (?h\<lparr>gc_tmudata := gc_tmudata g @ [u]\<rparr>)"
    using sep_tmudata [of ?h] sep_trans [OF fin(1)] hibits_trans [OF fin(2)] by blast+
  consider (skip) "\<not> (white g u \<or> all) \<or> isfinalized (gc_marked g u)"
    | (none) "\<not> (\<not> (white g u \<or> all) \<or> isfinalized (gc_marked g u))" "tm = None"
    | (some) "\<not> (\<not> (white g u \<or> all) \<or> isfinalized (gc_marked g u))" "tm \<noteq> None" by blast
  then show ?case
  proof cases
    case skip
    have "returns (\<lambda>(m, ps, g'). separated g (u # us) ps g') (bindr (separate_loop all g us) (\<lambda>(m, ps, g). Inr (m, u # ps, g)))"
      unfolding returns_bindr by (rule returns_conseq [OF step [OF sep_refl]]) (use keep [of g] in auto)
    then show ?thesis unfolding separate_loop.simps if_P [OF skip] .
  next
    case none
    have "returns (\<lambda>(m, ps, g'). separated g (u # us) ps g') (bindr (separate_loop all ?h us) (\<lambda>(m, ps, g). Inr (m, u # ps, g)))"
      unfolding returns_bindr by (rule returns_conseq [OF step [OF fin(1)]]) (use keep [OF fin] h(3) in auto)
    with none h(1) hu show ?thesis by (simp only: separate_loop.simps if_not_P [OF none(1)]) (simp add: Let_def)
  next
    case some
    have "returns (\<lambda>(m, ps, g'). separated g (u # us) ps g')
        (bindr (separate_loop all (?h\<lparr>gc_tmudata := gc_tmudata g @ [u]\<rparr>) us) (\<lambda>(m, ps, g). Inr (sizeudata n + m, ps, g)))"
      unfolding returns_bindr by (rule returns_conseq [OF step [OF app(1)]]) (use move [OF app] in auto)
    with some h(1,3) hu show ?thesis by (simp only: separate_loop.simps if_not_P [OF some(1)]) (auto simp: Let_def)
  qed
qed

lemma before_udata_list: "gc_mainthread g \<in> set (gc_rootgc g) \<Longrightarrow> before_udata g @ udata_list g = gc_rootgc g"
proof -
  assume "gc_mainthread g \<in> set (gc_rootgc g)"
  then obtain x xs where d: "dropWhile (\<lambda>p. p \<noteq> gc_mainthread g) (gc_rootgc g) = x # xs"
    by (cases "dropWhile (\<lambda>p. p \<noteq> gc_mainthread g) (gc_rootgc g)") (auto simp: dropWhile_eq_Nil_conv)
  then have "x = gc_mainthread g" using hd_dropWhile [of "\<lambda>p. p \<noteq> gc_mainthread g" "gc_rootgc g"] by simp
  with d show ?thesis
    using takeWhile_dropWhile_id [of "\<lambda>p. p \<noteq> gc_mainthread g" "gc_rootgc g"]
    by (simp add: before_udata_def udata_list_def)
qed

lemma udata_list_before:
  assumes "gc_rootgc g' = before_udata g @ ps" "gc_mainthread g' = gc_mainthread g"
  shows "udata_list g' = ps" "before_udata g' = before_udata g"
proof -
  let ?t = "takeWhile (\<lambda>p. p \<noteq> gc_mainthread g) (gc_rootgc g)"
  have t: "x \<noteq> gc_mainthread g" if "x \<in> set ?t" for x using set_takeWhileD [OF that] by simp
  show "udata_list g' = ps" using dropWhile_append2 [of ?t "\<lambda>p. p \<noteq> gc_mainthread g" "gc_mainthread g # ps"] t assms
    by (simp add: udata_list_def before_udata_def)
  show "before_udata g' = before_udata g" using takeWhile_append2 [of ?t "\<lambda>p. p \<noteq> gc_mainthread g" "gc_mainthread g # ps"] t assms
    by (simp add: before_udata_def)
qed

lemma lists_ok_parts:
  assumes "lists_ok g"
  shows "distinct (gc_rootgc g)" "gc_mainthread g \<in> set (gc_rootgc g)" "distinct (concat (gc_strt g))"
    "distinct (gc_tmudata g)" "gc_strt g \<noteq> []" "set (concat (gc_strt g)) = {p. gch_tt (gc_heap g p) = LUA_TSTRING}"
    "p \<in> set (gc_tmudata g) \<Longrightarrow> gch_tt (gc_heap g p) = LUA_TUSERDATA"
    "set (gc_rootgc g) = {p. alloc g p \<and> gch_tt (gc_heap g p) \<noteq> LUA_TSTRING \<and> \<not> open_uv g p \<and> p \<notin> set (gc_tmudata g)}"
    "set (udata_list g) = {p. gch_tt (gc_heap g p) = LUA_TUSERDATA \<and> p \<notin> set (gc_tmudata g)}"
  using assms unfolding lists_ok_def by blast+

lemma separateudata_ok:
  assumes st: "struct g" and cw: "cw_ok (gc_currentwhite g)" and l: "lists_ok g" and ok: "\<And>u r. r \<in> refs g u \<Longrightarrow> ref_ok g r"
  shows "returns (\<lambda>(m, g'). sep g (g'\<lparr>gc_rootgc := gc_rootgc g\<rparr>) \<and> hibits g g' \<and> lists_ok g' \<and> set (gc_tmudata g) \<subseteq> set (gc_tmudata g'))
    (luaC_separateudata g all)"
proof -
  note lp = lists_ok_parts [OF l]
  have split: "gc_rootgc g = before_udata g @ udata_list g" using before_udata_list [OF lp(2)] by simp
  have d: "distinct (before_udata g)" "distinct (udata_list g)" "set (before_udata g) \<inter> set (udata_list g) = {}"
    using lp(1) unfolding split by simp_all
  have "returns (\<lambda>(m, ps, g'). separated g (udata_list g) ps g') (separate_loop all g (udata_list g))"
    by (rule separate_loop_ok [OF st cw d(2)]) (use lp(9) ok in auto)
  then show ?thesis unfolding luaC_separateudata_def returns_bindr
  proof (elim returns_conseq)
    fix x assume x0: "case x of (m, ps, g') \<Rightarrow> separated g (udata_list g) ps g'"
    obtain m ps g' where x: "x = (m, ps, g')" by (cases x) auto
    with x0 obtain mv where s: "sep g g'" "hibits g g'" and mv: "gc_tmudata g' = gc_tmudata g @ mv" "set mv \<inter> set ps = {}"
      "set mv \<union> set ps = set (udata_list g)" "distinct mv" "distinct ps" by (auto simp: separated_def)
    note h = sep_parts [OF s(1)]
    let ?h = "g'\<lparr>gc_rootgc := before_udata g @ ps\<rparr>"
    have u: "udata_list ?h = ps" using udata_list_before(1) [of ?h g ps] h(4) by simp
    have tt: "gch_tt (gc_heap ?h p) = gch_tt (gc_heap g p)" for p using hsim_tt [OF h(1)] by simp
    have al: "alloc ?h p = alloc g p" "open_uv ?h p = open_uv g p" for p
      using hsim_alloc [OF h(1), of p] hsim_open [OF h(1), of p] by (simp_all add: alloc_def open_uv_def)
    have ud: "p \<in> set (udata_list g) \<longleftrightarrow> gch_tt (gc_heap g p) = LUA_TUSERDATA \<and> p \<notin> set (gc_tmudata g)" for p
      using lp(9) by blast
    have rt: "p \<in> set (before_udata g) \<or> p \<in> set (udata_list g) \<longleftrightarrow>
        alloc g p \<and> gch_tt (gc_heap g p) \<noteq> LUA_TSTRING \<and> \<not> open_uv g p \<and> p \<notin> set (gc_tmudata g)" for p
      using lp(8) unfolding split by (auto simp: set_eq_iff)
    have 1: "distinct (gc_rootgc ?h)" using d mv(3,5) by auto
    have 2: "gc_mainthread ?h \<in> set (gc_rootgc ?h)" using h(4) by (simp add: before_udata_def)
    have 3: "distinct (gc_tmudata ?h)" using mv lp(4) ud by auto
    have 4: "\<forall>p \<in> set (gc_tmudata ?h). gch_tt (gc_heap ?h p) = LUA_TUSERDATA"
      using mv lp(7) ud tt by auto
    have 5: "set (gc_rootgc ?h) = {p. alloc ?h p \<and> gch_tt (gc_heap ?h p) \<noteq> LUA_TSTRING \<and> \<not> open_uv ?h p \<and> p \<notin> set (gc_tmudata ?h)}"
      unfolding al tt using rt mv d by (auto simp: set_eq_iff)
    have 6: "set (udata_list ?h) = {p. gch_tt (gc_heap ?h p) = LUA_TUSERDATA \<and> p \<notin> set (gc_tmudata ?h)}"
      unfolding u tt using ud mv by (auto simp: set_eq_iff)
    have 7: "distinct (concat (gc_strt ?h))" "gc_strt ?h \<noteq> []" "set (concat (gc_strt ?h)) = {p. gch_tt (gc_heap ?h p) = LUA_TSTRING}"
      unfolding tt using lp(3,5,6) h(5) by simp_all
    have "lists_ok ?h" unfolding lists_ok_def using 1 2 3 4 5 6 7 by blast
    moreover have "sep g (?h\<lparr>gc_rootgc := gc_rootgc g\<rparr>)"
      using s(1) h(3) by (auto simp: sep_def frame_def hsim_def white_def black_def dead_def fun_eq_iff)
    ultimately have "sep g (?h\<lparr>gc_rootgc := gc_rootgc g\<rparr>) \<and> hibits g ?h \<and> lists_ok ?h \<and> set (gc_tmudata g) \<subseteq> set (gc_tmudata ?h)"
      using s(2) mv(1) by (simp add: hibits_def)
    then show "returns (\<lambda>(m, g'). sep g (g'\<lparr>gc_rootgc := gc_rootgc g\<rparr>) \<and> hibits g g' \<and> lists_ok g' \<and> set (gc_tmudata g) \<subseteq> set (gc_tmudata g'))
        (case x of (m, ps, g') \<Rightarrow> Inr (m, g'\<lparr>gc_rootgc := before_udata g @ ps\<rparr>))"
      unfolding x by simp
  qed
qed

section \<open>Marking the userdata to finalize\<close>

lemma table_ref_trav:
  assumes "tricolour X g" "struct g" "ref_ok g (LUA_TTABLE, p)" "0 < d"
  shows "returns (trav X g {p}) (markobject_with (mark_depth d) g p)"
proof -
  have "returns (marks X g {p}) (markobject_with (mark_depth d) g p)"
    using mark_depth_marks [OF assms(1,2), of p d] ref_ok_alloc [OF assms(3)] mark_rank_table [OF assms(3)] assms(4)
      marks_refl [OF assms(1), of "{p}"] by (auto simp: markobject_with_def)
  then show ?thesis by (rule returns_conseq) (rule marks_trav [OF assms(2)])
qed

lemma mark_finalized_one:
  assumes tc: "tricolour (insert u X) g" and st: "struct g" and u: "gc_heap g u = OUdata mt e n"
  shows "returns (\<lambda>g'. prop_ok X g g' \<and> \<not> white g' u) (reallymarkobject (makewhite g u) u)"
proof -
  let ?m = "gray2black (white2gray (makewhite_of (gc_currentwhite g) (gc_marked g u)))"
  define h where "h = set_marked g u ?m"
  have cw: "cw_ok (gc_currentwhite g)" using tricolour_parts(1) [OF tc] .
  have al: "alloc g u" using u by (simp add: alloc_def)
  have m: "\<not> iswhite ?m" "\<not> isdead (gc_currentwhite g) ?m" using cw by simp_all
  have bm: "bit ?m k = bit (gc_marked g u) k" if "3 \<le> k" for k using that by (simp add: mark_bits)
  have h: "tricolour (insert u X) h"
  proof (cases "white g u")
    case True
    have "tricolour (insert u X) ((set_marked g u ?m)\<lparr>gc_gray := gc_gray g\<rparr>)"
      by (rule tricolour_recolour [OF tc al True m]) auto
    then show ?thesis by (simp add: h_def)
  next
    case False
    show ?thesis unfolding h_def by (rule tricolour_reblack [OF tc _ False m]) simp
  qed
  have sh: "struct h" unfolding h_def by (rule hsim_struct [OF st hsim_same]) simp_all
  have wh: "white h q \<longleftrightarrow> q \<noteq> u \<and> white g q" for q using m(1) by (simp add: h_def white_def)
  have gh: "prop_ok (insert u X) g h"
  proof -
    have "hsim g h" "frame g h" by (simp_all add: h_def hsim_def frame_def)
    moreover have mr: "marked_refs h q" if "marked_refs g q" for q
      using that wh by (auto simp: marked_refs_def refs_def h_def)
    moreover have "open_uv g q \<Longrightarrow> white g q \<Longrightarrow> \<not> white h q \<Longrightarrow> False" for q using wh [of q] u by (auto simp: open_uv_def)
    moreover have "weak_inv h" if "weak_inv g"
    proof -
      have "weak_inv_on (set (gc_weak g)) h"
        by (rule weak_inv_mono [OF that \<open>hsim g h\<close>]) (use wh bm in \<open>auto simp: h_def\<close>)
      then show ?thesis by (simp add: h_def)
    qed
    moreover have "thread_inv h" if "thread_inv g" using that mr by (simp add: thread_inv_def h_def)
    moreover have "hibits g h" unfolding h_def by (rule hibits_set_marked) (simp add: bm)
    ultimately show ?thesis using h sh wh by (auto simp: prop_ok_def mku_def h_def)
  qed
  let ?f = "markobject_with (mark_depth 2)"
  have r: "ref_ok h r" if "r \<in> refs h u" for r using tricolour_parts(4) [OF h that] .
  have rf: "refs h u = insert (LUA_TTABLE, e) (if mt = 0 then {} else {(LUA_TTABLE, mt)})"
    using u by (auto simp: refs_def h_def opt_ref_def)
  have "returns (trav (insert u X) h ((if mt = 0 then {} else {mt}) \<union> {e})) (bindr (if mt \<noteq> 0 then ?f h mt else Inr h) (\<lambda>g. ?f g e))"
  proof (rule trav_bindr' [OF sh])
    show "returns (trav (insert u X) h (if mt = 0 then {} else {mt})) (if mt \<noteq> 0 then ?f h mt else Inr h)"
      using table_ref_trav [OF h sh, of mt 2] r rf trav_refl0 [OF h sh] by simp
    fix k assume k: "tricolour (insert u X) k" "struct k" "hsim h k"
    show "returns (trav (insert u X) k {e}) (?f k e)"
      by (rule table_ref_trav [OF k(1,2)]) (use r rf hsim_ref_ok [OF k(3)] in simp_all)
  qed
  then have "returns (trav (insert u X) h (snd ` refs h u)) (bindr (if mt \<noteq> 0 then ?f h mt else Inr h) (\<lambda>g. ?f g e))"
    by (rule returns_conseq) (auto simp: rf trav_def)
  moreover have "reallymarkobject (makewhite g u) u = bindr (if mt \<noteq> 0 then ?f h mt else Inr h) (\<lambda>g. ?f g e)"
    using u by (simp add: reallymarkobject_def MARKDEPTH_def numeral_3_eq_3 numeral_2_eq_2 makewhite_def h_def Let_def)
  ultimately have "returns (trav (insert u X) h (snd ` refs h u)) (reallymarkobject (makewhite g u) u)" by simp
  then show ?thesis
  proof (rule returns_conseq)
    fix g' assume g': "trav (insert u X) h (snd ` refs h u) g'"
    note a = trav_parts [OF g']
    have hu: "gc_heap g' u = OUdata mt e n" using a(3) u unfolding hsim_def h_def by (auto simp: osim_simps dest: spec [of _ u])
    have nw: "\<not> white g' u" using a(10) [of u] wh by simp
    have ng: "u \<notin> set (gray_lists g')" using tricolour_parts(7) [OF a(1), of u] hu by (auto simp: gray_kind_def tag_defs)
    have "black g' u" using a(6) [of u] wh by (simp add: black_def h_def)
    moreover have "marked_refs g' u" using a(9) hsim_refs [OF sh a(3), of u] by (force simp: marked_refs_def)
    ultimately have tri: "tricolour X g'"
      by (intro tricolour_drop [OF a(1)]) (use ng hu in \<open>auto simp: open_uv_def tag_defs\<close>)
    have "prop_ok (insert u X) g g'" using prop_trans [OF gh trav_prop [OF h sh g']] .
    with tri nw show "prop_ok X g g' \<and> \<not> white g' u" by (simp add: prop_ok_def)
  qed
qed

lemma marktmu_loop:
  assumes "tricolour (set us \<union> X) g" "struct g" "\<And>u. u \<in> set us \<Longrightarrow> gch_tt (gc_heap g u) = LUA_TUSERDATA"
  shows "returns (\<lambda>g'. prop_ok X g g' \<and> (\<forall>u \<in> set us. \<not> white g' u)) (mfold (\<lambda>g u. reallymarkobject (makewhite g u) u) g us)"
  using assms
proof (induction us arbitrary: g)
  case Nil
  then show ?case using prop_refl by simp
next
  case (Cons u us)
  obtain mt e n where u: "gc_heap g u = OUdata mt e n" using Cons.prems(3) [of u] by (auto simp: gch_tt_cases)
  have "tricolour (insert u (set us \<union> X)) g" using Cons.prems(1) by simp
  from mark_finalized_one [OF this Cons.prems(2) u] show ?case
    unfolding mfold.simps returns_bindr
  proof (elim returns_conseq)
    fix h assume h: "prop_ok (set us \<union> X) g h \<and> \<not> white h u"
    note a = prop_parts [OF conjunct1 [OF h]]
    have "returns (\<lambda>g'. prop_ok X h g' \<and> (\<forall>u \<in> set us. \<not> white g' u)) (mfold (\<lambda>g u. reallymarkobject (makewhite g u) u) h us)"
      by (rule Cons.IH [OF a(1,2)]) (use Cons.prems(3) hsim_tt [OF a(3)] in simp)
    then show "returns (\<lambda>g'. prop_ok X g g' \<and> (\<forall>u \<in> set (u # us). \<not> white g' u)) (mfold (\<lambda>g u. reallymarkobject (makewhite g u) u) h us)"
    proof (rule returns_conseq)
      fix g' assume g': "prop_ok X h g' \<and> (\<forall>u \<in> set us. \<not> white g' u)"
      with h show "prop_ok X g g' \<and> (\<forall>u \<in> set (u # us). \<not> white g' u)"
        using prop_trans [OF conjunct1 [OF h] conjunct1 [OF g']] prop_parts(6) [OF conjunct1 [OF g'], of u] by auto
    qed
  qed
qed

section \<open>Clearing weak tables\<close>

definition tab_clr :: "Table \<Rightarrow> Table \<Rightarrow> bool" where
  "tab_clr t t' \<longleftrightarrow> t_metatable t' = t_metatable t \<and> t_lsizenode t' = t_lsizenode t \<and>
     length (t_array t') = length (t_array t) \<and> length (t_node t') = length (t_node t) \<and>
     (\<forall>i < length (t_array t). t_array t' ! i = t_array t ! i \<or> t_array t' ! i = TNil) \<and>
     (\<forall>i < length (t_node t). gnext (t_node t' ! i) = gnext (t_node t ! i) \<and>
        (t_node t' ! i = t_node t ! i \<or> gval (t_node t' ! i) = TNil))"

definition oclr :: "GCObj \<Rightarrow> GCObj \<Rightarrow> bool" where
  "oclr x y \<longleftrightarrow> (case (x, y) of (OTab t, OTab t') \<Rightarrow> tab_clr t t' | _ \<Rightarrow> x = y)"

lemma tab_clr_refl [simp]: "tab_clr t t" by (simp add: tab_clr_def)
lemma tab_clr_trans: "tab_clr t t' \<Longrightarrow> tab_clr t' t'' \<Longrightarrow> tab_clr t t''"
  unfolding tab_clr_def by (metis (no_types))

lemma oclr_refl [simp]: "oclr x x" by (cases x) (simp_all add: oclr_def)

lemma oclr_tab: "oclr (OTab t) y \<longleftrightarrow> (\<exists>t'. y = OTab t' \<and> tab_clr t t')" "oclr y (OTab t') \<longleftrightarrow> (\<exists>t. y = OTab t \<and> tab_clr t t')"
  by (cases y; auto simp: oclr_def)+

lemma oclr_other: "(\<And>t. x \<noteq> OTab t) \<Longrightarrow> oclr x y \<longleftrightarrow> y = x"
  by (cases x) (auto simp: oclr_def)

lemma oclr_trans: "oclr x y \<Longrightarrow> oclr y z \<Longrightarrow> oclr x z"
proof (cases "\<exists>t. x = OTab t")
  case True
  moreover assume "oclr x y" "oclr y z"
  ultimately obtain t t' t'' where "x = OTab t" "z = OTab t''" "tab_clr t t'" "tab_clr t' t''" by (auto simp: oclr_tab)
  with tab_clr_trans [of t t' t''] show ?thesis by (simp add: oclr_tab)
qed (auto simp: oclr_other)

lemma oclr_tt: "oclr x y \<Longrightarrow> gch_tt y = gch_tt x"
  by (cases "\<exists>t. x = OTab t") (auto simp: oclr_tab oclr_other)

lemma in_concat_map: "x \<in> set (concat (map f xs)) \<longleftrightarrow> (\<exists>i < length xs. x \<in> set (f (xs ! i)))"
  by (simp add: set_conv_nth [of xs]) blast

lemma tab_clr_refs: "tab_clr t t' \<Longrightarrow> set (table_refs t') \<subseteq> set (table_refs t)"
proof -
  assume c: "tab_clr t t'"
  have a: "set (concat (map val_refs (t_array t'))) \<subseteq> set (concat (map val_refs (t_array t)))"
  proof
    fix r assume "r \<in> set (concat (map val_refs (t_array t')))"
    then obtain i where i: "i < length (t_array t')" "r \<in> set (val_refs (t_array t' ! i))" unfolding in_concat_map by blast
    then have "t_array t' ! i \<noteq> TNil" by (auto simp: val_refs_def iscollectable_def tag_defs)
    with c i have "i < length (t_array t)" "r \<in> set (val_refs (t_array t ! i))" by (auto simp: tab_clr_def)
    then show "r \<in> set (concat (map val_refs (t_array t)))" unfolding in_concat_map by blast
  qed
  have n: "set (concat (map node_refs (t_node t'))) \<subseteq> set (concat (map node_refs (t_node t)))"
  proof
    fix r assume "r \<in> set (concat (map node_refs (t_node t')))"
    then obtain i where i: "i < length (t_node t')" "r \<in> set (node_refs (t_node t' ! i))" unfolding in_concat_map by blast
    then have "gval (t_node t' ! i) \<noteq> TNil" by (auto simp: node_refs_def)
    with c i have "i < length (t_node t)" "r \<in> set (node_refs (t_node t ! i))" by (auto simp: tab_clr_def)
    then show "r \<in> set (concat (map node_refs (t_node t)))" unfolding in_concat_map by blast
  qed
  from a n c show ?thesis by (auto simp: table_refs_def tab_clr_def)
qed

text \<open>The steps of \<open>cleartable\<close>: entries removed, strings marked.\<close>

definition clears :: "gstate \<Rightarrow> gstate \<Rightarrow> bool" where
  "clears g g' \<longleftrightarrow> frame g g' \<and> (\<forall>p. oclr (gc_heap g p) (gc_heap g' p)) \<and>
     gc_gray g' = gc_gray g \<and> gc_grayagain g' = gc_grayagain g \<and> gc_weak g' = gc_weak g \<and>
     (\<forall>p. gc_marked g' p = gc_marked g p \<or> gch_tt (gc_heap g p) = LUA_TSTRING \<and> gc_marked g' p = white2gray (gc_marked g p))"

lemma clears_refl [simp]: "clears g g" by (simp add: clears_def)

lemma white2gray_twice: "white2gray (white2gray m) = white2gray m"
  by (simp add: white2gray_id)

lemma clears_trans:
  assumes "clears g g'" "clears g' g''"
  shows "clears g g''"
proof -
  have o: "oclr (gc_heap g p) (gc_heap g' p)" "oclr (gc_heap g' p) (gc_heap g'' p)" for p using assms by (simp_all add: clears_def)
  have "gc_marked g'' p = gc_marked g p \<or> gch_tt (gc_heap g p) = LUA_TSTRING \<and> gc_marked g'' p = white2gray (gc_marked g p)" for p
    using assms oclr_tt [OF o(1), of p] white2gray_twice unfolding clears_def by metis
  moreover have "oclr (gc_heap g p) (gc_heap g'' p)" for p using oclr_trans [OF o] .
  moreover have "frame g g''" using assms frame_trans by (auto simp: clears_def)
  ultimately show ?thesis using assms by (simp add: clears_def)
qed

lemma clears_tt: "clears g g' \<Longrightarrow> gch_tt (gc_heap g' p) = gch_tt (gc_heap g p)"
  by (simp add: clears_def oclr_tt)

lemma clears_other: "clears g g' \<Longrightarrow> (\<And>t. x \<noteq> OTab t) \<Longrightarrow> gc_heap g' p = x \<longleftrightarrow> gc_heap g p = x"
proof -
  assume c: "clears g g'" and x: "\<And>t. x \<noteq> OTab t"
  then have o: "oclr (gc_heap g p) (gc_heap g' p)" by (simp add: clears_def)
  show ?thesis using o x by (cases "\<exists>t. gc_heap g p = OTab t") (auto simp: oclr_tab oclr_other)
qed

lemma clears_white: "clears g g' \<Longrightarrow> \<not> white g p \<Longrightarrow> \<not> white g' p"
  unfolding clears_def white_def by (metis white2gray_id)

lemma clears_ref_ok: "clears g g' \<Longrightarrow> ref_ok g' r = ref_ok g r"
  by (simp add: ref_ok_def clears_tt)

lemma clears_alloc: "clears g g' \<Longrightarrow> alloc g' p = alloc g p"
  using gch_tt_alloc clears_tt unfolding alloc_def by metis

lemma clears_open: "clears g g' \<Longrightarrow> open_uv g' p = open_uv g p"
  unfolding open_uv_def by (simp add: clears_other)

lemma clears_refs: "clears g g' \<Longrightarrow> refs g' p \<subseteq> refs g p"
proof -
  assume c: "clears g g'"
  then have o: "oclr (gc_heap g p) (gc_heap g' p)" by (simp add: clears_def)
  show ?thesis
  proof (cases "\<exists>t. gc_heap g p = OTab t")
    case True
    with o obtain t t' where "gc_heap g p = OTab t" "gc_heap g' p = OTab t'" "tab_clr t t'" by (auto simp: oclr_tab)
    with tab_clr_refs [of t t'] show ?thesis by (simp add: refs_def)
  next
    case False
    with o have e: "gc_heap g' p = gc_heap g p" by (simp add: oclr_other)
    have "slot_at (gc_heap g') th i = slot_at (gc_heap g) th i" for th i
    proof (cases "\<exists>t. gc_heap g th = OThr t")
      case True
      then obtain t where t: "gc_heap g th = OThr t" by blast
      with clears_other [OF c, of "OThr t" th] have "gc_heap g' th = OThr t" by simp
      with t show ?thesis by (simp add: slot_at_def)
    next
      case nt: False
      then have "gch_tt (gc_heap g th) \<noteq> LUA_TTHREAD" by (auto simp: gch_tt_cases)
      with clears_tt [OF c, of th] show ?thesis by (cases "gc_heap g th"; cases "gc_heap g' th") (simp_all add: slot_at_def tag_defs)
    qed
    then have "obj_refs (gc_heap g') x = obj_refs (gc_heap g) x" for x
      by (cases "(gc_heap g, x)" rule: obj_refs.cases) auto
    with e show ?thesis by (simp add: refs_def)
  qed
qed

lemma clears_struct:
  assumes st: "struct g" and c: "clears g g'"
  shows "struct g'"
proof -
  have "tchain t'" if "gc_heap g' p = OTab t'" for p t'
  proof -
    have "oclr (gc_heap g p) (OTab t')" using c that unfolding clears_def by metis
    then obtain t where t: "gc_heap g p = OTab t" "tab_clr t t'" by (auto simp: oclr_tab)
    with st have "tchain t" by (simp add: struct_def)
    with t(2) chain_cong [of "t_node t'" "t_node t"] show ?thesis by (simp add: tchain_def tab_clr_def)
  qed
  moreover have "thread_ok g' p t" if "gc_heap g' p = OThr t" for p t
  proof -
    have "thread_ok g p t" using that st clears_other [OF c, of "OThr t" p] by (simp add: struct_def)
    then show ?thesis by (simp add: thread_ok_def clears_other [OF c])
  qed
  moreover have "gc_uvhead g' = gc_uvhead g" using c by (simp add: clears_def frame_def)
  ultimately show ?thesis using st unfolding struct_def clears_open [OF c] by (simp add: clears_other [OF c])
qed

lemma clears_marked_refs: "clears g g' \<Longrightarrow> marked_refs g p \<Longrightarrow> marked_refs g' p"
  using clears_refs clears_white unfolding marked_refs_def by blast

lemma clears_mfold:
  assumes "\<And>h x. x \<in> set xs \<Longrightarrow> clears g h \<Longrightarrow> returns (\<lambda>h'. clears h h' \<and> Q x h') (f h x)"
    and "\<And>h h' x. Q x h \<Longrightarrow> clears h h' \<Longrightarrow> Q x h'"
  shows "returns (\<lambda>g'. clears g g' \<and> (\<forall>x \<in> set xs. Q x g')) (mfold f g xs)"
  using assms
proof (induction xs arbitrary: g)
  case (Cons x xs)
  have "returns (\<lambda>h. clears g h \<and> Q x h) (f g x)" using Cons.prems(1) [of x g] by simp
  then show ?case unfolding mfold.simps returns_bindr
  proof (rule returns_conseq)
    fix h assume h: "clears g h \<and> Q x h"
    have "returns (\<lambda>g'. clears h g' \<and> (\<forall>x \<in> set xs. Q x g')) (mfold f h xs)"
    proof (rule Cons.IH [OF _ Cons.prems(2)])
      fix k y assume "y \<in> set xs" "clears h k"
      then show "returns (\<lambda>h'. clears k h' \<and> Q y h') (f k y)"
        using Cons.prems(1) [of y k] clears_trans [OF conjunct1 [OF h]] by simp
    qed
    then show "returns (\<lambda>g'. clears g g' \<and> (\<forall>x \<in> set (x # xs). Q x g')) (mfold f h xs)"
      by (rule returns_conseq) (use clears_trans [OF conjunct1 [OF h]] Cons.prems(2) [OF conjunct2 [OF h]] in simp)
  qed
qed simp

text \<open>The value \<open>v\<close> has no reference to a white object.\<close>

definition val_marked :: "gstate \<Rightarrow> TValue \<Rightarrow> bool" where
  "val_marked g v \<longleftrightarrow> (\<forall>r \<in> set (val_refs v). \<not> white g (snd r))"

lemma clears_val_marked: "clears g g' \<Longrightarrow> val_marked g v \<Longrightarrow> val_marked g' v"
  by (simp add: val_marked_def clears_white)

lemma val_marked_nil [simp]: "val_marked g TNil"
  by (simp add: val_marked_def val_refs_def iscollectable_def tag_defs)

lemma stringmark_clears: "gch_tt (gc_heap g p) = LUA_TSTRING \<Longrightarrow> clears g (stringmark g p) \<and> \<not> white (stringmark g p) p"
  by (auto simp: clears_def stringmark_def frame_def white_def)

lemma iscleared_ok:
  assumes "\<And>r. r \<in> set (val_refs v) \<Longrightarrow> ref_ok g r" "iscleared g v k = (c, g')"
  shows "clears g g' \<and> (\<not> c \<longrightarrow> val_marked g' v)"
proof (cases "iscollectable v \<and> ttype v = LUA_TSTRING")
  case True
  then have "gch_tt (gc_heap g (gcvalue v)) = LUA_TSTRING"
    using assms(1) [of "(ttype v, gcvalue v)"] by (simp add: val_refs_def ref_ok_def)
  from stringmark_clears [OF this] True assms(2) show ?thesis
    by (auto simp: iscleared_def val_marked_def val_refs_def)
next
  case False
  with assms(2) show ?thesis
    by (auto simp: iscleared_def val_marked_def val_refs_def split: if_splits)
qed

lemma clears_tab:
  "gc_heap g p = OTab t \<Longrightarrow> tab_clr t t' \<Longrightarrow> clears g (set_heap g p (OTab t'))"
  by (auto simp: clears_def frame_def oclr_tab)

lemma clears_table_at: "clears g g' \<Longrightarrow> gc_heap g p = OTab t \<Longrightarrow> \<exists>t'. gc_heap g' p = OTab t' \<and> tab_clr t t'"
  unfolding clears_def using oclr_tab(1) by metis

lemma clear_slot_ok:
  assumes t: "gc_heap g p = OTab t" and i: "i < length (t_array t)" and ok: "\<And>r. r \<in> refs g p \<Longrightarrow> ref_ok g r"
  shows "returns (\<lambda>g'. clears g g' \<and> (\<forall>t'. gc_heap g' p = OTab t' \<longrightarrow> val_marked g' (t_array t' ! i))) (clear_slot p g i)"
proof -
  obtain c h where h: "iscleared g (t_array t ! i) False = (c, h)" by fastforce
  have r: "ref_ok g r" if "r \<in> set (val_refs (t_array t ! i))" for r
    using ok [of r] that t i in_concat_map [of r val_refs "t_array t"] by (auto simp: refs_def table_refs_def)
  note ic = iscleared_ok [OF r h]
  have th: "gc_heap h p = OTab t" using h t by (auto simp: iscleared_def stringmark_def split: if_splits)
  show ?thesis
  proof (cases c)
    case True
    let ?t = "t\<lparr>t_array := (t_array t)[i := TNil]\<rparr>"
    have "tab_clr t ?t" using i by (auto simp: tab_clr_def nth_list_update)
    from clears_trans [OF conjunct1 [OF ic] clears_tab [OF th this]] True h t i show ?thesis
      by (simp add: clear_slot_def tab_at_def)
  next
    case False
    with ic h t th show ?thesis by (simp add: clear_slot_def tab_at_def)
  qed
qed

lemma clear_node_ok:
  assumes t: "gc_heap g p = OTab t" and i: "i < length (t_node t)" and ok: "\<And>r. r \<in> refs g p \<Longrightarrow> ref_ok g r"
  shows "returns (\<lambda>g'. clears g g' \<and> (\<forall>t'. gc_heap g' p = OTab t' \<longrightarrow> gval (t_node t' ! i) = TNil \<or>
      val_marked g' (gkey (t_node t' ! i)) \<and> val_marked g' (gval (t_node t' ! i)))) (clear_node p g i)"
proof (cases "gval (t_node t ! i) = TNil")
  case True
  with t show ?thesis by (simp add: clear_node_def tab_at_def)
next
  case nn: False
  let ?n = "t_node t ! i"
  obtain ck h where h: "iscleared g (gkey ?n) True = (ck, h)" by fastforce
  obtain c k where k: "(if ck then (True, h) else iscleared h (gval ?n) False) = (c, k)" by fastforce
  have r: "ref_ok g r" if "r \<in> set (val_refs (gkey ?n)) \<or> r \<in> set (val_refs (gval ?n))" for r
    using node_value_refs [OF i] that ok [of r] t nn by (auto simp: node_refs_def refs_def)
  have ch: "clears g h \<and> (\<not> ck \<longrightarrow> val_marked h (gkey ?n))" using iscleared_ok [OF _ h] r by blast
  have ck: "clears h k \<and> (\<not> c \<longrightarrow> \<not> ck \<and> val_marked k (gval ?n))"
  proof (cases ck)
    case False
    then have "iscleared h (gval ?n) False = (c, k)" using k by simp
    from iscleared_ok [OF _ this] False r clears_ref_ok [OF conjunct1 [OF ch]] show ?thesis by simp
  qed (use k in auto)
  have gk: "clears g k" using clears_trans ch ck by blast
  have th: "gc_heap k p = OTab t" using h k t by (auto simp: iscleared_def stringmark_def split: if_splits)
  show ?thesis
  proof (cases c)
    case True
    let ?m = "removeentry (?n\<lparr>gval := TNil\<rparr>)"
    let ?t = "t\<lparr>t_node := (t_node t)[i := ?m]\<rparr>"
    have m: "gval ?m = TNil" "gnext ?m = gnext ?n" by (simp_all add: removeentry_def)
    have "tab_clr t ?t" using i m by (auto simp: tab_clr_def nth_list_update)
    from clears_trans [OF gk clears_tab [OF th this]] True nn h k t th i m show ?thesis
      by (simp add: clear_node_def tab_at_def set_node_at_def Let_def)
  next
    case False
    with ch ck clears_val_marked [of h k] have "val_marked k (gkey ?n) \<and> val_marked k (gval ?n)" by blast
    with False gk nn h k t th show ?thesis by (simp add: clear_node_def tab_at_def Let_def)
  qed
qed

lemma in_table_refs:
  "r \<in> set (table_refs t) \<longleftrightarrow> r \<in> set (opt_ref LUA_TTABLE (t_metatable t)) \<or>
     (\<exists>i < length (t_array t). r \<in> set (val_refs (t_array t ! i))) \<or>
     (\<exists>i < length (t_node t). gval (t_node t ! i) \<noteq> TNil \<and>
        (r \<in> set (val_refs (gkey (t_node t ! i))) \<or> r \<in> set (val_refs (gval (t_node t ! i)))))"
  by (simp only: table_refs_def set_append Un_iff in_concat_map) (auto simp: node_refs_def)

lemma clears_weak_inv:
  assumes c: "clears g g'" and w: "weak_inv_on S g"
  shows "weak_inv_on S g'"
  unfolding weak_inv_on_def
proof (intro ballI allI impI)
  fix p t' assume p: "p \<in> S" "gc_heap g' p = OTab t'"
  have "oclr (gc_heap g p) (OTab t')" using c p(2) unfolding clears_def by metis
  then obtain t where t: "gc_heap g p = OTab t" "tab_clr t t'" by (auto simp: oclr_tab)
  have m: "gc_marked g' p = gc_marked g p" using c t(1) unfolding clears_def by (auto simp: tag_defs)
  from w p(1) t(1) have w: "\<forall>r \<in> set (opt_ref LUA_TTABLE (t_metatable t)). \<not> white g (snd r)"
    "\<not> bit (gc_marked g p) 4 \<Longrightarrow> \<forall>r \<in> set (concat (map val_refs (t_array t))). \<not> white g (snd r)"
    by (auto simp: weak_inv_on_def)
  have "\<forall>r \<in> set (concat (map val_refs (t_array t'))). \<not> white g' (snd r)" if b: "\<not> bit (gc_marked g p) 4"
  proof
    fix r assume "r \<in> set (concat (map val_refs (t_array t')))"
    then obtain i where i: "i < length (t_array t')" "r \<in> set (val_refs (t_array t' ! i))" unfolding in_concat_map by blast
    then have "t_array t' ! i \<noteq> TNil" by (auto simp: val_refs_def iscollectable_def tag_defs)
    with i t(2) have "i < length (t_array t)" "r \<in> set (val_refs (t_array t ! i))" by (auto simp: tab_clr_def)
    then have "r \<in> set (concat (map val_refs (t_array t)))" unfolding in_concat_map by blast
    with w(2) [OF b] clears_white [OF c] show "\<not> white g' (snd r)" by blast
  qed
  with w(1) t(2) m clears_white [OF c] show "(\<forall>r \<in> set (opt_ref LUA_TTABLE (t_metatable t')). \<not> white g' (snd r)) \<and>
     (\<not> bit (gc_marked g' p) 4 \<longrightarrow> (\<forall>r \<in> set (concat (map val_refs (t_array t'))). \<not> white g' (snd r)))"
    by (simp add: tab_clr_def)
qed

lemma clear_one_ok:
  assumes t: "gc_heap g p = OTab t" and w: "weak_inv_on {p} g" and ok: "\<And>r. r \<in> refs g p \<Longrightarrow> ref_ok g r"
  shows "returns (\<lambda>g'. clears g g' \<and> marked_refs g' p) (clear_one g p)"
proof -
  let ?A = "\<lambda>i h. \<forall>t'. gc_heap h p = OTab t' \<longrightarrow> i < length (t_array t') \<longrightarrow> val_marked h (t_array t' ! i)"
  let ?N = "\<lambda>i h. \<forall>t'. gc_heap h p = OTab t' \<longrightarrow> i < length (t_node t') \<longrightarrow> gval (t_node t' ! i) = TNil \<or>
      val_marked h (gkey (t_node t' ! i)) \<and> val_marked h (gval (t_node t' ! i))"
  have okh: "ref_ok h r" if "clears g h" "r \<in> refs h p" for h r
    using clears_refs [OF that(1), of p] that(2) ok clears_ref_ok [OF that(1)] by blast
  have tab: "\<exists>s. gc_heap h p = OTab s \<and> tab_clr t s" if "clears g h" for h using clears_table_at [OF that t] .
  have A: "?A i h'" if A: "?A i h" and c: "clears h h'" for i h h'
  proof (intro allI impI)
    fix t' assume t': "gc_heap h' p = OTab t'" "i < length (t_array t')"
    have "oclr (gc_heap h p) (OTab t')" using c t'(1) unfolding clears_def by metis
    then obtain s where s: "gc_heap h p = OTab s" "tab_clr s t'" by (auto simp: oclr_tab)
    with A t'(2) have "val_marked h (s_array)" if "s_array = t_array s ! i" for s_array using that by (simp add: tab_clr_def)
    with s(2) t'(2) clears_val_marked [OF c] show "val_marked h' (t_array t' ! i)" by (auto simp: tab_clr_def)
  qed
  have N: "?N i h'" if N: "?N i h" and c: "clears h h'" for i h h'
  proof (intro allI impI)
    fix t' assume t': "gc_heap h' p = OTab t'" "i < length (t_node t')"
    have "oclr (gc_heap h p) (OTab t')" using c t'(1) unfolding clears_def by metis
    then obtain s where s: "gc_heap h p = OTab s" "tab_clr s t'" by (auto simp: oclr_tab)
    with N t'(2) have "gval (t_node s ! i) = TNil \<or> val_marked h (gkey (t_node s ! i)) \<and> val_marked h (gval (t_node s ! i))"
      by (simp add: tab_clr_def)
    with s(2) t'(2) clears_val_marked [OF c]
    show "gval (t_node t' ! i) = TNil \<or> val_marked h' (gkey (t_node t' ! i)) \<and> val_marked h' (gval (t_node t' ! i))"
      by (auto simp: tab_clr_def)
  qed
  have arr: "returns (\<lambda>h. clears g h \<and> (\<forall>i < length (t_array t). ?A i h))
      (if testbit (gc_marked g p) VALUEWEAKBIT then mfold (clear_slot p) g (rev [0..<length (t_array t)]) else Inr g)"
  proof (cases "bit (gc_marked g p) 4")
    case True
    have "returns (\<lambda>h. clears g h \<and> (\<forall>i \<in> set (rev [0..<length (t_array t)]). ?A i h)) (mfold (clear_slot p) g (rev [0..<length (t_array t)]))"
    proof (rule clears_mfold)
      fix h i assume i: "i \<in> set (rev [0..<length (t_array t)])" and c: "clears g h"
      from tab [OF c] obtain s where s: "gc_heap h p = OTab s" "tab_clr t s" by blast
      have "i < length (t_array s)" using i s(2) by (simp add: tab_clr_def)
      from clear_slot_ok [OF s(1) this okh [OF c]]
      show "returns (\<lambda>h'. clears h h' \<and> ?A i h') (clear_slot p h i)" by (rule returns_conseq) auto
    qed (rule A)
    then have "returns (\<lambda>h. clears g h \<and> (\<forall>i < length (t_array t). ?A i h)) (mfold (clear_slot p) g (rev [0..<length (t_array t)]))"
      by (rule returns_conseq) simp
    with True show ?thesis by (simp add: testbit_iff VALUEWEAKBIT_def)
  next
    case False
    with w t have "val_marked g (t_array t ! i)" if "i < length (t_array t)" for i
      using that by (force simp: weak_inv_on_def val_marked_def)
    with False t show ?thesis by (simp add: testbit_iff VALUEWEAKBIT_def)
  qed
  then have "returns (\<lambda>h. returns (\<lambda>g'. clears g g' \<and> marked_refs g' p) (mfold (clear_node p) h (rev [0..<length (t_node t)])))
     (if testbit (gc_marked g p) VALUEWEAKBIT then mfold (clear_slot p) g (rev [0..<length (t_array t)]) else Inr g)"
  proof (rule returns_conseq)
    fix h assume h: "clears g h \<and> (\<forall>i < length (t_array t). ?A i h)"
    note gh = conjunct1 [OF h]
    have "returns (\<lambda>k. clears h k \<and> (\<forall>i \<in> set (rev [0..<length (t_node t)]). ?N i k)) (mfold (clear_node p) h (rev [0..<length (t_node t)]))"
    proof (rule clears_mfold)
      fix k i assume i: "i \<in> set (rev [0..<length (t_node t)])" and c: "clears h k"
      note gk = clears_trans [OF gh c]
      from tab [OF gk] obtain s where s: "gc_heap k p = OTab s" "tab_clr t s" by blast
      have "i < length (t_node s)" using i s(2) by (simp add: tab_clr_def)
      from clear_node_ok [OF s(1) this okh [OF gk]]
      show "returns (\<lambda>h'. clears k h' \<and> ?N i h') (clear_node p k i)" by (rule returns_conseq) auto
    qed (rule N)
    then show "returns (\<lambda>g'. clears g g' \<and> marked_refs g' p) (mfold (clear_node p) h (rev [0..<length (t_node t)]))"
    proof (rule returns_conseq)
      fix g' assume g': "clears h g' \<and> (\<forall>i \<in> set (rev [0..<length (t_node t)]). ?N i g')"
      note gg' = clears_trans [OF gh conjunct1 [OF g']]
      from tab [OF gg'] obtain s where s: "gc_heap g' p = OTab s" "tab_clr t s" by blast
      have "\<not> white g' (snd r)" if "r \<in> set (opt_ref LUA_TTABLE (t_metatable s))" for r
        using clears_weak_inv [OF gg' w] s(1) that by (simp add: weak_inv_on_def)
      moreover have "val_marked g' (t_array s ! i)" if "i < length (t_array s)" for i
      proof -
        have "?A i h" using h that s(2) by (simp add: tab_clr_def)
        from A [OF this conjunct1 [OF g']] s(1) that show ?thesis by simp
      qed
      moreover have "gval (t_node s ! i) = TNil \<or> val_marked g' (gkey (t_node s ! i)) \<and> val_marked g' (gval (t_node s ! i))"
        if "i < length (t_node s)" for i
      proof -
        have "?N i g'" using g' that s(2) by (simp add: tab_clr_def)
        with s(1) that show ?thesis by simp
      qed
      ultimately have "\<not> white g' (snd r)" if "r \<in> set (table_refs s)" for r
        using that unfolding in_table_refs val_marked_def by blast
      then have "marked_refs g' p" using s(1) by (auto simp: marked_refs_def refs_def)
      with gg' show "clears g g' \<and> marked_refs g' p" by blast
    qed
  qed
  with t show ?thesis by (simp add: clear_one_def tab_at_def returns_bindr)
qed

lemma cleartable_ok:
  assumes "weak_inv_on (set ps) g" "\<And>p. p \<in> set ps \<Longrightarrow> gch_tt (gc_heap g p) = LUA_TTABLE" "\<And>p r. r \<in> refs g p \<Longrightarrow> ref_ok g r"
  shows "returns (\<lambda>g'. clears g g' \<and> (\<forall>p \<in> set ps. marked_refs g' p)) (cleartable g ps)"
  unfolding cleartable_def
proof (rule clears_mfold)
  fix h p assume p: "p \<in> set ps" and c: "clears g h"
  from assms(2) [OF p] clears_tt [OF c, of p] obtain t where t: "gc_heap h p = OTab t" by (auto simp: gch_tt_cases)
  have "weak_inv_on {p} h" using clears_weak_inv [OF c assms(1)] p by (simp add: weak_inv_on_def)
  moreover have "ref_ok h r" if "r \<in> refs h p" for r
    using clears_refs [OF c, of p] that assms(3) clears_ref_ok [OF c] by blast
  ultimately show "returns (\<lambda>g'. clears h g' \<and> marked_refs g' p) (clear_one h p)" by (rule clear_one_ok [OF t])
qed (rule clears_marked_refs)

end
