(* ===== verification/LuaGCSafe.thy ===== *)
theory LuaGCSafe
  imports LuaGCAtomic
begin

text \<open>
  The atomic step as a whole: it ends, and afterwards no object that a live object refers to is dead.
\<close>

section \<open>The atomic step\<close>

text \<open>The state while marks are propagated. Threads and weak tables are checked in the atomic step only.\<close>

definition mark_inv :: "gstate \<Rightarrow> bool" where
  "mark_inv g \<longleftrightarrow> tricolour (set (gc_tmudata g)) g \<and> struct g \<and> lists_ok g \<and> roots_ok g \<and>
     \<not> white g (gc_mainthread g) \<and> (\<forall>r \<in> set (val_refs (gc_registry g)). \<not> white g (snd r))"

text \<open>An object that is not dead has references only to objects of the types expected that are not dead; so
  have the roots and the userdata to finalize.\<close>

definition live_closed :: "gstate \<Rightarrow> bool" where
  "live_closed g \<longleftrightarrow> (\<forall>p. alloc g p \<and> \<not> dead g p \<longrightarrow> (\<forall>r \<in> refs g p. ref_ok g r \<and> \<not> dead g (snd r))) \<and>
     (\<forall>r \<in> roots g. ref_ok g r \<and> \<not> dead g (snd r)) \<and> (\<forall>u \<in> set (gc_tmudata g). \<not> dead g u)"

text \<open>Black is only left where it must be.\<close>

definition black_ok :: "gstate \<Rightarrow> bool" where
  "black_ok g \<longleftrightarrow> (\<forall>p. alloc g p \<longrightarrow> (white g p \<longrightarrow> \<not> black g p)) \<and>
     (\<forall>p. black g p \<longrightarrow> \<not> open_uv g p \<and> gch_tt (gc_heap g p) \<noteq> LUA_TTHREAD)"

definition sweep_start :: "gstate \<Rightarrow> gstate \<Rightarrow> bool" where
  "sweep_start g g' \<longleftrightarrow> cw_ok (gc_currentwhite g') \<and> struct g' \<and> lists_ok g' \<and> live_closed g' \<and> black_ok g' \<and>
     gc_gcstate g' = GCSsweepstring \<and> gc_sweepstrgc g' = 0 \<and> gc_sweepgc g' = None \<and>
     (\<forall>p. gch_tt (gc_heap g' p) = gch_tt (gc_heap g p)) \<and> hibits g g' \<and>
     gc_mainthread g' = gc_mainthread g"

lemma lists_ok_frame:
  "lists_ok g \<Longrightarrow> hsim g g' \<Longrightarrow> frame g g' \<Longrightarrow> lists_ok g'"
  by (rule lists_ok_sim) (simp_all add: frame_def)

text \<open>Propagation with the lists of the state.\<close>

definition gc_keeps :: "gstate \<Rightarrow> gstate \<Rightarrow> bool" where
  "gc_keeps g g' \<longleftrightarrow> struct g' \<and> hsim g g' \<and> frame g g' \<and> (\<forall>p. \<not> white g p \<longrightarrow> \<not> white g' p) \<and> hibits g g' \<and> (upval_inv g \<longrightarrow> upval_inv g')"

lemma prop_keeps: "struct g \<Longrightarrow> prop_ok X g g' \<Longrightarrow> gc_keeps g g'"
  using prop_parts [of X g g'] prop_upval_inv [of g X g'] by (simp add: gc_keeps_def)

lemma keeps_trans: "gc_keeps g g' \<Longrightarrow> gc_keeps g' g'' \<Longrightarrow> gc_keeps g g''"
  using hsim_trans [of g g' g''] frame_trans [of g g' g''] hibits_trans [of g g' g''] by (simp add: gc_keeps_def)

lemma lists_keeps:
  "struct g \<Longrightarrow> gc_keeps g (g\<lparr>gc_gray := a, gc_grayagain := b, gc_weak := c\<rparr>)"
proof -
  assume st: "struct g"
  let ?h = "g\<lparr>gc_gray := a, gc_grayagain := b, gc_weak := c\<rparr>"
  have "white ?h = white g" "open_uv ?h = open_uv g" "marked_refs ?h = marked_refs g"
    by (intro ext; simp add: white_def open_uv_def marked_refs_def refs_def)+
  moreover have "struct ?h" by (rule hsim_struct [OF st hsim_same]) simp_all
  ultimately show ?thesis by (simp add: gc_keeps_def hsim_def frame_def hibits_def upval_inv_def)
qed

lemma weak_to_gray:
  assumes "tricolour X g" "struct g" "gc_gray g = []"
  shows "tricolour X (g\<lparr>gc_gray := gc_weak g, gc_weak := []\<rparr>)" "gc_keeps g (g\<lparr>gc_gray := gc_weak g, gc_weak := []\<rparr>)"
proof -
  show "tricolour X (g\<lparr>gc_gray := gc_weak g, gc_weak := []\<rparr>)"
    by (rule tricolour_lists [OF assms(1)]) (use assms(3) tricolour_parts(5) [OF assms(1)] in auto)
  show "gc_keeps g (g\<lparr>gc_gray := gc_weak g, gc_weak := []\<rparr>)"
    using lists_keeps [OF assms(2), where a = "gc_weak g" and b = "gc_grayagain g" and c = "[]"] by simp
qed

lemma again_to_gray:
  assumes "tricolour X g" "struct g" "gc_gray g = []"
  shows "tricolour X (g\<lparr>gc_gray := gc_grayagain g, gc_grayagain := []\<rparr>)" "gc_keeps g (g\<lparr>gc_gray := gc_grayagain g, gc_grayagain := []\<rparr>)"
proof -
  show "tricolour X (g\<lparr>gc_gray := gc_grayagain g, gc_grayagain := []\<rparr>)"
    by (rule tricolour_lists [OF assms(1)]) (use assms(3) tricolour_parts(5) [OF assms(1)] in auto)
  show "gc_keeps g (g\<lparr>gc_gray := gc_grayagain g, gc_grayagain := []\<rparr>)"
    using lists_keeps [OF assms(2), where a = "gc_grayagain g" and b = "[]" and c = "gc_weak g"] by simp
qed

text \<open>The first half: everything reachable from strong references is marked.\<close>

definition mark_rest :: "gstate \<Rightarrow> gstate res" where
  "mark_rest g =
     bindr (remarkupvals g) (\<lambda>g.
     bindr (propagateall g) (\<lambda>(_, g).
     let g = g\<lparr>gc_gray := gc_weak g, gc_weak := []\<rparr> in
     bindr (markobject g (gc_L g)) (\<lambda>g.
     bindr (markmt g) (\<lambda>g.
     bindr (propagateall g) (\<lambda>(_, g).
     let g = g\<lparr>gc_gray := gc_grayagain g, gc_grayagain := []\<rparr> in
     bindr (propagateall g) (\<lambda>(_, g). Inr g))))))"

lemma mark_rest_ok:
  assumes m: "mark_inv g"
  shows "\<exists>g'. mark_rest g = Inr g' \<and> tricolour (set (gc_tmudata g)) g' \<and> gc_keeps g g' \<and> upval_inv g' \<and> gc_gray g' = [] \<and>
    weak_inv g' \<and> thread_inv g' \<and> (\<forall>p \<in> set (gc_grayagain g'). gch_tt (gc_heap g' p) = LUA_TTHREAD) \<and>
    (\<forall>r \<in> roots g. \<not> white g' (snd r))"
proof -
  let ?X = "set (gc_tmudata g)"
  have tc: "tricolour ?X g" and st: "struct g" and l: "lists_ok g" and r: "roots_ok g" using m by (simp_all add: mark_inv_def)
  have X: "gch_tt (gc_heap g q) = LUA_TUSERDATA" if "q \<in> ?X" for q using lists_ok_parts(7) [OF l that] .
  have Xg: "\<not> gray_kind (gc_heap h q)" if "hsim g h" "q \<in> ?X" for h q
    using X [OF that(2)] hsim_tt [OF that(1), of q] by (simp add: gray_kind_def tag_defs)
  have "\<not> open_uv g q" if "q \<in> ?X" for q using X [OF that] by (auto simp: open_uv_def tag_defs)
  from remarkupvals_ok [OF tc st this] obtain g1 where g1: "remarkupvals g = Inr g1" "prop_ok ?X g g1" "upval_inv g1"
    by (auto simp: returns_def)
  note p1 = prop_parts [OF g1(2)] and k1 = prop_keeps [OF st g1(2)]
  from propagateall_ok [OF p1(1,2) Xg] p1(3) obtain n2 g2 where g2: "propagateall g1 = Inr (n2, g2)" "prop_ok ?X g1 g2" "gc_gray g2 = []"
    by (auto simp: returns_def)
  note p2 = prop_parts [OF g2(2)] and k2 = keeps_trans [OF k1 prop_keeps [OF p1(2) g2(2)]]
  define g3 where "g3 = g2\<lparr>gc_gray := gc_weak g2, gc_weak := []\<rparr>"
  have t3: "tricolour ?X g3" and "gc_keeps g2 g3" unfolding g3_def by (rule weak_to_gray [OF p2(1,2) g2(3)])+
  note k3 = keeps_trans [OF k2 \<open>gc_keeps g2 g3\<close>]
  have s3: "struct g3" and h3: "hsim g g3" and f3: "frame g g3" using k3 by (simp_all add: gc_keeps_def)
  from mark_roots_ok [OF t3 s3 roots_ok_sim [OF r h3 f3]] obtain g4' g4 where
    g4: "markobject g3 (gc_L g3) = Inr g4'" "markmt g4' = Inr g4" "prop_ok ?X g3 g4" "\<not> white g4 (gc_L g3)"
      "\<forall>r \<in> set (concat (map (opt_ref LUA_TTABLE) (gc_mt g3))). \<not> white g4 (snd r)"
    by (auto simp: returns_def bindr_Inr_iff)
  note p4 = prop_parts [OF g4(3)] and k4 = keeps_trans [OF k3 prop_keeps [OF s3 g4(3)]]
  have h4: "hsim g g4" using k4 by (simp add: gc_keeps_def)
  from propagateall_ok [OF p4(1,2) Xg] h4 obtain n5 g5 where g5: "propagateall g4 = Inr (n5, g5)" "prop_ok ?X g4 g5" "gc_gray g5 = []"
    by (auto simp: returns_def)
  note p5 = prop_parts [OF g5(2)] and k5 = keeps_trans [OF k4 prop_keeps [OF p4(2) g5(2)]]
  have "weak_inv g3" by (simp add: g3_def weak_inv_on_def)
  then have w5: "weak_inv g5" using p4(7) p5(7) by blast
  define g6 where "g6 = g5\<lparr>gc_gray := gc_grayagain g5, gc_grayagain := []\<rparr>"
  have t6: "tricolour ?X g6" and "gc_keeps g5 g6" unfolding g6_def by (rule again_to_gray [OF p5(1,2) g5(3)])+
  note k6 = keeps_trans [OF k5 \<open>gc_keeps g5 g6\<close>]
  have s6: "struct g6" and h6: "hsim g g6" using k6 by (simp_all add: gc_keeps_def)
  from propagateall_ok [OF t6 s6 Xg] h6 obtain n7 g7 where g7: "propagateall g6 = Inr (n7, g7)" "prop_ok ?X g6 g7" "gc_gray g7 = []"
    by (auto simp: returns_def)
  note p7 = prop_parts [OF g7(2)] and k67 = prop_keeps [OF s6 g7(2)]
  note k7 = keeps_trans [OF k6 k67]
  have "weak_inv g6" using w5 by (simp add: g6_def weak_inv_on_def white_def)
  then have w7: "weak_inv g7" by (rule p7(7))
  have "thread_inv g6" by (simp add: g6_def thread_inv_def)
  then have th7: "thread_inv g7" by (rule p7(8))
  have again: "gch_tt (gc_heap g7 p) = LUA_TTHREAD" if "p \<in> set (gc_grayagain g7)" for p
    using p7(9) [OF that] hsim_tt [OF p7(3), of p] by (simp add: g6_def)
  have u7: "upval_inv g7"
  proof -
    have "gc_keeps g1 g7"
      using keeps_trans [OF keeps_trans [OF keeps_trans [OF keeps_trans [OF keeps_trans [OF prop_keeps [OF p1(2) g2(2)]
        \<open>gc_keeps g2 g3\<close>] prop_keeps [OF s3 g4(3)]] prop_keeps [OF p4(2) g5(2)]] \<open>gc_keeps g5 g6\<close>] k67] .
    with g1(3) show ?thesis by (simp add: gc_keeps_def)
  qed
  have k47: "gc_keeps g4 g7" using keeps_trans [OF keeps_trans [OF prop_keeps [OF p4(2) g5(2)] \<open>gc_keeps g5 g6\<close>] k67] .
  have rt: "\<not> white g7 (snd r)" if "r \<in> roots g" for r
  proof -
    have "r = (LUA_TTHREAD, gc_mainthread g) \<or> r \<in> set (val_refs (gc_registry g)) \<or> r = (LUA_TTHREAD, gc_L g3) \<or>
        r \<in> set (concat (map (opt_ref LUA_TTABLE) (gc_mt g3)))"
      using that f3 by (auto simp: roots_def frame_def)
    then show ?thesis
    proof (elim disjE)
      assume "r = (LUA_TTHREAD, gc_mainthread g)"
      with m k7 show ?thesis by (simp add: mark_inv_def gc_keeps_def)
    next
      assume "r \<in> set (val_refs (gc_registry g))"
      with m have "\<not> white g (snd r)" by (simp add: mark_inv_def)
      with k7 show ?thesis by (simp add: gc_keeps_def)
    qed (use g4(4,5) k47 in \<open>auto simp: gc_keeps_def\<close>)
  qed
  have run: "mark_rest g = Inr g7"
    using g1(1) g2(1) g4(1,2) g5(1) g7(1) by (simp add: mark_rest_def g3_def g6_def)
  show ?thesis
    by (rule exI [of _ g7], intro conjI ballI run p7(1) k7 u7 g7(3) w7 th7 again rt)
qed

text \<open>The second half: userdata to finalize, weak tables, and the other white.\<close>

definition finish_marks :: "gstate \<Rightarrow> gstate res" where
  "finish_marks g =
     bindr (luaC_separateudata g False) (\<lambda>(udsize, g).
     bindr (marktmu g) (\<lambda>g.
     bindr (propagateall g) (\<lambda>(m, g).
     bindr (cleartable g (gc_weak g)) (\<lambda>g.
     Inr (g\<lparr>gc_currentwhite := otherwhite (gc_currentwhite g), gc_sweepstrgc := 0, gc_sweepgc := None,
            gc_gcstate := GCSsweepstring,
            gc_estimate := gc_totalbytes g - word_of_nat (udsize + m)\<rparr>)))))"

lemma bindr_case_prod: "bindr (case x of (a, b) \<Rightarrow> f a b) h = (case x of (a, b) \<Rightarrow> bindr (f a b) h)"
  by (cases x) simp

lemma atomic_parts: "atomic g = bindr (mark_rest g) finish_marks"
  by (simp add: atomic_def mark_rest_def finish_marks_def bindr_assoc bindr_case_prod Let_def)

lemma separate_keeps:
  assumes tc: "tricolour X g" and st: "struct g" and s: "sep g (g'\<lparr>gc_rootgc := gc_rootgc g\<rparr>)"
  shows "tricolour X g'" "struct g'" "hsim g g'" "white g' = white g" "upval_inv g \<Longrightarrow> upval_inv g'"
    "thread_inv g \<Longrightarrow> thread_inv g'" "weak_inv g \<Longrightarrow> weak_inv g'"
    "gc_gray g' = gc_gray g" "gc_grayagain g' = gc_grayagain g" "gc_weak g' = gc_weak g"
    "gc_currentwhite g' = gc_currentwhite g" "roots g' = roots g"
proof -
  let ?h = "g'\<lparr>gc_rootgc := gc_rootgc g\<rparr>"
  have eq: "white g' = white ?h" "marked_refs g' = marked_refs ?h" "open_uv g' = open_uv ?h"
    by (intro ext; simp add: white_def marked_refs_def refs_def open_uv_def)+
  have l: "gc_gray g' = gc_gray g" "gc_grayagain g' = gc_grayagain g" "gc_weak g' = gc_weak g" "gc_currentwhite g' = gc_currentwhite g"
    "\<And>p. bit (gc_marked g' p) 4 = bit (gc_marked g p) 4"
    using s by (simp_all add: sep_def frame_def)
  have "tricolour X ?h" by (rule sep_tricolour [OF tc st s])
  then show "tricolour X g'" by (rule tricolour_lists) (use tricolour_parts(5) [OF \<open>tricolour X ?h\<close>] in auto)
  have sh: "struct ?h" by (rule sep_struct [OF st s])
  show "struct g'" by (rule hsim_struct [OF sh hsim_same]) simp_all
  show h: "hsim g g'" using sep_parts(1) [OF s] by (simp add: hsim_def)
  show w: "white g' = white g" using sep_parts(6) [OF s] eq(1) by simp
  have mr: "marked_refs g' p \<longleftrightarrow> marked_refs g p" for p using hsim_refs [OF st h, of p] w by (simp add: marked_refs_def)
  show "upval_inv g'" if "upval_inv g" using that hsim_open [OF h] w mr by (simp add: upval_inv_def)
  show "thread_inv g'" if "thread_inv g" using that hsim_tt [OF h] mr l(2) by (simp add: thread_inv_def)
  show "weak_inv g'" if "weak_inv g" using weak_inv_mono [OF that h] w l(3,5) by simp
  show "roots g' = roots g" using s by (simp add: roots_def sep_def frame_def)
qed (use s in \<open>simp_all add: sep_def frame_def\<close>)

lemma marked_all:
  assumes tc: "tricolour {} g" and g: "gc_gray g = []" "upval_inv g" "thread_inv g"
    and again: "\<forall>p \<in> set (gc_grayagain g). gch_tt (gc_heap g p) = LUA_TTHREAD"
    and c: "clears g g'" and w: "\<forall>p \<in> set (gc_weak g). marked_refs g' p"
    and p: "alloc g' p" "\<not> white g' p"
  shows "marked_refs g' p"
proof -
  have al: "alloc g p" using p(1) clears_alloc [OF c] by simp
  have str: "marked_refs g' p" if "gch_tt (gc_heap g p) = LUA_TSTRING"
  proof -
    have "refs g p = {}" using that by (auto simp: gch_tt_cases refs_def)
    with clears_refs [OF c, of p] show ?thesis by (auto simp: marked_refs_def)
  qed
  show ?thesis
  proof (cases "white g p")
    case True
    with p(2) have "gc_marked g' p \<noteq> gc_marked g p" by (auto simp: white_def)
    with c have "gch_tt (gc_heap g p) = LUA_TSTRING" by (auto simp: clears_def)
    then show ?thesis by (rule str)
  next
    case False
    show ?thesis
    proof (cases "black g p")
      case True
      show ?thesis using clears_marked_refs [OF c tricolour_parts(9) [OF tc True]] by simp
    next
      case nb: False
      from tricolour_parts(10) [OF tc al False nb]
      consider "gch_tt (gc_heap g p) = LUA_TSTRING" | "open_uv g p" | "p \<in> set (gc_grayagain g)" | "p \<in> set (gc_weak g)"
        using g(1) by auto
      then show ?thesis
      proof cases
        case 2
        with False g(2) show ?thesis by (intro clears_marked_refs [OF c]) (simp add: upval_inv_def)
      next
        case 3
        with again g(3) show ?thesis by (intro clears_marked_refs [OF c]) (simp add: thread_inv_def)
      qed (use str w in auto)
    qed
  qed
qed

lemma finish_marks_ok:
  assumes tc: "tricolour (set (gc_tmudata g)) g" and st: "struct g" and l: "lists_ok g" and r: "roots_ok g"
    and g: "gc_gray g = []" "upval_inv g" "thread_inv g" "weak_inv g"
    and again: "\<forall>p \<in> set (gc_grayagain g). gch_tt (gc_heap g p) = LUA_TTHREAD"
    and rt: "\<forall>r \<in> roots g. \<not> white g (snd r)"
  shows "\<exists>g'. finish_marks g = Inr g' \<and> sweep_start g g' \<and> roots g' = roots g"
proof -
  note t = tricolour_parts [OF tc]
  have "returns (\<lambda>(m, g'). sep g (g'\<lparr>gc_rootgc := gc_rootgc g\<rparr>) \<and> hibits g g' \<and> lists_ok g' \<and> set (gc_tmudata g) \<subseteq> set (gc_tmudata g'))
    (luaC_separateudata g False)"
    by (rule separateudata_ok [OF st t(1) l]) (rule t(4))
  then obtain ud g1 where
    g1: "luaC_separateudata g False = Inr (ud, g1)" "sep g (g1\<lparr>gc_rootgc := gc_rootgc g\<rparr>)" "hibits g g1" "lists_ok g1"
      "set (gc_tmudata g) \<subseteq> set (gc_tmudata g1)"
    by (auto simp: returns_def)
  note s = separate_keeps [OF tc st g1(2)]
  have "tricolour (set (gc_tmudata g1) \<union> {}) g1" using tricolour_mono [OF s(1) g1(5)] by simp
  from marktmu_loop [OF this s(2) lists_ok_parts(7) [OF g1(4)]] obtain g2 where
    g2: "marktmu g1 = Inr g2" "prop_ok {} g1 g2" "\<forall>u \<in> set (gc_tmudata g1). \<not> white g2 u"
    unfolding marktmu_def [symmetric] by (auto simp: returns_def)
  note p2 = prop_parts [OF g2(2)] and k2 = prop_keeps [OF s(2) g2(2)]
  from propagateall_ok [OF p2(1,2)] obtain m g3 where
    g3: "propagateall g2 = Inr (m, g3)" "prop_ok {} g2 g3" "gc_gray g3 = []" by (auto simp: returns_def)
  note p3 = prop_parts [OF g3(2)] and k3 = keeps_trans [OF k2 prop_keeps [OF p2(2) g3(2)]]
  have k: "hsim g1 g3" "frame g1 g3" "hibits g1 g3" "upval_inv g3" "\<And>q. \<not> white g1 q \<Longrightarrow> \<not> white g3 q"
    using k3 s(5) g(2) by (simp_all add: gc_keeps_def)
  have inv: "thread_inv g3" "weak_inv g3" using s(6,7) g(3,4) p2(7,8) p3(7,8) by blast+
  have ag: "\<forall>p \<in> set (gc_grayagain g3). gch_tt (gc_heap g3 p) = LUA_TTHREAD"
  proof
    fix p assume "p \<in> set (gc_grayagain g3)"
    then have "p \<in> set (gc_grayagain g1) \<or> gch_tt (gc_heap g1 p) = LUA_TTHREAD"
      using p3(9) [of p] p2(9) [of p] hsim_tt [OF p2(3), of p] by auto
    then show "gch_tt (gc_heap g3 p) = LUA_TTHREAD"
      using again s(9) hsim_tt [OF s(3), of p] hsim_tt [OF k(1), of p] by auto
  qed
  note t3 = tricolour_parts [OF p3(1)]
  have "returns (\<lambda>g'. clears g3 g' \<and> (\<forall>p \<in> set (gc_weak g3). marked_refs g' p)) (cleartable g3 (gc_weak g3))"
    by (rule cleartable_ok [OF inv(2)]) (erule t3(13), rule t3(4))
  then obtain g4 where
    g4: "cleartable g3 (gc_weak g3) = Inr g4" "clears g3 g4" "\<forall>p \<in> set (gc_weak g3). marked_refs g4 p"
    by (auto simp: returns_def)
  define g' where "g' = g4\<lparr>gc_currentwhite := otherwhite (gc_currentwhite g4), gc_sweepstrgc := 0, gc_sweepgc := None,
            gc_gcstate := GCSsweepstring, gc_estimate := gc_totalbytes g4 - word_of_nat (ud + m)\<rparr>"
  have run: "finish_marks g = Inr g'"
    using g1(1) g2(1) g3(1) g4(1) by (simp add: finish_marks_def g'_def)
  have f34: "frame g3 g4" using g4(2) by (simp add: clears_def)
  have cw: "cw_ok (gc_currentwhite g4)" using t3(1) f34 by (simp add: frame_def)
  have h': "gc_heap g' = gc_heap g4" "gc_marked g' = gc_marked g4" by (simp_all add: g'_def)
  have eq: "alloc g' = alloc g4" "refs g' = refs g4" "open_uv g' = open_uv g4" "ref_ok g' = ref_ok g4" "white g' = white g4" "black g' = black g4"
    by (intro ext; simp add: alloc_def refs_def open_uv_def ref_ok_def white_def black_def h')+
  have s4: "struct g4" by (rule clears_struct [OF p3(2) g4(2)])
  have s': "struct g'" by (rule hsim_struct [OF s4 hsim_same]) (simp_all add: g'_def)
  have tt: "gch_tt (gc_heap g' p) = gch_tt (gc_heap g p)" for p
    using hsim_tt [OF s(3), of p] hsim_tt [OF k(1), of p] clears_tt [OF g4(2), of p] h' by simp
  have mk: "gc_marked g4 p = gc_marked g3 p \<or> gch_tt (gc_heap g3 p) = LUA_TSTRING \<and> gc_marked g4 p = white2gray (gc_marked g3 p)" for p
    using g4(2) by (simp add: clears_def)
  have dead: "dead g' p \<longleftrightarrow> white g4 p" if "alloc g4 p" for p
  proof -
    have "\<not> dead g3 p" using t3(2) [of p] that clears_alloc [OF g4(2), of p] by simp
    then have "\<not> isdead (gc_currentwhite g4) (gc_marked g4 p)"
      using mk [of p] cw f34 by (auto simp: dead_def frame_def)
    from isdead_other [OF cw this] show ?thesis by (simp add: dead_def white_def g'_def)
  qed
  have ok4: "ref_ok g4 r" if "r \<in> refs g4 p" for r p
    using that clears_refs [OF g4(2), of p] t3(4) [of r p] clears_ref_ok [OF g4(2)] by blast
  have dr: "\<not> dead g' (snd r)" if "ref_ok g4 r" "\<not> white g4 (snd r)" for r
    using that dead [of "snd r"] ref_ok_alloc [of g4 "fst r" "snd r"] by simp
  have cl: "ref_ok g' r \<and> \<not> dead g' (snd r)" if p: "alloc g' p" "\<not> dead g' p" "r \<in> refs g' p" for p r
  proof -
    have "marked_refs g4 p"
      by (rule marked_all [OF p3(1) g3(3) k(4) inv(1) ag g4(2,3)]) (use p dead eq in auto)
    with p(3) ok4 [of r p] dr [of r] show ?thesis unfolding eq by (auto simp: marked_refs_def)
  qed
  have rts: "roots g' = roots g" using roots_frame [OF k(2)] roots_frame [OF f34] s(12) by (simp add: g'_def roots_def)
  have rok: "ref_ok g' r \<and> \<not> dead g' (snd r)" if "r \<in> roots g'" for r
  proof -
    have "r \<in> roots g" using that rts by simp
    with rt r have "\<not> white g (snd r)" "ref_ok g r" by (auto simp: roots_ok_def)
    then have "\<not> white g4 (snd r)" "ref_ok g' r"
      using s(4) k(5) clears_white [OF g4(2)] tt by (auto simp: ref_ok_def)
    with dr [of r] show ?thesis unfolding eq by simp
  qed
  have tm: "\<not> dead g' u" if "u \<in> set (gc_tmudata g')" for u
  proof -
    have u: "u \<in> set (gc_tmudata g1)" using that k(2) f34 by (simp add: g'_def frame_def)
    then have "\<not> white g4 u" using g2(3) p3(6) clears_white [OF g4(2)] by blast
    moreover have "alloc g4 u"
      using lists_ok_parts(7) [OF g1(4) u] tt [of u] hsim_tt [OF s(3), of u] gch_tt_alloc [of "gc_heap g4 u"]
      by (auto simp: alloc_def tag_defs h')
    ultimately show ?thesis using dead by simp
  qed
  have l3: "lists_ok g3" by (rule lists_ok_frame [OF g1(4) k(1,2)])
  have l': "lists_ok g'"
  proof -
    have u: "udata_list g' = udata_list g3" using f34 by (simp add: udata_list_def g'_def frame_def)
    have f: "gc_rootgc g' = gc_rootgc g3" "gc_mainthread g' = gc_mainthread g3" "gc_strt g' = gc_strt g3" "gc_tmudata g' = gc_tmudata g3"
      using f34 by (simp_all add: g'_def frame_def)
    show ?thesis using l3 unfolding lists_ok_def u f eq(1,3) h' clears_tt [OF g4(2)] clears_alloc [OF g4(2)] clears_open [OF g4(2)] .
  qed
  have bl: "black_ok g'"
  proof -
    have "\<not> black g4 p" if "alloc g4 p" "white g4 p" for p
      using mk [of p] that t3(3) [of p] clears_alloc [OF g4(2), of p] by (auto simp: white_def black_def)
    moreover have "\<not> open_uv g4 p \<and> gch_tt (gc_heap g4 p) \<noteq> LUA_TTHREAD" if b: "black g4 p" for p
    proof -
      have "black g3 p" using mk [of p] b by (auto simp: black_def)
      with t3(11,12) [of p] show ?thesis using clears_open [OF g4(2), of p] clears_tt [OF g4(2), of p] by simp
    qed
    ultimately show ?thesis by (simp add: black_ok_def eq h')
  qed
  have hb: "hibits g g'"
  proof -
    have "bit (gc_marked g4 p) n = bit (gc_marked g3 p) n" if "5 \<le> n" for p n
      using mk [of p] that by (auto simp: bit_white2gray)
    then show ?thesis using g1(3) k(3) by (simp add: hibits_def h')
  qed
  have lc: "live_closed g'" unfolding live_closed_def
    by (intro conjI allI ballI impI) (use cl rok tm in blast)+
  have ph: "cw_ok (gc_currentwhite g')" "gc_gcstate g' = GCSsweepstring" "gc_sweepstrgc g' = 0" "gc_sweepgc g' = None"
    using cw_ok_other [OF cw] by (simp_all add: g'_def)
  have mt: "gc_mainthread g' = gc_mainthread g" using k(2) f34 g1(2) by (simp add: g'_def frame_def sep_def)
  have "sweep_start g g'"
    unfolding sweep_start_def by (intro conjI allI ph s' l' lc bl hb tt mt)
  with run rts show ?thesis by blast
qed

lemma atomic_ok:
  assumes m: "mark_inv g"
  shows "\<exists>g'. atomic g = Inr g' \<and> sweep_start g g' \<and> roots g' = roots g"
proof -
  from mark_rest_ok [OF m] obtain h where h: "mark_rest g = Inr h" "tricolour (set (gc_tmudata g)) h" "gc_keeps g h" "upval_inv h"
    "gc_gray h = []" "weak_inv h" "thread_inv h" "\<forall>p \<in> set (gc_grayagain h). gch_tt (gc_heap h p) = LUA_TTHREAD"
    "\<forall>r \<in> roots g. \<not> white h (snd r)" by blast
  have k: "struct h" "hsim g h" "frame g h" "hibits g h" using h(3) by (simp_all add: gc_keeps_def)
  have tm: "gc_tmudata h = gc_tmudata g" using k(3) by (simp add: frame_def)
  have l: "lists_ok h" "roots_ok h" using m lists_ok_frame [OF _ k(2,3)] roots_ok_sim [OF _ k(2,3)] by (simp_all add: mark_inv_def)
  have rt: "roots h = roots g" using roots_frame [OF k(3)] .
  from finish_marks_ok [of h] h(2,4-9) k(1) l tm rt obtain g' where
    g': "finish_marks h = Inr g'" "sweep_start h g'" "roots g' = roots h" by auto
  have "sweep_start g g'"
    using g'(2) hsim_tt [OF k(2)] hibits_trans [OF k(4)] k(3) by (simp add: sweep_start_def frame_def)
  with h(1) g'(1,3) rt show ?thesis by (simp add: atomic_parts)
qed

text \<open>What the program can reach.\<close>

inductive_set reachable :: "gstate \<Rightarrow> ptr set" for g where
  root: "r \<in> roots g \<Longrightarrow> snd r \<in> reachable g"
| step: "p \<in> reachable g \<Longrightarrow> r \<in> refs g p \<Longrightarrow> snd r \<in> reachable g"

lemma live_reachable:
  assumes "live_closed g" "p \<in> reachable g"
  shows "alloc g p \<and> \<not> dead g p"
  using assms(2)
proof (induction rule: reachable.induct)
  case (root r)
  with assms(1) show ?case using ref_ok_alloc [of g "fst r" "snd r"] by (auto simp: live_closed_def)
next
  case (step p r)
  with assms(1) show ?case using ref_ok_alloc [of g "fst r" "snd r"] by (auto simp: live_closed_def)
qed

end
