(* ===== verification/LuaGCSweep.thy ===== *)
theory LuaGCSweep
  imports LuaGCSafe
begin

text \<open>
  Sweeping: dead objects are freed, the others get the current white; no object that the program can
  reach is touched.
\<close>

section \<open>The invariant outside the propagation phase\<close>

text \<open>Only strings and the main thread are fixed.\<close>

definition fixed_ok :: "gstate \<Rightarrow> bool" where
  "fixed_ok g \<longleftrightarrow> (\<forall>p. alloc g p \<and> bit (gc_marked g p) 5 \<longrightarrow> gch_tt (gc_heap g p) = LUA_TSTRING \<or> p = gc_mainthread g)"

definition base_inv :: "gstate \<Rightarrow> bool" where
  "base_inv g \<longleftrightarrow> cw_ok (gc_currentwhite g) \<and> struct g \<and> lists_ok g \<and> live_closed g \<and> black_ok g \<and> fixed_ok g"

definition clean :: "gstate \<Rightarrow> ptr \<Rightarrow> bool" where
  "clean g p \<longleftrightarrow> white g p \<and> \<not> dead g p"

text \<open>A sweep step keeps what is live, and never undoes the sweeping of an object.\<close>

definition keeps_live :: "gstate \<Rightarrow> gstate \<Rightarrow> bool" where
  "keeps_live g g' \<longleftrightarrow>
     (\<forall>p. alloc g p \<and> \<not> dead g p \<longrightarrow> gch_tt (gc_heap g' p) = gch_tt (gc_heap g p) \<and> refs g' p = refs g p \<and> \<not> dead g' p) \<and>
     (\<forall>p. clean g p \<longrightarrow> clean g' p) \<and> (\<forall>p. alloc g' p \<longrightarrow> gch_tt (gc_heap g' p) = gch_tt (gc_heap g p)) \<and>
     roots g' = roots g \<and> gc_tmudata g' = gc_tmudata g \<and> gc_mainthread g' = gc_mainthread g \<and> gc_gcstate g' = gc_gcstate g \<and>
     gc_currentwhite g' = gc_currentwhite g \<and> gc_L g' = gc_L g \<and>
     (\<forall>u v x. gc_heap g' u = OUpval (Some v) x \<longrightarrow> gc_heap g u = OUpval (Some v) x)"

lemma keeps_live_refl [simp]: "keeps_live g g" by (simp add: keeps_live_def)

lemma keeps_live_trans:
  assumes "keeps_live g g'" "keeps_live g' g''"
  shows "keeps_live g g''"
proof -
  have al: "alloc g' p" if "alloc g p" "\<not> dead g p" for p
    using assms(1) that gch_tt_alloc [of "gc_heap g p"] gch_tt_alloc [of "gc_heap g' p"] by (auto simp: keeps_live_def alloc_def)
  have al': "alloc g' p" if "alloc g'' p" for p
    using assms(2) that gch_tt_alloc [of "gc_heap g' p"] gch_tt_alloc [of "gc_heap g'' p"] by (auto simp: keeps_live_def alloc_def)
  have 1: "gch_tt (gc_heap g'' p) = gch_tt (gc_heap g p) \<and> refs g'' p = refs g p \<and> \<not> dead g'' p" if "alloc g p" "\<not> dead g p" for p
    using assms that al [OF that] unfolding keeps_live_def by metis
  have 2: "gch_tt (gc_heap g'' p) = gch_tt (gc_heap g p)" if "alloc g'' p" for p
    using assms that al' [OF that] by (simp add: keeps_live_def)
  show ?thesis using 1 2 assms unfolding keeps_live_def by simp
qed

lemma base_parts:
  assumes "base_inv g"
  shows "cw_ok (gc_currentwhite g)" "struct g" "lists_ok g" "live_closed g" "black_ok g" "fixed_ok g"
  using assms by (simp_all add: base_inv_def)

lemma live_parts:
  assumes "live_closed g"
  shows "alloc g p \<Longrightarrow> \<not> dead g p \<Longrightarrow> r \<in> refs g p \<Longrightarrow> ref_ok g r"
    "alloc g p \<Longrightarrow> \<not> dead g p \<Longrightarrow> r \<in> refs g p \<Longrightarrow> \<not> dead g (snd r)"
    "r \<in> roots g \<Longrightarrow> ref_ok g r" "r \<in> roots g \<Longrightarrow> \<not> dead g (snd r)" "u \<in> set (gc_tmudata g) \<Longrightarrow> \<not> dead g u"
  using assms by (auto simp: live_closed_def)

lemma live_closedI:
  assumes "\<And>p r. alloc g p \<Longrightarrow> \<not> dead g p \<Longrightarrow> r \<in> refs g p \<Longrightarrow> ref_ok g r \<and> \<not> dead g (snd r)"
    "\<And>r. r \<in> roots g \<Longrightarrow> ref_ok g r \<and> \<not> dead g (snd r)" "\<And>u. u \<in> set (gc_tmudata g) \<Longrightarrow> \<not> dead g u"
  shows "live_closed g"
  unfolding live_closed_def by (intro conjI allI impI ballI; (elim conjE)?) (use assms in blast)+

lemma mainthread_live: "live_closed g \<Longrightarrow> alloc g (gc_mainthread g) \<and> \<not> dead g (gc_mainthread g)"
  using live_parts(3,4) [of g "(LUA_TTHREAD, gc_mainthread g)"] ref_ok_alloc [of g LUA_TTHREAD "gc_mainthread g"]
  by (simp add: roots_def)

lemma notdead_iff: "cw_ok (gc_currentwhite g) \<Longrightarrow> notdead g p \<longleftrightarrow> \<not> dead g p \<or> bit (gc_marked g p) 5"
proof -
  assume cw: "cw_ok (gc_currentwhite g)"
  let ?m = "gc_marked g p" and ?c = "gc_currentwhite g"
  have "notdead g p \<longleftrightarrow> (\<exists>n. bit ((?m XOR WHITEBITS) AND otherwhite ?c) n)"
    using bit_eq_iff [of "(?m XOR WHITEBITS) AND otherwhite ?c" 0] byte_bit [of "(?m XOR WHITEBITS) AND otherwhite ?c"]
    by (auto simp: notdead_def)
  also have "\<dots> \<longleftrightarrow> (\<exists>n. (if n < 2 then \<not> bit ?m n else bit ?m n) \<and> (if n < 2 then \<not> bit ?c n else bit ?c n))"
    using byte_bit by (auto simp: bit_and_iff bit_xor_iff bit_whitebits bit_otherwhite)
  also have "\<dots> \<longleftrightarrow> (\<not> bit ?m 0 \<and> \<not> bit ?c 0) \<or> (\<not> bit ?m 1 \<and> \<not> bit ?c 1) \<or> bit ?m 5"
  proof -
    have c: "bit ?c n \<longleftrightarrow> n = 5" if "2 \<le> n" for n
    proof -
      have "n = 2 \<or> n = 3 \<or> n = 4 \<or> n = 5 \<or> n = 6 \<or> n = 7 \<or> 8 \<le> n" using that by linarith
      with cw byte_bit [of ?c n] show ?thesis by (auto simp: cw_ok_def bit_numeral_rec)
    qed
    have c5: "bit ?c 5" using c [of 5] by simp
    let ?P = "\<lambda>n. (if n < 2 then \<not> bit ?m n else bit ?m n) \<and> (if n < 2 then \<not> bit ?c n else bit ?c n)"
    have lt: "n = 0 \<or> n = 1 \<or> 2 \<le> n" for n :: nat by linarith
    have "?P 0 \<or> ?P 1 \<or> bit ?m 5" if "?P n" for n
      using that lt [of n] c [of n] by (auto simp: not_less)
    moreover have "?P 5" if "bit ?m 5" using that c5 by simp
    ultimately have "(\<exists>n. ?P n) \<longleftrightarrow> ?P 0 \<or> ?P 1 \<or> bit ?m 5" by blast
    then show ?thesis by simp
  qed
  also have "\<dots> \<longleftrightarrow> \<not> dead g p \<or> bit ?m 5"
    using cw_ok_bits [OF cw] by (auto simp: dead_def isdead_bits [OF cw])
  finally show ?thesis .
qed

lemma makewhite_base:
  assumes b: "base_inv g" and p: "alloc g p" "notdead g p"
  shows "base_inv (makewhite g p) \<and> clean (makewhite g p) p \<and> keeps_live g (makewhite g p)"
proof -
  let ?h = "makewhite g p"
  note bp = base_parts [OF b]
  have cw: "cw_ok (gc_currentwhite g)" by (rule bp(1))
  have f: "gc_heap ?h = gc_heap g" "gc_currentwhite ?h = gc_currentwhite g"
    "\<And>q. gc_marked ?h q = (if q = p then makewhite_of (gc_currentwhite g) (gc_marked g p) else gc_marked g q)"
    "gc_mainthread ?h = gc_mainthread g"
    by (simp_all add: makewhite_def)
  have eq: "alloc ?h = alloc g" "refs ?h = refs g" "ref_ok ?h = ref_ok g" "open_uv ?h = open_uv g" "roots ?h = roots g"
    by (intro ext; simp add: alloc_def refs_def ref_ok_def open_uv_def f)+ (simp add: roots_def makewhite_def)
  have col: "dead ?h q \<longleftrightarrow> q \<noteq> p \<and> dead g q" "white ?h q \<longleftrightarrow> q = p \<or> white g q" "black ?h q \<longleftrightarrow> q \<noteq> p \<and> black g q" for q
    using cw by (auto simp: dead_def white_def black_def f)
  have pl: "\<not> dead g p \<or> refs g p = {}"
  proof (rule ccontr)
    assume n: "\<not> (\<not> dead g p \<or> refs g p = {})"
    then have "bit (gc_marked g p) 5" using p(2) notdead_iff [OF cw] by blast
    with bp(6) p(1) have "gch_tt (gc_heap g p) = LUA_TSTRING \<or> p = gc_mainthread g" by (simp add: fixed_ok_def)
    with n mainthread_live [OF bp(4)] show False by (auto simp: gch_tt_cases refs_def)
  qed
  have st: "struct ?h" by (rule hsim_struct [OF bp(2) hsim_same]) (simp_all add: makewhite_def)
  have l: "lists_ok ?h" by (rule lists_ok_sim [OF bp(3) hsim_same]) (simp_all add: makewhite_def)
  have lc: "live_closed ?h"
  proof (rule live_closedI)
    fix q r assume q: "alloc ?h q" "\<not> dead ?h q" "r \<in> refs ?h q"
    then have "\<not> dead g q" using pl by (cases "q = p") (auto simp: eq col)
    with q live_parts(1,2) [OF bp(4), of q r] show "ref_ok ?h r \<and> \<not> dead ?h (snd r)" by (simp add: eq col)
  next
    fix r assume "r \<in> roots ?h"
    with live_parts(3,4) [OF bp(4), of r] show "ref_ok ?h r \<and> \<not> dead ?h (snd r)" by (simp add: eq col)
  next
    fix u assume "u \<in> set (gc_tmudata ?h)"
    with live_parts(5) [OF bp(4), of u] show "\<not> dead ?h u" unfolding col by (simp add: makewhite_def)
  qed
  have bl: "black_ok ?h" using bp(5) by (auto simp: black_ok_def eq col f)
  have fx: "fixed_ok ?h" using bp(6) by (auto simp: fixed_ok_def eq f bit_makewhite)
  have "keeps_live g ?h"
    using eq col by (auto simp: keeps_live_def clean_def makewhite_def)
  with st l lc bl fx cw f col show ?thesis by (simp add: base_inv_def clean_def)
qed

section \<open>Freeing an object\<close>

lemma udata_remove1:
  assumes l: "lists_ok g" and p: "p \<noteq> gc_mainthread g" and h: "gc_rootgc h = remove1 p (gc_rootgc g)" "gc_mainthread h = gc_mainthread g"
  shows "set (udata_list h) = set (udata_list g) - {p}"
proof -
  note lp = lists_ok_parts [OF l]
  let ?m = "gc_mainthread g" and ?A = "takeWhile (\<lambda>p. p \<noteq> gc_mainthread g) (gc_rootgc g)"
  have r: "gc_rootgc g = ?A @ ?m # udata_list g" using before_udata_list [OF lp(2)] by (simp add: before_udata_def)
  have d: "distinct (udata_list g)" "?m \<notin> set ?A" "set ?A \<inter> set (udata_list g) = {}" using lp(1) by (subst (asm) r; simp)+
  have A: "\<forall>x \<in> set ?A. x \<noteq> ?m" using d(2) by auto
  have ul: "udata_list h = ys" if "gc_rootgc h = xs @ ?m # ys" "\<forall>x \<in> set xs. x \<noteq> ?m" for xs ys
    using that h(2) by (simp add: udata_list_def)
  show ?thesis
  proof (cases "p \<in> set ?A")
    case True
    have "gc_rootgc h = remove1 p ?A @ ?m # udata_list g" using h(1) True by (subst (asm) r) (simp add: remove1_append)
    then have "udata_list h = udata_list g" by (rule ul) (use A set_remove1_subset [of p ?A] in blast)
    with d(3) True show ?thesis by auto
  next
    case False
    then have "gc_rootgc h = ?A @ ?m # remove1 p (udata_list g)" using h(1) p by (subst (asm) r) (simp add: remove1_append)
    then have "udata_list h = remove1 p (udata_list g)" by (rule ul) (rule A)
    with d(1) show ?thesis by simp
  qed
qed

text \<open>The object at \<open>p\<close> is freed: it is dead, and in no list any more.\<close>

lemma free_base:
  assumes b: "base_inv g" and p: "alloc g p" "dead g p" "\<not> open_uv g p" "\<And>t. gc_heap g p = OThr t \<Longrightarrow> th_openupval t = []"
    and h: "gc_heap h = (gc_heap g)(p := OFree)" "gc_marked h = gc_marked g" "gc_currentwhite h = gc_currentwhite g"
      "gc_uvhead h = gc_uvhead g" "gc_mainthread h = gc_mainthread g" "gc_L h = gc_L g" "gc_registry h = gc_registry g"
      "gc_mt h = gc_mt g" "gc_tmudata h = gc_tmudata g" "gc_gcstate h = gc_gcstate g"
    and l: "if gch_tt (gc_heap g p) = LUA_TSTRING
      then gc_rootgc h = gc_rootgc g \<and> gc_strt h \<noteq> [] \<and> distinct (concat (gc_strt h)) \<and> set (concat (gc_strt h)) = set (concat (gc_strt g)) - {p}
      else gc_rootgc h = remove1 p (gc_rootgc g) \<and> gc_strt h = gc_strt g"
  shows "base_inv h \<and> keeps_live g h"
proof -
  note bp = base_parts [OF b] and lp = lists_ok_parts [OF base_parts(3) [OF b]]
  have pm: "p \<noteq> gc_mainthread g" using mainthread_live [OF bp(4)] p(2) by blast
  have rts: "roots h = roots g" by (simp add: roots_def h)
  have col: "dead h = dead g" "white h = white g" "black h = black g" by (intro ext; simp add: dead_def white_def black_def h)+
  have al: "alloc h q \<longleftrightarrow> q \<noteq> p \<and> alloc g q" "open_uv h q \<longleftrightarrow> q \<noteq> p \<and> open_uv g q"
    "gch_tt (gc_heap h q) = (if q = p then LUA_TNIL else gch_tt (gc_heap g q))" for q
    by (auto simp: alloc_def open_uv_def h)
  have ro: "ref_ok h r \<longleftrightarrow> snd r \<noteq> p \<and> ref_ok g r" for r by (auto simp: ref_ok_def h)
  have np: "th \<noteq> p" if "gc_heap g q = OUpval (Some (th, i)) x" for q th i x
  proof
    assume "th = p"
    with that bp(2) obtain t where "gc_heap g p = OThr t" "q \<in> set (th_openupval t)" unfolding struct_def by metis
    with p(4) show False by force
  qed
  have rf: "refs h q = refs g q" if "q \<noteq> p" for q
  proof (cases "\<exists>th i x. gc_heap g q = OUpval (Some (th, i)) x")
    case True
    then obtain th i x where u: "gc_heap g q = OUpval (Some (th, i)) x" by blast
    with np [OF u] that show ?thesis by (simp add: refs_def h slot_at_def)
  next
    case False
    then have "obj_refs (gc_heap h) (gc_heap g q) = obj_refs (gc_heap g) (gc_heap g q)"
      by (cases "(gc_heap g, gc_heap g q)" rule: obj_refs.cases) auto
    with that show ?thesis by (simp add: refs_def h)
  qed
  have rfp: "refs h p = {}" by (simp add: refs_def h)
  have st: "struct h"
  proof -
    have "gc_heap h 0 = OFree" using bp(2) by (simp add: struct_def h)
    moreover have "thread_ok h q t" if "gc_heap h q = OThr t" for q t
    proof -
      have q: "q \<noteq> p" "gc_heap g q = OThr t" using that by (auto simp: h split: if_splits)
      with bp(2) have ok: "thread_ok g q t" by (simp add: struct_def)
      have "u \<noteq> p" if "u \<in> set (th_openupval t)" for u
      proof -
        have "open_uv g u" using ok that by (auto simp: thread_ok_def open_uv_def)
        with p(3) show ?thesis by blast
      qed
      with ok show ?thesis by (auto simp: thread_ok_def h)
    qed
    moreover have "\<exists>t. gc_heap h th = OThr t \<and> u \<in> set (th_openupval t)" if "gc_heap h u = OUpval (Some (th, i)) x" for u th i x
    proof -
      have u: "gc_heap g u = OUpval (Some (th, i)) x" using that by (auto simp: h split: if_splits)
      with bp(2) np [OF u] show ?thesis unfolding struct_def h by (metis fun_upd_other)
    qed
    moreover have "set (gc_uvhead h) = {u. open_uv h u}" using bp(2) p(3) by (auto simp: struct_def h(4) al)
    moreover have "tchain t" if "gc_heap h q = OTab t" for q t
      using that bp(2) by (auto simp: struct_def h split: if_splits)
    moreover have "distinct (gc_uvhead h)" using bp(2) by (simp add: struct_def h)
    ultimately show ?thesis unfolding struct_def by blast
  qed
  have tm: "p \<notin> set (gc_tmudata g)" using live_parts(5) [OF bp(4), of p] p(2) by blast
  have ul: "set (udata_list h) = {q. gch_tt (gc_heap h q) = LUA_TUSERDATA \<and> q \<notin> set (gc_tmudata h)}"
  proof (cases "gch_tt (gc_heap g p) = LUA_TSTRING")
    case True
    then have "udata_list h = udata_list g" using l h(5) by (simp add: udata_list_def)
    with lp(9) True show ?thesis by (auto simp: al(3) h(9) tag_defs split: if_splits)
  next
    case False
    then have "set (udata_list h) = set (udata_list g) - {p}" using l udata_remove1 [OF bp(3) pm, of h] h(5) by simp
    with lp(9) show ?thesis by (auto simp: al(3) h(9) tag_defs split: if_splits)
  qed
  have 1: "distinct (gc_rootgc h)" "gc_mainthread h \<in> set (gc_rootgc h)" "distinct (concat (gc_strt h))" "gc_strt h \<noteq> []"
    using lp(1-3,5) l pm h(5) by (auto split: if_splits)
  have 2: "set (concat (gc_strt h)) = {q. gch_tt (gc_heap h q) = LUA_TSTRING}"
  proof (cases "gch_tt (gc_heap g p) = LUA_TSTRING")
    case True
    with l have "set (concat (gc_strt h)) = set (concat (gc_strt g)) - {p}" by simp
    then show ?thesis unfolding lp(6) al(3) by (auto simp: tag_defs)
  next
    case False
    with l have "set (concat (gc_strt h)) = set (concat (gc_strt g))" by simp
    with False show ?thesis unfolding lp(6) al(3) by (auto simp: tag_defs)
  qed
  have 3: "set (gc_rootgc h) = {q. alloc h q \<and> gch_tt (gc_heap h q) \<noteq> LUA_TSTRING \<and> \<not> open_uv h q \<and> q \<notin> set (gc_tmudata h)}"
  proof (cases "gch_tt (gc_heap g p) = LUA_TSTRING")
    case True
    with l have "gc_rootgc h = gc_rootgc g" by simp
    with True lp(8) show ?thesis by (auto simp: al h(9))
  next
    case False
    with l lp(1) have "set (gc_rootgc h) = set (gc_rootgc g) - {p}" by simp
    with False lp(8) show ?thesis by (auto simp: al h(9))
  qed
  have 4: "\<forall>q \<in> set (gc_tmudata h). gch_tt (gc_heap h q) = LUA_TUSERDATA" using lp(7) tm by (auto simp: h(9) al(3))
  have lo: "lists_ok h" using 1 2 3 4 ul lp(4) h(9) unfolding lists_ok_def by simp
  have live: "q \<noteq> p" if "\<not> dead g q" for q using that p(2) by blast
  have lc: "live_closed h"
  proof (rule live_closedI)
    fix q r assume q: "alloc h q" "\<not> dead h q" "r \<in> refs h q"
    then have "alloc g q" "\<not> dead g q" "r \<in> refs g q" using rf [of q] by (simp_all add: al col)
    with live_parts(1,2) [OF bp(4), of q r] live [of "snd r"] show "ref_ok h r \<and> \<not> dead h (snd r)" by (simp add: ro col)
  next
    fix r assume "r \<in> roots h"
    with live_parts(3,4) [OF bp(4), of r] live [of "snd r"] show "ref_ok h r \<and> \<not> dead h (snd r)" by (simp add: ro col rts)
  next
    fix u assume "u \<in> set (gc_tmudata h)"
    with live_parts(5) [OF bp(4), of u] show "\<not> dead h u" by (simp add: col h(9))
  qed
  have bl: "black_ok h" using bp(5) by (auto simp: black_ok_def col al tag_defs)
  have fx: "fixed_ok h" using bp(6) by (auto simp: fixed_ok_def al h(2,5))
  have "keeps_live g h"
    using live rf al rts by (auto simp: keeps_live_def col clean_def h(1,3,5,6,9,10) split: if_splits)
  with st lo lc bl fx bp(1) h(3) show ?thesis by (simp add: base_inv_def)
qed

section \<open>A chain of strings\<close>

lemma concat_update: "i < length xs \<Longrightarrow> concat (xs[i := ys]) = concat (take i xs) @ ys @ concat (drop (Suc i) xs)"
  by (simp add: upd_conv_take_nth_drop)

definition at_chain :: "nat \<Rightarrow> ptr list \<Rightarrow> gstate \<Rightarrow> gstate" where
  "at_chain i ps g = g\<lparr>gc_strt := (gc_strt g)[i := ps]\<rparr>"

lemma at_chain_fields [simp]:
  "gc_heap (at_chain i ps g) = gc_heap g" "gc_marked (at_chain i ps g) = gc_marked g"
  "gc_currentwhite (at_chain i ps g) = gc_currentwhite g" "gc_rootgc (at_chain i ps g) = gc_rootgc g"
  "gc_strt (at_chain i ps g) = (gc_strt g)[i := ps]" "gc_uvhead (at_chain i ps g) = gc_uvhead g"
  "gc_mainthread (at_chain i ps g) = gc_mainthread g" "gc_L (at_chain i ps g) = gc_L g"
  "gc_registry (at_chain i ps g) = gc_registry g" "gc_mt (at_chain i ps g) = gc_mt g"
  "gc_tmudata (at_chain i ps g) = gc_tmudata g" "gc_gcstate (at_chain i ps g) = gc_gcstate g"
  by (simp_all add: at_chain_def)

lemma at_chain_makewhite: "at_chain i ps (makewhite g p) = makewhite (at_chain i ps g) p"
  by (simp add: at_chain_def makewhite_def set_marked_def)

lemma clean_colours: "gc_marked h = gc_marked g \<Longrightarrow> gc_currentwhite h = gc_currentwhite g \<Longrightarrow> clean h p = clean g p"
  by (simp add: clean_def white_def dead_def)

lemma free_string:
  assumes b: "base_inv (at_chain i (pre @ p # ch) g)" and i: "i < length (gc_strt g)" and d: "dead g p"
    and s: "gc_heap g p = OStr s x"
  shows "\<exists>g'. freeobj g p = Inr g' \<and> base_inv (at_chain i (pre @ ch) g') \<and>
    keeps_live (at_chain i (pre @ p # ch) g) (at_chain i (pre @ ch) g') \<and> gc_strt g' = gc_strt g \<and> gc_rootgc g' = gc_rootgc g \<and>
    gc_sweepstrgc g' = gc_sweepstrgc g \<and> gc_sweepgc g' = gc_sweepgc g"
proof -
  let ?G = "at_chain i (pre @ p # ch) g"
  define g' where "g' = luaM_freemem (set_heap (g\<lparr>gc_nuse := gc_nuse g - 1\<rparr>) p OFree) (sizestring s)"
  have f: "freeobj g p = Inr g'" using s by (simp add: freeobj_def g'_def)
  have fs: "gc_heap g' = (gc_heap g)(p := OFree)" "gc_marked g' = gc_marked g" "gc_currentwhite g' = gc_currentwhite g"
    "gc_uvhead g' = gc_uvhead g" "gc_mainthread g' = gc_mainthread g" "gc_L g' = gc_L g" "gc_registry g' = gc_registry g"
    "gc_mt g' = gc_mt g" "gc_tmudata g' = gc_tmudata g" "gc_gcstate g' = gc_gcstate g" "gc_strt g' = gc_strt g"
    "gc_rootgc g' = gc_rootgc g" "gc_sweepstrgc g' = gc_sweepstrgc g" "gc_sweepgc g' = gc_sweepgc g"
    by (simp_all add: g'_def luaM_freemem_def)
  have dG: "dead ?G p" "alloc ?G p" "\<not> open_uv ?G p" using d s by (simp_all add: dead_def alloc_def open_uv_def)
  have ds: "distinct (concat ((gc_strt g)[i := pre @ p # ch]))" using lists_ok_parts(3) [OF base_parts(3) [OF b]] by simp
  have "base_inv (at_chain i (pre @ ch) g') \<and> keeps_live ?G (at_chain i (pre @ ch) g')"
    by (rule free_base [OF b dG(2,1,3)])
      (use s ds i in \<open>auto simp: fs tag_defs concat_update\<close>)
  with f fs show ?thesis by blast
qed

lemma sweep_chain_ok:
  assumes "base_inv (at_chain i (pre @ ch) g)" "i < length (gc_strt g)"
  shows "\<exists>ps g'. sweepwholelist g ch = Inr (ps, g') \<and> base_inv (at_chain i (pre @ ps) g') \<and>
    keeps_live (at_chain i (pre @ ch) g) (at_chain i (pre @ ps) g') \<and> (\<forall>p \<in> set ps. clean g' p) \<and>
    gc_strt g' = gc_strt g \<and> gc_rootgc g' = gc_rootgc g \<and> gc_sweepstrgc g' = gc_sweepstrgc g \<and> gc_sweepgc g' = gc_sweepgc g"
  using assms
proof (induction ch arbitrary: pre g)
  case Nil
  then show ?case by simp
next
  case (Cons p ch)
  let ?G = "at_chain i (pre @ p # ch) g"
  note bp = base_parts [OF Cons.prems(1)] and i = Cons.prems(2)
  have "p \<in> set (concat (gc_strt ?G))" using i by (simp add: concat_update)
  with lists_ok_parts(6) [OF bp(3)] have "gch_tt (gc_heap g p) = LUA_TSTRING" by simp
  then obtain s x where hp: "gc_heap g p = OStr s x" by (auto simp: gch_tt_cases)
  have nt: "gch_tt (gc_heap g p) \<noteq> LUA_TTHREAD" using hp by (simp add: tag_defs)
  have nd: "notdead ?G p = notdead g p" "dead ?G p = dead g p" by (simp_all add: notdead_def dead_def)
  show ?case
  proof (cases "notdead g p")
    case True
    have "base_inv (makewhite ?G p) \<and> clean (makewhite ?G p) p \<and> keeps_live ?G (makewhite ?G p)"
      by (rule makewhite_base [OF Cons.prems(1)]) (use hp True nd in \<open>simp_all add: alloc_def\<close>)
    moreover have "clean (makewhite ?G p) p = clean (makewhite g p) p"
      by (rule clean_colours) (simp_all add: makewhite_def)
    ultimately have w: "base_inv (at_chain i ((pre @ [p]) @ ch) (makewhite g p))" "clean (makewhite g p) p"
      "keeps_live ?G (at_chain i ((pre @ [p]) @ ch) (makewhite g p))"
      by (simp_all add: at_chain_makewhite)
    from Cons.IH [OF w(1)] i obtain ps g' where r: "sweepwholelist (makewhite g p) ch = Inr (ps, g')"
      "base_inv (at_chain i ((pre @ [p]) @ ps) g')"
      "keeps_live (at_chain i ((pre @ [p]) @ ch) (makewhite g p)) (at_chain i ((pre @ [p]) @ ps) g')"
      "\<forall>q \<in> set ps. clean g' q"
      "gc_strt g' = gc_strt g \<and> gc_rootgc g' = gc_rootgc g \<and> gc_sweepstrgc g' = gc_sweepstrgc g \<and> gc_sweepgc g' = gc_sweepgc g"
      by (auto simp: makewhite_def)
    have "clean (at_chain i ((pre @ [p]) @ ps) g') p"
      using r(3) w(2) clean_colours [of "at_chain i ((pre @ [p]) @ ch) (makewhite g p)" "makewhite g p" p]
      by (simp add: keeps_live_def)
    then have "clean g' p" using clean_colours [of "at_chain i ((pre @ [p]) @ ps) g'" g' p] by simp
    with r(1,2,4,5) nt True keeps_live_trans [OF w(3) r(3)] show ?thesis by auto
  next
    case False
    with notdead_iff [of g p] bp(1) have "dead g p" by simp
    from free_string [OF Cons.prems(1) i this hp] obtain h where h: "freeobj g p = Inr h" "base_inv (at_chain i (pre @ ch) h)"
      "keeps_live ?G (at_chain i (pre @ ch) h)"
      "gc_strt h = gc_strt g \<and> gc_rootgc h = gc_rootgc g \<and> gc_sweepstrgc h = gc_sweepstrgc g \<and> gc_sweepgc h = gc_sweepgc g" by blast
    from Cons.IH [OF h(2)] i h(4) obtain ps g' where r: "sweepwholelist h ch = Inr (ps, g')"
      "base_inv (at_chain i (pre @ ps) g')" "keeps_live (at_chain i (pre @ ch) h) (at_chain i (pre @ ps) g')"
      "\<forall>q \<in> set ps. clean g' q"
      "gc_strt g' = gc_strt g \<and> gc_rootgc g' = gc_rootgc g \<and> gc_sweepstrgc g' = gc_sweepstrgc g \<and> gc_sweepgc g' = gc_sweepgc g"
      by auto
    with h(1) nt False keeps_live_trans [OF h(3) r(3)] show ?thesis by auto
  qed
qed

section \<open>Open upvalues\<close>

text \<open>The open upvalue \<open>u\<close> leaves the list of its thread: it is dead and freed, or it is closed.\<close>

lemma unlink_upval:
  assumes b: "base_inv g" and t: "gc_heap g l = OThr t" "th_openupval t = pre @ u # us"
    and x: "x = OFree \<and> dead g u \<and> gc_rootgc h = gc_rootgc g \<or>
      x = OUpval None y \<and> upval_value g u = Inr y \<and> gc_rootgc h = u # gc_rootgc g"
    and h: "gc_heap h = (gc_heap g)(u := x, l := OThr (t\<lparr>th_openupval := pre @ us\<rparr>))" "gc_marked h = gc_marked g"
      "gc_currentwhite h = gc_currentwhite g" "gc_uvhead h = remove1 u (gc_uvhead g)" "gc_mainthread h = gc_mainthread g"
      "gc_L h = gc_L g" "gc_registry h = gc_registry g" "gc_mt h = gc_mt g" "gc_tmudata h = gc_tmudata g"
      "gc_gcstate h = gc_gcstate g" "gc_strt h = gc_strt g"
  shows "base_inv h \<and> keeps_live g h"
proof -
  note bp = base_parts [OF b] and lp = lists_ok_parts [OF base_parts(3) [OF b]]
  have tok: "thread_ok g l t" using bp(2) t(1) by (simp add: struct_def)
  obtain i z where u: "gc_heap g u = OUpval (Some (l, i)) z" "i < th_top t"
    using tok t(2) unfolding thread_ok_def by (metis in_set_conv_decomp)
  have ul: "u \<noteq> l" using u t(1) by auto
  have ts: "th_top t < length (th_stack t)" using tok by (simp add: thread_ok_def)
  have du: "distinct (pre @ u # us)" using tok t(2) by (simp add: thread_ok_def)
  let ?t = "t\<lparr>th_openupval := pre @ us\<rparr>"
  have hp: "gc_heap h q = (if q = l then OThr ?t else if q = u then x else gc_heap g q)" for q by (simp add: h(1))
  have xo: "\<not> open_uv h u" "x \<noteq> OThr t'" "x \<noteq> OTab tb" "x \<noteq> OUpval (Some a) w" for t' tb a w
    using x ul by (auto simp: open_uv_def hp)
  have op: "open_uv h q \<longleftrightarrow> q \<noteq> u \<and> open_uv g q" for q using xo(1) t(1) by (auto simp: open_uv_def hp)
  have ou: "open_uv g u" using u by (auto simp: open_uv_def)
  have tt: "gch_tt (gc_heap h q) = (if q = u then gch_tt x else gch_tt (gc_heap g q))" for q using t(1) ul by (simp add: hp)
  have tx: "gch_tt x = (if x = OFree then LUA_TNIL else LUA_TUPVAL)" using x by auto
  have al: "alloc h q \<longleftrightarrow> (if q = u then x \<noteq> OFree else alloc g q)" for q using t(1) ul by (auto simp: alloc_def hp)
  have slot: "slot_at (gc_heap h) th j = slot_at (gc_heap g) th j" for th j
    using t(1) u(1) xo(2) by (cases x) (auto simp: slot_at_def hp)
  have col: "dead h = dead g" "white h = white g" "black h = black g" by (intro ext; simp add: dead_def white_def black_def h)+
  have rts: "roots h = roots g" by (simp add: roots_def h)
  have rf: "refs h q = refs g q" if "q \<noteq> u" for q
  proof -
    have o: "obj_refs (gc_heap h) o' = obj_refs (gc_heap g) o'" for o'
      using slot by (cases "(gc_heap g, o')" rule: obj_refs.cases) auto
    have "obj_refs (gc_heap g) (OThr ?t) = obj_refs (gc_heap g) (OThr t)" by (simp add: thread_refs_def)
    with that o t(1) show ?thesis by (simp add: refs_def hp)
  qed
  have rfu: "refs h u = (if x = OFree then {} else refs g u)"
  proof -
    have "th_stack t ! i = y" if "upval_value g u = Inr y" for y
      using that u ts t(1) by (auto simp: upval_value_def uv_value_def)
    with x ul u ts t(1) show ?thesis by (auto simp: refs_def hp slot_at_def)
  qed
  have st: "struct h"
  proof -
    have "gc_heap h 0 = OFree"
      using bp(2) t(1) u(1) by (auto simp: struct_def hp)
    moreover have "thread_ok h q t'" if hq: "gc_heap h q = OThr t'" for q t'
    proof -
      obtain s where s: "gc_heap g q = OThr s" "t' = s\<lparr>th_openupval := th_openupval t'\<rparr>" "set (th_openupval t') = set (th_openupval s) - {u}"
        "distinct (th_openupval t')"
      proof (cases "q = l")
        case True
        with hq have "t' = ?t" by (simp add: hp)
        with True t du show ?thesis by (intro that [of t]) auto
      next
        case False
        with hq xo(2) have g: "gc_heap g q = OThr t'" by (auto simp: hp split: if_splits)
        with bp(2) have ok: "thread_ok g q t'" by (simp add: struct_def)
        then have "u \<notin> set (th_openupval t')" using u False by (force simp: thread_ok_def)
        with g ok show ?thesis by (intro that [of t']) (auto simp: thread_ok_def)
      qed
      have ok: "thread_ok g q s" using bp(2) s(1) by (simp add: struct_def)
      have f: "th_top t' = th_top s" "th_stack t' = th_stack s" "th_citops t' = th_citops s" by (subst s(2), simp)+
      have "\<exists>i x. gc_heap h v = OUpval (Some (q, i)) x \<and> i < th_top s" if "v \<in> set (th_openupval t')" for v
      proof -
        from that s(3) have v: "v \<in> set (th_openupval s)" "v \<noteq> u" by auto
        with ok obtain j w where "gc_heap g v = OUpval (Some (q, j)) w" "j < th_top s" unfolding thread_ok_def by blast
        with v(2) t(1) show ?thesis by (auto simp: hp)
      qed
      with ok s(4) show ?thesis unfolding thread_ok_def f by blast
    qed
    moreover have "\<exists>t'. gc_heap h th = OThr t' \<and> v \<in> set (th_openupval t')" if v: "gc_heap h v = OUpval (Some (th, j)) w" for v th j w
    proof -
      have vu: "v \<noteq> u" "gc_heap g v = OUpval (Some (th, j)) w" using v xo(4) ul by (auto simp: hp split: if_splits)
      with bp(2) obtain s where s: "gc_heap g th = OThr s" "v \<in> set (th_openupval s)" unfolding struct_def by metis
      with vu t u ul show ?thesis by (cases "th = l") (auto simp: hp)
    qed
    moreover have "set (gc_uvhead h) = {v. open_uv h v}" "distinct (gc_uvhead h)"
      using bp(2) by (auto simp: struct_def h(4) op)
    moreover have "tchain tb" if "gc_heap h q = OTab tb" for q tb
      using that bp(2) xo(3) by (auto simp: struct_def hp split: if_splits)
    ultimately show ?thesis unfolding struct_def by blast
  qed
  have um: "u \<noteq> gc_mainthread g" using lp(2,8) ou by auto
  have udl: "udata_list h = udata_list g" using x um h(5) by (auto simp: udata_list_def)
  have utm: "u \<notin> set (gc_tmudata g)" using lp(7) [of u] u(1) by (auto simp: tag_defs)
  have urt: "u \<notin> set (gc_rootgc g)" using lp(8) ou by auto
  have 1: "distinct (gc_rootgc h)" "gc_mainthread h \<in> set (gc_rootgc h)" using x lp(1,2) urt h(5) by auto
  have 2: "set (concat (gc_strt h)) = {q. gch_tt (gc_heap h q) = LUA_TSTRING}"
    unfolding h(11) lp(6) using tt u(1) tx by (auto simp: tag_defs)
  have 3: "set (gc_rootgc h) = {q. alloc h q \<and> gch_tt (gc_heap h q) \<noteq> LUA_TSTRING \<and> \<not> open_uv h q \<and> q \<notin> set (gc_tmudata h)}"
  proof (intro set_eqI)
    fix q show "q \<in> set (gc_rootgc h) \<longleftrightarrow> q \<in> {q. alloc h q \<and> gch_tt (gc_heap h q) \<noteq> LUA_TSTRING \<and> \<not> open_uv h q \<and> q \<notin> set (gc_tmudata h)}"
    proof (cases "q = u")
      case True
      with x urt utm show ?thesis by (auto simp: al op tt h(9) tag_defs)
    next
      case False
      have "q \<in> set (gc_rootgc g) \<longleftrightarrow> alloc g q \<and> gch_tt (gc_heap g q) \<noteq> LUA_TSTRING \<and> \<not> open_uv g q \<and> q \<notin> set (gc_tmudata g)"
        using lp(8) by blast
      moreover have "q \<in> set (gc_rootgc h) \<longleftrightarrow> q \<in> set (gc_rootgc g)" using x False by auto
      ultimately show ?thesis using False by (simp add: al op tt h(9))
    qed
  qed
  have 4: "set (udata_list h) = {q. gch_tt (gc_heap h q) = LUA_TUSERDATA \<and> q \<notin> set (gc_tmudata h)}"
    unfolding udl lp(9) h(9) using tt u(1) tx by (auto simp: tag_defs)
  have 5: "\<forall>q \<in> set (gc_tmudata h). gch_tt (gc_heap h q) = LUA_TUSERDATA" using lp(7) utm tt by (auto simp: h(9))
  have lo: "lists_ok h" using 1 2 3 4 5 lp(3-5) unfolding lists_ok_def h(9,11) by blast
  have ro: "ref_ok h r" if "ref_ok g r" "\<not> dead g (snd r)" for r
    using that x u(1) by (auto simp: ref_ok_def tt)
  have lc: "live_closed h"
  proof (rule live_closedI)
    fix q r assume q: "alloc h q" "\<not> dead h q" "r \<in> refs h q"
    then have "alloc g q" "\<not> dead g q" "r \<in> refs g q"
      using rf [of q] rfu al [of q] u(1) by (auto simp: col alloc_def split: if_splits)
    with live_parts(1,2) [OF bp(4), of q r] ro show "ref_ok h r \<and> \<not> dead h (snd r)" by (simp add: col)
  next
    fix r assume "r \<in> roots h"
    with live_parts(3,4) [OF bp(4), of r] ro show "ref_ok h r \<and> \<not> dead h (snd r)" by (simp add: col rts)
  next
    fix v assume "v \<in> set (gc_tmudata h)"
    with live_parts(5) [OF bp(4), of v] show "\<not> dead h v" by (simp add: col h(9))
  qed
  have ag: "alloc g q" if "alloc h q" for q using that al [of q] u(1) by (auto simp: alloc_def split: if_splits)
  have bl: "black_ok h"
  proof -
    have "\<not> black h q" if "alloc h q" "white h q" for q using bp(5) ag [OF that(1)] that(2) by (simp add: black_ok_def col)
    moreover have "\<not> open_uv h q \<and> gch_tt (gc_heap h q) \<noteq> LUA_TTHREAD" if "black h q" for q
      using bp(5) that op [of q] tt [of q] tx by (auto simp: black_ok_def col tag_defs)
    ultimately show ?thesis by (simp add: black_ok_def)
  qed
  have fx: "fixed_ok h"
  proof (unfold fixed_ok_def, intro allI impI)
    fix q assume q: "alloc h q \<and> bit (gc_marked h q) 5"
    with bp(6) ag have "gch_tt (gc_heap g q) = LUA_TSTRING \<or> q = gc_mainthread g" by (simp add: fixed_ok_def h(2))
    with u(1) tt [of q] h(5) um show "gch_tt (gc_heap h q) = LUA_TSTRING \<or> q = gc_mainthread h" by (auto simp: tag_defs)
  qed
  have "keeps_live g h"
  proof -
    have "gch_tt (gc_heap h q) = gch_tt (gc_heap g q) \<and> refs h q = refs g q" if "\<not> dead g q" for q
      using that x u(1) rf [of q] rfu tt [of q] by (cases "q = u") auto
    moreover have "gch_tt (gc_heap h q) = gch_tt (gc_heap g q)" if "alloc h q" for q
      using that x u(1) tt [of q] al [of q] by (cases "q = u") auto
    moreover have "gc_heap g v = OUpval (Some a) w" if "gc_heap h v = OUpval (Some a) w" for v a w
      using that xo(4) [of a w] by (simp add: hp split: if_splits)
    ultimately show ?thesis unfolding keeps_live_def using rts h(3,5,6,9,10) by (simp add: col clean_def)
  qed
  with st lo lc bl fx bp(1) h(3) show ?thesis by (simp add: base_inv_def)
qed

text \<open>The lists that sweeping an object of the list of all objects leaves.\<close>

definition same_lists :: "gstate \<Rightarrow> gstate \<Rightarrow> bool" where
  "same_lists g g' \<longleftrightarrow> gc_strt g' = gc_strt g \<and> gc_rootgc g' = gc_rootgc g \<and> gc_sweepstrgc g' = gc_sweepstrgc g \<and>
     gc_sweepgc g' = gc_sweepgc g"

definition with_ups :: "gstate \<Rightarrow> ptr \<Rightarrow> Thread \<Rightarrow> ptr list \<Rightarrow> gstate" where
  "with_ups g l t us = set_heap g l (OThr (t\<lparr>th_openupval := us\<rparr>))"

lemma with_ups_colours:
  "clean (with_ups g l t us) p = clean g p" "dead (with_ups g l t us) p = dead g p" "notdead (with_ups g l t us) p = notdead g p"
  "gc_currentwhite (with_ups g l t us) = gc_currentwhite g" "gc_marked (with_ups g l t us) = gc_marked g"
  by (simp_all add: with_ups_def clean_def white_def dead_def notdead_def)

lemma sweep_ups_ok:
  assumes "base_inv (with_ups g l t (pre @ us))" "gc_heap g l = OThr t"
  shows "\<exists>ps g'. sweepwholelist g us = Inr (ps, g') \<and> gc_heap g' l = OThr t \<and> base_inv (with_ups g' l t (pre @ ps)) \<and>
    keeps_live (with_ups g l t (pre @ us)) (with_ups g' l t (pre @ ps)) \<and> (\<forall>p \<in> set ps. clean g' p) \<and> same_lists g g'"
  using assms
proof (induction us arbitrary: pre g)
  case Nil
  then show ?case by (simp add: same_lists_def)
next
  case (Cons u us)
  let ?G = "with_ups g l t (pre @ u # us)"
  have b: "base_inv ?G" by (rule Cons.prems(1))
  note bp = base_parts [OF b]
  have hl: "gc_heap ?G l = OThr (t\<lparr>th_openupval := pre @ u # us\<rparr>)" by (simp add: with_ups_def)
  with bp(2) have "thread_ok ?G l (t\<lparr>th_openupval := pre @ u # us\<rparr>)" by (simp add: struct_def)
  then obtain i z where "gc_heap ?G u = OUpval (Some (l, i)) z" unfolding thread_ok_def by auto
  then have hu: "gc_heap g u = OUpval (Some (l, i)) z" "u \<noteq> l" by (auto simp: with_ups_def split: if_splits)
  have nt: "gch_tt (gc_heap g u) \<noteq> LUA_TTHREAD" using hu by (simp add: tag_defs)
  show ?case
  proof (cases "notdead g u")
    case True
    have "base_inv (makewhite ?G u) \<and> clean (makewhite ?G u) u \<and> keeps_live ?G (makewhite ?G u)"
      by (rule makewhite_base [OF b]) (use hu True in \<open>simp_all add: alloc_def with_ups_colours\<close>, simp add: with_ups_def)
    moreover have "makewhite ?G u = with_ups (makewhite g u) l t ((pre @ [u]) @ us)"
      by (simp add: makewhite_def with_ups_def set_marked_def set_heap_def)
    ultimately have w: "base_inv (with_ups (makewhite g u) l t ((pre @ [u]) @ us))" "clean (makewhite g u) u"
      "keeps_live ?G (with_ups (makewhite g u) l t ((pre @ [u]) @ us))"
      by (simp_all add: with_ups_colours)
    have "gc_heap (makewhite g u) l = OThr t" using Cons.prems(2) by (simp add: makewhite_def)
    from Cons.IH [OF w(1) this] obtain ps g' where r: "sweepwholelist (makewhite g u) us = Inr (ps, g')" "gc_heap g' l = OThr t"
      "base_inv (with_ups g' l t ((pre @ [u]) @ ps))"
      "keeps_live (with_ups (makewhite g u) l t ((pre @ [u]) @ us)) (with_ups g' l t ((pre @ [u]) @ ps))"
      "\<forall>p \<in> set ps. clean g' p" "same_lists (makewhite g u) g'" by blast
    have "clean (with_ups g' l t ((pre @ [u]) @ ps)) u"
      using r(4) w(2) by (simp add: keeps_live_def with_ups_colours)
    then have "clean g' u" by (simp add: with_ups_colours)
    moreover have "same_lists g g'" using r(6) by (simp add: same_lists_def makewhite_def)
    ultimately show ?thesis using r(1-5) nt True keeps_live_trans [OF w(3) r(4)] by auto
  next
    case False
    then have d: "dead ?G u" using notdead_iff [of g u] bp(1) by (simp add: with_ups_colours)
    define h where "h = luaM_freemem (set_heap (unlinkupval g u) u OFree) sizeof_UpVal"
    have f: "freeobj g u = Inr h" using hu by (simp add: freeobj_def luaF_freeupval_def h_def)
    have "base_inv (with_ups h l t (pre @ us)) \<and> keeps_live ?G (with_ups h l t (pre @ us))"
      by (rule unlink_upval [OF b hl, where pre = pre and u = u and us = us and x = OFree])
        (use d hu(2) in \<open>auto simp: with_ups_def h_def luaM_freemem_def unlinkupval_def\<close>)
    moreover have hl': "gc_heap h l = OThr t" "same_lists g h"
      using Cons.prems(2) hu(2) by (simp_all add: h_def luaM_freemem_def unlinkupval_def same_lists_def)
    ultimately have w: "base_inv (with_ups h l t (pre @ us))" "keeps_live ?G (with_ups h l t (pre @ us))" by blast+
    from Cons.IH [OF w(1) hl'(1)] obtain ps g' where r: "sweepwholelist h us = Inr (ps, g')" "gc_heap g' l = OThr t"
      "base_inv (with_ups g' l t (pre @ ps))" "keeps_live (with_ups h l t (pre @ us)) (with_ups g' l t (pre @ ps))"
      "\<forall>p \<in> set ps. clean g' p" "same_lists h g'" by blast
    with f nt False hl'(2) keeps_live_trans [OF w(2) r(4)] show ?thesis by (auto simp: same_lists_def)
  qed
qed

lemma with_ups_id: "gc_heap g l = OThr t \<Longrightarrow> with_ups g l t (th_openupval t) = g"
  by (simp add: with_ups_def set_heap_def fun_upd_idem)

lemma sweep_upvals_ok:
  assumes b: "base_inv g" and t: "gc_heap g l = OThr t"
  shows "\<exists>g' t'. sweep_upvals g l = Inr g' \<and> base_inv g' \<and> keeps_live g g' \<and> gc_heap g' l = OThr t' \<and>
    (\<forall>u \<in> set (th_openupval t'). clean g' u) \<and> same_lists g g'"
proof -
  have "base_inv (with_ups g l t ([] @ th_openupval t))" using b with_ups_id [OF t] by simp
  from sweep_ups_ok [OF this t] obtain ps g' where r: "sweepwholelist g (th_openupval t) = Inr (ps, g')" "gc_heap g' l = OThr t"
    "base_inv (with_ups g' l t ps)" "keeps_live g (with_ups g' l t ps)" "\<forall>p \<in> set ps. clean g' p" "same_lists g g'"
    using with_ups_id [OF t] by auto
  let ?h = "with_ups g' l t ps"
  have "sweep_upvals g l = Inr ?h" using t r(1,2) by (simp add: sweep_upvals_def thread_at_def with_ups_def)
  moreover have "gc_heap ?h l = OThr (t\<lparr>th_openupval := ps\<rparr>)" by (simp add: with_ups_def)
  moreover have "\<forall>u \<in> set ps. clean ?h u" using r(5) by (simp add: with_ups_colours)
  moreover have "same_lists g ?h" using r(6) by (simp add: same_lists_def with_ups_def)
  ultimately show ?thesis using r(3,4) by force
qed

section \<open>Freeing a thread\<close>

text \<open>The upvalues left are live: they are closed and enter the list of all objects. \<open>r\<close> is the list
  without the thread.\<close>

lemma close_loop_clean:
  assumes "base_inv g" "gc_heap g l = OThr (t\<lparr>th_openupval := us\<rparr>)" "\<forall>u \<in> set us. clean g u"
  shows "\<exists>vs g'. close_loop (g\<lparr>gc_rootgc := r\<rparr>) l 0 us = Inr (g'\<lparr>gc_rootgc := vs @ r\<rparr>) \<and> base_inv g' \<and> keeps_live g g' \<and>
    gc_rootgc g' = vs @ gc_rootgc g \<and> gc_heap g' l = OThr (t\<lparr>th_openupval := []\<rparr>) \<and> gc_marked g' = gc_marked g \<and>
    (\<forall>v \<in> set vs. clean g v \<and> gch_tt (gc_heap g' v) \<noteq> LUA_TTHREAD) \<and>
    gc_strt g' = gc_strt g \<and> gc_sweepstrgc g' = gc_sweepstrgc g \<and> gc_sweepgc g' = gc_sweepgc g"
  using assms
proof (induction us arbitrary: g r)
  case Nil
  then show ?case by (intro exI [of _ "[]"] exI [of _ g]) simp
next
  case (Cons u us)
  note bp = base_parts [OF Cons.prems(1)] and hl = Cons.prems(2)
  have tok: "thread_ok g l (t\<lparr>th_openupval := u # us\<rparr>)" using bp(2) hl by (simp add: struct_def)
  then obtain i z where u: "gc_heap g u = OUpval (Some (l, i)) z" "i < th_top t" "th_top t < length (th_stack t)"
    unfolding thread_ok_def by auto
  have ul: "u \<noteq> l" using u hl by auto
  have cu: "clean g u" using Cons.prems(3) by simp
  let ?y = "th_stack t ! i"
  have y: "upval_value g u = Inr ?y" using u hl by (simp add: upval_value_def uv_value_def)
  define h where "h = set_heap (set_heap ((unlinkupval g u)\<lparr>gc_rootgc := u # gc_rootgc g\<rparr>) u (OUpval None ?y)) l (OThr (t\<lparr>th_openupval := us\<rparr>))"
  have hs: "gc_strt h = gc_strt g" "gc_sweepstrgc h = gc_sweepstrgc g" "gc_sweepgc h = gc_sweepgc g" "gc_rootgc h = u # gc_rootgc g"
    "gc_marked h = gc_marked g" "gc_currentwhite h = gc_currentwhite g" "gc_heap h l = OThr (t\<lparr>th_openupval := us\<rparr>)"
    "gc_heap h u = OUpval None ?y"
    using ul by (simp_all add: h_def unlinkupval_def)
  have b: "base_inv h \<and> keeps_live g h"
    by (rule unlink_upval [OF Cons.prems(1) hl, where pre = "[]" and u = u and us = us and x = "OUpval None ?y" and y = ?y])
      (use y in \<open>simp_all add: h_def unlinkupval_def\<close>)
  have cl: "clean h v = clean g v" for v by (rule clean_colours) (simp_all add: hs)
  from Cons.IH [OF conjunct1 [OF b] hs(7), where r = "u # r"] Cons.prems(3) cl obtain vs g' where
    v: "close_loop (h\<lparr>gc_rootgc := u # r\<rparr>) l 0 us = Inr (g'\<lparr>gc_rootgc := vs @ u # r\<rparr>)" "base_inv g'" "keeps_live h g'"
      "gc_rootgc g' = vs @ gc_rootgc h" "gc_heap g' l = OThr (t\<lparr>th_openupval := []\<rparr>)" "gc_marked g' = gc_marked h"
      "\<forall>v \<in> set vs. clean h v \<and> gch_tt (gc_heap g' v) \<noteq> LUA_TTHREAD"
      "gc_strt g' = gc_strt h" "gc_sweepstrgc g' = gc_sweepstrgc h" "gc_sweepgc g' = gc_sweepgc h"
    by auto
  have nd: "\<not> dead g u" "white g u" using cu by (simp_all add: clean_def)
  have "close_loop (g\<lparr>gc_rootgc := r\<rparr>) l 0 (u # us) = close_loop (h\<lparr>gc_rootgc := u # r\<rparr>) l 0 us"
  proof -
    let ?k = "set_heap (g\<lparr>gc_rootgc := r\<rparr>) l (OThr (t\<lparr>th_openupval := us\<rparr>))"
    have 1: "uv_level (g\<lparr>gc_rootgc := r\<rparr>) u = Inr i" "thread_at (g\<lparr>gc_rootgc := r\<rparr>) l = Inr (t\<lparr>th_openupval := u # us\<rparr>)"
      using u hl by (simp_all add: uv_level_def thread_at_def)
    have 2: "\<not> dead ?k u" using nd by (simp add: dead_def)
    have 3: "upval_value (unlinkupval ?k u) u = Inr ?y" using u ul by (simp add: upval_value_def uv_value_def unlinkupval_def)
    have "luaC_linkupval (set_heap (unlinkupval ?k u) u (OUpval None ?y)) u = Inr (h\<lparr>gc_rootgc := u # r\<rparr>)"
      using nd(2) ul by (simp add: luaC_linkupval_def isgray_obj_def isgray_def white_def h_def unlinkupval_def set_heap_def fun_upd_twist)
    with 1 2 3 show ?thesis by (simp add: Let_def)
  qed
  moreover have "clean g u \<and> gch_tt (gc_heap g' u) \<noteq> LUA_TTHREAD"
  proof -
    have "alloc h u" "\<not> dead h u" using hs(8) cl [of u] cu by (simp_all add: alloc_def clean_def)
    with v(3) have "gch_tt (gc_heap g' u) = gch_tt (gc_heap h u)" by (simp add: keeps_live_def)
    with hs(8) cu show ?thesis by (simp add: tag_defs)
  qed
  ultimately show ?case
    using v hs cl keeps_live_trans [OF conjunct2 [OF b] v(3)]
    by (intro exI [of _ "vs @ [u]"] exI [of _ g']) auto
qed

lemma free_thread:
  assumes b: "base_inv g" and t: "gc_heap g l = OThr t" and d: "dead g l" and u: "\<forall>u \<in> set (th_openupval t). clean g u"
  shows "\<exists>vs g'. freeobj (g\<lparr>gc_rootgc := remove1 l (gc_rootgc g)\<rparr>) l = Inr g' \<and> base_inv g' \<and> keeps_live g g' \<and>
    gc_rootgc g' = vs @ remove1 l (gc_rootgc g) \<and> (\<forall>v \<in> set vs. clean g' v \<and> gch_tt (gc_heap g' v) \<noteq> LUA_TTHREAD) \<and>
    gc_strt g' = gc_strt g \<and> gc_sweepstrgc g' = gc_sweepstrgc g \<and> gc_sweepgc g' = gc_sweepgc g"
proof -
  let ?r = "remove1 l (gc_rootgc g)"
  have t': "gc_heap g l = OThr (t\<lparr>th_openupval := th_openupval t\<rparr>)" using t by simp
  from close_loop_clean [OF b t' u, where r = ?r] obtain vs h where
    h: "close_loop (g\<lparr>gc_rootgc := ?r\<rparr>) l 0 (th_openupval t) = Inr (h\<lparr>gc_rootgc := vs @ ?r\<rparr>)" "base_inv h" "keeps_live g h"
      "gc_rootgc h = vs @ gc_rootgc g" "gc_heap h l = OThr (t\<lparr>th_openupval := []\<rparr>)" "gc_marked h = gc_marked g"
      "\<forall>v \<in> set vs. clean g v \<and> gch_tt (gc_heap h v) \<noteq> LUA_TTHREAD"
      "gc_strt h = gc_strt g" "gc_sweepstrgc h = gc_sweepstrgc g" "gc_sweepgc h = gc_sweepgc g" by blast
  let ?n = "th_size_ci t * sizeof_CallInfo + length (th_stack t) * sizeof_TValue + sizeof_lua_State"
  define g' where "g' = luaM_freemem (set_heap (h\<lparr>gc_rootgc := vs @ ?r\<rparr>) l OFree) ?n"
  have f: "freeobj (g\<lparr>gc_rootgc := ?r\<rparr>) l = Inr g'"
    using t h(1,5) by (simp add: freeobj_def luaE_freethread_def luaF_close_def thread_at_def g'_def)
  have fs: "gc_heap g' = (gc_heap h)(l := OFree)" "gc_marked g' = gc_marked h" "gc_currentwhite g' = gc_currentwhite h"
    "gc_uvhead g' = gc_uvhead h" "gc_mainthread g' = gc_mainthread h" "gc_L g' = gc_L h" "gc_registry g' = gc_registry h"
    "gc_mt g' = gc_mt h" "gc_tmudata g' = gc_tmudata h" "gc_gcstate g' = gc_gcstate h" "gc_strt g' = gc_strt h"
    "gc_rootgc g' = vs @ ?r" "gc_sweepstrgc g' = gc_sweepstrgc h" "gc_sweepgc g' = gc_sweepgc h"
    by (simp_all add: g'_def luaM_freemem_def)
  have cw: "gc_currentwhite h = gc_currentwhite g" using h(3) by (simp add: keeps_live_def)
  have dh: "dead h l" using d h(6) cw by (simp add: dead_def)
  have lv: "l \<notin> set vs" using h(7) d by (auto simp: clean_def)
  have "base_inv g' \<and> keeps_live h g'"
    by (rule free_base [OF h(2) _ dh]) (use h(4,5) lv in \<open>auto simp: fs alloc_def open_uv_def tag_defs remove1_append\<close>)
  moreover have "clean g' v" if "v \<in> set vs" for v
    using h(7) that clean_colours [of g' g v] fs(2,3) h(6) cw by simp
  ultimately show ?thesis
    using f fs h(7-10) keeps_live_trans [OF h(3)] lv by (intro exI [of _ vs] exI [of _ g']) (auto simp: fs tag_defs)
qed

section \<open>The list of all objects\<close>

lemma free_root:
  assumes b: "base_inv g" and p: "p \<in> set (gc_rootgc g)" "dead g p"
    and u: "\<And>t. gc_heap g p = OThr t \<Longrightarrow> \<forall>u \<in> set (th_openupval t). clean g u"
  shows "\<exists>vs g'. freeobj (g\<lparr>gc_rootgc := remove1 p (gc_rootgc g)\<rparr>) p = Inr g' \<and> base_inv g' \<and> keeps_live g g' \<and>
    gc_rootgc g' = vs @ remove1 p (gc_rootgc g) \<and> (\<forall>v \<in> set vs. clean g' v \<and> gch_tt (gc_heap g' v) \<noteq> LUA_TTHREAD) \<and>
    gc_strt g' = gc_strt g \<and> gc_sweepstrgc g' = gc_sweepstrgc g \<and> gc_sweepgc g' = gc_sweepgc g"
proof (cases "\<exists>t. gc_heap g p = OThr t")
  case True
  then obtain t where "gc_heap g p = OThr t" by blast
  from free_thread [OF b this p(2) u [OF this]] show ?thesis .
next
  case False
  let ?r = "remove1 p (gc_rootgc g)"
  have q: "alloc g p" "gch_tt (gc_heap g p) \<noteq> LUA_TSTRING" "\<not> open_uv g p"
    using lists_ok_parts(8) [OF base_parts(3) [OF b]] p(1) by auto
  have "\<exists>n. freeobj (g\<lparr>gc_rootgc := ?r\<rparr>) p = Inr (luaM_freemem (set_heap (g\<lparr>gc_rootgc := ?r\<rparr>) p OFree) n)"
    using q False by (cases "gc_heap g p")
      (auto simp: freeobj_def alloc_def open_uv_def luaF_freeproto_def luaF_freeclosure_def luaF_freeupval_def luaH_free_def)
  then obtain n where f: "freeobj (g\<lparr>gc_rootgc := ?r\<rparr>) p = Inr (luaM_freemem (set_heap (g\<lparr>gc_rootgc := ?r\<rparr>) p OFree) n)" by blast
  let ?h = "luaM_freemem (set_heap (g\<lparr>gc_rootgc := ?r\<rparr>) p OFree) n"
  have "base_inv ?h \<and> keeps_live g ?h"
    by (rule free_base [OF b q(1) p(2) q(3)]) (use False q(2) in \<open>simp_all add: luaM_freemem_def\<close>)
  with f show ?thesis by (intro exI [of _ "[]"] exI [of _ ?h]) (simp add: luaM_freemem_def)
qed

definition before_pos :: "gstate \<Rightarrow> ptr option \<Rightarrow> ptr list" where
  "before_pos g pos = (case pos of None \<Rightarrow> [] | Some q \<Rightarrow> takeWhile (\<lambda>p. p \<noteq> q) (gc_rootgc g) @ [q])"

text \<open>The objects before the position are swept, and the open upvalues of the threads among them.\<close>

definition swept :: "gstate \<Rightarrow> ptr option \<Rightarrow> bool" where
  "swept g pos \<longleftrightarrow> (\<forall>q. pos = Some q \<longrightarrow> q \<in> set (gc_rootgc g)) \<and> (\<forall>p \<in> set (before_pos g pos). clean g p) \<and>
     (\<forall>u th i x. gc_heap g u = OUpval (Some (th, i)) x \<and> th \<in> set (before_pos g pos) \<longrightarrow> clean g u)"

lemma pos_split:
  assumes "\<And>q. pos = Some q \<Longrightarrow> q \<in> set (gc_rootgc g)"
  shows "gc_rootgc g = before_pos g pos @ at_pos g pos"
proof (cases pos)
  case None
  then show ?thesis by (simp add: before_pos_def at_pos_def)
next
  case (Some q)
  with assms obtain x xs where d: "dropWhile (\<lambda>p. p \<noteq> q) (gc_rootgc g) = x # xs"
    by (cases "dropWhile (\<lambda>p. p \<noteq> q) (gc_rootgc g)") (auto simp: dropWhile_eq_Nil_conv)
  then have "x = q" using hd_dropWhile [of "\<lambda>p. p \<noteq> q" "gc_rootgc g"] by simp
  with d Some show ?thesis
    using takeWhile_dropWhile_id [of "\<lambda>p. p \<noteq> q" "gc_rootgc g"] by (simp add: before_pos_def at_pos_def)
qed

lemma before_pos_Some: "gc_rootgc g = xs @ q # ys \<Longrightarrow> q \<notin> set xs \<Longrightarrow> before_pos g (Some q) = xs @ [q]"
proof -
  assume a: "gc_rootgc g = xs @ q # ys" "q \<notin> set xs"
  then have "x \<noteq> q" if "x \<in> set xs" for x using that by blast
  from takeWhile_append2 [of xs "\<lambda>p. p \<noteq> q", OF this] a(1) show ?thesis by (simp add: before_pos_def)
qed

lemma before_pos_cong: "gc_rootgc h = gc_rootgc g \<Longrightarrow> before_pos h pos = before_pos g pos"
  by (cases pos) (simp_all add: before_pos_def)

lemma at_pos_cong: "gc_rootgc h = gc_rootgc g \<Longrightarrow> at_pos h pos = at_pos g pos"
  by (cases pos) (simp_all add: at_pos_def)

lemma swept_keeps:
  assumes "swept g pos" "keeps_live g h" "gc_rootgc h = gc_rootgc g"
  shows "swept h pos"
  using assms unfolding swept_def before_pos_cong [OF assms(3)] assms(3) keeps_live_def by blast

lemma thread_upvals:
  assumes "struct g" "gc_heap g u = OUpval (Some (th, i)) x" "gc_heap g th = OThr t"
  shows "u \<in> set (th_openupval t)"
  using assms unfolding struct_def by (metis GCObj.inject(7))

text \<open>One object is swept: it gets the current white, or it is freed.\<close>

lemma sweep_one:
  assumes b: "base_inv g" and s: "swept g pos" and a: "at_pos g pos = cur # rest"
    and u: "\<And>t. gc_heap g cur = OThr t \<Longrightarrow> \<forall>u \<in> set (th_openupval t). clean g u"
  shows "if notdead g cur then base_inv (makewhite g cur) \<and> keeps_live g (makewhite g cur) \<and> swept (makewhite g cur) (Some cur)
    else \<exists>g'. freeobj (g\<lparr>gc_rootgc := remove1 cur (gc_rootgc g)\<rparr>) cur = Inr g' \<and> base_inv g' \<and> keeps_live g g' \<and> swept g' pos \<and>
      gc_strt g' = gc_strt g \<and> gc_sweepstrgc g' = gc_sweepstrgc g"
proof -
  note bp = base_parts [OF b] and lp = lists_ok_parts [OF base_parts(3) [OF b]]
  have r: "gc_rootgc g = before_pos g pos @ cur # rest" using pos_split [of pos g] s a by (simp add: swept_def)
  have d: "distinct (before_pos g pos @ cur # rest)" using lp(1) r by simp
  have cu: "clean g v" if "gc_heap g v = OUpval (Some (cur, i)) x" for v i x
  proof -
    from bp(2) that obtain t where "gc_heap g cur = OThr t" "v \<in> set (th_openupval t)" unfolding struct_def by metis
    with u show ?thesis by blast
  qed
  show ?thesis
  proof (cases "notdead g cur")
    case True
    have al: "alloc g cur" using lp(8) r by auto
    note w = makewhite_base [OF b al True]
    have rt: "gc_rootgc (makewhite g cur) = before_pos g pos @ cur # rest" using r by (simp add: makewhite_def)
    have bf: "before_pos (makewhite g cur) (Some cur) = before_pos g pos @ [cur]"
      by (rule before_pos_Some [OF rt]) (use d in simp)
    have cl: "clean (makewhite g cur) p" if "clean g p \<or> p = cur" for p using w that by (auto simp: keeps_live_def)
    have "swept (makewhite g cur) (Some cur)"
      unfolding swept_def bf rt
    proof (intro conjI allI impI ballI)
      fix v th i x assume v: "gc_heap (makewhite g cur) v = OUpval (Some (th, i)) x \<and> th \<in> set (before_pos g pos @ [cur])"
      then have hv: "gc_heap g v = OUpval (Some (th, i)) x" by (simp add: makewhite_def)
      have "clean g v" using v hv s cu [of v i x] by (cases "th = cur") (auto simp: swept_def)
      then show "clean (makewhite g cur) v" using cl by blast
    qed (use s cl in \<open>auto simp: swept_def\<close>)
    with w True show ?thesis by simp
  next
    case False
    then have dd: "dead g cur" using notdead_iff [OF bp(1)] by simp
    from free_root [OF b _ dd u] r obtain vs g' where
      g': "freeobj (g\<lparr>gc_rootgc := remove1 cur (gc_rootgc g)\<rparr>) cur = Inr g'" "base_inv g'" "keeps_live g g'"
        "gc_rootgc g' = vs @ remove1 cur (gc_rootgc g)" "\<forall>v \<in> set vs. clean g' v \<and> gch_tt (gc_heap g' v) \<noteq> LUA_TTHREAD"
        "gc_strt g' = gc_strt g" "gc_sweepstrgc g' = gc_sweepstrgc g" by auto
    have rt: "gc_rootgc g' = vs @ before_pos g pos @ rest" using g'(4) d r by (simp add: remove1_append)
    have d': "distinct (gc_rootgc g')" using lists_ok_parts(1) [OF base_parts(3) [OF g'(2)]] .
    have bf: "set (before_pos g' pos) \<subseteq> set vs \<union> set (before_pos g pos) \<and> (\<forall>q. pos = Some q \<longrightarrow> q \<in> set (gc_rootgc g'))"
    proof (cases pos)
      case (Some q)
      then have bq: "before_pos g pos = takeWhile (\<lambda>p. p \<noteq> q) (gc_rootgc g) @ [q]" by (simp add: before_pos_def)
      have rq: "gc_rootgc g' = (vs @ takeWhile (\<lambda>p. p \<noteq> q) (gc_rootgc g)) @ q # rest" using rt bq by simp
      have "before_pos g' (Some q) = (vs @ takeWhile (\<lambda>p. p \<noteq> q) (gc_rootgc g)) @ [q]"
        by (rule before_pos_Some [OF rq]) (use d' rq in simp)
      with Some bq rq show ?thesis by auto
    qed (simp add: before_pos_def)
    have cl: "clean g' p" if "clean g p \<or> p \<in> set vs" for p using g'(3,5) that by (auto simp: keeps_live_def)
    have "swept g' pos"
      unfolding swept_def
    proof (intro conjI allI impI ballI)
      fix q assume "pos = Some q"
      with bf show "q \<in> set (gc_rootgc g')" by blast
    next
      fix p assume "p \<in> set (before_pos g' pos)"
      with bf have "p \<in> set vs \<or> p \<in> set (before_pos g pos)" by blast
      with s cl show "clean g' p" by (auto simp: swept_def)
    next
      fix v th i x assume v: "gc_heap g' v = OUpval (Some (th, i)) x \<and> th \<in> set (before_pos g' pos)"
      then have "gch_tt (gc_heap g' th) = LUA_TTHREAD"
        using base_parts(2) [OF g'(2)] unfolding struct_def by (metis gch_tt.simps(8))
      with g'(5) v bf have "th \<in> set (before_pos g pos)" by blast
      moreover have "gc_heap g v = OUpval (Some (th, i)) x" using g'(3) v by (simp add: keeps_live_def)
      ultimately have "clean g v" using s by (auto simp: swept_def)
      with cl show "clean g' v" by blast
    qed
    with g' False show ?thesis by auto
  qed
qed

text \<open>Sweeping makes progress: the objects still to be swept become fewer, or the position moves on. (The closed
  upvalues of a freed thread enter the list of all objects.)\<close>

definition unswept :: "gstate \<Rightarrow> ptr set" where "unswept g = {p. alloc g p \<and> \<not> clean g p}"

definition sweep_work :: "gstate \<Rightarrow> ptr option \<Rightarrow> nat \<times> nat" where
  "sweep_work g pos = (card (unswept g), length (at_pos g pos))"

lemma unswept_keeps: "keeps_live g h \<Longrightarrow> unswept h \<subseteq> unswept g"
  using gch_tt_alloc by (auto simp: unswept_def keeps_live_def alloc_def)

lemma sweep_work_less:
  assumes k: "keeps_live g h" and d: "length (at_pos h pos') < length (at_pos g pos) \<or> (\<exists>p. alloc g p \<and> dead g p \<and> \<not> alloc h p)"
  shows "(sweep_work h pos', sweep_work g pos) \<in> less_than <*lex*> less_than"
proof -
  note s = unswept_keeps [OF k]
  have f: "finite (unswept g)" by simp
  have le: "card (unswept h) \<le> card (unswept g)" by (rule card_mono [OF f s])
  show ?thesis
    using d
  proof
    assume "\<exists>p. alloc g p \<and> dead g p \<and> \<not> alloc h p"
    then have "unswept h \<noteq> unswept g" unfolding unswept_def clean_def by blast
    with s have "card (unswept h) < card (unswept g)" by (intro psubset_card_mono f) blast
    then show ?thesis by (simp add: sweep_work_def)
  qed (use le in \<open>auto simp: sweep_work_def\<close>)
qed

lemma freeobj_frees:
  assumes "freeobj g p = Inr g'"
  shows "\<not> alloc g' p"
  using assms by (cases "gc_heap g p")
    (auto simp: freeobj_def alloc_def luaF_freeproto_def luaF_freeclosure_def luaF_freeupval_def luaE_freethread_def luaH_free_def
      luaM_freemem_def bindr_Inr_iff Let_def)

text \<open>One object of the list.\<close>

lemma sweeplist_step:
  assumes b: "base_inv g" and sw: "swept g pos" and a: "at_pos g pos = cur # rest"
  shows "\<exists>k pos'. (\<forall>n. sweeplist (Suc n) g pos = sweeplist n k pos') \<and> base_inv k \<and> keeps_live g k \<and> swept k pos' \<and>
    gc_strt k = gc_strt g \<and> gc_sweepstrgc k = gc_sweepstrgc g \<and>
    (sweep_work k pos', sweep_work g pos) \<in> less_than <*lex*> less_than"
proof -
  have "\<exists>h. (if gch_tt (gc_heap g cur) = LUA_TTHREAD then sweep_upvals g cur else Inr g) = Inr h \<and> base_inv h \<and> keeps_live g h \<and>
      same_lists g h \<and> (\<forall>t. gc_heap h cur = OThr t \<longrightarrow> (\<forall>u \<in> set (th_openupval t). clean h u))"
  proof (cases "gch_tt (gc_heap g cur) = LUA_TTHREAD")
    case True
    then obtain t where "gc_heap g cur = OThr t" by (auto simp: gch_tt_cases)
    from sweep_upvals_ok [OF b this] True show ?thesis by auto
  next
    case False
    with b show ?thesis by (intro exI [of _ g]) (auto simp: same_lists_def)
  qed
  then obtain h where h: "(if gch_tt (gc_heap g cur) = LUA_TTHREAD then sweep_upvals g cur else Inr g) = Inr h" "base_inv h"
    "keeps_live g h" "same_lists g h" "\<And>t. gc_heap h cur = OThr t \<Longrightarrow> \<forall>u \<in> set (th_openupval t). clean h u" by blast
  have rh: "gc_rootgc h = gc_rootgc g" using h(4) by (simp add: same_lists_def)
  have s: "swept h pos" by (rule swept_keeps [OF sw h(3) rh])
  have ah: "at_pos h pos = cur # rest" using a at_pos_cong [OF rh] by simp
  have al: "alloc h cur"
  proof -
    have "cur \<in> set (gc_rootgc h)" using pos_split [of pos h] s ah by (simp add: swept_def)
    then show ?thesis using lists_ok_parts(8) [OF base_parts(3) [OF h(2)]] by auto
  qed
  note one = sweep_one [OF h(2) s ah h(5)]
  show ?thesis
  proof (cases "notdead h cur")
    case True
    let ?k = "makewhite h cur"
    from True one have w: "base_inv ?k" "keeps_live h ?k" "swept ?k (Some cur)" by simp_all
    have r: "gc_rootgc h = before_pos h pos @ cur # rest" using pos_split [of pos h] s ah by (simp add: swept_def)
    have "distinct (gc_rootgc h)" using lists_ok_parts(1) [OF base_parts(3) [OF h(2)]] .
    with r have nc: "x \<noteq> cur" if "x \<in> set (before_pos h pos)" for x using that by auto
    have "dropWhile (\<lambda>p. p \<noteq> cur) (gc_rootgc h) = cur # rest"
      unfolding r using dropWhile_append2 [of "before_pos h pos" "\<lambda>p. p \<noteq> cur", OF nc] by simp
    then have "at_pos ?k (Some cur) = rest" by (simp add: at_pos_def makewhite_def)
    then have "(sweep_work ?k (Some cur), sweep_work g pos) \<in> less_than <*lex*> less_than"
      by (intro sweep_work_less keeps_live_trans [OF h(3) w(2)]) (simp add: a)
    moreover have "\<forall>n. sweeplist (Suc n) g pos = sweeplist n ?k (Some cur)" using a h(1) True by simp
    ultimately show ?thesis
      using w h(4) keeps_live_trans [OF h(3) w(2)] by (intro exI [of _ ?k] exI [of _ "Some cur"]) (simp add: same_lists_def makewhite_def)
  next
    case False
    with one obtain k where k: "freeobj (h\<lparr>gc_rootgc := remove1 cur (gc_rootgc h)\<rparr>) cur = Inr k" "base_inv k" "keeps_live h k"
      "swept k pos" "gc_strt k = gc_strt h" "gc_sweepstrgc k = gc_sweepstrgc h" by auto
    have "dead h cur" using False notdead_iff [OF base_parts(1) [OF h(2)]] by simp
    with k(1) al have "(sweep_work k pos, sweep_work h pos) \<in> less_than <*lex*> less_than"
      by (intro sweep_work_less k(3)) (blast dest: freeobj_frees)
    moreover have "sweep_work h pos = sweep_work g pos \<or> (sweep_work h pos, sweep_work g pos) \<in> less_than <*lex*> less_than"
      using card_mono [OF _ unswept_keeps [OF h(3)]] a ah by (auto simp: sweep_work_def)
    ultimately have "(sweep_work k pos, sweep_work g pos) \<in> less_than <*lex*> less_than"
      using transD [OF trans_lex_prod [OF trans_less_than trans_less_than]] by metis
    moreover have "\<forall>n. sweeplist (Suc n) g pos = sweeplist n k pos" using a h(1) False k(1) by (simp add: Let_def)
    ultimately show ?thesis
      using k h(4) keeps_live_trans [OF h(3) k(3)] by (intro exI [of _ k] exI [of _ pos]) (simp add: same_lists_def)
  qed
qed

lemma sweeplist_ok:
  assumes "base_inv g" "swept g pos"
  shows "\<exists>pos' g'. sweeplist n g pos = Inr (pos', g') \<and> base_inv g' \<and> keeps_live g g' \<and> swept g' pos' \<and>
    gc_strt g' = gc_strt g \<and> gc_sweepstrgc g' = gc_sweepstrgc g \<and>
    (sweep_work g' pos' = sweep_work g pos \<and> (n = 0 \<or> at_pos g' pos' = []) \<or>
     (sweep_work g' pos', sweep_work g pos) \<in> less_than <*lex*> less_than)"
  using assms
proof (induction n arbitrary: g pos)
  case (Suc n)
  show ?case
  proof (cases "at_pos g pos")
    case Nil
    then show ?thesis using Suc.prems by simp
  next
    case (Cons cur rest)
    from sweeplist_step [OF Suc.prems Cons] obtain k q where k: "sweeplist (Suc n) g pos = sweeplist n k q" "base_inv k" "keeps_live g k"
      "swept k q" "gc_strt k = gc_strt g" "gc_sweepstrgc k = gc_sweepstrgc g" "(sweep_work k q, sweep_work g pos) \<in> less_than <*lex*> less_than"
      by metis
    from Suc.IH [OF k(2,4)] obtain pos' g' where r: "sweeplist n k q = Inr (pos', g')" "base_inv g'" "keeps_live k g'" "swept g' pos'"
      "gc_strt g' = gc_strt k" "gc_sweepstrgc g' = gc_sweepstrgc k"
      "sweep_work g' pos' = sweep_work k q \<or> (sweep_work g' pos', sweep_work k q) \<in> less_than <*lex*> less_than" by blast
    have "(sweep_work g' pos', sweep_work g pos) \<in> less_than <*lex*> less_than"
      using r(7) k(7) transD [OF trans_lex_prod [OF trans_less_than trans_less_than]] by metis
    then show ?thesis unfolding k(1) r(1) using r(2-6) k(5,6) keeps_live_trans [OF k(3) r(3)] by simp
  qed
qed auto

end
