(* ===== verification/LuaGCStep.thy ===== *)
theory LuaGCStep
  imports LuaGCSweep
begin

text \<open>
  The steps of a collection together: the invariant of every phase, and that a step frees nothing the
  program can reach.
\<close>

section \<open>Changes of other fields\<close>

lemma base_cong:
  assumes b: "base_inv g" and h: "hsim g h" "gc_marked h = gc_marked g" "gc_currentwhite h = gc_currentwhite g"
    "gc_uvhead h = gc_uvhead g" "gc_mainthread h = gc_mainthread g" "gc_L h = gc_L g" "gc_registry h = gc_registry g"
    "gc_mt h = gc_mt g" "gc_tmudata h = gc_tmudata g" "gc_rootgc h = gc_rootgc g" "gc_strt h = gc_strt g"
  shows "base_inv h"
proof -
  note bp = base_parts [OF b]
  have col: "dead h = dead g" "white h = white g" "black h = black g" by (intro ext; simp add: dead_def white_def black_def h)+
  have rts: "roots h = roots g" by (simp add: roots_def h)
  have st: "struct h" by (rule hsim_struct [OF bp(2) h(1,4)])
  have l: "lists_ok h" by (rule lists_ok_sim [OF bp(3) h(1,10,11,9,5)])
  have "live_closed h" using bp(4)
    unfolding live_closed_def col rts h(9) hsim_alloc [OF h(1)] hsim_refs [OF bp(2) h(1)] hsim_ref_ok [OF h(1)] .
  moreover have "black_ok h" using bp(5) unfolding black_ok_def col hsim_alloc [OF h(1)] hsim_open [OF h(1)] hsim_tt [OF h(1)] .
  moreover have "fixed_ok h" using bp(6) unfolding fixed_ok_def h(2,5) hsim_alloc [OF h(1)] hsim_tt [OF h(1)] .
  ultimately show ?thesis using st l bp(1) h(3) by (simp add: base_inv_def)
qed

lemma lists_ok_tt:
  assumes "lists_ok g" "\<And>p. gch_tt (gc_heap h p) = gch_tt (gc_heap g p)" "\<And>p. open_uv h p = open_uv g p"
    "gc_rootgc h = gc_rootgc g" "gc_strt h = gc_strt g" "gc_tmudata h = gc_tmudata g" "gc_mainthread h = gc_mainthread g"
  shows "lists_ok h"
proof -
  have u: "udata_list h = udata_list g" using assms(4,7) by (simp add: udata_list_def)
  have al: "alloc h p = alloc g p" for p
    using assms(2) [of p] gch_tt_alloc [of "gc_heap h p"] gch_tt_alloc [of "gc_heap g p"] by (simp add: alloc_def)
  show ?thesis using assms(1) unfolding lists_ok_def u al assms(2-7) .
qed

lemma fixed_sim:
  assumes "fixed_ok g" "\<And>p. gch_tt (gc_heap h p) = gch_tt (gc_heap g p)" "hibits g h" "gc_mainthread h = gc_mainthread g"
  shows "fixed_ok h"
proof (unfold fixed_ok_def, intro allI impI)
  fix p assume p: "alloc h p \<and> bit (gc_marked h p) 5"
  then have "alloc g p" using assms(2) [of p] gch_tt_alloc [of "gc_heap g p"] gch_tt_alloc [of "gc_heap h p"] by (simp add: alloc_def)
  with p assms show "gch_tt (gc_heap h p) = LUA_TSTRING \<or> p = gc_mainthread h" by (simp add: fixed_ok_def hibits_def)
qed

section \<open>The invariant of the phases\<close>

definition strings_clean :: "gstate \<Rightarrow> nat \<Rightarrow> bool" where
  "strings_clean g n \<longleftrightarrow> (\<forall>p \<in> set (concat (take n (gc_strt g))). clean g p)"

definition all_clean :: "gstate \<Rightarrow> bool" where
  "all_clean g \<longleftrightarrow> (\<forall>p. alloc g p \<and> p \<notin> set (gc_tmudata g) \<longrightarrow> clean g p)"

definition gc_inv :: "gstate \<Rightarrow> bool" where
  "gc_inv g \<longleftrightarrow> fixed_ok g \<and>
     (if gc_gcstate g = GCSpropagate then mark_inv g
      else base_inv g \<and>
        (if gc_gcstate g = GCSsweepstring then
           gc_sweepgc g = None \<and> gc_sweepstrgc g < length (gc_strt g) \<and> strings_clean g (gc_sweepstrgc g)
         else if gc_gcstate g = GCSsweep then strings_clean g (length (gc_strt g)) \<and> swept g (gc_sweepgc g)
         else (gc_gcstate g = GCSfinalize \<or> gc_gcstate g = GCSpause) \<and> all_clean g))"

lemma gc_state_consts [simp]:
  "GCSpause \<noteq> GCSpropagate" "GCSpause \<noteq> GCSsweepstring" "GCSpause \<noteq> GCSsweep" "GCSpause \<noteq> GCSfinalize"
  "GCSpropagate \<noteq> GCSpause" "GCSpropagate \<noteq> GCSsweepstring" "GCSpropagate \<noteq> GCSsweep" "GCSpropagate \<noteq> GCSfinalize"
  "GCSsweepstring \<noteq> GCSpause" "GCSsweepstring \<noteq> GCSpropagate" "GCSsweepstring \<noteq> GCSsweep" "GCSsweepstring \<noteq> GCSfinalize"
  "GCSsweep \<noteq> GCSpause" "GCSsweep \<noteq> GCSpropagate" "GCSsweep \<noteq> GCSsweepstring" "GCSsweep \<noteq> GCSfinalize"
  "GCSfinalize \<noteq> GCSpause" "GCSfinalize \<noteq> GCSpropagate" "GCSfinalize \<noteq> GCSsweepstring" "GCSfinalize \<noteq> GCSsweep"
  by (simp_all add: GCSpause_def GCSpropagate_def GCSsweepstring_def GCSsweep_def GCSfinalize_def)

section \<open>The start of a cycle\<close>

lemma clean_tricolour:
  assumes b: "base_inv g" and c: "all_clean g" and h: "h = g\<lparr>gc_gray := [], gc_grayagain := [], gc_weak := []\<rparr>"
  shows "tricolour (set (gc_tmudata g)) h \<and> struct h \<and> lists_ok h \<and> roots_ok h"
proof -
  note bp = base_parts [OF b]
  have eq: "white h = white g" "black h = black g" "dead h = dead g" "alloc h = alloc g" "refs h = refs g" "ref_ok h = ref_ok g"
    "open_uv h = open_uv g" "marked_refs h = marked_refs g" "roots h = roots g"
    by (intro ext; simp add: h white_def black_def dead_def alloc_def refs_def ref_ok_def open_uv_def marked_refs_def)+
      (simp add: h roots_def)
  have al: "\<not> dead g p" if "alloc g p" for p
    using c that live_parts(5) [OF bp(4), of p] by (auto simp: all_clean_def clean_def)
  have wh: "white g p" if "alloc g p" "p \<notin> set (gc_tmudata g)" for p using c that by (simp add: all_clean_def clean_def)
  have free: "refs g p = {}" if "\<not> alloc g p" for p using that by (simp add: alloc_def refs_def)
  have nb: "\<not> black g p" if "alloc g p" "p \<notin> set (gc_tmudata g)" for p using wh [OF that] bp(5) that(1) by (simp add: black_ok_def)
  have mr: "marked_refs g p" if "black g p" "p \<notin> set (gc_tmudata g)" for p
    using free [of p] nb [of p] that by (cases "alloc g p") (auto simp: marked_refs_def)
  have rk: "ref_ok g r" if "r \<in> refs g p" for r p
    using that free [of p] al [of p] live_parts(1) [OF bp(4), of p r] by (cases "alloc g p") auto
  have "tricolour (set (gc_tmudata g)) h"
    unfolding tricolour_def eq
    using bp(1,5) al nb wh mr rk by (auto simp: h black_ok_def)
  moreover have "struct h" by (rule hsim_struct [OF bp(2) hsim_same]) (simp_all add: h)
  moreover have "lists_ok h" by (rule lists_ok_sim [OF bp(3) hsim_same]) (simp_all add: h)
  moreover have "roots_ok h" using live_parts(3) [OF bp(4)] by (simp add: roots_ok_def eq)
  ultimately show ?thesis by blast
qed

lemma markroot_ok:
  assumes b: "base_inv g" and c: "all_clean g"
  shows "\<exists>g'. markroot g = Inr g' \<and> mark_inv g' \<and> fixed_ok g' \<and> gc_gcstate g' = GCSpropagate \<and> hsim g g'"
proof -
  define g0 where "g0 = g\<lparr>gc_gray := [], gc_grayagain := [], gc_weak := []\<rparr>"
  let ?X = "set (gc_tmudata g)"
  from clean_tricolour [OF b c g0_def] have tc: "tricolour ?X g0" and st: "struct g0" and l: "lists_ok g0" and r: "roots_ok g0" by blast+
  let ?m = "gc_mainthread g0"
  have rt: "ref_ok g0 (LUA_TTHREAD, ?m)" "\<And>x. x \<in> set (val_refs (gc_registry g0)) \<Longrightarrow> ref_ok g0 x"
    "\<And>x. x \<in> set (concat (map (opt_ref LUA_TTABLE) (gc_mt g0))) \<Longrightarrow> ref_ok g0 x"
    using r by (auto simp: roots_ok_def roots_def)
  from markobject_trav [OF tc st rt(1)] obtain g1 where g1: "markobject g0 ?m = Inr g1" "trav ?X g0 {?m} g1" by (auto simp: returns_def)
  note a1 = trav_parts [OF g1(2)]
  have "gch_tt (gc_heap g1 ?m) = LUA_TTHREAD" using rt(1) hsim_tt [OF a1(3), of ?m] by (simp add: ref_ok_def)
  then obtain t where t: "gc_heap g1 ?m = OThr t" by (auto simp: gch_tt_cases)
  have "ref_ok g1 x" if "x \<in> set (val_refs (th_gt t))" for x
    using tricolour_parts(4) [OF a1(1), of x ?m] that t by (simp add: refs_def thread_refs_def)
  from markvalue_trav [OF a1(1,2) this] obtain g2 where g2: "markvalue g1 (th_gt t) = Inr g2" "trav ?X g1 (snd ` set (val_refs (th_gt t))) g2"
    by (auto simp: returns_def)
  note a2 = trav_parts [OF g2(2)]
  have h02: "hsim g0 g2" using hsim_trans [OF a1(3) a2(3)] .
  have f02: "frame g0 g2" using frame_trans [OF a1(4) a2(4)] .
  have "ref_ok g2 x" if "x \<in> set (val_refs (gc_registry g2))" for x
    using rt(2) [of x] that f02 hsim_ref_ok [OF h02] by (simp add: frame_def)
  from markvalue_trav [OF a2(1,2) this] obtain g3 where g3: "markvalue g2 (gc_registry g2) = Inr g3"
    "trav ?X g2 (snd ` set (val_refs (gc_registry g2))) g3" by (auto simp: returns_def)
  note a3 = trav_parts [OF g3(2)]
  have h03: "hsim g0 g3" using hsim_trans [OF h02 a3(3)] .
  have f03: "frame g0 g3" using frame_trans [OF f02 a3(4)] .
  have "ref_ok g3 x" if "x \<in> set (concat (map (opt_ref LUA_TTABLE) (gc_mt g3)))" for x
    using rt(3) [of x] that f03 hsim_ref_ok [OF h03] by (simp add: frame_def)
  from opt_markobjects_trav [OF a3(1,2) this] obtain g4 where
    g4: "mfold (\<lambda>g p. if p \<noteq> 0 then markobject g p else Inr g) g3 (gc_mt g3) = Inr g4"
      "trav ?X g3 (snd ` set (concat (map (opt_ref LUA_TTABLE) (gc_mt g3)))) g4" by (auto simp: returns_def)
  note a4 = trav_parts [OF g4(2)]
  have h04: "hsim g0 g4" using hsim_trans [OF h03 a4(3)] .
  have f04: "frame g0 g4" using frame_trans [OF f03 a4(4)] .
  have hb: "hibits g0 g4" using hibits_trans [OF hibits_trans [OF a1(13) a2(13)] hibits_trans [OF a3(13) a4(13)]] .
  define g' where "g' = g4\<lparr>gc_gcstate := GCSpropagate\<rparr>"
  have m1: "gc_mainthread g1 = ?m" using a1(4) by (simp add: frame_def)
  have run: "markroot g = Inr g'"
    using g1(1) g2(1) g3(1) g4(1) t m1 by (simp add: markroot_def g0_def [symmetric] thread_at_def g'_def Let_def)
  have tm: "gc_tmudata g4 = gc_tmudata g" "gc_registry g4 = gc_registry g2" "gc_mainthread g4 = ?m"
    using f04 f02 by (simp_all add: frame_def g0_def)
  have wm: "\<not> white g4 ?m" using a1(9) a2(10) a3(10) a4(10) by blast
  have wr: "\<not> white g4 (snd x)" if "x \<in> set (val_refs (gc_registry g2))" for x using a3(9) a4(10) that by blast
  have eq: "white g' = white g4" "ref_ok g' = ref_ok g4" "roots g' = roots g4" by (intro ext; simp add: g'_def white_def ref_ok_def)+ (simp add: g'_def roots_def)
  have tri: "tricolour ?X g'" by (rule tricolour_lists [OF a4(1)]) (use tricolour_parts(5) [OF a4(1)] in \<open>simp_all add: g'_def\<close>)
  have st': "struct g'" by (rule hsim_struct [OF a4(2) hsim_same]) (simp_all add: g'_def)
  have l': "lists_ok g'" by (rule lists_ok_sim [OF lists_ok_frame [OF l h04 f04] hsim_same]) (simp_all add: g'_def)
  have r': "roots_ok g'" using roots_ok_sim [OF r h04 f04] by (simp add: roots_ok_def eq)
  have h': "hsim g g'" using h04 by (simp add: hsim_def g0_def g'_def)
  have fl: "gc_tmudata g' = gc_tmudata g" "gc_registry g' = gc_registry g2" "gc_mainthread g' = ?m" using tm by (simp_all add: g'_def)
  have mi: "mark_inv g'" using tri st' l' r' wm wr by (simp add: mark_inv_def eq fl)
  have fx: "fixed_ok g'"
    by (rule fixed_sim [OF base_parts(6) [OF b] hsim_tt [OF h']]) (use hb f04 in \<open>simp_all add: hibits_def g0_def g'_def frame_def\<close>)
  have "gc_gcstate g' = GCSpropagate" by (simp add: g'_def)
  with run mi fx h' show ?thesis by blast
qed

section \<open>Propagation and the atomic step\<close>

lemma propagate_inv:
  assumes m: "mark_inv g" and f: "fixed_ok g" and ne: "gc_gray g \<noteq> []"
  shows "\<exists>n g'. propagatemark g = Inr (n, g') \<and> mark_inv g' \<and> fixed_ok g' \<and> gc_gcstate g' = gc_gcstate g \<and> hsim g g'"
proof -
  have tc: "tricolour (set (gc_tmudata g)) g" and st: "struct g" and l: "lists_ok g" and r: "roots_ok g" using m by (simp_all add: mark_inv_def)
  have X: "\<not> gray_kind (gc_heap g q)" if "q \<in> set (gc_tmudata g)" for q
    using lists_ok_parts(7) [OF l that] by (simp add: gray_kind_def tag_defs)
  from propagatemark_ok [OF tc st ne X] obtain n g' where
    g': "propagatemark g = Inr (n, g')" "prop_ok (set (gc_tmudata g)) g g'" by (auto simp: returns_def)
  note p = prop_parts [OF g'(2)]
  have fr: "gc_tmudata g' = gc_tmudata g" "gc_mainthread g' = gc_mainthread g" "gc_registry g' = gc_registry g" "gc_gcstate g' = gc_gcstate g"
    using p(4) by (simp_all add: frame_def)
  have "mark_inv g'"
    using p(1,2) lists_ok_frame [OF l p(3,4)] roots_ok_sim [OF r p(3,4)] p(6) m by (simp add: mark_inv_def fr)
  moreover have "fixed_ok g'" by (rule fixed_sim [OF f hsim_tt [OF p(3)] p(10) fr(2)])
  ultimately show ?thesis using g'(1) fr(4) p(3) by blast
qed

lemma atomic_inv:
  assumes m: "mark_inv g" and f: "fixed_ok g"
  shows "\<exists>g'. atomic g = Inr g' \<and> gc_inv g' \<and> (\<forall>p. gch_tt (gc_heap g' p) = gch_tt (gc_heap g p))"
proof -
  from atomic_ok [OF m] obtain g' where g': "atomic g = Inr g'" "sweep_start g g'" "roots g' = roots g" by blast
  have s: "cw_ok (gc_currentwhite g')" "struct g'" "lists_ok g'" "live_closed g'" "black_ok g'" "gc_gcstate g' = GCSsweepstring"
    "gc_sweepstrgc g' = 0" "gc_sweepgc g' = None" "\<And>p. gch_tt (gc_heap g' p) = gch_tt (gc_heap g p)" "hibits g g'"
    using g'(2) by (simp_all add: sweep_start_def)
  have main: "gc_mainthread g' = gc_mainthread g" using g'(2) by (simp add: sweep_start_def)
  have fx: "fixed_ok g'" by (rule fixed_sim [OF f s(9,10) main])
  have "0 < length (gc_strt g')" using lists_ok_parts(5) [OF s(3)] by simp
  with s fx have "gc_inv g'" by (simp add: gc_inv_def base_inv_def strings_clean_def)
  with g'(1) s(9) show ?thesis by blast
qed

section \<open>Sweeping\<close>

lemma mset_push: "i < length hs \<Longrightarrow> mset (concat (hs[i := p # hs ! i])) = add_mset p (mset (concat hs))"
proof -
  assume i: "i < length hs"
  have "mset (concat hs) = mset (concat (take i hs)) + mset (hs ! i) + mset (concat (drop (Suc i) hs))"
    using arg_cong [OF id_take_nth_drop [OF i], of "\<lambda>x. mset (concat x)"] by simp
  with i show ?thesis by (simp add: concat_update)
qed

lemma rehash_string_mset:
  "0 < n \<Longrightarrow> length hs = n \<Longrightarrow> length (rehash_string g n p hs) = n \<and> mset (concat (rehash_string g n p hs)) = add_mset p (mset (concat hs))"
proof -
  assume n: "0 < n" "length hs = n"
  let ?h = "hash_pos (case gc_heap g p of OStr s h \<Rightarrow> h | _ \<Rightarrow> 0) n"
  have "s AND (n - 1) \<le> n - 1" for s :: nat
    unfolding of_nat_le_iff [symmetric, where ?'a = int] of_nat_and_eq by (rule AND_upper2) simp
  from this have "s AND (n - 1) < n" for s :: nat using n(1) le_less_trans [of "s AND (n - 1)" "n - 1" n] by simp
  then have "?h < length hs" by (simp add: hash_pos_def lmod_def n(2))
  with n(2) mset_push [of ?h hs p] show ?thesis by (simp add: rehash_string_def Let_def)
qed

lemma rehash_strings_mset:
  "0 < n \<Longrightarrow> length hs = n \<Longrightarrow> length (fold (rehash_string g n) ps hs) = n \<and> mset (concat (fold (rehash_string g n) ps hs)) = mset ps + mset (concat hs)"
proof (induction ps arbitrary: hs)
  case (Cons p ps)
  from rehash_string_mset [OF Cons.prems, of g p] Cons.IH [OF Cons.prems(1), of "rehash_string g n p hs"] show ?case by simp
qed simp

lemma gc_resize_strt:
  assumes "0 < n" "gc_gcstate g \<noteq> GCSsweepstring"
  shows "length (gc_strt (gc_resize g n)) = n \<and> mset (concat (gc_strt (gc_resize g n))) = mset (concat (gc_strt g))"
proof -
  have "length (fold (\<lambda>chain hs. fold (rehash_string g n) chain hs) cs hs) = n \<and>
      mset (concat (fold (\<lambda>chain hs. fold (rehash_string g n) chain hs) cs hs)) = mset (concat cs) + mset (concat hs)"
    if "length hs = n" for cs hs
    using that
  proof (induction cs arbitrary: hs)
    case (Cons c cs)
    from rehash_strings_mset [OF assms(1) Cons.prems, of g c] Cons.IH [of "fold (rehash_string g n) c hs"] show ?case by simp
  qed simp
  from this [of "replicate n []" "gc_strt g"] show ?thesis using assms(2) by (simp add: gc_resize_def)
qed

lemma base_strt:
  assumes b: "base_inv g" and h: "h = g\<lparr>gc_strt := st\<rparr>" and m: "st \<noteq> []" "mset (concat st) = mset (concat (gc_strt g))"
  shows "base_inv h"
proof -
  note bp = base_parts [OF b] and lp = lists_ok_parts [OF base_parts(3) [OF b]]
  have eq: "white h = white g" "black h = black g" "dead h = dead g" "alloc h = alloc g" "refs h = refs g" "ref_ok h = ref_ok g"
    "open_uv h = open_uv g" "roots h = roots g"
    by (intro ext; simp add: h white_def black_def dead_def alloc_def refs_def ref_ok_def open_uv_def)+ (simp add: h roots_def)
  have "distinct (concat st)" using lp(3) mset_eq_imp_distinct_iff [OF m(2)] by simp
  moreover have "set (concat st) = set (concat (gc_strt g))" using arg_cong [OF m(2), of set_mset] by simp
  moreover have u: "udata_list h = udata_list g" by (simp add: h udata_list_def)
  moreover have f: "gc_rootgc h = gc_rootgc g" "gc_mainthread h = gc_mainthread g" "gc_strt h = st" "gc_tmudata h = gc_tmudata g" "gc_heap h = gc_heap g"
    by (simp_all add: h)
  ultimately have "lists_ok h" using lp(1,2,4,6-9) m(1) unfolding lists_ok_def u eq f by blast
  moreover have "struct h" by (rule hsim_struct [OF bp(2) hsim_same]) (simp_all add: h)
  moreover have "live_closed h" "black_ok h" "fixed_ok h"
    using bp(4-6) unfolding live_closed_def black_ok_def fixed_ok_def eq by (simp_all add: h)
  ultimately show ?thesis using bp(1) by (simp add: base_inv_def h)
qed

lemma checkSizes_ok:
  assumes b: "base_inv g" and s: "gc_gcstate g = GCSsweep"
  shows "base_inv (checkSizes g) \<and> gc_heap (checkSizes g) = gc_heap g \<and> gc_marked (checkSizes g) = gc_marked g \<and>
    gc_currentwhite (checkSizes g) = gc_currentwhite g \<and> gc_tmudata (checkSizes g) = gc_tmudata g \<and> roots (checkSizes g) = roots g"
proof -
  let ?c = "gc_nuse g < length (gc_strt g) div 4 \<and> MINSTRTABSIZE * 2 < length (gc_strt g)"
  let ?h = "if ?c then gc_resize g (length (gc_strt g) div 2) else g"
  have h: "base_inv ?h \<and> gc_heap ?h = gc_heap g \<and> gc_marked ?h = gc_marked g \<and> gc_currentwhite ?h = gc_currentwhite g \<and>
    gc_tmudata ?h = gc_tmudata g \<and> roots ?h = roots g"
  proof (cases ?c)
    case True
    then have n: "0 < length (gc_strt g) div 2" by (simp add: MINSTRTABSIZE_def)
    let ?k = "gc_resize g (length (gc_strt g) div 2)"
    have k: "?k = g\<lparr>gc_strt := gc_strt ?k\<rparr>" using s by (simp add: gc_resize_def)
    from gc_resize_strt [OF n] s have "gc_strt ?k \<noteq> []" "mset (concat (gc_strt ?k)) = mset (concat (gc_strt g))"
      using n by (auto simp del: length_0_conv simp: length_0_conv [symmetric])
    from base_strt [OF b k this] have "base_inv ?k" .
    moreover have "gc_heap ?k = gc_heap g" "gc_marked ?k = gc_marked g" "gc_currentwhite ?k = gc_currentwhite g"
      "gc_tmudata ?k = gc_tmudata g" "roots ?k = roots g"
      using s by (simp_all add: gc_resize_def roots_def)
    ultimately show ?thesis using True by simp
  next
    case False
    show ?thesis unfolding if_not_P [OF False] using b by simp
  qed
  have cs: "checkSizes g = (if LUA_MINBUFFER * 2 < gc_buffsize ?h
         then ?h\<lparr>gc_totalbytes := gc_totalbytes ?h - word_of_nat (gc_buffsize ?h) + word_of_nat (gc_buffsize ?h div 2),
                gc_buffsize := gc_buffsize ?h div 2\<rparr> else ?h)"
    unfolding checkSizes_def Let_def ..
  have "base_inv (k\<lparr>gc_totalbytes := a, gc_buffsize := n\<rparr>)" if "base_inv k" for k a n
    by (rule base_cong [OF that hsim_same]) simp_all
  moreover have "roots (k\<lparr>gc_totalbytes := a, gc_buffsize := n\<rparr>) = roots k" for k a n by (simp add: roots_def)
  ultimately show ?thesis unfolding cs using h by (cases "LUA_MINBUFFER * 2 < gc_buffsize ?h") simp_all
qed

text \<open>One chain of strings, then the objects of the other list.\<close>

lemma clean_keeps: "keeps_live g h \<Longrightarrow> clean g p \<Longrightarrow> clean h p"
  by (simp add: keeps_live_def)

lemma alloc_keeps: "keeps_live g h \<Longrightarrow> alloc h p \<Longrightarrow> gch_tt (gc_heap g p) = gch_tt (gc_heap h p)"
  by (simp add: keeps_live_def)

lemma sweepstring_step:
  assumes g: "gc_inv g" and s: "gc_gcstate g = GCSsweepstring"
  shows "\<exists>n g'. singlestep call g = Inr (n, g') \<and> gc_inv g' \<and> (\<forall>p. alloc g p \<and> \<not> dead g p \<longrightarrow> gch_tt (gc_heap g' p) = gch_tt (gc_heap g p)) \<and>
    (\<forall>p. alloc g' p \<longrightarrow> gch_tt (gc_heap g' p) = gch_tt (gc_heap g p)) \<and>
    (gc_gcstate g' = GCSsweep \<or>
     gc_gcstate g' = GCSsweepstring \<and> length (gc_strt g') = length (gc_strt g) \<and> gc_sweepstrgc g' = gc_sweepstrgc g + 1)"
proof -
  let ?i = "gc_sweepstrgc g"
  from g s have b: "base_inv g" and i: "?i < length (gc_strt g)" and c: "strings_clean g ?i" and sw: "gc_sweepgc g = None"
    by (simp_all add: gc_inv_def)
  have ac: "at_chain ?i (gc_strt g ! ?i) g = g" by (simp add: at_chain_def)
  with b have "base_inv (at_chain ?i ([] @ gc_strt g ! ?i) g)" by simp
  from sweep_chain_ok [OF this i] ac obtain ps h where h: "sweepwholelist g (gc_strt g ! ?i) = Inr (ps, h)"
    "base_inv (at_chain ?i ps h)" "keeps_live g (at_chain ?i ps h)" "\<forall>p \<in> set ps. clean h p" "gc_strt h = gc_strt g"
    "gc_rootgc h = gc_rootgc g" "gc_sweepstrgc h = ?i" "gc_sweepgc h = None" using sw by auto
  let ?k = "at_chain ?i ps h"
  define g1 where "g1 = h\<lparr>gc_strt := (gc_strt h)[?i := ps], gc_sweepstrgc := ?i + 1\<rparr>"
  define g2 where "g2 = (if length (gc_strt g1) \<le> ?i + 1 then g1\<lparr>gc_gcstate := GCSsweep\<rparr> else g1)"
  define g' where "g' = g2\<lparr>gc_estimate := gc_estimate g2 - (gc_totalbytes g - gc_totalbytes g2)\<rparr>"
  have run: "singlestep call g = Inr (GCSWEEPCOST, g')"
    using s i h(1) by (simp add: singlestep_def g'_def g2_def g1_def Let_def)
  have f: "gc_heap g' = gc_heap ?k" "gc_marked g' = gc_marked ?k" "gc_currentwhite g' = gc_currentwhite ?k" "gc_strt g' = gc_strt ?k"
    "gc_sweepstrgc g' = ?i + 1" "gc_sweepgc g' = None" "gc_rootgc g' = gc_rootgc ?k"
    "gc_gcstate g' = (if length (gc_strt g) \<le> ?i + 1 then GCSsweep else GCSsweepstring)"
    using h(3,5,8) s by (simp_all add: g'_def g2_def g1_def keeps_live_def)
  have b': "base_inv g'" by (rule base_cong [OF h(2) hsim_same]) (simp_all add: g'_def g2_def g1_def)
  have cl: "clean g' p = clean ?k p" "clean ?k p = clean h p" for p by (rule clean_colours; simp add: f)+
  have "concat (take (?i + 1) ((gc_strt g)[?i := ps])) = concat (take ?i (gc_strt g)) @ ps"
    using i by (simp add: take_Suc_conv_app_nth)
  moreover have "clean h p" if "clean g p" for p using clean_keeps [OF h(3) that] cl(2) by simp
  ultimately have sc: "strings_clean g' (?i + 1)"
    using c h(4,5) by (auto simp: strings_clean_def f cl)
  have len: "length (gc_strt g') = length (gc_strt g)" using h(5) f(4) by simp
  have "gc_inv g'"
  proof (cases "length (gc_strt g) \<le> ?i + 1")
    case True
    then have "?i + 1 = length (gc_strt g')" using i len by simp
    moreover have "swept g' None" by (simp add: swept_def before_pos_def)
    ultimately show ?thesis using True b' sc f(5,6,8) base_parts(6) [OF b'] by (simp add: gc_inv_def)
  next
    case False
    with b' sc f(5,6,8) len base_parts(6) [OF b'] show ?thesis by (simp add: gc_inv_def)
  qed
  with run h(3) f(1,5,8) len show ?thesis by (auto simp: keeps_live_def alloc_def)
qed

lemma swept_all:
  assumes b: "base_inv g" and s: "strings_clean g (length (gc_strt g))" and w: "swept g pos" and e: "at_pos g pos = []"
  shows "all_clean g"
  unfolding all_clean_def
proof (intro allI impI)
  fix p assume p: "alloc g p \<and> p \<notin> set (gc_tmudata g)"
  note bp = base_parts [OF b] and lp = lists_ok_parts [OF base_parts(3) [OF b]]
  have rt: "gc_rootgc g = before_pos g pos" using pos_split [of pos g] w e by (simp add: swept_def)
  consider "gch_tt (gc_heap g p) = LUA_TSTRING" | "open_uv g p" | "p \<in> set (gc_rootgc g)" using lp(8) p by blast
  then show "clean g p"
  proof cases
    case 1
    then have "p \<in> set (concat (gc_strt g))" using lp(6) by blast
    with s show ?thesis by (auto simp: strings_clean_def)
  next
    case 2
    then obtain th i x where u: "gc_heap g p = OUpval (Some (th, i)) x" by (auto simp: open_uv_def)
    with bp(2) obtain t where t: "gc_heap g th = OThr t" unfolding struct_def by metis
    have "th \<notin> set (gc_tmudata g)" using lp(7) [of th] t by (auto simp: tag_defs)
    then have "th \<in> set (gc_rootgc g)" using lp(8) t by (auto simp: alloc_def open_uv_def tag_defs)
    with u w rt show ?thesis by (auto simp: swept_def)
  next
    case 3
    with w rt show ?thesis by (auto simp: swept_def)
  qed
qed

lemma sweep_step:
  assumes g: "gc_inv g" and s: "gc_gcstate g = GCSsweep"
  shows "\<exists>n g'. singlestep call g = Inr (n, g') \<and> gc_inv g' \<and> (\<forall>p. alloc g p \<and> \<not> dead g p \<longrightarrow> gch_tt (gc_heap g' p) = gch_tt (gc_heap g p)) \<and>
    (\<forall>p. alloc g' p \<longrightarrow> gch_tt (gc_heap g' p) = gch_tt (gc_heap g p)) \<and>
    (gc_gcstate g' = GCSfinalize \<or>
     gc_gcstate g' = GCSsweep \<and> (sweep_work g' (gc_sweepgc g'), sweep_work g (gc_sweepgc g)) \<in> less_than <*lex*> less_than)"
proof -
  from g s have b: "base_inv g" and c: "strings_clean g (length (gc_strt g))" and sw: "swept g (gc_sweepgc g)"
    by (simp_all add: gc_inv_def)
  from sweeplist_ok [OF b sw, of GCSWEEPMAX] obtain pos h where h: "sweeplist GCSWEEPMAX g (gc_sweepgc g) = Inr (pos, h)" "base_inv h"
    "keeps_live g h" "swept h pos" "gc_strt h = gc_strt g"
    "at_pos h pos = [] \<or> (sweep_work h pos, sweep_work g (gc_sweepgc g)) \<in> less_than <*lex*> less_than" by (auto simp: GCSWEEPMAX_def)
  define g1 where "g1 = h\<lparr>gc_sweepgc := pos\<rparr>"
  define g2 where "g2 = (if at_pos g1 pos = [] then (checkSizes g1)\<lparr>gc_gcstate := GCSfinalize\<rparr> else g1)"
  define g' where "g' = g2\<lparr>gc_estimate := gc_estimate g2 - (gc_totalbytes g - gc_totalbytes g2)\<rparr>"
  have run: "singlestep call g = Inr (GCSWEEPMAX * GCSWEEPCOST, g')"
    using s h(1) by (simp add: singlestep_def g'_def g2_def g1_def Let_def)
  have sh: "gc_gcstate h = GCSsweep" using h(3) s by (simp add: keeps_live_def)
  have b1: "base_inv g1" by (rule base_cong [OF h(2) hsim_same]) (simp_all add: g1_def)
  have ah: "at_pos g1 pos = at_pos h pos" by (rule at_pos_cong) (simp add: g1_def)
  have cl1: "clean g1 p = clean h p" for p by (rule clean_colours) (simp_all add: g1_def)
  have sc: "strings_clean h (length (gc_strt h))" using c h(5) clean_keeps [OF h(3)] by (simp add: strings_clean_def)
  have "gc_inv g' \<and> gc_heap g' = gc_heap h \<and> (gc_gcstate g' = GCSfinalize \<or>
      gc_gcstate g' = GCSsweep \<and> (sweep_work g' (gc_sweepgc g'), sweep_work g (gc_sweepgc g)) \<in> less_than <*lex*> less_than)"
  proof (cases "at_pos h pos = []")
    case True
    note k = checkSizes_ok [OF b1, unfolded g1_def, simplified, OF sh, folded g1_def]
    have ac: "all_clean h" by (rule swept_all [OF h(2) sc h(4) True])
    have f: "gc_heap g' = gc_heap h" "gc_marked g' = gc_marked h" "gc_currentwhite g' = gc_currentwhite h" "gc_tmudata g' = gc_tmudata h"
      "gc_gcstate g' = GCSfinalize"
      using True ah k by (simp_all add: g'_def g2_def g1_def)
    have b': "base_inv g'"
      by (rule base_cong [OF conjunct1 [OF k] hsim_same]) (use True ah in \<open>simp_all add: g'_def g2_def\<close>)
    have "alloc g' p = alloc h p" "clean g' p = clean h p" for p
      by (simp add: alloc_def f) (rule clean_colours; simp add: f)
    then have "all_clean g'" using ac by (simp add: all_clean_def f)
    then show ?thesis using b' f base_parts(6) [OF b'] by (simp add: gc_inv_def)
  next
    case False
    have f: "gc_heap g' = gc_heap h" "gc_marked g' = gc_marked h" "gc_currentwhite g' = gc_currentwhite h"
      "gc_gcstate g' = GCSsweep" "gc_strt g' = gc_strt h" "gc_rootgc g' = gc_rootgc h" "gc_sweepgc g' = pos"
      using False ah sh by (simp_all add: g'_def g2_def g1_def)
    have b': "base_inv g'" by (rule base_cong [OF b1 hsim_same]) (use False ah in \<open>simp_all add: g'_def g2_def\<close>)
    have cl: "clean g' p = clean h p" for p by (rule clean_colours) (simp_all add: f)
    have "swept g' pos" using h(4) unfolding swept_def before_pos_cong [OF f(6)] f(1,6) cl .
    moreover have "strings_clean g' (length (gc_strt g'))" using sc by (simp add: strings_clean_def f(5) cl)
    moreover have "sweep_work g' pos = sweep_work h pos" using cl f(1) at_pos_cong [OF f(6)]
      by (simp add: sweep_work_def unswept_def alloc_def)
    ultimately show ?thesis using b' h(6) False f base_parts(6) [OF b'] by (simp add: gc_inv_def)
  qed
  with run h(3) show ?thesis by (auto simp: keeps_live_def alloc_def)
qed

section \<open>Finalizers\<close>

text \<open>The stack of a live thread may get any live values.\<close>

lemma write_thread_facts:
  assumes s: "struct g" and t: "gc_heap g l = OThr t"
    and t': "th_openupval t' = th_openupval t" "th_top t' < length (th_stack t')" "\<forall>c \<in> set (th_citops t'). c < length (th_stack t')"
      "\<forall>u \<in> set (th_openupval t). \<forall>i x. gc_heap g u = OUpval (Some (l, i)) x \<longrightarrow> i < th_top t'"
  shows "gch_tt (gc_heap (set_heap g l (OThr t')) q) = gch_tt (gc_heap g q)"
    "gc_heap (set_heap g l (OThr t')) q = OUpval v x \<longleftrightarrow> gc_heap g q = OUpval v x"
    "open_uv (set_heap g l (OThr t')) q = open_uv g q" "alloc (set_heap g l (OThr t')) q = alloc g q"
    "struct (set_heap g l (OThr t'))"
    "y \<in> refs (set_heap g l (OThr t')) q \<Longrightarrow> y \<in> refs g q \<or> (q = l \<or> open_uv g q) \<and> y \<in> set (thread_refs t')"
proof -
  let ?h = "set_heap g l (OThr t')"
  show up: "gc_heap ?h q = OUpval v x \<longleftrightarrow> gc_heap g q = OUpval v x" for q v x using t by auto
  show tt: "gch_tt (gc_heap ?h q) = gch_tt (gc_heap g q)" for q using t by simp
  show op: "open_uv ?h q = open_uv g q" for q by (simp only: open_uv_def up)
  show "alloc ?h q = alloc g q" using t by (auto simp: alloc_def)
  show st: "struct ?h"
  proof -
    have "thread_ok ?h q s" if q: "gc_heap ?h q = OThr s" for q s
    proof (cases "q = l")
      case True
      with q have s': "s = t'" by simp
      have ok: "thread_ok g l t" using s t by (simp add: struct_def)
      then have "\<exists>i x. gc_heap ?h u = OUpval (Some (l, i)) x \<and> i < th_top t'" if "u \<in> set (th_openupval t)" for u
        using that t'(4) unfolding thread_ok_def up by blast
      with ok t'(1-3) show ?thesis by (simp add: thread_ok_def s' True)
    next
      case False
      with q s have "thread_ok g q s" by (simp add: struct_def)
      then show ?thesis unfolding thread_ok_def up .
    qed
    moreover have "\<exists>s. gc_heap ?h th = OThr s \<and> u \<in> set (th_openupval s)" if u: "gc_heap ?h u = OUpval (Some (th, i)) x" for u th i x
    proof -
      from u s obtain w where "gc_heap g th = OThr w" "u \<in> set (th_openupval w)" unfolding up struct_def by metis
      with t t'(1) show ?thesis by (cases "th = l") auto
    qed
    moreover have "tchain tb" if "gc_heap ?h q = OTab tb" for q tb
      using that s t by (auto simp: struct_def split: if_splits)
    moreover have "distinct (gc_uvhead ?h)" "set (gc_uvhead ?h) = {u. open_uv ?h u}"
      using s by (simp_all add: struct_def op del: set_heap_fields(26))
    moreover have "gc_heap ?h 0 = OFree" using s t by (auto simp: struct_def)
    ultimately show ?thesis unfolding struct_def by blast
  qed
  show "y \<in> refs g q \<or> (q = l \<or> open_uv g q) \<and> y \<in> set (thread_refs t')" if y: "y \<in> refs ?h q"
  proof (cases "gc_heap ?h q")
    case (OUpval v z)
    show ?thesis
    proof (cases v)
      case (Some a)
      obtain th i where a: "a = (th, i)" by (cases a)
      have "gc_heap g q = OUpval (Some (th, i)) z" using OUpval Some a unfolding up by simp
      then have oq: "open_uv g q" unfolding open_uv_def by blast
      show ?thesis
      proof (cases "th = l")
        case True
        with OUpval Some a st have "\<exists>w. gc_heap ?h l = OThr w \<and> q \<in> set (th_openupval w)" unfolding struct_def by metis
        then have "q \<in> set (th_openupval t)" using t'(1) by auto
        then have i: "i < th_top t'" using t'(4) OUpval Some a True up by metis
        have "y \<in> set (val_refs (th_stack t' ! i))"
          using t'(2) OUpval Some a True y i by (auto simp: refs_def slot_at_def split: if_splits)
        with i have "y \<in> set (concat (map val_refs (take (th_top t') (th_stack t'))))"
          unfolding in_concat_map using t'(2) by (intro exI [of _ i]) simp
        with oq show ?thesis by (simp add: thread_refs_def)
      next
        case False
        with OUpval Some a y t show ?thesis by (auto simp: refs_def slot_at_def split: if_splits)
      qed
    qed (use OUpval y t in \<open>auto simp: refs_def split: if_splits\<close>)
  qed (use y t in \<open>auto simp: refs_def split: if_splits\<close>)
qed

lemma write_thread:
  assumes b: "base_inv g" and t: "gc_heap g l = OThr t" "\<not> dead g l"
    and t': "th_openupval t' = th_openupval t" "th_top t' < length (th_stack t')" "\<forall>c \<in> set (th_citops t'). c < length (th_stack t')"
      "\<forall>u \<in> set (th_openupval t). \<forall>i x. gc_heap g u = OUpval (Some (l, i)) x \<longrightarrow> i < th_top t'"
    and r: "set (thread_refs t') \<subseteq> set (thread_refs t) \<union> R" "\<And>r. r \<in> R \<Longrightarrow> ref_ok g r \<and> \<not> dead g (snd r)"
  shows "base_inv (set_heap g l (OThr t'))"
proof -
  let ?h = "set_heap g l (OThr t')"
  note bp = base_parts [OF b] and f = write_thread_facts [OF base_parts(2) [OF b] t(1) t']
  have eq: "dead ?h = dead g" "white ?h = white g" "black ?h = black g" "roots ?h = roots g"
    by (auto simp: dead_def white_def black_def roots_def fun_eq_iff)
  have ro: "ref_ok ?h x = ref_ok g x" for x by (simp only: ref_ok_def f(1))
  have live: "ref_ok g x \<and> \<not> dead g (snd x)" if "x \<in> set (thread_refs t')" for x
  proof -
    from that r(1) have "x \<in> refs g l \<or> x \<in> R" using t(1) by (auto simp: refs_def)
    with r(2) [of x] live_parts(1,2) [OF bp(4), of l x] t show ?thesis by (auto simp: alloc_def)
  qed
  have "lists_ok ?h" by (rule lists_ok_tt [OF bp(3) f(1,3)]) simp_all
  moreover have "live_closed ?h"
  proof (rule live_closedI)
    fix q x assume q: "alloc ?h q" "\<not> dead ?h q" "x \<in> refs ?h q"
    with f(6) [of x q] live [of x] live_parts(1,2) [OF bp(4), of q x] show "ref_ok ?h x \<and> \<not> dead ?h (snd x)"
      unfolding ro eq f(4) by blast
  next
    fix x assume "x \<in> roots ?h"
    with live_parts(3,4) [OF bp(4), of x] show "ref_ok ?h x \<and> \<not> dead ?h (snd x)" unfolding ro eq by blast
  next
    fix v assume "v \<in> set (gc_tmudata ?h)"
    with live_parts(5) [OF bp(4), of v] show "\<not> dead ?h v" unfolding eq by simp
  qed
  moreover have "black_ok ?h" using bp(5) unfolding black_ok_def eq f(1,3,4) .
  moreover have "fixed_ok ?h" by (rule fixed_sim [OF bp(6) f(1)]) (simp_all add: hibits_def)
  ultimately show ?thesis using f(5) bp(1) by (simp add: base_inv_def)
qed

lemma gfasttm_value:
  assumes st: "struct g" and r: "gfasttm g et e = Inr (Some v, g')"
  shows "set (val_refs v) \<subseteq> refs g et"
proof -
  from r have ne: "et \<noteq> 0" by (auto simp: gfasttm_def)
  with r obtain t where t: "gc_heap g et = OTab t"
    by (cases "gc_heap g et") (auto simp: gfasttm_def tab_at_def)
  with st have tc: "tchain t" by (simp add: struct_def)
  obtain slot where s: "luaH_getstr (str_hash g) t (gc_tmname g e) = Inr slot" "slot = SNil \<or> (\<exists>i < length (t_node t). slot = SNode i)"
    using getstr_returns [OF tc] by blast
  with r t ne have v: "v = slot_val t slot" "v \<noteq> TNil" by (auto simp: gfasttm_def tab_at_def split: if_splits)
  with s(2) obtain i where i: "i < length (t_node t)" "slot = SNode i" by (auto simp: luaO_nilobject_def)
  with v have "set (val_refs v) \<subseteq> set (node_refs (t_node t ! i))" by (auto simp: node_refs_def)
  also have "\<dots> \<subseteq> refs g et" using node_value_refs [OF i(1)] t by (simp add: refs_def)
  finally show ?thesis .
qed

text \<open>The first userdata to finalize goes back to the list of all objects.\<close>

lemma unlink_tmudata:
  assumes b: "base_inv g" and u: "gc_tmudata g = u # us"
    and h: "h = g\<lparr>gc_tmudata := us, gc_rootgc := before_udata g @ u # udata_list g\<rparr>"
  shows "base_inv h"
proof -
  note bp = base_parts [OF b] and lp = lists_ok_parts [OF base_parts(3) [OF b]]
  have eq: "white h = white g" "black h = black g" "dead h = dead g" "alloc h = alloc g" "refs h = refs g" "ref_ok h = ref_ok g"
    "open_uv h = open_uv g" "roots h = roots g"
    by (intro ext; simp add: h white_def black_def dead_def alloc_def refs_def ref_ok_def open_uv_def)+ (simp add: h roots_def)
  have f: "gc_heap h = gc_heap g" "gc_tmudata h = us" "gc_rootgc h = before_udata g @ u # udata_list g" "gc_mainthread h = gc_mainthread g"
    "gc_strt h = gc_strt g" "gc_marked h = gc_marked g"
    by (simp_all add: h)
  have ul: "udata_list h = u # udata_list g" by (rule udata_list_before(1) [of h g]) (simp_all add: f)
  have rg: "gc_rootgc g = before_udata g @ udata_list g" using before_udata_list [OF lp(2)] by simp
  have ut: "gch_tt (gc_heap g u) = LUA_TUSERDATA" using lp(7) [of u] u by simp
  have un: "u \<notin> set (gc_rootgc g)" using lp(8) u by auto
  have 1: "distinct (gc_rootgc h)" "gc_mainthread h \<in> set (gc_rootgc h)" "distinct us" "u \<notin> set us"
    using lp(1,2,4) un u unfolding f rg by (auto simp: before_udata_def)
  have 2: "set (gc_rootgc h) = {p. alloc g p \<and> gch_tt (gc_heap g p) \<noteq> LUA_TSTRING \<and> \<not> open_uv g p \<and> p \<notin> set us}"
  proof (intro set_eqI)
    fix p
    have "p \<in> set (gc_rootgc g) \<longleftrightarrow> alloc g p \<and> gch_tt (gc_heap g p) \<noteq> LUA_TSTRING \<and> \<not> open_uv g p \<and> p \<notin> set (gc_tmudata g)"
      using lp(8) by blast
    moreover have "p \<in> set (gc_rootgc h) \<longleftrightarrow> p = u \<or> p \<in> set (gc_rootgc g)" unfolding f rg by auto
    moreover have "alloc g u" "\<not> open_uv g u" using ut by (auto simp: alloc_def open_uv_def tag_defs)
    ultimately show "p \<in> set (gc_rootgc h) \<longleftrightarrow> p \<in> {p. alloc g p \<and> gch_tt (gc_heap g p) \<noteq> LUA_TSTRING \<and> \<not> open_uv g p \<and> p \<notin> set us}"
      using ut u 1(4) by (cases "p = u") (simp_all add: tag_defs)
  qed
  have 3: "set (udata_list h) = {p. gch_tt (gc_heap g p) = LUA_TUSERDATA \<and> p \<notin> set us}"
    unfolding ul using lp(9) ut u 1(4) by (auto simp: set_eq_iff)
  have 4: "\<forall>p \<in> set us. gch_tt (gc_heap g p) = LUA_TUSERDATA" using lp(7) u by simp
  have "lists_ok h" unfolding lists_ok_def eq f(1,2,5) using 1 2 3 4 lp(3,5,6) by blast
  moreover have "struct h" by (rule hsim_struct [OF bp(2) hsim_same]) (simp_all add: h)
  moreover have "live_closed h" using bp(4) u unfolding live_closed_def eq f(2) by simp
  moreover have "black_ok h" "fixed_ok h" using bp(5,6) unfolding black_ok_def fixed_ok_def eq f by simp_all
  ultimately show ?thesis using bp(1) by (simp add: base_inv_def h)
qed

definition stack_room :: "gstate \<Rightarrow> bool" where
  "stack_room g \<longleftrightarrow> (\<forall>t. gc_heap g (gc_L g) = OThr t \<longrightarrow> th_top t + 2 < length (th_stack t))"

lemma push2_ok:
  assumes b: "base_inv g" and r: "stack_room g"
    and v: "\<And>r. r \<in> set (val_refs v1) \<union> set (val_refs v2) \<Longrightarrow> ref_ok g r \<and> \<not> dead g (snd r)"
  shows "\<exists>t'. push2 g v1 v2 = Inr (set_heap g (gc_L g) (OThr t')) \<and> base_inv (set_heap g (gc_L g) (OThr t')) \<and>
    gch_tt (gc_heap g (gc_L g)) = LUA_TTHREAD"
proof -
  note bp = base_parts [OF b]
  let ?l = "gc_L g"
  have l: "ref_ok g (LUA_TTHREAD, ?l)" "\<not> dead g ?l" using live_parts(3,4) [OF bp(4), of "(LUA_TTHREAD, ?l)"] by (simp_all add: roots_def)
  then obtain t where t: "gc_heap g ?l = OThr t" by (auto simp: ref_ok_def gch_tt_cases)
  let ?n = "th_top t"
  let ?t = "t\<lparr>th_stack := (th_stack t)[?n := v1, ?n + 1 := v2], th_top := ?n + 2\<rparr>"
  have n: "?n + 2 < length (th_stack t)" using r t by (simp add: stack_room_def)
  have tok: "thread_ok g ?l t" using bp(2) t by (simp add: struct_def)
  have tk: "take (?n + 2) ((th_stack t)[?n := v1, ?n + 1 := v2]) = take ?n (th_stack t) @ [v1, v2]"
    using n by (simp add: take_Suc_conv_app_nth numeral_2_eq_2)
  have "base_inv (set_heap g ?l (OThr ?t))"
  proof (rule write_thread [OF b t l(2), where R = "set (val_refs v1) \<union> set (val_refs v2)"])
    show "set (thread_refs ?t) \<subseteq> set (thread_refs t) \<union> (set (val_refs v1) \<union> set (val_refs v2))"
      using tk by (auto simp: thread_refs_def)
    show "\<forall>u \<in> set (th_openupval t). \<forall>i x. gc_heap g u = OUpval (Some (?l, i)) x \<longrightarrow> i < th_top ?t"
      using tok unfolding thread_ok_def by fastforce
  qed (use v n tok in \<open>auto simp: thread_ok_def\<close>)
  with t n show ?thesis by (auto simp: push2_def thread_at_def Let_def)
qed

text \<open>What the program that a finalizer runs leaves: a state of the invariant again.\<close>

definition call_ok :: "gc_call \<Rightarrow> bool" where
  "call_ok call \<longleftrightarrow> (\<forall>g. gc_inv g \<and> gc_gcstate g = GCSfinalize \<longrightarrow> returns gc_inv (call g))"

lemma gc_inv_cong:
  assumes g: "gc_inv g" and h: "gc_heap h = gc_heap g" "gc_marked h = gc_marked g" "gc_currentwhite h = gc_currentwhite g"
    "gc_uvhead h = gc_uvhead g" "gc_mainthread h = gc_mainthread g" "gc_L h = gc_L g" "gc_registry h = gc_registry g"
    "gc_mt h = gc_mt g" "gc_tmudata h = gc_tmudata g" "gc_rootgc h = gc_rootgc g" "gc_strt h = gc_strt g"
    "gc_gcstate h = gc_gcstate g" "gc_sweepstrgc h = gc_sweepstrgc g" "gc_sweepgc h = gc_sweepgc g"
    "gc_gray h = gc_gray g" "gc_grayagain h = gc_grayagain g" "gc_weak h = gc_weak g"
  shows "gc_inv h"
proof -
  have cl: "clean h p = clean g p" for p by (rule clean_colours [OF h(2,3)])
  have eq: "white h = white g" "alloc h = alloc g" "roots h = roots g" "ref_ok h = ref_ok g"
    by (simp_all add: white_def alloc_def roots_def ref_ok_def h fun_eq_iff)
  have f: "fixed_ok h = fixed_ok g" by (simp add: fixed_ok_def eq h)
  have hs: "hsim g h" by (rule hsim_same [OF h(1)])
  have b: "base_inv h" if "base_inv g" by (rule base_cong [OF that hs h(2-11)])
  have m: "mark_inv h" if "mark_inv g"
  proof -
    from that have tc: "tricolour (set (gc_tmudata g)) g" by (simp add: mark_inv_def)
    have "tricolour (set (gc_tmudata g)) h"
      by (rule tricolour_lists [OF tc h(1,2,3)]) (use tricolour_parts(5) [OF tc] in \<open>simp_all add: h\<close>)
    moreover have "struct h" by (rule hsim_struct [OF _ hs h(4)]) (use that in \<open>simp add: mark_inv_def\<close>)
    moreover have "lists_ok h" by (rule lists_ok_sim [OF _ hs h(10,11,9,5)]) (use that in \<open>simp add: mark_inv_def\<close>)
    ultimately show ?thesis using that by (simp add: mark_inv_def roots_ok_def eq h)
  qed
  have "swept h pos = swept g pos" for pos unfolding swept_def before_pos_cong [OF h(10)] cl h(1,10) ..
  then show ?thesis using g b m by (simp add: gc_inv_def f strings_clean_def all_clean_def cl eq h split: if_splits)
qed

lemma finalize_step:
  assumes g: "gc_inv g" and s: "gc_gcstate g = GCSfinalize" and c: "call_ok call"
    and r: "stack_room g \<or> (\<exists>x. singlestep call g = Inr x)"
  shows "returns (\<lambda>(n, g'). gc_inv g') (singlestep call g)"
proof (cases "gc_tmudata g")
  case Nil
  let ?h = "g\<lparr>gc_gcstate := GCSpause, gc_gcdept := 0\<rparr>"
  from g s have bg: "base_inv g" and ag: "all_clean g" by (simp_all add: gc_inv_def)
  have b: "base_inv ?h" by (rule base_cong [OF bg hsim_same]) simp_all
  have "clean ?h p = clean g p" "alloc ?h p = alloc g p" for p by (rule clean_colours; simp) (simp add: alloc_def)
  with ag have "all_clean ?h" by (simp add: all_clean_def)
  with b base_parts(6) [OF b] have "gc_inv ?h" by (simp add: gc_inv_def)
  with s Nil show ?thesis by (simp add: singlestep_def)
next
  case (Cons u us)
  from g s have b: "base_inv g" and ac: "all_clean g" by (simp_all add: gc_inv_def)
  note bp = base_parts [OF b] and lp = lists_ok_parts [OF base_parts(3) [OF b]]
  define g1 where "g1 = g\<lparr>gc_tmudata := us, gc_rootgc := before_udata g @ u # udata_list g\<rparr>"
  have b1: "base_inv g1" by (rule unlink_tmudata [OF b Cons g1_def])
  obtain mt e n where u: "gc_heap g u = OUdata mt e n" using lp(7) [of u] Cons by (auto simp: gch_tt_cases)
  have du: "\<not> dead g u" using live_parts(5) [OF bp(4), of u] Cons by simp
  have d1: "alloc g1 u" "notdead g1 u"
    using u du notdead_iff [OF base_parts(1) [OF b1], of u] by (simp_all add: g1_def alloc_def dead_def)
  define g2 where "g2 = makewhite g1 u"
  from makewhite_base [OF b1 d1] have b2: "base_inv g2" and c2: "clean g2 u" and k2: "keeps_live g1 g2" by (simp_all add: g2_def)
  have u2: "gc_heap g2 = gc_heap g" "gc_tmudata g2 = us" "gc_gcstate g2 = GCSfinalize" "gc_L g2 = gc_L g"
    using s by (simp_all add: g2_def g1_def makewhite_def)
  have ac2: "all_clean g2"
    unfolding all_clean_def
  proof (intro allI impI)
    fix p assume p: "alloc g2 p \<and> p \<notin> set (gc_tmudata g2)"
    show "clean g2 p"
    proof (cases "p = u")
      case False
      with p ac u2 Cons have "clean g p" by (simp add: all_clean_def alloc_def)
      then have "clean g1 p" using clean_colours [of g1 g p] by (simp add: g1_def)
      then show ?thesis by (rule clean_keeps [OF k2])
    qed (simp add: c2)
  qed
  note bp2 = base_parts [OF b2]
  have mtt: "mt = 0 \<or> gch_tt (gc_heap g2 mt) = LUA_TTABLE \<and> \<not> dead g2 mt"
    using live_parts(1,2) [OF bp2(4), of u "(LUA_TTABLE, mt)"] u c2 d1(1)
    by (auto simp: u2 refs_def opt_ref_def ref_ok_def alloc_def clean_def)
  from gfasttm_sep [OF bp2(2), of mt TM_GC_event] mtt obtain tm g3 where
    g3: "gfasttm g2 mt TM_GC_event = Inr (tm, g3)" "sep g2 g3" "gc_tmudata g3 = gc_tmudata g2" "gc_marked g3 = gc_marked g2"
    by (auto simp: returns_def)
  have f3: "frame g2 g3" using g3(2,3) by (simp add: sep_def frame_def)
  have h3: "hsim g2 g3" using g3(2) by (simp add: sep_def)
  have b3: "base_inv g3" by (rule base_cong [OF b2 h3 g3(4)]) (use f3 in \<open>simp_all add: frame_def\<close>)
  have cl3: "clean g3 p = clean g2 p" for p by (rule clean_colours) (use f3 g3(4) in \<open>simp_all add: frame_def\<close>)
  have ac3: "all_clean g3" using ac2 by (simp add: all_clean_def cl3 hsim_alloc [OF h3] g3(3))
  have s3: "gc_gcstate g3 = GCSfinalize" "gc_L g3 = gc_L g" using f3 u2 by (simp_all add: frame_def)
  have i3: "gc_inv g3" using b3 ac3 s3 base_parts(6) [OF b3] by (simp add: gc_inv_def)
  have gt: "GCTM call g = bindr (Inr (tm, g3)) (\<lambda>(tm, g). case tm of None \<Rightarrow> Inr g
              | Some f \<Rightarrow> bindr (push2 (g\<lparr>gc_GCthreshold := 2 * gc_totalbytes g\<rparr>) f (TUData u)) (\<lambda>h.
                  bindr (call h) (\<lambda>h. Inr (h\<lparr>gc_GCthreshold := gc_GCthreshold g\<rparr>))))"
    using Cons u u2(1) g3(1) by (cases tm) (simp_all add: GCTM_def g1_def [symmetric] g2_def [symmetric] Let_def)
  have fin: "returns gc_inv (GCTM call g)"
  proof (cases tm)
    case None
    with gt i3 show ?thesis by simp
  next
    case (Some f)
    define g4 where "g4 = g3\<lparr>gc_GCthreshold := 2 * gc_totalbytes g3\<rparr>"
    have b4: "base_inv g4" by (rule base_cong [OF b3 hsim_same]) (simp_all add: g4_def)
    have c4: "gc_heap g4 = gc_heap g3" "gc_marked g4 = gc_marked g3" "gc_currentwhite g4 = gc_currentwhite g3" "gc_L g4 = gc_L g"
      "gc_gcstate g4 = GCSfinalize" "gc_tmudata g4 = gc_tmudata g3"
      using s3 by (simp_all add: g4_def)
    have rm: "stack_room g4"
    proof (cases "stack_room g")
      case False
      with r s Cons gt Some have "\<exists>x. push2 g4 f (TUData u) = Inr x" by (auto simp: singlestep_def bindr_Inr_iff g4_def)
      then show ?thesis by (auto simp: push2_def stack_room_def bindr_Inr_iff Let_def thread_at_def split: if_splits)
    next
      case r: True
      show ?thesis
      proof (unfold stack_room_def, intro allI impI)
        fix t assume t: "gc_heap g4 (gc_L g4) = OThr t"
        have "gc_heap g3 (gc_L g) = gc_heap g2 (gc_L g)"
        proof -
          have "gc_L g \<noteq> mt \<or> gch_tt (gc_heap g2 (gc_L g)) = LUA_TTABLE \<or> mt = 0" using mtt by blast
          then show ?thesis
            using g3(1) t bp2(2) h3 c4 by (auto simp: gfasttm_def tab_at_def bindr_Inr_iff struct_def osim_simps hsim_def
                gch_tt_cases split: if_splits GCObj.splits)
        qed
        with t r u2(1) c4 show "th_top t + 2 < length (th_stack t)" by (simp add: stack_room_def)
      qed
    qed
    have v: "ref_ok g4 x \<and> \<not> dead g4 (snd x)" if "x \<in> set (val_refs f) \<union> set (val_refs (TUData u))" for x
    proof -
      have "x \<in> refs g2 mt \<and> mt \<noteq> 0 \<or> x = (LUA_TUSERDATA, u)"
        using that gfasttm_value [OF bp2(2) g3(1) [unfolded Some]] g3(1) Some by (auto simp: val_refs_def gfasttm_def tag_defs)
      then have "ref_ok g2 x \<and> \<not> dead g2 (snd x)"
      proof
        assume x: "x \<in> refs g2 mt \<and> mt \<noteq> 0"
        then have "alloc g2 mt" by (auto simp: refs_def alloc_def)
        with x mtt live_parts(1,2) [OF bp2(4), of mt x] show ?thesis by blast
      qed (use c2 u u2(1) in \<open>simp add: ref_ok_def clean_def tag_defs\<close>)
      moreover have "dead g4 = dead g2" using f3 g3(4) c4 by (simp add: dead_def frame_def fun_eq_iff)
      moreover have "ref_ok g4 x = ref_ok g2 x" using hsim_ref_ok [OF h3, of x] c4(1) by (simp add: ref_ok_def)
      ultimately show ?thesis by simp
    qed
    from push2_ok [OF b4 rm v] obtain t' where
      p: "push2 g4 f (TUData u) = Inr (set_heap g4 (gc_L g4) (OThr t'))" "base_inv (set_heap g4 (gc_L g4) (OThr t'))"
        "gch_tt (gc_heap g4 (gc_L g4)) = LUA_TTHREAD" by auto
    let ?g5 = "set_heap g4 (gc_L g4) (OThr t')"
    have "clean ?g5 q = clean g3 q" for q by (rule clean_colours) (simp_all add: c4)
    moreover have "alloc ?g5 q = alloc g3 q" for q using p(3) c4(1) by (auto simp: alloc_def tag_defs)
    ultimately have "all_clean ?g5" using ac3 c4(6) by (simp add: all_clean_def)
    then have "gc_inv ?g5" using p(2) base_parts(6) [OF p(2)] c4(5) by (simp add: gc_inv_def)
    with c c4(5) have "returns gc_inv (call ?g5)" by (simp add: call_ok_def)
    then have "returns gc_inv (bindr (call ?g5) (\<lambda>h. Inr (h\<lparr>gc_GCthreshold := gc_GCthreshold g3\<rparr>)))"
      unfolding returns_bindr by (rule returns_conseq) (simp, rule gc_inv_cong, simp_all)
    with gt Some p(1) show ?thesis by (simp add: g4_def)
  qed
  have "gc_inv (h\<lparr>gc_estimate := z\<rparr>)" if "gc_inv h" for h z by (rule gc_inv_cong [OF that]) simp_all
  with fin s Cons show ?thesis by (simp add: singlestep_def returns_bindr) (erule returns_conseq, simp)
qed

section \<open>Every step\<close>

text \<open>A step keeps the invariant and frees nothing that the program can reach. The finalizer that the last
  phase calls runs the program, so it may do anything that keeps the invariant.\<close>

lemma reachable_live: "base_inv g \<Longrightarrow> p \<in> reachable g \<Longrightarrow> alloc g p \<and> \<not> dead g p"
  by (rule live_reachable) (rule base_parts(4))

lemma singlestep_ok:
  assumes g: "gc_inv g" and s: "gc_gcstate g \<noteq> GCSfinalize"
  shows "returns (\<lambda>(n, g'). gc_inv g' \<and> (\<forall>p \<in> reachable g. gch_tt (gc_heap g' p) = gch_tt (gc_heap g p))) (singlestep call g)"
proof -
  have fx: "fixed_ok g" using g by (simp add: gc_inv_def)
  consider (pause) "gc_gcstate g = GCSpause" | (mark) "gc_gcstate g = GCSpropagate" "gc_gray g \<noteq> []"
    | (atomic) "gc_gcstate g = GCSpropagate" "gc_gray g = []" | (strings) "gc_gcstate g = GCSsweepstring" | (sweep) "gc_gcstate g = GCSsweep"
    using g s by (auto simp: gc_inv_def split: if_splits)
  then show ?thesis
  proof cases
    case pause
    then have "base_inv g" "all_clean g" using g by (simp_all add: gc_inv_def)
    from markroot_ok [OF this] obtain g' where "markroot g = Inr g'" "mark_inv g'" "fixed_ok g'" "gc_gcstate g' = GCSpropagate" "hsim g g'"
      by blast
    with pause hsim_tt show ?thesis by (simp add: singlestep_def gc_inv_def)
  next
    case mark
    then have "mark_inv g" using g by (simp add: gc_inv_def)
    from propagate_inv [OF this fx mark(2)] obtain n g' where
      "propagatemark g = Inr (n, g')" "mark_inv g'" "fixed_ok g'" "gc_gcstate g' = gc_gcstate g" "hsim g g'" by blast
    with mark hsim_tt show ?thesis by (simp add: singlestep_def gc_inv_def)
  next
    case atomic
    then have "mark_inv g" using g by (simp add: gc_inv_def)
    from atomic_inv [OF this fx] obtain g' where "atomic g = Inr g'" "gc_inv g'" "\<forall>p. gch_tt (gc_heap g' p) = gch_tt (gc_heap g p)" by blast
    with atomic show ?thesis by (simp add: singlestep_def)
  next
    case strings
    then have "base_inv g" using g by (simp add: gc_inv_def)
    with sweepstring_step [OF g strings, of call] reachable_live [of g] show ?thesis by (auto simp: returns_def)
  next
    case sweep
    then have "base_inv g" using g by (simp add: gc_inv_def)
    with sweep_step [OF g sweep, of call] reachable_live [of g] show ?thesis by (auto simp: returns_def)
  qed
qed

end
