(* ===== verification/LuaGCMut.thy ===== *)
theory LuaGCMut
  imports LuaGCStep
begin

text \<open>
  The program between the steps of the collector: writes with their barriers, new objects, stacks. Whatever the
  order of these operations, no reference that the program can reach dangles.
\<close>

section \<open>An object is overwritten\<close>

text \<open>The object at \<open>p\<close>, no thread and no open upvalue, gets other contents of its type.\<close>

definition overwrites :: "gstate \<Rightarrow> ptr \<Rightarrow> GCObj \<Rightarrow> bool" where
  "overwrites g p x \<longleftrightarrow> gch_tt x = gch_tt (gc_heap g p) \<and> gch_tt x \<noteq> LUA_TTHREAD \<and> gch_tt x \<noteq> LUA_TNIL \<and> \<not> open_uv g p \<and>
     (\<forall>v y. x \<noteq> OUpval (Some v) y) \<and> (\<forall>t. x = OTab t \<longrightarrow> tchain t)"

lemma overwrite_facts:
  assumes w: "overwrites g p x"
  shows "gch_tt (gc_heap (set_heap g p x) q) = gch_tt (gc_heap g q)" "open_uv (set_heap g p x) q = open_uv g q"
    "refs (set_heap g p x) q = (if q = p then set (obj_refs (gc_heap g) x) else refs g q)" "alloc (set_heap g p x) q = alloc g q"
    "struct g \<Longrightarrow> struct (set_heap g p x)"
proof -
  let ?h = "set_heap g p x"
  show tt: "gch_tt (gc_heap ?h q) = gch_tt (gc_heap g q)" for q using w by (simp add: overwrites_def)
  have px: "\<not> open_uv ?h p" using w by (auto simp: open_uv_def overwrites_def)
  have nt: "gc_heap g p \<noteq> OThr t" "x \<noteq> OThr t" for t using w by (auto simp: overwrites_def)
  have up: "gc_heap ?h q = OUpval (Some v) y \<longleftrightarrow> gc_heap g q = OUpval (Some v) y" for q v y
    using w by (cases v) (auto simp: overwrites_def open_uv_def)
  then show op: "open_uv ?h q = open_uv g q" for q by (simp only: open_uv_def)
  show "alloc ?h q = alloc g q" using tt [of q] gch_tt_alloc [of "gc_heap ?h q"] gch_tt_alloc [of "gc_heap g q"] by (simp add: alloc_def)
  have thr: "gc_heap ?h q = OThr t \<longleftrightarrow> gc_heap g q = OThr t" for q t using nt by auto
  have "slot_at (gc_heap ?h) th i = slot_at (gc_heap g) th i" for th i
    using nt by (cases "th = p"; cases x; cases "gc_heap g p") (auto simp: slot_at_def)
  then have "obj_refs (gc_heap ?h) y = obj_refs (gc_heap g) y" for y
    by (cases "(gc_heap g, y)" rule: obj_refs.cases) auto
  then show "refs ?h q = (if q = p then set (obj_refs (gc_heap g) x) else refs g q)" by (simp add: refs_def)
  show "struct ?h" if st: "struct g"
  proof -
    have "thread_ok ?h q t" if "gc_heap ?h q = OThr t" for q t
      using that st unfolding thr thread_ok_def up struct_def by blast
    moreover have "\<exists>t. gc_heap ?h th = OThr t \<and> u \<in> set (th_openupval t)" if "gc_heap ?h u = OUpval (Some (th, i)) y" for u th i y
      using that st unfolding up thr struct_def by blast
    moreover have "tchain t" if "gc_heap ?h q = OTab t" for q t
      using that st w by (auto simp: struct_def overwrites_def split: if_splits)
    moreover have "gc_heap ?h 0 = OFree" using st w by (auto simp: struct_def overwrites_def)
    moreover have "distinct (gc_uvhead ?h)" "set (gc_uvhead ?h) = {u. open_uv ?h u}"
      using st unfolding op by (simp_all add: struct_def)
    ultimately show ?thesis unfolding struct_def by blast
  qed
qed

lemma overwrite_upval:
  "overwrites g p x \<Longrightarrow> gc_heap (set_heap g p x) u = OUpval (Some v) y \<Longrightarrow> gc_heap g u = OUpval (Some v) y"
  by (cases v; cases "u = p") (auto simp: overwrites_def)

lemma same_colours:
  "white (set_heap g p x) = white g" "black (set_heap g p x) = black g" "dead (set_heap g p x) = dead g"
  "clean (set_heap g p x) = clean g" "roots (set_heap g p x) = roots g"
  by (auto simp: white_def black_def dead_def clean_def roots_def fun_eq_iff)

lemma overwrite_base:
  assumes b: "base_inv g" and w: "overwrites g p x" and p: "\<not> dead g p"
    and r: "set (obj_refs (gc_heap g) x) \<subseteq> insert r (refs g p)" "ref_ok g r" "\<not> dead g (snd r)"
  shows "base_inv (set_heap g p x)"
proof -
  let ?h = "set_heap g p x"
  note bp = base_parts [OF b] and f = overwrite_facts [OF w]
  have ro: "ref_ok ?h y = ref_ok g y" for y by (simp only: ref_ok_def f(1))
  have "lists_ok ?h" by (rule lists_ok_tt [OF bp(3) f(1,2)]) simp_all
  moreover have "live_closed ?h"
  proof (rule live_closedI)
    fix q y assume q: "alloc ?h q" "\<not> dead ?h q" "y \<in> refs ?h q"
    then have "alloc g q" "\<not> dead g q" "y \<in> refs g q \<or> y = r" using r(1) by (auto simp: f same_colours split: if_splits)
    with r(2,3) live_parts(1,2) [OF bp(4), of q y] show "ref_ok ?h y \<and> \<not> dead ?h (snd y)" unfolding ro same_colours by blast
  next
    fix y assume "y \<in> roots ?h"
    with live_parts(3,4) [OF bp(4), of y] show "ref_ok ?h y \<and> \<not> dead ?h (snd y)" unfolding ro same_colours by blast
  next
    fix v assume "v \<in> set (gc_tmudata ?h)"
    with live_parts(5) [OF bp(4), of v] show "\<not> dead ?h v" unfolding same_colours by simp
  qed
  moreover have "black_ok ?h" using bp(5) unfolding black_ok_def same_colours f(1,2,4) .
  moreover have "fixed_ok ?h" by (rule fixed_sim [OF bp(6) f(1)]) (simp_all add: hibits_def)
  ultimately show ?thesis using f(5) [OF bp(2)] bp(1) by (simp add: base_inv_def)
qed

lemma black2gray_base:
  assumes b: "base_inv g"
  shows "base_inv (luaC_barrierback g p) \<and> (\<forall>q. clean (luaC_barrierback g p) q = clean g q)"
proof -
  let ?h = "luaC_barrierback g p"
  note bp = base_parts [OF b]
  have f: "gc_heap ?h = gc_heap g" "gc_currentwhite ?h = gc_currentwhite g" "gc_tmudata ?h = gc_tmudata g" "gc_mainthread ?h = gc_mainthread g"
    "gc_uvhead ?h = gc_uvhead g" "gc_rootgc ?h = gc_rootgc g" "gc_strt ?h = gc_strt g"
    "\<And>q. gc_marked ?h q = (if q = p then black2gray (gc_marked g p) else gc_marked g q)"
    by (simp_all add: luaC_barrierback_def Let_def)
  have col: "white ?h q = white g q" "dead ?h q = dead g q" "black ?h q \<Longrightarrow> black g q" for q
    using bp(1) by (auto simp: white_def dead_def black_def f split: if_splits)
  have eq: "alloc ?h = alloc g" "refs ?h = refs g" "ref_ok ?h = ref_ok g" "open_uv ?h = open_uv g" "roots ?h = roots g"
    by (intro ext; simp add: alloc_def refs_def ref_ok_def open_uv_def f)+ (simp add: roots_def luaC_barrierback_def Let_def)
  have "struct ?h" by (rule hsim_struct [OF bp(2) hsim_same]) (simp_all add: f)
  moreover have "lists_ok ?h" by (rule lists_ok_sim [OF bp(3) hsim_same]) (simp_all add: f)
  moreover have "live_closed ?h" using bp(4) unfolding live_closed_def eq col f(3) .
  moreover have "black_ok ?h" using bp(5) col(3) by (auto simp: black_ok_def eq col(1) f(1))
  moreover have "fixed_ok ?h" using bp(6) by (auto simp: fixed_ok_def eq f bit_black2gray)
  ultimately show ?thesis using bp(1) by (simp add: base_inv_def f(2) clean_def col)
qed

text \<open>Outside the propagation an operation need only keep \<open>base_inv\<close> and what is swept.\<close>

lemma phase_keep:
  assumes g: "gc_inv g" "gc_gcstate g \<noteq> GCSpropagate" and b: "base_inv h" and c: "\<And>q. clean g q \<Longrightarrow> clean h q"
    and a: "\<And>q. alloc h q \<Longrightarrow> alloc g q \<or> clean h q"
    and f: "gc_strt h = gc_strt g" "gc_sweepgc h = gc_sweepgc g" "gc_sweepstrgc h = gc_sweepstrgc g" "gc_gcstate h = gc_gcstate g"
      "gc_tmudata h = gc_tmudata g"
    and sw: "swept g (gc_sweepgc g) \<Longrightarrow> swept h (gc_sweepgc g)"
  shows "gc_inv h"
proof -
  have "strings_clean h n" if "strings_clean g n" for n using that c by (simp add: strings_clean_def f(1))
  moreover have "all_clean h" if "all_clean g" using that a c by (auto simp: all_clean_def f(5))
  ultimately show ?thesis using g b base_parts(6) [OF b] sw by (simp add: gc_inv_def f split: if_splits)
qed

lemma swept_same:
  assumes "swept g pos" "gc_rootgc h = gc_rootgc g" "\<And>q. clean g q \<Longrightarrow> clean h q"
    "\<And>u v y. gc_heap h u = OUpval (Some v) y \<Longrightarrow> gc_heap g u = OUpval (Some v) y"
  shows "swept h pos"
  using assms(1,3,4) unfolding swept_def before_pos_cong [OF assms(2)] assms(2) by blast

section \<open>Writes while marks are propagated\<close>

lemma overwrite_tricolour:
  assumes tc: "tricolour X g" and w: "overwrites g p x"
    and r: "set (obj_refs (gc_heap g) x) \<subseteq> insert r (refs g p)" "ref_ok g r"
  shows "tricolour (insert p X) (set_heap g p x)"
proof -
  let ?h = "set_heap g p x"
  note f = overwrite_facts [OF w] and t = tricolour_parts [OF tc]
  have ro: "ref_ok ?h y = ref_ok g y" for y by (simp only: ref_ok_def f(1))
  have gk: "gray_kind (gc_heap ?h q) = gray_kind (gc_heap g q)" for q by (simp only: gray_kind_def f(1))
  have rk: "ref_ok g y" if "y \<in> refs ?h q" for y q
    using that t(4) [of y q] r by (auto simp: f(3) split: if_splits)
  have mr: "marked_refs ?h q = marked_refs g q" if "q \<noteq> p" for q using that by (simp add: marked_refs_def f(3) same_colours)
  have gl: "gray_lists ?h = gray_lists g" "gc_weak ?h = gc_weak g" "gc_grayagain ?h = gc_grayagain g" "gc_currentwhite ?h = gc_currentwhite g" by simp_all
  show ?thesis
    unfolding tricolour_def same_colours ro gk f(1,2,4) gl
    using t(1-3,5-14) rk mr by (intro conjI allI impI ballI) auto
qed

lemma keep_white_ref:
  assumes "tricolour X g" "overwrites g p x" "set (obj_refs (gc_heap g) x) \<subseteq> insert r (refs g p)" "ref_ok g r"
    and ok: "black g p \<Longrightarrow> p \<notin> X \<Longrightarrow> \<not> white g (snd r)"
  shows "tricolour X (set_heap g p x)"
proof (cases "p \<in> X")
  case True
  with overwrite_tricolour [OF assms(1-4)] show ?thesis by (simp add: insert_absorb)
next
  case False
  note t = tricolour_parts [OF assms(1)] and f = overwrite_facts [OF assms(2)]
  show ?thesis
  proof (rule tricolour_drop [OF overwrite_tricolour [OF assms(1-4)]])
    assume b: "black (set_heap g p x) p"
    with False t(9,11,12) [of p] ok assms(3)
    show "marked_refs (set_heap g p x) p \<and> \<not> open_uv (set_heap g p x) p \<and> gch_tt (gc_heap (set_heap g p x) p) \<noteq> LUA_TTHREAD"
      unfolding f(1,2) by (auto simp: marked_refs_def f(3) same_colours)
  next
    assume "p \<in> set (gray_lists (set_heap g p x))"
    with False t(8) [of p] show "\<not> black (set_heap g p x) p" by (simp add: same_colours)
  next
    assume n: "\<not> white (set_heap g p x) p" "\<not> black (set_heap g p x) p"
    have "alloc g p" using assms(2) gch_tt_alloc [of "gc_heap g p"] by (auto simp: overwrites_def alloc_def)
    with n t(10) [of p] False
    show "gch_tt (gc_heap (set_heap g p x) p) = LUA_TSTRING \<or> open_uv (set_heap g p x) p \<or> p \<in> set (gray_lists (set_heap g p x))"
      unfolding f(1,2) same_colours by simp
  qed
qed

lemma mark_keep:
  assumes m: "mark_inv g" and t: "tricolour (set (gc_tmudata g)) k" "struct k"
    and tt: "\<And>q. gch_tt (gc_heap k q) = gch_tt (gc_heap g q)" "\<And>q. open_uv k q = open_uv g q"
    and f: "gc_rootgc k = gc_rootgc g" "gc_strt k = gc_strt g" "gc_tmudata k = gc_tmudata g" "gc_mainthread k = gc_mainthread g"
      "roots k = roots g" "gc_registry k = gc_registry g"
    and w: "\<And>q. \<not> white g q \<Longrightarrow> \<not> white k q"
  shows "mark_inv k"
proof -
  have "lists_ok k" by (rule lists_ok_tt [OF _ tt f(1-4)]) (use m in \<open>simp add: mark_inv_def\<close>)
  moreover have "roots_ok k" using m tt(1) by (simp add: mark_inv_def roots_ok_def f ref_ok_def)
  ultimately show ?thesis using t m w by (simp add: mark_inv_def f)
qed

lemma barrierback_tricolour:
  assumes tc: "tricolour (insert p X) g" and p: "black g p" "\<not> white g p" "p \<notin> set (gray_lists g)" "gch_tt (gc_heap g p) = LUA_TTABLE"
  shows "tricolour X (luaC_barrierback g p)"
proof -
  let ?m = "black2gray (gc_marked g p)"
  let ?k = "set_marked g p ?m" and ?h = "luaC_barrierback g p"
  have cw: "cw_ok (gc_currentwhite g)" using tricolour_parts(1) [OF tc] .
  have nd: "\<not> dead g p" using tricolour_parts(2) [OF tc, of p] p(4) gch_tt_alloc [of "gc_heap g p"] by (simp add: alloc_def tag_defs)
  have k: "tricolour (insert p X) ?k"
    by (rule tricolour_reblack [OF tc _ p(2)]) (use p(2) nd cw in \<open>simp_all add: white_def dead_def\<close>)
  note t = tricolour_parts [OF k]
  have eq: "white ?h = white ?k" "black ?h = black ?k" "dead ?h = dead ?k" "alloc ?h = alloc ?k" "refs ?h = refs ?k"
    "ref_ok ?h = ref_ok ?k" "open_uv ?h = open_uv ?k" "marked_refs ?h = marked_refs ?k"
    by (auto simp: luaC_barrierback_def Let_def white_def black_def dead_def alloc_def refs_def ref_ok_def open_uv_def marked_refs_def fun_eq_iff)
  have np: "\<not> black ?k p" "\<not> white ?k p" using p(2) by (simp_all add: black_def white_def)
  have hh: "gc_heap ?h = gc_heap ?k" "gc_gray ?h = gc_gray ?k" "gc_weak ?h = gc_weak ?k" "gc_grayagain ?h = p # gc_grayagain ?k"
    "gc_currentwhite ?h = gc_currentwhite ?k" by (simp_all add: luaC_barrierback_def Let_def)
  have d: "distinct (gray_lists ?h)" using t(5) p(3) by (auto simp: hh)
  have 1: "gray_kind (gc_heap ?k q) \<and> \<not> white ?k q \<and> (q \<notin> insert p X \<longrightarrow> \<not> black ?k q)" if "q \<in> set (gray_lists ?h)" for q
  proof (cases "q = p")
    case True
    with np p(4) show ?thesis by (simp add: gray_kind_def)
  next
    case False
    with that have "q \<in> set (gray_lists ?k)" by (auto simp: hh)
    with t(6-8) show ?thesis by blast
  qed
  have 2: "gch_tt (gc_heap ?k q) = LUA_TTABLE \<or> gch_tt (gc_heap ?k q) = LUA_TTHREAD" if "q \<in> set (gc_grayagain ?h)" for q
    using that t(14) [of q] p(4) by (cases "q = p") (simp_all add: hh(4))
  have 3: "gch_tt (gc_heap ?k q) = LUA_TSTRING \<or> open_uv ?k q \<or> q \<in> set (gray_lists ?h)"
    if "alloc ?k q" "\<not> white ?k q" "\<not> black ?k q" "q \<notin> insert p X" for q
    using t(10) [of q] that unfolding hh(2-4) by auto
  have "tricolour (insert p X) ?h"
    unfolding tricolour_def eq hh(1,5)
    using t(1-4,9,11-13) d 1 2 3 by (intro conjI allI impI ballI) (simp_all add: hh(3))
  then show ?thesis
    by (rule tricolour_drop) (use np in \<open>simp_all add: eq hh\<close>)
qed

text \<open>What the program may hand to a write: any reference to an object that is not dead. All it can reach are such
  (\<open>reachable_alive\<close>), and so is an object just made.\<close>

definition has_ref :: "gstate \<Rightarrow> nat \<times> ptr \<Rightarrow> bool" where
  "has_ref g r \<longleftrightarrow> ref_ok g r \<and> \<not> dead g (snd r)"

lemma not_X: "lists_ok g \<Longrightarrow> gch_tt (gc_heap g p) \<noteq> LUA_TUSERDATA \<Longrightarrow> p \<notin> set (gc_tmudata g)"
  using lists_ok_parts(7) by blast

text \<open>Tables: the barrier moves back.\<close>

lemma write_table:
  assumes g: "gc_inv g" and w: "overwrites g p x" and p: "\<not> dead g p" "gch_tt (gc_heap g p) = LUA_TTABLE"
    and r: "set (obj_refs (gc_heap g) x) \<subseteq> insert r (refs g p)" "has_ref g r"
  shows "gc_inv (luaC_objbarriert (set_heap g p x) p (snd r))"
proof (cases "gc_gcstate g = GCSpropagate")
  case True
  let ?h = "set_heap g p x" and ?X = "set (gc_tmudata g)"
  let ?k = "luaC_objbarriert ?h p (snd r)"
  from g True have m: "mark_inv g" and fx: "fixed_ok g" by (simp_all add: gc_inv_def)
  then have tc: "tricolour ?X g" and st: "struct g" and l: "lists_ok g" by (simp_all add: mark_inv_def)
  note f = overwrite_facts [OF w]
  have pX: "p \<notin> ?X" by (rule not_X [OF l]) (simp add: p(2) tag_defs)
  have ro: "ref_ok g r" using r(2) by (simp add: has_ref_def)
  have al: "alloc g p" using p(2) gch_tt_alloc [of "gc_heap g p"] by (simp add: alloc_def tag_defs)
  have tk: "tricolour ?X ?k"
  proof (cases "white ?h (snd r) \<and> black ?h p")
    case True
    have bp: "black g p" "\<not> white g p" using True tricolour_parts(3) [OF tc al] by (auto simp: same_colours)
    have "p \<notin> set (gray_lists g)" using tricolour_parts(8) [OF tc _ pX] bp(1) by blast
    then have np: "p \<notin> set (gray_lists ?h)" by simp
    have "tricolour ?X (luaC_barrierback ?h p)"
      by (rule barrierback_tricolour [OF overwrite_tricolour [OF tc w r(1) ro] _ _ np]) (use bp p(2) f(1) [of p] in \<open>simp_all add: same_colours\<close>)
    then show ?thesis unfolding luaC_objbarriert_def if_P [OF True] .
  next
    case False
    show ?thesis unfolding luaC_objbarriert_def if_not_P [OF False]
      by (rule keep_white_ref [OF tc w r(1) ro]) (use False in \<open>simp add: same_colours\<close>)
  qed
  have e: "gc_heap ?k = gc_heap ?h" "gc_rootgc ?k = gc_rootgc g" "gc_strt ?k = gc_strt g" "gc_tmudata ?k = gc_tmudata g"
    "gc_mainthread ?k = gc_mainthread g" "roots ?k = roots g" "gc_registry ?k = gc_registry g" "gc_uvhead ?k = gc_uvhead g" "gc_gcstate ?k = gc_gcstate g"
    by (simp_all add: luaC_objbarriert_def luaC_barrierback_def Let_def roots_def)
  have "struct ?k" by (rule hsim_struct [OF f(5) [OF st] hsim_same]) (simp_all add: e)
  moreover have tt: "gch_tt (gc_heap ?k q) = gch_tt (gc_heap g q)" for q unfolding e(1) by (rule f(1))
  moreover have "open_uv ?k q = open_uv g q" for q using f(2) [of q] e(1) by (simp add: open_uv_def)
  moreover have "\<not> white ?k q" if "\<not> white g q" for q
    using that by (auto simp: luaC_objbarriert_def luaC_barrierback_def Let_def white_def)
  ultimately have "mark_inv ?k" by (intro mark_keep [OF m tk _ _ _ e(2-7)])
  moreover have "fixed_ok ?k"
    by (rule fixed_sim [OF fx tt _ e(5)]) (auto simp: hibits_def luaC_objbarriert_def luaC_barrierback_def Let_def bit_black2gray)
  ultimately show ?thesis using True e(9) by (simp add: gc_inv_def)
next
  case False
  let ?h = "set_heap g p x"
  let ?k = "luaC_objbarriert ?h p (snd r)"
  from g False have b: "base_inv g" by (simp add: gc_inv_def)
  have l: "\<not> dead g p" "ref_ok g r" "\<not> dead g (snd r)" using r(2) p(1) by (auto simp: has_ref_def)
  have bh: "base_inv ?h" by (rule overwrite_base [OF b w l(1) r(1) l(2,3)])
  have k: "base_inv ?k \<and> (\<forall>q. clean ?k q = clean g q)"
    using bh black2gray_base [OF bh] by (auto simp: luaC_objbarriert_def same_colours)
  have e: "gc_heap ?k = gc_heap ?h" by (simp add: luaC_objbarriert_def luaC_barrierback_def Let_def)
  show ?thesis
  proof (rule phase_keep [OF g False conjunct1 [OF k]])
    show "alloc ?k q \<Longrightarrow> alloc g q \<or> clean ?k q" for q using overwrite_facts(4) [OF w, of q] e by (simp add: alloc_def)
    show "swept ?k (gc_sweepgc g)" if "swept g (gc_sweepgc g)"
    proof (rule swept_same [OF that])
      show "gc_heap ?k u = OUpval (Some v) y \<Longrightarrow> gc_heap g u = OUpval (Some v) y" for u v y
        using overwrite_upval [OF w, of u v y] e by simp
    qed (use k in \<open>simp_all add: luaC_objbarriert_def luaC_barrierback_def Let_def\<close>)
  qed (use k in \<open>simp_all add: luaC_objbarriert_def luaC_barrierback_def Let_def\<close>)
qed

text \<open>Other objects: the barrier moves forward.\<close>

lemma write_object:
  assumes g: "gc_inv g" and w: "overwrites g p x" and p: "\<not> dead g p"
    and r: "set (obj_refs (gc_heap g) x) \<subseteq> insert r (refs g p)" "has_ref g r"
  shows "returns gc_inv (luaC_objbarrier (set_heap g p x) p (snd r))"
proof (cases "gc_gcstate g = GCSpropagate")
  case True
  let ?h = "set_heap g p x" and ?X = "set (gc_tmudata g)"
  from g True have m: "mark_inv g" and fx: "fixed_ok g" by (simp_all add: gc_inv_def)
  then have tc: "tricolour ?X g" and st: "struct g" and l: "lists_ok g" by (simp_all add: mark_inv_def)
  note f = overwrite_facts [OF w]
  have ro: "ref_ok g r" using r(2) by (simp add: has_ref_def)
  have al: "alloc g p" using w gch_tt_alloc [of "gc_heap g p"] by (auto simp: overwrites_def alloc_def)
  have sh: "struct ?h" by (rule f(5) [OF st])
  have fin: "gc_inv k" if k: "trav Y ?h {} k" "tricolour ?X k" for Y k
  proof -
    note a = trav_parts [OF k(1)]
    have e: "gc_rootgc k = gc_rootgc g" "gc_strt k = gc_strt g" "gc_tmudata k = gc_tmudata g" "gc_mainthread k = gc_mainthread g"
      "roots k = roots g" "gc_registry k = gc_registry g" "gc_gcstate k = gc_gcstate g"
      using a(4) roots_frame [OF a(4)] by (simp_all add: frame_def same_colours)
    have tt: "gch_tt (gc_heap k q) = gch_tt (gc_heap g q)" for q using hsim_tt [OF a(3), of q] f(1) [of q] by simp
    have "open_uv k q = open_uv g q" for q using hsim_open [OF a(3), of q] f(2) [of q] by simp
    moreover have "\<not> white k q" if "\<not> white g q" for q using a(10) [of q] that by (simp add: same_colours)
    ultimately have "mark_inv k" by (intro mark_keep [OF m k(2) a(2) tt _ e(1-6)])
    moreover have "fixed_ok k" by (rule fixed_sim [OF fx tt _ e(4)]) (use a(13) in \<open>simp add: hibits_def\<close>)
    ultimately show ?thesis using True e(7) by (simp add: gc_inv_def)
  qed
  show ?thesis
  proof (cases "white ?h (snd r) \<and> black ?h p")
    case wb: True
    have th: "tricolour (insert p ?X) ?h" by (rule overwrite_tricolour [OF tc w r(1) ro])
    have ah: "alloc ?h (snd r)" using ref_ok_alloc [of g "fst r" "snd r"] ro f(4) by simp
    have "returns (marks (insert p ?X) ?h {snd r}) (reallymarkobject ?h (snd r))"
      by (rule reallymark_marks [OF th sh _ ah]) (use wb in simp)
    then have "returns gc_inv (reallymarkobject ?h (snd r))"
    proof (rule returns_conseq)
      fix k assume "marks (insert p ?X) ?h {snd r} k"
      from marks_trav [OF sh this] have k: "trav (insert p ?X) ?h {snd r} k" .
      note a = trav_parts [OF k]
      have "tricolour ?X k"
      proof (cases "p \<in> ?X")
        case False
        have bg: "black g p" "\<not> white g p" using wb tricolour_parts(3) [OF tc al] by (auto simp: same_colours)
        note t = tricolour_parts [OF tc]
        have mk: "gc_marked k p = gc_marked ?h p" using a(6) bg(2) by (simp add: same_colours)
        then have bk: "black k p" using bg(1) by (simp add: black_def)
        have "p \<notin> set (gray_lists ?h)" using t(8) [of p] False bg(1) by auto
        then have np: "p \<notin> set (gray_lists k)" using a(7,8,12) bg(2) by (auto simp: same_colours)
        have "\<not> white k (snd y)" if "y \<in> refs k p" for y
        proof -
          have "y \<in> refs ?h p" using that hsim_refs [OF sh a(3), of p] by simp
          then have "y = r \<or> y \<in> refs g p" using r(1) f(3) [of p] by auto
          moreover have "\<not> white g (snd y)" if "y \<in> refs g p" using t(9) [OF bg(1) False] that by (auto simp: marked_refs_def)
          ultimately show ?thesis using a(9,10) by (auto simp: same_colours)
        qed
        then have "marked_refs k p" by (auto simp: marked_refs_def)
        moreover have "\<not> open_uv k p \<and> gch_tt (gc_heap k p) \<noteq> LUA_TTHREAD"
          using t(11,12) [OF bg(1) False] hsim_open [OF a(3), of p] hsim_tt [OF a(3), of p] f(1,2) [of p] by simp
        ultimately show ?thesis using bk np by (intro tricolour_drop [OF a(1)]) auto
      qed (use a(1) in \<open>simp add: insert_absorb\<close>)
      with fin [OF trav_sub [OF k]] show "gc_inv k" by simp
    qed
    then show ?thesis using True unfolding luaC_objbarrier_def if_P [OF wb] by (simp add: luaC_barrierf_def)
  next
    case nwb: False
    have "tricolour ?X ?h" by (rule keep_white_ref [OF tc w r(1) ro]) (use nwb in \<open>simp add: same_colours\<close>)
    with fin [OF trav_refl0 [OF _ sh]] show ?thesis unfolding luaC_objbarrier_def if_not_P [OF nwb] by simp
  qed
next
  case False
  let ?h = "set_heap g p x"
  from g False have b: "base_inv g" by (simp add: gc_inv_def)
  have l: "\<not> dead g p" "ref_ok g r" "\<not> dead g (snd r)" "alloc g p"
    using r(2) p w gch_tt_alloc [of "gc_heap g p"] by (auto simp: has_ref_def overwrites_def alloc_def)
  have bh: "base_inv ?h" by (rule overwrite_base [OF b w l(1) r(1) l(2,3)])
  have fin2: "gc_inv k" if k: "base_inv k" "\<And>q. clean g q \<Longrightarrow> clean k q" "gc_heap k = gc_heap ?h" "gc_rootgc k = gc_rootgc g"
    "gc_strt k = gc_strt g" "gc_sweepgc k = gc_sweepgc g" "gc_sweepstrgc k = gc_sweepstrgc g" "gc_gcstate k = gc_gcstate g"
    "gc_tmudata k = gc_tmudata g" for k
  proof (rule phase_keep [OF g False k(1,2) _ k(5-9)])
    show "alloc k q \<Longrightarrow> alloc g q \<or> clean k q" for q using overwrite_facts(4) [OF w, of q] k(3) by (simp add: alloc_def)
    show "swept k (gc_sweepgc g)" if "swept g (gc_sweepgc g)"
    proof (rule swept_same [OF that k(4,2)])
      show "gc_heap k u = OUpval (Some v) y \<Longrightarrow> gc_heap g u = OUpval (Some v) y" for u v y
        using overwrite_upval [OF w, of u v y] k(3) by simp
    qed
  qed
  show ?thesis
  proof (cases "white ?h (snd r) \<and> black ?h p")
    case True
    have "alloc ?h p" "notdead ?h p" using l(1,4) overwrite_facts(4) [OF w, of p] notdead_iff [OF base_parts(1) [OF bh], of p]
      by (simp_all add: same_colours)
    from makewhite_base [OF bh this] have k: "base_inv (makewhite ?h p)" "keeps_live ?h (makewhite ?h p)" by simp_all
    have "gc_inv (makewhite ?h p)"
    proof (rule fin2 [OF k(1)])
      show "clean g q \<Longrightarrow> clean (makewhite ?h p) q" for q using clean_keeps [OF k(2), of q] by (simp add: same_colours)
    qed (simp_all add: makewhite_def)
    then show ?thesis unfolding luaC_objbarrier_def if_P [OF True] using False by (simp add: luaC_barrierf_def)
  next
    case n: False
    have "gc_inv ?h" by (rule fin2 [OF bh]) (simp_all add: same_colours)
    then show ?thesis unfolding luaC_objbarrier_def if_not_P [OF n] by simp
  qed
qed

section \<open>Stacks\<close>

text \<open>A thread the program can reach gets another stack and other globals: no barrier, since a thread is never black.\<close>

definition new_stack :: "gstate \<Rightarrow> ptr \<Rightarrow> Thread \<Rightarrow> Thread \<Rightarrow> bool" where
  "new_stack g l t t' \<longleftrightarrow> gc_heap g l = OThr t \<and> th_openupval t' = th_openupval t \<and> th_top t' < length (th_stack t') \<and>
     (\<forall>c \<in> set (th_citops t'). c < length (th_stack t')) \<and>
     (\<forall>u \<in> set (th_openupval t). \<forall>i x. gc_heap g u = OUpval (Some (l, i)) x \<longrightarrow> i < th_top t') \<and>
     (\<forall>r \<in> set (thread_refs t'). r \<in> set (thread_refs t) \<or> has_ref g r)"

lemma write_stack:
  assumes g: "gc_inv g" and p: "\<not> dead g l" and n: "new_stack g l t t'"
  shows "gc_inv (set_heap g l (OThr t'))"
proof -
  let ?h = "set_heap g l (OThr t')"
  have t: "gc_heap g l = OThr t" using n by (simp add: new_stack_def)
  have t': "th_openupval t' = th_openupval t" "th_top t' < length (th_stack t')" "\<forall>c \<in> set (th_citops t'). c < length (th_stack t')"
    "\<forall>u \<in> set (th_openupval t). \<forall>i x. gc_heap g u = OUpval (Some (l, i)) x \<longrightarrow> i < th_top t'"
    "\<And>r. r \<in> set (thread_refs t') \<Longrightarrow> r \<in> set (thread_refs t) \<or> has_ref g r"
    using n by (auto simp: new_stack_def)
  show ?thesis
  proof (cases "gc_gcstate g = GCSpropagate")
    case True
    let ?X = "set (gc_tmudata g)"
    from g True have m: "mark_inv g" and fx: "fixed_ok g" by (simp_all add: gc_inv_def)
    then have tc: "tricolour ?X g" and st: "struct g" and l: "lists_ok g" by (simp_all add: mark_inv_def)
    note f = write_thread_facts [OF st t t'(1-4)] and tr = tricolour_parts [OF tc]
    have ro: "ref_ok ?h y = ref_ok g y" for y by (simp only: ref_ok_def f(1))
    have gk: "gray_kind (gc_heap ?h q) = gray_kind (gc_heap g q)" for q by (simp only: gray_kind_def f(1))
    have rk: "ref_ok g y" if "y \<in> refs ?h q" for y q
    proof -
      have "y \<in> refs g q \<or> y \<in> refs g l \<or> has_ref g y"
        using f(6) [of y q] that t'(5) [of y] t by (auto simp: refs_def)
      then show ?thesis using tr(4) [of y q] tr(4) [of y l] by (auto simp: has_ref_def)
    qed
    have mr: "marked_refs ?h q" if b: "black g q" "q \<notin> ?X" for q
    proof -
      have "q \<noteq> l" "\<not> open_uv g q" using tr(11,12) [OF b] t by auto
      then have "refs ?h q \<subseteq> refs g q" using f(6) by blast
      with tr(9) [OF b] show ?thesis by (auto simp: marked_refs_def same_colours)
    qed
    have gl: "gray_lists ?h = gray_lists g" "gc_weak ?h = gc_weak g" "gc_grayagain ?h = gc_grayagain g" "gc_currentwhite ?h = gc_currentwhite g" by simp_all
    have "tricolour ?X ?h"
      unfolding tricolour_def same_colours ro gk f(1,3,4) gl
      using tr(1-3,5-8,10-14) rk mr by (intro conjI allI impI ballI) auto
    then have "mark_inv ?h" by (rule mark_keep [OF m _ f(5) f(1,3)]) (simp_all add: same_colours)
    moreover have "fixed_ok ?h" by (rule fixed_sim [OF fx f(1)]) (simp_all add: hibits_def)
    ultimately show ?thesis using True by (simp add: gc_inv_def)
  next
    case False
    from g False have b: "base_inv g" by (simp add: gc_inv_def)
    note f = write_thread_facts [OF base_parts(2) [OF b] t t'(1-4)]
    have bh: "base_inv ?h"
    proof (rule write_thread [OF b t _ t'(1-4), where R = "{r. has_ref g r}"])
      show "\<not> dead g l" by (rule p)
      show "set (thread_refs t') \<subseteq> set (thread_refs t) \<union> {r. has_ref g r}" using t'(5) by blast
      show "r \<in> {r. has_ref g r} \<Longrightarrow> ref_ok g r \<and> \<not> dead g (snd r)" for r by (simp add: has_ref_def)
    qed
    show ?thesis
    proof (rule phase_keep [OF g False bh])
      show "alloc ?h q \<Longrightarrow> alloc g q \<or> clean ?h q" for q using f(4) by simp
      show "swept ?h (gc_sweepgc g)" if "swept g (gc_sweepgc g)"
        by (rule swept_same [OF that]) (use f(2) in \<open>simp_all add: same_colours\<close>)
    qed (simp_all add: same_colours)
  qed
qed

section \<open>New objects\<close>

text \<open>A new table, closure, upvalue, prototype or thread, made of what the program can reach, at an address
  that the allocator gave.\<close>

definition fresh_object :: "gstate \<Rightarrow> ptr \<Rightarrow> GCObj \<Rightarrow> bool" where
  "fresh_object g p x \<longleftrightarrow> gc_heap g p = OFree \<and> p \<noteq> 0 \<and>
     gch_tt x \<in> {LUA_TTABLE, LUA_TFUNCTION, LUA_TUPVAL, LUA_TPROTO, LUA_TTHREAD} \<and>
     (\<forall>t. x = OTab t \<longrightarrow> tchain t) \<and> (\<forall>v y. x \<noteq> OUpval (Some v) y) \<and>
     (\<forall>t. x = OThr t \<longrightarrow> th_openupval t = [] \<and> th_top t < length (th_stack t) \<and> (\<forall>c \<in> set (th_citops t). c < length (th_stack t))) \<and>
     (\<forall>r \<in> set (obj_refs (gc_heap g) x). has_ref g r)"

lemma new_facts:
  assumes st: "struct g" and n: "fresh_object g p x"
  shows "gc_heap (luaC_link g p x) = (gc_heap g)(p := x)" "open_uv (luaC_link g p x) q = open_uv g q"
    "alloc (luaC_link g p x) q \<longleftrightarrow> q = p \<or> alloc g q" "ref_ok g r \<Longrightarrow> ref_ok (luaC_link g p x) r \<and> snd r \<noteq> p"
    "refs (luaC_link g p x) q = (if q = p then set (obj_refs (gc_heap g) x) else refs g q)" "struct (luaC_link g p x)"
    "gc_heap (luaC_link g p x) u = OUpval (Some v) y \<longleftrightarrow> gc_heap g u = OUpval (Some v) y" "refs g p = {}" "\<not> alloc g p"
proof -
  let ?h = "luaC_link g p x"
  show hh: "gc_heap ?h = (gc_heap g)(p := x)" by (simp add: luaC_link_def Let_def)
  have fr: "gc_heap g p = OFree" using n by (simp add: fresh_object_def)
  have xo: "x \<noteq> OUpval (Some v) y" for v y using n unfolding fresh_object_def by blast
  show up: "gc_heap ?h u = OUpval (Some v) y \<longleftrightarrow> gc_heap g u = OUpval (Some v) y" for u v y
    using fr xo [of v y] by (simp add: hh)
  show op: "open_uv ?h q = open_uv g q" for q by (simp only: open_uv_def up)
  have xn: "x \<noteq> OFree" using n by (auto simp: fresh_object_def tag_defs)
  show "alloc ?h q \<longleftrightarrow> q = p \<or> alloc g q" using xn by (auto simp: alloc_def hh)
  show "ref_ok g r \<Longrightarrow> ref_ok ?h r \<and> snd r \<noteq> p" using fr by (auto simp: ref_ok_def hh)
  show "refs g p = {}" "\<not> alloc g p" using fr by (simp_all add: refs_def alloc_def)
  have np: "th \<noteq> p" if "gc_heap g q = OUpval (Some (th, i)) z" for q th i z
    using that st fr unfolding struct_def by (metis GCObj.distinct(13))
  show "refs ?h q = (if q = p then set (obj_refs (gc_heap g) x) else refs g q)"
  proof (cases "q = p")
    case True
    have "obj_refs (gc_heap ?h) x = obj_refs (gc_heap g) x" using xo by (cases "(gc_heap g, x)" rule: obj_refs.cases) auto
    with True show ?thesis by (simp add: refs_def hh)
  next
    case False
    have "obj_refs (gc_heap ?h) (gc_heap g q) = obj_refs (gc_heap g) (gc_heap g q)"
    proof (cases "\<exists>th i z. gc_heap g q = OUpval (Some (th, i)) z")
      case True
      then obtain th i z where u: "gc_heap g q = OUpval (Some (th, i)) z" by blast
      with np [OF u] show ?thesis by (simp add: slot_at_def hh)
    qed (cases "(gc_heap g, gc_heap g q)" rule: obj_refs.cases; auto)
    with False show ?thesis by (simp add: refs_def hh)
  qed
  have uvh: "gc_uvhead ?h = gc_uvhead g" by (simp add: luaC_link_def Let_def)
  have "gc_heap ?h 0 = OFree" using st n by (simp add: struct_def fresh_object_def hh)
  moreover have "thread_ok ?h q t" if q: "gc_heap ?h q = OThr t" for q t
  proof (cases "q = p")
    case True
    with q have "x = OThr t" by (simp add: hh)
    with n show ?thesis by (simp add: fresh_object_def thread_ok_def)
  next
    case False
    with q st have "thread_ok g q t" by (simp add: struct_def hh)
    then show ?thesis unfolding thread_ok_def up .
  qed
  moreover have "\<exists>t. gc_heap ?h th = OThr t \<and> u \<in> set (th_openupval t)" if u: "gc_heap ?h u = OUpval (Some (th, i)) y" for u th i y
  proof -
    from u st obtain t where "gc_heap g th = OThr t" "u \<in> set (th_openupval t)" unfolding up struct_def by metis
    with fr show ?thesis by (auto simp: hh)
  qed
  moreover have "tchain t" if "gc_heap ?h q = OTab t" for q t
    using that st n by (auto simp: struct_def hh fresh_object_def split: if_splits)
  moreover have "distinct (gc_uvhead ?h)" "set (gc_uvhead ?h) = {u. open_uv ?h u}" using st by (simp_all add: struct_def op uvh)
  ultimately show "struct ?h" unfolding struct_def by blast
qed

lemma new_lists:
  assumes st: "struct g" and n: "fresh_object g p x" and l: "lists_ok g"
  shows "lists_ok (luaC_link g p x)"
proof -
  let ?h = "luaC_link g p x"
  note f = new_facts [OF st n] and lp = lists_ok_parts [OF l]
  have e: "gc_rootgc ?h = p # gc_rootgc g" "gc_strt ?h = gc_strt g" "gc_tmudata ?h = gc_tmudata g" "gc_mainthread ?h = gc_mainthread g"
    by (simp_all add: luaC_link_def Let_def)
  have pr: "p \<notin> set (gc_rootgc g)" using lp(8) f(9) by auto
  have pt: "p \<notin> set (gc_tmudata g)" using lp(7) [of p] f(9) by (auto simp: alloc_def tag_defs)
  have pm: "p \<noteq> gc_mainthread g" using lp(2) pr by auto
  have u: "udata_list ?h = udata_list g" using pm by (simp add: udata_list_def e)
  have xt: "gch_tt x \<noteq> LUA_TSTRING" "gch_tt x \<noteq> LUA_TUSERDATA" using n by (auto simp: fresh_object_def tag_defs)
  have fp: "gch_tt (gc_heap g p) = LUA_TNIL" "\<not> open_uv g p" using n by (auto simp: fresh_object_def open_uv_def)
  have tt: "gch_tt (gc_heap ?h q) = (if q = p then gch_tt x else gch_tt (gc_heap g q))" for q by (simp add: f(1))
  have 1: "set (concat (gc_strt ?h)) = {q. gch_tt (gc_heap ?h q) = LUA_TSTRING}"
    unfolding e(2) lp(6) using xt fp by (auto simp: tt tag_defs split: if_splits)
  have 2: "set (gc_rootgc ?h) = {q. alloc ?h q \<and> gch_tt (gc_heap ?h q) \<noteq> LUA_TSTRING \<and> \<not> open_uv ?h q \<and> q \<notin> set (gc_tmudata ?h)}"
  proof (intro set_eqI)
    fix q
    have "q \<in> set (gc_rootgc g) \<longleftrightarrow> alloc g q \<and> gch_tt (gc_heap g q) \<noteq> LUA_TSTRING \<and> \<not> open_uv g q \<and> q \<notin> set (gc_tmudata g)"
      using lp(8) by blast
    then show "q \<in> set (gc_rootgc ?h) \<longleftrightarrow> q \<in> {q. alloc ?h q \<and> gch_tt (gc_heap ?h q) \<noteq> LUA_TSTRING \<and> \<not> open_uv ?h q \<and> q \<notin> set (gc_tmudata ?h)}"
      using xt fp pt by (cases "q = p") (simp_all add: e tt f(2,3))
  qed
  have 3: "set (udata_list ?h) = {q. gch_tt (gc_heap ?h q) = LUA_TUSERDATA \<and> q \<notin> set (gc_tmudata ?h)}"
    unfolding u lp(9) e(3) using xt fp by (auto simp: tt tag_defs split: if_splits)
  have 4: "\<forall>q \<in> set (gc_tmudata ?h). gch_tt (gc_heap ?h q) = LUA_TUSERDATA" using lp(7) pt by (auto simp: e tt)
  have 5: "distinct (gc_rootgc ?h)" "gc_mainthread ?h \<in> set (gc_rootgc ?h)" using lp(1,2) pr by (simp_all add: e)
  show ?thesis unfolding lists_ok_def using 1 2 3 4 5 lp(3-5) unfolding e(2,3) by blast
qed

lemma new_fixed:
  assumes f: "fixed_ok g" and st: "struct g" and n: "fresh_object g p x" and cw: "cw_ok (gc_currentwhite g)"
  shows "fixed_ok (luaC_link g p x)"
proof (unfold fixed_ok_def, intro allI impI)
  fix q assume q: "alloc (luaC_link g p x) q \<and> bit (gc_marked (luaC_link g p x) q) 5"
  have "q \<noteq> p" using q by (auto simp: luaC_link_def Let_def bit_luaC_white)
  with q f new_facts [OF st n] show "gch_tt (gc_heap (luaC_link g p x) q) = LUA_TSTRING \<or> q = gc_mainthread (luaC_link g p x)"
    by (simp add: fixed_ok_def) (simp add: luaC_link_def Let_def)
qed

lemma new_object:
  assumes g: "gc_inv g" and n: "fresh_object g p x"
  shows "gc_inv (luaC_link g p x)"
proof -
  let ?h = "luaC_link g p x" and ?w = "luaC_white (gc_currentwhite g)"
  have mk: "gc_marked ?h q = (if q = p then ?w else gc_marked g q)" for q by (simp add: luaC_link_def Let_def)
  have e: "gc_rootgc ?h = p # gc_rootgc g" "gc_strt ?h = gc_strt g" "gc_tmudata ?h = gc_tmudata g" "gc_mainthread ?h = gc_mainthread g"
    "gc_currentwhite ?h = gc_currentwhite g" "roots ?h = roots g" "gc_registry ?h = gc_registry g" "gc_gcstate ?h = gc_gcstate g"
    "gc_sweepgc ?h = gc_sweepgc g" "gc_sweepstrgc ?h = gc_sweepstrgc g" "gc_gray ?h = gc_gray g" "gc_weak ?h = gc_weak g"
    "gc_grayagain ?h = gc_grayagain g"
    by (simp_all add: luaC_link_def Let_def roots_def)
  have hr: "ref_ok g r \<and> \<not> dead g (snd r)" if "r \<in> set (obj_refs (gc_heap g) x)" for r
    using n that by (auto simp: fresh_object_def has_ref_def)
  show ?thesis
  proof (cases "gc_gcstate g = GCSpropagate")
    case True
    let ?X = "set (gc_tmudata g)"
    from g True have m: "mark_inv g" and fx: "fixed_ok g" by (simp_all add: gc_inv_def)
    then have tc: "tricolour ?X g" and st: "struct g" and l: "lists_ok g" and r: "roots_ok g" by (simp_all add: mark_inv_def)
    note f = new_facts [OF st n] and t = tricolour_parts [OF tc]
    have col: "white ?h q \<longleftrightarrow> q = p \<or> white g q" "black ?h q \<longleftrightarrow> q \<noteq> p \<and> black g q" "dead ?h q \<longleftrightarrow> q \<noteq> p \<and> dead g q" for q
      using t(1) by (auto simp: white_def black_def dead_def mk e)
    have pg: "p \<notin> set (gray_lists g)" using t(7) [of p] f(9) by (auto simp: gray_kind_def alloc_def tag_defs)
    have wr: "\<not> white ?h (snd r)" if "ref_ok g r" "\<not> white g (snd r)" for r using f(4) [OF that(1)] that(2) by (auto simp: col)
    have rk: "ref_ok ?h r" if "r \<in> refs ?h q" for r q
      using that hr [of r] t(4) [of r q] f(4) [of r] by (auto simp: f(5) split: if_splits)
    have mr: "marked_refs ?h q" if "black ?h q" "q \<notin> ?X" for q
    proof -
      have q: "q \<noteq> p" "black g q" using that by (simp_all add: col)
      with t(9) [OF q(2) that(2)] wr t(4) [of _ q] show ?thesis by (fastforce simp: marked_refs_def f(5))
    qed
    have tt: "gch_tt (gc_heap ?h q) = gch_tt (gc_heap g q)" if "q \<noteq> p" for q using that by (simp add: f(1))
    have 1: "gray_kind (gc_heap ?h q) \<and> \<not> white ?h q \<and> (q \<notin> ?X \<longrightarrow> \<not> black ?h q)" if "q \<in> set (gray_lists g)" for q
    proof -
      have "q \<noteq> p" using that pg by blast
      with t(6-8) [OF that] tt [of q] show ?thesis by (simp add: gray_kind_def col)
    qed
    have 2: "gch_tt (gc_heap ?h q) = LUA_TSTRING \<or> open_uv ?h q \<or> q \<in> set (gray_lists g)"
      if "alloc ?h q" "\<not> white ?h q" "\<not> black ?h q" "q \<notin> ?X" for q
      using that t(10) [of q] tt [of q] by (simp add: col f(2,3))
    have 3: "gch_tt (gc_heap ?h q) = LUA_TTABLE" if "q \<in> set (gc_weak g)" for q
      using t(13) [OF that] tt [of q] pg that by (cases "q = p") auto
    have 4: "gch_tt (gc_heap ?h q) = LUA_TTABLE \<or> gch_tt (gc_heap ?h q) = LUA_TTHREAD" if "q \<in> set (gc_grayagain g)" for q
      using t(14) [OF that] tt [of q] pg that by (cases "q = p") auto
    have 5: "\<not> open_uv ?h q \<and> gch_tt (gc_heap ?h q) \<noteq> LUA_TTHREAD" if "black ?h q" "q \<notin> ?X" for q
      using t(11,12) [of q] that tt [of q] by (simp add: col f(2))
    have 6: "\<not> dead ?h q \<and> (white ?h q \<longrightarrow> \<not> black ?h q)" if "alloc ?h q" for q
      using t(2,3) [of q] that by (auto simp: col f(3))
    have tri: "tricolour ?X ?h"
      unfolding tricolour_def e(5,11-13)
      using t(1,5) 1 2 3 4 5 6 rk mr by (intro conjI allI impI ballI) simp_all
    have "roots_ok ?h" using r f(4) by (auto simp: roots_ok_def e)
    moreover have "\<not> white ?h (gc_mainthread g)" "\<forall>r \<in> set (val_refs (gc_registry g)). \<not> white ?h (snd r)"
      using m r wr [of "(LUA_TTHREAD, gc_mainthread g)"] wr by (auto simp: mark_inv_def roots_ok_def roots_def)
    ultimately have "mark_inv ?h" using tri f(6) new_lists [OF st n l] by (simp add: mark_inv_def e)
    moreover have "fixed_ok ?h" by (rule new_fixed [OF fx st n t(1)])
    ultimately show ?thesis using True by (simp add: gc_inv_def e)
  next
    case False
    from g False have b: "base_inv g" by (simp add: gc_inv_def)
    note bp = base_parts [OF b] and f = new_facts [OF base_parts(2) [OF b] n]
    have col: "white ?h q \<longleftrightarrow> q = p \<or> white g q" "black ?h q \<longleftrightarrow> q \<noteq> p \<and> black g q" "dead ?h q \<longleftrightarrow> q \<noteq> p \<and> dead g q" for q
      using bp(1) by (auto simp: white_def black_def dead_def mk e)
    have cl: "clean ?h q" if "q = p \<or> clean g q" for q using that by (auto simp: clean_def col)
    have nx: "snd r \<noteq> p \<and> ref_ok ?h r \<and> \<not> dead ?h (snd r)" if "ref_ok g r" "\<not> dead g (snd r)" for r
      using f(4) [OF that(1)] that(2) by (simp add: col)
    have lc: "live_closed ?h"
    proof (rule live_closedI)
      fix q r assume q: "alloc ?h q" "\<not> dead ?h q" "r \<in> refs ?h q"
      show "ref_ok ?h r \<and> \<not> dead ?h (snd r)"
      proof (cases "q = p")
        case True
        with q(3) hr [of r] nx show ?thesis by (simp add: f(5))
      next
        case False
        with q live_parts(1,2) [OF bp(4), of q r] nx [of r] show ?thesis by (simp add: f(3,5) col)
      qed
    next
      fix r assume "r \<in> roots ?h"
      with live_parts(3,4) [OF bp(4), of r] nx [of r] show "ref_ok ?h r \<and> \<not> dead ?h (snd r)" by (simp add: e)
    next
      fix v assume "v \<in> set (gc_tmudata ?h)"
      with live_parts(5) [OF bp(4), of v] show "\<not> dead ?h v" by (simp add: e col)
    qed
    have bl: "black_ok ?h"
    proof -
      have "\<not> black ?h q" if "alloc ?h q" "white ?h q" for q using bp(5) that by (auto simp: black_ok_def col f(3))
      moreover have "\<not> open_uv ?h q \<and> gch_tt (gc_heap ?h q) \<noteq> LUA_TTHREAD" if "black ?h q" for q
        using bp(5) that by (auto simp: black_ok_def col f(1,2))
      ultimately show ?thesis by (simp add: black_ok_def)
    qed
    have bh: "base_inv ?h"
      using lc bl f(6) new_lists [OF bp(2) n bp(3)] new_fixed [OF bp(6,2) n bp(1)] bp(1) by (simp add: base_inv_def e)
    show ?thesis
    proof (rule phase_keep [OF g False bh])
      show "alloc ?h q \<Longrightarrow> alloc g q \<or> clean ?h q" for q using f(3) cl by blast
      show "swept ?h (gc_sweepgc g)" if s: "swept g (gc_sweepgc g)"
      proof -
        have pr: "p \<notin> set (gc_rootgc g)" using lists_ok_parts(8) [OF bp(3)] f(9) by auto
        have bf: "set (before_pos ?h (gc_sweepgc g)) \<subseteq> insert p (set (before_pos g (gc_sweepgc g)))"
        proof (cases "gc_sweepgc g")
          case (Some q)
          with s pr have "q \<noteq> p" by (auto simp: swept_def)
          with Some show ?thesis by (auto simp: before_pos_def e)
        qed (simp add: before_pos_def)
        show ?thesis unfolding swept_def
        proof (intro conjI allI impI ballI)
          fix q assume "gc_sweepgc g = Some q"
          with s show "q \<in> set (gc_rootgc ?h)" by (simp add: swept_def e)
        next
          fix q assume "q \<in> set (before_pos ?h (gc_sweepgc g))"
          with bf s cl show "clean ?h q" by (auto simp: swept_def)
        next
          fix u th i y assume u: "gc_heap ?h u = OUpval (Some (th, i)) y \<and> th \<in> set (before_pos ?h (gc_sweepgc g))"
          then have ug: "gc_heap g u = OUpval (Some (th, i)) y" by (simp add: f(7))
          with bp(2) have "alloc g th" unfolding struct_def alloc_def by (metis GCObj.distinct(13))
          with f(9) have "th \<noteq> p" by blast
          with u bf have "th \<in> set (before_pos g (gc_sweepgc g))" by blast
          with ug s have "clean g u" by (auto simp: swept_def)
          with cl show "clean ?h u" by blast
        qed
      qed
    qed (simp_all add: e cl)
  qed
qed

text \<open>Another reachable thread runs.\<close>

lemma switch_thread:
  assumes g: "gc_inv g" and l: "has_ref g (LUA_TTHREAD, l)"
  shows "gc_inv (g\<lparr>gc_L := l\<rparr>)"
proof -
  let ?h = "g\<lparr>gc_L := l\<rparr>"
  have eq: "white ?h = white g" "black ?h = black g" "dead ?h = dead g" "clean ?h = clean g" "alloc ?h = alloc g" "refs ?h = refs g"
    "ref_ok ?h = ref_ok g" "open_uv ?h = open_uv g" "marked_refs ?h = marked_refs g"
    by (intro ext; simp add: white_def black_def dead_def clean_def alloc_def refs_def ref_ok_def open_uv_def marked_refs_def)+
  have rt: "roots ?h \<subseteq> insert (LUA_TTHREAD, l) (roots g)" by (auto simp: roots_def)
  have st: "struct ?h" if "struct g" by (rule hsim_struct [OF that hsim_same]) simp_all
  have lo: "lists_ok ?h" if "lists_ok g" by (rule lists_ok_sim [OF that hsim_same]) simp_all
  have fx: "fixed_ok ?h = fixed_ok g" by (simp add: fixed_ok_def eq)
  have ro: "ref_ok g (LUA_TTHREAD, l)" using l by (simp add: has_ref_def)
  have sw: "swept ?h pos = swept g pos" for pos
  proof -
    have bf: "before_pos ?h pos = before_pos g pos" by (rule before_pos_cong) simp
    show ?thesis by (simp add: swept_def bf eq)
  qed
  show ?thesis
  proof (cases "gc_gcstate g = GCSpropagate")
    case True
    from g True have m: "mark_inv g" "fixed_ok g" by (simp_all add: gc_inv_def)
    then have tc: "tricolour (set (gc_tmudata g)) g" by (simp add: mark_inv_def)
    have "tricolour (set (gc_tmudata g)) ?h" by (rule tricolour_lists [OF tc]) (use tricolour_parts(5) [OF tc] in simp_all)
    moreover have "roots_ok ?h" using m(1) rt ro by (auto simp: mark_inv_def roots_ok_def eq)
    ultimately have "mark_inv ?h" using m(1) st lo by (simp add: mark_inv_def eq)
    with m(2) True show ?thesis by (simp add: gc_inv_def fx)
  next
    case False
    from g False have b: "base_inv g" by (simp add: gc_inv_def)
    note bp = base_parts [OF b]
    have ll: "\<not> dead g l" using l by (simp add: has_ref_def)
    have "live_closed ?h"
    proof (rule live_closedI)
      fix r assume "r \<in> roots ?h"
      with rt have "r = (LUA_TTHREAD, l) \<or> r \<in> roots g" by blast
      with ro ll live_parts(3,4) [OF bp(4), of r] show "ref_ok ?h r \<and> \<not> dead ?h (snd r)" unfolding eq by auto
    qed (use live_parts(1,2,5) [OF bp(4)] in \<open>simp_all add: eq\<close>)
    moreover have "black_ok ?h" using bp(5) by (simp add: black_ok_def eq)
    ultimately have "base_inv ?h" using bp st lo by (simp add: base_inv_def fx)
    with g False show ?thesis by (simp add: gc_inv_def fx sw strings_clean_def all_clean_def eq split: if_splits)
  qed
qed

section \<open>The program and the collector\<close>

text \<open>In every phase an object that the program can reach is there and not dead.\<close>

lemma mark_reachable:
  assumes m: "mark_inv g" and p: "p \<in> reachable g"
  shows "alloc g p \<and> \<not> dead g p"
proof -
  have tc: "tricolour (set (gc_tmudata g)) g" and r: "roots_ok g" using m by (simp_all add: mark_inv_def)
  have "alloc g p" using p
  proof (induction rule: reachable.induct)
    case (root r)
    with r show ?case using ref_ok_alloc [of g "fst r" "snd r"] by (simp add: roots_ok_def)
  next
    case (step p r)
    with tricolour_parts(4) [OF tc, of r p] show ?case using ref_ok_alloc [of g "fst r" "snd r"] by simp
  qed
  with tricolour_parts(2) [OF tc] show ?thesis by blast
qed

lemma reachable_alive:
  assumes g: "gc_inv g" and p: "p \<in> reachable g"
  shows "alloc g p \<and> \<not> dead g p"
proof (cases "gc_gcstate g = GCSpropagate")
  case True
  with g mark_reachable [OF _ p] show ?thesis by (simp add: gc_inv_def)
next
  case False
  with g have "base_inv g" by (simp add: gc_inv_def)
  with reachable_live p show ?thesis by blast
qed

lemma reachable_refs:
  assumes g: "gc_inv g" and p: "p \<in> reachable g" "r \<in> refs g p"
  shows "ref_ok g r"
proof (cases "gc_gcstate g = GCSpropagate")
  case True
  with g have "tricolour (set (gc_tmudata g)) g" by (simp add: gc_inv_def mark_inv_def)
  with p(2) tricolour_parts(4) show ?thesis by blast
next
  case False
  with g have b: "base_inv g" by (simp add: gc_inv_def)
  from reachable_live [OF b p(1)] live_parts(1) [OF base_parts(4) [OF b], of p r] p(2) show ?thesis by blast
qed

text \<open>A write without a new reference needs no barrier: it is one of a reference to the object itself.\<close>

lemma self_ref:
  assumes g: "gc_inv g" and p: "\<not> dead g p" and w: "overwrites g p x"
  shows "has_ref g (gch_tt (gc_heap g p), p) \<and> (white g p \<longrightarrow> \<not> black g p)"
proof -
  have n: "gch_tt (gc_heap g p) \<noteq> LUA_TNIL" using w by (simp add: overwrites_def)
  then have al: "alloc g p" using gch_tt_alloc [of "gc_heap g p"] by (simp add: alloc_def)
  have "white g p \<longrightarrow> \<not> black g p"
  proof (cases "gc_gcstate g = GCSpropagate")
    case True
    with g have "tricolour (set (gc_tmudata g)) g" by (simp add: gc_inv_def mark_inv_def)
    with al tricolour_parts(3) show ?thesis by blast
  next
    case False
    with g have "black_ok g" by (simp add: gc_inv_def base_inv_def)
    with al show ?thesis by (simp add: black_ok_def)
  qed
  with p n show ?thesis by (simp add: has_ref_def ref_ok_def)
qed

text \<open>The references that a write of the value \<open>v\<close> may add.\<close>

definition has_value :: "gstate \<Rightarrow> TValue \<Rightarrow> bool" where
  "has_value g v \<longleftrightarrow> (\<forall>r \<in> set (val_refs v). has_ref g r)"

lemma write_table_value:
  assumes g: "gc_inv g" and w: "overwrites g p x" and p: "\<not> dead g p" "gch_tt (gc_heap g p) = LUA_TTABLE"
    and r: "set (obj_refs (gc_heap g) x) \<subseteq> set (val_refs v) \<union> refs g p" "has_value g v"
  shows "gc_inv (luaC_barriert (set_heap g p x) p v)"
proof (cases "iscollectable v")
  case True
  have "luaC_barriert (set_heap g p x) p v = luaC_objbarriert (set_heap g p x) p (snd (ttype v, gcvalue v))"
    using True by (simp add: luaC_barriert_def luaC_objbarriert_def valiswhite_def)
  moreover have "gc_inv (luaC_objbarriert (set_heap g p x) p (snd (ttype v, gcvalue v)))"
    by (rule write_table [OF g w p]) (use r True in \<open>simp_all add: val_refs_def has_value_def\<close>)
  ultimately show ?thesis by simp
next
  case False
  note s = self_ref [OF g p(1) w]
  have "gc_inv (luaC_objbarriert (set_heap g p x) p (snd (gch_tt (gc_heap g p), p)))"
    by (rule write_table [OF g w p]) (use r False s in \<open>auto simp: val_refs_def\<close>)
  moreover have "luaC_objbarriert (set_heap g p x) p (snd (gch_tt (gc_heap g p), p)) = set_heap g p x"
    using s by (auto simp: luaC_objbarriert_def same_colours)
  ultimately show ?thesis using False by (simp add: luaC_barriert_def valiswhite_def)
qed

lemma write_object_value:
  assumes g: "gc_inv g" and w: "overwrites g p x" and p: "\<not> dead g p"
    and r: "set (obj_refs (gc_heap g) x) \<subseteq> set (val_refs v) \<union> refs g p" "has_value g v"
  shows "returns gc_inv (luaC_barrier (set_heap g p x) p v)"
proof (cases "iscollectable v")
  case True
  have "luaC_barrier (set_heap g p x) p v = luaC_objbarrier (set_heap g p x) p (snd (ttype v, gcvalue v))"
    using True by (simp add: luaC_barrier_def luaC_objbarrier_def valiswhite_def)
  moreover have "returns gc_inv (luaC_objbarrier (set_heap g p x) p (snd (ttype v, gcvalue v)))"
    by (rule write_object [OF g w p]) (use r True in \<open>simp_all add: val_refs_def has_value_def\<close>)
  ultimately show ?thesis by simp
next
  case False
  note s = self_ref [OF g p w]
  have "returns gc_inv (luaC_objbarrier (set_heap g p x) p (snd (gch_tt (gc_heap g p), p)))"
    by (rule write_object [OF g w p]) (use r False s in \<open>auto simp: val_refs_def\<close>)
  moreover have "luaC_objbarrier (set_heap g p x) p (snd (gch_tt (gc_heap g p), p)) = Inr (set_heap g p x)"
    using s by (auto simp: luaC_objbarrier_def same_colours)
  ultimately show ?thesis using False by (simp add: luaC_barrier_def valiswhite_def)
qed

text \<open>The steps: one of the collector, or an operation of the program on objects that are not dead.\<close>

inductive gc_move :: "gc_call \<Rightarrow> gstate \<Rightarrow> gstate \<Rightarrow> bool" for call where
  collect: "singlestep call g = Inr (n, g') \<Longrightarrow> gc_move call g g'"
| table_value: "overwrites g p x \<Longrightarrow> \<not> dead g p \<Longrightarrow> gch_tt (gc_heap g p) = LUA_TTABLE \<Longrightarrow>
    set (obj_refs (gc_heap g) x) \<subseteq> set (val_refs v) \<union> refs g p \<Longrightarrow> has_value g v \<Longrightarrow>
    gc_move call g (luaC_barriert (set_heap g p x) p v)"
| table_object: "overwrites g p x \<Longrightarrow> \<not> dead g p \<Longrightarrow> gch_tt (gc_heap g p) = LUA_TTABLE \<Longrightarrow>
    set (obj_refs (gc_heap g) x) \<subseteq> insert (t, q) (refs g p) \<Longrightarrow> has_ref g (t, q) \<Longrightarrow>
    gc_move call g (luaC_objbarriert (set_heap g p x) p q)"
| object_value: "overwrites g p x \<Longrightarrow> \<not> dead g p \<Longrightarrow>
    set (obj_refs (gc_heap g) x) \<subseteq> set (val_refs v) \<union> refs g p \<Longrightarrow> has_value g v \<Longrightarrow>
    luaC_barrier (set_heap g p x) p v = Inr g' \<Longrightarrow> gc_move call g g'"
| object_object: "overwrites g p x \<Longrightarrow> \<not> dead g p \<Longrightarrow>
    set (obj_refs (gc_heap g) x) \<subseteq> insert (t, q) (refs g p) \<Longrightarrow> has_ref g (t, q) \<Longrightarrow>
    luaC_objbarrier (set_heap g p x) p q = Inr g' \<Longrightarrow> gc_move call g g'"
| stack: "\<not> dead g l \<Longrightarrow> new_stack g l t t' \<Longrightarrow> gc_move call g (set_heap g l (OThr t'))"
| new: "fresh_object g p x \<Longrightarrow> gc_move call g (luaC_link g p x)"
| switch: "has_ref g (LUA_TTHREAD, l) \<Longrightarrow> gc_move call g (g\<lparr>gc_L := l\<rparr>)"

lemma move_inv:
  assumes m: "gc_move call g g'" and c: "call_ok call" and g: "gc_inv g"
  shows "gc_inv g'"
  using m g
proof (induction rule: gc_move.induct)
  case (collect g n g')
  show ?case
  proof (cases "gc_gcstate g = GCSfinalize")
    case True
    with finalize_step [OF collect(2) True c] collect(1) show ?thesis by simp
  next
    case False
    with singlestep_ok [OF collect(2) False, of call] collect(1) show ?thesis by simp
  qed
next
  case (table_value g p x v)
  then show ?case by (intro write_table_value)
next
  case (table_object g p x t q)
  then show ?case using write_table [of g p x "(t, q)"] by simp
next
  case (object_value g p x v g')
  then show ?case using write_object_value [of g p x v] by simp
next
  case (object_object g p x t q g')
  then show ?case using write_object [of g p x "(t, q)"] by simp
next
  case (stack g l t t')
  then show ?case by (intro write_stack)
next
  case (new g p x)
  then show ?case by (intro new_object)
next
  case (switch g l)
  then show ?case by (intro switch_thread)
qed

lemma moves_inv:
  assumes "(gc_move call)\<^sup>*\<^sup>* g g'" "call_ok call" "gc_inv g"
  shows "gc_inv g'"
  using assms(1)
proof (induction rule: rtranclp_induct)
  case base
  show ?case by (rule assms(3))
next
  case (step h k)
  show ?case by (rule move_inv [OF step(2) assms(2) step(3)])
qed

end
