(* ===== verification/LuaGCRun.thy ===== *)
theory LuaGCRun
  imports LuaGCMut
begin

text \<open>
  The entry points of the collector (lgc.c): the step of an incremental collection, the full one, the finalizers
  that are still due and the end of the state. The loops have fuel, since a finalizer may run for ever; without
  finalizers a collection makes progress at every step.
\<close>

section \<open>The entry points\<close>

definition MAX_LUMEM :: "64 word" where "MAX_LUMEM = NOT 0 - 2"

definition setthreshold :: "gstate \<Rightarrow> gstate" where
  "setthreshold g = g\<lparr>gc_GCthreshold := (gc_estimate g div 100) * word_of_int (gc_gcpause g)\<rparr>"

text \<open>The product is one of 32-bit unsigned numbers.\<close>

definition step_lim :: "gstate \<Rightarrow> 64 word" where
  "step_lim g =
     (let lim = ucast (of_nat (GCSTEPSIZE div 100) * word_of_int (gc_gcstepmul g) :: 32 word)
      in if lim = 0 then (MAX_LUMEM - 1) div 2 else lim)"

fun step_loop :: "nat \<Rightarrow> gc_call \<Rightarrow> 64 word \<Rightarrow> gstate \<Rightarrow> gstate res" where
  "step_loop 0 call lim g = Inl ErrFuel"
| "step_loop (Suc n) call lim g =
     bindr (singlestep call g) (\<lambda>(c, g).
     let lim = lim - word_of_nat c in
     if gc_gcstate g = GCSpause \<or> \<not> 0 < sint lim then Inr g else step_loop n call lim g)"

definition luaC_step :: "nat \<Rightarrow> gc_call \<Rightarrow> gstate \<Rightarrow> gstate res" where
  "luaC_step fuel call g =
     (let lim = step_lim g;
          g = g\<lparr>gc_gcdept := gc_gcdept g + (gc_totalbytes g - gc_GCthreshold g)\<rparr> in
      bindr (step_loop fuel call lim g) (\<lambda>g.
      Inr (if gc_gcstate g \<noteq> GCSpause then
             if gc_gcdept g < of_nat GCSTEPSIZE then g\<lparr>gc_GCthreshold := gc_totalbytes g + of_nat GCSTEPSIZE\<rparr>
             else g\<lparr>gc_gcdept := gc_gcdept g - of_nat GCSTEPSIZE, gc_GCthreshold := gc_totalbytes g\<rparr>
           else setthreshold g)))"

text \<open>Single steps until the collector is in the phase \<open>s\<close>.\<close>

fun steps_until :: "nat \<Rightarrow> nat \<Rightarrow> gc_call \<Rightarrow> gstate \<Rightarrow> gstate res" where
  "steps_until s 0 call g = (if gc_gcstate g = s then Inr g else Inl ErrFuel)"
| "steps_until s (Suc n) call g =
     (if gc_gcstate g = s then Inr g else bindr (singlestep call g) (\<lambda>(_, g). steps_until s n call g))"

definition reset_sweep :: "gstate \<Rightarrow> gstate" where
  "reset_sweep g = g\<lparr>gc_sweepstrgc := 0, gc_sweepgc := None, gc_gray := [], gc_grayagain := [], gc_weak := [],
     gc_gcstate := GCSsweepstring\<rparr>"

definition luaC_fullgc :: "nat \<Rightarrow> gc_call \<Rightarrow> gstate \<Rightarrow> gstate res" where
  "luaC_fullgc fuel call g =
     (let g = (if gc_gcstate g \<le> GCSpropagate then reset_sweep g else g) in
      bindr (steps_until GCSfinalize fuel call g) (\<lambda>g.
      bindr (markroot g) (\<lambda>g.
      bindr (steps_until GCSpause fuel call g) (\<lambda>g.
      Inr (setthreshold g)))))"

fun luaC_callGCTM :: "nat \<Rightarrow> gc_call \<Rightarrow> gstate \<Rightarrow> gstate res" where
  "luaC_callGCTM 0 call g = Inl ErrFuel"
| "luaC_callGCTM (Suc n) call g = (if gc_tmudata g = [] then Inr g else bindr (GCTM call g) (luaC_callGCTM n call))"

definition sweep_string_chain :: "gstate \<Rightarrow> nat \<Rightarrow> gstate res" where
  "sweep_string_chain g i =
     bindr (sweepwholelist g (gc_strt g ! i)) (\<lambda>(ch, g). Inr (g\<lparr>gc_strt := (gc_strt g)[i := ch]\<rparr>))"

definition luaC_freeall :: "gstate \<Rightarrow> gstate res" where
  "luaC_freeall g =
     (let g = g\<lparr>gc_currentwhite := WHITEBITS OR bitmask SFIXEDBIT\<rparr> in
      bindr (sweeplist (unat MAX_LUMEM) g None) (\<lambda>(_, g).
      mfold sweep_string_chain g [0..<length (gc_strt g)]))"

section \<open>The invariant\<close>

text \<open>Every step keeps the invariant.\<close>

lemma step_inv:
  assumes "gc_inv g" "call_ok call" "singlestep call g = Inr (n, g')"
  shows "gc_inv g'"
  using move_inv [OF gc_move.collect [OF assms(3)] assms(2,1)] .

lemma step_loop_inv:
  "gc_inv g \<Longrightarrow> call_ok call \<Longrightarrow> step_loop n call lim g = Inr g' \<Longrightarrow> gc_inv g'"
proof (induction n call lim g rule: step_loop.induct)
  case (2 n call lim g)
  from 2(4) obtain c h where s: "singlestep call g = Inr (c, h)" by (auto simp: bindr_Inr_iff)
  note i = step_inv [OF 2(2,3) s]
  show ?case
  proof (cases "gc_gcstate h = GCSpause \<or> \<not> 0 < sint (lim - word_of_nat c)")
    case True
    with 2(4) s i show ?thesis by (simp add: Let_def)
  next
    case False
    with 2(4) s have "step_loop n call (lim - word_of_nat c) h = Inr g'" by (simp add: Let_def)
    from 2(1) [OF s refl refl False i 2(3) this] show ?thesis .
  qed
qed simp

lemma steps_until_inv:
  "gc_inv g \<Longrightarrow> call_ok call \<Longrightarrow> steps_until s n call g = Inr g' \<Longrightarrow> gc_inv g' \<and> gc_gcstate g' = s"
proof (induction s n call g rule: steps_until.induct)
  case (2 s n call g)
  show ?case
  proof (cases "gc_gcstate g = s")
    case True
    with 2(2,4) show ?thesis by simp
  next
    case False
    with 2(4) obtain c h where h: "singlestep call g = Inr (c, h)" "steps_until s n call h = Inr g'" by (auto simp: bindr_Inr_iff)
    from 2(1) [OF False h(1) refl step_inv [OF 2(2,3) h(1)] 2(3) h(2)] show ?thesis .
  qed
qed (simp split: if_splits)

text \<open>\<open>luaC_fullgc\<close> gives up a marking in progress: no object is dead then, so there is nothing to free.\<close>

lemma reset_sweep_inv:
  assumes g: "gc_inv g" and s: "gc_gcstate g \<le> GCSpropagate"
  shows "gc_inv (reset_sweep g)"
proof -
  let ?h = "reset_sweep g"
  have col: "dead ?h = dead g" "white ?h = white g" "black ?h = black g" "alloc ?h = alloc g" "refs ?h = refs g" "ref_ok ?h = ref_ok g"
    "open_uv ?h = open_uv g" "roots ?h = roots g"
    by (intro ext; simp add: reset_sweep_def white_def black_def dead_def alloc_def refs_def ref_ok_def open_uv_def)+
      (simp add: reset_sweep_def roots_def)
  have hs: "hsim g ?h" by (rule hsim_same) (simp add: reset_sweep_def)
  have b: "base_inv ?h"
  proof (cases "gc_gcstate g = GCSpropagate")
    case True
    with g have m: "mark_inv g" and fx: "fixed_ok g" by (simp_all add: gc_inv_def)
    then have tc: "tricolour (set (gc_tmudata g)) g" and st: "struct g" and l: "lists_ok g" and r: "roots_ok g"
      by (simp_all add: mark_inv_def)
    note tr = tricolour_parts [OF tc]
    have ud: "gch_tt (gc_heap g u) = LUA_TUSERDATA" if "u \<in> set (gc_tmudata g)" for u using lists_ok_parts(7) [OF l that] .
    have bk: "\<not> open_uv g p \<and> gch_tt (gc_heap g p) \<noteq> LUA_TTHREAD" if "black g p" for p
    proof (cases "p \<in> set (gc_tmudata g)")
      case True
      from ud [OF this] show ?thesis by (auto simp: open_uv_def tag_defs)
    next
      case False
      with tr(11,12) that show ?thesis by blast
    qed
    have td: "\<not> dead g u" if "u \<in> set (gc_tmudata g)" for u
      using ud [OF that] tr(2) [of u] gch_tt_alloc [of "gc_heap g u"] by (simp add: alloc_def tag_defs)
    have nd: "ref_ok g x \<Longrightarrow> \<not> dead g (snd x)" for x using tr(2) [of "snd x"] ref_ok_alloc [of g "fst x" "snd x"] by simp
    have "live_closed ?h"
      unfolding live_closed_def col
      using tr(4) nd r td by (auto simp: roots_ok_def reset_sweep_def)
    moreover have "black_ok ?h"
      unfolding black_ok_def col
      using tr(3) bk by (simp add: reset_sweep_def)
    moreover have "struct ?h" by (rule hsim_struct [OF st hs]) (simp add: reset_sweep_def)
    moreover have "lists_ok ?h" by (rule lists_ok_sim [OF l hs]) (simp_all add: reset_sweep_def)
    moreover have "fixed_ok ?h" using fx by (simp add: fixed_ok_def col) (simp add: reset_sweep_def)
    ultimately show ?thesis using tr(1) by (simp add: base_inv_def) (simp add: reset_sweep_def)
  next
    case False
    with g have "base_inv g" by (simp add: gc_inv_def)
    then show ?thesis by (rule base_cong [OF _ hs]) (simp_all add: reset_sweep_def)
  qed
  moreover have "gc_strt ?h \<noteq> []" using lists_ok_parts(5) [OF base_parts(3) [OF b]] .
  ultimately show ?thesis using base_parts(6) [OF b] by (simp add: gc_inv_def strings_clean_def) (simp add: reset_sweep_def)
qed

lemma setthreshold_inv: "gc_inv g \<Longrightarrow> gc_inv (setthreshold g)"
  by (rule gc_inv_cong) (simp_all add: setthreshold_def)

lemma fullgc_inv:
  assumes g: "gc_inv g" and c: "call_ok call" and f: "luaC_fullgc n call g = Inr g'"
  shows "gc_inv g' \<and> gc_gcstate g' = GCSpause"
proof -
  define h where "h = (if gc_gcstate g \<le> GCSpropagate then reset_sweep g else g)"
  have ih: "gc_inv h" using g reset_sweep_inv by (simp add: h_def)
  from f obtain k m p where k: "steps_until GCSfinalize n call h = Inr k" "markroot k = Inr m" "steps_until GCSpause n call m = Inr p"
    "g' = setthreshold p" by (auto simp: luaC_fullgc_def h_def [symmetric] Let_def bindr_Inr_iff)
  from steps_until_inv [OF ih c k(1)] have "gc_inv k" "gc_gcstate k = GCSfinalize" by simp_all
  then have "base_inv k" "all_clean k" by (simp_all add: gc_inv_def)
  from markroot_ok [OF this] k(2) have "mark_inv m" "fixed_ok m" "gc_gcstate m = GCSpropagate" by auto
  then have "gc_inv m" by (simp add: gc_inv_def)
  from steps_until_inv [OF this c k(3)] show ?thesis using k(4) setthreshold_inv by (simp add: setthreshold_def)
qed

lemma step_gc_inv:
  assumes g: "gc_inv g" and c: "call_ok call" and f: "luaC_step n call g = Inr g'"
  shows "gc_inv g'"
proof -
  from f obtain h where h: "step_loop n call (step_lim g) (g\<lparr>gc_gcdept := gc_gcdept g + (gc_totalbytes g - gc_GCthreshold g)\<rparr>) = Inr h"
    "g' = (if gc_gcstate h \<noteq> GCSpause then
             if gc_gcdept h < of_nat GCSTEPSIZE then h\<lparr>gc_GCthreshold := gc_totalbytes h + of_nat GCSTEPSIZE\<rparr>
             else h\<lparr>gc_gcdept := gc_gcdept h - of_nat GCSTEPSIZE, gc_GCthreshold := gc_totalbytes h\<rparr>
           else setthreshold h)"
    by (auto simp: luaC_step_def Let_def bindr_Inr_iff simp del: of_nat_numeral)
  have "gc_inv (g\<lparr>gc_gcdept := gc_gcdept g + (gc_totalbytes g - gc_GCthreshold g)\<rparr>)" by (rule gc_inv_cong [OF g]) simp_all
  from step_loop_inv [OF this c h(1)] have "gc_inv h" .
  then show ?thesis unfolding h(2) using setthreshold_inv by (auto intro: gc_inv_cong)
qed

section \<open>A collection makes progress\<close>

text \<open>The phase, and what is left to do in it.\<close>

definition gc_work :: "gstate \<Rightarrow> nat \<times> nat \<times> nat" where
  "gc_work g =
     (if gc_gcstate g = GCSpause then (4, 0, 0)
      else if gc_gcstate g = GCSpropagate then (3, gray_work g, 0)
      else if gc_gcstate g = GCSsweepstring then (2, length (gc_strt g) - gc_sweepstrgc g, 0)
      else if gc_gcstate g = GCSsweep then (1, sweep_work g (gc_sweepgc g))
      else (0, 0, 0))"

definition work_rel :: "((nat \<times> nat \<times> nat) \<times> (nat \<times> nat \<times> nat)) set" where
  "work_rel = less_than <*lex*> less_than <*lex*> less_than"

lemma work_rel_simp [simp]: "((a, b, c), (a', b', c')) \<in> work_rel \<longleftrightarrow> a < a' \<or> a = a' \<and> (b < b' \<or> b = b' \<and> c < c')"
  by (simp add: work_rel_def)

lemma wf_work_rel: "wf work_rel" by (simp add: work_rel_def wf_lex_prod)

lemma step_progress:
  assumes g: "gc_inv g" and s: "gc_gcstate g \<noteq> GCSfinalize"
  shows "\<exists>n g'. singlestep call g = Inr (n, g') \<and> gc_inv g' \<and> (gc_work g', gc_work g) \<in> work_rel \<and>
    (\<forall>p. alloc g' p \<longrightarrow> gch_tt (gc_heap g' p) = gch_tt (gc_heap g p))"
proof -
  from singlestep_ok [OF g s, of call] obtain n g' where r: "singlestep call g = Inr (n, g')" "gc_inv g'" by (auto simp: returns_def)
  have fx: "fixed_ok g" using g by (simp add: gc_inv_def)
  consider (pause) "gc_gcstate g = GCSpause" | (mark) "gc_gcstate g = GCSpropagate" "gc_gray g \<noteq> []"
    | (atomic) "gc_gcstate g = GCSpropagate" "gc_gray g = []" | (strings) "gc_gcstate g = GCSsweepstring" | (sweep) "gc_gcstate g = GCSsweep"
    using g s by (auto simp: gc_inv_def split: if_splits)
  then have "(gc_work g', gc_work g) \<in> work_rel \<and> (\<forall>p. alloc g' p \<longrightarrow> gch_tt (gc_heap g' p) = gch_tt (gc_heap g p))"
  proof cases
    case pause
    then have "base_inv g" "all_clean g" using g by (simp_all add: gc_inv_def)
    from markroot_ok [OF this] r pause have "gc_gcstate g' = GCSpropagate" "hsim g g'" by (auto simp: singlestep_def)
    with hsim_tt pause show ?thesis by (simp add: gc_work_def)
  next
    case mark
    then have m: "mark_inv g" "propagatemark g = Inr (n, g')" using g r by (simp_all add: gc_inv_def singlestep_def)
    from propagate_inv [OF m(1) fx mark(2)] m(2) have "gc_gcstate g' = GCSpropagate" "hsim g g'" using mark by auto
    with hsim_tt mark propagatemark_work [OF m(2)] show ?thesis by (simp add: gc_work_def)
  next
    case atomic
    then have m: "mark_inv g" "atomic g = Inr g'" using g r by (auto simp: gc_inv_def singlestep_def bindr_Inr_iff)
    from atomic_ok [OF m(1)] m(2) have "gc_gcstate g' = GCSsweepstring" "\<forall>p. gch_tt (gc_heap g' p) = gch_tt (gc_heap g p)" by (auto simp: sweep_start_def)
    with atomic show ?thesis by (simp add: gc_work_def)
  next
    case strings
    then have "gc_sweepstrgc g < length (gc_strt g)" using g by (simp add: gc_inv_def)
    with sweepstring_step [OF g strings, of call] r strings show ?thesis
      by (cases "sweep_work g' (gc_sweepgc g')") (auto simp: gc_work_def)
  next
    case sweep
    with sweep_step [OF g sweep, of call] r show ?thesis
      by (cases "sweep_work g' (gc_sweepgc g')"; cases "sweep_work g (gc_sweepgc g)") (auto simp: gc_work_def)
  qed
  with r show ?thesis by blast
qed

lemma reach_finalize:
  "gc_inv g \<Longrightarrow> \<exists>n g'. steps_until GCSfinalize n call g = Inr g' \<and> gc_inv g' \<and> gc_gcstate g' = GCSfinalize \<and>
    (\<forall>p. alloc g' p \<longrightarrow> gch_tt (gc_heap g' p) = gch_tt (gc_heap g p))"
proof (induction "gc_work g" arbitrary: g rule: wf_induct_rule [OF wf_work_rel])
  case (1 g)
  show ?case
  proof (cases "gc_gcstate g = GCSfinalize")
    case True
    with 1(2) show ?thesis by (intro exI [of _ 0] exI [of _ g]) simp
  next
    case False
    from step_progress [OF 1(2) False, of call] obtain c h where h: "singlestep call g = Inr (c, h)" "gc_inv h" "(gc_work h, gc_work g) \<in> work_rel"
      "\<And>p. alloc h p \<Longrightarrow> gch_tt (gc_heap h p) = gch_tt (gc_heap g p)" by blast
    from 1(1) [OF h(3,2)] obtain n g' where g': "steps_until GCSfinalize n call h = Inr g'" "gc_inv g'" "gc_gcstate g' = GCSfinalize"
      "\<And>p. alloc g' p \<Longrightarrow> gch_tt (gc_heap g' p) = gch_tt (gc_heap h p)" by blast
    have "gch_tt (gc_heap g' p) = gch_tt (gc_heap g p)" if "alloc g' p" for p
      using g'(4) [OF that] h(4) [of p] that gch_tt_alloc by (simp add: alloc_def) metis
    with False h(1) g' show ?thesis by (intro exI [of _ "Suc n"] exI [of _ g']) simp
  qed
qed

lemma steps_until_more: "steps_until s n call g = Inr g' \<Longrightarrow> steps_until s (n + k) call g = Inr g'"
proof (induction s n call g rule: steps_until.induct)
  case (1 s call g)
  then show ?case by (cases k) (simp_all split: if_splits)
next
  case (2 s n call g)
  then show ?case by (auto simp: bindr_Inr_iff split: if_splits)
qed

lemma steps_moves: "steps_until s n call g = Inr g' \<Longrightarrow> (gc_move call)\<^sup>*\<^sup>* g g'"
proof (induction s n call g rule: steps_until.induct)
  case (2 s n call g)
  show ?case
  proof (cases "gc_gcstate g = s")
    case True
    with 2(2) show ?thesis by simp
  next
    case False
    with 2(2) obtain c h where h: "singlestep call g = Inr (c, h)" "steps_until s n call h = Inr g'" by (auto simp: bindr_Inr_iff)
    from converse_rtranclp_into_rtranclp [OF gc_move.collect [OF h(1)] 2(1) [OF False h(1) refl h(2)]] show ?thesis .
  qed
qed (simp split: if_splits)

lemma steps_until_then:
  "steps_until s n call g = Inr f \<Longrightarrow> steps_until s' 1 call f = Inr q \<Longrightarrow> \<exists>p. steps_until s' (n + 1) call g = Inr p"
proof (induction s n call g rule: steps_until.induct)
  case (1 s call g)
  then show ?case by (simp split: if_splits)
next
  case (2 s n call g)
  consider "gc_gcstate g = s'" | "gc_gcstate g \<noteq> s'" "gc_gcstate g = s" | "gc_gcstate g \<noteq> s'" "gc_gcstate g \<noteq> s" by blast
  then show ?case
  proof cases
    case 2
    with "2.prems" steps_until_more [of s' 1 call g q "Suc n"] show ?thesis by simp
  next
    case 3
    with "2.prems" obtain c h where h: "singlestep call g = Inr (c, h)" "steps_until s n call h = Inr f" by (auto simp: bindr_Inr_iff)
    from "2.IH" [OF 3(2) h(1) refl h(2) "2.prems"(2)] obtain p where "steps_until s' (n + 1) call h = Inr p" ..
    with h(1) 3(1) show ?thesis by simp
  qed simp
qed

text \<open>With no userdata there is no finalizer, and a full collection ends.\<close>

lemma fullgc_ends:
  assumes g: "gc_inv g" and c: "call_ok call" and u: "\<forall>p. gch_tt (gc_heap g p) \<noteq> LUA_TUSERDATA"
  shows "\<exists>n g'. luaC_fullgc n call g = Inr g'"
proof -
  define h where "h = (if gc_gcstate g \<le> GCSpropagate then reset_sweep g else g)"
  have ih: "gc_inv h" "gc_heap h = gc_heap g" using g reset_sweep_inv by (auto simp: h_def reset_sweep_def)
  from reach_finalize [OF ih(1), of call] obtain n k where k: "steps_until GCSfinalize n call h = Inr k" "gc_inv k" "gc_gcstate k = GCSfinalize"
    "\<And>p. alloc k p \<Longrightarrow> gch_tt (gc_heap k p) = gch_tt (gc_heap h p)" by blast
  then have "base_inv k" "all_clean k" by (simp_all add: gc_inv_def)
  from markroot_ok [OF this] obtain m where m: "markroot k = Inr m" "mark_inv m" "fixed_ok m" "gc_gcstate m = GCSpropagate" "hsim k m" by blast
  then have im: "gc_inv m" by (simp add: gc_inv_def)
  from reach_finalize [OF im, of call] obtain n' f where f: "steps_until GCSfinalize n' call m = Inr f" "gc_inv f" "gc_gcstate f = GCSfinalize"
    "\<And>p. alloc f p \<Longrightarrow> gch_tt (gc_heap f p) = gch_tt (gc_heap m p)" by blast
  have "gch_tt (gc_heap f p) \<noteq> LUA_TUSERDATA" for p
  proof
    assume p: "gch_tt (gc_heap f p) = LUA_TUSERDATA"
    then have "alloc f p" by (auto simp: alloc_def tag_defs)
    with f(4) p hsim_tt [OF m(5), of p] have kp: "gch_tt (gc_heap k p) = LUA_TUSERDATA" by simp
    then have "alloc k p" by (auto simp: alloc_def tag_defs)
    with k(4) kp u ih(2) show False by auto
  qed
  moreover have "gch_tt (gc_heap f p) = LUA_TUSERDATA" if "p \<in> set (gc_tmudata f)" for p
    using f(2,3) lists_ok_parts(7) [OF base_parts(3)] that by (simp add: gc_inv_def)
  ultimately have "gc_tmudata f = []" by (cases "gc_tmudata f") auto
  then have "steps_until GCSpause 1 call f = Inr (f\<lparr>gc_gcstate := GCSpause, gc_gcdept := 0\<rparr>)"
    using f(3) by (simp add: singlestep_def)
  from steps_until_then [OF f(1) this] have "\<exists>p. steps_until GCSpause (n' + 1) call m = Inr p" .
  then obtain p where p: "steps_until GCSpause (n' + 1) call m = Inr p" ..
  have "steps_until GCSfinalize (n + (n' + 1)) call h = Inr k" by (rule steps_until_more [OF k(1)])
  moreover have "steps_until GCSpause (n + (n' + 1)) call m = Inr p" using steps_until_more [OF p, of n] by (simp add: add.commute)
  ultimately show ?thesis using m(1) by (intro exI [of _ "n + (n' + 1)"]) (simp add: luaC_fullgc_def h_def [symmetric] Let_def)
qed

end
