(* ===== verification/LuaGCMain.thy ===== *)
theory LuaGCMain
  imports LuaGCRun LuaRaw
begin

text \<open>
  The collector of a state just opened (lstate.c), and what the collector is to guarantee.
\<close>

section \<open>A new state\<close>

definition LUA_MINSTACK :: nat where "LUA_MINSTACK = 20"
definition LUAI_GCPAUSE :: int where "LUAI_GCPAUSE = 200"
definition LUAI_GCMUL :: int where "LUAI_GCMUL = 200"
definition NUM_TAGS :: nat where "NUM_TAGS = 9"

text \<open>\<open>stack_init\<close>: the new stack has arbitrary values, here nil.\<close>

definition stack_init :: "Thread \<Rightarrow> Thread" where
  "stack_init L = L\<lparr>th_citops := [1 + LUA_MINSTACK], th_size_ci := BASIC_CI_SIZE,
     th_stack := replicate (BASIC_STACK_SIZE + EXTRA_STACK) TNil, th_top := 1\<rparr>"

definition preinit_state :: Thread where
  "preinit_state = \<lparr>th_gt = TNil, th_stack = [], th_top = 0, th_citops = [], th_size_ci = 0, th_openupval = []\<rparr>"

text \<open>\<open>lua_newstate\<close> before it calls \<open>f_luaopen\<close>; \<open>sz\<close> is the size of the two states.\<close>

definition lua_newstate :: "ptr \<Rightarrow> nat \<Rightarrow> gstate" where
  "lua_newstate l sz =
     (let cw = bit2mask WHITE0BIT FIXEDBIT in
      \<lparr>gc_heap = (\<lambda>_. OFree)(l := OThr preinit_state),
       gc_marked = (\<lambda>_. 0)(l := l_setbit (l_setbit (luaC_white cw) FIXEDBIT) SFIXEDBIT),
       gc_currentwhite = cw, gc_gcstate = GCSpause, gc_strt = [], gc_nuse = 0, gc_sweepstrgc = 0,
       gc_rootgc = [l], gc_sweepgc = None, gc_gray = [], gc_grayagain = [], gc_weak = [], gc_tmudata = [],
       gc_uvhead = [], gc_mainthread = l, gc_L = l, gc_registry = TNil, gc_mt = replicate NUM_TAGS 0,
       gc_tmname = (\<lambda>_. 0), gc_buffsize = 0, gc_totalbytes = word_of_nat sz, gc_GCthreshold = 0,
       gc_estimate = 0, gc_gcdept = 0, gc_gcpause = LUAI_GCPAUSE, gc_gcstepmul = LUAI_GCMUL\<rparr>)"

text \<open>\<open>luaH_new\<close> as an operation on the heap.\<close>

definition gc_newtable :: "gstate \<Rightarrow> ptr \<Rightarrow> nat \<Rightarrow> nat \<Rightarrow> gstate res" where
  "gc_newtable g p narray nhash =
     bindr (luaH_new narray nhash) (\<lambda>t.
     let g = luaM_newmem g (sizeof_Table + narray * sizeof_TValue + (if t_isdummy t then 0 else length (t_node t) * sizeof_Node))
     in Inr (luaC_link g p (OTab t)))"

text \<open>\<open>f_luaopen\<close> up to the string table; the names of the tag methods and the reserved words come next.\<close>

definition f_luaopen :: "gstate \<Rightarrow> ptr \<Rightarrow> ptr \<Rightarrow> gstate res" where
  "f_luaopen g p q =
     bindr (thread_at g (gc_L g)) (\<lambda>t.
     let g = set_heap g (gc_L g) (OThr (stack_init t));
         g = luaM_newmem g (BASIC_CI_SIZE * sizeof_CallInfo + (BASIC_STACK_SIZE + EXTRA_STACK) * sizeof_TValue) in
     bindr (gc_newtable g p 0 2) (\<lambda>g.
     bindr (thread_at g (gc_L g)) (\<lambda>t.
     let g = set_heap g (gc_L g) (OThr (t\<lparr>th_gt := TTab p\<rparr>)) in
     bindr (gc_newtable g q 0 2) (\<lambda>g.
     let g = g\<lparr>gc_registry := TTab q\<rparr>;
         g = luaM_newmem (gc_resize g MINSTRTABSIZE) (MINSTRTABSIZE * sizeof_ptr) in
     Inr (g\<lparr>gc_GCthreshold := 4 * gc_totalbytes g\<rparr>)))))"

lemma new_table_refs:
  assumes "luaH_new narray nhash = Inr t"
  shows "tchain t \<and> table_refs t = []"
proof -
  have c: "\<exists>xs. chain (replicate n nilnode) (Some i) xs" if "i < n" for i n
    using that by (intro exI [of _ "[i]"]) (simp add: nilnode_def)
  show ?thesis
    using assms c c [of 0 1] by (auto simp: luaH_new_def setnodevector_def setarrayvector_def Let_def tchain_def table_refs_def opt_ref_def
        node_refs_def val_refs_def nilnode_def bindr_Inr_iff sizearray_def iscollectable_def tag_defs split: if_splits)
qed

text \<open>The state is one of the invariant when the addresses differ.\<close>

lemma open_inv:
  assumes d: "distinct [l, p, q, 0]"
  shows "returns (\<lambda>g. gc_inv g \<and> gc_gcstate g = GCSpause \<and> p \<in> reachable g \<and>
    (\<exists>T t. gc_heap g = (\<lambda>_. OFree)(l := OThr T, p := OTab t, q := OTab t) \<and> tchain t \<and> table_refs t = [])) (f_luaopen (lua_newstate l sz) p q)"
proof -
  from luaH_new_spec [of 0 2] obtain t where t: "luaH_new 0 2 = Inr t" by (auto simp: MAXBITS_def)
  note tr = new_table_refs [OF t]
  let ?T = "(stack_init preinit_state)\<lparr>th_gt := TTab p\<rparr>"
  have T: "th_top ?T = 1" "length (th_stack ?T) = 45" "th_citops ?T = [21]" "th_openupval ?T = []" "th_gt ?T = TTab p"
    "take 1 (th_stack ?T) = [TNil]"
    by (simp_all add: stack_init_def preinit_state_def BASIC_STACK_SIZE_def EXTRA_STACK_def LUA_MINSTACK_def)
  have lw: "luaC_white (bit2mask WHITE0BIT FIXEDBIT) = 1" "l_setbit (l_setbit (luaC_white (bit2mask WHITE0BIT FIXEDBIT)) FIXEDBIT) SFIXEDBIT = 97"
    by code_simp+
  obtain g where g: "f_luaopen (lua_newstate l sz) p q = Inr g" by (cases "f_luaopen (lua_newstate l sz) p q")
      (use d t in \<open>simp_all add: f_luaopen_def lua_newstate_def thread_at_def gc_newtable_def Let_def luaC_link_def luaM_newmem_def\<close>)
  have f: "gc_heap g = (\<lambda>_. OFree)(l := OThr ?T, p := OTab t, q := OTab t)" "gc_marked g = (\<lambda>_. 0)(l := 97, p := 1, q := 1)"
    "gc_currentwhite g = 33" "gc_gcstate g = GCSpause" "gc_strt g = replicate 32 []" "gc_rootgc g = [q, p, l]" "gc_tmudata g = []"
    "gc_uvhead g = []" "gc_mainthread g = l" "gc_L g = l" "gc_registry g = TTab q" "gc_mt g = replicate 9 0"
    using g d t lw
    by (auto simp: f_luaopen_def lua_newstate_def thread_at_def gc_newtable_def Let_def luaC_link_def luaM_newmem_def gc_resize_def
        MINSTRTABSIZE_def NUM_TAGS_def WHITE0BIT_def FIXEDBIT_def bit2mask_def bitmask_def fun_eq_iff split: if_splits)
  have r: "refs g l = {(LUA_TTABLE, p)}" "refs g p = {}" "refs g q = {}" "x \<notin> {l, p, q} \<Longrightarrow> refs g x = {}" for x
    using d tr T by (auto simp: refs_def f thread_refs_def val_refs_def iscollectable_def tag_defs take_Suc_conv_app_nth [of 0, simplified])
  have al: "alloc g x \<longleftrightarrow> x \<in> {l, p, q}" for x using d by (auto simp: alloc_def f)
  have up: "gc_heap g u \<noteq> OUpval v y" for u v y by (simp add: f)
  have tts: "gch_tt (gc_heap g x) = (if x = l then LUA_TTHREAD else if x = p \<or> x = q then LUA_TTABLE else LUA_TNIL)" for x
    using d by (simp add: f)
  have bits: "iswhite 97" "iswhite 1" "\<not> isblack 97" "\<not> isblack 1" "\<not> isblack 0" "\<not> isdead 33 97" "\<not> isdead 33 1" "cw_ok 33"
    "\<not> bit (1 :: lu_byte) 5"
    by code_simp+
  have col: "clean g x" if "x \<in> {l, p, q}" for x using that bits d by (auto simp: clean_def white_def dead_def f)
  have nb: "\<not> black g x" for x using bits by (simp add: black_def f)
  have rts: "roots g = {(LUA_TTHREAD, l), (LUA_TTABLE, q)}" by (auto simp: roots_def f val_refs_def opt_ref_def iscollectable_def tag_defs)
  have ok: "ref_ok g r \<and> \<not> dead g (snd r)" if "r \<in> {(LUA_TTHREAD, l), (LUA_TTABLE, q), (LUA_TTABLE, p)}" for r
  proof -
    have "gch_tt (gc_heap g (snd r)) = fst r" "fst r \<noteq> LUA_TNIL" "snd r \<in> {l, p, q}"
      using that d by (auto simp: tts tag_defs)
    with col show ?thesis by (simp add: ref_ok_def clean_def)
  qed
  have rf: "refs g x \<subseteq> {(LUA_TTABLE, p)}" for x using r by (cases "x \<in> {l, p, q}") auto
  have "struct g"
    using T tr up d by (simp add: struct_def thread_ok_def open_uv_def f)
  moreover have "lists_ok g"
    unfolding lists_ok_def using d up by (auto simp: tts al f udata_list_def open_uv_def tag_defs split: if_splits)
  moreover have "live_closed g" unfolding live_closed_def rts
  proof (intro conjI allI impI ballI)
    fix x r assume "r \<in> refs g x"
    with rf have "r \<in> {(LUA_TTHREAD, l), (LUA_TTABLE, q), (LUA_TTABLE, p)}" by blast
    from ok [OF this] show "ref_ok g r" "\<not> dead g (snd r)" by simp_all
  next
    fix r assume "r \<in> {(LUA_TTHREAD, l), (LUA_TTABLE, q)}"
    then have "r \<in> {(LUA_TTHREAD, l), (LUA_TTABLE, q), (LUA_TTABLE, p)}" by blast
    from ok [OF this] show "ref_ok g r" "\<not> dead g (snd r)" by simp_all
  qed (simp add: f)
  moreover have "black_ok g" using nb by (simp add: black_ok_def)
  moreover have fx: "fixed_ok g" using d bits by (auto simp: fixed_ok_def al f)
  ultimately have "base_inv g" using bits by (simp add: base_inv_def f)
  moreover have "all_clean g" using col by (simp add: all_clean_def al)
  ultimately have "gc_inv g" using fx f(4) by (simp add: gc_inv_def)
  moreover have "l \<in> reachable g" using reachable.root [of "(LUA_TTHREAD, l)" g] by (simp add: rts)
  then have "p \<in> reachable g" using reachable.step [of l g "(LUA_TTABLE, p)"] r(1) by simp
  moreover have "\<exists>T t. gc_heap g = (\<lambda>_. OFree)(l := OThr T, p := OTab t, q := OTab t) \<and> tchain t \<and> table_refs t = []"
    using f(1) tr by blast
  ultimately show ?thesis unfolding g using f(4) by simp
qed

lemma opened:
  obtains g T t where "f_luaopen (lua_newstate 1 1024) 2 3 = Inr g" "gc_inv g" "gc_gcstate g = GCSpause" "2 \<in> reachable g"
    "gc_heap g = (\<lambda>_. OFree)(1 := OThr T, 2 := OTab t, 3 := OTab t)" "tchain t" "table_refs t = []"
  using open_inv [of 1 2 3 1024] by (auto simp: returns_def)

lemma call_ok_Inr [simp]: "call_ok Inr" by (simp add: call_ok_def)

section \<open>What the collector guarantees\<close>

text \<open>C2: However the program and the collector take turns - the program stores references it has in tables,
  other objects and stacks with their barriers, and makes new objects; the collector marks, ends the marking
  atomically, sweeps strings and objects and calls finalizers, one step at a time - an object that the program
  can reach is never freed, and each of its references leads to an object of the type its reader expects.\<close>

theorem reachable_never_freed:
  assumes "gc_inv g" "call_ok call" "(gc_move call)\<^sup>*\<^sup>* g g'" "p \<in> reachable g'"
  shows "gc_heap g' p \<noteq> OFree \<and> (\<forall>r \<in> refs g' p. gch_tt (gc_heap g' (snd r)) = fst r \<and> gc_heap g' (snd r) \<noteq> OFree)"
proof -
  have g': "gc_inv g'" by (rule moves_inv [OF assms(3,2,1)])
  from reachable_alive [OF g' assms(4)] have "gc_heap g' p \<noteq> OFree" by (simp add: alloc_def)
  moreover have "gch_tt (gc_heap g' (snd r)) = fst r \<and> gc_heap g' (snd r) \<noteq> OFree" if "r \<in> refs g' p" for r
    using reachable_refs [OF g' assms(4) that] gch_tt_alloc [of "gc_heap g' (snd r)"] by (simp add: ref_ok_def)
  ultimately show ?thesis by blast
qed

text \<open>Its witness: the main thread after a new state was opened and the collector ran to its last phase.\<close>

lemma reachable_never_freed_witness:
  "\<exists>g g'. f_luaopen (lua_newstate 1 1024) 2 3 = Inr g \<and> (gc_move Inr)\<^sup>*\<^sup>* g g' \<and> gc_gcstate g' = GCSfinalize \<and>
     gc_heap g' (gc_mainthread g') \<noteq> OFree \<and>
     (\<forall>r \<in> refs g' (gc_mainthread g'). gch_tt (gc_heap g' (snd r)) = fst r \<and> gc_heap g' (snd r) \<noteq> OFree)"
proof -
  from opened obtain g where g: "f_luaopen (lua_newstate 1 1024) 2 3 = Inr g" "gc_inv g" by blast
  from reach_finalize [OF g(2), of Inr] obtain n g' where s: "steps_until GCSfinalize n Inr g = Inr g'" "gc_gcstate g' = GCSfinalize" by blast
  note m = steps_moves [OF s(1)]
  have "gc_mainthread g' \<in> reachable g'" using reachable.root [of "(LUA_TTHREAD, gc_mainthread g')" g'] by (simp add: roots_def)
  from reachable_never_freed [OF g(2) call_ok_Inr m this] show ?thesis using g(1) m s(2) by blast
qed



text \<open>C5: The atomic step ends the marking: afterwards an object that has not the white of the finished cycle has
  references only to objects of the types expected that have not that white either, so nothing the program can
  reach will be swept.\<close>

theorem atomic_closes_marking:
  assumes "gc_inv g" "gc_gcstate g = GCSpropagate"
  shows "\<exists>g'. atomic g = Inr g' \<and> gc_gcstate g' = GCSsweepstring \<and>
    (\<forall>p. gc_heap g' p \<noteq> OFree \<and> \<not> dead g' p \<longrightarrow> (\<forall>r \<in> refs g' p. gch_tt (gc_heap g' (snd r)) = fst r \<and> \<not> dead g' (snd r))) \<and>
    (\<forall>p \<in> reachable g'. \<not> dead g' p) \<and> roots g' = roots g"
proof -
  from assms have "mark_inv g" by (simp add: gc_inv_def)
  from atomic_ok [OF this] obtain g' where g': "atomic g = Inr g'" "sweep_start g g'" "roots g' = roots g" by blast
  then have l: "live_closed g'" "gc_gcstate g' = GCSsweepstring" by (simp_all add: sweep_start_def)
  have "\<forall>p. gc_heap g' p \<noteq> OFree \<and> \<not> dead g' p \<longrightarrow> (\<forall>r \<in> refs g' p. gch_tt (gc_heap g' (snd r)) = fst r \<and> \<not> dead g' (snd r))"
    using l(1) by (simp add: live_closed_def ref_ok_def alloc_def)
  moreover have "\<forall>p \<in> reachable g'. \<not> dead g' p" using live_reachable [OF l(1)] by blast
  ultimately show ?thesis using g' l(2) by blast
qed

lemma atomic_closes_marking_witness:
  "\<exists>g h g'. f_luaopen (lua_newstate 1 1024) 2 3 = Inr g \<and> markroot g = Inr h \<and> atomic h = Inr g' \<and>
     gc_gcstate g' = GCSsweepstring \<and> (\<forall>p \<in> reachable g'. \<not> dead g' p) \<and> roots g' = roots h"
proof -
  from opened obtain g where g: "f_luaopen (lua_newstate 1 1024) 2 3 = Inr g" "gc_inv g" "gc_gcstate g = GCSpause" by blast
  then have "base_inv g" "all_clean g" by (simp_all add: gc_inv_def)
  from markroot_ok [OF this] obtain h where h: "markroot g = Inr h" "mark_inv h" "fixed_ok h" "gc_gcstate h = GCSpropagate" by blast
  then have "gc_inv h" by (simp add: gc_inv_def)
  from atomic_closes_marking [OF this h(4)] g(1) h(1) show ?thesis by blast
qed

text \<open>C6: A write with its barrier keeps the invariant of the collector in every phase: \<open>luaC_barriert\<close> after a
  store in a table, \<open>luaC_barrier\<close> after one in another object, when the value stored is one the program has.\<close>

theorem barriers_keep_invariant:
  assumes "gc_inv g" "overwrites g p x" "\<not> dead g p" "set (obj_refs (gc_heap g) x) \<subseteq> set (val_refs v) \<union> refs g p" "has_value g v"
  shows "(gch_tt x = LUA_TTABLE \<longrightarrow> gc_inv (luaC_barriert (set_heap g p x) p v)) \<and>
    (\<exists>g'. luaC_barrier (set_heap g p x) p v = Inr g' \<and> gc_inv g')"
  using write_table_value [OF assms(1-3) _ assms(4,5)] write_object_value [OF assms] assms(2)
  by (auto simp: returns_def overwrites_def)

text \<open>Its witness: the registry is stored in the array part of the table of globals, while marks are propagated.\<close>

lemma barriers_keep_invariant_witness:
  "\<exists>g h t. f_luaopen (lua_newstate 1 1024) 2 3 = Inr g \<and> markroot g = Inr h \<and> t_array t = [TTab 3] \<and>
     gc_inv (luaC_barriert (set_heap h 2 (OTab t)) 2 (TTab 3))"
proof -
  obtain g T t where g: "f_luaopen (lua_newstate 1 1024) 2 3 = Inr g" "gc_inv g" "gc_gcstate g = GCSpause"
    "gc_heap g = (\<lambda>_. OFree)(1 := OThr T, 2 := OTab t, 3 := OTab t)" "tchain t" "table_refs t = []" by (rule opened)
  then have "base_inv g" "all_clean g" by (simp_all add: gc_inv_def)
  from markroot_ok [OF this] obtain h where h: "markroot g = Inr h" "mark_inv h" "fixed_ok h" "gc_gcstate h = GCSpropagate" "hsim g h" by blast
  then have i: "gc_inv h" by (simp add: gc_inv_def)
  from h(2) have tc: "tricolour (set (gc_tmudata h)) h" by (simp add: mark_inv_def)
  have tt: "gch_tt (gc_heap h 2) = LUA_TTABLE" "gch_tt (gc_heap h 3) = LUA_TTABLE"
    using g(4) hsim_tt [OF h(5), of 2] hsim_tt [OF h(5), of 3] by simp_all
  then have d: "\<not> dead h 2" "\<not> dead h 3" using tricolour_parts(2) [OF tc, of 2] tricolour_parts(2) [OF tc, of 3] tt
      gch_tt_alloc [of "gc_heap h 2"] gch_tt_alloc [of "gc_heap h 3"] by (simp_all add: alloc_def tag_defs)
  let ?t = "t\<lparr>t_array := [TTab 3]\<rparr>"
  have w: "overwrites h 2 (OTab ?t)" using tt(1) g(5) by (auto simp: overwrites_def open_uv_def tchain_def tag_defs)
  have v: "set (obj_refs (gc_heap h) (OTab ?t)) \<subseteq> set (val_refs (TTab 3)) \<union> refs h 2" using g(6) by (simp add: table_refs_def)
  have hv: "has_value h (TTab 3)" using tt d by (simp add: has_value_def has_ref_def ref_ok_def val_refs_def iscollectable_def tag_defs)
  from barriers_keep_invariant [OF i w d(1) v hv] g(1) h(1) show ?thesis by (intro exI [of _ g] exI [of _ h] exI [of _ ?t]) simp
qed

text \<open>C7: From every state of the invariant the collector comes to the end of its sweep after finitely many steps, and
  then every object that is not waiting for its finalizer has the white of the next cycle.\<close>

theorem collection_ends:
  assumes "gc_inv g"
  shows "\<exists>n g'. steps_until GCSfinalize n call g = Inr g' \<and> gc_gcstate g' = GCSfinalize \<and>
    (\<forall>p. gc_heap g' p \<noteq> OFree \<and> p \<notin> set (gc_tmudata g') \<longrightarrow> white g' p \<and> \<not> dead g' p)"
proof -
  from reach_finalize [OF assms, of call] obtain n g' where
    g': "steps_until GCSfinalize n call g = Inr g'" "gc_inv g'" "gc_gcstate g' = GCSfinalize" by blast
  then have "all_clean g'" by (simp add: gc_inv_def)
  with g' show ?thesis by (auto simp: all_clean_def clean_def alloc_def)
qed

lemma collection_ends_witness:
  "\<exists>g n g'. f_luaopen (lua_newstate 1 1024) 2 3 = Inr g \<and> steps_until GCSfinalize n Inr g = Inr g' \<and> gc_gcstate g' = GCSfinalize"
proof -
  from opened obtain g where g: "f_luaopen (lua_newstate 1 1024) 2 3 = Inr g" "gc_inv g" by blast
  from collection_ends [OF g(2), of Inr] g(1) show ?thesis by blast
qed



end
