(* ===== verification/LuaCode.thy ===== *)
theory LuaCode
  imports LuaRaw LuaLex LuaCheck
begin

text \<open>
  The code generator (lcode.c, lcode.h), over the state of a function being compiled (lparser.h). The arrays of the
  prototype under construction are the lists of their elements in use, so that \<open>pc\<close>, \<open>nk\<close> and \<open>np\<close> are
  lengths; the sizes they were grown to are kept apart. A jump not patched yet holds in its \<open>sBx\<close> the link to
  the next jump of its list.
\<close>

section \<open>The state\<close>

datatype expkind = VVOID | VNIL | VTRUE | VFALSE | VK | VKNUM | VLOCAL | VUPVAL | VGLOBAL | VINDEXED | VJMP | VRELOCABLE
  | VNONRELOC | VCALL | VVARARG

record expdesc =
  ek :: expkind
  einfo :: int
  eaux :: int
  enval :: lua_Number
  et :: int
  ef :: int

record upvaldesc =
  uvk :: expkind
  uvinfo :: nat

record BlockCnt =
  breaklist :: int
  bnactvar :: nat
  upval :: bool
  isbreakable :: bool

record FuncState =
  fs_code :: "Instruction list"
  fs_lineinfo :: "int list"
  fs_k :: "Konst list"
  fs_p :: "Proto list"
  fs_locvars :: "LocVar list"
  fs_upnames :: "string list"        \<comment> \<open>\<open>f->upvalues\<close>; its length is \<open>f->nups\<close>\<close>
  fs_sizecode :: nat
  fs_sizelineinfo :: nat
  fs_sizek :: nat
  fs_sizep :: nat
  fs_sizelocvars :: nat
  fs_sizeupvalues :: nat
  fs_source :: string
  fs_linedefined :: int
  fs_lastlinedefined :: int
  fs_numparams :: nat
  fs_is_vararg :: lu_byte
  fs_maxstacksize :: int
  fs_h :: Table
  fs_hp :: ptr                       \<comment> \<open>the address of the table \<open>h\<close>\<close>
  fs_bl :: "BlockCnt list"
  fs_lasttarget :: int
  fs_jpc :: int
  fs_freereg :: int
  fs_nactvar :: nat
  fs_upvalues :: "upvaldesc list"
  fs_actvar :: "nat list"            \<comment> \<open>the declared variables, those not active yet too\<close>

text \<open>What a call has from outside: the library, the object of a string's content and its hash, \<open>pow\<close>, and the
  lexical state \<open>fs->ls\<close>.\<close>

record cenv =
  c_lib :: lib_env
  c_str :: "string \<Rightarrow> ptr"
  c_hash :: "ptr \<Rightarrow> nat"
  c_pow :: "lua_Number \<Rightarrow> lua_Number \<Rightarrow> lua_Number"
  c_ls :: LexState

definition NO_JUMP :: int where "NO_JUMP = - 1"

definition fs_pc :: "FuncState \<Rightarrow> int" where "fs_pc fs = int (length (fs_code fs))"

definition syntaxerror :: "cenv \<Rightarrow> string \<Rightarrow> 'a res" where
  "syntaxerror C msg = luaX_syntaxerror (c_lib C) (c_ls C) msg"

definition luaM_growvector :: "nat \<Rightarrow> nat \<Rightarrow> nat \<Rightarrow> string \<Rightarrow> nat res" where
  "luaM_growvector nelems sz limit msg = (if sz < nelems + 1 then luaM_growaux sz limit msg else Inr sz)"

text \<open>An \<open>int\<close> cast to \<open>Instruction\<close> as an operand.\<close>

definition uarg :: "int \<Rightarrow> nat" where "uarg i = unat (word_of_int i :: Instruction)"

text \<open>\<open>fs->f->code[i]\<close>.\<close>

definition get_code :: "FuncState \<Rightarrow> int \<Rightarrow> Instruction res" where
  "get_code fs i = (if 0 \<le> i \<and> i < fs_pc fs then Inr (fs_code fs ! nat i) else Inl ErrUndef)"

definition set_code :: "FuncState \<Rightarrow> int \<Rightarrow> Instruction \<Rightarrow> FuncState" where
  "set_code fs i x = fs\<lparr>fs_code := (fs_code fs)[nat i := x]\<rparr>"

definition map_code :: "FuncState \<Rightarrow> int \<Rightarrow> (Instruction \<Rightarrow> Instruction) \<Rightarrow> FuncState res" where
  "map_code fs i h = bindr (get_code fs i) (\<lambda>x. Inr (set_code fs i (h x)))"

definition hasjumps :: "expdesc \<Rightarrow> bool" where "hasjumps e \<longleftrightarrow> et e \<noteq> ef e"

definition isnumeral :: "expdesc \<Rightarrow> bool" where
  "isnumeral e \<longleftrightarrow> ek e = VKNUM \<and> et e = NO_JUMP \<and> ef e = NO_JUMP"

section \<open>Jump lists\<close>

definition fixjump :: "cenv \<Rightarrow> FuncState \<Rightarrow> int \<Rightarrow> int \<Rightarrow> FuncState res" where
  "fixjump C fs pc dest =
     (let offset = dest - (pc + 1) in
      if int MAXARG_sBx < \<bar>offset\<bar> then syntaxerror C ''control structure too long''
      else map_code fs pc (\<lambda>jmp. SETARG_sBx jmp offset))"

definition luaK_getlabel :: "FuncState \<Rightarrow> int \<times> FuncState" where
  "luaK_getlabel fs = (fs_pc fs, fs\<lparr>fs_lasttarget := fs_pc fs\<rparr>)"

definition getjump :: "FuncState \<Rightarrow> int \<Rightarrow> int res" where
  "getjump fs pc =
     bindr (get_code fs pc) (\<lambda>i.
     let offset = GETARG_sBx i in Inr (if offset = NO_JUMP then NO_JUMP else pc + 1 + offset))"

definition is_test :: "Instruction \<Rightarrow> bool" where
  "is_test i = (case opcode_of (GET_OPCODE i) of Some m \<Rightarrow> testTMode m | None \<Rightarrow> False)"

text \<open>The position of the instruction that controls the jump at \<open>pc\<close>.\<close>

definition getjumpcontrol :: "FuncState \<Rightarrow> int \<Rightarrow> int res" where
  "getjumpcontrol fs pc =
     (if 1 \<le> pc then bindr (get_code fs (pc - 1)) (\<lambda>i. Inr (if is_test i then pc - 1 else pc)) else Inr pc)"

text \<open>The walks along a list have as fuel the number of instructions: a list meets none twice.\<close>

fun need_value_loop :: "nat \<Rightarrow> FuncState \<Rightarrow> int \<Rightarrow> bool res" where
  "need_value_loop 0 fs list = (if list = NO_JUMP then Inr False else Inl ErrFuel)"
| "need_value_loop (Suc n) fs list =
     (if list = NO_JUMP then Inr False
      else
        bindr (getjumpcontrol fs list) (\<lambda>c.
        bindr (get_code fs c) (\<lambda>i.
        if \<not> is_op i OP_TESTSET then Inr True
        else bindr (getjump fs list) (need_value_loop n fs))))"

definition need_value :: "FuncState \<Rightarrow> int \<Rightarrow> bool res" where
  "need_value fs list = need_value_loop (length (fs_code fs)) fs list"

definition patchtestreg :: "FuncState \<Rightarrow> int \<Rightarrow> int \<Rightarrow> (bool \<times> FuncState) res" where
  "patchtestreg fs node reg =
     bindr (getjumpcontrol fs node) (\<lambda>c.
     bindr (get_code fs c) (\<lambda>i.
     if \<not> is_op i OP_TESTSET then Inr (False, fs)
     else if reg \<noteq> int NO_REG \<and> reg \<noteq> int (GETARG_B i) then Inr (True, set_code fs c (SETARG_A i (uarg reg)))
     else Inr (True, set_code fs c (CREATE_ABC (opnum OP_TEST) (GETARG_B i) 0 (GETARG_C i)))))"

fun removevalues_loop :: "nat \<Rightarrow> FuncState \<Rightarrow> int \<Rightarrow> FuncState res" where
  "removevalues_loop 0 fs list = (if list = NO_JUMP then Inr fs else Inl ErrFuel)"
| "removevalues_loop (Suc n) fs list =
     (if list = NO_JUMP then Inr fs
      else
        bindr (patchtestreg fs list (int NO_REG)) (\<lambda>(_, fs).
        bindr (getjump fs list) (removevalues_loop n fs)))"

definition removevalues :: "FuncState \<Rightarrow> int \<Rightarrow> FuncState res" where
  "removevalues fs list = removevalues_loop (length (fs_code fs)) fs list"

fun patchlistaux_loop :: "nat \<Rightarrow> cenv \<Rightarrow> FuncState \<Rightarrow> int \<Rightarrow> int \<Rightarrow> int \<Rightarrow> int \<Rightarrow> FuncState res" where
  "patchlistaux_loop 0 C fs list vtarget reg dtarget = (if list = NO_JUMP then Inr fs else Inl ErrFuel)"
| "patchlistaux_loop (Suc n) C fs list vtarget reg dtarget =
     (if list = NO_JUMP then Inr fs
      else
        bindr (getjump fs list) (\<lambda>next.
        bindr (patchtestreg fs list reg) (\<lambda>(b, fs).
        bindr (fixjump C fs list (if b then vtarget else dtarget)) (\<lambda>fs.
        patchlistaux_loop n C fs next vtarget reg dtarget))))"

definition patchlistaux :: "cenv \<Rightarrow> FuncState \<Rightarrow> int \<Rightarrow> int \<Rightarrow> int \<Rightarrow> int \<Rightarrow> FuncState res" where
  "patchlistaux C fs list vtarget reg dtarget = patchlistaux_loop (length (fs_code fs)) C fs list vtarget reg dtarget"

definition dischargejpc :: "cenv \<Rightarrow> FuncState \<Rightarrow> FuncState res" where
  "dischargejpc C fs =
     bindr (patchlistaux C fs (fs_jpc fs) (fs_pc fs) (int NO_REG) (fs_pc fs)) (\<lambda>fs. Inr (fs\<lparr>fs_jpc := NO_JUMP\<rparr>))"

text \<open>The last jump of a list.\<close>

fun lastjump :: "nat \<Rightarrow> FuncState \<Rightarrow> int \<Rightarrow> int res" where
  "lastjump 0 fs list = Inl ErrFuel"
| "lastjump (Suc n) fs list = bindr (getjump fs list) (\<lambda>next. if next = NO_JUMP then Inr list else lastjump n fs next)"

definition luaK_concat :: "cenv \<Rightarrow> FuncState \<Rightarrow> int \<Rightarrow> int \<Rightarrow> (int \<times> FuncState) res" where
  "luaK_concat C fs l1 l2 =
     (if l2 = NO_JUMP then Inr (l1, fs)
      else if l1 = NO_JUMP then Inr (l2, fs)
      else
        bindr (lastjump (length (fs_code fs)) fs l1) (\<lambda>list.
        bindr (fixjump C fs list l2) (\<lambda>fs. Inr (l1, fs))))"

definition luaK_patchtohere :: "cenv \<Rightarrow> FuncState \<Rightarrow> int \<Rightarrow> FuncState res" where
  "luaK_patchtohere C fs list =
     (let (_, fs) = luaK_getlabel fs in
      bindr (luaK_concat C fs (fs_jpc fs) list) (\<lambda>(l, fs). Inr (fs\<lparr>fs_jpc := l\<rparr>)))"

definition luaK_patchlist :: "cenv \<Rightarrow> FuncState \<Rightarrow> int \<Rightarrow> int \<Rightarrow> FuncState res" where
  "luaK_patchlist C fs list target =
     (if target = fs_pc fs then luaK_patchtohere C fs list else patchlistaux C fs list target (int NO_REG) target)"

section \<open>Instructions\<close>

definition luaK_code :: "cenv \<Rightarrow> FuncState \<Rightarrow> Instruction \<Rightarrow> int \<Rightarrow> (int \<times> FuncState) res" where
  "luaK_code C fs i line =
     bindr (dischargejpc C fs) (\<lambda>fs.
     bindr (luaM_growvector (length (fs_code fs)) (fs_sizecode fs) MAX_INT ''code size overflow'') (\<lambda>n.
     bindr (luaM_growvector (length (fs_lineinfo fs)) (fs_sizelineinfo fs) MAX_INT ''code size overflow'') (\<lambda>m.
     Inr (fs_pc fs, fs\<lparr>fs_code := fs_code fs @ [i], fs_lineinfo := fs_lineinfo fs @ [line],
       fs_sizecode := n, fs_sizelineinfo := m\<rparr>))))"

definition luaK_codeABC :: "cenv \<Rightarrow> FuncState \<Rightarrow> OpCode \<Rightarrow> int \<Rightarrow> int \<Rightarrow> int \<Rightarrow> (int \<times> FuncState) res" where
  "luaK_codeABC C fs opc a b c = luaK_code C fs (CREATE_ABC (opnum opc) (uarg a) (uarg b) (uarg c)) (lastline (c_ls C))"

definition luaK_codeABx :: "cenv \<Rightarrow> FuncState \<Rightarrow> OpCode \<Rightarrow> int \<Rightarrow> int \<Rightarrow> (int \<times> FuncState) res" where
  "luaK_codeABx C fs opc a bc = luaK_code C fs (CREATE_ABx (opnum opc) (uarg a) (uarg bc)) (lastline (c_ls C))"

definition luaK_codeAsBx :: "cenv \<Rightarrow> FuncState \<Rightarrow> OpCode \<Rightarrow> int \<Rightarrow> int \<Rightarrow> (int \<times> FuncState) res" where
  "luaK_codeAsBx C fs opc a sbx = luaK_codeABx C fs opc a (sbx + int MAXARG_sBx)"

text \<open>Generating an instruction whose position is not needed.\<close>

definition codeABC :: "cenv \<Rightarrow> FuncState \<Rightarrow> OpCode \<Rightarrow> int \<Rightarrow> int \<Rightarrow> int \<Rightarrow> FuncState res" where
  "codeABC C fs opc a b c = bindr (luaK_codeABC C fs opc a b c) (\<lambda>(_, fs). Inr fs)"

definition codeABx :: "cenv \<Rightarrow> FuncState \<Rightarrow> OpCode \<Rightarrow> int \<Rightarrow> int \<Rightarrow> FuncState res" where
  "codeABx C fs opc a bc = bindr (luaK_codeABx C fs opc a bc) (\<lambda>(_, fs). Inr fs)"

definition luaK_fixline :: "FuncState \<Rightarrow> int \<Rightarrow> FuncState" where
  "luaK_fixline fs line = fs\<lparr>fs_lineinfo := (fs_lineinfo fs)[length (fs_code fs) - 1 := line]\<rparr>"

definition luaK_nil :: "cenv \<Rightarrow> FuncState \<Rightarrow> int \<Rightarrow> int \<Rightarrow> FuncState res" where
  "luaK_nil C fs from n =
     (if fs_lasttarget fs < fs_pc fs then
        if fs_pc fs = 0 then
          if int (fs_nactvar fs) \<le> from then Inr fs else codeABC C fs OP_LOADNIL from (from + n - 1) 0
        else
          bindr (get_code fs (fs_pc fs - 1)) (\<lambda>previous.
          let pfrom = int (GETARG_A previous); pto = int (GETARG_B previous) in
          if is_op previous OP_LOADNIL \<and> pfrom \<le> from \<and> from \<le> pto + 1 then
            Inr (if pto < from + n - 1 then set_code fs (fs_pc fs - 1) (SETARG_B previous (uarg (from + n - 1))) else fs)
          else codeABC C fs OP_LOADNIL from (from + n - 1) 0)
      else codeABC C fs OP_LOADNIL from (from + n - 1) 0)"

definition luaK_jump :: "cenv \<Rightarrow> FuncState \<Rightarrow> (int \<times> FuncState) res" where
  "luaK_jump C fs =
     (let jpc = fs_jpc fs; fs = fs\<lparr>fs_jpc := NO_JUMP\<rparr> in
      bindr (luaK_codeAsBx C fs OP_JMP 0 NO_JUMP) (\<lambda>(j, fs). luaK_concat C fs j jpc))"

definition luaK_ret :: "cenv \<Rightarrow> FuncState \<Rightarrow> int \<Rightarrow> int \<Rightarrow> FuncState res" where
  "luaK_ret C fs first nret = codeABC C fs OP_RETURN first (nret + 1) 0"

definition condjump :: "cenv \<Rightarrow> FuncState \<Rightarrow> OpCode \<Rightarrow> int \<Rightarrow> int \<Rightarrow> int \<Rightarrow> (int \<times> FuncState) res" where
  "condjump C fs opc a b c = bindr (codeABC C fs opc a b c) (luaK_jump C)"

definition luaK_setlist :: "cenv \<Rightarrow> FuncState \<Rightarrow> int \<Rightarrow> nat \<Rightarrow> int \<Rightarrow> FuncState res" where
  "luaK_setlist C fs base nelems tostore =
     (let c = int ((nelems - 1) div LFIELDS_PER_FLUSH + 1); b = (if tostore = LUA_MULTRET then 0 else tostore) in
      bindr (if c \<le> int MAXARG_C then codeABC C fs OP_SETLIST base b c
             else bindr (codeABC C fs OP_SETLIST base b 0) (\<lambda>fs.
               bindr (luaK_code C fs (word_of_int c) (lastline (c_ls C))) (\<lambda>(_, fs). Inr fs))) (\<lambda>fs.
      Inr (fs\<lparr>fs_freereg := base + 1\<rparr>)))"

section \<open>Registers\<close>

definition luaK_checkstack :: "cenv \<Rightarrow> FuncState \<Rightarrow> int \<Rightarrow> FuncState res" where
  "luaK_checkstack C fs n =
     (let newstack = fs_freereg fs + n in
      if fs_maxstacksize fs < newstack then
        if int MAXSTACK \<le> newstack then syntaxerror C ''function or expression too complex''
        else Inr (fs\<lparr>fs_maxstacksize := newstack\<rparr>)
      else Inr fs)"

definition luaK_reserveregs :: "cenv \<Rightarrow> FuncState \<Rightarrow> int \<Rightarrow> FuncState res" where
  "luaK_reserveregs C fs n = bindr (luaK_checkstack C fs n) (\<lambda>fs. Inr (fs\<lparr>fs_freereg := fs_freereg fs + n\<rparr>))"

definition is_K :: "int \<Rightarrow> bool" where "is_K x \<longleftrightarrow> ISK (uarg x)"

definition freereg :: "FuncState \<Rightarrow> int \<Rightarrow> FuncState" where
  "freereg fs reg = (if \<not> is_K reg \<and> int (fs_nactvar fs) \<le> reg then fs\<lparr>fs_freereg := fs_freereg fs - 1\<rparr> else fs)"

definition freeexp :: "FuncState \<Rightarrow> expdesc \<Rightarrow> FuncState" where
  "freeexp fs e = (if ek e = VNONRELOC then freereg fs (einfo e) else fs)"

section \<open>Constants\<close>

definition addk :: "cenv \<Rightarrow> FuncState \<Rightarrow> TValue \<Rightarrow> Konst \<Rightarrow> (int \<times> FuncState) res" where
  "addk C fs k v =
     bindr (luaH_set (c_hash C) (fs_h fs) k) (\<lambda>(t, idx).
     case slot_val t idx of
       TNumber n \<Rightarrow> Inr (lua_number2int n, fs\<lparr>fs_h := t\<rparr>)
     | _ \<Rightarrow>
         let nk = length (fs_k fs) in
         bindr (luaM_growvector nk (fs_sizek fs) MAXARG_Bx ''constant table overflow'') (\<lambda>n.
         Inr (int nk, fs\<lparr>fs_h := slot_write t idx (TNumber (cast_num (int nk))), fs_k := fs_k fs @ [v], fs_sizek := n\<rparr>)))"

definition luaK_stringK :: "cenv \<Rightarrow> FuncState \<Rightarrow> string \<Rightarrow> (int \<times> FuncState) res" where
  "luaK_stringK C fs s = addk C fs (TStr (c_str C s)) (KString (Some s))"

definition luaK_numberK :: "cenv \<Rightarrow> FuncState \<Rightarrow> lua_Number \<Rightarrow> (int \<times> FuncState) res" where
  "luaK_numberK C fs r = addk C fs (TNumber r) (KNumber r)"

definition boolK :: "cenv \<Rightarrow> FuncState \<Rightarrow> bool \<Rightarrow> (int \<times> FuncState) res" where
  "boolK C fs b = addk C fs (TBool b) (KBool b)"

text \<open>nil cannot be a key: the table itself stands for it.\<close>

definition nilK :: "cenv \<Rightarrow> FuncState \<Rightarrow> (int \<times> FuncState) res" where
  "nilK C fs = addk C fs (TTab (fs_hp fs)) KNil"

section \<open>Expressions\<close>

definition luaK_setreturns :: "cenv \<Rightarrow> FuncState \<Rightarrow> expdesc \<Rightarrow> int \<Rightarrow> FuncState res" where
  "luaK_setreturns C fs e nresults =
     (if ek e = VCALL then map_code fs (einfo e) (\<lambda>i. SETARG_C i (uarg (nresults + 1)))
      else if ek e = VVARARG then
        bindr (map_code fs (einfo e) (\<lambda>i. SETARG_A (SETARG_B i (uarg (nresults + 1))) (uarg (fs_freereg fs)))) (\<lambda>fs.
        luaK_reserveregs C fs 1)
      else Inr fs)"

definition luaK_setmultret :: "cenv \<Rightarrow> FuncState \<Rightarrow> expdesc \<Rightarrow> FuncState res" where
  "luaK_setmultret C fs e = luaK_setreturns C fs e LUA_MULTRET"

definition luaK_setoneret :: "FuncState \<Rightarrow> expdesc \<Rightarrow> (expdesc \<times> FuncState) res" where
  "luaK_setoneret fs e =
     (if ek e = VCALL then
        bindr (get_code fs (einfo e)) (\<lambda>i. Inr (e\<lparr>ek := VNONRELOC, einfo := int (GETARG_A i)\<rparr>, fs))
      else if ek e = VVARARG then
        bindr (map_code fs (einfo e) (\<lambda>i. SETARG_B i 2)) (\<lambda>fs. Inr (e\<lparr>ek := VRELOCABLE\<rparr>, fs))
      else Inr (e, fs))"

definition relocable :: "expdesc \<Rightarrow> (int \<times> FuncState) res \<Rightarrow> (expdesc \<times> FuncState) res" where
  "relocable e r = bindr r (\<lambda>(pc, fs). Inr (e\<lparr>einfo := pc, ek := VRELOCABLE\<rparr>, fs))"

definition luaK_dischargevars :: "cenv \<Rightarrow> FuncState \<Rightarrow> expdesc \<Rightarrow> (expdesc \<times> FuncState) res" where
  "luaK_dischargevars C fs e =
     (case ek e of
        VLOCAL \<Rightarrow> Inr (e\<lparr>ek := VNONRELOC\<rparr>, fs)
      | VUPVAL \<Rightarrow> relocable e (luaK_codeABC C fs OP_GETUPVAL 0 (einfo e) 0)
      | VGLOBAL \<Rightarrow> relocable e (luaK_codeABx C fs OP_GETGLOBAL 0 (einfo e))
      | VINDEXED \<Rightarrow>
          let fs = freereg fs (eaux e); fs = freereg fs (einfo e) in
          relocable e (luaK_codeABC C fs OP_GETTABLE 0 (einfo e) (eaux e))
      | VVARARG \<Rightarrow> luaK_setoneret fs e
      | VCALL \<Rightarrow> luaK_setoneret fs e
      | _ \<Rightarrow> Inr (e, fs))"

definition code_label :: "cenv \<Rightarrow> FuncState \<Rightarrow> int \<Rightarrow> int \<Rightarrow> int \<Rightarrow> (int \<times> FuncState) res" where
  "code_label C fs a b jump = (let (_, fs) = luaK_getlabel fs in luaK_codeABC C fs OP_LOADBOOL a b jump)"

definition in_reg :: "expdesc \<Rightarrow> int \<Rightarrow> FuncState res \<Rightarrow> (expdesc \<times> FuncState) res" where
  "in_reg e reg r = bindr r (\<lambda>fs. Inr (e\<lparr>einfo := reg, ek := VNONRELOC\<rparr>, fs))"

definition discharge2reg :: "cenv \<Rightarrow> FuncState \<Rightarrow> expdesc \<Rightarrow> int \<Rightarrow> (expdesc \<times> FuncState) res" where
  "discharge2reg C fs e reg =
     bindr (luaK_dischargevars C fs e) (\<lambda>(e, fs).
     case ek e of
       VNIL \<Rightarrow> in_reg e reg (luaK_nil C fs reg 1)
     | VFALSE \<Rightarrow> in_reg e reg (codeABC C fs OP_LOADBOOL reg 0 0)
     | VTRUE \<Rightarrow> in_reg e reg (codeABC C fs OP_LOADBOOL reg 1 0)
     | VK \<Rightarrow> in_reg e reg (codeABx C fs OP_LOADK reg (einfo e))
     | VKNUM \<Rightarrow> in_reg e reg (bindr (luaK_numberK C fs (enval e)) (\<lambda>(k, fs). codeABx C fs OP_LOADK reg k))
     | VRELOCABLE \<Rightarrow> in_reg e reg (map_code fs (einfo e) (\<lambda>i. SETARG_A i (uarg reg)))
     | VNONRELOC \<Rightarrow> in_reg e reg (if reg \<noteq> einfo e then codeABC C fs OP_MOVE reg (einfo e) 0 else Inr fs)
     | _ \<Rightarrow> Inr (e, fs))"

definition discharge2anyreg :: "cenv \<Rightarrow> FuncState \<Rightarrow> expdesc \<Rightarrow> (expdesc \<times> FuncState) res" where
  "discharge2anyreg C fs e =
     (if ek e \<noteq> VNONRELOC then
        bindr (luaK_reserveregs C fs 1) (\<lambda>fs. discharge2reg C fs e (fs_freereg fs - 1))
      else Inr (e, fs))"

text \<open>The part of \<open>exp2reg\<close> that loads \<open>false\<close> and \<open>true\<close> for the jumps that have no value.\<close>

definition load_bools :: "cenv \<Rightarrow> FuncState \<Rightarrow> expdesc \<Rightarrow> int \<Rightarrow> (int \<times> int \<times> FuncState) res" where
  "load_bools C fs e reg =
     bindr (need_value fs (et e)) (\<lambda>nt.
     bindr (if nt then Inr True else need_value fs (ef e)) (\<lambda>nv.
     if nv then
       bindr (if ek e = VJMP then Inr (NO_JUMP, fs) else luaK_jump C fs) (\<lambda>(fj, fs).
       bindr (code_label C fs reg 0 1) (\<lambda>(p_f, fs).
       bindr (code_label C fs reg 1 0) (\<lambda>(p_t, fs).
       bindr (luaK_patchtohere C fs fj) (\<lambda>fs. Inr (p_f, p_t, fs)))))
     else Inr (NO_JUMP, NO_JUMP, fs)))"

text \<open>The jump of a condition goes to the list of those taken when it is true.\<close>

definition put_jump :: "cenv \<Rightarrow> FuncState \<Rightarrow> expdesc \<Rightarrow> (expdesc \<times> FuncState) res" where
  "put_jump C fs e =
     (if ek e = VJMP then bindr (luaK_concat C fs (et e) (einfo e)) (\<lambda>(l, fs). Inr (e\<lparr>et := l\<rparr>, fs)) else Inr (e, fs))"

definition patch_values :: "cenv \<Rightarrow> FuncState \<Rightarrow> expdesc \<Rightarrow> int \<Rightarrow> FuncState res" where
  "patch_values C fs e reg =
     (if hasjumps e then
        bindr (load_bools C fs e reg) (\<lambda>(p_f, p_t, fs).
        let (final, fs) = luaK_getlabel fs in
        bindr (patchlistaux C fs (ef e) final reg p_f) (\<lambda>fs.
        patchlistaux C fs (et e) final reg p_t))
      else Inr fs)"

definition exp2reg :: "cenv \<Rightarrow> FuncState \<Rightarrow> expdesc \<Rightarrow> int \<Rightarrow> (expdesc \<times> FuncState) res" where
  "exp2reg C fs e reg =
     bindr (discharge2reg C fs e reg) (\<lambda>(e, fs).
     bindr (put_jump C fs e) (\<lambda>(e, fs).
     bindr (patch_values C fs e reg) (\<lambda>fs.
     Inr (e\<lparr>ef := NO_JUMP, et := NO_JUMP, einfo := reg, ek := VNONRELOC\<rparr>, fs))))"

definition luaK_exp2nextreg :: "cenv \<Rightarrow> FuncState \<Rightarrow> expdesc \<Rightarrow> (expdesc \<times> FuncState) res" where
  "luaK_exp2nextreg C fs e =
     bindr (luaK_dischargevars C fs e) (\<lambda>(e, fs).
     bindr (luaK_reserveregs C (freeexp fs e) 1) (\<lambda>fs. exp2reg C fs e (fs_freereg fs - 1)))"

text \<open>The register is \<open>einfo\<close> of the expression returned.\<close>

definition luaK_exp2anyreg :: "cenv \<Rightarrow> FuncState \<Rightarrow> expdesc \<Rightarrow> (expdesc \<times> FuncState) res" where
  "luaK_exp2anyreg C fs e =
     bindr (luaK_dischargevars C fs e) (\<lambda>(e, fs).
     if ek e = VNONRELOC \<and> \<not> hasjumps e then Inr (e, fs)
     else if ek e = VNONRELOC \<and> int (fs_nactvar fs) \<le> einfo e then exp2reg C fs e (einfo e)
     else luaK_exp2nextreg C fs e)"

definition luaK_exp2val :: "cenv \<Rightarrow> FuncState \<Rightarrow> expdesc \<Rightarrow> (expdesc \<times> FuncState) res" where
  "luaK_exp2val C fs e = (if hasjumps e then luaK_exp2anyreg C fs e else luaK_dischargevars C fs e)"

definition rk_ask :: "int \<Rightarrow> int" where "rk_ask x = int (RKASK (uarg x))"

definition anyreg :: "cenv \<Rightarrow> FuncState \<Rightarrow> expdesc \<Rightarrow> (int \<times> expdesc \<times> FuncState) res" where
  "anyreg C fs e = bindr (luaK_exp2anyreg C fs e) (\<lambda>(e, fs). Inr (einfo e, e, fs))"

definition luaK_exp2RK :: "cenv \<Rightarrow> FuncState \<Rightarrow> expdesc \<Rightarrow> (int \<times> expdesc \<times> FuncState) res" where
  "luaK_exp2RK C fs e =
     bindr (luaK_exp2val C fs e) (\<lambda>(e, fs).
     if ek e \<in> {VKNUM, VTRUE, VFALSE, VNIL} \<and> length (fs_k fs) \<le> MAXINDEXRK then
       bindr (if ek e = VNIL then nilK C fs else if ek e = VKNUM then luaK_numberK C fs (enval e) else boolK C fs (ek e = VTRUE))
         (\<lambda>(i, fs). Inr (rk_ask i, e\<lparr>einfo := i, ek := VK\<rparr>, fs))
     else if ek e = VK \<and> einfo e \<le> int MAXINDEXRK then Inr (rk_ask (einfo e), e, fs)
     else anyreg C fs e)"

definition luaK_storevar :: "cenv \<Rightarrow> FuncState \<Rightarrow> expdesc \<Rightarrow> expdesc \<Rightarrow> FuncState res" where
  "luaK_storevar C fs var ex =
     (case ek var of
        VLOCAL \<Rightarrow> bindr (exp2reg C (freeexp fs ex) ex (einfo var)) (\<lambda>(_, fs). Inr fs)
      | VUPVAL \<Rightarrow> bindr (anyreg C fs ex) (\<lambda>(e, ex, fs).
          bindr (codeABC C fs OP_SETUPVAL e (einfo var) 0) (\<lambda>fs. Inr (freeexp fs ex)))
      | VGLOBAL \<Rightarrow> bindr (anyreg C fs ex) (\<lambda>(e, ex, fs).
          bindr (codeABx C fs OP_SETGLOBAL e (einfo var)) (\<lambda>fs. Inr (freeexp fs ex)))
      | VINDEXED \<Rightarrow> bindr (luaK_exp2RK C fs ex) (\<lambda>(e, ex, fs).
          bindr (codeABC C fs OP_SETTABLE (einfo var) (eaux var) e) (\<lambda>fs. Inr (freeexp fs ex)))
      | _ \<Rightarrow> Inr (freeexp fs ex))"

definition luaK_self :: "cenv \<Rightarrow> FuncState \<Rightarrow> expdesc \<Rightarrow> expdesc \<Rightarrow> (expdesc \<times> FuncState) res" where
  "luaK_self C fs e key =
     bindr (luaK_exp2anyreg C fs e) (\<lambda>(e, fs).
     let fs = freeexp fs e; func = fs_freereg fs in
     bindr (luaK_reserveregs C fs 2) (\<lambda>fs.
     bindr (luaK_exp2RK C fs key) (\<lambda>(k, key, fs).
     bindr (codeABC C fs OP_SELF func (einfo e) k) (\<lambda>fs.
     Inr (e\<lparr>einfo := func, ek := VNONRELOC\<rparr>, freeexp fs key)))))"

section \<open>Conditions\<close>

definition invertjump :: "FuncState \<Rightarrow> expdesc \<Rightarrow> FuncState res" where
  "invertjump fs e =
     bindr (getjumpcontrol fs (einfo e)) (\<lambda>c. map_code fs c (\<lambda>i. SETARG_A i (if GETARG_A i = 0 then 1 else 0)))"

definition remove_last :: "FuncState \<Rightarrow> FuncState" where
  "remove_last fs = fs\<lparr>fs_code := butlast (fs_code fs), fs_lineinfo := butlast (fs_lineinfo fs)\<rparr>"

definition jumponcond :: "cenv \<Rightarrow> FuncState \<Rightarrow> expdesc \<Rightarrow> bool \<Rightarrow> (int \<times> expdesc \<times> FuncState) res" where
  "jumponcond C fs e cond =
     bindr (if ek e = VRELOCABLE then bindr (get_code fs (einfo e)) (\<lambda>i. Inr (if is_op i OP_NOT then Some i else None)) else Inr None) (\<lambda>ie.
     case ie of
       Some ie \<Rightarrow> bindr (condjump C (remove_last fs) OP_TEST (int (GETARG_B ie)) 0 (of_bool (\<not> cond))) (\<lambda>(pc, fs). Inr (pc, e, fs))
     | None \<Rightarrow>
         bindr (discharge2anyreg C fs e) (\<lambda>(e, fs).
         bindr (condjump C (freeexp fs e) OP_TESTSET (int NO_REG) (einfo e) (of_bool cond)) (\<lambda>(pc, fs). Inr (pc, e, fs))))"

text \<open>The jump to be taken when the expression is false, and when it is true.\<close>

definition true_jump :: "cenv \<Rightarrow> FuncState \<Rightarrow> expdesc \<Rightarrow> (int \<times> expdesc \<times> FuncState) res" where
  "true_jump C fs e =
     (case ek e of
        VK \<Rightarrow> Inr (NO_JUMP, e, fs) | VKNUM \<Rightarrow> Inr (NO_JUMP, e, fs) | VTRUE \<Rightarrow> Inr (NO_JUMP, e, fs)
      | VFALSE \<Rightarrow> bindr (luaK_jump C fs) (\<lambda>(pc, fs). Inr (pc, e, fs))
      | VJMP \<Rightarrow> bindr (invertjump fs e) (\<lambda>fs. Inr (einfo e, e, fs))
      | _ \<Rightarrow> jumponcond C fs e False)"

definition false_jump :: "cenv \<Rightarrow> FuncState \<Rightarrow> expdesc \<Rightarrow> (int \<times> expdesc \<times> FuncState) res" where
  "false_jump C fs e =
     (case ek e of
        VNIL \<Rightarrow> Inr (NO_JUMP, e, fs) | VFALSE \<Rightarrow> Inr (NO_JUMP, e, fs)
      | VTRUE \<Rightarrow> bindr (luaK_jump C fs) (\<lambda>(pc, fs). Inr (pc, e, fs))
      | VJMP \<Rightarrow> Inr (einfo e, e, fs)
      | _ \<Rightarrow> jumponcond C fs e True)"

definition luaK_goiftrue :: "cenv \<Rightarrow> FuncState \<Rightarrow> expdesc \<Rightarrow> (expdesc \<times> FuncState) res" where
  "luaK_goiftrue C fs e =
     bindr (luaK_dischargevars C fs e) (\<lambda>(e, fs).
     bindr (true_jump C fs e) (\<lambda>(pc, e, fs).
     bindr (luaK_concat C fs (ef e) pc) (\<lambda>(l, fs).
     bindr (luaK_patchtohere C fs (et e)) (\<lambda>fs. Inr (e\<lparr>ef := l, et := NO_JUMP\<rparr>, fs)))))"

definition luaK_goiffalse :: "cenv \<Rightarrow> FuncState \<Rightarrow> expdesc \<Rightarrow> (expdesc \<times> FuncState) res" where
  "luaK_goiffalse C fs e =
     bindr (luaK_dischargevars C fs e) (\<lambda>(e, fs).
     bindr (false_jump C fs e) (\<lambda>(pc, e, fs).
     bindr (luaK_concat C fs (et e) pc) (\<lambda>(l, fs).
     bindr (luaK_patchtohere C fs (ef e)) (\<lambda>fs. Inr (e\<lparr>et := l, ef := NO_JUMP\<rparr>, fs)))))"

definition not_value :: "cenv \<Rightarrow> FuncState \<Rightarrow> expdesc \<Rightarrow> (expdesc \<times> FuncState) res" where
  "not_value C fs e =
     (if ek e \<in> {VNIL, VFALSE} then Inr (e\<lparr>ek := VTRUE\<rparr>, fs)
      else if ek e \<in> {VK, VKNUM, VTRUE} then Inr (e\<lparr>ek := VFALSE\<rparr>, fs)
      else if ek e = VJMP then bindr (invertjump fs e) (\<lambda>fs. Inr (e, fs))
      else if ek e \<in> {VRELOCABLE, VNONRELOC} then
        bindr (discharge2anyreg C fs e) (\<lambda>(e, fs). relocable e (luaK_codeABC C (freeexp fs e) OP_NOT 0 (einfo e) 0))
      else Inr (e, fs))"

definition codenot :: "cenv \<Rightarrow> FuncState \<Rightarrow> expdesc \<Rightarrow> (expdesc \<times> FuncState) res" where
  "codenot C fs e =
     bindr (luaK_dischargevars C fs e) (\<lambda>(e, fs).
     bindr (not_value C fs e) (\<lambda>(e, fs).
     let e = e\<lparr>ef := et e, et := ef e\<rparr> in
     bindr (removevalues fs (ef e)) (\<lambda>fs.
     bindr (removevalues fs (et e)) (\<lambda>fs. Inr (e, fs)))))"

definition luaK_indexed :: "cenv \<Rightarrow> FuncState \<Rightarrow> expdesc \<Rightarrow> expdesc \<Rightarrow> (expdesc \<times> FuncState) res" where
  "luaK_indexed C fs t k = bindr (luaK_exp2RK C fs k) (\<lambda>(i, _, fs). Inr (t\<lparr>eaux := i, ek := VINDEXED\<rparr>, fs))"

section \<open>Operators\<close>

datatype BinOpr = OPR_ADD | OPR_SUB | OPR_MUL | OPR_DIV | OPR_MOD | OPR_POW | OPR_CONCAT | OPR_NE | OPR_EQ
  | OPR_LT | OPR_LE | OPR_GT | OPR_GE | OPR_AND | OPR_OR | OPR_NOBINOPR

datatype UnOpr = OPR_MINUS | OPR_NOT | OPR_LEN | OPR_NOUNOPR

text \<open>The value of a folded operation; none for a division by zero, a NaN and the length.\<close>

definition fold_value :: "cenv \<Rightarrow> OpCode \<Rightarrow> lua_Number \<Rightarrow> lua_Number \<Rightarrow> lua_Number option" where
  "fold_value C opc v1 v2 =
     (let r = (case opc of
                 OP_ADD \<Rightarrow> Some (num_add v1 v2) | OP_SUB \<Rightarrow> Some (num_sub v1 v2) | OP_MUL \<Rightarrow> Some (num_mul v1 v2)
               | OP_DIV \<Rightarrow> if num_eq v2 0 then None else Some (num_div v1 v2)
               | OP_MOD \<Rightarrow> if num_eq v2 0 then None else Some (num_mod v1 v2)
               | OP_POW \<Rightarrow> Some (c_pow C v1 v2) | OP_UNM \<Rightarrow> Some (num_unm v1)
               | OP_LEN \<Rightarrow> None | _ \<Rightarrow> Some 0)
      in case r of Some v \<Rightarrow> if luai_numisnan v then None else Some v | None \<Rightarrow> None)"

definition constfolding :: "cenv \<Rightarrow> OpCode \<Rightarrow> expdesc \<Rightarrow> expdesc \<Rightarrow> expdesc option" where
  "constfolding C opc e1 e2 =
     (if \<not> isnumeral e1 \<or> \<not> isnumeral e2 then None
      else case fold_value C opc (enval e1) (enval e2) of Some r \<Rightarrow> Some (e1\<lparr>enval := r\<rparr>) | None \<Rightarrow> None)"

definition codearith :: "cenv \<Rightarrow> FuncState \<Rightarrow> OpCode \<Rightarrow> expdesc \<Rightarrow> expdesc \<Rightarrow> (expdesc \<times> FuncState) res" where
  "codearith C fs opc e1 e2 =
     (case constfolding C opc e1 e2 of
        Some e1 \<Rightarrow> Inr (e1, fs)
      | None \<Rightarrow>
          bindr (if opc \<noteq> OP_UNM \<and> opc \<noteq> OP_LEN then luaK_exp2RK C fs e2 else Inr (0, e2, fs)) (\<lambda>(o2, e2, fs).
          bindr (luaK_exp2RK C fs e1) (\<lambda>(o1, e1, fs).
          let fs = (if o2 < o1 then freeexp (freeexp fs e1) e2 else freeexp (freeexp fs e2) e1) in
          relocable e1 (luaK_codeABC C fs opc 0 o1 o2))))"

definition codecomp :: "cenv \<Rightarrow> FuncState \<Rightarrow> OpCode \<Rightarrow> bool \<Rightarrow> expdesc \<Rightarrow> expdesc \<Rightarrow> (expdesc \<times> FuncState) res" where
  "codecomp C fs opc cond e1 e2 =
     bindr (luaK_exp2RK C fs e1) (\<lambda>(o1, e1, fs).
     bindr (luaK_exp2RK C fs e2) (\<lambda>(o2, e2, fs).
     let fs = freeexp (freeexp fs e2) e1;
         (o1, o2, cond) = (if \<not> cond \<and> opc \<noteq> OP_EQ then (o2, o1, True) else (o1, o2, cond)) in
     bindr (condjump C fs opc (of_bool cond) o1 o2) (\<lambda>(pc, fs). Inr (e1\<lparr>einfo := pc, ek := VJMP\<rparr>, fs))))"

definition numeral_zero :: expdesc where
  "numeral_zero = \<lparr>ek = VKNUM, einfo = 0, eaux = 0, enval = 0, et = NO_JUMP, ef = NO_JUMP\<rparr>"

definition luaK_prefix :: "cenv \<Rightarrow> FuncState \<Rightarrow> UnOpr \<Rightarrow> expdesc \<Rightarrow> (expdesc \<times> FuncState) res" where
  "luaK_prefix C fs opr e =
     (case opr of
        OPR_MINUS \<Rightarrow> bindr (if \<not> isnumeral e then luaK_exp2anyreg C fs e else Inr (e, fs)) (\<lambda>(e, fs).
          codearith C fs OP_UNM e numeral_zero)
      | OPR_NOT \<Rightarrow> codenot C fs e
      | OPR_LEN \<Rightarrow> bindr (luaK_exp2anyreg C fs e) (\<lambda>(e, fs). codearith C fs OP_LEN e numeral_zero)
      | OPR_NOUNOPR \<Rightarrow> Inr (e, fs))"

definition rk_operand :: "cenv \<Rightarrow> FuncState \<Rightarrow> expdesc \<Rightarrow> (expdesc \<times> FuncState) res" where
  "rk_operand C fs v = bindr (luaK_exp2RK C fs v) (\<lambda>(_, v, fs). Inr (v, fs))"

definition luaK_infix :: "cenv \<Rightarrow> FuncState \<Rightarrow> BinOpr \<Rightarrow> expdesc \<Rightarrow> (expdesc \<times> FuncState) res" where
  "luaK_infix C fs opr v =
     (if opr = OPR_AND then luaK_goiftrue C fs v
      else if opr = OPR_OR then luaK_goiffalse C fs v
      else if opr = OPR_CONCAT then luaK_exp2nextreg C fs v
      else if opr \<in> {OPR_ADD, OPR_SUB, OPR_MUL, OPR_DIV, OPR_MOD, OPR_POW} then
        if \<not> isnumeral v then rk_operand C fs v else Inr (v, fs)
      else rk_operand C fs v)"

definition codeconcat :: "cenv \<Rightarrow> FuncState \<Rightarrow> expdesc \<Rightarrow> expdesc \<Rightarrow> (expdesc \<times> FuncState) res" where
  "codeconcat C fs e1 e2 =
     bindr (luaK_exp2val C fs e2) (\<lambda>(e2, fs).
     bindr (if ek e2 = VRELOCABLE then bindr (get_code fs (einfo e2)) (\<lambda>i. Inr (is_op i OP_CONCAT)) else Inr False) (\<lambda>b.
     if b then
       bindr (map_code (freeexp fs e1) (einfo e2) (\<lambda>i. SETARG_B i (uarg (einfo e1)))) (\<lambda>fs.
       Inr (e1\<lparr>ek := VRELOCABLE, einfo := einfo e2\<rparr>, fs))
     else bindr (luaK_exp2nextreg C fs e2) (\<lambda>(e2, fs). codearith C fs OP_CONCAT e1 e2)))"

definition luaK_posfix :: "cenv \<Rightarrow> FuncState \<Rightarrow> BinOpr \<Rightarrow> expdesc \<Rightarrow> expdesc \<Rightarrow> (expdesc \<times> FuncState) res" where
  "luaK_posfix C fs opr e1 e2 =
     (case opr of
        OPR_AND \<Rightarrow> bindr (luaK_dischargevars C fs e2) (\<lambda>(e2, fs).
          bindr (luaK_concat C fs (ef e2) (ef e1)) (\<lambda>(l, fs). Inr (e2\<lparr>ef := l\<rparr>, fs)))
      | OPR_OR \<Rightarrow> bindr (luaK_dischargevars C fs e2) (\<lambda>(e2, fs).
          bindr (luaK_concat C fs (et e2) (et e1)) (\<lambda>(l, fs). Inr (e2\<lparr>et := l\<rparr>, fs)))
      | OPR_CONCAT \<Rightarrow> codeconcat C fs e1 e2
      | OPR_ADD \<Rightarrow> codearith C fs OP_ADD e1 e2
      | OPR_SUB \<Rightarrow> codearith C fs OP_SUB e1 e2
      | OPR_MUL \<Rightarrow> codearith C fs OP_MUL e1 e2
      | OPR_DIV \<Rightarrow> codearith C fs OP_DIV e1 e2
      | OPR_MOD \<Rightarrow> codearith C fs OP_MOD e1 e2
      | OPR_POW \<Rightarrow> codearith C fs OP_POW e1 e2
      | OPR_EQ \<Rightarrow> codecomp C fs OP_EQ True e1 e2
      | OPR_NE \<Rightarrow> codecomp C fs OP_EQ False e1 e2
      | OPR_LT \<Rightarrow> codecomp C fs OP_LT True e1 e2
      | OPR_LE \<Rightarrow> codecomp C fs OP_LE True e1 e2
      | OPR_GT \<Rightarrow> codecomp C fs OP_LT False e1 e2
      | OPR_GE \<Rightarrow> codecomp C fs OP_LE False e1 e2
      | OPR_NOBINOPR \<Rightarrow> Inr (e1, fs))"

section \<open>An example\<close>

text \<open>A function whose code is two pending jumps, the first controlled by a TESTSET.\<close>

definition ex_cenv :: cenv where
  "ex_cenv = \<lparr>c_lib = ex_env, c_str = (\<lambda>s. 8), c_hash = (\<lambda>p. unat p), c_pow = (\<lambda>a b. a), c_ls = ex_lex ''x''\<rparr>"

definition pending_jump :: Instruction where "pending_jump = CREATE_ABx (opnum OP_JMP) 0 131070"

lemma pending_jump: "GETARG_sBx pending_jump = NO_JUMP" "is_op pending_jump OP_JMP"
  using CREATE_ABx_fields [of "opnum OP_JMP" 0 131070] opnum_lt [of OP_JMP]
  by (simp_all add: pending_jump_def NO_JUMP_def is_op_def GETARG_sBx_def maxarg_defs layout_defs)

definition ex_fs :: FuncState where
  "ex_fs = \<lparr>fs_code = [CREATE_ABC (opnum OP_TESTSET) 255 1 0, pending_jump,
       pending_jump],
     fs_lineinfo = [1, 1, 1], fs_k = [], fs_p = [], fs_locvars = [], fs_upnames = [], fs_sizecode = 4, fs_sizelineinfo = 4,
     fs_sizek = 0, fs_sizep = 0, fs_sizelocvars = 0, fs_sizeupvalues = 0, fs_source = ''=x'', fs_linedefined = 0,
     fs_lastlinedefined = 0, fs_numparams = 0, fs_is_vararg = 0, fs_maxstacksize = 2, fs_h = empty_table, fs_hp = 24,
     fs_bl = [], fs_lasttarget = - 1, fs_jpc = 2, fs_freereg = 0, fs_nactvar = 0, fs_upvalues = [], fs_actvar = []\<rparr>"

end
