(* ===== verification/LuaCodeJumps.thy ===== *)
theory LuaCodeJumps
  imports LuaCode
begin

text \<open>
  Jump lists of the code generator: a list of pending jumps is a list of positions, \<open>luaK_concat\<close> appends,
  and patching sends every jump of the list to its target and touches nothing else.
\<close>

section \<open>Lists of jumps\<close>

definition instr :: "FuncState \<Rightarrow> int \<Rightarrow> Instruction" where "instr fs i = fs_code fs ! nat i"

definition in_code :: "FuncState \<Rightarrow> int \<Rightarrow> bool" where "in_code fs i \<longleftrightarrow> 0 \<le> i \<and> i < fs_pc fs"

text \<open>Where the jump at \<open>i\<close> goes, as \<open>luaV_execute\<close> reads it, and the link it holds while it waits.\<close>

definition jump_dest :: "FuncState \<Rightarrow> int \<Rightarrow> int" where "jump_dest fs i = i + 1 + GETARG_sBx (instr fs i)"

definition jump_link :: "FuncState \<Rightarrow> int \<Rightarrow> int" where
  "jump_link fs i = (if GETARG_sBx (instr fs i) = NO_JUMP then NO_JUMP else jump_dest fs i)"

fun jlist :: "FuncState \<Rightarrow> int \<Rightarrow> int list \<Rightarrow> bool" where
  "jlist fs l [] \<longleftrightarrow> l = NO_JUMP"
| "jlist fs l (x # xs) \<longleftrightarrow> l = x \<and> in_code fs x \<and> is_op (instr fs x) OP_JMP \<and> jlist fs (jump_link fs x) xs"

text \<open>A jump that a TESTSET controls brings a value.\<close>

definition value_jump :: "FuncState \<Rightarrow> int \<Rightarrow> bool" where
  "value_jump fs i \<longleftrightarrow> 1 \<le> i \<and> is_op (instr fs (i - 1)) OP_TESTSET"

definition patch_reg :: "int \<Rightarrow> Instruction \<Rightarrow> Instruction" where
  "patch_reg reg i =
     (if reg \<noteq> int NO_REG \<and> reg \<noteq> int (GETARG_B i) then SETARG_A i (uarg reg)
      else CREATE_ABC (opnum OP_TEST) (GETARG_B i) 0 (GETARG_C i))"

definition reachable_jump :: "int \<Rightarrow> int \<Rightarrow> bool" where
  "reachable_jump pc dest \<longleftrightarrow> \<bar>dest - (pc + 1)\<bar> \<le> int MAXARG_sBx"

lemma get_code_Inr: "get_code fs i = Inr x \<longleftrightarrow> in_code fs i \<and> x = instr fs i"
  by (auto simp: get_code_def in_code_def instr_def)

lemma get_code_in: "in_code fs i \<Longrightarrow> get_code fs i = Inr (instr fs i)"
  by (simp add: get_code_Inr)

lemma set_code_simps [simp]:
  "fs_pc (set_code fs i x) = fs_pc fs" "in_code (set_code fs i x) j = in_code fs j"
  "length (fs_code (set_code fs i x)) = length (fs_code fs)" "fs_jpc (set_code fs i x) = fs_jpc fs"
  by (simp_all add: set_code_def fs_pc_def in_code_def)

lemma instr_set: "in_code fs i \<Longrightarrow> in_code fs j \<Longrightarrow> instr (set_code fs i x) j = (if j = i then x else instr fs j)"
  by (auto simp: instr_def set_code_def in_code_def fs_pc_def nth_list_update)

lemma instr_set_other: "i \<noteq> j \<Longrightarrow> 0 \<le> i \<Longrightarrow> 0 \<le> j \<Longrightarrow> instr (set_code fs i x) j = instr fs j"
  by (auto simp: instr_def set_code_def nth_list_update_neq)

lemma op_neq [simp]:
  "is_op i OP_JMP \<Longrightarrow> \<not> is_op i OP_TESTSET" "is_op i OP_TESTSET \<Longrightarrow> \<not> is_op i OP_JMP"
  using is_op_unique [of i OP_JMP OP_TESTSET] by auto

lemma test_of_op: "is_op i m \<Longrightarrow> is_test i = testTMode m"
  using is_op_opcode [of i m] by (simp add: is_test_def)

lemma test_modes: "testTMode OP_TESTSET" "\<not> testTMode OP_JMP"
  by code_simp+

lemma TESTSET_test: "is_op i OP_TESTSET \<Longrightarrow> is_test i"
  by (simp add: test_of_op test_modes)

lemma JMP_no_test: "is_op i OP_JMP \<Longrightarrow> \<not> is_test i"
  by (simp add: test_of_op test_modes)

lemma getjump_in: "in_code fs i \<Longrightarrow> getjump fs i = Inr (jump_link fs i)"
  by (simp add: getjump_def get_code_in jump_link_def jump_dest_def Let_def)

text \<open>The jumps of a list are not controlled by one of them.\<close>

lemma control_TESTSET:
  assumes "in_code fs i" "is_op (instr fs i) OP_JMP"
  shows "\<exists>c. getjumpcontrol fs i = Inr c \<and> in_code fs c \<and> (is_op (instr fs c) OP_TESTSET \<longleftrightarrow> value_jump fs i) \<and> (value_jump fs i \<longrightarrow> c = i - 1)"
proof (cases "1 \<le> i")
  case True
  with assms have "in_code fs (i - 1)" by (simp add: in_code_def)
  with True assms show ?thesis
    by (auto simp: getjumpcontrol_def get_code_in value_jump_def dest: TESTSET_test)
qed (use assms in \<open>simp add: getjumpcontrol_def value_jump_def\<close>)

lemma patchtestreg_in:
  assumes "in_code fs i" "is_op (instr fs i) OP_JMP"
  shows "patchtestreg fs i reg =
    Inr (value_jump fs i, if value_jump fs i then set_code fs (i - 1) (patch_reg reg (instr fs (i - 1))) else fs)"
  using control_TESTSET [OF assms]
  by (auto simp: patchtestreg_def get_code_in patch_reg_def)

lemma fixjump_in:
  assumes "in_code fs i" "reachable_jump i dest"
  shows "fixjump C fs i dest = Inr (set_code fs i (SETARG_sBx (instr fs i) (dest - (i + 1))))"
  using assms by (simp add: fixjump_def reachable_jump_def map_code_def get_code_in Let_def)

lemma sBx_in: "reachable_jump i dest \<Longrightarrow> GETARG_sBx (SETARG_sBx x (dest - (i + 1))) = dest - (i + 1)"
  by (rule sBx_set) (simp_all add: reachable_jump_def)

lemma is_op_SETARG [simp]:
  "is_op (SETARG_sBx x b) m = is_op x m" "is_op (SETARG_A x a) m = is_op x m" "is_op (SETARG_B x a) m = is_op x m"
  "is_op (SETARG_C x a) m = is_op x m"
  by (simp_all add: is_op_def op_simps)

lemma opcode_CREATE: "opc < 64 \<Longrightarrow> GET_OPCODE (CREATE_ABC opc a b c) = opc"
  unfolding field_defs layout_defs
  by (rule get_field_eqI) (auto simp: CREATE_ABC_def layout_defs bit_simps)

lemma is_op_CREATE: "is_op (CREATE_ABC (opnum m) a b c) m' \<longleftrightarrow> m' = m"
  using opnum_lt [of m] by (auto simp: is_op_def opcode_CREATE opnum_inject)

lemma patch_reg_op: "is_op x OP_TESTSET \<Longrightarrow> is_op (patch_reg reg x) OP_TESTSET \<or> is_op (patch_reg reg x) OP_TEST"
  by (simp add: patch_reg_def is_op_CREATE)

lemma patch_reg_no_jump: "is_op x OP_TESTSET \<Longrightarrow> \<not> is_op (patch_reg reg x) OP_JMP"
  using patch_reg_op [of x reg] is_op_unique by blast

section \<open>Patching a list\<close>

text \<open>One jump is patched.\<close>

definition patch_one :: "FuncState \<Rightarrow> int \<Rightarrow> int \<Rightarrow> int \<Rightarrow> int \<Rightarrow> FuncState" where
  "patch_one fs i vtarget reg dtarget =
     (let b = value_jump fs i;
          fs' = (if b then set_code fs (i - 1) (patch_reg reg (instr fs (i - 1))) else fs)
      in set_code fs' i (SETARG_sBx (instr fs' i) ((if b then vtarget else dtarget) - (i + 1))))"

definition target_of :: "FuncState \<Rightarrow> int \<Rightarrow> int \<Rightarrow> int \<Rightarrow> int" where
  "target_of fs vtarget dtarget i = (if value_jump fs i then vtarget else dtarget)"

lemma patch_one_simps [simp]:
  "fs_pc (patch_one fs i v r d) = fs_pc fs" "in_code (patch_one fs i v r d) j = in_code fs j"
  "length (fs_code (patch_one fs i v r d)) = length (fs_code fs)"
  by (simp_all add: patch_one_def Let_def)

lemma patch_one_code:
  assumes "in_code fs i" "is_op (instr fs i) OP_JMP" "0 \<le> j"
  shows "instr (patch_one fs i v r d) j =
    (if j = i then SETARG_sBx (instr fs i) (target_of fs v d i - (i + 1))
     else if j = i - 1 \<and> value_jump fs i then patch_reg r (instr fs j) else instr fs j)"
proof -
  have i: "0 \<le> i" "in_code fs i" using assms(1) by (simp_all add: in_code_def)
  show ?thesis
  proof (cases "value_jump fs i")
    case True
    let ?f = "set_code fs (i - 1) (patch_reg r (instr fs (i - 1)))"
    have i1: "in_code fs (i - 1)" "1 \<le> i" using True i by (simp_all add: in_code_def value_jump_def)
    have e: "patch_one fs i v r d = set_code ?f i (SETARG_sBx (instr fs i) (v - (i + 1)))"
      using True i1 i by (simp add: patch_one_def instr_set)
    show ?thesis
      using True i i1 assms(3) instr_set [of ?f i i] instr_set_other [of i j ?f] instr_set [of fs "i - 1" "i - 1"]
        instr_set_other [of "i - 1" j fs]
      by (cases "j = i"; cases "j = i - 1") (simp_all add: e target_of_def)
  next
    case False
    then show ?thesis using i assms(3) instr_set [of fs i i] instr_set_other [of i j fs]
      by (cases "j = i") (simp_all add: patch_one_def target_of_def Let_def)
  qed
qed

lemma patch_step:
  assumes "in_code fs i" "is_op (instr fs i) OP_JMP" "reachable_jump i (target_of fs v d i)"
  shows "bindr (patchtestreg fs i r) (\<lambda>(b, fs). fixjump C fs i (if b then v else d)) = Inr (patch_one fs i v r d)"
proof (cases "value_jump fs i")
  case True
  then have "in_code fs (i - 1)" using assms(1) by (simp add: in_code_def value_jump_def)
  with True assms show ?thesis
    by (simp add: patchtestreg_in fixjump_in target_of_def patch_one_def Let_def)
qed (use assms in \<open>simp add: patchtestreg_in fixjump_in target_of_def patch_one_def\<close>)

text \<open>The code after a list was patched.\<close>

definition patched :: "FuncState \<Rightarrow> int list \<Rightarrow> int \<Rightarrow> int \<Rightarrow> int \<Rightarrow> FuncState \<Rightarrow> bool" where
  "patched fs xs v r d fs' \<longleftrightarrow>
     length (fs_code fs') = length (fs_code fs) \<and>
     (\<forall>x \<in> set xs. is_op (instr fs' x) OP_JMP \<and> jump_dest fs' x = target_of fs v d x \<and>
        (value_jump fs x \<longrightarrow> instr fs' (x - 1) = patch_reg r (instr fs (x - 1)))) \<and>
     (\<forall>i. 0 \<le> i \<and> i \<notin> set xs \<and> \<not> (i + 1 \<in> set xs \<and> value_jump fs (i + 1)) \<longrightarrow> instr fs' i = instr fs i) \<and>
     fs' = fs\<lparr>fs_code := fs_code fs'\<rparr>"

lemma jlist_in: "jlist fs l xs \<Longrightarrow> x \<in> set xs \<Longrightarrow> in_code fs x \<and> is_op (instr fs x) OP_JMP"
  by (induction xs arbitrary: l) auto

lemma jlist_cong:
  "jlist fs l xs \<Longrightarrow> fs_pc fs' = fs_pc fs \<Longrightarrow> (\<And>x. x \<in> set xs \<Longrightarrow> instr fs' x = instr fs x) \<Longrightarrow> jlist fs' l xs"
  by (induction xs arbitrary: l) (auto simp: in_code_def jump_link_def jump_dest_def)

lemma patchlist_ok:
  assumes "jlist fs l xs" "distinct xs" "\<forall>x \<in> set xs. reachable_jump x (target_of fs v d x)" "length xs \<le> n"
  shows "\<exists>fs'. patchlistaux_loop n C fs l v r d = Inr fs' \<and> patched fs xs v r d fs'"
  using assms
proof (induction xs arbitrary: fs l n)
  case Nil
  then show ?case by (cases n) (simp_all add: patched_def)
next
  case (Cons x xs)
  then obtain m where n: "n = Suc m" "length xs \<le> m" by (cases n) auto
  from Cons.prems have x: "l = x" "in_code fs x" "is_op (instr fs x) OP_JMP" and xs: "jlist fs (jump_link fs x) xs" by simp_all
  have dx: "x \<notin> set xs" "distinct xs" using Cons.prems(2) by simp_all
  let ?f = "patch_one fs x v r d"
  note code = patch_one_code [OF x(2,3)]
  have same: "instr ?f y = instr fs y" if "y \<in> set xs" for y
  proof -
    from jlist_in [OF xs that] have y: "in_code fs y" "is_op (instr fs y) OP_JMP" by simp_all
    then have "y \<noteq> x - 1 \<or> \<not> value_jump fs x" by (auto simp: value_jump_def)
    with that dx y show ?thesis by (subst code) (auto simp: in_code_def)
  qed
  have j: "jlist ?f (jump_link fs x) xs" by (rule jlist_cong [OF xs]) (simp_all add: same)
  have vj: "value_jump ?f y \<longleftrightarrow> value_jump fs y" if "y \<in> set xs" for y
  proof (cases "1 \<le> y")
    case True
    have "y - 1 \<noteq> x - 1" using that dx by auto
    then have "instr ?f (y - 1) = (if y - 1 = x then SETARG_sBx (instr fs x) (target_of fs v d x - (x + 1)) else instr fs (y - 1))"
      using True by (subst code) auto
    with x(3) show ?thesis by (auto simp: value_jump_def)
  qed (simp add: value_jump_def)
  then have tg: "target_of ?f v d y = target_of fs v d y" if "y \<in> set xs" for y using that by (simp add: target_of_def)
  from Cons.IH [OF j dx(2) _ n(2)] Cons.prems(3) tg obtain fs' where
    r: "patchlistaux_loop m C ?f (jump_link fs x) v r d = Inr fs'" and p: "patched ?f xs v r d fs'" by auto
  have "patchlistaux_loop n C fs l v r d = Inr fs'"
  proof -
    have "x \<noteq> NO_JUMP" using x(2) by (auto simp: in_code_def NO_JUMP_def)
    moreover have "patchlistaux_loop (Suc m) C fs x v r d = bindr (bindr (patchtestreg fs x r) (\<lambda>(b, fs). fixjump C fs x (if b then v else d)))
        (\<lambda>fs'. patchlistaux_loop m C fs' (jump_link fs x) v r d)" if "x \<noteq> NO_JUMP"
      using that by (simp add: getjump_in [OF x(2)] bindr_assoc case_prod_unfold)
    ultimately show ?thesis using patch_step [OF x(2,3)] Cons.prems(3) r n(1) x(1) by simp
  qed
  moreover have "patched fs (x # xs) v r d fs'"
  proof -
    have pA: "is_op (instr fs' y) OP_JMP" "jump_dest fs' y = target_of fs v d y"
      "value_jump fs y \<Longrightarrow> instr fs' (y - 1) = patch_reg r (instr ?f (y - 1))" if "y \<in> set xs" for y
      using p that tg vj by (simp_all add: patched_def)
    have pB: "instr fs' i = instr ?f i" if "0 \<le> i" "i \<notin> set xs" "\<not> (i + 1 \<in> set xs \<and> value_jump fs (i + 1))" for i
      using p that vj by (auto simp: patched_def)
    have ct: "y - 1 \<noteq> z" "0 \<le> y - 1" if "value_jump fs y" "z = x \<or> z \<in> set xs" for y z
      using that x(3) jlist_in [OF xs] by (auto simp: value_jump_def)
    have "\<not> value_jump fs (x + 1)" using x(3) by (auto simp: value_jump_def)
    then have "instr fs' x = SETARG_sBx (instr fs x) (target_of fs v d x - (x + 1))"
      using pB [of x] dx x(2) code [of x] by (simp add: in_code_def)
    moreover have "reachable_jump x (target_of fs v d x)" using Cons.prems(3) by simp
    ultimately have px: "is_op (instr fs' x) OP_JMP" "jump_dest fs' x = target_of fs v d x"
      using x(3) by (simp_all add: jump_dest_def sBx_in)
    have pc: "instr fs' (y - 1) = patch_reg r (instr fs (y - 1))" if y: "y \<in> set (x # xs)" "value_jump fs y" for y
    proof (cases "y = x")
      case True
      have "x - 1 \<notin> set xs" "x - 1 \<noteq> x" "0 \<le> x - 1" using ct [OF y(2)] True by blast+
      with True y dx pB [of "x - 1"] code [of "x - 1"] show ?thesis by simp
    next
      case False
      with y have yx: "y \<in> set xs" by simp
      with ct [OF y(2), of x] have "0 \<le> y - 1" "y - 1 \<noteq> x" by blast+
      with pA(3) [OF yx y(2)] False code [of "y - 1"] show ?thesis by simp
    qed
    have rest: "instr fs' i = instr fs i" if "0 \<le> i" "i \<notin> set (x # xs)" "\<not> (i + 1 \<in> set (x # xs) \<and> value_jump fs (i + 1))" for i
    proof -
      have "\<not> (i = x - 1 \<and> value_jump fs x)" using that(3) by auto
      with that code [of i] have "instr ?f i = instr fs i" by auto
      with pB [of i] that show ?thesis by auto
    qed
    have "length (fs_code fs') = length (fs_code fs)" "fs' = fs\<lparr>fs_code := fs_code fs'\<rparr>"
      using p by (simp_all add: patched_def patch_one_def set_code_def Let_def split: if_splits)
    with pA px pc rest show ?thesis unfolding patched_def by auto
  qed
  ultimately show ?case by blast
qed

lemma jlist_length:
  assumes "jlist fs l xs" "distinct xs"
  shows "length xs \<le> length (fs_code fs)"
proof -
  have b: "0 \<le> x \<and> x < int (length (fs_code fs))" if "x \<in> set xs" for x
    using jlist_in [OF assms(1) that] by (simp add: in_code_def fs_pc_def)
  then have "nat ` set xs \<subseteq> {..<length (fs_code fs)}" by (auto simp: nat_less_iff)
  moreover have "inj_on nat (set xs)"
  proof (rule inj_onI)
    fix x y assume "x \<in> set xs" "y \<in> set xs" "nat x = nat y"
    with b [of x] b [of y] show "x = y" by (simp add: eq_nat_nat_iff)
  qed
  ultimately have "card (set xs) \<le> length (fs_code fs)"
    using card_mono [of "{..<length (fs_code fs)}" "nat ` set xs"] by (simp add: card_image)
  with assms(2) show ?thesis by (simp add: distinct_card)
qed

lemma patchlistaux_ok:
  assumes "jlist fs l xs" "distinct xs" "\<forall>x \<in> set xs. reachable_jump x (target_of fs v d x)"
  shows "\<exists>fs'. patchlistaux C fs l v r d = Inr fs' \<and> patched fs xs v r d fs'"
  using patchlist_ok [OF assms jlist_length [OF assms(1,2)]] by (simp add: patchlistaux_def)

section \<open>Concatenation\<close>

lemma jlist_no_jump: "jlist fs l xs \<Longrightarrow> l = NO_JUMP \<longleftrightarrow> xs = []"
  by (cases xs) (auto simp: in_code_def NO_JUMP_def)

lemma lastjump_ok: "jlist fs l xs \<Longrightarrow> xs \<noteq> [] \<Longrightarrow> length xs \<le> n \<Longrightarrow> lastjump n fs l = Inr (last xs)"
proof (induction xs arbitrary: l n)
  case (Cons x xs)
  then obtain m where n: "n = Suc m" "length xs \<le> m" by (cases n) auto
  with Cons jlist_no_jump [of fs "jump_link fs x" xs] show ?case by (auto simp: getjump_in)
qed simp

text \<open>Setting the link of the last jump of a list.\<close>

lemma jlist_append:
  assumes "jlist fs l xs" "xs \<noteq> []" "jlist fs l' ys" "distinct (xs @ ys)" "ys \<noteq> []" "reachable_jump (last xs) l'"
  shows "jlist (set_code fs (last xs) (SETARG_sBx (instr fs (last xs)) (l' - (last xs + 1)))) l (xs @ ys)"
  using assms(1,2,4,6)
proof (induction xs arbitrary: l)
  case (Cons x xs)
  let ?z = "last (x # xs)"
  let ?f = "set_code fs ?z (SETARG_sBx (instr fs ?z) (l' - (?z + 1)))"
  have z: "in_code fs ?z" "?z \<in> set (x # xs)" using jlist_in [OF Cons.prems(1)] by simp_all
  have other: "instr ?f y = instr fs y" if "in_code fs y" "y \<noteq> ?z" for y using instr_set [OF z(1) that(1)] that(2) by simp
  have x: "in_code fs x" "is_op (instr fs x) OP_JMP" using Cons.prems(1) by simp_all
  show ?case
  proof (cases "xs = []")
    case True
    have fx: "instr ?f x = SETARG_sBx (instr fs x) (l' - (x + 1))" using True x by (simp add: instr_set)
    have "l' \<noteq> x" using assms(3,5) Cons.prems(3) True by (cases ys) auto
    then have lk: "jump_link ?f x = l'"
      using sBx_in [of x l'] Cons.prems(4) True fx by (simp add: jump_link_def jump_dest_def NO_JUMP_def)
    have "jlist ?f l' ys"
    proof (rule jlist_cong [OF assms(3)])
      fix y assume y: "y \<in> set ys"
      then have "y \<noteq> ?z" using Cons.prems(3) True by auto
      with y jlist_in [OF assms(3) y] other show "instr ?f y = instr fs y" by blast
    qed simp
    with True x fx lk Cons.prems(1) show ?thesis by simp
  next
    case False
    then have "x \<noteq> ?z" using Cons.prems(3) by auto
    then have fx: "instr ?f x = instr fs x" using other x by blast
    have "jlist ?f (jump_link fs x) (xs @ ys)" using Cons.IH [of "jump_link fs x"] Cons.prems False by simp
    moreover have "jump_link ?f x = jump_link fs x" by (simp only: jump_link_def jump_dest_def fx)
    ultimately show ?thesis using fx x Cons.prems(1) by simp
  qed
qed simp

text \<open>What changing links leaves alone: the operations, and the controlled values.\<close>

definition relinked :: "FuncState \<Rightarrow> FuncState \<Rightarrow> bool" where
  "relinked fs fs' \<longleftrightarrow> length (fs_code fs') = length (fs_code fs) \<and> fs' = fs\<lparr>fs_code := fs_code fs'\<rparr> \<and>
     (\<forall>i. in_code fs i \<longrightarrow> instr fs' i = instr fs i \<or>
        is_op (instr fs i) OP_JMP \<and> (\<exists>b. instr fs' i = SETARG_sBx (instr fs i) b))"

lemma relinked_refl: "relinked fs fs" by (simp add: relinked_def)

lemma relinked_op:
  assumes "relinked fs fs'" "in_code fs i"
  shows "is_op (instr fs' i) m = is_op (instr fs i) m" "in_code fs' j = in_code fs j"
proof -
  show "is_op (instr fs' i) m = is_op (instr fs i) m" using assms unfolding relinked_def by (metis is_op_SETARG(1))
  show "in_code fs' j = in_code fs j" using assms by (simp add: relinked_def in_code_def fs_pc_def)
qed

lemma relinked_value: "relinked fs fs' \<Longrightarrow> in_code fs i \<Longrightarrow> value_jump fs' i = value_jump fs i"
  using relinked_op(1) [of fs fs' "i - 1"] by (auto simp: value_jump_def in_code_def)

lemma concat_ok:
  assumes "jlist fs l1 xs" "jlist fs l2 ys" "distinct (xs @ ys)" "xs \<noteq> [] \<Longrightarrow> ys \<noteq> [] \<Longrightarrow> reachable_jump (last xs) l2"
  shows "\<exists>l fs'. luaK_concat C fs l1 l2 = Inr (l, fs') \<and> jlist fs' l (xs @ ys) \<and> relinked fs fs' \<and>
    (\<forall>i. 0 \<le> i \<and> i \<notin> set xs \<longrightarrow> instr fs' i = instr fs i)"
proof -
  consider "ys = []" | "ys \<noteq> []" "xs = []" | "ys \<noteq> []" "xs \<noteq> []" by blast
  then show ?thesis
  proof cases
    case 3
    let ?z = "last xs"
    have z: "in_code fs ?z" "is_op (instr fs ?z) OP_JMP" using jlist_in [OF assms(1)] 3 by simp_all
    have d: "distinct xs" using assms(3) by simp
    let ?f = "set_code fs ?z (SETARG_sBx (instr fs ?z) (l2 - (?z + 1)))"
    have "luaK_concat C fs l1 l2 = Inr (l1, ?f)"
      using 3 jlist_no_jump [OF assms(1)] jlist_no_jump [OF assms(2)] lastjump_ok [OF assms(1) 3(2) jlist_length [OF assms(1) d]]
        fixjump_in [OF z(1) assms(4) [OF 3(2,1)], of C]
      by (simp add: luaK_concat_def)
    moreover have "relinked fs ?f"
      unfolding relinked_def using z by (auto simp: instr_set) (simp add: set_code_def)
    moreover have "instr ?f i = instr fs i" if "0 \<le> i" "i \<notin> set xs" for i
      using instr_set_other [of ?z i fs] that z 3 by (metis in_code_def last_in_set)
    ultimately show ?thesis using jlist_append [OF assms(1) 3(2) assms(2,3) 3(1) assms(4) [OF 3(2,1)]] by blast
  qed (use assms(1,2) relinked_refl jlist_no_jump [OF assms(1)] jlist_no_jump [OF assms(2)] in \<open>auto simp: luaK_concat_def\<close>)
qed

section \<open>Jumps to the next instruction\<close>

lemma growvector_ok: "n < limit \<Longrightarrow> \<exists>m. luaM_growvector n sz limit msg = Inr m"
  by (auto simp: luaM_growvector_def luaM_growaux_def Let_def)

lemma code_ok:
  assumes j: "jlist fs (fs_jpc fs) ys" "distinct ys" "\<forall>y \<in> set ys. reachable_jump y (fs_pc fs)"
    and n: "length (fs_code fs) < MAX_INT" "length (fs_lineinfo fs) < MAX_INT"
  shows "\<exists>fs1 fs'. luaK_code C fs i line = Inr (fs_pc fs, fs') \<and> patched fs ys (fs_pc fs) (int NO_REG) (fs_pc fs) fs1 \<and>
    fs_code fs' = fs_code fs1 @ [i] \<and> fs_jpc fs' = NO_JUMP \<and> fs_lasttarget fs' = fs_lasttarget fs"
proof -
  have "\<forall>y \<in> set ys. reachable_jump y (target_of fs (fs_pc fs) (fs_pc fs) y)" using j(3) by (simp add: target_of_def)
  from patchlistaux_ok [OF j(1,2) this, of C "int NO_REG"] obtain fs1 where
    p: "patchlistaux C fs (fs_jpc fs) (fs_pc fs) (int NO_REG) (fs_pc fs) = Inr fs1" "patched fs ys (fs_pc fs) (int NO_REG) (fs_pc fs) fs1" by blast
  obtain c where c: "fs1 = fs\<lparr>fs_code := c\<rparr>" "length c = length (fs_code fs)" using p(2) by (auto simp: patched_def)
  from growvector_ok [OF n(1), of "fs_sizecode fs" "''code size overflow''"] growvector_ok [OF n(2), of "fs_sizelineinfo fs" "''code size overflow''"]
  obtain m1 m2 where "luaM_growvector (length (fs_code fs)) (fs_sizecode fs) MAX_INT ''code size overflow'' = Inr m1"
    "luaM_growvector (length (fs_lineinfo fs)) (fs_sizelineinfo fs) MAX_INT ''code size overflow'' = Inr m2" by blast
  with p(1) c have e: "luaK_code C fs i line = Inr (fs_pc fs, fs\<lparr>fs_code := c @ [i], fs_lineinfo := fs_lineinfo fs @ [line],
      fs_sizecode := m1, fs_sizelineinfo := m2, fs_jpc := NO_JUMP\<rparr>)"
    by (simp add: luaK_code_def dischargejpc_def) (simp add: fs_pc_def)
  show ?thesis unfolding e using p(2) c by (intro exI [of _ fs1] exI conjI) (rule refl, simp_all)
qed

section \<open>The property\<close>

text \<open>C9: After \<open>luaK_patchtohere\<close> the next instruction generated is where every jump of the list goes, and every
  jump that was pending before; a TESTSET that controls one of them becomes a TEST. The rest of the code is as it was.\<close>

theorem jumps_meet_next_instruction:
  assumes "jlist fs l xs" "jlist fs (fs_jpc fs) ys" "distinct (ys @ xs)" "length (fs_code fs) \<le> MAXARG_sBx"
    "length (fs_lineinfo fs) = length (fs_code fs)"
  shows "\<exists>fs1 fs2. luaK_patchtohere C fs l = Inr fs1 \<and> luaK_code C fs1 i line = Inr (fs_pc fs, fs2) \<and>
    fs_pc fs2 = fs_pc fs + 1 \<and> instr fs2 (fs_pc fs) = i \<and> fs_jpc fs2 = NO_JUMP \<and>
    (\<forall>x \<in> set (ys @ xs). is_op (instr fs2 x) OP_JMP \<and> jump_dest fs2 x = fs_pc fs \<and>
       (value_jump fs x \<longrightarrow> instr fs2 (x - 1) = patch_reg (int NO_REG) (instr fs (x - 1)))) \<and>
    (\<forall>j. in_code fs j \<and> j \<notin> set (ys @ xs) \<and> \<not> (j + 1 \<in> set (ys @ xs) \<and> value_jump fs (j + 1)) \<longrightarrow> instr fs2 j = instr fs j)"
proof -
  let ?f = "fs\<lparr>fs_lasttarget := fs_pc fs\<rparr>"
  have ins: "instr ?f j = instr fs j" "in_code ?f j = in_code fs j" for j by (simp_all add: instr_def in_code_def fs_pc_def)
  have jf: "jlist ?f l' zs = jlist fs l' zs" for l' zs
    by (induction zs arbitrary: l') (simp_all add: ins jump_link_def jump_dest_def)
  have lin: "in_code fs l" if "xs \<noteq> []" using assms(1) that by (cases xs) auto
  have lk: "reachable_jump (last ys) l" if "ys \<noteq> []" "xs \<noteq> []"
    using jlist_in [OF assms(2), of "last ys"] that lin [OF that(2)] assms(4)
    by (auto simp: reachable_jump_def in_code_def fs_pc_def)
  have d: "distinct (ys @ xs)" using assms(3) .
  from concat_ok [of ?f "fs_jpc fs" ys l xs C] assms(1,2) d lk obtain l' f1 where
    c: "luaK_concat C ?f (fs_jpc fs) l = Inr (l', f1)" "jlist f1 l' (ys @ xs)" "relinked ?f f1"
      "\<And>i. 0 \<le> i \<Longrightarrow> i \<notin> set ys \<Longrightarrow> instr f1 i = instr fs i" unfolding jf ins by auto
  let ?g = "f1\<lparr>fs_jpc := l'\<rparr>"
  have pt: "luaK_patchtohere C fs l = Inr ?g" using c(1) by (simp add: luaK_patchtohere_def luaK_getlabel_def)
  have ig: "instr ?g j = instr f1 j" "in_code ?g j = in_code f1 j" for j by (simp_all add: instr_def in_code_def fs_pc_def)
  have jg: "jlist ?g l0 zs = jlist f1 l0 zs" for l0 zs
    by (induction zs arbitrary: l0) (simp_all add: ig jump_link_def jump_dest_def)
  obtain co where co: "f1 = ?f\<lparr>fs_code := co\<rparr>" "length co = length (fs_code fs)" using c(3) by (auto simp: relinked_def)
  have len: "length (fs_code ?g) = length (fs_code fs)" "length (fs_lineinfo ?g) = length (fs_code fs)"
    using co assms(5) by simp_all
  then have pc: "fs_pc ?g = fs_pc fs" by (simp add: fs_pc_def)
  have inc: "in_code ?g j = in_code fs j" for j by (simp add: in_code_def pc)
  have small: "MAXARG_sBx < MAX_INT" by (simp add: maxarg_defs layout_defs MAX_INT_def)
  have "\<forall>x \<in> set (ys @ xs). reachable_jump x (fs_pc ?g)"
  proof
    fix x assume "x \<in> set (ys @ xs)"
    with jlist_in [OF c(2)] have "in_code fs x" using inc ig by auto
    then show "reachable_jump x (fs_pc ?g)" using assms(4) unfolding pc by (auto simp: reachable_jump_def in_code_def fs_pc_def)
  qed
  from code_ok [OF _ d this, of C i line] c(2) len assms(4) small obtain f2 fs2 where
    k: "luaK_code C ?g i line = Inr (fs_pc fs, fs2)" "patched ?g (ys @ xs) (fs_pc fs) (int NO_REG) (fs_pc fs) f2"
      "fs_code fs2 = fs_code f2 @ [i]" "fs_jpc fs2 = NO_JUMP" unfolding jg pc by auto
  have len2: "length (fs_code f2) = length (fs_code fs)" using k(2) len by (simp add: patched_def)
  have i2: "instr fs2 j = (if j = fs_pc fs then i else instr f2 j)" if "0 \<le> j" "j \<le> fs_pc fs" for j
    using that len2 by (auto simp: instr_def k(3) fs_pc_def nth_append)
  have vj: "value_jump ?g x = value_jump fs x" if "x \<in> set (ys @ xs)" for x
  proof -
    have "in_code fs x" using jlist_in [OF c(2) that] inc ig by simp
    with relinked_value [OF c(3), of x] show ?thesis by (simp add: value_jump_def ig ins)
  qed
  have same: "instr f1 j = instr fs j" if "in_code fs j" "\<not> is_op (instr fs j) OP_JMP" for j
    using c(3) that by (auto simp: relinked_def ins)
  have "is_op (instr fs2 x) OP_JMP \<and> jump_dest fs2 x = fs_pc fs \<and>
      (value_jump fs x \<longrightarrow> instr fs2 (x - 1) = patch_reg (int NO_REG) (instr fs (x - 1)))" if x: "x \<in> set (ys @ xs)" for x
  proof -
    have ix: "in_code fs x" using jlist_in [OF c(2) x] inc ig by simp
    then have n: "instr fs2 x = instr f2 x" using i2 [of x] by (simp add: in_code_def)
    have p: "is_op (instr f2 x) OP_JMP" "jump_dest f2 x = fs_pc fs"
      "value_jump fs x \<Longrightarrow> instr f2 (x - 1) = patch_reg (int NO_REG) (instr f1 (x - 1))"
      using k(2) x vj [OF x] by (simp_all add: patched_def target_of_def ig)
    have "instr fs2 (x - 1) = patch_reg (int NO_REG) (instr fs (x - 1))" if v: "value_jump fs x"
    proof -
      have "in_code fs (x - 1)" "\<not> is_op (instr fs (x - 1)) OP_JMP" using v ix by (auto simp: value_jump_def in_code_def)
      with same [of "x - 1"] p(3) [OF v] i2 [of "x - 1"] show ?thesis by (simp add: in_code_def)
    qed
    with p n show ?thesis by (simp add: jump_dest_def)
  qed
  moreover have "instr fs2 j = instr fs j"
    if j: "in_code fs j" "j \<notin> set (ys @ xs)" "\<not> (j + 1 \<in> set (ys @ xs) \<and> value_jump fs (j + 1))" for j
  proof -
    have "0 \<le> j" using j(1) by (simp add: in_code_def)
    have "instr f2 j = instr ?g j" using k(2) j vj [of "j + 1"] \<open>0 \<le> j\<close> by (auto simp: patched_def)
    with c(4) [of j] j i2 [of j] show ?thesis by (simp add: in_code_def ig)
  qed
  moreover have "fs_pc fs2 = fs_pc fs + 1" using k(3) len2 by (simp add: fs_pc_def)
  moreover have "instr fs2 (fs_pc fs) = i" using i2 [of "fs_pc fs"] by (simp add: fs_pc_def)
  ultimately show ?thesis using pt k(1,4) by blast
qed

lemma jumps_meet_next_instruction_witness:
  "\<exists>fs1 fs2. luaK_patchtohere ex_cenv ex_fs 1 = Inr fs1 \<and> luaK_code ex_cenv fs1 7 1 = Inr (3, fs2) \<and>
    jump_dest fs2 1 = 3 \<and> jump_dest fs2 2 = 3 \<and> is_op (instr fs2 0) OP_TEST"
proof -
  have c: "instr ex_fs 0 = CREATE_ABC (opnum OP_TESTSET) 255 1 0" "instr ex_fs 1 = pending_jump"
    "instr ex_fs 2 = pending_jump" "fs_pc ex_fs = 3" "fs_jpc ex_fs = 2"
    by (simp_all add: instr_def ex_fs_def fs_pc_def)
  have v: "value_jump ex_fs 1" by (simp add: value_jump_def c is_op_CREATE)
  have l: "jlist ex_fs 1 [1]" "jlist ex_fs (fs_jpc ex_fs) [2]"
    by (simp_all add: c pending_jump jump_link_def in_code_def)
  have n: "length (fs_code ex_fs) \<le> MAXARG_sBx" "length (fs_lineinfo ex_fs) = length (fs_code ex_fs)"
    by (simp_all add: ex_fs_def maxarg_defs layout_defs)
  from jumps_meet_next_instruction [OF l _ n, of ex_cenv 7 1] show ?thesis
    using v by (auto simp: c patch_reg_def is_op_CREATE)
qed

end
