(* ===== verification/LuaCodeProps.thy ===== *)
theory LuaCodeProps
  imports LuaCodeJumps LuaMeta
begin

text \<open>
  Constants, folded arithmetic and registers of the code generator.
\<close>

section \<open>Constants\<close>

text \<open>The constant \<open>v\<close> that stands for the value \<open>k\<close>.\<close>

fun konst_is :: "cenv \<Rightarrow> ptr \<Rightarrow> TValue \<Rightarrow> Konst \<Rightarrow> bool" where
  "konst_is C hp (TTab p) v \<longleftrightarrow> p = hp \<and> v = KNil"
| "konst_is C hp (TBool b) v \<longleftrightarrow> v = KBool b"
| "konst_is C hp (TNumber r) v \<longleftrightarrow> (\<exists>r'. v = KNumber r' \<and> num_eq r r')"
| "konst_is C hp (TStr p) v \<longleftrightarrow> (\<exists>s. v = KString (Some s) \<and> c_str C s = p)"
| "konst_is C hp _ v \<longleftrightarrow> False"

text \<open>Every entry of the table \<open>h\<close> is the index of the constant of its key.\<close>

definition kt_ok :: "cenv \<Rightarrow> FuncState \<Rightarrow> bool" where
  "kt_ok C fs \<longleftrightarrow> tab_ok (c_hash C) (fs_h fs) \<and> length (fs_k fs) \<le> fs_sizek fs \<and> fs_sizek fs \<le> MAXARG_Bx \<and>
     (\<forall>k. live_key k \<longrightarrow> tab_get (fs_h fs) k = TNil \<or>
        (\<exists>i < length (fs_k fs). tab_get (fs_h fs) k = TNumber (cast_num (int i)) \<and> konst_is C (fs_hp fs) k (fs_k fs ! i)))"

lemma konst_is_rawequal: "konst_is C hp k v \<Longrightarrow> luaO_rawequalObj k k' \<Longrightarrow> konst_is C hp k' v"
  by (cases k; cases k') (auto simp: rawequal_iff intro: num_eq_trans num_eq_sym)

lemma konst_is_live: "konst_is C hp k v \<Longrightarrow> live_key k"
  by (cases k) (simp_all add: live_key_def)

lemma small_index: "i \<le> MAXARG_Bx \<Longrightarrow> lua_number2int (cast_num (int i)) = int i"
  by (rule number2int_cast) (simp_all add: maxarg_defs layout_defs)

lemma addk_ok:
  assumes ok: "kt_ok C fs" and k: "konst_is C (fs_hp fs) k v" "\<not> is_nan_value k"
  shows "addk C fs k v \<in> {Inl (ErrRun ''table overflow''), Inl (ErrRun ''constant table overflow'')} \<or>
    (\<exists>i fs'. addk C fs k v = Inr (int i, fs') \<and> kt_ok C fs' \<and> i < length (fs_k fs') \<and> konst_is C (fs_hp fs) k (fs_k fs' ! i) \<and>
      tab_get (fs_h fs') k = TNumber (cast_num (int i)) \<and>
      fs_k fs' = (if tab_get (fs_h fs) k = TNil then fs_k fs @ [v] else fs_k fs) \<and>
      (\<exists>t n. fs' = fs\<lparr>fs_h := t, fs_k := fs_k fs', fs_sizek := n\<rparr>))"
proof -
  have t: "tab_ok (c_hash C) (fs_h fs)" "length (fs_k fs) \<le> fs_sizek fs" "fs_sizek fs \<le> MAXARG_Bx"
    and ent: "\<And>k. live_key k \<Longrightarrow> tab_get (fs_h fs) k = TNil \<or>
        (\<exists>i < length (fs_k fs). tab_get (fs_h fs) k = TNumber (cast_num (int i)) \<and> konst_is C (fs_hp fs) k (fs_k fs ! i))"
    using ok by (auto simp: kt_ok_def)
  have lk: "live_key k" using k(1) by (rule konst_is_live)
  from luaH_set_spec [OF t(1) lk k(2)] show ?thesis
  proof
    assume "overflows (fs_h fs) (luaH_set (c_hash C) (fs_h fs) k)"
    then show ?thesis by (simp add: overflows_def addk_def)
  next
    assume f: "found (c_hash C) (fs_h fs) k (luaH_set (c_hash C) (fs_h fs) k)"
    then obtain t1 where t1: "luaH_set (c_hash C) (fs_h fs) k = Inr (t1, tab_slot t1 k)" "tab_inv (c_hash C) t1" "sizearray t1 \<le> MAXASIZE"
      "\<And>k'. live_key k' \<Longrightarrow> tab_get t1 k' = tab_get (fs_h fs) k'" unfolding found_def by blast
    have sv: "slot_val t1 (tab_slot t1 k) = tab_get (fs_h fs) k" using t1(4) [OF lk] by (simp add: tab_get_def)
    show ?thesis
    proof (cases "tab_get (fs_h fs) k = TNil")
      case False
      with ent [OF lk] obtain i where i: "i < length (fs_k fs)" "tab_get (fs_h fs) k = TNumber (cast_num (int i))"
        "konst_is C (fs_hp fs) k (fs_k fs ! i)" by blast
      let ?f = "fs\<lparr>fs_h := t1\<rparr>"
      have "addk C fs k v = Inr (int i, ?f)" using t1(1) sv i t(2,3) by (simp add: addk_def small_index)
      moreover have "kt_ok C ?f" using t1 t(2,3) ent by (simp add: kt_ok_def tab_ok_def)
      moreover have "\<exists>t n. ?f = fs\<lparr>fs_h := t, fs_k := fs_k ?f, fs_sizek := n\<rparr>" by (intro exI [of _ t1] exI [of _ "fs_sizek fs"]) simp
      ultimately show ?thesis using i False t1(4) [OF lk] by (intro disjI2 exI [of _ i] exI [of _ ?f] conjI) simp_all
    next
      case True
      let ?nk = "length (fs_k fs)"
      show ?thesis
      proof (cases "luaM_growvector ?nk (fs_sizek fs) MAXARG_Bx ''constant table overflow''")
        case (Inl e)
        then have "e = ErrRun ''constant table overflow''" by (auto simp: luaM_growvector_def luaM_growaux_def Let_def split: if_splits)
        with Inl t1(1) sv True show ?thesis by (simp add: addk_def Let_def)
      next
        case (Inr n)
        from store_found [OF f lk, of "TNumber (cast_num (int ?nk))"] t1(1) obtain t2 where
          t2: "t2 = slot_write t1 (tab_slot t1 k) (TNumber (cast_num (int ?nk)))" "tab_ok (c_hash C) t2"
            "\<And>k'. live_key k' \<Longrightarrow> tab_get t2 k' = (if luaO_rawequalObj k k' then TNumber (cast_num (int ?nk)) else tab_get (fs_h fs) k')"
          by (auto simp: store_def)
        let ?f = "fs\<lparr>fs_h := t2, fs_k := fs_k fs @ [v], fs_sizek := n\<rparr>"
        have r: "addk C fs k v = Inr (int ?nk, ?f)" using t1(1) sv True Inr t2(1) by (simp add: addk_def Let_def)
        have nk: "?nk + 1 \<le> n \<and> n \<le> MAXARG_Bx"
          using Inr t(2,3) by (auto simp: luaM_growvector_def luaM_growaux_def Let_def maxarg_defs layout_defs MINSIZEARRAY_def split: if_splits)
        have "tab_get t2 k' = TNil \<or> (\<exists>i < length (fs_k ?f). tab_get t2 k' = TNumber (cast_num (int i)) \<and> konst_is C (fs_hp ?f) k' (fs_k ?f ! i))"
          if "live_key k'" for k'
        proof (cases "luaO_rawequalObj k k'")
          case True
          with t2(3) [OF that] konst_is_rawequal [OF k(1) True] show ?thesis by (intro disjI2 exI [of _ ?nk]) simp
        next
          case False
          with ent [OF that] t2(3) [OF that] show ?thesis by (auto simp: nth_append)
        qed
        with t2(2) nk have "kt_ok C ?f" by (simp add: kt_ok_def)
        moreover have "tab_get t2 k = TNumber (cast_num (int ?nk))" using t2(3) [OF lk] k(2) by (simp add: rawequal_refl_iff)
        ultimately show ?thesis using r True k(1) by (intro disjI2 exI [of _ ?nk] exI [of _ ?f] conjI) auto
      qed
    qed
  qed
qed

text \<open>A key in the table is found again, and nothing is added.\<close>

lemma addk_again:
  assumes "tab_ok (c_hash C) (fs_h fs)" "live_key k" "tab_get (fs_h fs) k = TNumber (cast_num (int i))" "i \<le> MAXARG_Bx"
  shows "\<exists>fs'. addk C fs k v = Inr (int i, fs') \<and> fs_k fs' = fs_k fs"
proof -
  let ?t = "(fs_h fs)\<lparr>t_flags := 0\<rparr>"
  have ok: "tab_ok (c_hash C) ?t" using assms(1) by (simp add: tab_ok_def sizearray_def)
  have sl: "tab_slot ?t k = tab_slot (fs_h fs) k" by (simp add: tab_slot_def in_array_def sizearray_def)
  have "tab_slot (fs_h fs) k \<noteq> SNil" using assms(3) by (auto simp: tab_get_def luaO_nilobject_def)
  with ok sl assms(1,2) have "luaH_set (c_hash C) (fs_h fs) k = Inr (?t, tab_slot (fs_h fs) k)"
    by (simp add: luaH_set_def luaH_set_with_def luaH_get_spec tab_ok_def Let_def)
  moreover have "slot_val ?t (tab_slot (fs_h fs) k) = tab_get (fs_h fs) k"
    by (cases "tab_slot (fs_h fs) k") (simp_all add: tab_get_def)
  ultimately show ?thesis using assms(3,4) by (simp add: addk_def small_index)
qed

lemma kt_index: "kt_ok C fs \<Longrightarrow> i < length (fs_k fs) \<Longrightarrow> i \<le> MAXARG_Bx"
  by (simp add: kt_ok_def)

text \<open>C10: The constants of a function: what \<open>addk\<close> returns is the index of the constant asked for, the constants there
  were stay, and asking again gives the same index and adds nothing.\<close>

theorem constants_match:
  assumes "kt_ok C fs" "konst_is C (fs_hp fs) k v" "\<not> is_nan_value k" "addk C fs k v = Inr (i, fs')"
  shows "kt_ok C fs' \<and> 0 \<le> i \<and> i < int (length (fs_k fs')) \<and> konst_is C (fs_hp fs) k (fs_k fs' ! nat i) \<and>
    take (length (fs_k fs)) (fs_k fs') = fs_k fs \<and> (\<exists>fs''. addk C fs' k v = Inr (i, fs'') \<and> fs_k fs'' = fs_k fs')"
proof -
  from addk_ok [OF assms(1-3)] assms(4) obtain n where n: "i = int n" "kt_ok C fs'" "n < length (fs_k fs')" "konst_is C (fs_hp fs) k (fs_k fs' ! n)"
    "tab_get (fs_h fs') k = TNumber (cast_num (int n))" "fs_k fs' = (if tab_get (fs_h fs) k = TNil then fs_k fs @ [v] else fs_k fs)"
    by auto
  have "take (length (fs_k fs)) (fs_k fs') = fs_k fs" using n(6) by simp
  moreover have "\<exists>fs''. addk C fs' k v = Inr (int n, fs'') \<and> fs_k fs'' = fs_k fs'"
    by (rule addk_again [OF _ konst_is_live [OF assms(2)] n(5) kt_index [OF n(2,3)]]) (use n(2) in \<open>simp add: kt_ok_def\<close>)
  ultimately show ?thesis using n(1-4) by simp
qed

lemma ex_fs_kt: "kt_ok ex_cenv ex_fs"
proof -
  have "tab_get empty_table k = TNil" if "live_key k" for k
    by (rule fresh_empty [OF empty_table_fresh _ that, of 0]) (simp add: empty_table_def)
  then show ?thesis by (simp add: kt_ok_def ex_fs_def ex_cenv_def empty_table_ok maxarg_defs layout_defs)
qed

lemma constants_match_witness:
  "\<exists>i fs'. addk ex_cenv ex_fs (TBool True) (KBool True) = Inr (i, fs') \<and> kt_ok ex_cenv fs' \<and> fs_k fs' ! nat i = KBool True \<and>
    (\<exists>fs''. addk ex_cenv fs' (TBool True) (KBool True) = Inr (i, fs'') \<and> fs_k fs'' = fs_k fs')"
proof -
  have k: "konst_is ex_cenv (fs_hp ex_fs) (TBool True) (KBool True)" "\<not> is_nan_value (TBool True)"
    by (simp_all add: is_nan_value_def)
  have "\<exists>i fs'. addk ex_cenv ex_fs (TBool True) (KBool True) = Inr (i, fs')"
  proof -
    have t: "tab_ok (c_hash ex_cenv) (fs_h ex_fs)" using ex_fs_kt by (simp add: kt_ok_def)
    have "\<not> overflows (fs_h ex_fs) (luaH_set (c_hash ex_cenv) (fs_h ex_fs) (TBool True))"
      by (simp add: overflows_def entries_def ex_fs_def empty_table_def nilnode_def MAXBITS_def)
    with luaH_set_spec [OF t, of "TBool True"] k(2) have "found (c_hash ex_cenv) (fs_h ex_fs) (TBool True)
        (luaH_set (c_hash ex_cenv) (fs_h ex_fs) (TBool True))"
      by (auto simp: live_key_def)
    then obtain t1 sl where "luaH_set (c_hash ex_cenv) (fs_h ex_fs) (TBool True) = Inr (t1, sl)" unfolding found_def by blast
    moreover have "luaM_growvector 0 0 MAXARG_Bx msg = Inr 4" for msg
      by (simp add: luaM_growvector_def luaM_growaux_def MINSIZEARRAY_def maxarg_defs layout_defs)
    ultimately show ?thesis by (auto simp: addk_def ex_fs_def Let_def split: TValue.split)
  qed
  then obtain i fs' where a: "addk ex_cenv ex_fs (TBool True) (KBool True) = Inr (i, fs')" by blast
  from constants_match [OF ex_fs_kt k a] a show ?thesis by auto
qed

lemma zero_facts:
  "num_eq 0 0" "num_eq 0 (num_unm 0)" "\<not> is_nan_value (TNumber 0)" "num_div (cast_num 1) (num_unm 0) \<noteq> num_div (cast_num 1) 0"
proof -
  have u: "num_unm 0 = 0x8000000000000000" by (simp add: num_unm_def num_sign_def num_mag_def num_pack_def)
  have one: "num_sign (cast_num 1) = False" "num_mag (cast_num 1) \<noteq> 0" "\<not> num_isnan (cast_num 1)" "\<not> num_isinf (cast_num 1)"
    using cast_num_parts [of 1] by (simp_all add: int_mag_def num_isnan_def)
  have zs: "num_sign 0 = False" "num_mag 0 = 0" "num_sign 0x8000000000000000 = True" "num_mag 0x8000000000000000 = 0"
    by (simp_all add: num_sign_def num_mag_def)
  show "num_eq 0 0" "num_eq 0 (num_unm 0)" "\<not> is_nan_value (TNumber 0)"
    by (simp_all add: num_eq_def num_isnan_def num_fix_def zs u mag_inf_def mag_val_def is_nan_value_def luai_numisnan_def)
  have "num_div (cast_num 1) (num_unm 0) = num_inf True" "num_div (cast_num 1) 0 = num_inf False"
    using one zs by (simp_all add: num_div_def u num_isnan_def num_isinf_def mag_inf_def)
  then show "num_div (cast_num 1) (num_unm 0) \<noteq> num_div (cast_num 1) 0"
    by (simp add: num_inf_def num_pack_def mag_inf_def)
qed

text \<open>The constants 0 and -0 share one index, whichever comes first, although programs can tell them apart: the
  reciprocals differ.\<close>

theorem zero_constants_shared:
  assumes "kt_ok C fs" "luaK_numberK C fs 0 = Inr (i, fs1)" "tab_get (fs_h fs) (TNumber 0) = TNil"
  shows "\<exists>fs2. luaK_numberK C fs1 (num_unm 0) = Inr (i, fs2) \<and> fs_k fs2 = fs_k fs @ [KNumber 0] \<and>
    num_div (cast_num 1) (num_unm 0) \<noteq> num_div (cast_num 1) 0"
proof -
  note z = zero_facts
  from addk_ok [OF assms(1), of "TNumber 0" "KNumber 0"] z assms(2) obtain n where n: "i = int n" "kt_ok C fs1" "n < length (fs_k fs1)"
    "tab_get (fs_h fs1) (TNumber 0) = TNumber (cast_num (int n))" "fs_k fs1 = fs_k fs @ [KNumber 0]"
    using assms(3) by (auto simp: luaK_numberK_def)
  have "tab_get (fs_h fs1) (TNumber (num_unm 0)) = tab_get (fs_h fs1) (TNumber 0)"
    by (rule tab_get_rawequal [symmetric]) (simp add: z)
  with n have "\<exists>fs2. luaK_numberK C fs1 (num_unm 0) = Inr (int n, fs2) \<and> fs_k fs2 = fs_k fs1"
    unfolding luaK_numberK_def by (intro addk_again) (auto simp: kt_ok_def live_key_def)
  with n z show ?thesis by auto
qed

section \<open>Folded arithmetic\<close>

text \<open>The tag method of an arithmetic instruction (\<open>luaV_execute\<close>).\<close>

definition arith_event :: "OpCode \<Rightarrow> TMS option" where
  "arith_event opc =
     (case opc of OP_ADD \<Rightarrow> Some TM_ADD | OP_SUB \<Rightarrow> Some TM_SUB | OP_MUL \<Rightarrow> Some TM_MUL | OP_DIV \<Rightarrow> Some TM_DIV
      | OP_MOD \<Rightarrow> Some TM_MOD | OP_POW \<Rightarrow> Some TM_POW | OP_UNM \<Rightarrow> Some TM_UNM | _ \<Rightarrow> None)"

text \<open>C39: An operation folded by the compiler gives the number the machine would compute, never a NaN; and
  whatever the compiler does not fold of two numerals is a division or remainder by zero or gives a NaN.\<close>

theorem constfolding_agrees:
  assumes "arith_event opc = Some tm" "c_pow C = ve_pow E" "isnumeral e1" "isnumeral e2"
  shows "case constfolding C opc e1 e2 of
      Some e \<Rightarrow> isnumeral e \<and> \<not> luai_numisnan (enval e) \<and> Arith E s (TNumber (enval e1)) (TNumber (enval e2)) tm = Inr (TNumber (enval e), s)
    | None \<Rightarrow> (opc = OP_DIV \<or> opc = OP_MOD) \<and> num_eq (enval e2) 0 \<or>
        luai_numisnan (arith_num E tm (enval e1) (enval e2))"
  using assms
  by (cases opc) (auto simp: arith_event_def constfolding_def fold_value_def Arith_def luaV_tonumber_def isnumeral_def Let_def)

lemma constfolding_agrees_witness:
  "case constfolding ex_cenv OP_DIV numeral_zero numeral_zero of
      Some e \<Rightarrow> isnumeral e \<and> \<not> luai_numisnan (enval e) \<and>
        Arith ex_venv ex_vm (TNumber (enval numeral_zero)) (TNumber (enval numeral_zero)) TM_DIV = Inr (TNumber (enval e), ex_vm)
    | None \<Rightarrow> (OP_DIV = OP_DIV \<or> OP_DIV = OP_MOD) \<and> num_eq (enval numeral_zero) 0 \<or>
        luai_numisnan (arith_num ex_venv TM_DIV (enval numeral_zero) (enval numeral_zero))"
  by (rule constfolding_agrees) (simp_all add: arith_event_def ex_cenv_def ex_venv_def isnumeral_def numeral_zero_def)

section \<open>Registers\<close>

text \<open>The registers in use fit the frame the function asks for, which is within the limit.\<close>

definition regs_ok :: "FuncState \<Rightarrow> bool" where
  "regs_ok fs \<longleftrightarrow> fs_freereg fs \<le> fs_maxstacksize fs \<and> fs_maxstacksize fs < int MAXSTACK"

text \<open>Whatever the computation returns has the property; an error has none to check.\<close>

definition post :: "('a \<Rightarrow> bool) \<Rightarrow> 'a res \<Rightarrow> bool" where
  "post P r \<longleftrightarrow> (\<forall>x. r = Inr x \<longrightarrow> P x)"

lemma post_simps [simp]: "post P (Inr x) = P x" "post P (Inl e)" "post P (syntaxerror C msg)"
  by (simp_all add: post_def syntaxerror_def luaX_syntaxerror_def)


lemma post_bindI: "post Q r \<Longrightarrow> (\<And>x. r = Inr x \<Longrightarrow> Q x \<Longrightarrow> post P (f x)) \<Longrightarrow> post P (bindr r f)"
  by (auto simp: post_def bindr_Inr_iff)

lemma post_conseq: "post Q r \<Longrightarrow> (\<And>x. Q x \<Longrightarrow> P x) \<Longrightarrow> post P r"
  by (auto simp: post_def)

text \<open>Reads, which change nothing.\<close>

lemma post_reads:
  "(\<And>x. get_code fs i = Inr x \<Longrightarrow> post P (f x)) \<Longrightarrow> post P (bindr (get_code fs i) f)"
  "(\<And>x. getjump fs j = Inr x \<Longrightarrow> post P (g x)) \<Longrightarrow> post P (bindr (getjump fs j) g)"
  "(\<And>x. getjumpcontrol fs j = Inr x \<Longrightarrow> post P (g x)) \<Longrightarrow> post P (bindr (getjumpcontrol fs j) g)"
  "(\<And>x. lastjump n fs j = Inr x \<Longrightarrow> post P (g x)) \<Longrightarrow> post P (bindr (lastjump n fs j) g)"
  "(\<And>b. need_value fs j = Inr b \<Longrightarrow> post P (h b)) \<Longrightarrow> post P (bindr (need_value fs j) h)"
  "(\<And>m. luaM_growvector a b c d = Inr m \<Longrightarrow> post P (k m)) \<Longrightarrow> post P (bindr (luaM_growvector a b c d) k)"
  "(\<And>t. luaH_set sh t0 key = Inr t \<Longrightarrow> post P (q t)) \<Longrightarrow> post P (bindr (luaH_set sh t0 key) q)"
  by (auto simp: post_def bindr_Inr_iff)

abbreviation regs :: "FuncState res \<Rightarrow> bool" where "regs \<equiv> post regs_ok"
abbreviation regs2 :: "('a \<times> FuncState) res \<Rightarrow> bool" where "regs2 \<equiv> post (\<lambda>(_, fs). regs_ok fs)"

named_theorems regs_intro "operations keep the registers within the frame"

lemma regs_update [simp]:
  "regs_ok (set_code fs i x) = regs_ok fs" "regs_ok (fs\<lparr>fs_jpc := l\<rparr>) = regs_ok fs" "regs_ok (fs\<lparr>fs_lasttarget := l\<rparr>) = regs_ok fs"
  "regs_ok (fs\<lparr>fs_code := c, fs_lineinfo := m, fs_sizecode := a, fs_sizelineinfo := b\<rparr>) = regs_ok fs"
  "regs_ok (fs\<lparr>fs_h := t\<rparr>) = regs_ok fs" "regs_ok (fs\<lparr>fs_h := t, fs_k := k, fs_sizek := n\<rparr>) = regs_ok fs"
  "regs_ok (fs\<lparr>fs_code := c, fs_lineinfo := m\<rparr>) = regs_ok fs"
  by (simp_all add: regs_ok_def set_code_def)

lemma regs_map_code [regs_intro]: "regs_ok fs \<Longrightarrow> regs (map_code fs i h)"
  by (auto simp: map_code_def intro!: post_reads)

lemma regs_fixjump [regs_intro]: "regs_ok fs \<Longrightarrow> regs (fixjump C fs i d)"
  by (simp add: fixjump_def Let_def regs_map_code)

lemma regs_patchtestreg [regs_intro]: "regs_ok fs \<Longrightarrow> regs2 (patchtestreg fs i r)"
  unfolding patchtestreg_def by (auto intro!: post_reads)

lemma regs_patch_loop: "regs_ok fs \<Longrightarrow> regs (patchlistaux_loop n C fs l v r d)"
proof (induction n C fs l v r d rule: patchlistaux_loop.induct)
  case (2 n C fs l v r d)
  then show ?case
    by (auto intro!: post_reads post_bindI [OF regs_patchtestreg] post_bindI [OF regs_fixjump])
qed simp

lemma regs_patchlistaux [regs_intro]: "regs_ok fs \<Longrightarrow> regs (patchlistaux C fs l v r d)"
  by (simp add: patchlistaux_def regs_patch_loop)





lemma regs_discharge [regs_intro]: "regs_ok fs \<Longrightarrow> regs (dischargejpc C fs)"
  unfolding dischargejpc_def by (auto intro!: post_bindI [OF regs_patchlistaux])

lemma regs_code [regs_intro]: "regs_ok fs \<Longrightarrow> regs2 (luaK_code C fs i line)"
  unfolding luaK_code_def by (auto intro!: post_reads post_bindI [OF regs_discharge])

lemma regs_codes [regs_intro]:
  "regs_ok fs \<Longrightarrow> regs2 (luaK_codeABC C fs m a b c)" "regs_ok fs \<Longrightarrow> regs2 (luaK_codeABx C fs m a bx)"
  "regs_ok fs \<Longrightarrow> regs2 (luaK_codeAsBx C fs m a sbx)" "regs_ok fs \<Longrightarrow> regs (codeABC C fs m a b c)"
  "regs_ok fs \<Longrightarrow> regs (codeABx C fs m a bx)"
  by (auto simp: luaK_codeABC_def luaK_codeABx_def luaK_codeAsBx_def codeABC_def codeABx_def intro!: regs_code post_bindI [OF regs_code])

lemma regs_nil [regs_intro]: "regs_ok fs \<Longrightarrow> regs (luaK_nil C fs a n)"
  by (auto simp: luaK_nil_def Let_def intro!: regs_codes post_reads)








lemma regs_in_reg [regs_intro]: "regs r \<Longrightarrow> regs2 (in_reg e n r)"
  unfolding in_reg_def by (erule post_bindI) auto




























end
