(* ===== verification/Spec2Isabelle.thy ===== *)
theory Spec2Isabelle
  imports LuaTabSort LuaOpcodes LuaDump LuaLex LuaCheck LuaGCMain LuaCodeProps
begin

text \<open>
  Verification of the core of the Lua 5.1.4 interpreter (\<open>src/lua-5.1.4/src\<close>).

  The program. The interpreter reads a chunk through a buffered stream (lzio.c), as source text
  (llex.c, lparser.c, lcode.c) or precompiled (lundump.c); either way it gets a function prototype
  (lobject.h), which lvm.c runs. Values are tagged (lobject.h); the collectable ones are objects of a
  heap: interned strings (lstring.c), tables (ltable.c), userdata, functions. Indexing, arithmetic,
  comparison and concatenation fall back on metamethods (lvm.c, ltm.c). C functions reach the state
  through the API (lapi.c) and the auxiliary library (lauxlib.c); the standard libraries are such
  functions (ltablib.c, lstrlib.c).

  Conventions. A machine integer is a word of its width, or an integer whose wrap-around or overflow is
  written out; \<open>int\<close> has 32 bits, \<open>size_t\<close> and pointers 64. A string is a list of
  characters. The result of an operation that can fail is \<open>'a res = lua_error + 'a\<close>: every error the
  code raises is an \<open>Inl\<close> with its message (\<open>ErrRun\<close>, \<open>ErrSyntax\<close>, \<open>ErrMem\<close>, a thrown value),
  and \<open>ErrUndef\<close> stands for a step the C standard leaves undefined, such as a read outside an array:
  a theorem that gives an \<open>Inr\<close> shows that the code makes none. What the C library computes
  (\<open>strtod\<close>, \<open>sprintf\<close>, \<open>strcoll\<close>, \<open>pow\<close>) and what the allocator, a reader or a writer answer are
  arguments of the definitions.

  Theories and code.
  LuaPrelude: names of the machine types, errors, the rule collections, lemmas on lists and words.
  LuaNumber: \<open>lua_Number\<close> (luaconf.h) as 64 bits, with the rounded operations.
  LuaObject: lobject.h and lobject.c: \<open>TValue\<close>, raw equality, \<open>luaO_int2fb\<close>, \<open>luaO_log2\<close>, \<open>luaO_chunkid\<close>.
  LuaOpcodes: lopcodes.h and lopcodes.c: the fields of an instruction, operation codes and their modes.
  LuaZio: lmem.c and lzio.c: growth of arrays, reallocation with its account, buffered input.
  LuaString: lstring.c and the mark bits of lgc.h: the table of interned strings.
  LuaTable: ltable.c, one definition per function; a table is the record \<open>Table\<close> with the array part,
  the node vector (links are indices), \<open>lastfree\<close> and the flags. LuaTableInv holds the invariant
  \<open>tab_inv\<close> of the chained scatter table and the lookup \<open>tab_get\<close>, LuaTableIns the three ways
  \<open>newkey\<close> places a key, LuaTableSizes the choice of the array size, LuaTableSet and LuaTableRehash
  writing, resizing and rehashing, LuaTableOps the operations together, LuaTableIter traversal and length.
  LuaRaw: the raw accesses of lapi.c and the refinement of a table to a map from keys to values.
  LuaAux: arguments of C functions, conversions and the argument checks of lauxlib.c.
  LuaRef: \<open>luaL_ref\<close> and \<open>luaL_unref\<close> over the contract \<open>int_table\<close> of a table with integer keys.
  LuaTabLib and LuaTabSort: ltablib.c over the operations of the API (the record \<open>api\<close>), with the
  contracts \<open>seq_table\<close> and \<open>sort_table\<close>; \<open>insert\<close>, \<open>remove\<close>, \<open>concat\<close>, traversals and the quicksort.
  LuaMeta: metatables and the operations of lvm.c on values (indexing, comparison, arithmetic,
  concatenation), over the state \<open>vm\<close> of tables, string contents and metatables.
  LuaProto, LuaDump: prototypes and lfunc.c's local names; ldump.c and lundump.c over byte streams.
  LuaMatch, LuaStrLib: lstrlib.c: the pattern matcher, and the functions of the library over the contract
  \<open>string_store\<close>, which the interning state of LuaString meets.
  LuaLex: llex.c over the streams of LuaZio.
  LuaCheck: the symbolic execution and the code checker of ldebug.c, with the control flow of
  \<open>luaV_execute\<close> and the operands of its instructions.

  LuaCode: the code generator (lcode.c) over the state \<open>FuncState\<close> of a function being compiled; the arrays
  of the prototype under construction are the lists of their elements in use. LuaCodeJumps: the lists of
  pending jumps. LuaCodeProps: constants, folded arithmetic, registers.

  LuaHeap: the heap of collectable objects (lobject.h, lstate.h), found by address (\<open>gc_heap\<close>), with the
  mark byte of each (\<open>gc_marked\<close>); the barriers of lgc.h and lgc.c, and the closures and upvalues of
  lfunc.c. LuaGC: the collector (lgc.c), one definition per function, over the state \<open>gstate\<close>, whose lists
  are those the links of the objects make. LuaGCRun: the entry points \<open>luaC_step\<close>, \<open>luaC_fullgc\<close>,
  \<open>luaC_callGCTM\<close>, \<open>luaC_freeall\<close>. LuaGCMain: a new state (lstate.c) and the properties. Between them
  the proofs: LuaGCInv (references and the tri-colour invariant; marking an object), LuaGCMark (propagation),
  LuaGCAtomic (the lists of objects; the parts of the atomic step), LuaGCSafe (the atomic step), LuaGCSweep
  (sweeping), LuaGCStep (the invariant \<open>gc_inv\<close> of all phases and every step), LuaGCMut (the steps of the
  program: writes with barriers, stacks, new objects).

  What the lemmas show. Tables: every operation keeps \<open>tab_inv\<close>; a lookup after a write gives the
  written value and leaves every other key; a rehash keeps every entry; a traversal visits every entry
  once; the length is a border. References are fresh and free slots are reused. Strings: equal contents
  have one object. Instructions, precompiled chunks and quoted strings can be read back. The pattern
  matcher stays in its subject and \<open>find\<close> in plain mode gives the first occurrence. \<open>table.sort\<close> sorts
  for a consistent order and always ends. Code the checker accepts stays inside its code, registers,
  constants and prototypes. In generated code a patched jump goes where it was sent and nothing else changes,
  a constant is found where its index says, folding gives what the machine would compute, and the registers stay
  in the frame. However the program and the collector take turns, an object that the program
  can reach is never freed, and every collection comes to its end. Error properties state the errors of bad keys, bad headers, failed writers
  and invalid order functions.

  Bounds and fuel. The loop along a chain of nodes looks at as many nodes as the vector has
  (\<open>find_chain\<close>): with the invariant a chain has no repeated node, so this is enough. Chains of
  metatables are limited by the code itself (\<open>MAXTAGLOOP\<close>). \<open>auxsort\<close> has fuel,
  because a comparison function may change the table for ever: for a consistent order, fuel above the
  length of the slice is enough (\<open>sort_sorts\<close>). Every other loop is a total
  function with a proved measure (the rest of the subject for the matcher, the bytes left of the
  stream for the lexer). Nesting of prototypes is bounded
  by \<open>LUAI_MAXCCALLS\<close>, as in the code. In the collector the recursion of \<open>reallymarkobject\<close> is at most three
  deep, from an open upvalue to a userdata to its tables (\<open>MARKDEPTH\<close>); propagation ends since the white objects and
  the gray list together become fewer (\<open>gray_work\<close>). The loops of \<open>luaC_step\<close> and \<open>luaC_fullgc\<close> have fuel,
  because a finalizer may run for ever; up to the finalizers enough fuel exists (\<open>collection_ends\<close>), and without
  userdata it does for the whole of \<open>luaC_fullgc\<close>. What a finalizer does is the argument \<open>call\<close>, which
  keeps the invariant (\<open>call_ok\<close>); one that raises an error is not covered. The steps of the program (\<open>gc_move\<close>)
  are writes to tables, closures, userdata, prototypes and closed upvalues, changes of stacks, new tables, functions,
  closed upvalues, prototypes and threads, and the switch of threads; new strings and userdata, and opening and closing
  upvalues, are modelled (LuaString, LuaHeap) but are no steps of that relation.

  The walks along a list of jumps have as fuel the number of instructions, which no list exceeds
  (\<open>jlist_length\<close>).

  Not modelled: the parser (lparser.c), the execution of the
  instructions and of calls (\<open>luaV_execute\<close>, ldo.c), coroutines, closing a state, the stack of the API, and the libraries that only call the C library (io, os, math, package,
  debug) with the stand-alone programs.
\<close>

end
